(* ===== verification/Ds4_Prelude.thy ===== *)
theory Ds4_Prelude
  imports Main "HOL-Library.Word"
begin

text \<open>
  Shared vocabulary of the development: the machine types of the C sources on the LP64
  platforms the program is built for (\<open>size_t\<close> has 64 bits), memory blocks as byte lists,
  the interface of a streaming digest (which four routines of the program implement and
  several loops use), and the interface of a fixed-width codec.
\<close>

unbundle bit_operations_syntax

type_synonym u8 = "8 word"
type_synonym u16 = "16 word"
type_synonym u32 = "32 word"
type_synonym u64 = "64 word"

named_theorems block_simps

lemma unat_ucast_up:
  fixes x :: "'a::len word"
  assumes "LENGTH('a) \<le> LENGTH('b::len)"
  shows "unat (ucast x :: 'b word) = unat x"
proof -
  have "unat x < 2 ^ LENGTH('a)" by (rule unsigned_less)
  also have "(2 :: nat) ^ LENGTH('a) \<le> 2 ^ LENGTH('b)" using assms by simp
  finally show ?thesis by (simp add: unsigned_ucast_eq take_bit_nat_eq_self)
qed

section \<open>First positions\<close>

lemma find_upt_Some: "List.find P [0..<n] = Some q \<longleftrightarrow> q < n \<and> P q \<and> (\<forall>i < q. \<not> P i)"
  by (auto simp: find_Some_iff)

lemma find_upt_None: "List.find P [0..<n] = None \<longleftrightarrow> (\<forall>i < n. \<not> P i)"
  by (auto simp: find_None_iff)

section \<open>Memory blocks\<close>

text \<open>
  \<open>blit dst off src\<close> is \<open>memcpy(dst + off, src, length src)\<close> on a block that is large
  enough; \<open>mslice off n xs\<close> are the \<open>n\<close> elements from offset \<open>off\<close>.
\<close>

definition blit :: "'a list \<Rightarrow> nat \<Rightarrow> 'a list \<Rightarrow> 'a list" where
  "blit dst off src = take off dst @ src @ drop (off + length src) dst"

definition mslice :: "nat \<Rightarrow> nat \<Rightarrow> 'a list \<Rightarrow> 'a list" where
  "mslice off n xs = take n (drop off xs)"

lemma length_blit [simp]: "off + length src \<le> length dst \<Longrightarrow> length (blit dst off src) = length dst"
  by (simp add: blit_def)

lemma length_mslice [simp]: "length (mslice off n xs) = min n (length xs - off)"
  by (simp add: mslice_def)

lemma blit_nth:
  "off + length src \<le> length dst \<Longrightarrow> i < length dst \<Longrightarrow>
    blit dst off src ! i =
      (if off \<le> i \<and> i < off + length src then src ! (i - off) else dst ! i)"
  by (auto simp: blit_def nth_append min_def)

lemma mslice_nth: "i < n \<Longrightarrow> off + i < length xs \<Longrightarrow> mslice off n xs ! i = xs ! (off + i)"
  by (simp add: mslice_def)

lemma mslice_blit_same [block_simps]:
  "off + length src \<le> length dst \<Longrightarrow> n = length src \<Longrightarrow> mslice off n (blit dst off src) = src"
  by (simp add: mslice_def blit_def)

lemma mslice_blit_before [block_simps]:
  "a + n \<le> off \<Longrightarrow> off + length src \<le> length dst \<Longrightarrow>
    mslice a n (blit dst off src) = mslice a n dst"
  by (rule nth_equalityI) (auto simp: mslice_nth blit_nth)

lemma mslice_blit_after [block_simps]:
  "off + length src \<le> a \<Longrightarrow> off + length src \<le> length dst \<Longrightarrow>
    mslice a n (blit dst off src) = mslice a n dst"
  by (rule nth_equalityI) (auto simp: mslice_nth blit_nth)

lemma mslice_append_left [block_simps]:
  "off + n \<le> length xs \<Longrightarrow> mslice off n (xs @ ys) = mslice off n xs"
  by (simp add: mslice_def)

lemma list_update_blit: "i < length xs \<Longrightarrow> xs[i := x] = blit xs i [x]"
  by (simp add: blit_def upd_conv_take_nth_drop)

lemma mslice_update_other [block_simps]:
  "i < off \<or> off + n \<le> i \<Longrightarrow> mslice off n (xs[i := x]) = mslice off n xs"
  by (rule nth_equalityI) (auto simp: mslice_nth)

lemma drop_mslice: "drop a (take (a + n) xs) = mslice a n xs"
  by (simp add: mslice_def drop_take)

text \<open>
  \<open>fread(buf, 1, n, fp) == n\<close> on the bytes that are left in the stream: the bytes read and
  those after them, or nothing when the stream is shorter.
\<close>

definition fread_exact :: "nat \<Rightarrow> 'a list \<Rightarrow> ('a list \<times> 'a list) option" where
  "fread_exact n fp = (if n \<le> length fp then Some (take n fp, drop n fp) else None)"

lemma fread_exact_append [simp]: "n = length xs \<Longrightarrow> fread_exact n (xs @ ys) = Some (xs, ys)"
  by (simp add: fread_exact_def)

lemma fread_exact_Some: "fread_exact n fp = Some (a, b) \<longleftrightarrow> n \<le> length fp \<and> a = take n fp \<and> b = drop n fp"
  by (auto simp: fread_exact_def)

section \<open>Streaming digests\<close>

text \<open>
  A digest is fed in pieces: \<open>init\<close>, then any number of \<open>upd\<close> calls, then \<open>fin\<close>.
  What it promises its callers is that only the concatenation of the pieces matters.
  The concrete states keep stale bytes in their block buffers, so the law is stated
  through a view of the state and a byte-at-a-time reference \<open>absorb\<close>.
\<close>

locale stream_digest =
  fixes init :: "'s"
    and upd :: "'s \<Rightarrow> 'b list \<Rightarrow> 's"
    and fin :: "'s \<Rightarrow> 'd"
    and inv :: "'s \<Rightarrow> bool"
    and view :: "'s \<Rightarrow> 'v"
    and absorb :: "'v \<Rightarrow> 'b list \<Rightarrow> 'v"
  assumes inv_init: "inv init"
    and inv_upd: "inv s \<Longrightarrow> inv (upd s xs)"
    and view_upd: "inv s \<Longrightarrow> view (upd s xs) = absorb (view s) xs"
    and absorb_append: "absorb v (xs @ ys) = absorb (absorb v xs) ys"
    and fin_view: "inv s \<Longrightarrow> inv t \<Longrightarrow> view s = view t \<Longrightarrow> fin s = fin t"
begin

lemma inv_chunks: "inv s \<Longrightarrow> inv (foldl upd s cs)"
  by (induction cs arbitrary: s) (auto intro: inv_upd)

lemma view_chunks: "inv s \<Longrightarrow> view (foldl upd s (c # cs)) = absorb (view s) (concat (c # cs))"
proof (induction cs arbitrary: s c)
  case Nil
  then show ?case by (simp add: view_upd)
next
  case (Cons d cs)
  then have "view (foldl upd (upd s c) (d # cs)) = absorb (view (upd s c)) (concat (d # cs))"
    by (intro Cons.IH inv_upd)
  with Cons.prems show ?case by (simp add: view_upd absorb_append)
qed

lemma view_split: "inv s \<Longrightarrow> view (upd (upd s xs) ys) = view (upd s (xs @ ys))"
  by (simp add: view_upd inv_upd absorb_append)

lemma fin_split: "inv s \<Longrightarrow> fin (upd (upd s xs) ys) = fin (upd s (xs @ ys))"
  by (rule fin_view) (auto intro: inv_upd simp: view_split)

lemma fin_upd_cong:
  "inv s \<Longrightarrow> inv t \<Longrightarrow> view s = view t \<Longrightarrow> fin (upd s xs) = fin (upd t xs)"
  by (rule fin_view) (auto intro: inv_upd simp: view_upd)

lemma fin_chunks:
  assumes "inv s" and "cs \<noteq> []"
  shows "fin (foldl upd s cs) = fin (upd s (concat cs))"
proof (rule fin_view)
  show "view (foldl upd s cs) = view (upd s (concat cs))"
    using assms by (cases cs) (auto simp: view_chunks view_upd simp del: foldl_Cons)
qed (use assms in \<open>auto intro: inv_chunks inv_upd\<close>)

end

subsection \<open>Feeding a block routine one byte at a time\<close>

text \<open>
  The reference every buffered digest is compared with: collect bytes, and whenever \<open>k\<close> of
  them are there run the block routine \<open>f\<close> on the chaining value.
\<close>

fun absorb_bytes ::
  "nat \<Rightarrow> ('h \<Rightarrow> 'b list \<Rightarrow> 'h) \<Rightarrow> 'h \<Rightarrow> 'b list \<Rightarrow> 'b list \<Rightarrow> 'h \<times> 'b list" where
  "absorb_bytes k f h t [] = (h, t)"
| "absorb_bytes k f h t (b # bs) =
     (if Suc (length t) = k then absorb_bytes k f (f h (t @ [b])) [] bs
      else absorb_bytes k f h (t @ [b]) bs)"

lemma absorb_bytes_append:
  "absorb_bytes k f h t (xs @ ys) =
    (let (h', t') = absorb_bytes k f h t xs in absorb_bytes k f h' t' ys)"
  by (induction k f h t xs rule: absorb_bytes.induct) auto

lemma absorb_bytes_part:
  "length t + length xs < k \<Longrightarrow> absorb_bytes k f h t xs = (h, t @ xs)"
  by (induction k f h t xs rule: absorb_bytes.induct) auto

lemma absorb_bytes_full:
  "length t + length xs = k \<Longrightarrow> xs \<noteq> [] \<Longrightarrow>
    absorb_bytes k f h t (xs @ ys) = absorb_bytes k f (f h (t @ xs)) [] ys"
proof (induction xs arbitrary: t)
  case Nil
  then show ?case by simp
next
  case (Cons x xs)
  show ?case
  proof (cases "xs = []")
    case True
    with Cons.prems show ?thesis by simp
  next
    case False
    then have "Suc (length t) \<noteq> k" using Cons.prems(1) by (cases xs) auto
    with Cons.prems False show ?thesis using Cons.IH [of "t @ [x]"] by simp
  qed
qed

lemma absorb_bytes_length:
  "length t < k \<Longrightarrow> absorb_bytes k f h t xs = (h', t') \<Longrightarrow>
    length t' < k \<and> length t' = (length t + length xs) mod k"
proof (induction k f h t xs rule: absorb_bytes.induct)
  case (1 k f h t)
  then show ?case by simp
next
  case (2 k f h t b bs)
  show ?case
  proof (cases "Suc (length t) = k")
    case True
    with 2 have "length t' < k \<and> length t' = length bs mod k" by simp
    moreover from True have "(length t + length (b # bs)) mod k = length bs mod k"
      by (metis add_Suc_right add_Suc mod_add_self1 length_Cons)
    ultimately show ?thesis by simp
  next
    case False
    with 2 show ?thesis by simp
  qed
qed

text \<open>Whole blocks, as a fold over the message cut into pieces of \<open>k\<close>.\<close>

function chunks :: "nat \<Rightarrow> 'a list \<Rightarrow> 'a list list" where
  "chunks k xs = (if k = 0 \<or> length xs < k then [] else take k xs # chunks k (drop k xs))"
  by pat_completeness auto
termination by (relation "measure (\<lambda>(k, xs). length xs)") auto

declare chunks.simps [simp del]

lemma absorb_bytes_chunks:
  assumes "0 < k" and "length xs mod k = 0"
  shows "absorb_bytes k f h [] xs = (foldl f h (chunks k xs), [])"
  using assms
proof (induction k xs arbitrary: h rule: chunks.induct)
  case (1 k xs)
  show ?case
  proof (cases "length xs < k")
    case True
    with "1.prems" have "xs = []" by simp
    with True show ?thesis by (simp add: chunks.simps)
  next
    case False
    then have "absorb_bytes k f h [] (take k xs @ drop k xs) =
        absorb_bytes k f (f h (take k xs)) [] (drop k xs)"
      using "1.prems" absorb_bytes_full [of "[]" "take k xs" k f h "drop k xs"] by fastforce
    moreover have "length (drop k xs) mod k = 0"
      using "1.prems" False by (simp add: le_mod_geq)
    ultimately show ?thesis
      using "1.IH" "1.prems" False by (simp add: chunks.simps [of k xs])
  qed
qed

section \<open>Codecs\<close>

text \<open>
  A codec writes a value as a fixed number of bytes and reads it back from a pointer to
  them, whatever follows in the block.
\<close>

locale fixed_codec =
  fixes put :: "'a \<Rightarrow> u8 list"
    and get :: "u8 list \<Rightarrow> 'a"
    and width :: nat
  assumes length_put: "length (put v) = width"
    and get_put: "get (put v @ rest) = v"
    and get_take: "width \<le> length bs \<Longrightarrow> get bs = get (take width bs)"
begin

lemma get_at_blit:
  assumes "off + width \<le> length dst"
  shows "get (drop off (blit dst off (put v))) = v"
proof -
  have "drop off (blit dst off (put v)) = put v @ drop (off + width) dst"
    using assms by (simp add: blit_def length_put)
  then show ?thesis by (simp add: get_put)
qed

lemma get_drop_mslice: "off + width \<le> length bs \<Longrightarrow> get (drop off bs) = get (mslice off width bs)"
  by (subst get_take) (auto simp: mslice_def)

lemma put_inj: "put v = put w \<Longrightarrow> v = w"
  using get_put [of v "[]"] get_put [of w "[]"] by simp

end

end
