(* ===== verification/Word_Digest.thy ===== *)
theory Word_Digest
  imports Ds4_Prelude
begin

text \<open>
  The word-wise 64-bit FNV-style payload digest. The program carries it twice, in
  ds4_kvstore.c (\<open>kv_hash_*\<close>) and in ds4_snapstore.c (\<open>ss_hash_*\<close>), because the two
  stores are linked apart. \<open>memcpy\<close> of eight bytes into a \<open>uint64_t\<close> is the little-endian
  load of the supported hosts (arm64, x86-64).
\<close>

section \<open>The digest of the KV store\<close>

definition KV_HASH_PRIME :: u64 where "KV_HASH_PRIME = 0x100000001b3"
definition KV_HASH_BASIS :: u64 where "KV_HASH_BASIS = 0xcbf29ce484222325"

definition kv_hash_mix :: "u64 \<Rightarrow> u64 \<Rightarrow> u64" where
  "kv_hash_mix h w =
     (let h = h XOR w; h = h * KV_HASH_PRIME in h XOR drop_bit 29 h)"

definition kv_load64 :: "u8 list \<Rightarrow> u64" where
  "kv_load64 p = foldr (\<lambda>b w. push_bit 8 w OR ucast b) (take 8 p) 0"

record kv_hash =
  kh_h :: u64
  kh_n :: u64
  kh_tail :: "u8 list"  \<comment> \<open>\<open>uint8_t tail[8]\<close>\<close>
  kh_tl :: nat

definition kv_hash_init :: kv_hash where
  "kv_hash_init = \<lparr>kh_h = KV_HASH_BASIS, kh_n = 0, kh_tail = replicate 8 0, kh_tl = 0\<rparr>"

text \<open>The three loops of \<open>ds4_kvstore_hash_update\<close>: fill a started tail, whole words, the rest.\<close>

fun kv_hash_fill :: "kv_hash \<Rightarrow> u8 list \<Rightarrow> kv_hash \<times> u8 list" where
  "kv_hash_fill s [] = (s, [])"
| "kv_hash_fill s (b # bs) =
     (if kh_tl s = 0 then (s, b # bs)
      else let s = s\<lparr>kh_tail := (kh_tail s)[kh_tl s := b], kh_tl := Suc (kh_tl s)\<rparr>
           in if kh_tl s = 8
              then kv_hash_fill (s\<lparr>kh_h := kv_hash_mix (kh_h s) (kv_load64 (kh_tail s)), kh_tl := 0\<rparr>) bs
              else kv_hash_fill s bs)"

function kv_hash_words :: "u64 \<Rightarrow> u8 list \<Rightarrow> u64 \<times> u8 list" where
  "kv_hash_words h b =
     (if 8 \<le> length b then kv_hash_words (kv_hash_mix h (kv_load64 b)) (drop 8 b) else (h, b))"
  by pat_completeness auto
termination by (relation "measure (\<lambda>(h, b). length b)") auto

declare kv_hash_words.simps [simp del]

fun kv_hash_rest :: "kv_hash \<Rightarrow> u8 list \<Rightarrow> kv_hash" where
  "kv_hash_rest s [] = s"
| "kv_hash_rest s (b # bs) =
     kv_hash_rest (s\<lparr>kh_tail := (kh_tail s)[kh_tl s := b], kh_tl := Suc (kh_tl s)\<rparr>) bs"

definition kv_hash_update :: "kv_hash \<Rightarrow> u8 list \<Rightarrow> kv_hash" where
  "kv_hash_update s p =
     (let s = s\<lparr>kh_n := kh_n s + of_nat (length p)\<rparr>;
          (s, b) = kv_hash_fill s p;
          (h, b) = kv_hash_words (kh_h s) b
      in kv_hash_rest (s\<lparr>kh_h := h\<rparr>) b)"

definition kv_hash_final :: "kv_hash \<Rightarrow> u64" where
  "kv_hash_final s =
     (let h = (if kh_tl s \<noteq> 0
               then kv_hash_mix (kh_h s)
                      (kv_load64 (blit (replicate 8 0) 0 (take (kh_tl s) (kh_tail s))))
               else kh_h s)
      in kv_hash_mix h (kh_n s))"

definition kv_payload_hash :: "u8 list \<Rightarrow> u64" where
  "kv_payload_hash p = kv_hash_final (kv_hash_update kv_hash_init p)"

subsection \<open>Reference: one byte at a time\<close>

abbreviation kv_absorb :: "u64 \<Rightarrow> u8 list \<Rightarrow> u8 list \<Rightarrow> u64 \<times> u8 list" where
  "kv_absorb \<equiv> absorb_bytes 8 (\<lambda>h w. kv_hash_mix h (kv_load64 w))"

definition kv_hash_inv :: "kv_hash \<Rightarrow> bool" where
  "kv_hash_inv s \<longleftrightarrow> length (kh_tail s) = 8 \<and> kh_tl s < 8"

definition kv_hash_view :: "kv_hash \<Rightarrow> (u64 \<times> u8 list) \<times> u64" where
  "kv_hash_view s = ((kh_h s, take (kh_tl s) (kh_tail s)), kh_n s)"

definition kv_view_absorb ::
  "(u64 \<times> u8 list) \<times> u64 \<Rightarrow> u8 list \<Rightarrow> (u64 \<times> u8 list) \<times> u64" where
  "kv_view_absorb v xs = (kv_absorb (fst (fst v)) (snd (fst v)) xs, snd v + of_nat (length xs))"

lemma kv_hash_fill_spec:
  assumes "kv_hash_inv s" and "kv_hash_fill s xs = (s', ys)"
  shows "kv_hash_inv s' \<and> kh_n s' = kh_n s \<and> (ys = [] \<or> kh_tl s' = 0) \<and>
    kv_absorb (kh_h s) (take (kh_tl s) (kh_tail s)) xs =
    kv_absorb (kh_h s') (take (kh_tl s') (kh_tail s')) ys"
  using assms
proof (induction s xs arbitrary: s' ys rule: kv_hash_fill.induct)
  case (1 s)
  then show ?case by simp
next
  case (2 s b bs)
  show ?case
  proof (cases "kh_tl s = 0")
    case True
    with "2.prems" show ?thesis by auto
  next
    case False
    let ?s = "s\<lparr>kh_tail := (kh_tail s)[kh_tl s := b], kh_tl := Suc (kh_tl s)\<rparr>"
    from "2.prems"(1) have len: "length (kh_tail s) = 8" "kh_tl s < 8"
      by (auto simp: kv_hash_inv_def)
    have tk: "take (Suc (kh_tl s)) ((kh_tail s)[kh_tl s := b]) = take (kh_tl s) (kh_tail s) @ [b]"
      using len by (simp add: take_Suc_conv_app_nth)
    show ?thesis
    proof (cases "kh_tl s = 7")
      case True
      with len tk have full: "(kh_tail s)[7 := b] = take 7 (kh_tail s) @ [b]"
        by simp
      let ?t = "?s\<lparr>kh_h := kv_hash_mix (kh_h ?s) (kv_load64 (kh_tail ?s)), kh_tl := 0\<rparr>"
      from "2.prems"(2) False True have "kv_hash_fill ?t bs = (s', ys)"
        by (simp add: Let_def)
      moreover from len have "kv_hash_inv ?t" by (simp add: kv_hash_inv_def)
      ultimately have *: "kv_hash_inv s' \<and> kh_n s' = kh_n ?t \<and> (ys = [] \<or> kh_tl s' = 0) \<and>
          kv_absorb (kh_h ?t) (take (kh_tl ?t) (kh_tail ?t)) bs =
          kv_absorb (kh_h s') (take (kh_tl s') (kh_tail s')) ys"
        using False True by (intro "2.IH"(1)) (auto simp: Let_def)
      with True len full show ?thesis by simp
    next
      case nf: False
      from "2.prems"(2) False nf have "kv_hash_fill ?s bs = (s', ys)"
        by (simp add: Let_def split: if_splits)
      moreover from len nf have "kv_hash_inv ?s" by (simp add: kv_hash_inv_def)
      ultimately have "kv_hash_inv s' \<and> kh_n s' = kh_n ?s \<and> (ys = [] \<or> kh_tl s' = 0) \<and>
          kv_absorb (kh_h ?s) (take (kh_tl ?s) (kh_tail ?s)) bs =
          kv_absorb (kh_h s') (take (kh_tl s') (kh_tail s')) ys"
        using False nf by (intro "2.IH"(2)) (auto simp: Let_def)
      with nf len tk show ?thesis by simp
    qed
  qed
qed

lemma kv_hash_words_spec:
  "kv_hash_words h b = (h', b') \<Longrightarrow>
    kv_absorb h [] b = kv_absorb h' [] b' \<and> length b' < 8"
proof (induction h b rule: kv_hash_words.induct)
  case (1 h b)
  show ?case
  proof (cases "8 \<le> length b")
    case True
    have "kv_absorb h [] (take 8 b @ drop 8 b) =
        kv_absorb (kv_hash_mix h (kv_load64 (take 8 b))) [] (drop 8 b)"
      using True absorb_bytes_full [of "[]" "take 8 b" 8 _ h "drop 8 b"] by fastforce
    then have "kv_absorb h [] b = kv_absorb (kv_hash_mix h (kv_load64 b)) [] (drop 8 b)"
      by (simp add: kv_load64_def)
    with 1 True show ?thesis by (simp add: kv_hash_words.simps [of h b])
  next
    case False
    with "1.prems" show ?thesis by (simp add: kv_hash_words.simps [of h b])
  qed
qed

lemma kv_hash_rest_spec:
  "length (kh_tail s) = 8 \<Longrightarrow> kh_tl s + length xs < 8 \<Longrightarrow>
    kv_hash_inv (kv_hash_rest s xs) \<and> kh_n (kv_hash_rest s xs) = kh_n s \<and>
    (kh_h (kv_hash_rest s xs), take (kh_tl (kv_hash_rest s xs)) (kh_tail (kv_hash_rest s xs))) =
    kv_absorb (kh_h s) (take (kh_tl s) (kh_tail s)) xs"
proof (induction s xs rule: kv_hash_rest.induct)
  case (1 s)
  then show ?case by (simp add: kv_hash_inv_def)
next
  case (2 s b bs)
  then have "take (Suc (kh_tl s)) ((kh_tail s)[kh_tl s := b]) = take (kh_tl s) (kh_tail s) @ [b]"
    by (simp add: take_Suc_conv_app_nth)
  with 2 show ?case by simp
qed

text \<open>The three loops together are the reference, whatever was fed before.\<close>

lemma kv_hash_update_spec:
  assumes "kv_hash_inv s"
  shows "kv_hash_inv (kv_hash_update s xs) \<and>
    kv_hash_view (kv_hash_update s xs) = kv_view_absorb (kv_hash_view s) xs"
proof -
  let ?s = "s\<lparr>kh_n := kh_n s + of_nat (length xs)\<rparr>"
  obtain s1 ys where fill: "kv_hash_fill ?s xs = (s1, ys)" by fastforce
  obtain h zs where words: "kv_hash_words (kh_h s1) ys = (h, zs)" by fastforce
  let ?t = "s1\<lparr>kh_h := h\<rparr>"
  have upd: "kv_hash_update s xs = kv_hash_rest ?t zs"
    by (simp add: kv_hash_update_def Let_def fill words)
  from assms have "kv_hash_inv ?s" by (simp add: kv_hash_inv_def)
  from kv_hash_fill_spec [OF this fill]
  have s1: "length (kh_tail s1) = 8" "kh_n s1 = kh_n s + of_nat (length xs)" "ys = [] \<or> kh_tl s1 = 0"
      "kh_tl s1 < 8"
    and a1: "kv_absorb (kh_h s) (take (kh_tl s) (kh_tail s)) xs =
      kv_absorb (kh_h s1) (take (kh_tl s1) (kh_tail s1)) ys"
    by (auto simp: kv_hash_inv_def)
  from kv_hash_words_spec [OF words]
  have w: "kv_absorb (kh_h s1) [] ys = kv_absorb h [] zs" "length zs < 8" by auto
  have zs: "ys = [] \<Longrightarrow> zs = [] \<and> h = kh_h s1" using words by (simp add: kv_hash_words.simps)
  have a2: "kv_absorb (kh_h s1) (take (kh_tl s1) (kh_tail s1)) ys =
      kv_absorb h (take (kh_tl s1) (kh_tail s1)) zs"
    using s1(3) zs w(1) by (cases "ys = []") auto
  have "kh_tl ?t + length zs < 8" using s1 zs w(2) by (cases "ys = []") auto
  then show ?thesis
    using kv_hash_rest_spec [of ?t zs] s1 a1 a2
    by (simp add: upd kv_hash_view_def kv_view_absorb_def)
qed

lemma kv_hash_final_view:
  "kv_hash_inv s \<Longrightarrow> kv_hash_inv t \<Longrightarrow> kv_hash_view s = kv_hash_view t \<Longrightarrow>
    kv_hash_final s = kv_hash_final t"
  by (auto simp: kv_hash_final_def kv_hash_view_def kv_hash_inv_def blit_def)

interpretation kvh: stream_digest kv_hash_init kv_hash_update kv_hash_final
  kv_hash_inv kv_hash_view kv_view_absorb
proof unfold_locales
  show "kv_hash_inv kv_hash_init" by (simp add: kv_hash_inv_def kv_hash_init_def)
next
  fix v :: "(u64 \<times> u8 list) \<times> u64" and xs ys :: "u8 list"
  show "kv_view_absorb v (xs @ ys) = kv_view_absorb (kv_view_absorb v xs) ys"
    by (simp add: kv_view_absorb_def absorb_bytes_append split: prod.split)
qed (auto simp: kv_hash_update_spec intro: kv_hash_final_view)

section \<open>The digest of the snapshot store\<close>

definition SS_PRIME :: u64 where "SS_PRIME = 0x100000001b3"
definition SS_BASIS :: u64 where "SS_BASIS = 0xcbf29ce484222325"

definition ss_mix :: "u64 \<Rightarrow> u64 \<Rightarrow> u64" where
  "ss_mix h w = (let h = h XOR w; h = h * SS_PRIME in h XOR drop_bit 29 h)"

definition ss_load64 :: "u8 list \<Rightarrow> u64" where
  "ss_load64 p = foldr (\<lambda>b w. push_bit 8 w OR ucast b) (take 8 p) 0"

record ss_hash =
  sh_h :: u64
  sh_n :: u64
  sh_tail :: "u8 list"
  sh_tl :: nat

definition ss_hash_init :: ss_hash where
  "ss_hash_init = \<lparr>sh_h = SS_BASIS, sh_n = 0, sh_tail = replicate 8 0, sh_tl = 0\<rparr>"

fun ss_hash_fill :: "ss_hash \<Rightarrow> u8 list \<Rightarrow> ss_hash \<times> u8 list" where
  "ss_hash_fill s [] = (s, [])"
| "ss_hash_fill s (b # bs) =
     (if sh_tl s = 0 then (s, b # bs)
      else let s = s\<lparr>sh_tail := (sh_tail s)[sh_tl s := b], sh_tl := Suc (sh_tl s)\<rparr>
           in if sh_tl s = 8
              then ss_hash_fill (s\<lparr>sh_h := ss_mix (sh_h s) (ss_load64 (sh_tail s)), sh_tl := 0\<rparr>) bs
              else ss_hash_fill s bs)"

function ss_hash_words :: "u64 \<Rightarrow> u8 list \<Rightarrow> u64 \<times> u8 list" where
  "ss_hash_words h b =
     (if 8 \<le> length b then ss_hash_words (ss_mix h (ss_load64 b)) (drop 8 b) else (h, b))"
  by pat_completeness auto
termination by (relation "measure (\<lambda>(h, b). length b)") auto

declare ss_hash_words.simps [simp del]

fun ss_hash_rest :: "ss_hash \<Rightarrow> u8 list \<Rightarrow> ss_hash" where
  "ss_hash_rest s [] = s"
| "ss_hash_rest s (b # bs) =
     ss_hash_rest (s\<lparr>sh_tail := (sh_tail s)[sh_tl s := b], sh_tl := Suc (sh_tl s)\<rparr>) bs"

definition ss_hash_update :: "ss_hash \<Rightarrow> u8 list \<Rightarrow> ss_hash" where
  "ss_hash_update s p =
     (let s = s\<lparr>sh_n := sh_n s + of_nat (length p)\<rparr>;
          (s, b) = ss_hash_fill s p;
          (h, b) = ss_hash_words (sh_h s) b
      in ss_hash_rest (s\<lparr>sh_h := h\<rparr>) b)"

definition ss_hash_final :: "ss_hash \<Rightarrow> u64" where
  "ss_hash_final s =
     (let h = (if sh_tl s \<noteq> 0
               then ss_mix (sh_h s)
                      (ss_load64 (blit (replicate 8 0) 0 (take (sh_tl s) (sh_tail s))))
               else sh_h s)
      in ss_mix h (sh_n s))"

definition ss_hash_bytes :: "u8 list \<Rightarrow> u64" where
  "ss_hash_bytes p = ss_hash_final (ss_hash_update ss_hash_init p)"

subsection \<open>Both copies are the same digest\<close>

definition kv_of_ss :: "ss_hash \<Rightarrow> kv_hash" where
  "kv_of_ss s = \<lparr>kh_h = sh_h s, kh_n = sh_n s, kh_tail = sh_tail s, kh_tl = sh_tl s\<rparr>"

lemma kv_of_ss_sel [simp]:
  "kh_h (kv_of_ss s) = sh_h s" "kh_n (kv_of_ss s) = sh_n s"
  "kh_tail (kv_of_ss s) = sh_tail s" "kh_tl (kv_of_ss s) = sh_tl s"
  by (simp_all add: kv_of_ss_def)

lemma kv_of_ss_upd:
  "kv_of_ss (s\<lparr>sh_n := x\<rparr>) = (kv_of_ss s)\<lparr>kh_n := x\<rparr>"
  "kv_of_ss (s\<lparr>sh_h := y\<rparr>) = (kv_of_ss s)\<lparr>kh_h := y\<rparr>"
  by (simp_all add: kv_of_ss_def)

lemma ss_mix_eq: "ss_mix = kv_hash_mix"
  by (simp add: fun_eq_iff ss_mix_def kv_hash_mix_def SS_PRIME_def KV_HASH_PRIME_def)

lemma ss_load64_eq: "ss_load64 = kv_load64"
  by (simp add: fun_eq_iff ss_load64_def kv_load64_def)

lemmas ss_prims = ss_mix_eq ss_load64_eq

lemma kv_of_ss_init: "kv_of_ss ss_hash_init = kv_hash_init"
  by (simp add: kv_of_ss_def ss_hash_init_def kv_hash_init_def SS_BASIS_def KV_HASH_BASIS_def)

lemma kv_of_ss_fill:
  "kv_hash_fill (kv_of_ss s) xs = (let (t, ys) = ss_hash_fill s xs in (kv_of_ss t, ys))"
  by (induction s xs rule: ss_hash_fill.induct) (auto simp: Let_def ss_prims kv_of_ss_def)

lemma ss_hash_words_eq: "ss_hash_words h b = kv_hash_words h b"
  by (induction h b rule: ss_hash_words.induct)
     (subst ss_hash_words.simps, subst kv_hash_words.simps, simp add: ss_prims)

lemma kv_of_ss_rest: "kv_of_ss (ss_hash_rest s xs) = kv_hash_rest (kv_of_ss s) xs"
  by (induction s xs rule: ss_hash_rest.induct) (auto simp: kv_of_ss_def)

lemma kv_of_ss_update: "kv_of_ss (ss_hash_update s xs) = kv_hash_update (kv_of_ss s) xs"
proof -
  let ?s = "s\<lparr>sh_n := sh_n s + of_nat (length xs)\<rparr>"
  have "kv_hash_fill ((kv_of_ss s)\<lparr>kh_n := sh_n s + of_nat (length xs)\<rparr>) xs =
      (let (t, ys) = ss_hash_fill ?s xs in (kv_of_ss t, ys))"
    using kv_of_ss_fill [of ?s xs] by (simp only: kv_of_ss_upd)
  then show ?thesis
    by (simp add: ss_hash_update_def kv_hash_update_def Let_def kv_of_ss_rest kv_of_ss_upd
        ss_hash_words_eq split: prod.splits)
qed

lemma ss_hash_final_eq: "ss_hash_final s = kv_hash_final (kv_of_ss s)"
  by (simp add: ss_hash_final_def kv_hash_final_def ss_prims)

lemma ss_hash_bytes_eq: "ss_hash_bytes p = kv_payload_hash p"
  by (simp add: ss_hash_bytes_def kv_payload_hash_def ss_hash_final_eq kv_of_ss_update kv_of_ss_init)

interpretation ssh: stream_digest ss_hash_init ss_hash_update ss_hash_final
  "\<lambda>s. kv_hash_inv (kv_of_ss s)" "\<lambda>s. kv_hash_view (kv_of_ss s)" kv_view_absorb
  by unfold_locales
     (auto simp: kv_of_ss_init kv_of_ss_update ss_hash_final_eq kvh.inv_init kv_hash_update_spec
       kvh.absorb_append intro: kv_hash_final_view)

section \<open>Hashing a file in pieces\<close>

text \<open>
  \<open>ds4_ss_hash_file\<close> reads the file in blocks of \<open>CHUNK\<close> bytes. A file is its contents, or
  \<open>None\<close> when it cannot be opened; that the allocation fails and that the stream ends in a
  read error (\<open>ferror\<close>) are inputs of the model.
\<close>

definition SS_CHUNK :: nat where "SS_CHUNK = 4194304"

datatype ss_file_error = Ss_cannot_open | Ss_out_of_memory | Ss_cannot_read

function ss_hash_file_loop :: "ss_hash \<Rightarrow> u8 list \<Rightarrow> ss_hash" where
  "ss_hash_file_loop s fp =
     (if take SS_CHUNK fp \<noteq> []
      then ss_hash_file_loop (ss_hash_update s (take SS_CHUNK fp)) (drop SS_CHUNK fp)
      else s)"
  by pat_completeness auto
termination
  by (relation "measure (\<lambda>(s, fp). length fp)") (auto simp: SS_CHUNK_def)

declare ss_hash_file_loop.simps [simp del]

definition ss_hash_file ::
  "u8 list option \<Rightarrow> bool \<Rightarrow> bool \<Rightarrow> ss_file_error + (u64 \<times> u64)" where
  "ss_hash_file file alloc_ok bad =
     (case file of
        None \<Rightarrow> Inl Ss_cannot_open
      | Some fp \<Rightarrow>
          if \<not> alloc_ok then Inl Ss_out_of_memory
          else let s = ss_hash_file_loop ss_hash_init fp
               in if bad then Inl Ss_cannot_read else Inr (sh_n s, ss_hash_final s))"

lemma ss_hash_file_loop_view:
  "kv_hash_inv (kv_of_ss s) \<Longrightarrow>
    kv_hash_inv (kv_of_ss (ss_hash_file_loop s fp)) \<and>
    kv_hash_view (kv_of_ss (ss_hash_file_loop s fp)) = kv_hash_view (kv_of_ss (ss_hash_update s fp))"
proof (induction s fp rule: ss_hash_file_loop.induct)
  case (1 s fp)
  show ?case
  proof (cases "take SS_CHUNK fp = []")
    case True
    then have "fp = []" by (simp add: SS_CHUNK_def)
    with "1.prems" show ?thesis
      by (simp add: ss_hash_file_loop.simps ssh.view_upd kv_view_absorb_def)
  next
    case False
    let ?t = "ss_hash_update s (take SS_CHUNK fp)"
    have "kv_hash_inv (kv_of_ss ?t)" using "1.prems" by (rule ssh.inv_upd)
    with "1.IH" False have
      "kv_hash_inv (kv_of_ss (ss_hash_file_loop ?t (drop SS_CHUNK fp))) \<and>
       kv_hash_view (kv_of_ss (ss_hash_file_loop ?t (drop SS_CHUNK fp))) =
       kv_hash_view (kv_of_ss (ss_hash_update ?t (drop SS_CHUNK fp)))" by blast
    moreover have "kv_hash_view (kv_of_ss (ss_hash_update ?t (drop SS_CHUNK fp))) =
        kv_hash_view (kv_of_ss (ss_hash_update s fp))"
      using ssh.view_split [OF "1.prems", of "take SS_CHUNK fp" "drop SS_CHUNK fp"] by simp
    ultimately show ?thesis using False by (simp add: ss_hash_file_loop.simps [of s fp])
  qed
qed

end
