(* ===== verification/Sha1_Digest.thy ===== *)
theory Sha1_Digest
  imports Ds4_Prelude
begin

text \<open>
  The SHA-1 routine of ds4_kvstore.c, which names the checkpoint files. The definitions
  follow \<open>sha1_transform\<close>, \<open>sha1_init\<close>, \<open>sha1_update\<close>, \<open>sha1_final\<close> and \<open>hex20\<close>; the
  reference pads the whole message and folds the block routine over it.
\<close>

section \<open>The code\<close>

record sha1_ctx =
  s1_h :: "u32 list"     \<comment> \<open>\<open>uint32_t h[5]\<close>\<close>
  s1_bytes :: u64
  s1_block :: "u8 list"  \<comment> \<open>\<open>uint8_t block[64]\<close>\<close>
  s1_used :: nat

definition rol32 :: "u32 \<Rightarrow> nat \<Rightarrow> u32" where
  "rol32 v n = push_bit n v OR drop_bit (32 - n) v"

definition sha1_be32 :: "u8 list \<Rightarrow> nat \<Rightarrow> u32" where
  "sha1_be32 block i =
     push_bit 24 (ucast (block ! (i * 4))) OR push_bit 16 (ucast (block ! (i * 4 + 1))) OR
     push_bit 8 (ucast (block ! (i * 4 + 2))) OR ucast (block ! (i * 4 + 3))"

definition sha1_schedule :: "u8 list \<Rightarrow> u32 list" where
  "sha1_schedule block =
     fold (\<lambda>i w. w @ [rol32 (w ! (i - 3) XOR w ! (i - 8) XOR w ! (i - 14) XOR w ! (i - 16)) 1])
       [16..<80] (map (sha1_be32 block) [0..<16])"

definition sha1_round :: "u32 list \<Rightarrow> nat \<Rightarrow> u32 \<times> u32 \<times> u32 \<times> u32 \<times> u32 \<Rightarrow>
    u32 \<times> u32 \<times> u32 \<times> u32 \<times> u32" where
  "sha1_round w i = (\<lambda>(a, b, cc, d, e).
     let (f, k) =
          (if i < 20 then ((b AND cc) OR (NOT b AND d), 0x5a827999)
           else if i < 40 then (b XOR cc XOR d, 0x6ed9eba1)
           else if i < 60 then ((b AND cc) OR (b AND d) OR (cc AND d), 0x8f1bbcdc)
           else (b XOR cc XOR d, 0xca62c1d6));
         tmp = rol32 a 5 + f + e + k + w ! i
     in (tmp, a, rol32 b 30, cc, d))"

definition sha1_transform :: "u32 list \<Rightarrow> u8 list \<Rightarrow> u32 list" where
  "sha1_transform h block =
     (let w = sha1_schedule block;
          (a, b, cc, d, e) =
            fold (sha1_round w) [0..<80] (h ! 0, h ! 1, h ! 2, h ! 3, h ! 4)
      in [h ! 0 + a, h ! 1 + b, h ! 2 + cc, h ! 3 + d, h ! 4 + e])"

definition sha1_init :: sha1_ctx where
  "sha1_init = \<lparr>s1_h = [0x67452301, 0xefcdab89, 0x98badcfe, 0x10325476, 0xc3d2e1f0],
     s1_bytes = 0, s1_block = replicate 64 0, s1_used = 0\<rparr>"

text \<open>
  The copy loop of \<open>sha1_update\<close>. Between calls \<open>used\<close> is below 64 (\<open>sha1_inv\<close>); the
  conjunct \<open>s1_used c < 64\<close> states it where the loop makes progress because of it.
\<close>

function sha1_update_loop :: "sha1_ctx \<Rightarrow> u8 list \<Rightarrow> sha1_ctx" where
  "sha1_update_loop c p =
     (if p \<noteq> [] \<and> s1_used c < 64
      then let n = min (64 - s1_used c) (length p);
               c = c\<lparr>s1_block := blit (s1_block c) (s1_used c) (take n p), s1_used := s1_used c + n\<rparr>;
               c = (if s1_used c = 64
                    then c\<lparr>s1_h := sha1_transform (s1_h c) (s1_block c), s1_used := 0\<rparr> else c)
           in sha1_update_loop c (drop n p)
      else c)"
  by pat_completeness auto
termination by (relation "measure (\<lambda>(c, p). length p)") auto

declare sha1_update_loop.simps [simp del]

definition sha1_update :: "sha1_ctx \<Rightarrow> u8 list \<Rightarrow> sha1_ctx" where
  "sha1_update c p = sha1_update_loop (c\<lparr>s1_bytes := s1_bytes c + of_nat (length p)\<rparr>) p"

subsection \<open>The invariant and the byte-wise reference\<close>

definition sha1_inv :: "sha1_ctx \<Rightarrow> bool" where
  "sha1_inv c \<longleftrightarrow> length (s1_block c) = 64 \<and> s1_used c < 64"

definition sha1_view :: "sha1_ctx \<Rightarrow> (u32 list \<times> u8 list) \<times> u64" where
  "sha1_view c = ((s1_h c, take (s1_used c) (s1_block c)), s1_bytes c)"

definition sha1_absorb ::
  "(u32 list \<times> u8 list) \<times> u64 \<Rightarrow> u8 list \<Rightarrow> (u32 list \<times> u8 list) \<times> u64" where
  "sha1_absorb v xs =
     (absorb_bytes 64 sha1_transform (fst (fst v)) (snd (fst v)) xs, snd v + of_nat (length xs))"

lemma take_blit_end: "off + length src \<le> length dst \<Longrightarrow> take (off + length src) (blit dst off src) = take off dst @ src"
  by (simp add: blit_def)

lemma sha1_update_loop_spec:
  "sha1_inv c \<Longrightarrow> sha1_inv (sha1_update_loop c p) \<and>
    s1_bytes (sha1_update_loop c p) = s1_bytes c \<and>
    fst (sha1_view (sha1_update_loop c p)) =
      absorb_bytes 64 sha1_transform (s1_h c) (take (s1_used c) (s1_block c)) p"
proof (induction c p rule: sha1_update_loop.induct)
  case (1 c p)
  show ?case
  proof (cases "p = []")
    case True
    with "1.prems" show ?thesis by (simp add: sha1_update_loop.simps sha1_view_def)
  next
    case False
    from "1.prems" have used: "s1_used c < 64" and len: "length (s1_block c) = 64"
      by (auto simp: sha1_inv_def)
    define n where "n = min (64 - s1_used c) (length p)"
    define c1 where "c1 = c\<lparr>s1_block := blit (s1_block c) (s1_used c) (take n p), s1_used := s1_used c + n\<rparr>"
    define c2 where "c2 = (if s1_used c1 = 64
       then c1\<lparr>s1_h := sha1_transform (s1_h c1) (s1_block c1), s1_used := 0\<rparr> else c1)"
    have n: "0 < n" "n \<le> length p" "s1_used c + n \<le> 64" using used False by (auto simp: n_def)
    have loop: "sha1_update_loop c p = sha1_update_loop c2 (drop n p)"
      using used False by (subst sha1_update_loop.simps) (simp add: Let_def c2_def c1_def n_def)
    have tk: "take (s1_used c + n) (s1_block c1) = take (s1_used c) (s1_block c) @ take n p"
      using take_blit_end [of "s1_used c" "take n p" "s1_block c"] n len by (simp add: c1_def)
    have len1: "length (s1_block c1) = 64" using n len by (simp add: c1_def)
    have inv2: "sha1_inv c2" using n len1 by (auto simp: c2_def sha1_inv_def c1_def)
    have step: "absorb_bytes 64 sha1_transform (s1_h c) (take (s1_used c) (s1_block c)) (take n p @ drop n p)
        = absorb_bytes 64 sha1_transform (s1_h c2) (take (s1_used c2) (s1_block c2)) (drop n p)"
    proof (cases "s1_used c + n = 64")
      case True
      have "s1_block c1 = take (s1_used c) (s1_block c) @ take n p" using tk len1 True by simp
      moreover have "absorb_bytes 64 sha1_transform (s1_h c) (take (s1_used c) (s1_block c)) (take n p @ drop n p)
         = absorb_bytes 64 sha1_transform
             (sha1_transform (s1_h c) (take (s1_used c) (s1_block c) @ take n p)) [] (drop n p)"
        using True n used len False by (intro absorb_bytes_full) auto
      ultimately show ?thesis using True by (simp add: c2_def c1_def)
    next
      case nf: False
      have "absorb_bytes 64 sha1_transform (s1_h c) (take (s1_used c) (s1_block c)) (take n p)
         = (s1_h c, take (s1_used c) (s1_block c) @ take n p)"
        using nf n used len by (intro absorb_bytes_part) auto
      then show ?thesis using nf tk by (subst absorb_bytes_append) (simp add: c2_def c1_def)
    qed
    have IH: "sha1_inv (sha1_update_loop c2 (drop n p)) \<and>
      s1_bytes (sha1_update_loop c2 (drop n p)) = s1_bytes c2 \<and>
      fst (sha1_view (sha1_update_loop c2 (drop n p))) =
        absorb_bytes 64 sha1_transform (s1_h c2) (take (s1_used c2) (s1_block c2)) (drop n p)"
      using used False inv2 by (intro "1.IH" [OF _ n_def c1_def]) (auto simp: c2_def)
    have "s1_bytes c2 = s1_bytes c" by (simp add: c2_def c1_def)
    with IH step loop show ?thesis by simp
  qed
qed

lemma sha1_update_spec:
  assumes "sha1_inv c"
  shows "sha1_inv (sha1_update c p) \<and> sha1_view (sha1_update c p) = sha1_absorb (sha1_view c) p"
proof -
  have "sha1_inv (c\<lparr>s1_bytes := s1_bytes c + of_nat (length p)\<rparr>)"
    using assms by (simp add: sha1_inv_def)
  from sha1_update_loop_spec [OF this, of p] show ?thesis
    by (auto simp: sha1_update_def sha1_absorb_def sha1_view_def)
qed

section \<open>Finishing a digest\<close>

lemma sha1_update_one_used:
  "s1_used c < 64 \<Longrightarrow> s1_used (sha1_update c [b]) = (if s1_used c = 63 then 0 else Suc (s1_used c))"
  by (simp add: sha1_update_def sha1_update_loop.simps Let_def)

text \<open>\<open>while (c->used != 56) sha1_update(c, &zero, 1);\<close>\<close>

function sha1_pad :: "sha1_ctx \<Rightarrow> sha1_ctx" where
  "sha1_pad c = (if s1_used c \<noteq> 56 \<and> s1_used c < 64 then sha1_pad (sha1_update c [0]) else c)"
  by pat_completeness auto
termination
  by (relation "measure (\<lambda>c. (120 - s1_used c) mod 64)")
     (auto simp: sha1_update_one_used mod_if)

declare sha1_pad.simps [simp del]

definition be64_bytes :: "u64 \<Rightarrow> u8 list" where
  "be64_bytes bits = rev (map (\<lambda>i. ucast (drop_bit (8 * i) bits)) [0..<8])"

definition sha1_output :: "u32 list \<Rightarrow> u8 list" where
  "sha1_output h =
     concat (map (\<lambda>x. [ucast (drop_bit 24 x), ucast (drop_bit 16 x), ucast (drop_bit 8 x), ucast x]) h)"

definition sha1_final :: "sha1_ctx \<Rightarrow> u8 list" where
  "sha1_final c =
     (let bits = s1_bytes c * 8;
          c = sha1_update c [0x80];
          c = sha1_pad c;
          c = sha1_update c (be64_bytes bits)
      in sha1_output (s1_h c))"

definition hex_digit :: "u8 \<Rightarrow> char" where
  "hex_digit x = ''0123456789abcdef'' ! unat x"

definition hex20 :: "u8 list \<Rightarrow> string" where
  "hex20 inp = concat (map (\<lambda>i. [hex_digit (drop_bit 4 (inp ! i)), hex_digit (inp ! i AND 15)]) [0..<20])"

definition sha1_bytes_hex :: "u8 list \<Rightarrow> string" where
  "sha1_bytes_hex p = hex20 (sha1_final (sha1_update sha1_init p))"

subsection \<open>Reference: pad the message, fold the block routine\<close>

definition sha1_padded :: "u8 list \<Rightarrow> u8 list" where
  "sha1_padded msg =
     msg @ [0x80] @ replicate ((119 - length msg mod 64) mod 64) 0 @
     be64_bytes (of_nat (length msg) * 8)"

definition sha1_reference :: "u8 list \<Rightarrow> u8 list" where
  "sha1_reference msg =
     sha1_output (foldl sha1_transform (s1_h sha1_init) (chunks 64 (sha1_padded msg)))"

lemma sha1_pad_spec:
  "sha1_inv c \<Longrightarrow> sha1_inv (sha1_pad c) \<and>
    fst (sha1_view (sha1_pad c)) =
      fst (sha1_absorb (sha1_view c) (replicate ((120 - s1_used c) mod 64) 0))"
proof (induction c rule: sha1_pad.induct)
  case (1 c)
  show ?case
  proof (cases "s1_used c \<noteq> 56 \<and> s1_used c < 64")
    case True
    let ?d = "sha1_update c [0]"
    from sha1_update_spec [OF "1.prems", of "[0]"]
    have d: "sha1_inv ?d" "sha1_view ?d = sha1_absorb (sha1_view c) [0]" by auto
    have num: "(120 - s1_used c) mod 64 = Suc ((120 - s1_used ?d) mod 64)"
      using True by (auto simp: sha1_update_one_used mod_if)
    have "fst (sha1_view (sha1_pad ?d)) =
        fst (sha1_absorb (sha1_view ?d) (replicate ((120 - s1_used ?d) mod 64) 0))"
      using "1.IH" [OF True d(1)] by simp
    also have "\<dots> = fst (sha1_absorb (sha1_view c) (replicate ((120 - s1_used c) mod 64) 0))"
      unfolding num d(2) by (simp add: sha1_absorb_def)
    finally show ?thesis using "1.IH" [OF True d(1)] True by (simp add: sha1_pad.simps [of c])
  next
    case False
    with "1.prems" show ?thesis
      by (auto simp: sha1_pad.simps [of c] sha1_absorb_def sha1_view_def sha1_inv_def)
  qed
qed

interpretation sha1: stream_digest sha1_init sha1_update sha1_final sha1_inv sha1_view sha1_absorb
proof unfold_locales
  show "sha1_inv sha1_init" by (simp add: sha1_inv_def sha1_init_def)
next
  fix v :: "(u32 list \<times> u8 list) \<times> u64" and xs ys :: "u8 list"
  show "sha1_absorb v (xs @ ys) = sha1_absorb (sha1_absorb v xs) ys"
    by (simp add: sha1_absorb_def absorb_bytes_append split: prod.split)
next
  fix s t assume st: "sha1_inv s" "sha1_inv t" "sha1_view s = sha1_view t"
  have *: "fst (sha1_view (sha1_update (sha1_pad (sha1_update c [0x80])) bs)) =
      fst (sha1_absorb (sha1_absorb (sha1_view c)
        (0x80 # replicate ((120 - s1_used (sha1_update c [0x80])) mod 64) 0)) bs)"
    if c: "sha1_inv c" for c bs
    using sha1_update_spec [OF c, of "[0x80]"]
      sha1_pad_spec [of "sha1_update c [0x80]"]
      sha1_update_spec [of "sha1_pad (sha1_update c [0x80])" bs]
    by (simp add: sha1_absorb_def)
  have "s1_used s = s1_used t"
    using st by (auto simp: sha1_view_def sha1_inv_def) (metis length_take min.absorb4)
  then have "s1_used (sha1_update s [0x80]) = s1_used (sha1_update t [0x80])"
    using st by (simp add: sha1_update_one_used sha1_inv_def)
  then have "fst (sha1_view (sha1_update (sha1_pad (sha1_update s [0x80])) bs)) =
      fst (sha1_view (sha1_update (sha1_pad (sha1_update t [0x80])) bs))" for bs
    using st by (simp add: *)
  then show "sha1_final s = sha1_final t"
    using st by (simp add: sha1_final_def Let_def sha1_view_def)
qed (auto simp: sha1_update_spec)

lemma pad_to_block: "(n + 9 + (119 - n mod 64) mod 64) mod 64 = (0::nat)"
proof -
  obtain q r where n: "n = 64 * q + r" and m: "n mod 64 = r" and r: "r < 64"
    by (metis mult_div_mod_eq mod_less_divisor zero_less_numeral)
  show ?thesis
  proof (cases "r \<le> 55")
    case True
    then have "(119 - r) mod 64 = 55 - r" by (simp add: le_mod_geq)
    moreover from True n have "n + 9 + (55 - r) = 64 * (q + 1)" by simp
    ultimately have "n + 9 + (119 - r) mod 64 = 64 * (q + 1)" by presburger
    then show ?thesis unfolding m by (metis mod_mult_self1_is_0)
  next
    case False
    with r have "(119 - r) mod 64 = 119 - r" by simp
    moreover from r n have "n + 9 + (119 - r) = 64 * (q + 2)" by simp
    ultimately have "n + 9 + (119 - r) mod 64 = 64 * (q + 2)" by presburger
    then show ?thesis unfolding m by (metis mod_mult_self1_is_0)
  qed
qed

text \<open>C31. Whatever the message, the buffered SHA-1 of the code (update, the byte-by-byte padding
  loop, the length block) returns the digest of the padded message: the block routine folded
  over the 64-byte blocks of message, 0x80, zeros and 64-bit length.\<close>

theorem sha1_final_reference: "sha1_final (sha1_update sha1_init msg) = sha1_reference msg"
proof -
  let ?H = "s1_h sha1_init"
  let ?c = "sha1_update sha1_init msg"
  let ?z = "(119 - length msg mod 64) mod 64"
  have inv: "sha1_inv ?c" by (intro sha1.inv_upd sha1.inv_init)
  have view: "sha1_view ?c = sha1_absorb (sha1_view sha1_init) msg"
    by (rule sha1.view_upd [OF sha1.inv_init])
  have init: "sha1_view sha1_init = ((?H, []), 0)" by (simp add: sha1_view_def sha1_init_def)
  obtain h t where ht: "absorb_bytes 64 sha1_transform ?H [] msg = (h, t)" by fastforce
  have used: "s1_used ?c = length msg mod 64"
  proof -
    have "snd (fst (sha1_view ?c)) = t"
      using view init ht by (simp add: sha1_absorb_def)
    then have "take (s1_used ?c) (s1_block ?c) = t" by (simp add: sha1_view_def)
    then show ?thesis
      using inv absorb_bytes_length [OF _ ht] by (auto simp: sha1_inv_def)
  qed
  have bytes: "s1_bytes ?c = of_nat (length msg)"
    using view by (simp add: init sha1_absorb_def) (simp add: sha1_view_def)
  have z: "(120 - s1_used (sha1_update ?c [0x80])) mod 64 = ?z"
    using inv used by (auto simp: sha1_update_one_used sha1_inv_def)
  have "fst (sha1_view (sha1_update (sha1_pad (sha1_update ?c [0x80])) bs)) =
      absorb_bytes 64 sha1_transform ?H [] (msg @ [0x80] @ replicate ?z 0 @ bs)" for bs
    using sha1_update_spec [OF inv, of "[0x80]"]
      sha1_pad_spec [of "sha1_update ?c [0x80]"]
      sha1_update_spec [of "sha1_pad (sha1_update ?c [0x80])" bs] z view init
    by (simp add: sha1_absorb_def absorb_bytes_append split: prod.split)
  then have "sha1_final ?c = sha1_output (fst (absorb_bytes 64 sha1_transform ?H [] (sha1_padded msg)))"
    by (simp add: sha1_final_def Let_def bytes sha1_padded_def sha1_view_def)
       (metis fst_conv)
  also have "length (sha1_padded msg) mod 64 = 0"
  proof -
    have "length (sha1_padded msg) = length msg + 9 + ?z"
      by (simp add: sha1_padded_def be64_bytes_def)
    then show ?thesis using pad_to_block [of "length msg"] by simp
  qed
  then have "fst (absorb_bytes 64 sha1_transform ?H [] (sha1_padded msg)) =
      foldl sha1_transform ?H (chunks 64 (sha1_padded msg))"
    by (simp add: absorb_bytes_chunks)
  finally show ?thesis by (simp add: sha1_reference_def)
qed

end
