(* ===== verification/Kv_Codec.thy ===== *)
theory Kv_Codec
  imports Word_Digest Sha1_Digest
begin

text \<open>
  The durable format of the KV store (ds4_kvstore.c): little-endian integers, the 80-byte
  header, the image identity list in front of an ABI 3 payload, the file name of an entry,
  and the payload check that runs before a checkpoint is restored. Streams are the bytes
  left in them; \<open>NULL\<close> pointers are \<open>None\<close>.
\<close>

section \<open>Little-endian integers\<close>

definition le_put32 :: "u32 \<Rightarrow> u8 list" where
  "le_put32 v = [ucast v, ucast (drop_bit 8 v), ucast (drop_bit 16 v), ucast (drop_bit 24 v)]"

definition kv_le_put64 :: "u64 \<Rightarrow> u8 list" where
  "kv_le_put64 v = map (\<lambda>i. ucast (drop_bit (8 * i) v)) [0..<8]"

definition le_get32 :: "u8 list \<Rightarrow> u32" where
  "le_get32 p =
     ucast (p ! 0) OR push_bit 8 (ucast (p ! 1)) OR push_bit 16 (ucast (p ! 2)) OR
     push_bit 24 (ucast (p ! 3))"

definition kv_le_get64 :: "u8 list \<Rightarrow> u64" where
  "kv_le_get64 p = fold (\<lambda>i v. push_bit 8 v OR ucast (p ! i)) (rev [0..<8]) 0"

lemma le_get32_put32: "le_get32 (le_put32 v @ rest) = v"
proof (rule bit_word_eqI)
  fix n assume "n < LENGTH(32)"
  then have "n < 32" by simp
  then consider "n < 8" | "8 \<le> n \<and> n < 16" | "16 \<le> n \<and> n < 24" | "24 \<le> n \<and> n < 32" by linarith
  then show "bit (le_get32 (le_put32 v @ rest)) n = bit v n"
    by cases (auto simp: le_get32_def le_put32_def bit_simps)
qed

lemma word_low_byte: "push_bit 8 (drop_bit (i + 8) v) OR ucast (ucast (drop_bit i v) :: u8) = drop_bit i (v :: u64)"
proof (rule bit_word_eqI)
  fix n assume "n < LENGTH(64)"
  then show "bit (push_bit 8 (drop_bit (i + 8) v) OR ucast (ucast (drop_bit i v) :: u8)) n =
      bit (drop_bit i v) n"
    by (cases "n < 8") (auto simp: bit_simps ac_simps)
qed

lemma kv_le_get64_put64: "kv_le_get64 (kv_le_put64 v @ rest) = v"
proof -
  have "[0..<8] = [0, 1, 2, 3, 4, 5, 6, 7::nat]" by (simp add: upt_rec)
  moreover have "drop_bit 64 v = 0" by (rule bit_word_eqI) (auto simp: bit_simps dest: bit_imp_le_length)
  ultimately show ?thesis
    using word_low_byte [of 0 v] word_low_byte [of 8 v] word_low_byte [of 16 v] word_low_byte [of 24 v]
      word_low_byte [of 32 v] word_low_byte [of 40 v] word_low_byte [of 48 v] word_low_byte [of 56 v]
    by (simp add: kv_le_get64_def kv_le_put64_def)
qed

interpretation le32: fixed_codec le_put32 le_get32 4
proof unfold_locales
  show "le_get32 (le_put32 v @ rest) = v" for v rest by (rule le_get32_put32)
qed (simp_all add: le_put32_def le_get32_def)

lemma kv_le_get64_cong: "(\<And>i. i < 8 \<Longrightarrow> p ! i = q ! i) \<Longrightarrow> kv_le_get64 p = kv_le_get64 q"
  unfolding kv_le_get64_def by (rule fold_cong) auto

interpretation le64: fixed_codec kv_le_put64 kv_le_get64 8
proof unfold_locales
  show "kv_le_get64 (kv_le_put64 v @ rest) = v" for v rest by (rule kv_le_get64_put64)
  show "kv_le_get64 bs = kv_le_get64 (take 8 bs)" for bs by (rule kv_le_get64_cong) simp
qed (simp add: kv_le_put64_def)

lemma length_le_put [simp]: "length (le_put32 v) = 4" "length (kv_le_put64 w) = 8"
  by (rule le32.length_put, rule le64.length_put)

section \<open>Constants, entries, process state\<close>

definition KV_CACHE_VERSION :: u8 where "KV_CACHE_VERSION = 2"
definition KV_CACHE_PAYLOAD_ABI :: u8 where "KV_CACHE_PAYLOAD_ABI = 2"
definition KV_CACHE_PAYLOAD_ABI_IMAGES :: u8 where "KV_CACHE_PAYLOAD_ABI_IMAGES = 3"
definition KV_IMAGES_HEADER :: nat where "KV_IMAGES_HEADER = 24"
definition KV_IMAGE_RECORD :: nat where "KV_IMAGE_RECORD = 48"
definition DS4_KVSTORE_FIXED_HEADER :: nat where "DS4_KVSTORE_FIXED_HEADER = 80"
definition DS4_KVSTORE_V1_HEADER :: nat where "DS4_KVSTORE_V1_HEADER = 48"
definition DS4_KVSTORE_IMAGES_MAX :: nat where "DS4_KVSTORE_IMAGES_MAX = 16"

lemmas kv_consts = KV_CACHE_VERSION_def KV_CACHE_PAYLOAD_ABI_def KV_CACHE_PAYLOAD_ABI_IMAGES_def
  KV_IMAGES_HEADER_def KV_IMAGE_RECORD_def DS4_KVSTORE_FIXED_HEADER_def
  DS4_KVSTORE_V1_HEADER_def DS4_KVSTORE_IMAGES_MAX_def

text \<open>\<open>ds4_kvstore_reason\<close> is stored as its byte; the names the callers pass map to it.\<close>

definition REASON_UNKNOWN :: u8 where "REASON_UNKNOWN = 0"
definition REASON_COLD :: u8 where "REASON_COLD = 1"
definition REASON_CONTINUED :: u8 where "REASON_CONTINUED = 2"
definition REASON_EVICT :: u8 where "REASON_EVICT = 3"
definition REASON_SHUTDOWN :: u8 where "REASON_SHUTDOWN = 4"
definition REASON_AGENT_SYSTEM :: u8 where "REASON_AGENT_SYSTEM = 5"
definition REASON_AGENT_SESSION :: u8 where "REASON_AGENT_SESSION = 6"

lemmas kv_reason_defs = REASON_UNKNOWN_def REASON_COLD_def REASON_CONTINUED_def REASON_EVICT_def
  REASON_SHUTDOWN_def REASON_AGENT_SYSTEM_def REASON_AGENT_SESSION_def

definition kv_reason_code :: "string option \<Rightarrow> u8" where
  "kv_reason_code reason =
     (case reason of
        None \<Rightarrow> REASON_UNKNOWN
      | Some r \<Rightarrow>
          if r = ''cold'' then REASON_COLD
          else if r = ''continued'' then REASON_CONTINUED
          else if r = ''evict'' then REASON_EVICT
          else if r = ''shutdown'' then REASON_SHUTDOWN
          else if r = ''agent-system'' then REASON_AGENT_SYSTEM
          else if r = ''agent-session'' then REASON_AGENT_SESSION
          else REASON_UNKNOWN)"

definition kv_key_kind :: "u8 \<Rightarrow> string" where
  "kv_key_kind ext =
     (if ext AND push_bit 1 1 \<noteq> 0 then ''responses-visible''
      else if ext AND push_bit 2 1 \<noteq> 0 then ''thinking-visible''
      else ''token-text'')"

datatype kv_refusal =
    V1_entry | Abi_differs | Identity_differs | Canary_differs | No_canary

record kv_entry =
  ke_sha :: string
  ke_path :: string
  ke_quant_bits :: u8
  ke_model_id :: u8
  ke_reason :: u8
  ke_tokens :: u32
  ke_hits :: u32
  ke_ctx_size :: u32
  ke_ext_flags :: u8
  ke_created_at :: u64
  ke_last_used :: u64
  ke_payload_bytes :: u64
  ke_text_bytes :: u64
  ke_file_size :: u64
  ke_version :: u8
  ke_identity :: u64
  ke_canary :: u64
  ke_payload_hash :: u64
  ke_images :: bool
  ke_refusal :: "kv_refusal option"

text \<open>The process-wide identity, canary and canary gate.\<close>

datatype kv_canary_state = Canary_none | Canary_pending | Canary_ready | Canary_failed

record kv_globals =
  g_identity :: u64
  g_canary :: u64
  g_state :: kv_canary_state

definition kv_canary_pending :: "kv_globals \<Rightarrow> kv_globals" where
  "kv_canary_pending g = g\<lparr>g_state := Canary_pending\<rparr>"

definition kv_set_canary :: "kv_globals \<Rightarrow> u64 \<Rightarrow> kv_globals" where
  "kv_set_canary g c = g\<lparr>g_canary := c, g_state := Canary_ready\<rparr>"

definition kv_canary_failed :: "kv_globals \<Rightarrow> kv_globals" where
  "kv_canary_failed g = g\<lparr>g_state := Canary_failed\<rparr>"

definition kv_canary_ready :: "kv_globals \<Rightarrow> bool" where
  "kv_canary_ready g \<longleftrightarrow> g_state g = Canary_none \<or> g_state g = Canary_ready"

text \<open>
  \<open>ds4_kvstore_engine_identity\<close>: the engine's answers are the arguments (model and drafter
  fingerprint, quantization, model id, and the two representation strings, \<open>NULL\<close> or text).
\<close>

definition kv_fnv_byte :: "u64 \<Rightarrow> u8 \<Rightarrow> u64" where
  "kv_fnv_byte h b = (h XOR ucast b) * 1099511628211"

definition kv_mix64 :: "u64 \<Rightarrow> u64 \<Rightarrow> u64" where
  "kv_mix64 h v = fold (\<lambda>i h. kv_fnv_byte h (ucast (drop_bit (8 * i) v))) [0..<8] h"

definition kv_engine_identity ::
  "u64 \<Rightarrow> u64 \<Rightarrow> u64 \<Rightarrow> u64 \<Rightarrow> u8 list option \<Rightarrow> u8 list option \<Rightarrow> u64" where
  "kv_engine_identity fp0 fp1 quant model repr values =
     (let h = 1469598103934665603;
          h = kv_mix64 h fp0;
          h = kv_mix64 h fp1;
          h = kv_mix64 h quant;
          h = kv_mix64 h model;
          h = fold (\<lambda>b h. kv_fnv_byte h b) (case repr of None \<Rightarrow> [] | Some r \<Rightarrow> r) h;
          h = kv_fnv_byte h 0x1f;
          h = fold (\<lambda>b h. kv_fnv_byte h b) (case values of None \<Rightarrow> [] | Some r \<Rightarrow> r) h
      in if h \<noteq> 0 then h else 1)"

section \<open>The image identity list\<close>

record kv_image =
  im_text_offset :: u32
  im_text_len :: u32
  im_token_start :: u32
  im_token_count :: u32
  im_fingerprint :: "u8 list"  \<comment> \<open>\<open>uint8_t fingerprint[32]\<close>\<close>

record kv_images =
  ims_len :: u32
  ims_encoder :: u64
  ims_v :: "kv_image list"     \<comment> \<open>\<open>ds4_kvstore_image v[16]\<close>\<close>

definition kv_no_image :: kv_image where
  "kv_no_image = \<lparr>im_text_offset = 0, im_text_len = 0, im_token_start = 0, im_token_count = 0,
     im_fingerprint = replicate 32 0\<rparr>"

definition kv_no_images :: kv_images where
  "kv_no_images = \<lparr>ims_len = 0, ims_encoder = 0, ims_v = replicate DS4_KVSTORE_IMAGES_MAX kv_no_image\<rparr>"

definition kv_images_bytes :: "kv_images option \<Rightarrow> u64" where
  "kv_images_bytes images =
     (case images of
        None \<Rightarrow> 0
      | Some ims \<Rightarrow>
          if ims_len ims \<noteq> 0
          then of_nat KV_IMAGES_HEADER + ucast (ims_len ims) * of_nat KV_IMAGE_RECORD else 0)"

definition kv_image_encode :: "kv_image \<Rightarrow> u8 list" where
  "kv_image_encode im =
     le_put32 (im_text_offset im) @ le_put32 (im_text_len im) @ le_put32 (im_token_start im) @
     le_put32 (im_token_count im) @ im_fingerprint im"

definition kvim :: "u8 list" where
  "kvim = map of_char ''KVIM''"

definition kv_images_encode :: "kv_images \<Rightarrow> u8 list" where
  "kv_images_encode images =
     kvim @ le_put32 1 @ le_put32 (ims_len images) @ le_put32 0 @ kv_le_put64 (ims_encoder images) @
     concat (map (\<lambda>i. kv_image_encode (ims_v images ! i)) [0..<unat (ims_len images)])"

text \<open>Ordered, non-empty and disjoint in the key text and in the token history.\<close>

fun kv_images_wf_loop :: "kv_image list \<Rightarrow> u64 \<Rightarrow> u64 \<Rightarrow> bool" where
  "kv_images_wf_loop [] text_end token_end = True"
| "kv_images_wf_loop (im # ims) text_end token_end =
     (if im_text_len im = 0 \<or> im_token_count im = 0 \<or>
         ucast (im_text_offset im) < text_end \<or> ucast (im_token_start im) < token_end then False
      else kv_images_wf_loop ims (ucast (im_text_offset im) + ucast (im_text_len im))
             (ucast (im_token_start im) + ucast (im_token_count im)))"

definition kv_images_well_formed :: "kv_images \<Rightarrow> bool" where
  "kv_images_well_formed images =
     (if of_nat DS4_KVSTORE_IMAGES_MAX < ims_len images then False
      else kv_images_wf_loop (take (unat (ims_len images)) (ims_v images)) 0 0)"

definition kv_image_decode :: "u8 list \<Rightarrow> kv_image" where
  "kv_image_decode r =
     \<lparr>im_text_offset = le_get32 r, im_text_len = le_get32 (drop 4 r),
      im_token_start = le_get32 (drop 8 r), im_token_count = le_get32 (drop 12 r),
      im_fingerprint = take 32 (drop 16 r)\<rparr>"

fun kv_read_image_records ::
  "nat \<Rightarrow> nat \<Rightarrow> u8 list \<Rightarrow> kv_image list \<Rightarrow> (kv_image list \<times> u8 list) option" where
  "kv_read_image_records i 0 fp v = Some (v, fp)"
| "kv_read_image_records i (Suc n) fp v =
     (case fread_exact KV_IMAGE_RECORD fp of
        None \<Rightarrow> None
      | Some (r, fp) \<Rightarrow> kv_read_image_records (Suc i) n fp (v[i := kv_image_decode r]))"

text \<open>
  \<open>ds4_kvstore_read_images\<close>: the size of the list, the list and the stream after it;
  \<open>None\<close> is the return value 0 (malformed).
\<close>

definition kv_read_images ::
  "u8 list \<Rightarrow> u64 \<Rightarrow> (u64 \<times> kv_images \<times> u8 list) option" where
  "kv_read_images fp payload_bytes =
     (if payload_bytes < of_nat KV_IMAGES_HEADER then None
      else case fread_exact KV_IMAGES_HEADER fp of
        None \<Rightarrow> None
      | Some (h, fp) \<Rightarrow>
          if take 4 h \<noteq> kvim \<or> le_get32 (drop 4 h) \<noteq> 1 \<or> le_get32 (drop 12 h) \<noteq> 0 then None
          else let count = le_get32 (drop 8 h)
            in if count = 0 \<or> of_nat DS4_KVSTORE_IMAGES_MAX < count then None
               else let bytes = of_nat KV_IMAGES_HEADER + ucast count * of_nat KV_IMAGE_RECORD
                 in if payload_bytes < bytes then None
                    else case kv_read_image_records 0 (unat count) fp (ims_v kv_no_images) of
                        None \<Rightarrow> None
                      | Some (v, fp) \<Rightarrow>
                          let out = \<lparr>ims_len = count, ims_encoder = kv_le_get64 (drop 16 h), ims_v = v\<rparr>
                          in if ims_encoder out \<noteq> 0 \<and> kv_images_well_formed out
                             then Some (bytes, out, fp) else None)"

datatype kv_mismatch =
    No_image_identity | Extra_images | Image_count_differs | Encoder_differs
  | Position_differs | Fingerprint_differs

text \<open>How many of the images start inside the first \<open>text_bytes\<close> bytes.\<close>

definition kv_images_inside :: "kv_images \<Rightarrow> u64 \<Rightarrow> nat" where
  "kv_images_inside images text_bytes =
     length (takeWhile (\<lambda>im. ucast (im_text_offset im) < text_bytes)
       (take (unat (ims_len images)) (ims_v images)))"

fun kv_images_mismatch_loop :: "kv_image list \<Rightarrow> kv_image list \<Rightarrow> u64 \<Rightarrow> kv_mismatch option" where
  "kv_images_mismatch_loop (a # as) (b # bs) text_bytes =
     (if im_text_offset a \<noteq> im_text_offset b \<or> im_text_len a \<noteq> im_text_len b \<or>
         text_bytes < ucast (im_text_offset a) + ucast (im_text_len a)
      then Some Position_differs
      else if im_token_count a \<noteq> im_token_count b \<or> im_fingerprint a \<noteq> im_fingerprint b
      then Some Fingerprint_differs
      else kv_images_mismatch_loop as bs text_bytes)"
| "kv_images_mismatch_loop _ _ text_bytes = None"

definition kv_images_mismatch ::
  "kv_images option \<Rightarrow> kv_images option \<Rightarrow> u64 \<Rightarrow> kv_mismatch option" where
  "kv_images_mismatch stored request text_bytes =
     (let stored = (case stored of None \<Rightarrow> kv_no_images | Some s \<Rightarrow> s);
          request = (case request of None \<Rightarrow> kv_no_images | Some r \<Rightarrow> r);
          inside = kv_images_inside request text_bytes
      in if of_nat inside \<noteq> ims_len stored
         then Some (if ims_len stored = 0 then No_image_identity
                    else if inside = 0 then Extra_images else Image_count_differs)
         else if inside \<noteq> 0 \<and> (ims_encoder stored = 0 \<or> ims_encoder stored \<noteq> ims_encoder request)
         then Some Encoder_differs
         else kv_images_mismatch_loop (take inside (ims_v stored)) (take inside (ims_v request)) text_bytes)"

text \<open>The name of an entry: \<open>ds4_kvstore_entry_sha\<close>.\<close>

definition kv_entry_sha :: "u8 list \<Rightarrow> kv_images option \<Rightarrow> string" where
  "kv_entry_sha text images =
     (let inside = (case images of None \<Rightarrow> 0
                    | Some ims \<Rightarrow> kv_images_inside ims (of_nat (length text)))
      in case images of
           Some ims \<Rightarrow>
             (if inside = 0 then sha1_bytes_hex text
              else let c = sha1_update sha1_init text;
                       c = sha1_update c (0 # kvim);
                       c = sha1_update c (kv_le_put64 (ims_encoder ims));
                       c = fold (\<lambda>i c. let im = ims_v ims ! i;
                                  c = sha1_update c (le_put32 (im_text_offset im) @
                                        le_put32 (im_text_len im) @ le_put32 (im_token_count im))
                                in sha1_update c (im_fingerprint im)) [0..<inside] c
                   in hex20 (sha1_final c))
         | None \<Rightarrow> sha1_bytes_hex text)"

end
