(* ===== verification/Gguf_Cursor.thy ===== *)
theory Gguf_Cursor
  imports Kv_Codec
begin

text \<open>
  The byte cursor of ds4.c and the part of the GGUF loader that only walks over bytes: strings, scalars,
  nested metadata arrays. A cursor reads from the mapped file (\<open>cu_base\<close>) and never beyond \<open>cu_size\<close>; a
  routine that returns \<open>false\<close> has the value \<open>None\<close> and the cursor with its error. Integers are
  little-endian, as on every platform the program is built for.
\<close>

datatype cursor_msg = Truncated | Nesting_too_deep | Array_too_large | Unknown_type

record ds4_cursor =
  cu_base :: "u8 list"
  cu_size :: u64
  cu_pos :: u64
  cu_error :: "(cursor_msg \<times> u64) option"

section \<open>Reading\<close>

definition cursor_error :: "ds4_cursor \<Rightarrow> cursor_msg \<Rightarrow> ds4_cursor" where
  "cursor_error c msg = (if cu_error c = None then c\<lparr>cu_error := Some (msg, cu_pos c)\<rparr> else c)"

definition cursor_has :: "ds4_cursor \<Rightarrow> u64 \<Rightarrow> bool \<times> ds4_cursor" where
  "cursor_has c n =
     (if cu_size c < n \<or> cu_size c - n < cu_pos c then (False, cursor_error c Truncated) else (True, c))"

definition cursor_read :: "ds4_cursor \<Rightarrow> u64 \<Rightarrow> u8 list option \<times> ds4_cursor" where
  "cursor_read c n =
     (case cursor_has c n of
        (False, c) \<Rightarrow> (None, c)
      | (True, c) \<Rightarrow> (Some (mslice (unat (cu_pos c)) (unat n) (cu_base c)), c\<lparr>cu_pos := cu_pos c + n\<rparr>))"

definition cursor_skip :: "ds4_cursor \<Rightarrow> u64 \<Rightarrow> unit option \<times> ds4_cursor" where
  "cursor_skip c n =
     (case cursor_has c n of
        (False, c) \<Rightarrow> (None, c)
      | (True, c) \<Rightarrow> (Some (), c\<lparr>cu_pos := cu_pos c + n\<rparr>))"

definition cursor_u32 :: "ds4_cursor \<Rightarrow> u32 option \<times> ds4_cursor" where
  "cursor_u32 c = apfst (map_option le_get32) (cursor_read c 4)"

definition cursor_u64 :: "ds4_cursor \<Rightarrow> u64 option \<times> ds4_cursor" where
  "cursor_u64 c = apfst (map_option kv_le_get64) (cursor_read c 8)"

text \<open>\<open>if (!op(c, &x)) return false; rest\<close>\<close>

definition cursor_then ::
  "'a option \<times> ds4_cursor \<Rightarrow> ('a \<Rightarrow> ds4_cursor \<Rightarrow> 'b option \<times> ds4_cursor) \<Rightarrow> 'b option \<times> ds4_cursor" where
  "cursor_then r f = (case r of (Some x, c) \<Rightarrow> f x c | (None, c) \<Rightarrow> (None, c))"

lemma cursor_then_cong [fundef_cong]:
  "r = r' \<Longrightarrow> (\<And>x c. r' = (Some x, c) \<Longrightarrow> f x c = g x c) \<Longrightarrow> cursor_then r f = cursor_then r' g"
  by (auto simp: cursor_then_def split: prod.splits option.splits)

text \<open>A \<open>ds4_str\<close> points into the mapping, which never changes: it is the bytes it points to.\<close>

definition cursor_string :: "ds4_cursor \<Rightarrow> u8 list option \<times> ds4_cursor" where
  "cursor_string c = cursor_then (cursor_u64 c) (\<lambda>len c. cursor_read c len)"

definition align_up :: "u64 \<Rightarrow> u64 \<Rightarrow> u64" where
  "align_up v alignment = (let r = v mod alignment in if r = 0 then v else v + alignment - r)"

section \<open>Metadata values\<close>

definition GGUF_VALUE_UINT8 :: u32 where "GGUF_VALUE_UINT8 = 0"
definition GGUF_VALUE_INT8 :: u32 where "GGUF_VALUE_INT8 = 1"
definition GGUF_VALUE_UINT16 :: u32 where "GGUF_VALUE_UINT16 = 2"
definition GGUF_VALUE_INT16 :: u32 where "GGUF_VALUE_INT16 = 3"
definition GGUF_VALUE_UINT32 :: u32 where "GGUF_VALUE_UINT32 = 4"
definition GGUF_VALUE_INT32 :: u32 where "GGUF_VALUE_INT32 = 5"
definition GGUF_VALUE_FLOAT32 :: u32 where "GGUF_VALUE_FLOAT32 = 6"
definition GGUF_VALUE_BOOL :: u32 where "GGUF_VALUE_BOOL = 7"
definition GGUF_VALUE_STRING :: u32 where "GGUF_VALUE_STRING = 8"
definition GGUF_VALUE_ARRAY :: u32 where "GGUF_VALUE_ARRAY = 9"
definition GGUF_VALUE_UINT64 :: u32 where "GGUF_VALUE_UINT64 = 10"
definition GGUF_VALUE_INT64 :: u32 where "GGUF_VALUE_INT64 = 11"
definition GGUF_VALUE_FLOAT64 :: u32 where "GGUF_VALUE_FLOAT64 = 12"

lemmas gguf_value_defs = GGUF_VALUE_UINT8_def GGUF_VALUE_INT8_def GGUF_VALUE_UINT16_def
  GGUF_VALUE_INT16_def GGUF_VALUE_UINT32_def GGUF_VALUE_INT32_def GGUF_VALUE_FLOAT32_def
  GGUF_VALUE_BOOL_def GGUF_VALUE_STRING_def GGUF_VALUE_ARRAY_def GGUF_VALUE_UINT64_def
  GGUF_VALUE_INT64_def GGUF_VALUE_FLOAT64_def

definition scalar_value_size :: "u32 \<Rightarrow> u64" where
  "scalar_value_size t =
     (if t = GGUF_VALUE_UINT8 \<or> t = GGUF_VALUE_INT8 \<or> t = GGUF_VALUE_BOOL then 1
      else if t = GGUF_VALUE_UINT16 \<or> t = GGUF_VALUE_INT16 then 2
      else if t = GGUF_VALUE_UINT32 \<or> t = GGUF_VALUE_INT32 \<or> t = GGUF_VALUE_FLOAT32 then 4
      else if t = GGUF_VALUE_UINT64 \<or> t = GGUF_VALUE_INT64 \<or> t = GGUF_VALUE_FLOAT64 then 8
      else 0)"

text \<open>\<open>skip_value\<close> and, as \<open>skip_items\<close>, its loop over the items of an array.\<close>

function
  skip_value :: "ds4_cursor \<Rightarrow> u32 \<Rightarrow> nat \<Rightarrow> unit option \<times> ds4_cursor" and
  skip_items :: "ds4_cursor \<Rightarrow> u32 \<Rightarrow> nat \<Rightarrow> nat \<Rightarrow> unit option \<times> ds4_cursor"
where
  "skip_value c t depth =
     (if 8 < depth then (None, cursor_error c Nesting_too_deep)
      else let scalar = scalar_value_size t
      in if scalar \<noteq> 0 then cursor_skip c scalar
      else if t = GGUF_VALUE_STRING then cursor_then (cursor_string c) (\<lambda>_ c. (Some (), c))
      else if t = GGUF_VALUE_ARRAY then
        cursor_then (cursor_u32 c) (\<lambda>item_type c.
        cursor_then (cursor_u64 c) (\<lambda>len c.
          let item_size = scalar_value_size item_type
          in if item_size \<noteq> 0 then
               (if - 1 div item_size < len then (None, cursor_error c Array_too_large)
                else cursor_skip c (len * item_size))
             else skip_items c item_type (depth + 1) (unat len)))
      else (None, cursor_error c Unknown_type))"
| "skip_items c t depth 0 = (Some (), c)"
| "skip_items c t depth (Suc n) =
     cursor_then (skip_value c t depth) (\<lambda>_ c. skip_items c t depth n)"
  by pat_completeness auto
termination
  by (relation "inv_image (less_than <*lex*> less_than) (\<lambda>x. case x of
        Inl (c, t, depth) \<Rightarrow> (9 - depth, 0) | Inr (c, t, depth, n) \<Rightarrow> (9 - depth, Suc n))") auto

declare skip_value.simps [simp del]

section \<open>The bytes that are left\<close>

definition cursor_ok :: "ds4_cursor \<Rightarrow> bool" where
  "cursor_ok c \<longleftrightarrow> unat (cu_size c) \<le> length (cu_base c) \<and> cu_pos c \<le> cu_size c"

definition cursor_left :: "ds4_cursor \<Rightarrow> u8 list" where
  "cursor_left c = mslice (unat (cu_pos c)) (unat (cu_size c) - unat (cu_pos c)) (cu_base c)"

definition cursor_adv :: "ds4_cursor \<Rightarrow> nat \<Rightarrow> ds4_cursor" where
  "cursor_adv c k = c\<lparr>cu_pos := cu_pos c + of_nat k\<rparr>"

lemma length_cursor_left: "cursor_ok c \<Longrightarrow> length (cursor_left c) = unat (cu_size c) - unat (cu_pos c)"
  by (auto simp: cursor_ok_def cursor_left_def word_le_nat_alt)

lemma unat_cursor_adv:
  assumes "cursor_ok c" and "k \<le> length (cursor_left c)"
  shows "unat (cu_pos (cursor_adv c k)) = unat (cu_pos c) + k"
proof -
  have "unat (cu_pos c) + k \<le> unat (cu_size c)"
    using assms length_cursor_left [of c] by (auto simp: cursor_ok_def word_le_nat_alt)
  moreover have "unat (cu_size c) < 2 ^ 64" using unsigned_less [of "cu_size c"] by simp
  ultimately show ?thesis
    by (simp add: cursor_adv_def unat_word_ariths unsigned_of_nat take_bit_nat_eq_self)
qed

lemma cursor_adv_fields [simp]:
  "cu_base (cursor_adv c k) = cu_base c" "cu_size (cursor_adv c k) = cu_size c"
  "cu_error (cursor_adv c k) = cu_error c"
  by (simp_all add: cursor_adv_def)

lemma cursor_adv_adv [simp]: "cursor_adv (cursor_adv c j) k = cursor_adv c (j + k)"
  by (simp add: cursor_adv_def)

lemma cursor_adv_0 [simp]: "cursor_adv c 0 = c"
  by (simp add: cursor_adv_def)

lemma cursor_ok_adv [simp]: "cursor_ok c \<Longrightarrow> k \<le> length (cursor_left c) \<Longrightarrow> cursor_ok (cursor_adv c k)"
  using unat_cursor_adv [of c k] length_cursor_left [of c]
  by (auto simp: cursor_ok_def word_le_nat_alt)

lemma cursor_left_adv [simp]:
  "cursor_ok c \<Longrightarrow> k \<le> length (cursor_left c) \<Longrightarrow> cursor_left (cursor_adv c k) = drop k (cursor_left c)"
  using unat_cursor_adv [of c k] length_cursor_left [of c]
  by (simp add: cursor_left_def mslice_def drop_take add.commute)

lemma cursor_has_eq:
  "cursor_ok c \<Longrightarrow> cursor_has c n =
     (if unat n \<le> length (cursor_left c) then (True, c) else (False, cursor_error c Truncated))"
  using length_cursor_left [of c]
  by (auto simp: cursor_has_def cursor_ok_def word_le_nat_alt word_less_nat_alt unat_sub_if')

lemma cursor_read_eq:
  "cursor_ok c \<Longrightarrow> cursor_read c n =
     (if unat n \<le> length (cursor_left c) then (Some (take (unat n) (cursor_left c)), cursor_adv c (unat n))
      else (None, cursor_error c Truncated))"
  using length_cursor_left [of c]
  by (simp add: cursor_read_def cursor_has_eq cursor_adv_def cursor_left_def mslice_def)

lemma cursor_skip_eq:
  "cursor_ok c \<Longrightarrow> cursor_skip c n =
     (if unat n \<le> length (cursor_left c) then (Some (), cursor_adv c (unat n))
      else (None, cursor_error c Truncated))"
  by (simp add: cursor_skip_def cursor_has_eq cursor_adv_def)

text \<open>
  A codec whose bytes and values correspond one to one: a block starts with the bytes of \<open>v\<close> exactly when
  \<open>v\<close> is read from it.
\<close>

locale exact_codec = fixed_codec +
  assumes put_get: "length bs = width \<Longrightarrow> put (get bs) = bs"
begin

lemma get_iff: "width \<le> length bs \<Longrightarrow> get bs = v \<longleftrightarrow> (\<exists>rest. bs = put v @ rest)"
proof
  assume *: "width \<le> length bs" "get bs = v"
  have "put (get (take width bs)) = take width bs" using * by (intro put_get) simp
  then have "put v = take width bs" using get_take [OF *(1)] *(2) by argo
  then show "\<exists>rest. bs = put v @ rest" by (metis append_take_drop_id)
qed (auto simp: get_put)

lemma get_prefix_iff:
  "width \<le> length bs \<and> get (take width bs) = v \<longleftrightarrow> (\<exists>rest. bs = put v @ rest)"
proof (cases "width \<le> length bs")
  case True
  then show ?thesis using get_iff [OF True] get_take [OF True] by simp
next
  case False
  then show ?thesis by (auto simp: length_put)
qed

end

lemma list_4: "length xs = 4 \<Longrightarrow> \<exists>a b c d. xs = [a, b, c, d]"
  by (auto simp: length_Suc_conv numeral_eq_Suc)

lemma list_8: "length xs = 8 \<Longrightarrow> \<exists>a b c d e f g h. xs = [a, b, c, d, e, f, g, h]"
  by (auto simp: length_Suc_conv numeral_eq_Suc)

lemma byte_high_bits [simp]: "8 \<le> k \<Longrightarrow> \<not> bit (b :: u8) (k + n)"
  using bit_imp_le_length [of b "k + n"] by auto

interpretation exact32: exact_codec le_put32 le_get32 4
proof unfold_locales
  fix bs :: "u8 list" assume "length bs = 4"
  then obtain a b c d where bs: "bs = [a, b, c, d]" using list_4 by blast
  show "le_put32 (le_get32 bs) = bs"
    by (auto simp: bs le_put32_def le_get32_def bit_simps intro!: bit_word_eqI)
qed

interpretation exact64: exact_codec kv_le_put64 kv_le_get64 8
proof unfold_locales
  fix bs :: "u8 list" assume "length bs = 8"
  then obtain a b c d e f g h where bs: "bs = [a, b, c, d, e, f, g, h]" using list_8 by blast
  have "[0..<8] = [0, 1, 2, 3, 4, 5, 6, 7::nat]" by (simp add: upt_rec)
  then show "kv_le_put64 (kv_le_get64 bs) = bs"
    by (auto simp: bs kv_le_put64_def kv_le_get64_def bit_simps intro!: bit_word_eqI)
qed

text \<open>What each reader accepts: the bytes it takes and the value it gives.\<close>

lemma cursor_u32_Some:
  "cursor_ok c \<Longrightarrow> cursor_u32 c = (Some v, c') \<longleftrightarrow>
     (\<exists>rest. cursor_left c = le_put32 v @ rest) \<and> c' = cursor_adv c 4"
  using exact32.get_prefix_iff [of "cursor_left c" v] by (auto simp: cursor_u32_def cursor_read_eq)

lemma cursor_u64_Some:
  "cursor_ok c \<Longrightarrow> cursor_u64 c = (Some v, c') \<longleftrightarrow>
     (\<exists>rest. cursor_left c = kv_le_put64 v @ rest) \<and> c' = cursor_adv c 8"
  using exact64.get_prefix_iff [of "cursor_left c" v] by (auto simp: cursor_u64_def cursor_read_eq)

lemma cursor_then_Some:
  "cursor_then r f = (Some y, c') \<longleftrightarrow> (\<exists>x c. r = (Some x, c) \<and> f x c = (Some y, c'))"
  by (auto simp: cursor_then_def split: prod.splits option.splits)

section \<open>The values a metadata entry may hold\<close>

text \<open>
  The reference: a value is a scalar of a known width, a string or an array of values of one type, nested
  at most as deep as \<open>skip_value\<close> goes. The items of a scalar array are not visited one by one.
\<close>

datatype gguf_value = GScalar u32 "u8 list" | GString "u8 list" | GArray u32 "gguf_value list"

fun gv_type :: "gguf_value \<Rightarrow> u32" where
  "gv_type (GScalar t bs) = t"
| "gv_type (GString s) = GGUF_VALUE_STRING"
| "gv_type (GArray t vs) = GGUF_VALUE_ARRAY"

fun gv_bytes :: "gguf_value \<Rightarrow> u8 list" where
  "gv_bytes (GScalar t bs) = bs"
| "gv_bytes (GString s) = kv_le_put64 (of_nat (length s)) @ s"
| "gv_bytes (GArray t vs) = le_put32 t @ kv_le_put64 (of_nat (length vs)) @ concat (map gv_bytes vs)"

fun gv_ok :: "nat \<Rightarrow> gguf_value \<Rightarrow> bool" where
  "gv_ok d (GScalar t bs) \<longleftrightarrow>
     d \<le> 8 \<and> scalar_value_size t \<noteq> 0 \<and> length bs = unat (scalar_value_size t)"
| "gv_ok d (GString s) \<longleftrightarrow> d \<le> 8 \<and> length s < 2 ^ 64"
| "gv_ok d (GArray t vs) \<longleftrightarrow>
     d \<le> 8 \<and> length vs < 2 ^ 64 \<and>
     (\<forall>v \<in> set vs. gv_type v = t \<and> gv_ok (if scalar_value_size t = 0 then d + 1 else d) v)"

definition gv_seq :: "u32 \<Rightarrow> nat \<Rightarrow> gguf_value list \<Rightarrow> bool" where
  "gv_seq t d vs \<longleftrightarrow> (\<forall>v \<in> set vs. gv_type v = t \<and> gv_ok d v)"

lemma gv_seq_simps [simp]:
  "gv_seq t d []" "gv_seq t d (v # vs) \<longleftrightarrow> (gv_type v = t \<and> gv_ok d v) \<and> gv_seq t d vs"
  by (auto simp: gv_seq_def)

lemma scalar_value_size_kinds [simp]:
  "scalar_value_size GGUF_VALUE_STRING = 0" "scalar_value_size GGUF_VALUE_ARRAY = 0"
  "GGUF_VALUE_ARRAY \<noteq> GGUF_VALUE_STRING" "GGUF_VALUE_STRING \<noteq> GGUF_VALUE_ARRAY"
  by (simp_all add: scalar_value_size_def gguf_value_defs)

lemma gv_scalar:
  "scalar_value_size t \<noteq> 0 \<Longrightarrow> gv_type v = t \<and> gv_ok d v \<longleftrightarrow>
     d \<le> 8 \<and> (\<exists>bs. v = GScalar t bs \<and> length bs = unat (scalar_value_size t))"
  by (cases v) auto

lemma split_scalars:
  "scalar_value_size t \<noteq> 0 \<Longrightarrow> d \<le> 8 \<Longrightarrow>
     length bs = n * unat (scalar_value_size t) \<longleftrightarrow>
       (\<exists>vs. length vs = n \<and> gv_seq t d vs \<and> bs = concat (map gv_bytes vs))"
proof (induction n arbitrary: bs)
  case 0
  then show ?case by auto
next
  case (Suc n)
  let ?k = "unat (scalar_value_size t)"
  show ?case
  proof
    assume len: "length bs = Suc n * ?k"
    then have "length (drop ?k bs) = n * ?k" by simp
    with Suc obtain vs where vs: "length vs = n" "gv_seq t d vs" "drop ?k bs = concat (map gv_bytes vs)"
      by blast
    let ?v = "GScalar t (take ?k bs)"
    have "gv_type ?v = t \<and> gv_ok d ?v" using len Suc.prems by simp
    moreover have "bs = gv_bytes ?v @ concat (map gv_bytes vs)" using vs(3) [symmetric] by simp
    ultimately show "\<exists>vs. length vs = Suc n \<and> gv_seq t d vs \<and> bs = concat (map gv_bytes vs)"
      using vs(1,2) by (intro exI [of _ "?v # vs"]) simp
  next
    assume "\<exists>vs. length vs = Suc n \<and> gv_seq t d vs \<and> bs = concat (map gv_bytes vs)"
    then obtain v vs where v: "length vs = n" "gv_type v = t \<and> gv_ok d v" "gv_seq t d vs"
        "bs = gv_bytes v @ concat (map gv_bytes vs)"
      by (auto simp: length_Suc_conv)
    from v(2) obtain b where "v = GScalar t b" "length b = ?k" using gv_scalar Suc.prems by blast
    with v Suc show "length bs = Suc n * ?k" by fastforce
  qed
qed

lemma unat_u64: "unat (x :: u64) < 2 ^ 64"
  by (rule order.strict_trans2 [OF unsigned_less]) simp

lemma cursor_left_limit: "cursor_ok c \<Longrightarrow> length (cursor_left c) < 2 ^ 64"
  using length_cursor_left [of c] unat_u64 [of "cu_size c"] by simp

lemma unat_prefix:
  assumes "cursor_ok c" and "cursor_left c = xs @ ys"
  shows "unat (of_nat (length xs) :: u64) = length xs"
  using cursor_left_limit [OF assms(1)] assms(2) by (simp add: unsigned_of_nat take_bit_nat_eq_self)

lemma cursor_string_Some:
  assumes c: "cursor_ok c"
  shows "cursor_string c = (Some s, c') \<longleftrightarrow>
     length s < 2 ^ 64 \<and> (\<exists>rest. cursor_left c = gv_bytes (GString s) @ rest) \<and>
     c' = cursor_adv c (length (gv_bytes (GString s)))"
proof
  assume "cursor_string c = (Some s, c')"
  then obtain len c1 where u: "cursor_u64 c = (Some len, c1)" and r: "cursor_read c1 len = (Some s, c')"
    by (auto simp: cursor_string_def cursor_then_Some)
  obtain rest where l: "cursor_left c = kv_le_put64 len @ rest" and c1: "c1 = cursor_adv c 8"
    using u cursor_u64_Some [OF c] by blast
  have ok1: "cursor_ok c1" and l1: "cursor_left c1 = rest" using c l by (simp_all add: c1)
  from r ok1 l1 have s: "s = take (unat len) rest" "unat len \<le> length rest" "c' = cursor_adv c1 (unat len)"
    by (auto simp: cursor_read_eq split: if_splits)
  have "length s = unat len" using s by simp
  then have len: "len = of_nat (length s)" and short: "length s < 2 ^ 64" using unat_u64 [of len] by simp_all
  have "rest = s @ drop (unat len) rest" using s(1) by simp
  then have "cursor_left c = gv_bytes (GString s) @ drop (unat len) rest" using l len by simp
  moreover have "c' = cursor_adv c (length (gv_bytes (GString s)))"
    using s(3) \<open>length s = unat len\<close> by (simp add: c1)
  ultimately show "length s < 2 ^ 64 \<and> (\<exists>rest. cursor_left c = gv_bytes (GString s) @ rest) \<and>
     c' = cursor_adv c (length (gv_bytes (GString s)))"
    using short by blast
next
  assume *: "length s < 2 ^ 64 \<and> (\<exists>rest. cursor_left c = gv_bytes (GString s) @ rest) \<and>
     c' = cursor_adv c (length (gv_bytes (GString s)))"
  then obtain rest where l: "cursor_left c = kv_le_put64 (of_nat (length s)) @ s @ rest" by auto
  have "cursor_u64 c = (Some (of_nat (length s)), cursor_adv c 8)" using cursor_u64_Some [OF c] l by blast
  moreover have "unat (of_nat (length s) :: u64) = length s"
    using * by (simp add: unsigned_of_nat take_bit_nat_eq_self)
  ultimately show "cursor_string c = (Some s, c')"
    using c l * by (simp add: cursor_string_def cursor_then_def cursor_read_eq)
qed

lemma unat_nonwrap: "unat a * unat b < 2 ^ 64 \<Longrightarrow> unat (a * b) = unat a * unat (b :: u64)"
  by (simp add: unat_word_ariths)

lemma mult_fits: "b \<noteq> 0 \<Longrightarrow> \<not> - 1 div b < a \<longleftrightarrow> unat a * unat b < 2 ^ 64" for a b :: u64
proof -
  assume "b \<noteq> 0"
  then have "0 < unat b" by (simp add: unat_gt_0)
  have "unat (- 1 :: u64) = 2 ^ 64 - 1" by (simp add: unsigned_minus_1_eq_mask mask_eq_exp_minus_1)
  then have "\<not> - 1 div b < a \<longleftrightarrow> unat a \<le> (2 ^ 64 - 1) div unat b"
    by (simp add: word_less_nat_alt unat_div_distrib not_less)
  also have "\<dots> \<longleftrightarrow> unat a * unat b \<le> 2 ^ 64 - 1"
    using \<open>0 < unat b\<close> by (rule less_eq_div_iff_mult_less_eq)
  also have "\<dots> \<longleftrightarrow> unat a * unat b < 2 ^ 64"
    using le_diff_conv2 [of 1 "2 ^ 64" "unat a * unat b"] by (simp add: Suc_le_eq)
  finally show ?thesis .
qed

lemma length_prefix_iff: "n \<le> length xs \<longleftrightarrow> (\<exists>as bs. xs = as @ bs \<and> length as = n)"
proof
  assume "n \<le> length xs"
  then have "xs = take n xs @ drop n xs \<and> length (take n xs) = n" by simp
  then show "\<exists>as bs. xs = as @ bs \<and> length as = n" by blast
qed auto

lemma skip_scalar_array:
  assumes c: "cursor_ok c" and t: "scalar_value_size t \<noteq> 0" and d: "d \<le> 8"
  shows "(if - 1 div scalar_value_size t < len then (None, cursor_error c Array_too_large)
          else cursor_skip c (len * scalar_value_size t)) = (Some (), c') \<longleftrightarrow>
     (\<exists>vs rest. length vs = unat len \<and> gv_seq t d vs \<and> cursor_left c = concat (map gv_bytes vs) @ rest \<and>
        c' = cursor_adv c (length (concat (map gv_bytes vs))))" (is "?L \<longleftrightarrow> ?R")
proof -
  let ?k = "unat (scalar_value_size t)"
  let ?n = "unat len * ?k"
  have "?L \<longleftrightarrow> ?n < 2 ^ 64 \<and> ?n \<le> length (cursor_left c) \<and> c' = cursor_adv c ?n"
    using mult_fits [OF t, of len] unat_nonwrap [of len "scalar_value_size t"]
    by (auto simp: cursor_skip_eq [OF c])
  also have "\<dots> \<longleftrightarrow> ?n \<le> length (cursor_left c) \<and> c' = cursor_adv c ?n"
    using cursor_left_limit [OF c] by auto
  also have "\<dots> \<longleftrightarrow> (\<exists>bs rest. cursor_left c = bs @ rest \<and> length bs = ?n \<and> c' = cursor_adv c (length bs))"
    by (metis length_prefix_iff)
  also have "\<dots> \<longleftrightarrow> ?R" by (auto simp: split_scalars [OF t d])
  finally show ?thesis .
qed

definition skips :: "ds4_cursor \<Rightarrow> u32 \<Rightarrow> nat \<Rightarrow> nat \<Rightarrow> ds4_cursor \<Rightarrow> bool" where
  "skips c t d n c' \<longleftrightarrow>
     (\<exists>vs rest. length vs = n \<and> gv_seq t d vs \<and> cursor_left c = concat (map gv_bytes vs) @ rest \<and>
        c' = cursor_adv c (length (concat (map gv_bytes vs))))"

definition skips_one :: "ds4_cursor \<Rightarrow> u32 \<Rightarrow> nat \<Rightarrow> ds4_cursor \<Rightarrow> bool" where
  "skips_one c t d c' \<longleftrightarrow>
     (\<exists>v rest. gv_type v = t \<and> gv_ok d v \<and> cursor_left c = gv_bytes v @ rest \<and>
        c' = cursor_adv c (length (gv_bytes v)))"

lemma skips_one_ok: "cursor_ok c \<Longrightarrow> skips_one c t d c' \<Longrightarrow> cursor_ok c'"
  by (auto simp: skips_one_def)

lemma skips_Suc:
  assumes c: "cursor_ok c"
  shows "skips c t d (Suc n) c' \<longleftrightarrow> (\<exists>c1. skips_one c t d c1 \<and> skips c1 t d n c')"
proof
  assume "skips c t d (Suc n) c'"
  then obtain v vs rest where v: "length vs = n" "gv_seq t d (v # vs)"
      "cursor_left c = gv_bytes v @ concat (map gv_bytes vs) @ rest"
      "c' = cursor_adv c (length (gv_bytes v @ concat (map gv_bytes vs)))"
    by (auto simp: skips_def length_Suc_conv)
  have "skips_one c t d (cursor_adv c (length (gv_bytes v)))" using v by (auto simp: skips_one_def)
  moreover have "skips (cursor_adv c (length (gv_bytes v))) t d n c'"
    unfolding skips_def by (rule exI [of _ vs], rule exI [of _ rest]) (use v c in simp)
  ultimately show "\<exists>c1. skips_one c t d c1 \<and> skips c1 t d n c'" by blast
next
  assume "\<exists>c1. skips_one c t d c1 \<and> skips c1 t d n c'"
  then obtain v rest where v: "gv_type v = t" "gv_ok d v" "cursor_left c = gv_bytes v @ rest"
      "skips (cursor_adv c (length (gv_bytes v))) t d n c'"
    by (auto simp: skips_one_def)
  then obtain vs rest' where vs: "length vs = n" "gv_seq t d vs" "rest = concat (map gv_bytes vs) @ rest'"
      "c' = cursor_adv (cursor_adv c (length (gv_bytes v))) (length (concat (map gv_bytes vs)))"
    using c by (auto simp: skips_def)
  show "skips c t d (Suc n) c'"
    unfolding skips_def by (rule exI [of _ "v # vs"], rule exI [of _ rest']) (use v vs in simp)
qed

lemma array_head:
  assumes c: "cursor_ok c"
  shows "(\<exists>c1. cursor_u32 c = (Some t, c1) \<and> cursor_u64 c1 = (Some len, c2)) \<longleftrightarrow>
     (\<exists>rest. cursor_left c = le_put32 t @ kv_le_put64 len @ rest) \<and> c2 = cursor_adv c 12" (is "?L \<longleftrightarrow> ?R")
proof
  assume ?L
  then obtain c1 where t: "cursor_u32 c = (Some t, c1)" and len: "cursor_u64 c1 = (Some len, c2)" by blast
  from t obtain r where r: "cursor_left c = le_put32 t @ r" "c1 = cursor_adv c 4"
    using cursor_u32_Some [OF c] by blast
  then have c1: "cursor_ok c1" "cursor_left c1 = r" using c by simp_all
  from len obtain r' where "r = kv_le_put64 len @ r'" "c2 = cursor_adv c1 8"
    using cursor_u64_Some [OF c1(1)] c1(2) by blast
  with r show ?R by auto
next
  assume ?R
  then obtain rest where l: "cursor_left c = le_put32 t @ kv_le_put64 len @ rest" by blast
  have "cursor_u32 c = (Some t, cursor_adv c 4)" using cursor_u32_Some [OF c] l by blast
  moreover have "cursor_u64 (cursor_adv c 4) = (Some len, cursor_adv c 12)"
    using cursor_u64_Some [of "cursor_adv c 4" len] c l by simp
  ultimately show ?L using \<open>?R\<close> by blast
qed

lemma skips_array:
  assumes c: "cursor_ok c" and d: "d \<le> 8"
    and items: "\<And>t len rest c'. cursor_left c = le_put32 t @ kv_le_put64 len @ rest \<Longrightarrow>
      scalar_value_size t = 0 \<Longrightarrow>
      skip_items (cursor_adv c 12) t (d + 1) (unat len) = (Some (), c') \<longleftrightarrow>
      skips (cursor_adv c 12) t (d + 1) (unat len) c'"
  shows "skip_value c GGUF_VALUE_ARRAY d = (Some (), c') \<longleftrightarrow> skips_one c GGUF_VALUE_ARRAY d c'"
proof -
  define body where "body = (\<lambda>t (len :: u64) c.
     if scalar_value_size t \<noteq> 0 then
       (if - 1 div scalar_value_size t < len then (None, cursor_error c Array_too_large)
        else cursor_skip c (len * scalar_value_size t))
     else skip_items c t (d + 1) (unat len))"
  define dep where "dep t = (if scalar_value_size t = 0 then d + 1 else d)" for t
  have body: "body t len (cursor_adv c 12) = (Some (), c') \<longleftrightarrow>
      skips (cursor_adv c 12) t (dep t) (unat len) c'"
    if "cursor_left c = le_put32 t @ kv_le_put64 len @ rest" for t len rest c'
    using skip_scalar_array [of "cursor_adv c 12" t d len c'] items [OF that, of c'] c d that
    by (simp add: body_def skips_def dep_def)
  have "skip_value c GGUF_VALUE_ARRAY d =
      cursor_then (cursor_u32 c) (\<lambda>t c. cursor_then (cursor_u64 c) (body t))"
    using d by (simp add: skip_value.simps body_def Let_def)
  moreover have "\<dots> = (Some (), c') \<longleftrightarrow>
      (\<exists>t len c2. (\<exists>c1. cursor_u32 c = (Some t, c1) \<and> cursor_u64 c1 = (Some len, c2)) \<and>
        body t len c2 = (Some (), c'))"
    by (auto simp: cursor_then_Some)
  moreover have "\<dots> \<longleftrightarrow>
      (\<exists>t len rest. cursor_left c = le_put32 t @ kv_le_put64 len @ rest \<and>
        body t len (cursor_adv c 12) = (Some (), c'))"
    (is "_ \<longleftrightarrow> ?R")
    unfolding array_head [OF c] by blast
  moreover have "?R \<longleftrightarrow> skips_one c GGUF_VALUE_ARRAY d c'"
  proof
    assume "\<exists>t len rest. cursor_left c = le_put32 t @ kv_le_put64 len @ rest \<and>
        body t len (cursor_adv c 12) = (Some (), c')"
    then obtain t len rest where l: "cursor_left c = le_put32 t @ kv_le_put64 len @ rest"
        and b: "skips (cursor_adv c 12) t (dep t) (unat len) c'"
      using body by blast
    then obtain vs rest' where vs: "length vs = unat len" "gv_seq t (dep t) vs"
        "rest = concat (map gv_bytes vs) @ rest'"
        "c' = cursor_adv c (12 + length (concat (map gv_bytes vs)))"
      using c by (auto simp: skips_def)
    have n: "of_nat (length vs) = len" "length vs < 2 ^ 64" using vs(1) unat_u64 [of len] by simp_all
    show "skips_one c GGUF_VALUE_ARRAY d c'"
      unfolding skips_one_def by (rule exI [of _ "GArray t vs"], rule exI [of _ rest'])
        (use l vs(2-4) n d in \<open>simp add: gv_seq_def dep_def\<close>)
  next
    assume "skips_one c GGUF_VALUE_ARRAY d c'"
    then obtain v rest where v: "gv_type v = GGUF_VALUE_ARRAY" "gv_ok d v" "cursor_left c = gv_bytes v @ rest"
        "c' = cursor_adv c (length (gv_bytes v))" by (auto simp: skips_one_def)
    then obtain t vs where a: "v = GArray t vs"
      by (cases v) (auto simp: scalar_value_size_kinds)
    with v(2) have n: "unat (of_nat (length vs) :: u64) = length vs"
      by (simp add: unsigned_of_nat take_bit_nat_eq_self)
    have "skips (cursor_adv c 12) t (dep t) (length vs) c'"
      unfolding skips_def by (rule exI [of _ vs], rule exI [of _ rest])
        (use v a c in \<open>auto simp: gv_seq_def dep_def\<close>)
    with n v a body c show "\<exists>t len rest. cursor_left c = le_put32 t @ kv_le_put64 len @ rest \<and>
        body t len (cursor_adv c 12) = (Some (), c')"
      by (intro exI [of _ t] exI [of _ "of_nat (length vs)"]) simp
  qed
  ultimately show ?thesis by simp
qed

lemma skips_scalar:
  assumes c: "cursor_ok c" and t: "scalar_value_size t \<noteq> 0" and d: "d \<le> 8"
  shows "cursor_skip c (scalar_value_size t) = (Some (), c') \<longleftrightarrow> skips_one c t d c'" (is "?L \<longleftrightarrow> ?R")
proof -
  let ?n = "unat (scalar_value_size t)"
  have "?L \<longleftrightarrow> (\<exists>bs rest. cursor_left c = bs @ rest \<and> length bs = ?n) \<and> c' = cursor_adv c ?n"
    using length_prefix_iff [of ?n "cursor_left c"] by (auto simp: cursor_skip_eq [OF c])
  also have "\<dots> \<longleftrightarrow> (\<exists>v rest. (gv_type v = t \<and> gv_ok d v) \<and> cursor_left c = gv_bytes v @ rest \<and>
        c' = cursor_adv c (length (gv_bytes v)))"
    unfolding gv_scalar [OF t] using d by fastforce
  finally show ?thesis by (auto simp: skips_one_def)
qed

lemma gv_string: "gv_type v = GGUF_VALUE_STRING \<and> gv_ok d v \<longleftrightarrow>
    d \<le> 8 \<and> (\<exists>s. v = GString s \<and> length s < 2 ^ 64)"
  by (cases v) auto

lemma skips_string:
  assumes c: "cursor_ok c" and d: "d \<le> 8"
  shows "cursor_then (cursor_string c) (\<lambda>_ c. (Some (), c)) = (Some (), c') \<longleftrightarrow>
     skips_one c GGUF_VALUE_STRING d c'" (is "?L \<longleftrightarrow> ?R")
proof -
  have "?R \<longleftrightarrow> (\<exists>v rest. (gv_type v = GGUF_VALUE_STRING \<and> gv_ok d v) \<and> cursor_left c = gv_bytes v @ rest \<and>
        c' = cursor_adv c (length (gv_bytes v)))"
    by (auto simp: skips_one_def)
  then show ?thesis
    unfolding gv_string cursor_then_Some cursor_string_Some [OF c] using d by (auto simp del: gv_bytes.simps)
qed

lemma gv_ok_depth: "gv_ok d v \<Longrightarrow> d \<le> 8" by (cases v) auto

lemma gv_type_cases:
  "gv_ok d v \<Longrightarrow> scalar_value_size (gv_type v) \<noteq> 0 \<or> gv_type v = GGUF_VALUE_STRING \<or> gv_type v = GGUF_VALUE_ARRAY"
  by (cases v) auto

lemma skip_value_skips:
  "cursor_ok c \<Longrightarrow> skip_value c t d = (Some (), c') \<longleftrightarrow> skips_one c t d c'"
  "cursor_ok c \<Longrightarrow> skip_items c t d n = (Some (), c') \<longleftrightarrow> skips c t d n c'"
proof (induction c t d and c t d n arbitrary: c' and c' rule: skip_value_skip_items.induct)
  case (1 c t d)
  note c = "1.prems"
  show ?case
  proof (cases "8 < d")
    case True
    then show ?thesis by (auto simp: skip_value.simps skips_one_def dest: gv_ok_depth)
  next
    case False
    then have d: "d \<le> 8" by simp
    consider (scalar) "scalar_value_size t \<noteq> 0" | (str) "t = GGUF_VALUE_STRING"
      | (arr) "t = GGUF_VALUE_ARRAY"
      | (other) "scalar_value_size t = 0" "t \<noteq> GGUF_VALUE_STRING" "t \<noteq> GGUF_VALUE_ARRAY"
      by blast
    then show ?thesis
    proof cases
      case scalar
      then show ?thesis using skips_scalar [OF c scalar d] False by (simp add: skip_value.simps)
    next
      case str
      then show ?thesis using skips_string [OF c d] False by (simp add: skip_value.simps)
    next
      case arr
      show ?thesis unfolding arr
      proof (rule skips_array [OF c d])
        fix t' len rest c'
        assume l: "cursor_left c = le_put32 t' @ kv_le_put64 len @ rest" and t': "scalar_value_size t' = 0"
        obtain c1 where "cursor_u32 c = (Some t', c1)" "cursor_u64 c1 = (Some len, cursor_adv c 12)"
          using array_head [OF c] l by blast
        moreover have "cursor_ok (cursor_adv c 12)" using c l by simp
        ultimately show "skip_items (cursor_adv c 12) t' (d + 1) (unat len) = (Some (), c') \<longleftrightarrow>
            skips (cursor_adv c 12) t' (d + 1) (unat len) c'"
          using "1.IH" False arr t' by simp
      qed
    next
      case other
      then have "\<not> skips_one c t d c'" by (auto simp: skips_one_def dest: gv_type_cases)
      with other False show ?thesis by (simp add: skip_value.simps)
    qed
  qed
next
  case (2 c t d)
  then show ?case by (auto simp: skips_def)
next
  case (3 c t d n)
  have "skip_items c t d (Suc n) = (Some (), c') \<longleftrightarrow>
      (\<exists>c1. skips_one c t d c1 \<and> skip_items c1 t d n = (Some (), c'))"
    using "3.IH"(1) "3.prems" by (simp add: cursor_then_Some)
  also have "\<dots> \<longleftrightarrow> (\<exists>c1. skips_one c t d c1 \<and> skips c1 t d n c')"
    using "3.IH" "3.prems" skips_one_ok by (metis option.inject)
  finally show ?case by (simp add: skips_Suc [OF "3.prems"])
qed

text \<open>C15. \<open>skip_value\<close> accepts exactly the encodings of well-formed values of the given type, nested no
  deeper than the limit allows, and moves the cursor over exactly those bytes; everything else, a count that
  would overflow included, is refused.\<close>

theorem skip_value_iff:
  assumes "cursor_ok c"
  shows "skip_value c t d = (Some (), c') \<longleftrightarrow>
     (\<exists>v rest. gv_type v = t \<and> gv_ok d v \<and> cursor_left c = gv_bytes v @ rest \<and>
        c' = cursor_adv c (length (gv_bytes v)))"
  using skip_value_skips(1) [OF assms] by (simp add: skips_one_def)

lemma skip_value_iff_witness:
  "\<exists>c'. skip_value \<lparr>cu_base = [8, 0, 0, 0, 1, 0, 0, 0, 0, 0, 0, 0, 1, 0, 0, 0, 0, 0, 0, 0, 0x61, 7], cu_size = 22,
       cu_pos = 0, cu_error = None\<rparr> GGUF_VALUE_ARRAY 0 = (Some (), c') \<and> cu_pos c' = 21"
proof -
  let ?c = "\<lparr>cu_base = [8, 0, 0, 0, 1, 0, 0, 0, 0, 0, 0, 0, 1, 0, 0, 0, 0, 0, 0, 0, 0x61, 7], cu_size = 22,
       cu_pos = 0, cu_error = None\<rparr> :: ds4_cursor"
  let ?v = "GArray GGUF_VALUE_STRING [GString [0x61]]"
  have c: "cursor_ok ?c" by (simp add: cursor_ok_def)
  have b: "gv_bytes ?v = [8, 0, 0, 0, 1, 0, 0, 0, 0, 0, 0, 0, 1, 0, 0, 0, 0, 0, 0, 0, 0x61]"
    by code_simp
  have "cursor_left ?c = gv_bytes ?v @ [7]" unfolding b by (simp add: cursor_left_def mslice_def)
  moreover have "gv_type ?v = GGUF_VALUE_ARRAY" "gv_ok 0 ?v" by simp_all
  ultimately have "skip_value ?c GGUF_VALUE_ARRAY 0 = (Some (), cursor_adv ?c 21)"
    using skip_value_iff [OF c, of GGUF_VALUE_ARRAY 0 "cursor_adv ?c 21"] b by fastforce
  then show ?thesis by (auto simp: cursor_adv_def)
qed

end
