(* ===== verification/Gguf.thy ===== *)
theory Gguf
  imports Gguf_Cursor
begin

text \<open>
  The GGUF loader of ds4.c: the tensor type table, the readers of metadata values, the metadata and tensor
  directories, the tables that are cut off the mapping, \<open>model_open\<close>. A call of \<open>ds4_die\<close> is the value
  \<open>Inl\<close>; what the operating system answers is a record of inputs. Weights stay in the mapped file, so the
  model is the file's bytes with the offsets that were read.
\<close>

datatype gguf_die =
    Cursor_failed "(cursor_msg \<times> u64) option" | Out_of_memory | Too_small | Cannot_map | Not_gguf | Not_v3
  | Metadata_count | Tensor_count | Bad_ndim | Element_overflow | Offset_overflow | Outside_file
  | Engram_encoding | Engram_invalid | Resident_type | Engram_missing | Engram_order | Unmap_failed
  | Ngram_invalid | Ngram_order | Ngram_open | Ngram_changed

text \<open>\<open>die_then\<close> runs the rest of a routine unless it died; \<open>or_die\<close> is \<open>if (!op) ds4_die(c->error)\<close>.\<close>

definition die_then :: "gguf_die + 'a \<Rightarrow> ('a \<Rightarrow> gguf_die + 'b) \<Rightarrow> gguf_die + 'b" where
  "die_then r f = (case r of Inl e \<Rightarrow> Inl e | Inr x \<Rightarrow> f x)"

definition or_die :: "'a option \<times> ds4_cursor \<Rightarrow> gguf_die + ('a \<times> ds4_cursor)" where
  "or_die r = (case r of (Some x, c) \<Rightarrow> Inr (x, c) | (None, c) \<Rightarrow> Inl (Cursor_failed (cu_error c)))"

definition die_if :: "bool \<Rightarrow> gguf_die \<Rightarrow> gguf_die + unit" where
  "die_if b e = (if b then Inl e else Inr ())"

section \<open>Tensor types\<close>

record gguf_type_info =
  gt_name :: string
  gt_block_elems :: u32
  gt_block_bytes :: u32

definition gguf_types :: "(nat \<times> gguf_type_info) list" where
  "gguf_types = map (\<lambda>(i, n, e, b). (i, \<lparr>gt_name = n, gt_block_elems = e, gt_block_bytes = b\<rparr>))
     [(0, ''f32'', 1, 4), (1, ''f16'', 1, 2), (2, ''q4_0'', 32, 18), (3, ''q4_1'', 32, 20),
      (6, ''q5_0'', 32, 22), (7, ''q5_1'', 32, 24), (8, ''q8_0'', 32, 34), (9, ''q8_1'', 32, 40),
      (10, ''q2_k'', 256, 84), (11, ''q3_k'', 256, 110), (12, ''q4_k'', 256, 144), (13, ''q5_k'', 256, 176),
      (14, ''q6_k'', 256, 210), (15, ''q8_k'', 256, 292), (16, ''iq2_xxs'', 256, 66), (17, ''iq2_xs'', 256, 74),
      (18, ''iq3_xxs'', 256, 98), (19, ''iq1_s'', 256, 110), (20, ''iq4_nl'', 256, 50), (21, ''iq3_s'', 256, 110),
      (22, ''iq2_s'', 256, 82), (23, ''iq4_xs'', 256, 136), (24, ''i8'', 1, 1), (25, ''i16'', 1, 2),
      (26, ''i32'', 1, 4), (27, ''i64'', 1, 8), (28, ''f64'', 1, 8), (29, ''iq1_m'', 256, 56),
      (30, ''bf16'', 1, 2), (39, ''mxfp4'', 32, 17)]"

definition tensor_type :: "u32 \<Rightarrow> gguf_type_info option" where
  "tensor_type t = map_of gguf_types (unat t)"

definition tensor_type_name :: "u32 \<Rightarrow> string" where
  "tensor_type_name t = (case tensor_type t of Some info \<Rightarrow> gt_name info | None \<Rightarrow> ''unknown'')"

definition tensor_nbytes :: "u32 \<Rightarrow> u64 \<Rightarrow> u64 option" where
  "tensor_nbytes t elements =
     (case tensor_type t of
        None \<Rightarrow> None
      | Some info \<Rightarrow>
          let be = ucast (gt_block_elems info); bb = ucast (gt_block_bytes info)
          in if be = 0 then None
             else let blocks = (elements + be - 1) div be
               in if - 1 div bb < blocks then None else Some (blocks * bb))"

section \<open>The model\<close>

record ds4_kv =
  gk_key :: "u8 list"
  gk_type :: u32
  gk_value_pos :: u64

definition DS4_MAX_DIMS :: nat where "DS4_MAX_DIMS = 8"

text \<open>\<open>dim\<close> holds the dimensions that were read; the rest of the C array stays zero.\<close>

record ds4_tensor =
  te_name :: "u8 list"
  te_ndim :: u32
  te_dim :: "u64 list"
  te_type :: u32
  te_rel_offset :: u64
  te_abs_offset :: u64
  te_elements :: u64
  te_bytes :: u64

record ds4_model =
  mo_map :: "u8 list"
  mo_size :: u64
  mo_file_size :: u64
  mo_version :: u32
  mo_alignment :: u64
  mo_tensor_data_pos :: u64
  mo_max_tensor_bytes :: u64
  mo_kv :: "ds4_kv list"
  mo_tensors :: "ds4_tensor list"
  mo_ngram_tensor :: "ds4_tensor option"

definition cursor_at :: "ds4_model \<Rightarrow> u64 \<Rightarrow> ds4_cursor" where
  "cursor_at m pos = \<lparr>cu_base = mo_map m, cu_size = mo_size m, cu_pos = pos, cu_error = None\<rparr>"

definition ds4_streq :: "u8 list \<Rightarrow> string \<Rightarrow> bool" where
  "ds4_streq s z \<longleftrightarrow> length s = length z \<and> s = map of_char z"

definition model_find_kv :: "ds4_model \<Rightarrow> string \<Rightarrow> ds4_kv option" where
  "model_find_kv m key = List.find (\<lambda>kv. ds4_streq (gk_key kv) key) (mo_kv m)"

definition model_find_tensor :: "ds4_model \<Rightarrow> string \<Rightarrow> ds4_tensor option" where
  "model_find_tensor m name = List.find (\<lambda>t. ds4_streq (te_name t) name) (mo_tensors m)"

text \<open>The readers; the type of the entry decides which bytes are decoded.\<close>

definition model_get_string :: "ds4_model \<Rightarrow> string \<Rightarrow> u8 list option" where
  "model_get_string m key =
     (case model_find_kv m key of
        None \<Rightarrow> None
      | Some kv \<Rightarrow> if gk_type kv \<noteq> GGUF_VALUE_STRING then None
                   else fst (cursor_string (cursor_at m (gk_value_pos kv))))"

definition model_get_u32 :: "ds4_model \<Rightarrow> string \<Rightarrow> u32 option" where
  "model_get_u32 m key =
     (case model_find_kv m key of
        None \<Rightarrow> None
      | Some kv \<Rightarrow> if gk_type kv \<noteq> GGUF_VALUE_UINT32 then None
                   else fst (cursor_u32 (cursor_at m (gk_value_pos kv))))"

definition INT_MAX :: int where "INT_MAX = 2 ^ 31 - 1"

definition model_get_token_id :: "ds4_model \<Rightarrow> string \<Rightarrow> int option" where
  "model_get_token_id m key =
     (case model_find_kv m key of
        None \<Rightarrow> None
      | Some kv \<Rightarrow>
          let c = cursor_at m (gk_value_pos kv);
            keep = (\<lambda>v. if v < 0 \<or> INT_MAX < v then None else Some v)
          in if gk_type kv = GGUF_VALUE_UINT32 then Option.bind (fst (cursor_u32 c)) (\<lambda>v. keep (uint v))
             else if gk_type kv = GGUF_VALUE_INT32 then
               Option.bind (fst (cursor_read c 4)) (\<lambda>bs. let v = sint (le_get32 bs) in if v < 0 then None else Some v)
             else if gk_type kv = GGUF_VALUE_UINT64 then Option.bind (fst (cursor_u64 c)) (\<lambda>v. keep (uint v))
             else if gk_type kv = GGUF_VALUE_INT64 then
               Option.bind (fst (cursor_read c 8)) (\<lambda>bs. keep (sint (kv_le_get64 bs)))
             else None)"

definition model_get_u64_compat :: "ds4_model \<Rightarrow> string \<Rightarrow> u64 option" where
  "model_get_u64_compat m key =
     (case model_find_kv m key of
        None \<Rightarrow> None
      | Some kv \<Rightarrow>
          let c = cursor_at m (gk_value_pos kv)
          in if gk_type kv = GGUF_VALUE_UINT64 then fst (cursor_u64 c)
             else if gk_type kv = GGUF_VALUE_UINT32 then map_option ucast (fst (cursor_u32 c))
             else None)"

definition model_get_bool :: "ds4_model \<Rightarrow> string \<Rightarrow> bool option" where
  "model_get_bool m key =
     (case model_find_kv m key of
        None \<Rightarrow> None
      | Some kv \<Rightarrow> if gk_type kv \<noteq> GGUF_VALUE_BOOL then None
                   else map_option (\<lambda>bs. bs ! 0 \<noteq> 0) (fst (cursor_read (cursor_at m (gk_value_pos kv)) 1)))"

record ds4_array_ref =
  ar_type :: u32
  ar_len :: u64
  ar_data_pos :: u64

definition model_get_array :: "ds4_model \<Rightarrow> string \<Rightarrow> ds4_array_ref option" where
  "model_get_array m key =
     (case model_find_kv m key of
        None \<Rightarrow> None
      | Some kv \<Rightarrow>
          if gk_type kv \<noteq> GGUF_VALUE_ARRAY then None
          else fst (cursor_then (cursor_u32 (cursor_at m (gk_value_pos kv))) (\<lambda>t c.
                 cursor_then (cursor_u64 c) (\<lambda>len c.
                   (Some \<lparr>ar_type = t, ar_len = len, ar_data_pos = cu_pos c\<rparr>, c)))))"

fun model_get_u32_any :: "ds4_model \<Rightarrow> string list \<Rightarrow> u32 option" where
  "model_get_u32_any m [] = None"
| "model_get_u32_any m (key # keys) =
     (case model_get_u32 m key of Some v \<Rightarrow> Some v | None \<Rightarrow> model_get_u32_any m keys)"

text \<open>The item loop of \<open>model_get_u32_array_any\<close>: \<open>n\<close> items of type UINT32 or INT32, no negative ones.\<close>

fun u32_items :: "u32 \<Rightarrow> nat \<Rightarrow> ds4_cursor \<Rightarrow> u32 list option" where
  "u32_items t 0 c = Some []"
| "u32_items t (Suc n) c =
     (case (if t = GGUF_VALUE_UINT32 then cursor_u32 c
            else apfst (map_option le_get32) (cursor_read c 4)) of
        (None, _) \<Rightarrow> None
      | (Some v, c) \<Rightarrow>
          if t \<noteq> GGUF_VALUE_UINT32 \<and> sint v < 0 then None else map_option (Cons v) (u32_items t n c))"

fun model_get_u32_array_any :: "ds4_model \<Rightarrow> string list \<Rightarrow> u32 \<Rightarrow> u32 list option" where
  "model_get_u32_array_any m [] cap = None"
| "model_get_u32_array_any m (key # keys) cap =
     (case model_get_array m key of
        None \<Rightarrow> model_get_u32_array_any m keys cap
      | Some arr \<Rightarrow>
          if ar_type arr \<noteq> GGUF_VALUE_UINT32 \<and> ar_type arr \<noteq> GGUF_VALUE_INT32
          then model_get_u32_array_any m keys cap
          else let n = if ar_len arr < ucast cap then ucast (ar_len arr) else cap
            in u32_items (ar_type arr) (unat n) (cursor_at m (ar_data_pos arr)))"

section \<open>Opening a file\<close>

text \<open>What the operating system and the allocator answer.\<close>

record gguf_env =
  ge_mmap_ok :: bool
  ge_kv_alloc :: bool
  ge_tensor_alloc :: bool
  ge_page :: int
  ge_munmap_ok :: bool
  ge_ngram_open :: bool
  ge_ngram_same :: bool
  ge_ngram_size :: int
  ge_ngram_cache_ok :: bool

definition DS4_GGUF_MAGIC :: u32 where "DS4_GGUF_MAGIC = 0x46554747"

fun parse_metadata_loop ::
  "nat \<Rightarrow> ds4_cursor \<Rightarrow> u64 \<Rightarrow> ds4_kv list \<Rightarrow> gguf_die + (ds4_kv list \<times> u64 \<times> ds4_cursor)" where
  "parse_metadata_loop 0 c alignment kvs = Inr (kvs, alignment, c)"
| "parse_metadata_loop (Suc n) c alignment kvs =
     die_then (or_die (cursor_string c)) (\<lambda>(key, c).
     die_then (or_die (cursor_u32 c)) (\<lambda>(t, c).
       let kv = \<lparr>gk_key = key, gk_type = t, gk_value_pos = cu_pos c\<rparr>;
           alignment =
             (if ds4_streq key ''general.alignment'' \<and> t = GGUF_VALUE_UINT32 then
                case fst (cursor_u32 (c\<lparr>cu_error := None\<rparr>)) of
                  Some a \<Rightarrow> if a \<noteq> 0 then ucast a else alignment
                | None \<Rightarrow> alignment
              else alignment)
       in die_then (or_die (skip_value c t 0)) (\<lambda>(_, c).
            parse_metadata_loop n c alignment (kvs @ [kv]))))"

definition parse_metadata ::
  "gguf_env \<Rightarrow> u64 \<Rightarrow> ds4_cursor \<Rightarrow> gguf_die + (ds4_kv list \<times> u64 \<times> ds4_cursor)" where
  "parse_metadata env n_kv c =
     die_then (die_if (cu_size c - cu_pos c < n_kv) Metadata_count) (\<lambda>_.
     die_then (die_if (\<not> ge_kv_alloc env) Out_of_memory) (\<lambda>_.
       parse_metadata_loop (unat n_kv) c 32 []))"

fun parse_dims :: "nat \<Rightarrow> ds4_cursor \<Rightarrow> u64 \<Rightarrow> u64 list \<Rightarrow> gguf_die + (u64 list \<times> u64 \<times> ds4_cursor)" where
  "parse_dims 0 c elements dims = Inr (dims, elements, c)"
| "parse_dims (Suc n) c elements dims =
     die_then (or_die (cursor_u64 c)) (\<lambda>(dim, c).
     die_then (die_if (dim \<noteq> 0 \<and> - 1 div dim < elements) Element_overflow) (\<lambda>_.
       parse_dims n c (elements * dim) (dims @ [dim])))"

fun parse_tensors_loop ::
  "nat \<Rightarrow> ds4_cursor \<Rightarrow> ds4_tensor list \<Rightarrow> gguf_die + (ds4_tensor list \<times> ds4_cursor)" where
  "parse_tensors_loop 0 c ts = Inr (ts, c)"
| "parse_tensors_loop (Suc n) c ts =
     die_then (or_die (cursor_string c)) (\<lambda>(name, c).
     die_then (or_die (cursor_u32 c)) (\<lambda>(ndim, c).
     die_then (die_if (ndim = 0 \<or> DS4_MAX_DIMS < unat ndim) Bad_ndim) (\<lambda>_.
     die_then (parse_dims (unat ndim) c 1 []) (\<lambda>(dims, elements, c).
     die_then (or_die (cursor_u32 c)) (\<lambda>(t, c).
     die_then (or_die (cursor_u64 c)) (\<lambda>(rel, c).
       let bytes = (case tensor_nbytes t elements of Some b \<Rightarrow> b | None \<Rightarrow> 0)
       in parse_tensors_loop n c
            (ts @ [\<lparr>te_name = name, te_ndim = ndim, te_dim = dims, te_type = t, te_rel_offset = rel,
                    te_abs_offset = 0, te_elements = elements, te_bytes = bytes\<rparr>])))))))"

fun place_tensors :: "u64 \<Rightarrow> u64 \<Rightarrow> ds4_tensor list \<Rightarrow> u64 \<Rightarrow> gguf_die + (ds4_tensor list \<times> u64)" where
  "place_tensors data_pos sz [] mx = Inr ([], mx)"
| "place_tensors data_pos sz (t # ts) mx =
     die_then (die_if (- 1 - data_pos < te_rel_offset t) Offset_overflow) (\<lambda>_.
       let t = t\<lparr>te_abs_offset := data_pos + te_rel_offset t\<rparr>
       in die_then (die_if (te_bytes t \<noteq> 0 \<and>
                (sz < te_abs_offset t \<or> sz - te_abs_offset t < te_bytes t)) Outside_file) (\<lambda>_.
          die_then (place_tensors data_pos sz ts (if mx < te_bytes t then te_bytes t else mx)) (\<lambda>(ts, mx).
            Inr (t # ts, mx))))"

text \<open>\<open>parse_tensors\<close>: the tensors, the start of their data and the largest one.\<close>

definition parse_tensors ::
  "gguf_env \<Rightarrow> u64 \<Rightarrow> u64 \<Rightarrow> ds4_cursor \<Rightarrow> gguf_die + (ds4_tensor list \<times> u64 \<times> u64)" where
  "parse_tensors env n_tensors alignment c =
     die_then (die_if (cu_size c - cu_pos c < n_tensors) Tensor_count) (\<lambda>_.
     die_then (die_if (\<not> ge_tensor_alloc env) Out_of_memory) (\<lambda>_.
     die_then (parse_tensors_loop (unat n_tensors) c []) (\<lambda>(ts, c).
       let data_pos = align_up (cu_pos c) alignment
       in die_then (place_tensors data_pos (cu_size c) ts 0) (\<lambda>(ts, mx). Inr (ts, data_pos, mx)))))"

text \<open>
  The scans of \<open>model_unmap_engram\<close> and \<open>model_unmap_qwen_ngrams\<close>: the tables found so far, the end of the
  resident weights and the largest resident tensor.
\<close>

definition grow_resident :: "ds4_tensor \<Rightarrow> u64 \<Rightarrow> u64" where
  "grow_resident t resident_end =
     (if resident_end < te_abs_offset t + te_bytes t then te_abs_offset t + te_bytes t else resident_end)"

fun engram_scan ::
  "ds4_tensor list \<Rightarrow> ds4_tensor option \<Rightarrow> ds4_tensor option \<Rightarrow> u64 \<Rightarrow> u64 \<Rightarrow>
     gguf_die + (ds4_tensor option \<times> ds4_tensor option \<times> u64 \<times> u64)" where
  "engram_scan [] t0 t1 resident_end mx = Inr (t0, t1, resident_end, mx)"
| "engram_scan (t # ts) t0 t1 resident_end mx =
     (let is0 = ds4_streq (te_name t) ''blk.1.engram_embd.weight'';
          is1 = ds4_streq (te_name t) ''blk.14.engram_embd.weight''
      in if is0 \<or> is1 then
           if (if is0 then t0 else t1) \<noteq> None \<or> te_ndim t \<noteq> 2 \<or> te_type t \<noteq> 24 \<or>
              te_dim t ! 0 \<noteq> 264 \<or> te_dim t ! 1 = 0 \<or> 0xFFFFFFFF < te_dim t ! 1
           then Inl Engram_invalid
           else if is0 then engram_scan ts (Some t) t1 resident_end mx
           else engram_scan ts t0 (Some t) resident_end mx
         else if te_bytes t = 0 then Inl Resident_type
         else engram_scan ts t0 t1 (grow_resident t resident_end)
                (if mx < te_bytes t then te_bytes t else mx))"

definition page_multiple :: "gguf_env \<Rightarrow> u64 \<Rightarrow> bool" where
  "page_multiple env off \<longleftrightarrow> 0 < ge_page env \<and> off mod word_of_int (ge_page env) = 0"

definition model_unmap_engram :: "gguf_env \<Rightarrow> ds4_model \<Rightarrow> gguf_die + ds4_model" where
  "model_unmap_engram env m =
     (case model_get_string m ''general.architecture'' of
        None \<Rightarrow> Inr m
      | Some arch \<Rightarrow>
          if \<not> ds4_streq arch ''deepseek41'' then Inr m
          else
            die_then (die_if (case model_get_string m ''deepseek41.engram.encoding'' of
                None \<Rightarrow> True | Some e \<Rightarrow> \<not> ds4_streq e ''e4m3_e8m0_32_row264'') Engram_encoding) (\<lambda>_.
            die_then (engram_scan (mo_tensors m) None None (mo_tensor_data_pos m) 0)
              (\<lambda>(t0, t1, resident_end, mx).
                 case (t0, t1) of
                   (Some t0, Some t1) \<Rightarrow>
                     let start = te_abs_offset t0
                     in die_then (die_if (\<not> page_multiple env start \<or> start < resident_end \<or>
                            te_abs_offset t1 < start + te_bytes t0) Engram_order) (\<lambda>_.
                        die_then (die_if (\<not> ge_munmap_ok env) Unmap_failed) (\<lambda>_.
                          Inr (m\<lparr>mo_max_tensor_bytes := mx, mo_size := start\<rparr>)))
                 | _ \<Rightarrow> Inl Engram_missing)))"

definition DS4_TENSOR_BF16 :: u32 where "DS4_TENSOR_BF16 = 30"

fun qwen_scan ::
  "ds4_tensor list \<Rightarrow> ds4_tensor option \<Rightarrow> u64 \<Rightarrow> u64 \<Rightarrow> gguf_die + (ds4_tensor option \<times> u64 \<times> u64)" where
  "qwen_scan [] table resident_end mx = Inr (table, resident_end, mx)"
| "qwen_scan (t # ts) table resident_end mx =
     (if ds4_streq (te_name t) ''per_layer_token_embd.weight'' then
        if table \<noteq> None \<or> te_type t \<noteq> DS4_TENSOR_BF16 \<or> te_ndim t \<noteq> 2 \<or>
           te_dim t ! 0 = 0 \<or> 160 < te_dim t ! 0 \<or> te_dim t ! 1 = 0 \<or> 0xFFFFFFFF < te_dim t ! 1
        then Inl Ngram_invalid
        else qwen_scan ts (Some t) resident_end mx
      else if te_bytes t = 0 then Inl Resident_type
      else qwen_scan ts table (grow_resident t resident_end)
             (if mx < te_bytes t then te_bytes t else mx))"

definition model_unmap_qwen_ngrams :: "gguf_env \<Rightarrow> ds4_model \<Rightarrow> gguf_die + ds4_model" where
  "model_unmap_qwen_ngrams env m =
     (case model_get_string m ''general.architecture'' of
        None \<Rightarrow> Inr m
      | Some arch \<Rightarrow>
          if \<not> ds4_streq arch ''qwen4exp'' then Inr m
          else
            die_then (qwen_scan (mo_tensors m) None (mo_tensor_data_pos m) 0)
              (\<lambda>(table, resident_end, mx).
                 let m = m\<lparr>mo_max_tensor_bytes := mx\<rparr>
                 in case table of
                      None \<Rightarrow> Inr m
                    | Some t \<Rightarrow>
                        die_then (die_if (\<not> page_multiple env (te_abs_offset t) \<or>
                          te_abs_offset t < resident_end) Ngram_order) (\<lambda>_.
                        die_then (die_if (\<not> ge_ngram_open env) Ngram_open) (\<lambda>_.
                        die_then (die_if (\<not> ge_ngram_same env \<or> ge_ngram_size env < 0 \<or>
                          word_of_int (ge_ngram_size env) \<noteq> mo_file_size m) Ngram_changed) (\<lambda>_.
                        die_then (die_if (\<not> ge_ngram_cache_ok env) Ngram_open) (\<lambda>_.
                        die_then (die_if (\<not> ge_munmap_ok env) Unmap_failed) (\<lambda>_.
                          Inr (m\<lparr>mo_size := te_abs_offset t, mo_ngram_tensor := Some t\<rparr>))))))))"

text \<open>The header and the two directories.\<close>

definition model_parse :: "gguf_env \<Rightarrow> u8 list \<Rightarrow> gguf_die + ds4_model" where
  "model_parse env bytes =
     (let sz = of_nat (length bytes)
      in die_then (or_die (cursor_u32 \<lparr>cu_base = bytes, cu_size = sz, cu_pos = 0, cu_error = None\<rparr>)) (\<lambda>(magic, c).
         die_then (die_if (magic \<noteq> DS4_GGUF_MAGIC) Not_gguf) (\<lambda>_.
         die_then (or_die (cursor_u32 c)) (\<lambda>(version, c).
         die_then (or_die (cursor_u64 c)) (\<lambda>(n_tensors, c).
         die_then (or_die (cursor_u64 c)) (\<lambda>(n_kv, c).
         die_then (die_if (version \<noteq> 3) Not_v3) (\<lambda>_.
         die_then (parse_metadata env n_kv c) (\<lambda>(kvs, alignment, c).
         die_then (parse_tensors env n_tensors alignment c) (\<lambda>(ts, data_pos, mx).
           Inr \<lparr>mo_map = bytes, mo_size = sz, mo_file_size = sz, mo_version = version,
                mo_alignment = alignment, mo_tensor_data_pos = data_pos, mo_max_tensor_bytes = mx,
                mo_kv = kvs, mo_tensors = ts, mo_ngram_tensor = None\<rparr>)))))))))"

definition model_open :: "gguf_env \<Rightarrow> u8 list \<Rightarrow> gguf_die + ds4_model" where
  "model_open env bytes =
     die_then (die_if (length bytes < 32) Too_small) (\<lambda>_.
     die_then (die_if (\<not> ge_mmap_ok env) Cannot_map) (\<lambda>_.
     die_then (model_parse env bytes) (\<lambda>m.
     die_then (model_unmap_engram env m) (\<lambda>m.
       model_unmap_qwen_ngrams env m))))"

section \<open>Reading what was written\<close>

lemma die_then_Inr: "die_then r f = Inr y \<longleftrightarrow> (\<exists>x. r = Inr x \<and> f x = Inr y)"
  by (auto simp: die_then_def split: sum.splits)

lemma or_die_Inr: "or_die r = Inr p \<longleftrightarrow> r = (Some (fst p), snd p)"
  by (cases p) (auto simp: or_die_def split: prod.splits option.splits)

lemma die_if_Inr: "die_if b e = Inr u \<longleftrightarrow> \<not> b"
  by (simp add: die_if_def)

lemma let_Inr: "(let x = a in f x) = Inr y \<longleftrightarrow> f a = Inr y"
  by (simp add: Let_def)

lemmas die_simps = die_then_Inr or_die_Inr die_if_Inr split_paired_Ex

text \<open>\<open>takes\<close>: a step that reads one item, stated by the encoding of the item.\<close>

definition takes :: "('a \<Rightarrow> u8 list) \<Rightarrow> ('a \<Rightarrow> bool) \<Rightarrow> ds4_cursor \<Rightarrow> 'a \<Rightarrow> ds4_cursor \<Rightarrow> bool" where
  "takes enc ok c x c' \<longleftrightarrow> ok x \<and> (\<exists>rest. cursor_left c = enc x @ rest) \<and> c' = cursor_adv c (length (enc x))"

definition enc_list :: "('a \<Rightarrow> u8 list) \<Rightarrow> 'a list \<Rightarrow> u8 list" where
  "enc_list enc xs = concat (map enc xs)"

lemma enc_list_simps [simp]: "enc_list enc [] = []" "enc_list enc (x # xs) = enc x @ enc_list enc xs"
  by (simp_all add: enc_list_def)

lemma takes_ok: "cursor_ok c \<Longrightarrow> takes enc ok c x c' \<Longrightarrow> cursor_ok c'"
  by (auto simp: takes_def)

lemma takes_pair:
  assumes c: "cursor_ok c"
  shows "takes (\<lambda>p. enc1 (fst p) @ enc2 (snd p)) (\<lambda>p. ok1 (fst p) \<and> ok2 (snd p)) c (x, y) c' \<longleftrightarrow>
     (\<exists>c1. takes enc1 ok1 c x c1 \<and> takes enc2 ok2 c1 y c')"
proof
  assume "takes (\<lambda>p. enc1 (fst p) @ enc2 (snd p)) (\<lambda>p. ok1 (fst p) \<and> ok2 (snd p)) c (x, y) c'"
  then obtain rest where *: "ok1 x" "ok2 y" "cursor_left c = enc1 x @ enc2 y @ rest"
      "c' = cursor_adv c (length (enc1 x) + length (enc2 y))"
    by (auto simp: takes_def)
  then have "takes enc1 ok1 c x (cursor_adv c (length (enc1 x)))" by (auto simp: takes_def)
  moreover have "takes enc2 ok2 (cursor_adv c (length (enc1 x))) y c'" using * c by (auto simp: takes_def)
  ultimately show "\<exists>c1. takes enc1 ok1 c x c1 \<and> takes enc2 ok2 c1 y c'" by blast
next
  assume "\<exists>c1. takes enc1 ok1 c x c1 \<and> takes enc2 ok2 c1 y c'"
  then obtain rest where "ok1 x" "cursor_left c = enc1 x @ rest" and
      "takes enc2 ok2 (cursor_adv c (length (enc1 x))) y c'"
    by (auto simp: takes_def)
  with c show "takes (\<lambda>p. enc1 (fst p) @ enc2 (snd p)) (\<lambda>p. ok1 (fst p) \<and> ok2 (snd p)) c (x, y) c'"
    by (auto simp: takes_def)
qed

lemma takes_Cons:
  assumes "cursor_ok c"
  shows "takes (enc_list enc) (list_all ok) c (x # xs) c' \<longleftrightarrow>
     (\<exists>c1. takes enc ok c x c1 \<and> takes (enc_list enc) (list_all ok) c1 xs c')"
  using takes_pair [OF assms, of enc "enc_list enc" ok "list_all ok" x xs c'] by (simp add: takes_def)

lemma takes_Nil: "takes (enc_list enc) (list_all ok) c [] c' \<longleftrightarrow> c' = c"
  by (auto simp: takes_def)

lemma cursor_u32_takes:
  "cursor_ok c \<Longrightarrow> cursor_u32 c = (Some v, c') \<longleftrightarrow> takes le_put32 (\<lambda>_. True) c v c'"
  by (simp add: cursor_u32_Some takes_def)

lemma cursor_u64_takes:
  "cursor_ok c \<Longrightarrow> cursor_u64 c = (Some v, c') \<longleftrightarrow> takes kv_le_put64 (\<lambda>_. True) c v c'"
  by (simp add: cursor_u64_Some takes_def)

definition str_bytes :: "u8 list \<Rightarrow> u8 list" where "str_bytes s = gv_bytes (GString s)"
definition str_ok :: "u8 list \<Rightarrow> bool" where "str_ok s \<longleftrightarrow> length s < 2 ^ 64"

lemma cursor_string_takes:
  "cursor_ok c \<Longrightarrow> cursor_string c = (Some s, c') \<longleftrightarrow> takes str_bytes str_ok c s c'"
  unfolding cursor_string_Some takes_def str_bytes_def str_ok_def by simp

lemma skip_value_takes:
  "cursor_ok c \<Longrightarrow> skip_value c t d = (Some (), c') \<longleftrightarrow>
     (\<exists>v. gv_type v = t \<and> takes gv_bytes (gv_ok d) c v c')"
  unfolding takes_def by (subst skip_value_skips(1)) (auto simp: skips_one_def)

subsection \<open>Metadata\<close>

type_synonym gguf_entry = "u8 list \<times> gguf_value"

definition entry_bytes :: "gguf_entry \<Rightarrow> u8 list" where
  "entry_bytes e = str_bytes (fst e) @ le_put32 (gv_type (snd e)) @ gv_bytes (snd e)"

definition entry_ok :: "gguf_entry \<Rightarrow> bool" where
  "entry_ok e \<longleftrightarrow> str_ok (fst e) \<and> gv_ok 0 (snd e)"

definition entry_value_pos :: "u64 \<Rightarrow> gguf_entry \<Rightarrow> u64" where
  "entry_value_pos pos e = pos + of_nat (length (str_bytes (fst e)) + 4)"

fun kv_table :: "u64 \<Rightarrow> gguf_entry list \<Rightarrow> ds4_kv list" where
  "kv_table pos [] = []"
| "kv_table pos (e # es) =
     \<lparr>gk_key = fst e, gk_type = gv_type (snd e), gk_value_pos = entry_value_pos pos e\<rparr> #
     kv_table (pos + of_nat (length (entry_bytes e))) es"

definition entry_alignment :: "gguf_entry \<Rightarrow> u64 \<Rightarrow> u64" where
  "entry_alignment e a =
     (if ds4_streq (fst e) ''general.alignment'' \<and> gv_type (snd e) = GGUF_VALUE_UINT32 \<and>
         le_get32 (gv_bytes (snd e)) \<noteq> 0
      then ucast (le_get32 (gv_bytes (snd e))) else a)"

lemma entry_takes:
  assumes c: "cursor_ok c"
  shows "(\<exists>c1. cursor_string c = (Some key, c1) \<and> cursor_u32 c1 = (Some t, c2) \<and>
             skip_value c2 t 0 = (Some (), c3)) \<longleftrightarrow>
     (\<exists>v. gv_type v = t \<and> takes entry_bytes entry_ok c (key, v) c3 \<and>
        c2 = cursor_adv c (length (str_bytes key) + 4))" (is "?L \<longleftrightarrow> ?R")
proof
  assume ?L
  then obtain c1 where 1: "takes str_bytes str_ok c key c1" "cursor_u32 c1 = (Some t, c2)"
      "skip_value c2 t 0 = (Some (), c3)"
    using cursor_string_takes [OF c] by blast
  then have c1: "cursor_ok c1" by (intro takes_ok [OF c 1(1)])
  with 1 have 2: "takes le_put32 (\<lambda>_. True) c1 t c2" by (simp add: cursor_u32_takes)
  then have c2: "cursor_ok c2" by (rule takes_ok [OF c1])
  with 1(3) obtain v where 3: "gv_type v = t" "takes gv_bytes (gv_ok 0) c2 v c3"
    using skip_value_takes by blast
  from 1(1) obtain r where r: "cursor_left c = str_bytes key @ r" "c1 = cursor_adv c (length (str_bytes key))"
      "str_ok key" by (auto simp: takes_def)
  from 2 r c obtain r' where r': "r = le_put32 t @ r'" "c2 = cursor_adv c (length (str_bytes key) + 4)"
    by (auto simp: takes_def)
  from 3 r r' c show ?R by (auto simp: takes_def entry_bytes_def entry_ok_def add.assoc intro!: exI [of _ v])
next
  assume ?R
  then obtain v rest where v: "gv_type v = t" "entry_ok (key, v)"
      "cursor_left c = str_bytes key @ le_put32 t @ gv_bytes v @ rest"
      "c3 = cursor_adv c (length (str_bytes key) + (4 + length (gv_bytes v)))"
      "c2 = cursor_adv c (length (str_bytes key) + 4)"
    by (auto simp: takes_def entry_bytes_def)
  let ?c1 = "cursor_adv c (length (str_bytes key))"
  have "takes str_bytes str_ok c key ?c1" using v by (auto simp: takes_def entry_ok_def)
  moreover have "takes le_put32 (\<lambda>_. True) ?c1 t c2" using v c by (auto simp: takes_def)
  moreover have "takes gv_bytes (gv_ok 0) c2 v c3" using v c by (auto simp: takes_def entry_ok_def add.assoc)
  moreover have "cursor_ok ?c1" "cursor_ok c2" using v c by simp_all
  ultimately show ?L
    using c v(1) by (metis cursor_string_takes cursor_u32_takes skip_value_takes)
qed

definition loop_alignment :: "u8 list \<Rightarrow> u32 \<Rightarrow> ds4_cursor \<Rightarrow> u64 \<Rightarrow> u64" where
  "loop_alignment key t c a =
     (if ds4_streq key ''general.alignment'' \<and> t = GGUF_VALUE_UINT32 then
        case fst (cursor_u32 (c\<lparr>cu_error := None\<rparr>)) of
          Some x \<Rightarrow> if x \<noteq> 0 then ucast x else a
        | None \<Rightarrow> a
      else a)"

lemma loop_alignment_entry:
  assumes c: "cursor_ok c" and v: "takes gv_bytes (gv_ok 0) c v c'"
  shows "loop_alignment key (gv_type v) c a = entry_alignment (key, v) a"
proof (cases "gv_type v = GGUF_VALUE_UINT32")
  case True
  from v obtain rest where ok: "gv_ok 0 v" and l: "cursor_left c = gv_bytes v @ rest" by (auto simp: takes_def)
  have "scalar_value_size GGUF_VALUE_UINT32 = 4" by (simp add: scalar_value_size_def gguf_value_defs)
  with ok True obtain bs where bs: "v = GScalar GGUF_VALUE_UINT32 bs" "length bs = 4"
    using gv_scalar [of GGUF_VALUE_UINT32 v 0] by auto
  have "cursor_ok (c\<lparr>cu_error := None\<rparr>)" "cursor_left (c\<lparr>cu_error := None\<rparr>) = bs @ rest"
    using c l bs by (simp_all add: cursor_ok_def cursor_left_def)
  then have "fst (cursor_u32 (c\<lparr>cu_error := None\<rparr>)) = Some (le_get32 bs)"
    using bs by (simp add: cursor_u32_def cursor_read_eq)
  with bs show ?thesis by (simp add: loop_alignment_def entry_alignment_def)
next
  case False
  then show ?thesis by (simp add: loop_alignment_def entry_alignment_def)
qed

lemma entry_step:
  assumes c: "cursor_ok c"
  shows "parse_metadata_loop (Suc n) c a kvs = Inr r \<longleftrightarrow>
     (\<exists>e c1. takes entry_bytes entry_ok c e c1 \<and>
        parse_metadata_loop n c1 (entry_alignment e a)
          (kvs @ [\<lparr>gk_key = fst e, gk_type = gv_type (snd e), gk_value_pos = entry_value_pos (cu_pos c) e\<rparr>])
        = Inr r)" (is "_ \<longleftrightarrow> ?R")
proof -
  let ?run = "\<lambda>key t c2 c3. parse_metadata_loop n c3 (loop_alignment key t c2 a)
     (kvs @ [\<lparr>gk_key = key, gk_type = t, gk_value_pos = cu_pos c2\<rparr>]) = Inr r"
  have "parse_metadata_loop (Suc n) c a kvs =
      die_then (or_die (cursor_string c)) (\<lambda>(key, c). die_then (or_die (cursor_u32 c)) (\<lambda>(t, c).
        die_then (or_die (skip_value c t 0)) (\<lambda>(_, c'). parse_metadata_loop n c' (loop_alignment key t c a)
          (kvs @ [\<lparr>gk_key = key, gk_type = t, gk_value_pos = cu_pos c\<rparr>]))))"
    by (simp add: loop_alignment_def Let_def)
  then have "parse_metadata_loop (Suc n) c a kvs = Inr r \<longleftrightarrow>
      (\<exists>key t c2 c3. (\<exists>c1. cursor_string c = (Some key, c1) \<and> cursor_u32 c1 = (Some t, c2) \<and>
             skip_value c2 t 0 = (Some (), c3)) \<and> ?run key t c2 c3)"
    by (simp add: die_simps) blast
  also have "\<dots> \<longleftrightarrow> (\<exists>key v c2 c3. takes entry_bytes entry_ok c (key, v) c3 \<and>
        c2 = cursor_adv c (length (str_bytes key) + 4) \<and> ?run key (gv_type v) c2 c3)"
    unfolding entry_takes [OF c] by blast
  also have "\<dots> \<longleftrightarrow> ?R"
  proof -
    have eqv: "?run key (gv_type v) c2 c3 \<longleftrightarrow> parse_metadata_loop n c3 (entry_alignment (key, v) a)
          (kvs @ [\<lparr>gk_key = key, gk_type = gv_type v, gk_value_pos = entry_value_pos (cu_pos c) (key, v)\<rparr>]) = Inr r"
      if t: "takes entry_bytes entry_ok c (key, v) c3" and c2: "c2 = cursor_adv c (length (str_bytes key) + 4)"
      for key v c2 c3
    proof -
      from t obtain rest where l: "cursor_left c = str_bytes key @ le_put32 (gv_type v) @ gv_bytes v @ rest"
          "gv_ok 0 v" by (auto simp: takes_def entry_bytes_def entry_ok_def)
      then have "takes gv_bytes (gv_ok 0) c2 v (cursor_adv c2 (length (gv_bytes v)))" "cursor_ok c2"
        using c by (simp_all add: c2 takes_def)
      then have "loop_alignment key (gv_type v) c2 a = entry_alignment (key, v) a"
        by (intro loop_alignment_entry)
      then show ?thesis by (simp add: c2 entry_value_pos_def cursor_adv_def)
    qed
    then show ?thesis by (simp add: split_paired_Ex eqv [OF _ refl] cong: conj_cong)
  qed
  finally show ?thesis .
qed

text \<open>
  A loop that reads \<open>n\<close> items one after the other and updates a state with each, at the position where the
  item starts.
\<close>

fun run_items :: "('a \<Rightarrow> u8 list) \<Rightarrow> (u64 \<Rightarrow> 'a \<Rightarrow> 's \<Rightarrow> 's) \<Rightarrow> u64 \<Rightarrow> 'a list \<Rightarrow> 's \<Rightarrow> 's" where
  "run_items enc upd pos [] s = s"
| "run_items enc upd pos (x # xs) s = run_items enc upd (pos + of_nat (length (enc x))) xs (upd pos x s)"

lemma item_loop:
  assumes step: "\<And>n c s. cursor_ok c \<Longrightarrow> P (Suc n) c s \<longleftrightarrow>
      (\<exists>x c1. takes enc ok c x c1 \<and> P n c1 (upd (cu_pos c) x s))"
    and base: "\<And>c s. P 0 c s \<longleftrightarrow> Q c s"
    and c: "cursor_ok c"
  shows "P n c s \<longleftrightarrow> (\<exists>xs c'. length xs = n \<and> takes (enc_list enc) (list_all ok) c xs c' \<and>
     Q c' (run_items enc upd (cu_pos c) xs s))"
  using c
proof (induction n arbitrary: c s)
  case 0
  then show ?case by (simp add: base takes_Nil)
next
  case (Suc n)
  note c = Suc.prems
  have "P (Suc n) c s \<longleftrightarrow> (\<exists>x c1. takes enc ok c x c1 \<and> (\<exists>xs c'. length xs = n \<and>
      takes (enc_list enc) (list_all ok) c1 xs c' \<and> Q c' (run_items enc upd (cu_pos c1) xs (upd (cu_pos c) x s))))"
    unfolding step [OF c] using Suc.IH takes_ok [OF c, of enc ok] by metis
  also have "\<dots> \<longleftrightarrow> (\<exists>x xs c' c1. length xs = n \<and> takes enc ok c x c1 \<and>
      takes (enc_list enc) (list_all ok) c1 xs c' \<and> Q c' (run_items enc upd (cu_pos c) (x # xs) s))"
    by (auto simp: takes_def cursor_adv_def)
  also have "\<dots> \<longleftrightarrow> (\<exists>x xs c'. length xs = n \<and> takes (enc_list enc) (list_all ok) c (x # xs) c' \<and>
      Q c' (run_items enc upd (cu_pos c) (x # xs) s))"
    unfolding takes_Cons [OF c] by blast
  also have "\<dots> \<longleftrightarrow> (\<exists>xs c'. length xs = Suc n \<and> takes (enc_list enc) (list_all ok) c xs c' \<and>
      Q c' (run_items enc upd (cu_pos c) xs s))"
    by (metis length_Suc_conv)
  finally show ?case .
qed

definition entries_alignment :: "gguf_entry list \<Rightarrow> u64 \<Rightarrow> u64" where
  "entries_alignment es a = fold entry_alignment es a"

definition entry_upd :: "u64 \<Rightarrow> gguf_entry \<Rightarrow> ds4_kv list \<times> u64 \<Rightarrow> ds4_kv list \<times> u64" where
  "entry_upd pos e = (\<lambda>(kvs, a).
     (kvs @ [\<lparr>gk_key = fst e, gk_type = gv_type (snd e), gk_value_pos = entry_value_pos pos e\<rparr>],
      entry_alignment e a))"

lemma run_entries:
  "run_items entry_bytes entry_upd pos es (kvs, a) = (kvs @ kv_table pos es, entries_alignment es a)"
  by (induction es arbitrary: pos kvs a) (auto simp: entry_upd_def entries_alignment_def)

lemma parse_metadata_loop_iff:
  assumes c: "cursor_ok c"
  shows "parse_metadata_loop n c a kvs = Inr (kvs', a', c') \<longleftrightarrow>
     (\<exists>es. length es = n \<and> takes (enc_list entry_bytes) (list_all entry_ok) c es c' \<and>
        kvs' = kvs @ kv_table (cu_pos c) es \<and> a' = entries_alignment es a)"
proof -
  have "(\<lambda>n c s. parse_metadata_loop n c (snd s) (fst s) = Inr (kvs', a', c')) n c (kvs, a) \<longleftrightarrow>
      (\<exists>es c1. length es = n \<and> takes (enc_list entry_bytes) (list_all entry_ok) c es c1 \<and>
        (\<lambda>c s. s = (kvs', a') \<and> c = c') c1 (run_items entry_bytes entry_upd (cu_pos c) es (kvs, a)))"
    by (rule item_loop [OF _ _ c]) 
      (auto simp: entry_step entry_upd_def case_prod_unfold simp del: parse_metadata_loop.simps(2))
  then show ?thesis by (auto simp: run_entries)
qed

subsection \<open>The tensor directory\<close>

type_synonym gguf_tensor = "u8 list \<times> u64 list \<times> u32 \<times> u64"

fun dims_fit :: "u64 \<Rightarrow> u64 list \<Rightarrow> bool" where
  "dims_fit e [] = True"
| "dims_fit e (d # ds) = (unat e * unat d < 2 ^ 64 \<and> dims_fit (e * d) ds)"

definition dims_product :: "u64 \<Rightarrow> u64 list \<Rightarrow> u64" where
  "dims_product e ds = foldl (*) e ds"

lemma unat_dims_product: "dims_fit e ds \<Longrightarrow> unat (dims_product e ds) = unat e * prod_list (map unat ds)"
  by (induction e ds rule: dims_fit.induct) (auto simp: dims_product_def unat_nonwrap mult.assoc)

definition dims_takes :: "ds4_cursor \<Rightarrow> u64 list \<Rightarrow> ds4_cursor \<Rightarrow> bool" where
  "dims_takes c ds c' \<longleftrightarrow> takes (enc_list kv_le_put64) (list_all (\<lambda>_. True)) c ds c'"

lemma parse_dims_iff:
  "cursor_ok c \<Longrightarrow> parse_dims n c e acc = Inr (dims, e', c') \<longleftrightarrow>
     (\<exists>ds. length ds = n \<and> dims_takes c ds c' \<and> dims_fit e ds \<and> dims = acc @ ds \<and> e' = dims_product e ds)"
proof (induction n arbitrary: c e acc)
  case 0
  then show ?case by (auto simp: takes_Nil dims_takes_def dims_product_def)
next
  case (Suc n)
  have fit: "d \<noteq> 0 \<and> - 1 div d < e \<longleftrightarrow> \<not> unat e * unat d < 2 ^ 64" for d :: u64
    using mult_fits [of d e] by (cases "d = 0") auto
  have IH: "parse_dims n c1 e1 acc1 = Inr (dims, e', c') \<longleftrightarrow> (\<exists>ds. length ds = n \<and> dims_takes c1 ds c' \<and>
      dims_fit e1 ds \<and> dims = acc1 @ ds \<and> e' = dims_product e1 ds)"
    if "takes kv_le_put64 (\<lambda>_. True) c d c1" for d c1 e1 acc1
    by (rule Suc.IH) (rule takes_ok [OF Suc.prems that])
  have step: "parse_dims (Suc n) c e acc = Inr (dims, e', c') \<longleftrightarrow>
      (\<exists>d c1. takes kv_le_put64 (\<lambda>_. True) c d c1 \<and> unat e * unat d < 2 ^ 64 \<and>
        parse_dims n c1 (e * d) (acc @ [d]) = Inr (dims, e', c'))"
    by (auto simp: die_simps cursor_u64_takes [OF Suc.prems, symmetric] fit)
  also have "\<dots> \<longleftrightarrow> (\<exists>d c1 ds. takes kv_le_put64 (\<lambda>_. True) c d c1 \<and> length ds = n \<and> dims_takes c1 ds c' \<and>
      dims_fit e (d # ds) \<and> dims = acc @ (d # ds) \<and> e' = dims_product e (d # ds))"
    by (simp add: IH dims_product_def cong: conj_cong) blast
  also have "\<dots> \<longleftrightarrow> (\<exists>d ds. length ds = n \<and> dims_takes c (d # ds) c' \<and>
      dims_fit e (d # ds) \<and> dims = acc @ (d # ds) \<and> e' = dims_product e (d # ds))"
    unfolding dims_takes_def takes_Cons [OF Suc.prems] by blast
  also have "\<dots> \<longleftrightarrow> (\<exists>ds. length ds = Suc n \<and> dims_takes c ds c' \<and> dims_fit e ds \<and> dims = acc @ ds \<and>
      e' = dims_product e ds)"
    unfolding length_Suc_conv by blast
  finally show ?case .
qed

fun tensor_bytes :: "gguf_tensor \<Rightarrow> u8 list" where
  "tensor_bytes (name, ds, t, off) =
     str_bytes name @ le_put32 (of_nat (length ds)) @ enc_list kv_le_put64 ds @ le_put32 t @ kv_le_put64 off"

fun tensor_ok :: "gguf_tensor \<Rightarrow> bool" where
  "tensor_ok (name, ds, t, off) \<longleftrightarrow> str_ok name \<and> ds \<noteq> [] \<and> length ds \<le> DS4_MAX_DIMS \<and> dims_fit 1 ds"

fun tensor_of :: "gguf_tensor \<Rightarrow> ds4_tensor" where
  "tensor_of (name, ds, t, off) =
     \<lparr>te_name = name, te_ndim = of_nat (length ds), te_dim = ds, te_type = t, te_rel_offset = off,
      te_abs_offset = 0, te_elements = dims_product 1 ds,
      te_bytes = (case tensor_nbytes t (dims_product 1 ds) of Some b \<Rightarrow> b | None \<Rightarrow> 0)\<rparr>"

definition eats :: "ds4_cursor \<Rightarrow> u8 list \<Rightarrow> ds4_cursor \<Rightarrow> bool" where
  "eats c bs c' \<longleftrightarrow> cursor_ok c \<and> (\<exists>rest. cursor_left c = bs @ rest) \<and> c' = cursor_adv c (length bs)"

lemma eats_append: "eats c (as @ bs) c' \<longleftrightarrow> (\<exists>c1. eats c as c1 \<and> eats c1 bs c')"
  by (auto simp: eats_def)

lemma takes_eats: "cursor_ok c \<Longrightarrow> takes enc ok c x c' \<longleftrightarrow> ok x \<and> eats c (enc x) c'"
  by (simp add: takes_def eats_def)

lemma eats_ok: "eats c bs c' \<Longrightarrow> cursor_ok c \<and> cursor_ok c'"
  by (auto simp: eats_def)

text \<open>The steps of \<open>parse_tensors\<close> for one tensor.\<close>

definition tensor_steps ::
  "ds4_cursor \<Rightarrow> u8 list \<Rightarrow> u32 \<Rightarrow> u64 list \<Rightarrow> u64 \<Rightarrow> u32 \<Rightarrow> u64 \<Rightarrow> ds4_cursor \<Rightarrow> bool" where
  "tensor_steps c name ndim ds e t off c' \<longleftrightarrow>
     (\<exists>c1 c2 c3 c4. cursor_string c = (Some name, c1) \<and> cursor_u32 c1 = (Some ndim, c2) \<and>
        ndim \<noteq> 0 \<and> unat ndim \<le> DS4_MAX_DIMS \<and> parse_dims (unat ndim) c2 1 [] = Inr (ds, e, c3) \<and>
        cursor_u32 c3 = (Some t, c4) \<and> cursor_u64 c4 = (Some off, c'))"

lemma parse_dims_eats:
  "cursor_ok c \<Longrightarrow> parse_dims n c 1 [] = Inr (ds, e, c') \<longleftrightarrow>
     length ds = n \<and> eats c (enc_list kv_le_put64 ds) c' \<and> dims_fit 1 ds \<and> e = dims_product 1 ds"
  by (auto simp: parse_dims_iff dims_takes_def takes_eats list_all_iff)

lemma ndim_iff:
  fixes ndim :: u32
  shows "ndim \<noteq> 0 \<and> unat ndim \<le> DS4_MAX_DIMS \<and> length ds = unat ndim \<longleftrightarrow>
     ndim = of_nat (length ds) \<and> ds \<noteq> [] \<and> length ds \<le> DS4_MAX_DIMS" (is "?L \<longleftrightarrow> ?R")
proof
  assume ?L
  then show ?R by (auto simp: unat_eq_zero)
next
  assume r: ?R
  then have "unat ndim = length ds"
    by (simp add: DS4_MAX_DIMS_def unsigned_of_nat take_bit_nat_eq_self)
  then show ?L using r by auto
qed

lemma tensor_takes:
  assumes c: "cursor_ok c"
  shows "tensor_steps c name ndim ds e t off c' \<longleftrightarrow>
     takes tensor_bytes tensor_ok c (name, ds, t, off) c' \<and> ndim = of_nat (length ds) \<and> e = dims_product 1 ds"
proof -
  have "tensor_steps c name ndim ds e t off c' \<longleftrightarrow>
     (\<exists>c1 c2 c3 c4. (str_ok name \<and> eats c (str_bytes name) c1) \<and> eats c1 (le_put32 ndim) c2 \<and>
        ndim \<noteq> 0 \<and> unat ndim \<le> DS4_MAX_DIMS \<and>
        (length ds = unat ndim \<and> eats c2 (enc_list kv_le_put64 ds) c3 \<and> dims_fit 1 ds \<and> e = dims_product 1 ds) \<and>
        eats c3 (le_put32 t) c4 \<and> eats c4 (kv_le_put64 off) c')" (is "_ \<longleftrightarrow> ?E")
    unfolding tensor_steps_def
    by (intro ex_cong1 conj_cong refl)
      (auto simp: c cursor_string_takes cursor_u32_takes cursor_u64_takes takes_eats parse_dims_eats dest: eats_ok)
  also have "?E \<longleftrightarrow> (ndim \<noteq> 0 \<and> unat ndim \<le> DS4_MAX_DIMS \<and> length ds = unat ndim) \<and>
      str_ok name \<and> dims_fit 1 ds \<and> e = dims_product 1 ds \<and>
      eats c (str_bytes name @ le_put32 ndim @ enc_list kv_le_put64 ds @ le_put32 t @ kv_le_put64 off) c'"
    unfolding eats_append by blast
  also have "\<dots> \<longleftrightarrow> takes tensor_bytes tensor_ok c (name, ds, t, off) c' \<and> ndim = of_nat (length ds) \<and>
      e = dims_product 1 ds"
    unfolding ndim_iff takes_eats [OF c] by auto
  finally show ?thesis .
qed

lemma tensor_step:
  assumes c: "cursor_ok c"
  shows "parse_tensors_loop (Suc n) c ts = Inr r \<longleftrightarrow>
     (\<exists>x c1. takes tensor_bytes tensor_ok c x c1 \<and> parse_tensors_loop n c1 (ts @ [tensor_of x]) = Inr r)"
proof -
  let ?run = "\<lambda>name ndim ds e t off c'. parse_tensors_loop n c' (ts @ [\<lparr>te_name = name, te_ndim = ndim,
      te_dim = ds, te_type = t, te_rel_offset = off, te_abs_offset = 0, te_elements = e,
      te_bytes = (case tensor_nbytes t e of Some b \<Rightarrow> b | None \<Rightarrow> 0)\<rparr>]) = Inr r"
  have "parse_tensors_loop (Suc n) c ts = Inr r \<longleftrightarrow>
      (\<exists>name ndim ds e t off c'. tensor_steps c name ndim ds e t off c' \<and> ?run name ndim ds e t off c')"
    by (simp add: die_simps tensor_steps_def Let_def not_less) blast
  also have "\<dots> \<longleftrightarrow> (\<exists>name ds t off c'. takes tensor_bytes tensor_ok c (name, ds, t, off) c' \<and>
      ?run name (of_nat (length ds)) ds (dims_product 1 ds) t off c')"
    unfolding tensor_takes [OF c] by blast
  finally show ?thesis by (simp add: split_paired_Ex)
qed

lemma run_tensors:
  "run_items tensor_bytes (\<lambda>_ x ts. ts @ [tensor_of x]) pos xs ts = ts @ map tensor_of xs"
  by (induction xs arbitrary: pos ts) auto

lemma parse_tensors_loop_iff:
  assumes c: "cursor_ok c"
  shows "parse_tensors_loop n c ts = Inr (ts', c') \<longleftrightarrow>
     (\<exists>xs. length xs = n \<and> takes (enc_list tensor_bytes) (list_all tensor_ok) c xs c' \<and>
        ts' = ts @ map tensor_of xs)"
proof -
  have "(\<lambda>n c s. parse_tensors_loop n c s = Inr (ts', c')) n c ts \<longleftrightarrow>
      (\<exists>xs c1. length xs = n \<and> takes (enc_list tensor_bytes) (list_all tensor_ok) c xs c1 \<and>
        (\<lambda>c s. s = ts' \<and> c = c') c1 (run_items tensor_bytes (\<lambda>_ x ts. ts @ [tensor_of x]) (cu_pos c) xs ts))"
    by (rule item_loop [OF _ _ c]) (auto simp: tensor_step simp del: parse_tensors_loop.simps(2))
  then show ?thesis by (auto simp: run_tensors)
qed

definition tensor_inside :: "u64 \<Rightarrow> u64 \<Rightarrow> ds4_tensor \<Rightarrow> bool" where
  "tensor_inside data_pos sz t \<longleftrightarrow>
     unat data_pos + unat (te_rel_offset t) < 2 ^ 64 \<and>
     (te_bytes t \<noteq> 0 \<longrightarrow> unat data_pos + unat (te_rel_offset t) + unat (te_bytes t) \<le> unat sz)"

definition place :: "u64 \<Rightarrow> ds4_tensor \<Rightarrow> ds4_tensor" where
  "place data_pos t = t\<lparr>te_abs_offset := data_pos + te_rel_offset t\<rparr>"

definition largest_tensor :: "ds4_tensor list \<Rightarrow> u64 \<Rightarrow> u64" where
  "largest_tensor ts mx = fold (\<lambda>t mx. max mx (te_bytes t)) ts mx"

lemma offset_fits: "\<not> - 1 - a < b \<longleftrightarrow> unat a + unat b < 2 ^ 64" for a b :: u64
proof -
  have "unat (- 1 - a) = 2 ^ 64 - 1 - unat a"
    by (simp add: unat_sub unsigned_minus_1_eq_mask mask_eq_exp_minus_1)
  then have "\<not> - 1 - a < b \<longleftrightarrow> unat b \<le> 2 ^ 64 - 1 - unat a" by (simp add: word_less_nat_alt not_less)
  also have "\<dots> \<longleftrightarrow> unat a + unat b < 2 ^ 64" using unat_u64 [of a] by arith
  finally show ?thesis .
qed

lemma inside_iff: "\<not> (sz < a \<or> sz - a < b) \<longleftrightarrow> unat a + unat b \<le> unat sz" for a b sz :: u64
proof (cases "a \<le> sz")
  case True
  then show ?thesis by (auto simp: word_less_nat_alt word_le_nat_alt unat_sub)
next
  case False
  then show ?thesis by (auto simp: word_less_nat_alt word_le_nat_alt)
qed

lemma place_tensors_iff:
  "place_tensors data_pos sz ts mx = Inr (ts', mx') \<longleftrightarrow>
     list_all (tensor_inside data_pos sz) ts \<and> ts' = map (place data_pos) ts \<and> mx' = largest_tensor ts mx"
proof (induction ts arbitrary: mx ts' mx')
  case Nil
  then show ?case by (auto simp: largest_tensor_def)
next
  case (Cons t ts)
  have "te_bytes t \<noteq> 0 \<and> (sz < data_pos + te_rel_offset t \<or> sz - (data_pos + te_rel_offset t) < te_bytes t) \<longleftrightarrow>
      \<not> tensor_inside data_pos sz t" if "unat data_pos + unat (te_rel_offset t) < 2 ^ 64"
    using inside_iff [of sz "data_pos + te_rel_offset t" "te_bytes t"] that
    by (auto simp: tensor_inside_def unat_word_ariths)
  then have "\<not> - 1 - data_pos < te_rel_offset t \<and> \<not> (te_bytes t \<noteq> 0 \<and> (sz < data_pos + te_rel_offset t \<or>
      sz - (data_pos + te_rel_offset t) < te_bytes t)) \<longleftrightarrow> tensor_inside data_pos sz t"
    using offset_fits [of data_pos "te_rel_offset t"] by (auto simp: tensor_inside_def)
  moreover have "(if mx < te_bytes t then te_bytes t else mx) = max mx (te_bytes t)"
    by (auto simp: max_def)
  ultimately show ?case
    using Cons.IH by (auto simp: die_simps Let_def place_def largest_tensor_def)
qed

subsection \<open>The whole file\<close>

definition gguf_head :: "u64 \<Rightarrow> u64 \<Rightarrow> u8 list" where
  "gguf_head n_tensors n_kv =
     le_put32 DS4_GGUF_MAGIC @ le_put32 3 @ kv_le_put64 n_tensors @ kv_le_put64 n_kv"

definition gguf_bytes :: "gguf_entry list \<Rightarrow> gguf_tensor list \<Rightarrow> u8 list" where
  "gguf_bytes es ts =
     gguf_head (of_nat (length ts)) (of_nat (length es)) @ enc_list entry_bytes es @ enc_list tensor_bytes ts"

definition gguf_data_pos :: "gguf_entry list \<Rightarrow> gguf_tensor list \<Rightarrow> u64" where
  "gguf_data_pos es ts = align_up (of_nat (length (gguf_bytes es ts))) (entries_alignment es 32)"

definition gguf_model :: "u8 list \<Rightarrow> gguf_entry list \<Rightarrow> gguf_tensor list \<Rightarrow> ds4_model" where
  "gguf_model bytes es ts =
     \<lparr>mo_map = bytes, mo_size = of_nat (length bytes), mo_file_size = of_nat (length bytes), mo_version = 3,
      mo_alignment = entries_alignment es 32, mo_tensor_data_pos = gguf_data_pos es ts,
      mo_max_tensor_bytes = largest_tensor (map tensor_of ts) 0, mo_kv = kv_table 24 es,
      mo_tensors = map (\<lambda>t. place (gguf_data_pos es ts) (tensor_of t)) ts, mo_ngram_tensor = None\<rparr>"

definition gguf_ok :: "u8 list \<Rightarrow> gguf_entry list \<Rightarrow> gguf_tensor list \<Rightarrow> bool" where
  "gguf_ok bytes es ts \<longleftrightarrow>
     list_all entry_ok es \<and> list_all tensor_ok ts \<and> (\<exists>rest. bytes = gguf_bytes es ts @ rest) \<and>
     list_all (\<lambda>t. tensor_inside (gguf_data_pos es ts) (of_nat (length bytes)) (tensor_of t)) ts"

lemma enc_list_length: "(\<And>x. enc x \<noteq> []) \<Longrightarrow> length xs \<le> length (enc_list enc xs)"
proof (induction xs)
  case (Cons x xs)
  then have "0 < length (enc x)" by simp
  with Cons show ?case by (simp add: Suc_le_eq add_strict_increasing)
qed simp

lemma item_bytes_nonempty: "entry_bytes e \<noteq> []" "tensor_bytes t \<noteq> []"
  by (auto simp: entry_bytes_def le_put32_def) (cases t; simp add: le_put32_def)

lemma cursor_room: "cursor_ok c \<Longrightarrow> unat (cu_size c - cu_pos c) = length (cursor_left c)"
  using length_cursor_left [of c] by (auto simp: cursor_ok_def unat_sub)

lemma takes_count:
  assumes c: "cursor_ok c" and t: "takes (enc_list enc) ok c xs c'" and ne: "\<And>x. enc x \<noteq> []"
  shows "length xs \<le> length (cursor_left c)"
  using enc_list_length [of enc xs] ne t by (auto simp: takes_def)

lemma count_iff:
  assumes c: "cursor_ok c" and t: "takes (enc_list enc) ok c xs c'" and ne: "\<And>x. enc x \<noteq> []"
  shows "length xs = unat n \<longleftrightarrow> n = of_nat (length xs)"
    and "length xs = unat n \<or> n = of_nat (length xs) \<Longrightarrow> \<not> cu_size c - cu_pos c < n"
proof -
  have le: "length xs \<le> length (cursor_left c)" by (rule takes_count [OF c t ne])
  then have u: "unat (of_nat (length xs) :: u64) = length xs"
    using cursor_left_limit [OF c] by (simp add: unsigned_of_nat take_bit_nat_eq_self)
  have "of_nat (unat n) = n" by simp
  with u show "length xs = unat n \<longleftrightarrow> n = of_nat (length xs)" by metis
  with u le show "\<not> cu_size c - cu_pos c < n" if "length xs = unat n \<or> n = of_nat (length xs)"
    using that by (auto simp: word_less_nat_alt cursor_room [OF c])
qed

lemma counted_items:
  assumes c: "cursor_ok c" and ne: "\<And>x. enc x \<noteq> []"
  shows "\<not> cu_size c - cu_pos c < n \<and>
       (\<exists>xs c'. length xs = unat n \<and> takes (enc_list enc) ok c xs c' \<and> Q xs c') \<longleftrightarrow>
     (\<exists>xs c'. n = of_nat (length xs) \<and> takes (enc_list enc) ok c xs c' \<and> Q xs c')"
proof -
  have "length xs = unat n \<longleftrightarrow> n = of_nat (length xs)" and "length xs = unat n \<Longrightarrow> \<not> cu_size c - cu_pos c < n"
    if "takes (enc_list enc) ok c xs c'" for xs c'
    using count_iff [OF c that ne] by blast+
  then show ?thesis by blast
qed

lemma parse_metadata_iff:
  assumes c: "cursor_ok c"
  shows "parse_metadata env n c = Inr (kvs, a, c') \<longleftrightarrow> ge_kv_alloc env \<and>
     (\<exists>es. n = of_nat (length es) \<and> takes (enc_list entry_bytes) (list_all entry_ok) c es c' \<and>
        kvs = kv_table (cu_pos c) es \<and> a = entries_alignment es 32)"
proof -
  have "parse_metadata env n c = Inr (kvs, a, c') \<longleftrightarrow> ge_kv_alloc env \<and> (\<not> cu_size c - cu_pos c < n \<and>
      (\<exists>es c1. length es = unat n \<and> takes (enc_list entry_bytes) (list_all entry_ok) c es c1 \<and>
        (c1 = c' \<and> kvs = kv_table (cu_pos c) es \<and> a = entries_alignment es 32)))"
    by (auto simp: parse_metadata_def die_simps parse_metadata_loop_iff [OF c])
  then show ?thesis unfolding counted_items [OF c item_bytes_nonempty(1)] by blast
qed

lemma parse_tensors_iff:
  assumes c: "cursor_ok c"
  shows "parse_tensors env n a c = Inr (ts, dp, mx) \<longleftrightarrow> ge_tensor_alloc env \<and>
     (\<exists>xs c'. n = of_nat (length xs) \<and> takes (enc_list tensor_bytes) (list_all tensor_ok) c xs c' \<and>
        dp = align_up (cu_pos c') a \<and> list_all (\<lambda>x. tensor_inside dp (cu_size c) (tensor_of x)) xs \<and>
        ts = map (\<lambda>x. place dp (tensor_of x)) xs \<and> mx = largest_tensor (map tensor_of xs) 0)"
proof -
  let ?Q = "\<lambda>xs c'. dp = align_up (cu_pos c') a \<and> list_all (\<lambda>x. tensor_inside dp (cu_size c) (tensor_of x)) xs \<and>
        ts = map (\<lambda>x. place dp (tensor_of x)) xs \<and> mx = largest_tensor (map tensor_of xs) 0"
  have loop: "parse_tensors_loop k c [] = Inr (ts', c') \<and> place_tensors dp' (cu_size c') ts' 0 = y \<and> Z \<longleftrightarrow>
      (\<exists>xs. length xs = k \<and> takes (enc_list tensor_bytes) (list_all tensor_ok) c xs c' \<and> ts' = map tensor_of xs) \<and>
       place_tensors dp' (cu_size c) ts' 0 = y \<and> Z" for k ts' c' dp' y Z
    by (auto simp: parse_tensors_loop_iff [OF c] takes_def)
  have "parse_tensors env n a c = Inr (ts, dp, mx) \<longleftrightarrow>
      \<not> cu_size c - cu_pos c < n \<and> ge_tensor_alloc env \<and>
      (\<exists>xs c1. (length xs = unat n \<and> takes (enc_list tensor_bytes) (list_all tensor_ok) c xs c1) \<and>
        (place_tensors (align_up (cu_pos c1) a) (cu_size c) (map tensor_of xs) 0 = Inr (ts, mx) \<and>
         dp = align_up (cu_pos c1) a))"
    by (simp add: parse_tensors_def die_simps Let_def loop) blast
  also have "\<dots> \<longleftrightarrow> ge_tensor_alloc env \<and> (\<not> cu_size c - cu_pos c < n \<and>
      (\<exists>xs c1. length xs = unat n \<and> takes (enc_list tensor_bytes) (list_all tensor_ok) c xs c1 \<and> ?Q xs c1))"
    by (auto simp: place_tensors_iff takes_def list.pred_map comp_def)
  finally show ?thesis unfolding counted_items [OF c item_bytes_nonempty(2)] .
qed

definition start_cursor :: "u8 list \<Rightarrow> ds4_cursor" where
  "start_cursor bytes = \<lparr>cu_base = bytes, cu_size = of_nat (length bytes), cu_pos = 0, cu_error = None\<rparr>"

lemma start_cursor:
  assumes "length bytes < 2 ^ 64"
  shows "cursor_ok (start_cursor bytes)" "cursor_left (start_cursor bytes) = bytes"
  using assms by (simp_all add: start_cursor_def cursor_ok_def cursor_left_def mslice_def unsigned_of_nat
      take_bit_nat_eq_self)

lemma head_steps:
  assumes c: "cursor_ok c"
  shows "(\<exists>c1 c2 c3. cursor_u32 c = (Some magic, c1) \<and> cursor_u32 c1 = (Some version, c2) \<and>
           cursor_u64 c2 = (Some nt, c3) \<and> cursor_u64 c3 = (Some nk, c4)) \<longleftrightarrow>
     eats c (le_put32 magic @ le_put32 version @ kv_le_put64 nt @ kv_le_put64 nk) c4"
proof -
  have "(\<exists>c1 c2 c3. cursor_u32 c = (Some magic, c1) \<and> cursor_u32 c1 = (Some version, c2) \<and>
           cursor_u64 c2 = (Some nt, c3) \<and> cursor_u64 c3 = (Some nk, c4)) \<longleftrightarrow>
     (\<exists>c1 c2 c3. eats c (le_put32 magic) c1 \<and> eats c1 (le_put32 version) c2 \<and>
           eats c2 (kv_le_put64 nt) c3 \<and> eats c3 (kv_le_put64 nk) c4)"
    by (intro ex_cong1 conj_cong refl) (auto simp: c cursor_u32_takes cursor_u64_takes takes_eats dest: eats_ok)
  then show ?thesis unfolding eats_append by blast
qed

definition parsed_model ::
  "u8 list \<Rightarrow> ds4_kv list \<Rightarrow> u64 \<Rightarrow> ds4_tensor list \<Rightarrow> u64 \<Rightarrow> u64 \<Rightarrow> ds4_model" where
  "parsed_model bytes kvs a ts dp mx =
     \<lparr>mo_map = bytes, mo_size = of_nat (length bytes), mo_file_size = of_nat (length bytes), mo_version = 3,
      mo_alignment = a, mo_tensor_data_pos = dp, mo_max_tensor_bytes = mx,
      mo_kv = kvs, mo_tensors = ts, mo_ngram_tensor = None\<rparr>"

lemma model_parse_steps:
  assumes len: "length bytes < 2 ^ 64"
  shows "model_parse env bytes = Inr m \<longleftrightarrow>
     (\<exists>nt nk c4 kvs a c5 ts dp mx. eats (start_cursor bytes) (gguf_head nt nk) c4 \<and>
        parse_metadata env nk c4 = Inr (kvs, a, c5) \<and> parse_tensors env nt a c5 = Inr (ts, dp, mx) \<and>
        m = parsed_model bytes kvs a ts dp mx)" (is "?L \<longleftrightarrow> ?R")
proof
  assume ?L
  then obtain c1 c2 c3 nt nk c4 kvs a c5 ts dp mx where
    h: "cursor_u32 (start_cursor bytes) = (Some DS4_GGUF_MAGIC, c1)" "cursor_u32 c1 = (Some 3, c2)"
       "cursor_u64 c2 = (Some nt, c3)" "cursor_u64 c3 = (Some nk, c4)" and
    b: "parse_metadata env nk c4 = Inr (kvs, a, c5)" "parse_tensors env nt a c5 = Inr (ts, dp, mx)"
       "m = parsed_model bytes kvs a ts dp mx"
    by (auto simp: model_parse_def die_simps Let_def start_cursor_def parsed_model_def)
  from h have "eats (start_cursor bytes) (gguf_head nt nk) c4"
    unfolding gguf_head_def head_steps [OF start_cursor(1) [OF len], symmetric] by blast
  with b show ?R by blast
next
  assume ?R
  then obtain nt nk c4 kvs a c5 ts dp mx where e: "eats (start_cursor bytes) (gguf_head nt nk) c4"
    and b: "parse_metadata env nk c4 = Inr (kvs, a, c5)" "parse_tensors env nt a c5 = Inr (ts, dp, mx)"
       "m = parsed_model bytes kvs a ts dp mx"
    by blast
  from e obtain c1 c2 c3 where
    h: "cursor_u32 (start_cursor bytes) = (Some DS4_GGUF_MAGIC, c1)" "cursor_u32 c1 = (Some 3, c2)"
       "cursor_u64 c2 = (Some nt, c3)" "cursor_u64 c3 = (Some nk, c4)"
    unfolding gguf_head_def head_steps [OF start_cursor(1) [OF len], symmetric] by blast
  from h b show ?L
    by (simp add: model_parse_def start_cursor_def [symmetric] die_then_def or_die_def die_if_def Let_def
        parsed_model_def)
qed

lemma length_gguf_head [simp]: "length (gguf_head nt nk) = 24"
  by (simp add: gguf_head_def)

text \<open>The directory as three runs of bytes, and what the two parsers make of the last two.\<close>

lemma gguf_eats:
  assumes len: "length bytes < 2 ^ 64"
  shows "(\<exists>c6. eats (start_cursor bytes) (gguf_bytes es ts) c6) \<longleftrightarrow> (\<exists>rest. bytes = gguf_bytes es ts @ rest)"
    and "eats (start_cursor bytes) (gguf_bytes es ts) c6 \<Longrightarrow> cu_pos c6 = of_nat (length (gguf_bytes es ts))"
  using start_cursor [OF len] by (auto simp: eats_def cursor_adv_def start_cursor_def)

lemma gguf_eats_parts:
  assumes "eats (start_cursor bytes) (gguf_head nt nk) c4" and "eats c4 (enc_list entry_bytes es) c5"
  shows "cu_pos c4 = 24" "cu_size c5 = of_nat (length bytes)" "cursor_ok c4" "cursor_ok c5"
  using assms eats_ok [OF assms(1)] eats_ok [OF assms(2)] by (auto simp: eats_def cursor_adv_def start_cursor_def)

lemma gguf_tail_parse:
  assumes e: "eats (start_cursor bytes) (gguf_head nt nk) c4"
  shows "(\<exists>kvs a c5 ts dp mx. parse_metadata env nk c4 = Inr (kvs, a, c5) \<and>
           parse_tensors env nt a c5 = Inr (ts, dp, mx) \<and> m = parsed_model bytes kvs a ts dp mx) \<longleftrightarrow>
     ge_kv_alloc env \<and> ge_tensor_alloc env \<and>
     (\<exists>es xs c5 c6. nk = of_nat (length es) \<and> nt = of_nat (length xs) \<and>
        list_all entry_ok es \<and> list_all tensor_ok xs \<and>
        eats c4 (enc_list entry_bytes es) c5 \<and> eats c5 (enc_list tensor_bytes xs) c6 \<and>
        (let a = entries_alignment es 32; dp = align_up (cu_pos c6) a
         in list_all (\<lambda>x. tensor_inside dp (of_nat (length bytes)) (tensor_of x)) xs \<and>
            m = parsed_model bytes (kv_table 24 es) a (map (\<lambda>x. place dp (tensor_of x)) xs) dp
                  (largest_tensor (map tensor_of xs) 0)))" (is "?L \<longleftrightarrow> ?R")
proof -
  have c4: "cursor_ok c4" "cu_pos c4 = 24" using eats_ok [OF e] e
    by (auto simp: eats_def cursor_adv_def start_cursor_def)
  show ?thesis
  proof
    assume ?L
    then obtain kvs a c5 ts dp mx where p: "parse_metadata env nk c4 = Inr (kvs, a, c5)"
        "parse_tensors env nt a c5 = Inr (ts, dp, mx)" "m = parsed_model bytes kvs a ts dp mx" by blast
    from p(1) obtain es where es: "ge_kv_alloc env" "nk = of_nat (length es)" "list_all entry_ok es"
        "eats c4 (enc_list entry_bytes es) c5" "kvs = kv_table 24 es" "a = entries_alignment es 32"
      unfolding parse_metadata_iff [OF c4(1)] takes_eats [OF c4(1)] c4(2) by blast
    note c5 = gguf_eats_parts [OF e es(4)]
    from p(2) obtain xs c6 where xs: "ge_tensor_alloc env" "nt = of_nat (length xs)" "list_all tensor_ok xs"
        "eats c5 (enc_list tensor_bytes xs) c6" "dp = align_up (cu_pos c6) a"
        "list_all (\<lambda>x. tensor_inside dp (of_nat (length bytes)) (tensor_of x)) xs"
        "ts = map (\<lambda>x. place dp (tensor_of x)) xs" "mx = largest_tensor (map tensor_of xs) 0"
      unfolding parse_tensors_iff [OF c5(4)] takes_eats [OF c5(4)] c5(2) by blast
    show ?R unfolding Let_def using es xs p(3) by blast
  next
    assume ?R
    then obtain es xs c5 c6 where r: "ge_kv_alloc env" "ge_tensor_alloc env" "nk = of_nat (length es)"
        "nt = of_nat (length xs)" "list_all entry_ok es" "list_all tensor_ok xs"
        "eats c4 (enc_list entry_bytes es) c5" "eats c5 (enc_list tensor_bytes xs) c6" and
      m: "list_all (\<lambda>x. tensor_inside (align_up (cu_pos c6) (entries_alignment es 32)) (of_nat (length bytes))
            (tensor_of x)) xs"
        "m = parsed_model bytes (kv_table 24 es) (entries_alignment es 32)
            (map (\<lambda>x. place (align_up (cu_pos c6) (entries_alignment es 32)) (tensor_of x)) xs)
            (align_up (cu_pos c6) (entries_alignment es 32)) (largest_tensor (map tensor_of xs) 0)"
      unfolding Let_def by blast
    note c5 = gguf_eats_parts [OF e r(7)]
    have "parse_metadata env nk c4 = Inr (kv_table 24 es, entries_alignment es 32, c5)"
      unfolding parse_metadata_iff [OF c4(1)] takes_eats [OF c4(1)] c4(2) using r by blast
    moreover have "parse_tensors env nt (entries_alignment es 32) c5 =
        Inr (map (\<lambda>x. place (align_up (cu_pos c6) (entries_alignment es 32)) (tensor_of x)) xs,
          align_up (cu_pos c6) (entries_alignment es 32), largest_tensor (map tensor_of xs) 0)"
      unfolding parse_tensors_iff [OF c5(4)] takes_eats [OF c5(4)] c5(2) using r m(1) by blast
    ultimately show ?L using m(2) by blast
  qed
qed

lemma model_parse_exact:
  assumes len: "length bytes < 2 ^ 64"
  shows "model_parse env bytes = Inr m \<longleftrightarrow> ge_kv_alloc env \<and> ge_tensor_alloc env \<and>
     (\<exists>es ts. gguf_ok bytes es ts \<and> m = gguf_model bytes es ts)" (is "_ \<longleftrightarrow> ?R")
proof
  assume "model_parse env bytes = Inr m"
  then obtain nt nk c4 where e: "eats (start_cursor bytes) (gguf_head nt nk) c4" and
    t: "\<exists>kvs a c5 ts dp mx. parse_metadata env nk c4 = Inr (kvs, a, c5) \<and>
           parse_tensors env nt a c5 = Inr (ts, dp, mx) \<and> m = parsed_model bytes kvs a ts dp mx"
    unfolding model_parse_steps [OF len] by blast
  from t obtain es xs c5 c6 where al: "ge_kv_alloc env" "ge_tensor_alloc env" and n: "nk = of_nat (length es)" "nt = of_nat (length xs)"
    and ok: "list_all entry_ok es" "list_all tensor_ok xs"
    and s: "eats c4 (enc_list entry_bytes es) c5" "eats c5 (enc_list tensor_bytes xs) c6"
    and r: "list_all (\<lambda>x. tensor_inside (align_up (cu_pos c6) (entries_alignment es 32)) (of_nat (length bytes))
            (tensor_of x)) xs"
      "m = parsed_model bytes (kv_table 24 es) (entries_alignment es 32)
            (map (\<lambda>x. place (align_up (cu_pos c6) (entries_alignment es 32)) (tensor_of x)) xs)
            (align_up (cu_pos c6) (entries_alignment es 32)) (largest_tensor (map tensor_of xs) 0)"
    unfolding gguf_tail_parse [OF e] Let_def by blast
  have "eats (start_cursor bytes) (gguf_bytes es xs) c6"
    unfolding gguf_bytes_def eats_append using e s n by blast
  with gguf_eats [OF len] have "\<exists>rest. bytes = gguf_bytes es xs @ rest"
      "cu_pos c6 = of_nat (length (gguf_bytes es xs))" by blast+
  with ok r have "gguf_ok bytes es xs \<and> m = gguf_model bytes es xs"
    by (simp add: gguf_ok_def gguf_model_def gguf_data_pos_def parsed_model_def)
  with al show ?R by blast
next
  assume ?R
  then obtain es ts where al: "ge_kv_alloc env" "ge_tensor_alloc env" and ok: "gguf_ok bytes es ts"
    and m: "m = gguf_model bytes es ts" by blast
  from ok have "\<exists>rest. bytes = gguf_bytes es ts @ rest" by (simp add: gguf_ok_def)
  with gguf_eats(1) [OF len] obtain c6 where e6: "eats (start_cursor bytes) (gguf_bytes es ts) c6" by blast
  note pos = gguf_eats(2) [OF len e6]
  from e6 obtain c4 c5 where e: "eats (start_cursor bytes) (gguf_head (of_nat (length ts)) (of_nat (length es))) c4"
      "eats c4 (enc_list entry_bytes es) c5" "eats c5 (enc_list tensor_bytes ts) c6"
    unfolding gguf_bytes_def eats_append by blast
  have "\<exists>kvs a c5 ts' dp mx. parse_metadata env (of_nat (length es)) c4 = Inr (kvs, a, c5) \<and>
      parse_tensors env (of_nat (length ts)) a c5 = Inr (ts', dp, mx) \<and> m = parsed_model bytes kvs a ts' dp mx"
    unfolding gguf_tail_parse [OF e(1)] Let_def
    by (intro conjI al exI [of _ es] exI [of _ ts] exI [of _ c5] exI [of _ c6] refl)
      (use ok m pos e in \<open>simp_all add: gguf_ok_def gguf_model_def gguf_data_pos_def parsed_model_def\<close>)
  with e(1) show "model_parse env bytes = Inr m" unfolding model_parse_steps [OF len] by blast
qed

section \<open>Values are where the table says\<close>

text \<open>
  What a reader needs of a model, also after the mapping was cut: the directory is still mapped.
\<close>

definition directory_mapped :: "ds4_model \<Rightarrow> gguf_entry list \<Rightarrow> gguf_tensor list \<Rightarrow> bool" where
  "directory_mapped m es ts \<longleftrightarrow>
     list_all entry_ok es \<and> mo_kv m = kv_table 24 es \<and>
     (\<exists>rest. mo_map m = gguf_bytes es ts @ rest) \<and>
     length (gguf_bytes es ts) \<le> unat (mo_size m) \<and> unat (mo_size m) \<le> length (mo_map m)"

definition gguf_lookup :: "gguf_entry list \<Rightarrow> string \<Rightarrow> gguf_value option" where
  "gguf_lookup es key = map_option snd (List.find (\<lambda>e. ds4_streq (fst e) key) es)"

lemma kv_table_nth:
  "i < length es \<Longrightarrow> kv_table pos es ! i =
     \<lparr>gk_key = fst (es ! i), gk_type = gv_type (snd (es ! i)),
      gk_value_pos = entry_value_pos (pos + of_nat (length (enc_list entry_bytes (take i es)))) (es ! i)\<rparr>"
  by (induction es arbitrary: pos i) (auto simp: nth_Cons' take_Cons' algebra_simps)

lemma length_kv_table [simp]: "length (kv_table pos es) = length es"
  by (induction es arbitrary: pos) auto

lemma enc_list_append: "enc_list enc (xs @ ys) = enc_list enc xs @ enc_list enc ys"
  by (simp add: enc_list_def)

lemma find_index:
  "List.find P xs = Some x \<longleftrightarrow> (\<exists>i < length xs. x = xs ! i \<and> P x \<and> (\<forall>j < i. \<not> P (xs ! j)))"
  by (auto simp: find_Some_iff)

lemma find_map_index:
  assumes "length xs = length ys" and "\<And>i. i < length xs \<Longrightarrow> P (xs ! i) \<longleftrightarrow> Q (ys ! i)"
  shows "List.find P xs = Some x \<Longrightarrow> \<exists>i < length xs. x = xs ! i \<and> List.find Q ys = Some (ys ! i)"
    and "List.find P xs = None \<longleftrightarrow> List.find Q ys = None"
proof -
  assume "List.find P xs = Some x"
  then obtain i where i: "i < length xs" "x = xs ! i" "P x" "\<forall>j < i. \<not> P (xs ! j)" by (auto simp: find_Some_iff)
  have "List.find Q ys = Some (ys ! i)"
    unfolding find_Some_iff by (rule exI [of _ i]) (use assms i in auto)
  with i show "\<exists>i < length xs. x = xs ! i \<and> List.find Q ys = Some (ys ! i)" by blast
next
  show "List.find P xs = None \<longleftrightarrow> List.find Q ys = None"
    using assms by (auto simp: find_None_iff in_set_conv_nth)
qed

lemma gguf_split:
  assumes "i < length es"
  shows "\<exists>rest. gguf_bytes es ts =
     (gguf_head (of_nat (length ts)) (of_nat (length es)) @ enc_list entry_bytes (take i es) @
      str_bytes (fst (es ! i)) @ le_put32 (gv_type (snd (es ! i)))) @ gv_bytes (snd (es ! i)) @ rest"
proof -
  have "enc_list entry_bytes es = enc_list entry_bytes (take i es) @ entry_bytes (es ! i) @
      enc_list entry_bytes (drop (Suc i) es)"
    using id_take_nth_drop [OF assms] enc_list_append by (metis enc_list_simps(2))
  then show ?thesis by (simp add: gguf_bytes_def entry_bytes_def)
qed

lemma cursor_left_prefix:
  assumes "cu_base c = xs @ ys @ rest" and "cu_pos c = of_nat (length xs)"
    and "length xs + length ys \<le> unat (cu_size c)" and "unat (cu_size c) \<le> length (cu_base c)"
  shows "cursor_ok c \<and> (\<exists>rest'. cursor_left c = ys @ rest')"
proof -
  have "length xs < 2 ^ 64" using assms(3) unat_u64 [of "cu_size c"] by linarith
  then have pos: "unat (cu_pos c) = length xs"
    using assms(2) by (simp add: unsigned_of_nat take_bit_nat_eq_self)
  then show ?thesis
    using assms by (auto simp: cursor_ok_def cursor_left_def mslice_def word_le_nat_alt)
qed

lemma model_find_kv_at:
  assumes d: "directory_mapped m es ts"
  shows "model_find_kv m key = None \<longleftrightarrow> gguf_lookup es key = None"
    and "model_find_kv m key = Some kv \<Longrightarrow>
      \<exists>v rest. gguf_lookup es key = Some v \<and> gv_ok 0 v \<and> gk_type kv = gv_type v \<and>
        cursor_ok (cursor_at m (gk_value_pos kv)) \<and> cursor_left (cursor_at m (gk_value_pos kv)) = gv_bytes v @ rest"
proof -
  have kv: "mo_kv m = kv_table 24 es" using d by (simp add: directory_mapped_def)
  have same: "ds4_streq (gk_key (mo_kv m ! i)) key \<longleftrightarrow> ds4_streq (fst (es ! i)) key" if "i < length (mo_kv m)" for i
    using that by (simp add: kv kv_table_nth)
  have len: "length (mo_kv m) = length es" by (simp add: kv)
  show "model_find_kv m key = None \<longleftrightarrow> gguf_lookup es key = None"
    using find_map_index(2) [OF len, of "\<lambda>kv. ds4_streq (gk_key kv) key" "\<lambda>e. ds4_streq (fst e) key"] same by (simp add: model_find_kv_def gguf_lookup_def)
  assume "model_find_kv m key = Some kv"
  then have "\<exists>i < length (mo_kv m). kv = mo_kv m ! i \<and> List.find (\<lambda>e. ds4_streq (fst e) key) es = Some (es ! i)"
    using find_map_index(1) [OF len, of "\<lambda>kv. ds4_streq (gk_key kv) key" "\<lambda>e. ds4_streq (fst e) key" kv] same
    by (simp add: model_find_kv_def)
  then obtain i where "i < length es" "kv = mo_kv m ! i" "List.find (\<lambda>e. ds4_streq (fst e) key) es = Some (es ! i)"
    unfolding len by blast
  then have i: "i < length es" "kv = kv_table 24 es ! i" "gguf_lookup es key = Some (snd (es ! i))"
    by (simp_all add: kv gguf_lookup_def)
  let ?xs = "gguf_head (of_nat (length ts)) (of_nat (length es)) @ enc_list entry_bytes (take i es) @
      str_bytes (fst (es ! i)) @ le_put32 (gv_type (snd (es ! i)))"
  obtain rest where r: "gguf_bytes es ts = ?xs @ gv_bytes (snd (es ! i)) @ rest"
    using gguf_split [OF i(1)] by blast
  obtain rest' where map: "mo_map m = gguf_bytes es ts @ rest'" using d by (auto simp: directory_mapped_def)
  have "gk_value_pos kv = of_nat (length ?xs)"
    using i by (simp add: kv_table_nth entry_value_pos_def algebra_simps)
  moreover have "length ?xs + length (gv_bytes (snd (es ! i))) \<le> unat (mo_size m)"
    using d r by (simp add: directory_mapped_def)
  moreover have "entry_ok (es ! i)" using d i(1) by (auto simp: directory_mapped_def list_all_length)
  ultimately show "\<exists>v rest. gguf_lookup es key = Some v \<and> gv_ok 0 v \<and> gk_type kv = gv_type v \<and>
        cursor_ok (cursor_at m (gk_value_pos kv)) \<and> cursor_left (cursor_at m (gk_value_pos kv)) = gv_bytes v @ rest"
    using cursor_left_prefix [of "cursor_at m (gk_value_pos kv)" ?xs "gv_bytes (snd (es ! i))" "rest @ rest'"]
      i(2,3) r map d by (auto simp: cursor_at_def directory_mapped_def entry_ok_def kv_table_nth [OF i(1)])
qed

text \<open>The value a reader is meant to give for an entry.\<close>

fun gv_string :: "gguf_value \<Rightarrow> u8 list option" where
  "gv_string (GString s) = Some s"
| "gv_string _ = None"

fun gv_u32 :: "gguf_value \<Rightarrow> u32 option" where
  "gv_u32 (GScalar t bs) = (if t = GGUF_VALUE_UINT32 then Some (le_get32 bs) else None)"
| "gv_u32 _ = None"

fun gv_u64 :: "gguf_value \<Rightarrow> u64 option" where
  "gv_u64 (GScalar t bs) =
     (if t = GGUF_VALUE_UINT64 then Some (kv_le_get64 bs)
      else if t = GGUF_VALUE_UINT32 then Some (ucast (le_get32 bs)) else None)"
| "gv_u64 _ = None"

fun gv_bool :: "gguf_value \<Rightarrow> bool option" where
  "gv_bool (GScalar t bs) = (if t = GGUF_VALUE_BOOL then Some (bs ! 0 \<noteq> 0) else None)"
| "gv_bool _ = None"

definition int_id :: "int \<Rightarrow> int option" where
  "int_id v = (if v < 0 \<or> INT_MAX < v then None else Some v)"

fun gv_token_id :: "gguf_value \<Rightarrow> int option" where
  "gv_token_id (GScalar t bs) =
     (if t = GGUF_VALUE_UINT32 then int_id (uint (le_get32 bs))
      else if t = GGUF_VALUE_INT32 then int_id (sint (le_get32 bs))
      else if t = GGUF_VALUE_UINT64 then int_id (uint (kv_le_get64 bs))
      else if t = GGUF_VALUE_INT64 then int_id (sint (kv_le_get64 bs))
      else None)"
| "gv_token_id _ = None"

lemma gv_of_type:
  "gv_ok d v \<Longrightarrow> gv_type v = GGUF_VALUE_STRING \<Longrightarrow> \<exists>s. v = GString s"
  "gv_ok d v \<Longrightarrow> gv_type v = GGUF_VALUE_ARRAY \<Longrightarrow> \<exists>t vs. v = GArray t vs"
  "gv_ok d v \<Longrightarrow> gv_type v \<noteq> GGUF_VALUE_STRING \<Longrightarrow> gv_type v \<noteq> GGUF_VALUE_ARRAY \<Longrightarrow>
     \<exists>bs. v = GScalar (gv_type v) bs \<and> length bs = unat (scalar_value_size (gv_type v))"
  by (cases v; auto)+

lemma scalar_sizes:
  "scalar_value_size GGUF_VALUE_UINT32 = 4" "scalar_value_size GGUF_VALUE_INT32 = 4"
  "scalar_value_size GGUF_VALUE_UINT64 = 8" "scalar_value_size GGUF_VALUE_INT64 = 8"
  "scalar_value_size GGUF_VALUE_BOOL = 1"
  by (simp_all add: scalar_value_size_def gguf_value_defs)

lemma kinds_neq:
  "GGUF_VALUE_UINT32 \<noteq> GGUF_VALUE_STRING" "GGUF_VALUE_UINT32 \<noteq> GGUF_VALUE_ARRAY"
  "GGUF_VALUE_INT32 \<noteq> GGUF_VALUE_STRING" "GGUF_VALUE_INT32 \<noteq> GGUF_VALUE_ARRAY"
  "GGUF_VALUE_UINT64 \<noteq> GGUF_VALUE_STRING" "GGUF_VALUE_UINT64 \<noteq> GGUF_VALUE_ARRAY"
  "GGUF_VALUE_INT64 \<noteq> GGUF_VALUE_STRING" "GGUF_VALUE_INT64 \<noteq> GGUF_VALUE_ARRAY"
  "GGUF_VALUE_BOOL \<noteq> GGUF_VALUE_STRING" "GGUF_VALUE_BOOL \<noteq> GGUF_VALUE_ARRAY"
  "GGUF_VALUE_UINT32 \<noteq> GGUF_VALUE_UINT64" "GGUF_VALUE_INT32 \<noteq> GGUF_VALUE_UINT32"
  "GGUF_VALUE_UINT64 \<noteq> GGUF_VALUE_INT32" "GGUF_VALUE_INT64 \<noteq> GGUF_VALUE_UINT32"
  "GGUF_VALUE_INT64 \<noteq> GGUF_VALUE_INT32" "GGUF_VALUE_INT64 \<noteq> GGUF_VALUE_UINT64"
  "GGUF_VALUE_UINT64 \<noteq> GGUF_VALUE_UINT32"
  by (simp_all add: gguf_value_defs)

lemmas kinds_differ = kinds_neq kinds_neq [symmetric]

lemma cursor_read_scalar:
  "cursor_ok c \<Longrightarrow> cursor_left c = bs @ rest \<Longrightarrow> unat n = length bs \<Longrightarrow> fst (cursor_read c n) = Some bs"
  by (simp add: cursor_read_eq)

lemma cursor_u32_scalar:
  "cursor_ok c \<Longrightarrow> cursor_left c = bs @ rest \<Longrightarrow> length bs = 4 \<Longrightarrow> fst (cursor_u32 c) = Some (le_get32 bs)"
  by (simp add: cursor_u32_def cursor_read_eq)

lemma cursor_u64_scalar:
  "cursor_ok c \<Longrightarrow> cursor_left c = bs @ rest \<Longrightarrow> length bs = 8 \<Longrightarrow> fst (cursor_u64 c) = Some (kv_le_get64 bs)"
  by (simp add: cursor_u64_def cursor_read_eq)

lemma cursor_string_at:
  assumes c: "cursor_ok c" and "length s < 2 ^ 64" and "cursor_left c = gv_bytes (GString s) @ rest"
  shows "fst (cursor_string c) = Some s"
  using cursor_string_Some [OF c, of s "cursor_adv c (length (gv_bytes (GString s)))"] assms by auto

lemma find_kv_cases:
  assumes d: "directory_mapped m es ts"
  obtains (missing) "model_find_kv m key = None" "gguf_lookup es key = None"
  | (str) kv s rest where "model_find_kv m key = Some kv" "gguf_lookup es key = Some (GString s)"
      "gk_type kv = GGUF_VALUE_STRING" "cursor_ok (cursor_at m (gk_value_pos kv))" "length s < 2 ^ 64"
      "cursor_left (cursor_at m (gk_value_pos kv)) = gv_bytes (GString s) @ rest"
  | (arr) kv t vs rest where "model_find_kv m key = Some kv" "gguf_lookup es key = Some (GArray t vs)"
      "gk_type kv = GGUF_VALUE_ARRAY" "cursor_ok (cursor_at m (gk_value_pos kv))" "gv_ok 0 (GArray t vs)"
      "cursor_left (cursor_at m (gk_value_pos kv)) = gv_bytes (GArray t vs) @ rest"
  | (scalar) kv bs rest where "model_find_kv m key = Some kv" "gguf_lookup es key = Some (GScalar (gk_type kv) bs)"
      "gk_type kv \<noteq> GGUF_VALUE_STRING" "gk_type kv \<noteq> GGUF_VALUE_ARRAY"
      "cursor_ok (cursor_at m (gk_value_pos kv))"
      "length bs = unat (scalar_value_size (gk_type kv))"
      "cursor_left (cursor_at m (gk_value_pos kv)) = bs @ rest"
proof (cases "model_find_kv m key")
  case None
  then show thesis using model_find_kv_at(1) [OF d] missing by simp
next
  case (Some kv)
  then obtain v rest where v: "gguf_lookup es key = Some v" "gv_ok 0 v" "gk_type kv = gv_type v"
      "cursor_ok (cursor_at m (gk_value_pos kv))" "cursor_left (cursor_at m (gk_value_pos kv)) = gv_bytes v @ rest"
    using model_find_kv_at(2) [OF d] by blast
  show thesis
  proof (cases v)
    case (GScalar t bs)
    moreover have "gk_type kv \<noteq> GGUF_VALUE_STRING" "gk_type kv \<noteq> GGUF_VALUE_ARRAY"
      using GScalar v(2,3) scalar_value_size_kinds(1,2) by auto
    ultimately show thesis using scalar [OF Some, of bs rest] v by auto
  next
    case (GString s)
    then show thesis using str [OF Some, of s rest] v by auto
  next
    case (GArray t vs)
    then show thesis using arr [OF Some, of t vs rest] v by auto
  qed
qed

lemma int_id_sint: "(if sint w < 0 then None else Some (sint w)) = int_id (sint (w :: u32))"
  using sint_range_size [of w] by (auto simp: int_id_def INT_MAX_def word_size)

lemma model_get_string_eq:
  "directory_mapped m es ts \<Longrightarrow> model_get_string m key = Option.bind (gguf_lookup es key) gv_string"
  by (erule find_kv_cases [where key = key])
    (auto simp: model_get_string_def cursor_string_at simp del: gv_bytes.simps)

lemma model_get_u32_eq:
  "directory_mapped m es ts \<Longrightarrow> model_get_u32 m key = Option.bind (gguf_lookup es key) gv_u32"
  by (erule find_kv_cases [where key = key])
    (auto simp: model_get_u32_def cursor_u32_scalar scalar_sizes kinds_differ)

lemma model_get_u64_eq:
  "directory_mapped m es ts \<Longrightarrow> model_get_u64_compat m key = Option.bind (gguf_lookup es key) gv_u64"
  by (erule find_kv_cases [where key = key])
    (auto simp: model_get_u64_compat_def Let_def cursor_u32_scalar cursor_u64_scalar scalar_sizes kinds_differ)

lemma model_get_bool_eq:
  "directory_mapped m es ts \<Longrightarrow> model_get_bool m key = Option.bind (gguf_lookup es key) gv_bool"
  by (erule find_kv_cases [where key = key])
    (auto simp: model_get_bool_def cursor_read_scalar scalar_sizes kinds_differ)

lemma model_get_token_id_eq:
  "directory_mapped m es ts \<Longrightarrow> model_get_token_id m key = Option.bind (gguf_lookup es key) gv_token_id"
  by (erule find_kv_cases [where key = key])
    (auto simp: model_get_token_id_def Let_def cursor_read_scalar cursor_u32_scalar cursor_u64_scalar
      scalar_sizes kinds_differ int_id_sint int_id_def [symmetric])


end
