(* ===== verification/Gguf_Open.thy ===== *)
theory Gguf_Open
  imports Gguf
begin

text \<open>
  What \<open>model_open\<close> promises its callers: after the n-gram tables were cut off the mapping every metadata
  value still reads as it was written, and no tensor straddles the end of the mapping.
\<close>

section \<open>Alignment\<close>

lemma entry_alignment_range:
  "a \<noteq> 0 \<and> unat a < 2 ^ 32 \<Longrightarrow> entry_alignment e a \<noteq> 0 \<and> unat (entry_alignment e a) < 2 ^ 32"
proof -
  have "unat (ucast (w :: u32) :: u64) < 2 ^ 32" for w
    using unsigned_less [of w] by (simp add: unat_ucast_up)
  moreover have "w \<noteq> 0 \<Longrightarrow> (ucast (w :: u32) :: u64) \<noteq> 0" for w
    by (simp add: unat_ucast_up flip: unat_eq_zero)
  ultimately show "a \<noteq> 0 \<and> unat a < 2 ^ 32 \<Longrightarrow> ?thesis" by (simp add: entry_alignment_def)
qed

lemma entries_alignment_range: "entries_alignment es 32 \<noteq> 0 \<and> unat (entries_alignment es 32) < 2 ^ 32"
proof -
  have "a \<noteq> 0 \<and> unat a < 2 ^ 32 \<Longrightarrow> entries_alignment es a \<noteq> 0 \<and> unat (entries_alignment es a) < 2 ^ 32" for a
  proof (induction es arbitrary: a)
    case (Cons e es)
    then show ?case using entry_alignment_range [OF Cons.prems, of e] by (simp add: entries_alignment_def)
  qed (simp add: entries_alignment_def)
  then show ?thesis by simp
qed

lemma align_up_spec:
  assumes "a \<noteq> 0" and "unat v + unat a < 2 ^ 64"
  shows "unat v \<le> unat (align_up v a) \<and> unat (align_up v a) < unat v + unat a \<and> unat (align_up v a) mod unat a = 0"
proof -
  have a: "0 < unat a" using assms(1) by (simp add: unat_gt_0)
  show ?thesis
  proof (cases "v mod a = 0")
    case True
    then have "unat v mod unat a = 0" by (metis unat_mod_distrib unat_0)
    with True a show ?thesis by (simp add: align_up_def)
  next
    case False
    let ?r = "unat v mod unat a"
    have r: "unat (v mod a) = ?r" by (simp add: unat_mod_distrib)
    have "?r < unat a" using a by simp
    have "0 < ?r" using False r by (metis unat_gt_0)
    have "unat (v + a) = unat v + unat a" using assms(2) by (simp add: unat_word_ariths)
    then have "unat (align_up v a) = unat v + unat a - ?r"
      using False r \<open>?r < unat a\<close> by (simp add: align_up_def Let_def unat_sub word_le_nat_alt)
    moreover have "(unat v + unat a - ?r) mod unat a = 0"
    proof -
      have "unat v - ?r = unat v div unat a * unat a" by (rule minus_mod_eq_div_mult)
      moreover have "?r \<le> unat v" by (rule mod_less_eq_dividend)
      ultimately have "unat v + unat a - ?r = unat v div unat a * unat a + unat a" by linarith
      then show ?thesis by simp
    qed
    ultimately show ?thesis using \<open>?r < unat a\<close> \<open>0 < ?r\<close> by simp
  qed
qed

section \<open>The scans for the disk-only tables\<close>

definition engram_name :: "u8 list \<Rightarrow> bool" where
  "engram_name s \<longleftrightarrow> ds4_streq s ''blk.1.engram_embd.weight'' \<or> ds4_streq s ''blk.14.engram_embd.weight''"

definition ngram_name :: "u8 list \<Rightarrow> bool" where
  "ngram_name s \<longleftrightarrow> ds4_streq s ''per_layer_token_embd.weight''"

definition tensor_end :: "ds4_tensor \<Rightarrow> u64" where
  "tensor_end t = te_abs_offset t + te_bytes t"

lemma grow_resident: "e \<le> grow_resident t e" "tensor_end t \<le> grow_resident t e"
  by (auto simp: grow_resident_def tensor_end_def)

text \<open>The shapes the scans accept; both have a size that is not zero.\<close>

definition engram_table :: "ds4_tensor \<Rightarrow> bool" where
  "engram_table t \<longleftrightarrow> te_ndim t = 2 \<and> te_type t = 24 \<and> te_dim t ! 0 = 264 \<and>
     te_dim t ! 1 \<noteq> 0 \<and> te_dim t ! 1 \<le> 0xFFFFFFFF"

definition ngram_table :: "ds4_tensor \<Rightarrow> bool" where
  "ngram_table t \<longleftrightarrow> te_ndim t = 2 \<and> te_type t = DS4_TENSOR_BF16 \<and> te_dim t ! 0 \<noteq> 0 \<and> te_dim t ! 0 \<le> 160 \<and>
     te_dim t ! 1 \<noteq> 0 \<and> te_dim t ! 1 \<le> 0xFFFFFFFF"

lemma tensor_type_tables:
  "tensor_nbytes 24 e = Some e"
  "tensor_nbytes DS4_TENSOR_BF16 e = (if - 1 div 2 < e then None else Some (e * 2))"
proof -
  have "tensor_type 24 = Some \<lparr>gt_name = ''i8'', gt_block_elems = 1, gt_block_bytes = 1\<rparr>"
    by (simp add: tensor_type_def gguf_types_def)
  then show "tensor_nbytes 24 e = Some e" by (simp add: tensor_nbytes_def)
  have "tensor_type DS4_TENSOR_BF16 = Some \<lparr>gt_name = ''bf16'', gt_block_elems = 1, gt_block_bytes = 2\<rparr>"
    by (simp add: tensor_type_def gguf_types_def DS4_TENSOR_BF16_def)
  then show "tensor_nbytes DS4_TENSOR_BF16 e = (if - 1 div 2 < e then None else Some (e * 2))"
    by (simp add: tensor_nbytes_def)
qed

definition tensor_built :: "ds4_tensor \<Rightarrow> bool" where
  "tensor_built t \<longleftrightarrow> length (te_dim t) \<le> 8 \<and> te_ndim t = of_nat (length (te_dim t)) \<and> dims_fit 1 (te_dim t) \<and>
     te_bytes t = (case tensor_nbytes (te_type t) (dims_product 1 (te_dim t)) of Some b \<Rightarrow> b | None \<Rightarrow> 0)"

lemma two_dims:
  assumes "tensor_built t" and "te_ndim t = 2"
  shows "te_dim t = [te_dim t ! 0, te_dim t ! 1]"
proof -
  have l: "length (te_dim t) \<le> 8" and n: "(of_nat (length (te_dim t)) :: u32) = 2"
    using assms by (simp_all add: tensor_built_def)
  have "unat (of_nat (length (te_dim t)) :: u32) = length (te_dim t)"
    using l by (simp add: unsigned_of_nat take_bit_nat_eq_self)
  then have "length (te_dim t) = 2" by (simp add: n)
  then show ?thesis by (auto simp: numeral_2_eq_2 length_Suc_conv)
qed

lemma two_dims_elements:
  assumes "tensor_built t" and "te_ndim t = 2"
  shows "unat (dims_product 1 (te_dim t)) = unat (te_dim t ! 0) * unat (te_dim t ! 1)"
proof -
  obtain a b where ab: "te_dim t = [a, b]" using two_dims [OF assms] by blast
  have "dims_fit 1 (te_dim t)" using assms(1) by (simp add: tensor_built_def)
  from unat_dims_product [OF this] show ?thesis by (simp add: ab)
qed

lemma table_bytes:
  assumes "tensor_built t"
  shows "engram_table t \<Longrightarrow> te_bytes t \<noteq> 0" "ngram_table t \<Longrightarrow> te_bytes t \<noteq> 0"
proof -
  let ?e = "dims_product 1 (te_dim t)"
  assume e: "engram_table t"
  then have "unat ?e = 264 * unat (te_dim t ! 1)"
    using two_dims_elements [OF assms] by (simp add: engram_table_def)
  moreover have "0 < unat (te_dim t ! 1)" using e by (simp add: engram_table_def unat_gt_0)
  ultimately have "0 < unat ?e" by simp
  then have "?e \<noteq> 0" using unat_gt_0 by blast
  then show "te_bytes t \<noteq> 0" using assms e by (simp add: tensor_built_def engram_table_def tensor_type_tables)
next
  let ?e = "dims_product 1 (te_dim t)"
  assume g: "ngram_table t"
  have eq: "unat ?e = unat (te_dim t ! 0) * unat (te_dim t ! 1)"
    using g two_dims_elements [OF assms] by (simp add: ngram_table_def)
  have d: "0 < unat (te_dim t ! 0)" "unat (te_dim t ! 0) \<le> 160" "0 < unat (te_dim t ! 1)" "unat (te_dim t ! 1) \<le> 0xFFFFFFFF"
    using g by (simp_all add: ngram_table_def unat_gt_0 word_le_nat_alt)
  have "unat ?e \<le> 160 * 0xFFFFFFFF" unfolding eq using d by (intro mult_le_mono)
  moreover have "0 < unat ?e" using eq d by simp
  ultimately have "unat (?e * 2) = unat ?e * 2" "0 < unat ?e" "\<not> - 1 div 2 < ?e"
    using mult_fits [of 2 ?e] by (simp_all add: unat_nonwrap)
  then show "te_bytes t \<noteq> 0"
    using assms g by (auto simp: tensor_built_def ngram_table_def tensor_type_tables simp flip: unat_gt_0)
qed

lemma engram_scan_Inr:
  "engram_scan ts t0 t1 e mx = Inr (u0, u1, e', mx') \<Longrightarrow>
     e \<le> e' \<and> (t0 \<noteq> None \<longrightarrow> u0 = t0) \<and> (t1 \<noteq> None \<longrightarrow> u1 = t1) \<and>
     (u0 \<noteq> t0 \<longrightarrow> (\<exists>t \<in> set ts. u0 = Some t \<and> engram_table t)) \<and>
     (u1 \<noteq> t1 \<longrightarrow> (\<exists>t \<in> set ts. u1 = Some t \<and> engram_table t)) \<and>
     (\<forall>t \<in> set ts. if engram_name (te_name t) then u0 = Some t \<or> u1 = Some t else tensor_end t \<le> e')"
proof (induction ts arbitrary: t0 t1 e mx)
  case Nil
  then show ?case by auto
next
  case (Cons t ts)
  consider (tab0) "ds4_streq (te_name t) ''blk.1.engram_embd.weight''"
    | (tab1) "\<not> ds4_streq (te_name t) ''blk.1.engram_embd.weight''" "ds4_streq (te_name t) ''blk.14.engram_embd.weight''"
    | (other) "\<not> engram_name (te_name t)"
    by (auto simp: engram_name_def)
  then show ?case
  proof cases
    case tab0
    with Cons.prems have "t0 = None" "engram_table t" "engram_scan ts (Some t) t1 e mx = Inr (u0, u1, e', mx')"
      by (auto simp: Let_def engram_table_def split: if_splits)
    with Cons.IH [OF this(3)] tab0 show ?thesis by (auto simp: engram_name_def)
  next
    case tab1
    with Cons.prems have "t1 = None" "engram_table t" "engram_scan ts t0 (Some t) e mx = Inr (u0, u1, e', mx')"
      by (auto simp: Let_def engram_table_def split: if_splits)
    with Cons.IH [OF this(3)] tab1 show ?thesis by (auto simp: engram_name_def)
  next
    case other
    with Cons.prems obtain mx2 where "engram_scan ts t0 t1 (grow_resident t e) mx2 = Inr (u0, u1, e', mx')"
      by (auto simp: Let_def engram_name_def split: if_splits)
    with Cons.IH [OF this] grow_resident [where t = t and e = e] other show ?thesis
      by (auto intro: order_trans)
  qed
qed

lemma qwen_scan_Inr:
  "qwen_scan ts tab e mx = Inr (u, e', mx') \<Longrightarrow>
     e \<le> e' \<and> (tab \<noteq> None \<longrightarrow> u = tab) \<and> (u \<noteq> tab \<longrightarrow> (\<exists>t \<in> set ts. u = Some t \<and> ngram_table t)) \<and>
     (\<forall>t \<in> set ts. if ngram_name (te_name t) then u = Some t else tensor_end t \<le> e')"
proof (induction ts arbitrary: tab e mx)
  case Nil
  then show ?case by auto
next
  case (Cons t ts)
  show ?case
  proof (cases "ngram_name (te_name t)")
    case True
    with Cons.prems have "tab = None" "ngram_table t" "qwen_scan ts (Some t) e mx = Inr (u, e', mx')"
      by (auto simp: ngram_name_def ngram_table_def split: if_splits)
    with Cons.IH [OF this(3)] True show ?thesis by auto
  next
    case False
    with Cons.prems obtain mx2 where "qwen_scan ts tab (grow_resident t e) mx2 = Inr (u, e', mx')"
      by (auto simp: ngram_name_def split: if_splits)
    with Cons.IH [OF this] grow_resident [where t = t and e = e] False show ?thesis
      by (auto intro: order_trans)
  qed
qed

section \<open>Tensors and the end of the mapping\<close>

text \<open>
  A tensor with bytes lies in the mapping, or it is one of the disk-only tables and lies between the end of
  the mapping and the end of the file.
\<close>

definition tensor_resident :: "ds4_model \<Rightarrow> ds4_tensor \<Rightarrow> bool" where
  "tensor_resident m t \<longleftrightarrow> unat (te_abs_offset t) + unat (te_bytes t) \<le> unat (mo_size m)"

definition tensor_on_disk :: "ds4_model \<Rightarrow> ds4_tensor \<Rightarrow> bool" where
  "tensor_on_disk m t \<longleftrightarrow>
     (engram_name (te_name t) \<or> ngram_name (te_name t)) \<and> mo_size m \<le> te_abs_offset t \<and>
     unat (te_abs_offset t) + unat (te_bytes t) \<le> unat (mo_file_size m)"

definition tensors_safe :: "ds4_model \<Rightarrow> bool" where
  "tensors_safe m \<longleftrightarrow> (\<forall>t \<in> set (mo_tensors m). te_bytes t \<noteq> 0 \<longrightarrow> tensor_resident m t \<or> tensor_on_disk m t)"

lemma tensor_end_exact:
  "unat (te_abs_offset t) + unat (te_bytes t) < 2 ^ 64 \<Longrightarrow>
     unat (tensor_end t) = unat (te_abs_offset t) + unat (te_bytes t)"
  by (simp add: tensor_end_def unat_word_ariths)

definition tensors_in_file :: "ds4_model \<Rightarrow> bool" where
  "tensors_in_file m \<longleftrightarrow> mo_size m = mo_file_size m \<and>
     (\<forall>t \<in> set (mo_tensors m). te_bytes t \<noteq> 0 \<longrightarrow> tensor_resident m t)"

lemma cut_safe:
  assumes f: "tensors_in_file m"
    and cut: "\<And>t. t \<in> set (mo_tensors m) \<Longrightarrow> te_bytes t \<noteq> 0 \<Longrightarrow>
        tensor_end t \<le> start \<or> (engram_name (te_name t) \<or> ngram_name (te_name t)) \<and> start \<le> te_abs_offset t"
    and m': "mo_tensors m' = mo_tensors m" "mo_size m' = start" "mo_file_size m' = mo_file_size m"
  shows "tensors_safe m'"
  unfolding tensors_safe_def m'(1)
proof (intro ballI impI)
  fix t assume t: "t \<in> set (mo_tensors m)" "te_bytes t \<noteq> 0"
  then have r: "unat (te_abs_offset t) + unat (te_bytes t) \<le> unat (mo_file_size m)"
    using f by (auto simp: tensors_in_file_def tensor_resident_def)
  then have "unat (te_abs_offset t) + unat (te_bytes t) < 2 ^ 64" using unat_u64 [of "mo_file_size m"] by linarith
  with cut [OF t] r show "tensor_resident m' t \<or> tensor_on_disk m' t"
    by (auto simp: tensor_resident_def tensor_on_disk_def m' word_le_nat_alt tensor_end_exact)
qed

lemma gguf_model_sound:
  assumes len: "length bytes < 2 ^ 63" and ok: "gguf_ok bytes es ts" and m: "m = gguf_model bytes es ts"
  shows "tensors_in_file m" "\<forall>t \<in> set (mo_tensors m). tensor_built t" "directory_mapped m es ts"
    "length (gguf_bytes es ts) \<le> unat (mo_tensor_data_pos m)"
proof -
  let ?n = "length (gguf_bytes es ts)"
  from ok obtain rest where r: "bytes = gguf_bytes es ts @ rest" by (auto simp: gguf_ok_def)
  then have "?n < 2 ^ 64" using len by simp
  then have nle: "take_bit 64 ?n = ?n" by (simp add: take_bit_nat_eq_self)
  have sz: "unat (of_nat (length bytes) :: u64) = length bytes" and n: "unat (of_nat ?n :: u64) = ?n"
    using len by (simp_all add: unsigned_of_nat take_bit_nat_eq_self nle)
  show "tensors_in_file m"
    unfolding tensors_in_file_def
  proof (intro conjI ballI impI)
    show "mo_size m = mo_file_size m" by (simp add: m gguf_model_def)
    fix t assume "t \<in> set (mo_tensors m)" "te_bytes t \<noteq> 0"
    then obtain x where x: "x \<in> set ts" "t = place (gguf_data_pos es ts) (tensor_of x)"
      by (auto simp: m gguf_model_def)
    with ok have "tensor_inside (gguf_data_pos es ts) (of_nat (length bytes)) (tensor_of x)"
      by (auto simp: gguf_ok_def list_all_iff)
    with x \<open>te_bytes t \<noteq> 0\<close> show "tensor_resident m t"
      by (simp add: tensor_inside_def tensor_resident_def place_def m gguf_model_def unat_word_ariths)
  qed
  show "\<forall>t \<in> set (mo_tensors m). tensor_built t"
  proof
    fix t assume "t \<in> set (mo_tensors m)"
    then obtain x where x: "x \<in> set ts" "t = place (gguf_data_pos es ts) (tensor_of x)"
      by (auto simp: m gguf_model_def)
    with ok have "tensor_ok x" by (auto simp: gguf_ok_def list_all_iff)
    then show "tensor_built t" unfolding x(2)
      by (cases x) (auto simp: tensor_built_def place_def DS4_MAX_DIMS_def)
  qed
  show "directory_mapped m es ts"
    using ok r sz by (simp add: directory_mapped_def m gguf_model_def gguf_ok_def)
  note al = entries_alignment_range [of es]
  have "?n + unat (entries_alignment es 32) < 2 ^ 64" using len r al by simp
  with al n show "?n \<le> unat (mo_tensor_data_pos m)"
    using align_up_spec [of "entries_alignment es 32" "of_nat ?n"] by (simp add: m gguf_model_def gguf_data_pos_def)
qed

definition arch_is :: "ds4_model \<Rightarrow> string \<Rightarrow> bool" where
  "arch_is m z \<longleftrightarrow> (\<exists>s. model_get_string m ''general.architecture'' = Some s \<and> ds4_streq s z)"

lemma unmap_engram_cases:
  assumes u: "model_unmap_engram env m = Inr m'"
  obtains (same) "m' = m"
  | (cut) t0 t1 e mx where
      "engram_scan (mo_tensors m) None None (mo_tensor_data_pos m) 0 = Inr (Some t0, Some t1, e, mx)"
      "e \<le> te_abs_offset t0" "tensor_end t0 \<le> te_abs_offset t1"
      "m' = m\<lparr>mo_max_tensor_bytes := mx, mo_size := te_abs_offset t0\<rparr>" "arch_is m ''deepseek41''"
proof (cases "arch_is m ''deepseek41''")
  case False
  then have "m' = m" using u
    unfolding model_unmap_engram_def arch_is_def by (simp split: option.splits)
  then show thesis by (rule same)
next
  case True
  then obtain s where s: "model_get_string m ''general.architecture'' = Some s" "ds4_streq s ''deepseek41''"
    by (auto simp: arch_is_def)
  from u obtain t0 t1 e mx where scan:
      "engram_scan (mo_tensors m) None None (mo_tensor_data_pos m) 0 = Inr (t0, t1, e, mx)"
    and c: "(case (t0, t1) of
         (Some t0, Some t1) \<Rightarrow>
           let start = te_abs_offset t0
           in die_then (die_if (\<not> page_multiple env start \<or> start < e \<or>
                  te_abs_offset t1 < start + te_bytes t0) Engram_order) (\<lambda>_.
              die_then (die_if (\<not> ge_munmap_ok env) Unmap_failed) (\<lambda>_.
                Inr (m\<lparr>mo_max_tensor_bytes := mx, mo_size := start\<rparr>)))
       | _ \<Rightarrow> Inl Engram_missing) = Inr m'"
    unfolding model_unmap_engram_def s(1) option.case if_not_P [OF notI] using s(2)
    by (simp add: die_then_Inr die_if_Inr split_paired_Ex) blast
  from c obtain a b where ab: "t0 = Some a" "t1 = Some b" by (cases t0; cases t1) simp_all
  show thesis
    by (rule cut [of a b e mx]) (use c scan True in \<open>simp_all add: ab die_simps Let_def not_less tensor_end_def\<close>)
qed

lemma unmap_qwen_cases:
  assumes u: "model_unmap_qwen_ngrams env m = Inr m'"
  obtains (same) mx where "m' = m\<lparr>mo_max_tensor_bytes := mx\<rparr>"
  | (cut) t e mx where "qwen_scan (mo_tensors m) None (mo_tensor_data_pos m) 0 = Inr (Some t, e, mx)"
      "e \<le> te_abs_offset t"
      "m' = m\<lparr>mo_max_tensor_bytes := mx, mo_size := te_abs_offset t, mo_ngram_tensor := Some t\<rparr>"
      "arch_is m ''qwen4exp''"
proof (cases "arch_is m ''qwen4exp''")
  case False
  then have "m' = m" using u
    unfolding model_unmap_qwen_ngrams_def arch_is_def by (simp split: option.splits)
  then show thesis using same [of "mo_max_tensor_bytes m"] by simp
next
  case True
  then obtain s where s: "model_get_string m ''general.architecture'' = Some s" "ds4_streq s ''qwen4exp''"
    by (auto simp: arch_is_def)
  from u s obtain t e mx where scan:
      "qwen_scan (mo_tensors m) None (mo_tensor_data_pos m) 0 = Inr (t, e, mx)"
    by (simp add: model_unmap_qwen_ngrams_def die_then_Inr split_paired_Ex) blast
  show thesis
  proof (cases t)
    case None
    with u s scan have "m' = m\<lparr>mo_max_tensor_bytes := mx\<rparr>"
      by (simp add: model_unmap_qwen_ngrams_def die_then_def)
    then show thesis by (rule same)
  next
    case (Some a)
    show thesis
      by (rule cut [of a e mx])
        (use u s scan Some True in \<open>simp_all add: model_unmap_qwen_ngrams_def die_simps Let_def not_less\<close>)
  qed
qed

definition opened_file :: "ds4_model \<Rightarrow> gguf_entry list \<Rightarrow> gguf_tensor list \<Rightarrow> bool" where
  "opened_file m es ts \<longleftrightarrow>
     tensors_in_file m \<and> (\<forall>t \<in> set (mo_tensors m). tensor_built t) \<and> directory_mapped m es ts \<and>
     length (gguf_bytes es ts) \<le> unat (mo_tensor_data_pos m)"

lemma cut_start:
  assumes f: "opened_file m es ts" and t: "t \<in> set (mo_tensors m)" and b: "te_bytes t \<noteq> 0"
    and e: "mo_tensor_data_pos m \<le> te_abs_offset t"
  shows "directory_mapped (m\<lparr>mo_max_tensor_bytes := mx, mo_size := te_abs_offset t\<rparr>) es ts"
    "te_abs_offset t \<le> tensor_end t"
proof -
  have r: "unat (te_abs_offset t) + unat (te_bytes t) \<le> unat (mo_size m)"
    using f t b by (auto simp: opened_file_def tensors_in_file_def tensor_resident_def)
  then have "unat (te_abs_offset t) + unat (te_bytes t) < 2 ^ 64" using unat_u64 [of "mo_size m"] by linarith
  then show "te_abs_offset t \<le> tensor_end t" by (simp add: word_le_nat_alt tensor_end_exact)
  show "directory_mapped (m\<lparr>mo_max_tensor_bytes := mx, mo_size := te_abs_offset t\<rparr>) es ts"
    using f e r by (auto simp: opened_file_def directory_mapped_def word_le_nat_alt)
qed

lemma unmap_engram_sound:
  assumes f: "opened_file m es ts" and u: "model_unmap_engram env m = Inr m'"
  shows "m' = m \<or> tensors_safe m' \<and> directory_mapped m' es ts \<and> arch_is m ''deepseek41''"
  using u
proof (cases rule: unmap_engram_cases)
  case same
  then show ?thesis by simp
next
  case (cut t0 t1 e mx)
  note s = engram_scan_Inr [OF cut(1)]
  then have t0: "t0 \<in> set (mo_tensors m)" "engram_table t0" and le: "mo_tensor_data_pos m \<le> te_abs_offset t0"
    using cut(2) by auto
  then have b: "te_bytes t0 \<noteq> 0" using f table_bytes(1) by (auto simp: opened_file_def)
  note c = cut_start [OF f t0(1) b le]
  have "te_abs_offset t0 \<le> te_abs_offset t1" using c(2) cut(3) by (rule order_trans)
  then have "tensor_end t \<le> te_abs_offset t0 \<or>
      (engram_name (te_name t) \<or> ngram_name (te_name t)) \<and> te_abs_offset t0 \<le> te_abs_offset t"
    if "t \<in> set (mo_tensors m)" for t
    using s that cut(2) by (cases "engram_name (te_name t)") (auto intro: order_trans)
  then have "tensors_safe m'"
    using f by (intro cut_safe [of m "te_abs_offset t0" m']) (auto simp: opened_file_def cut(4))
  then show ?thesis using c(1) cut(4,5) by simp
qed

lemma unmap_qwen_sound:
  assumes f: "opened_file m es ts" and u: "model_unmap_qwen_ngrams env m = Inr m'"
  shows "tensors_safe m' \<and> directory_mapped m' es ts"
  using u
proof (cases rule: unmap_qwen_cases)
  case (same mx)
  then show ?thesis using f
    by (auto simp: opened_file_def tensors_in_file_def tensors_safe_def tensor_resident_def directory_mapped_def)
next
  case (cut t e mx)
  note s = qwen_scan_Inr [OF cut(1)]
  then have t: "t \<in> set (mo_tensors m)" "ngram_table t" and le: "mo_tensor_data_pos m \<le> te_abs_offset t"
    using cut(2) by auto
  then have b: "te_bytes t \<noteq> 0" using f table_bytes(2) by (auto simp: opened_file_def)
  have "tensor_end x \<le> te_abs_offset t \<or>
      (engram_name (te_name x) \<or> ngram_name (te_name x)) \<and> te_abs_offset t \<le> te_abs_offset x"
    if "x \<in> set (mo_tensors m)" for x
    using s that cut(2) by (cases "ngram_name (te_name x)") (auto intro: order_trans)
  then have "tensors_safe m'"
    using f by (intro cut_safe [of m "te_abs_offset t" m']) (auto simp: opened_file_def cut(3))
  moreover have "directory_mapped m' es ts"
    using cut_start(1) [OF f t(1) b le, of mx] by (simp add: cut(3) directory_mapped_def)
  ultimately show ?thesis by blast
qed

lemma arch_is_mapped:
  "directory_mapped m es ts \<Longrightarrow> directory_mapped m' es ts \<Longrightarrow> arch_is m' z \<longleftrightarrow> arch_is m z"
  by (simp add: arch_is_def model_get_string_eq)

lemma two_archs: "arch_is m ''deepseek41'' \<Longrightarrow> \<not> arch_is m ''qwen4exp''"
  by (auto simp: arch_is_def ds4_streq_def)

lemma unmap_qwen_other: "\<not> arch_is m ''qwen4exp'' \<Longrightarrow> model_unmap_qwen_ngrams env m = Inr m"
  unfolding model_unmap_qwen_ngrams_def arch_is_def by (simp split: option.splits)

lemma model_open_steps:
  assumes len: "length bytes < 2 ^ 63" and o: "model_open env bytes = Inr m"
  shows "\<exists>es ts. gguf_ok bytes es ts \<and> directory_mapped m es ts \<and> tensors_safe m"
proof -
  from o obtain m1 m2 where p: "model_parse env bytes = Inr m1" and e: "model_unmap_engram env m1 = Inr m2"
      and q: "model_unmap_qwen_ngrams env m2 = Inr m"
    by (auto simp: model_open_def die_then_Inr)
  have "length bytes < 2 ^ 64" using len by simp
  then obtain es ts where ok: "gguf_ok bytes es ts" and m1: "m1 = gguf_model bytes es ts"
    using p model_parse_exact by blast
  have f: "opened_file m1 es ts" using gguf_model_sound [OF len ok m1] by (simp add: opened_file_def)
  have "tensors_safe m \<and> directory_mapped m es ts"
  proof (cases "m2 = m1")
    case True
    then show ?thesis using unmap_qwen_sound [OF f] q by blast
  next
    case False
    then have s: "tensors_safe m2" "directory_mapped m2 es ts" "arch_is m1 ''deepseek41''"
      using unmap_engram_sound [OF f e] by auto
    have "directory_mapped m1 es ts" using f by (simp add: opened_file_def)
    then have "arch_is m2 ''deepseek41''" using arch_is_mapped [OF _ s(2)] s(3) by simp
    then have "\<not> arch_is m2 ''qwen4exp''" by (rule two_archs)
    then have "model_unmap_qwen_ngrams env m2 = Inr m2" by (rule unmap_qwen_other)
    with q s show ?thesis by simp
  qed
  with ok show ?thesis by blast
qed

text \<open>C12. Once a file was opened every tensor with bytes lies inside the mapping, or it is one of the n-gram tables
  that are read from disk and lies wholly between the end of the mapping and the end of the file: no tensor
  reaches over the end of the file or over the place where the mapping was cut.\<close>

theorem model_open_tensors_safe:
  assumes "length bytes < 2 ^ 63" and "model_open env bytes = Inr m"
  shows "\<forall>t \<in> set (mo_tensors m). te_bytes t \<noteq> 0 \<longrightarrow> tensor_resident m t \<or> tensor_on_disk m t"
  using model_open_steps [OF assms] by (auto simp: tensors_safe_def)

text \<open>An opened file is a well-formed directory, and every reader of the model gives the value of the first
  entry with the key when that has the right type and nothing otherwise; the reads stay valid after
  the mapping was cut.\<close>

theorem model_open_values:
  assumes "length bytes < 2 ^ 63" and "model_open env bytes = Inr m"
  shows "\<exists>es ts. gguf_ok bytes es ts \<and>
     (\<forall>key. model_get_string m key = Option.bind (gguf_lookup es key) gv_string \<and>
            model_get_u32 m key = Option.bind (gguf_lookup es key) gv_u32 \<and>
            model_get_u64_compat m key = Option.bind (gguf_lookup es key) gv_u64 \<and>
            model_get_bool m key = Option.bind (gguf_lookup es key) gv_bool \<and>
            model_get_token_id m key = Option.bind (gguf_lookup es key) gv_token_id)"
proof -
  obtain es ts where "gguf_ok bytes es ts" "directory_mapped m es ts" using model_open_steps [OF assms] by blast
  then show ?thesis
    by (intro exI [of _ es] exI [of _ ts])
      (simp add: model_get_string_eq model_get_u32_eq model_get_u64_eq model_get_bool_eq model_get_token_id_eq)
qed

section \<open>A V4.1 file\<close>

definition chars :: "string \<Rightarrow> u8 list" where "chars s = map of_char s"

lemma unat_of_char: "unat (of_char c :: u8) = of_char c"
proof -
  have "(of_char c :: u8) = of_nat (of_char c)" by (rule of_nat_of_char [symmetric])
  moreover have "(of_char c :: nat) < 256"
    by (metis of_char_of char_of_char mod_less_divisor zero_less_numeral)
  ultimately show ?thesis by (simp add: unsigned_of_nat take_bit_nat_eq_self del: of_nat_of_char)
qed

lemma streq_chars [simp]: "ds4_streq (chars a) b \<longleftrightarrow> a = b"
proof -
  have "inj (of_char :: char \<Rightarrow> u8)" by (rule injI) (metis unat_of_char of_char_eq_iff)
  then have "map (of_char :: char \<Rightarrow> u8) a = map of_char b \<longleftrightarrow> a = b" by (simp add: inj_map_eq_map)
  then show ?thesis by (auto simp: ds4_streq_def chars_def)
qed

text \<open>Two metadata entries, a resident F32 tensor and the two n-gram tables behind it.\<close>

definition demo_entries :: "gguf_entry list" where
  "demo_entries =
     [(chars ''general.architecture'', GString (chars ''deepseek41'')),
      (chars ''deepseek41.engram.encoding'', GString (chars ''e4m3_e8m0_32_row264''))]"

definition demo_tensors :: "gguf_tensor list" where
  "demo_tensors =
     [(chars ''output_norm.weight'', [2], 0, 0),
      (chars ''blk.1.engram_embd.weight'', [264, 1], 24, 32),
      (chars ''blk.14.engram_embd.weight'', [264, 1], 24, 296)]"

definition demo_file :: "u8 list" where
  "demo_file = gguf_bytes demo_entries demo_tensors @ replicate 600 0"

definition demo_env :: gguf_env where
  "demo_env = \<lparr>ge_mmap_ok = True, ge_kv_alloc = True, ge_tensor_alloc = True, ge_page = 32, ge_munmap_ok = True,
     ge_ngram_open = True, ge_ngram_same = True, ge_ngram_size = 0, ge_ngram_cache_ok = True\<rparr>"

lemma demo_length: "length (gguf_bytes demo_entries demo_tensors) = 318"
  by code_simp

lemma demo_alignment: "entries_alignment demo_entries 32 = 32"
  by code_simp

lemma demo_data_pos: "gguf_data_pos demo_entries demo_tensors = 320"
  by (simp add: gguf_data_pos_def demo_length demo_alignment align_up_def)

lemma tensor_nbytes_f32: "tensor_nbytes 0 2 = Some 8"
  by code_simp

lemma demo_ok: "gguf_ok demo_file demo_entries demo_tensors"
proof -
  have "list_all entry_ok demo_entries" by (simp add: demo_entries_def entry_ok_def str_ok_def chars_def)
  moreover have "list_all tensor_ok demo_tensors" by (simp add: demo_tensors_def str_ok_def DS4_MAX_DIMS_def chars_def)
  moreover have "length demo_file = 918" by (simp add: demo_file_def demo_length)
  moreover have "list_all (\<lambda>t. tensor_inside 320 918 (tensor_of t)) demo_tensors"
    by (simp add: demo_tensors_def tensor_inside_def tensor_type_tables tensor_nbytes_f32 dims_product_def)
  ultimately show ?thesis by (auto simp: gguf_ok_def demo_data_pos demo_file_def)
qed

lemma demo_bytes: "length demo_file = 918" by (simp add: demo_file_def demo_length)

lemma demo_lookup:
  "gguf_lookup demo_entries ''general.architecture'' = Some (GString (chars ''deepseek41''))"
  "gguf_lookup demo_entries ''deepseek41.engram.encoding'' = Some (GString (chars ''e4m3_e8m0_32_row264''))"
  by (simp_all add: gguf_lookup_def demo_entries_def)

definition demo_model :: ds4_model where
  "demo_model = gguf_model demo_file demo_entries demo_tensors"

lemma demo_parse: "model_parse demo_env demo_file = Inr demo_model"
proof -
  have "length demo_file < 2 ^ 64" by (simp add: demo_bytes)
  with demo_ok show ?thesis by (auto simp: model_parse_exact demo_model_def demo_env_def)
qed

lemma demo_mapped: "directory_mapped demo_model demo_entries demo_tensors"
  using gguf_model_sound(3) [OF _ demo_ok demo_model_def] by (simp add: demo_bytes)

lemma demo_tensor_table:
  "mo_tensors demo_model =
     map (\<lambda>t. place 320 (tensor_of t)) demo_tensors" "mo_tensor_data_pos demo_model = 320"
  by (simp_all add: demo_model_def gguf_model_def demo_data_pos)

lemma demo_scan:
  "\<exists>t0 t1. engram_scan (mo_tensors demo_model) None None 320 0 = Inr (Some t0, Some t1, 328, 8) \<and>
     te_abs_offset t0 = 352 \<and> te_bytes t0 = 264 \<and> te_abs_offset t1 = 616"
  unfolding demo_tensor_table demo_tensors_def
  by (simp add: Let_def  place_def tensor_type_tables tensor_nbytes_f32 dims_product_def grow_resident_def)

lemma demo_open: "model_open demo_env demo_file = Inr (demo_model\<lparr>mo_max_tensor_bytes := 8, mo_size := 352\<rparr>)"
proof -
  obtain t0 t1 where s: "engram_scan (mo_tensors demo_model) None None 320 0 = Inr (Some t0, Some t1, 328, 8)"
      "te_abs_offset t0 = 352" "te_bytes t0 = 264" "te_abs_offset t1 = 616" using demo_scan by blast
  let ?m = "demo_model\<lparr>mo_max_tensor_bytes := 8, mo_size := 352\<rparr>"
  have e: "model_unmap_engram demo_env demo_model = Inr ?m"
    using s by (simp add: model_unmap_engram_def model_get_string_eq [OF demo_mapped] demo_lookup 
        demo_tensor_table die_then_def die_if_def page_multiple_def demo_env_def)
  have "directory_mapped ?m demo_entries demo_tensors"
    using demo_mapped by (simp add: directory_mapped_def demo_length demo_model_def gguf_model_def demo_bytes)
  then have "\<not> arch_is ?m ''qwen4exp''" by (simp add: arch_is_def model_get_string_eq demo_lookup)
  then have q: "model_unmap_qwen_ngrams demo_env ?m = Inr ?m" by (rule unmap_qwen_other)
  show ?thesis
    using e q by (simp add: model_open_def demo_bytes demo_parse die_then_def die_if_def) (simp add: demo_env_def)
qed

lemma model_open_tensors_safe_witness:
  "\<exists>m. model_open demo_env demo_file = Inr m \<and> mo_size m < mo_file_size m \<and> length (mo_tensors m) = 3 \<and>
     (\<forall>t \<in> set (mo_tensors m). te_bytes t \<noteq> 0 \<longrightarrow> tensor_resident m t \<or> tensor_on_disk m t)"
proof -
  let ?m = "demo_model\<lparr>mo_max_tensor_bytes := 8, mo_size := 352\<rparr>"
  have "\<forall>t \<in> set (mo_tensors ?m). te_bytes t \<noteq> 0 \<longrightarrow> tensor_resident ?m t \<or> tensor_on_disk ?m t"
    by (rule model_open_tensors_safe [OF _ demo_open]) (simp add: demo_bytes)
  moreover have "mo_size ?m < mo_file_size ?m" "length (mo_tensors ?m) = 3"
    by (simp_all add: demo_model_def gguf_model_def demo_bytes demo_tensors_def)
  ultimately show ?thesis using demo_open by blast
qed

lemma model_open_values_witness:
  "\<exists>m es ts. model_open demo_env demo_file = Inr m \<and> gguf_ok demo_file es ts \<and>
     (\<forall>key. model_get_string m key = Option.bind (gguf_lookup es key) gv_string)"
proof -
  have len: "length demo_file < 2 ^ 63" by (simp add: demo_bytes)
  from model_open_values [OF len demo_open] show ?thesis using demo_open by blast
qed


section \<open>The size of a tensor\<close>

lemma gguf_types_fields:
  "tensor_type t = Some info \<Longrightarrow> 0 < unat (gt_block_elems info) \<and> 0 < unat (gt_block_bytes info) \<and>
     unat (gt_block_elems info) \<le> 256 \<and> unat (gt_block_bytes info) \<le> 292"
proof -
  assume "tensor_type t = Some info"
  then have "info \<in> snd ` set gguf_types" by (auto simp: tensor_type_def dest: map_of_SomeD intro: rev_image_eqI)
  moreover have "list_all (\<lambda>i. 0 < unat (gt_block_elems i) \<and> 0 < unat (gt_block_bytes i) \<and>
     unat (gt_block_elems i) \<le> 256 \<and> unat (gt_block_bytes i) \<le> 292) (map snd gguf_types)"
    by (simp add: gguf_types_def)
  ultimately show ?thesis by (auto simp: list_all_iff)
qed

text \<open>The number of bytes is that of the blocks that hold the elements, unless the rounding wraps.\<close>

lemma tensor_nbytes_exact:
  assumes t: "tensor_type t = Some info" and e: "unat elements + unat (gt_block_elems info) \<le> 2 ^ 64"
  shows "tensor_nbytes t elements =
     (let n = (unat elements + unat (gt_block_elems info) - 1) div unat (gt_block_elems info) *
              unat (gt_block_bytes info)
      in if n < 2 ^ 64 then Some (of_nat n) else None)"
proof -
  let ?be = "ucast (gt_block_elems info) :: u64" and ?bb = "ucast (gt_block_bytes info) :: u64"
  note f = gguf_types_fields [OF t]
  have be: "unat ?be = unat (gt_block_elems info)" and bb: "unat ?bb = unat (gt_block_bytes info)"
    by (simp_all add: unat_ucast_up)
  then have nz: "?be \<noteq> 0" "?bb \<noteq> 0" using f by (auto simp flip: unat_gt_0)
  have sum: "unat (elements + ?be - 1) = unat elements + unat (gt_block_elems info) - 1"
  proof -
    have "unat (?be - 1) = unat (gt_block_elems info) - 1" using nz be by (simp add: unat_minus_one)
    moreover have "unat elements + (unat (gt_block_elems info) - 1) < 2 ^ 64" using e f by simp
    ultimately have "unat (elements + (?be - 1)) = unat elements + (unat (gt_block_elems info) - 1)"
      by (simp add: unat_word_ariths(1))
    then show ?thesis using f by (simp add: add_diff_eq)
  qed
  let ?blocks = "(elements + ?be - 1) div ?be"
  have blocks: "unat ?blocks = (unat elements + unat (gt_block_elems info) - 1) div unat (gt_block_elems info)"
    by (simp add: unat_div_distrib sum be)
  have 1: "tensor_nbytes t elements = (if - 1 div ?bb < ?blocks then None else Some (?blocks * ?bb))"
    by (simp add: tensor_nbytes_def t Let_def nz)
  have 2: "- 1 div ?bb < ?blocks \<longleftrightarrow> \<not> unat ?blocks * unat ?bb < 2 ^ 64" using mult_fits [OF nz(2), of ?blocks] by blast
  have 3: "?blocks * ?bb = of_nat (unat ?blocks * unat ?bb)" by simp
  show ?thesis
    unfolding 1 2 3 Let_def blocks bb by (cases "unat ?blocks * unat ?bb < 2 ^ 64") (simp_all only: blocks bb simp_thms if_True if_False)
qed

text \<open>Next to the end of the 64-bit range the rounding wraps: the size is reported as zero.\<close>

lemma tensor_nbytes_wraps: "tensor_nbytes 8 (- 1) = Some 0"
  by code_simp

end
