(* ===== verification/Bpe.thy ===== *)
theory Bpe
  imports Ds4_Prelude
begin

text \<open>
  Byte-level BPE of ds4.c: the byte alphabet (\<open>gpt2_byte_to_codepoint\<close>, \<open>byte_encode\<close>), the merge
  loop that turns one piece of text into tokens (\<open>bpe_emit_piece\<close>), and the text of a token
  (\<open>ds4_token_text\<close>). The two hash tables of the vocabulary are maps here; \<open>Str_Table\<close> shows that the
  tables implement maps.
\<close>

record vocab =
  vo_token :: "u8 list list"
  vo_token_to_id :: "u8 list \<Rightarrow> int option"
  vo_merge_rank :: "u8 list \<Rightarrow> int option"

section \<open>The byte alphabet\<close>

definition bpe_utf8_put :: "u32 \<Rightarrow> u8 list" where
  "bpe_utf8_put cp =
     (if cp \<le> 0x7F then [ucast cp]
      else if cp \<le> 0x7FF then [ucast (0xC0 OR drop_bit 6 cp), ucast (0x80 OR (cp AND 0x3F))]
      else if cp \<le> 0xFFFF then
        [ucast (0xE0 OR drop_bit 12 cp), ucast (0x80 OR (drop_bit 6 cp AND 0x3F)), ucast (0x80 OR (cp AND 0x3F))]
      else
        [ucast (0xF0 OR drop_bit 18 cp), ucast (0x80 OR (drop_bit 12 cp AND 0x3F)),
         ucast (0x80 OR (drop_bit 6 cp AND 0x3F)), ucast (0x80 OR (cp AND 0x3F))])"

definition gpt2_plain :: "u32 \<Rightarrow> bool" where
  "gpt2_plain x \<longleftrightarrow> 33 \<le> x \<and> x \<le> 126 \<or> 161 \<le> x \<and> x \<le> 172 \<or> 174 \<le> x"

text \<open>The loops over \<open>x\<close> from the given value to 255; \<open>n\<close> counts the bytes that are not plain.\<close>

function gpt2_encode_loop :: "u32 \<Rightarrow> u32 \<Rightarrow> nat \<Rightarrow> u32" where
  "gpt2_encode_loop b n x =
     (if x < 256
      then if gpt2_plain (of_nat x) then gpt2_encode_loop b n (Suc x)
           else if of_nat x = b then 256 + n
           else gpt2_encode_loop b (n + 1) (Suc x)
      else b)"
  by pat_completeness auto
termination by (relation "measure (\<lambda>(b, n, x). 256 - x)") auto

definition gpt2_byte_to_codepoint :: "u8 \<Rightarrow> u32" where
  "gpt2_byte_to_codepoint b = (if gpt2_plain (ucast b) then ucast b else gpt2_encode_loop (ucast b) 0 0)"

definition byte_encode :: "u8 list \<Rightarrow> u8 list" where
  "byte_encode s = concat (map (\<lambda>b. bpe_utf8_put (gpt2_byte_to_codepoint b)) s)"

function gpt2_decode_loop :: "u32 \<Rightarrow> u32 \<Rightarrow> nat \<Rightarrow> u8 option" where
  "gpt2_decode_loop cp n x =
     (if x < 256
      then if gpt2_plain (of_nat x) then gpt2_decode_loop cp n (Suc x)
           else if cp = 256 + n then Some (of_nat x)
           else gpt2_decode_loop cp (n + 1) (Suc x)
      else None)"
  by pat_completeness auto
termination by (relation "measure (\<lambda>(cp, n, x). 256 - x)") auto

declare gpt2_encode_loop.simps [simp del] gpt2_decode_loop.simps [simp del]

text \<open>\<open>None\<close> is the result -1.\<close>

definition gpt2_codepoint_to_byte :: "u32 \<Rightarrow> u8 option" where
  "gpt2_codepoint_to_byte cp =
     (if 33 \<le> cp \<and> cp \<le> 126 \<or> 161 \<le> cp \<and> cp \<le> 172 \<or> 174 \<le> cp \<and> cp \<le> 255 then Some (ucast cp)
      else gpt2_decode_loop cp 0 0)"

definition utf8_len_from_first_byte :: "u8 \<Rightarrow> nat" where
  "utf8_len_from_first_byte c =
     (if c < 0x80 then 1 else if c AND 0xE0 = 0xC0 then 2 else if c AND 0xF0 = 0xE0 then 3
      else if c AND 0xF8 = 0xF0 then 4 else 1)"

text \<open>Decoding one code point: its value and the bytes after it.\<close>

definition utf8_decode_one :: "u8 list \<Rightarrow> u32 \<times> u8 list" where
  "utf8_decode_one s =
     (let c = s ! 0; n = length s
      in if c < 0x80 \<or> n \<le> 1 then (ucast c, drop 1 s)
         else if c AND 0xE0 = 0xC0 \<and> 1 < n then
           (push_bit 6 (ucast (c AND 0x1F)) OR ucast (s ! 1 AND 0x3F), drop 2 s)
         else if c AND 0xF0 = 0xE0 \<and> 2 < n then
           (push_bit 12 (ucast (c AND 0x0F)) OR push_bit 6 (ucast (s ! 1 AND 0x3F)) OR ucast (s ! 2 AND 0x3F), drop 3 s)
         else if c AND 0xF8 = 0xF0 \<and> 3 < n then
           (push_bit 18 (ucast (c AND 0x07)) OR push_bit 12 (ucast (s ! 1 AND 0x3F)) OR
              push_bit 6 (ucast (s ! 2 AND 0x3F)) OR ucast (s ! 3 AND 0x3F), drop 4 s)
         else (ucast c, drop 1 s))"

lemma utf8_decode_one_shorter: "s \<noteq> [] \<Longrightarrow> length (snd (utf8_decode_one s)) < length s"
  by (simp add: utf8_decode_one_def Let_def)

section \<open>Merging\<close>

function bpe_split :: "u8 list \<Rightarrow> u8 list list" where
  "bpe_split s =
     (if s = [] then []
      else let n = utf8_len_from_first_byte (s ! 0); n = (if length s < n then 1 else n)
           in take n s # bpe_split (drop n s))"
  by pat_completeness auto
termination
  by (relation "measure length") (auto simp: utf8_len_from_first_byte_def)

declare bpe_split.simps [simp del]

definition bpe_rank :: "vocab \<Rightarrow> u8 list \<Rightarrow> u8 list \<Rightarrow> int" where
  "bpe_rank V a b = (case vo_merge_rank V (a @ [0x20] @ b) of Some r \<Rightarrow> r | None \<Rightarrow> -1)"

text \<open>The scan for the pair of smallest rank, from symbol \<open>i\<close> on; -1 when there is none.\<close>

fun bpe_best :: "vocab \<Rightarrow> int \<Rightarrow> u8 list list \<Rightarrow> int \<Rightarrow> int \<Rightarrow> int" where
  "bpe_best V i (a # b # syms) best_i best_rank =
     (let rank = bpe_rank V a b
      in if 0 \<le> rank \<and> rank < best_rank then bpe_best V (i + 1) (b # syms) i rank
         else bpe_best V (i + 1) (b # syms) best_i best_rank)"
| "bpe_best V i _ best_i best_rank = best_i"

definition INT32_MAX :: int where "INT32_MAX = 2147483647"

definition bpe_join_at :: "nat \<Rightarrow> u8 list list \<Rightarrow> u8 list list" where
  "bpe_join_at i syms = take i syms @ [syms ! i @ syms ! (i + 1)] @ drop (i + 2) syms"

lemma bpe_best_bounds:
  "bpe_best V i syms best_i best_rank = best_i \<or>
    i \<le> bpe_best V i syms best_i best_rank \<and> bpe_best V i syms best_i best_rank + 1 < i + int (length syms)"
  by (induction V i syms best_i best_rank rule: bpe_best.induct) (fastforce simp: Let_def)+

lemma bpe_best_range:
  "0 \<le> bpe_best V 0 syms (-1) r \<Longrightarrow> nat (bpe_best V 0 syms (-1) r) + 1 < length syms"
  using bpe_best_bounds [of V 0 syms "-1" r] by auto

function bpe_merge :: "vocab \<Rightarrow> u8 list list \<Rightarrow> u8 list list" where
  "bpe_merge V syms =
     (let best_i = bpe_best V 0 syms (-1) INT32_MAX
      in if best_i < 0 then syms else bpe_merge V (bpe_join_at (nat best_i) syms))"
  by pat_completeness auto
termination
proof (relation "measure (\<lambda>(V, syms). length syms)", goal_cases)
  case (2 V syms best_i)
  then show ?case using bpe_best_range [of V syms INT32_MAX] by (simp add: bpe_join_at_def)
qed simp

declare bpe_merge.simps [simp del]

text \<open>A symbol the vocabulary does not have is looked up byte by byte; bytes it does not have are dropped.\<close>

definition bpe_emit_symbol :: "vocab \<Rightarrow> u8 list \<Rightarrow> int list" where
  "bpe_emit_symbol V s =
     (case vo_token_to_id V s of
        Some token \<Rightarrow> [token]
      | None \<Rightarrow> List.map_filter (\<lambda>c. vo_token_to_id V [c]) s)"

definition bpe_emit_piece :: "vocab \<Rightarrow> u8 list \<Rightarrow> int list" where
  "bpe_emit_piece V raw_piece =
     concat (map (bpe_emit_symbol V) (bpe_merge V (bpe_split (byte_encode raw_piece))))"

section \<open>The text of a token\<close>

definition vocab_token_is_literal_special :: "u8 list \<Rightarrow> bool" where
  "vocab_token_is_literal_special s =
     (\<not> length s < 3 \<and> list_ex (\<lambda>i. take 3 (drop i s) = [0xEF, 0xBD, 0x9C]) [0..<length s - 2])"

function bpe_decode_loop :: "u8 list \<Rightarrow> u8 list" where
  "bpe_decode_loop s =
     (if s = [] then []
      else let (cp, rest) = utf8_decode_one s
           in case gpt2_codepoint_to_byte cp of
                Some b \<Rightarrow> b # bpe_decode_loop rest
              | None \<Rightarrow> bpe_decode_loop rest)"
  by pat_completeness auto
termination
  by (relation "measure length") (auto, (metis snd_conv utf8_decode_one_shorter)+)

declare bpe_decode_loop.simps [simp del]

definition ds4_token_text :: "vocab \<Rightarrow> int \<Rightarrow> u8 list" where
  "ds4_token_text V token =
     (if token < 0 \<or> int (length (vo_token V)) \<le> token then []
      else let s = vo_token V ! nat token
           in if vocab_token_is_literal_special s then s else bpe_decode_loop s)"

section \<open>Decoding the byte alphabet\<close>

lemma gpt2_loops:
  "x \<le> unat b \<Longrightarrow> unat b < 256 \<Longrightarrow> \<not> gpt2_plain b \<Longrightarrow> unat n \<le> x \<Longrightarrow>
    256 + unat n \<le> unat (gpt2_encode_loop b n x) \<and> unat (gpt2_encode_loop b n x) < 512 \<and>
    gpt2_decode_loop (gpt2_encode_loop b n x) n x = Some (ucast b)"
proof (induction b n x rule: gpt2_encode_loop.induct)
  case (1 b n x)
  have x: "x < 256" using 1 by simp
  have plus: "unat (256 + n) = 256 + unat n" "unat (n + 1) = unat n + 1"
    using 1 by (simp_all add: unat_word_ariths)
  have of: "of_nat x = b \<longleftrightarrow> x = unat b" using x by (auto simp: word_unat_eq_iff unat_of_nat)
  show ?case
  proof (cases "gpt2_plain (of_nat x)")
    case True
    then have "Suc x \<le> unat b" using 1 of by (cases "x = unat b") auto
    then show ?thesis
      using "1.IH"(1) [OF x True] 1 True x
      by (simp add: gpt2_encode_loop.simps [of b n x] gpt2_decode_loop.simps [of _ n x])
  next
    case plain: False
    show ?thesis
    proof (cases "of_nat x = b")
      case True
      then have "gpt2_encode_loop b n x = 256 + n"
        unfolding gpt2_encode_loop.simps [of b n x] using plain x by simp
      moreover have "gpt2_decode_loop (256 + n) n x = Some (ucast b)"
        unfolding gpt2_decode_loop.simps [of _ n x] using plain x True by (simp add: word_unat_eq_iff unsigned_ucast_eq unat_of_nat)
      ultimately show ?thesis using plus 1 by simp
    next
      case False
      then have "Suc x \<le> unat b" using 1 of by auto
      then have IH: "257 + unat n \<le> unat (gpt2_encode_loop b (n + 1) (Suc x))"
          "unat (gpt2_encode_loop b (n + 1) (Suc x)) < 512"
          "gpt2_decode_loop (gpt2_encode_loop b (n + 1) (Suc x)) (n + 1) (Suc x) = Some (ucast b)"
        using "1.IH"(2) [OF x plain False] 1 plus by simp_all
      then have "gpt2_encode_loop b (n + 1) (Suc x) \<noteq> 256 + n" using plus by (auto simp: word_unat_eq_iff)
      then show ?thesis using IH plain False x
        by (simp add: gpt2_encode_loop.simps [of b n x] gpt2_decode_loop.simps [of _ n x])
    qed
  qed
qed

lemma u8_up_down: "ucast (ucast b :: u32) = (b :: u8)"
  by (rule bit_word_eqI) (simp add: bit_simps)

lemma gpt2_byte_codepoint:
  "gpt2_codepoint_to_byte (gpt2_byte_to_codepoint b) = Some b \<and> unat (gpt2_byte_to_codepoint b) < 512"
proof (cases "gpt2_plain (ucast b)")
  case True
  have "unat b < 256" using unsigned_less [of b] by simp
  then have "unat (ucast b :: u32) < 256" by (simp add: unat_ucast_up)
  then show ?thesis using True
    by (auto simp: gpt2_byte_to_codepoint_def gpt2_codepoint_to_byte_def gpt2_plain_def word_le_nat_alt u8_up_down)
next
  case False
  have "unat b < 256" using unsigned_less [of b] by simp
  then have "unat (ucast b :: u32) < 256" by (simp add: unat_ucast_up)
  from gpt2_loops [OF _ this False, of 0 0] False
  show ?thesis
    by (auto simp: gpt2_byte_to_codepoint_def gpt2_codepoint_to_byte_def word_le_nat_alt u8_up_down)
qed

text \<open>One encoded byte: what the decoder and the symbol splitter see of it.\<close>

definition bpe_byte :: "u8 \<Rightarrow> u8 list" where
  "bpe_byte b = bpe_utf8_put (gpt2_byte_to_codepoint b)"

lemma u32_small_list:
  assumes "list_all (\<lambda>i. P (of_nat i :: u32)) [0..<k]" and "unat d < k"
  shows "P d"
proof -
  have "P (of_nat (unat d))" using assms unfolding list_all_iff by (metis atLeast_upt lessThan_iff)
  then show ?thesis by simp
qed

lemma bpe_put_ascii:
  assumes "unat cp < 128"
  shows "bpe_utf8_put cp = [ucast cp]" "(ucast cp :: u8) < 0x80" "ucast (ucast cp :: u8) = cp"
proof -
  show "bpe_utf8_put cp = [ucast cp]" using assms by (simp add: bpe_utf8_put_def word_le_nat_alt)
  have u: "unat (ucast cp :: u8) = unat cp"
    using assms by (simp add: unsigned_ucast_eq take_bit_nat_eq_self)
  then show "(ucast cp :: u8) < 0x80" "ucast (ucast cp :: u8) = cp"
    using assms by (simp_all add: word_less_nat_alt word_unat_eq_iff unat_ucast_up)
qed

lemma bpe_put_two:
  assumes "128 \<le> unat cp" and "unat cp < 512"
  obtains a b where "bpe_utf8_put cp = [a, b]" and "0x80 \<le> a" and "a AND 0xE0 = 0xC0" and "a \<noteq> 0xEF" and "b \<noteq> 0xEF"
    and "push_bit 6 (ucast (a AND 0x1F)) OR ucast (b AND 0x3F) = cp"
proof -
  let ?a = "ucast (0xC0 OR drop_bit 6 cp) :: u8" and ?b = "ucast (0x80 OR (cp AND 0x3F)) :: u8"
  have low: "cp AND 0x3F = take_bit 6 cp" by (simp add: take_bit_eq_mask mask_eq_exp_minus_1)
  have d: "unat (drop_bit 6 cp) < 8" using assms by (simp add: drop_bit_eq_div unat_div)
  have l: "unat (cp AND 0x3F) < 64" using take_bit_nat_less_exp [of 6 "unat cp"] by (simp add: low unsigned_take_bit_eq)
  have "list_all (\<lambda>i. let a = ucast (0xC0 OR (of_nat i :: u32)) :: u8 in
      0x80 \<le> a \<and> a AND 0xE0 = 0xC0 \<and> a \<noteq> 0xEF \<and> ucast (a AND 0x1F) = (of_nat i :: u32)) [0..<8]" by code_simp
  from u32_small_list [OF this d]
  have a: "0x80 \<le> ?a" "?a AND 0xE0 = 0xC0" "?a \<noteq> 0xEF" "ucast (?a AND 0x1F) = drop_bit 6 cp"
    by (simp_all add: Let_def)
  have "list_all (\<lambda>i. let b = ucast (0x80 OR (of_nat i :: u32)) :: u8 in
      b \<noteq> 0xEF \<and> ucast (b AND 0x3F) = (of_nat i :: u32)) [0..<64]" by code_simp
  from u32_small_list [OF this l]
  have b: "?b \<noteq> 0xEF" "ucast (?b AND 0x3F) = cp AND 0x3F" by (simp_all add: Let_def)
  have "push_bit 6 (drop_bit 6 cp) OR take_bit 6 cp = cp"
    by (rule bit_word_eqI) (auto simp: bit_simps)
  then have "push_bit 6 (ucast (?a AND 0x1F)) OR ucast (?b AND 0x3F) = cp"
    unfolding a(4) b(2) by (simp only: low)
  moreover have "bpe_utf8_put cp = [?a, ?b]"
    using assms by (simp add: bpe_utf8_put_def word_le_nat_alt)
  ultimately show thesis using that a b by blast
qed

lemma bpe_put_small:
  assumes "unat cp < 512"
  shows "bpe_utf8_put cp \<noteq> []" and "utf8_len_from_first_byte (bpe_utf8_put cp ! 0) = length (bpe_utf8_put cp)"
    and "0xEF \<notin> set (bpe_utf8_put cp)" and "utf8_decode_one (bpe_utf8_put cp @ rest) = (cp, rest)"
proof -
  have "bpe_utf8_put cp \<noteq> [] \<and> utf8_len_from_first_byte (bpe_utf8_put cp ! 0) = length (bpe_utf8_put cp) \<and>
      0xEF \<notin> set (bpe_utf8_put cp) \<and> utf8_decode_one (bpe_utf8_put cp @ rest) = (cp, rest)"
  proof (cases "unat cp < 128")
    case True
    note bpe_put_ascii [OF True]
    then show ?thesis by (auto simp: utf8_len_from_first_byte_def utf8_decode_one_def Let_def)
  next
    case False
    then obtain a b where ab: "bpe_utf8_put cp = [a, b]" "0x80 \<le> a" "a AND 0xE0 = 0xC0" "a \<noteq> 0xEF" "b \<noteq> 0xEF"
        "push_bit 6 (ucast (a AND 0x1F)) OR ucast (b AND 0x3F) = cp"
      using assms by (elim bpe_put_two [rotated]) auto
    then show ?thesis by (simp add: utf8_len_from_first_byte_def utf8_decode_one_def Let_def not_less [symmetric])
  qed
  then show "bpe_utf8_put cp \<noteq> []" "utf8_len_from_first_byte (bpe_utf8_put cp ! 0) = length (bpe_utf8_put cp)"
    "0xEF \<notin> set (bpe_utf8_put cp)" "utf8_decode_one (bpe_utf8_put cp @ rest) = (cp, rest)" by blast+
qed

lemma byte_encode_simps [simp]:
  "byte_encode [] = []" "byte_encode (b # bs) = bpe_byte b @ byte_encode bs"
  "byte_encode (as @ bs) = byte_encode as @ byte_encode bs"
  by (simp_all add: byte_encode_def bpe_byte_def)

lemma bpe_byte_facts:
  "bpe_byte b \<noteq> []" "utf8_len_from_first_byte (bpe_byte b ! 0) = length (bpe_byte b)" "0xEF \<notin> set (bpe_byte b)"
  "utf8_decode_one (bpe_byte b @ rest) = (gpt2_byte_to_codepoint b, rest)"
  unfolding bpe_byte_def using bpe_put_small gpt2_byte_codepoint [of b] by blast+

lemma bpe_split_encode: "bpe_split (byte_encode bs) = map bpe_byte bs"
proof (induction bs)
  case (Cons b bs)
  have "(bpe_byte b @ byte_encode bs) ! 0 = bpe_byte b ! 0" using bpe_byte_facts(1) by (simp add: nth_append)
  then show ?case
    using Cons bpe_byte_facts(1,2) [of b] by (subst bpe_split.simps) (simp add: Let_def)
qed (simp add: bpe_split.simps)

lemma bpe_decode_encode: "bpe_decode_loop (byte_encode bs) = bs"
proof (induction bs)
  case (Cons b bs)
  then show ?case
    using bpe_byte_facts(1) [of b] gpt2_byte_codepoint [of b]
    by (subst bpe_decode_loop.simps) (simp add: bpe_byte_facts(4))
qed (simp add: bpe_decode_loop.simps)

lemma bpe_encode_not_special: "\<not> vocab_token_is_literal_special (byte_encode bs)"
proof
  assume "vocab_token_is_literal_special (byte_encode bs)"
  then obtain i where "take 3 (drop i (byte_encode bs)) = [0xEF, 0xBD, 0x9C]"
    by (auto simp: vocab_token_is_literal_special_def list_ex_iff)
  then have "0xEF \<in> set (take 3 (drop i (byte_encode bs)))" by simp
  then have "0xEF \<in> set (byte_encode bs)" by (meson in_set_dropD in_set_takeD)
  moreover have "0xEF \<notin> set (byte_encode bs)" using bpe_byte_facts(3) by (induction bs) auto
  ultimately show False by blast
qed

section \<open>Pieces come back\<close>

text \<open>
  A vocabulary is well formed when the table gives a token its own index, every byte symbol is a
  token, and so is the result of every merge.
\<close>

definition vocab_ok :: "vocab \<Rightarrow> bool" where
  "vocab_ok V \<longleftrightarrow>
     (\<forall>s t. vo_token_to_id V s = Some t \<longrightarrow> 0 \<le> t \<and> t < int (length (vo_token V)) \<and> vo_token V ! nat t = s) \<and>
     (\<forall>b. vo_token_to_id V (bpe_byte b) \<noteq> None) \<and>
     (\<forall>a b. 0 \<le> bpe_rank V a b \<longrightarrow> vo_token_to_id V (a @ b) \<noteq> None)"

lemma bpe_best_rank:
  "0 \<le> i \<Longrightarrow> bpe_best V i syms best_i best_rank \<noteq> best_i \<Longrightarrow>
    let k = nat (bpe_best V i syms best_i best_rank - i) in 0 \<le> bpe_rank V (syms ! k) (syms ! (k + 1))"
proof (induction V i syms best_i best_rank rule: bpe_best.induct)
  case (1 V i a b syms best_i best_rank)
  have shift: "nat (r - i) = Suc (nat (r - (i + 1)))" if "i + 1 \<le> r" for r using that by linarith
  define r' where "r' = (if 0 \<le> bpe_rank V a b \<and> bpe_rank V a b < best_rank
      then bpe_best V (i + 1) (b # syms) i (bpe_rank V a b) else bpe_best V (i + 1) (b # syms) best_i best_rank)"
  have r': "bpe_best V i (a # b # syms) best_i best_rank = r'" by (simp add: r'_def Let_def)
  show ?case
  proof (cases "0 \<le> bpe_rank V a b \<and> bpe_rank V a b < best_rank")
    case True
    show ?thesis
    proof (cases "r' = i")
      case True
      then show ?thesis using \<open>0 \<le> bpe_rank V a b \<and> bpe_rank V a b < best_rank\<close> r' by (simp add: Let_def)
    next
      case False
      have "bpe_best V (i + 1) (b # syms) i (bpe_rank V a b) = r'" using True by (simp add: r'_def)
      moreover have "i + 1 \<le> r'" using calculation bpe_best_bounds [of V "i + 1" "b # syms" i "bpe_rank V a b"] False by simp
      ultimately show ?thesis using "1.IH"(1) [OF refl True] "1.prems" False r' shift by (simp add: Let_def)
    qed
  next
    case False
    then have "bpe_best V (i + 1) (b # syms) best_i best_rank = r'" by (simp only: r'_def if_False)
    moreover have "i + 1 \<le> r'"
      using calculation bpe_best_bounds [of V "i + 1" "b # syms" best_i best_rank] "1.prems" r' by simp
    ultimately show ?thesis using "1.IH"(2) [OF refl False] "1.prems" r' shift by (simp add: Let_def)
  qed
qed simp_all

lemma bpe_join_concat: "i + 1 < length xs \<Longrightarrow> concat (take i xs @ [xs ! i @ xs ! (i + 1)] @ drop (i + 2) xs) = concat xs"
proof -
  assume i: "i + 1 < length xs"
  have "xs = take i xs @ xs ! i # xs ! (i + 1) # drop (i + 2) xs"
    using i id_take_nth_drop [of i xs] Cons_nth_drop_Suc [of "Suc i" xs] by simp
  then have "concat xs = concat (take i xs @ xs ! i # xs ! (i + 1) # drop (i + 2) xs)" by (rule arg_cong)
  then show ?thesis by simp
qed

lemma bpe_merge_encoded:
  "vocab_ok V \<Longrightarrow> syms = map byte_encode bss \<Longrightarrow> list_all (\<lambda>s. vo_token_to_id V s \<noteq> None) syms \<Longrightarrow>
    \<exists>bss'. bpe_merge V syms = map byte_encode bss' \<and> concat bss' = concat bss \<and>
      list_all (\<lambda>s. vo_token_to_id V s \<noteq> None) (map byte_encode bss')"
proof (induction V syms arbitrary: bss rule: bpe_merge.induct)
  case (1 V syms)
  let ?best = "bpe_best V 0 syms (-1) INT32_MAX"
  show ?case
  proof (cases "?best < 0")
    case True
    then have "bpe_merge V syms = syms" by (simp add: bpe_merge.simps [of V syms] Let_def)
    then show ?thesis using "1.prems" by blast
  next
    case False
    define i where "i = nat ?best"
    have i: "i + 1 < length syms" unfolding i_def using False by (intro bpe_best_range) simp
    have "0 \<le> bpe_rank V (syms ! i) (syms ! (i + 1))"
      using bpe_best_rank [of 0 V syms "-1" INT32_MAX] False by (simp add: i_def Let_def)
    then have joined: "vo_token_to_id V (syms ! i @ syms ! (i + 1)) \<noteq> None"
      using "1.prems"(1) by (simp add: vocab_ok_def)
    define bss1 where "bss1 = take i bss @ [bss ! i @ bss ! (i + 1)] @ drop (i + 2) bss"
    have eq: "bpe_join_at i syms = map byte_encode bss1"
      using i "1.prems"(2) by (simp add: bpe_join_at_def bss1_def take_map drop_map)
    have dom: "list_all (\<lambda>s. vo_token_to_id V s \<noteq> None) (bpe_join_at i syms)"
      using "1.prems"(3) joined by (auto simp: bpe_join_at_def list_all_iff dest: in_set_takeD in_set_dropD)
    have "bpe_merge V syms = bpe_merge V (bpe_join_at i syms)"
      using False by (simp add: bpe_merge.simps [of V syms] Let_def i_def)
    moreover have "concat bss1 = concat bss" unfolding bss1_def
      using i "1.prems"(2) by (intro bpe_join_concat) simp
    ultimately show ?thesis using "1.IH" [OF refl False "1.prems"(1), of bss1] eq dom by (simp add: i_def)
  qed
qed

lemma bpe_emit_text:
  assumes V: "vocab_ok V" and "vo_token_to_id V (byte_encode bs) \<noteq> None"
  shows "concat (map (ds4_token_text V) (bpe_emit_symbol V (byte_encode bs))) = bs"
proof -
  obtain t where t: "vo_token_to_id V (byte_encode bs) = Some t" using assms(2) by blast
  then have "0 \<le> t" "t < int (length (vo_token V))" "vo_token V ! nat t = byte_encode bs"
    using V by (simp_all add: vocab_ok_def)
  then show ?thesis
    by (simp add: bpe_emit_symbol_def t ds4_token_text_def bpe_encode_not_special bpe_decode_encode)
qed

lemma bpe_piece_text:
  assumes V: "vocab_ok V"
  shows "concat (map (ds4_token_text V) (bpe_emit_piece V piece)) = piece"
proof -
  have "map bpe_byte piece = map byte_encode (map (\<lambda>b. [b]) piece)" by (simp add: byte_encode_def bpe_byte_def)
  moreover have "list_all (\<lambda>s. vo_token_to_id V s \<noteq> None) (map bpe_byte piece)"
    using V by (simp add: vocab_ok_def list_all_iff)
  ultimately obtain bss where bss: "bpe_merge V (map bpe_byte piece) = map byte_encode bss"
    "concat bss = concat (map (\<lambda>b. [b]) piece)"
    "list_all (\<lambda>s. vo_token_to_id V s \<noteq> None) (map byte_encode bss)"
    using bpe_merge_encoded [OF V] by metis
  have "concat (map (ds4_token_text V) (concat (map (\<lambda>bs. bpe_emit_symbol V (byte_encode bs)) bss))) = concat bss"
    using bss(3) by (induction bss) (simp_all add: bpe_emit_text [OF V])
  then show ?thesis using bss by (simp add: bpe_emit_piece_def bpe_split_encode comp_def)
qed

end
