(* ===== verification/Pretok.thy ===== *)
theory Pretok
  imports Bpe
begin

text \<open>
  The three pre-tokenizers of ds4.c: GLM (\<open>bpe_tokenize_text_glm4\<close>), Qwen (\<open>bpe_tokenize_text_qwen35\<close>)
  and DeepSeek (\<open>bpe_tokenize_text\<close> with its three isolating splits). Each gives the list of the
  pieces that go to \<open>bpe_emit_piece\<close>. The generated Unicode range tables are an argument.
\<close>

section \<open>Characters\<close>

text \<open>The code point at a position and the position after it; a cut-off sequence counts as one byte.\<close>

definition utf8_peek_one :: "u8 list \<Rightarrow> nat \<Rightarrow> nat \<Rightarrow> u32 \<times> nat" where
  "utf8_peek_one s len pos =
     (let c0 = s ! pos; n = utf8_len_from_first_byte c0; n = (if len < pos + n then 1 else n)
      in (if n = 1 then ucast c0
          else if n = 2 then push_bit 6 (ucast (c0 AND 0x1F)) OR ucast (s ! (pos + 1) AND 0x3F)
          else if n = 3 then
            push_bit 12 (ucast (c0 AND 0x0F)) OR push_bit 6 (ucast (s ! (pos + 1) AND 0x3F)) OR
              ucast (s ! (pos + 2) AND 0x3F)
          else
            push_bit 18 (ucast (c0 AND 0x07)) OR push_bit 12 (ucast (s ! (pos + 1) AND 0x3F)) OR
              push_bit 6 (ucast (s ! (pos + 2) AND 0x3F)) OR ucast (s ! (pos + 3) AND 0x3F),
          pos + n))"

definition next_utf8_char :: "u8 list \<Rightarrow> nat \<Rightarrow> nat \<Rightarrow> nat" where
  "next_utf8_char s len pos =
     (let n = utf8_len_from_first_byte (s ! pos); n = (if len < pos + n then 1 else n) in pos + n)"

lemma snd_utf8_peek_one [simp]: "snd (utf8_peek_one s len pos) = next_utf8_char s len pos"
  by (simp add: utf8_peek_one_def next_utf8_char_def Let_def)

lemma next_utf8_char_bounds: "pos < next_utf8_char s len pos" "pos < len \<Longrightarrow> next_utf8_char s len pos \<le> len"
  by (auto simp: next_utf8_char_def utf8_len_from_first_byte_def Let_def)

definition ascii_alpha :: "u8 \<Rightarrow> bool" where
  "ascii_alpha c \<longleftrightarrow> 0x41 \<le> c \<and> c \<le> 0x5A \<or> 0x61 \<le> c \<and> c \<le> 0x7A"

definition ascii_digit :: "u8 \<Rightarrow> bool" where "ascii_digit c \<longleftrightarrow> 0x30 \<le> c \<and> c \<le> 0x39"

definition ascii_space :: "u8 \<Rightarrow> bool" where
  "ascii_space c \<longleftrightarrow> c = 0x20 \<or> c = 9 \<or> c = 10 \<or> c = 13 \<or> c = 11 \<or> c = 12"

definition ascii_newline :: "u8 \<Rightarrow> bool" where "ascii_newline c \<longleftrightarrow> c = 10 \<or> c = 13"

definition joyai_ascii_punct_symbol :: "u8 \<Rightarrow> bool" where
  "joyai_ascii_punct_symbol c \<longleftrightarrow>
     0x21 \<le> c \<and> c \<le> 0x2F \<or> 0x3A \<le> c \<and> c \<le> 0x40 \<or> 0x5B \<le> c \<and> c \<le> 0x60 \<or> 0x7B \<le> c \<and> c \<le> 0x7E"

definition utf8_is_cjk_hira_kata :: "u32 \<Rightarrow> bool" where
  "utf8_is_cjk_hira_kata cp \<longleftrightarrow>
     0x4E00 \<le> cp \<and> cp \<le> 0x9FA5 \<or> 0x3040 \<le> cp \<and> cp \<le> 0x309F \<or> 0x30A0 \<le> cp \<and> cp \<le> 0x30FF"

definition ascii_tolower_cp :: "u32 \<Rightarrow> u32" where
  "ascii_tolower_cp cp = (if 0x41 \<le> cp \<and> cp \<le> 0x5A then cp + 0x20 else cp)"

definition is_cr_lf :: "u32 \<Rightarrow> bool" where "is_cr_lf cp \<longleftrightarrow> cp = 13 \<or> cp = 10"

section \<open>Runs\<close>

text \<open>\<open>while (pos < end && ok) pos = next\<close>.\<close>

function char_run :: "u8 list \<Rightarrow> nat \<Rightarrow> (nat \<Rightarrow> bool) \<Rightarrow> nat \<Rightarrow> nat" where
  "char_run s end ok pos =
     (if pos < end \<and> ok pos then char_run s end ok (next_utf8_char s end pos) else pos)"
  by pat_completeness auto
termination
proof (relation "measure (\<lambda>(s, end, ok, pos). end - pos)", goal_cases)
  case (2 s end_pos ok pos)
  then show ?case using next_utf8_char_bounds(1) [of pos s end_pos] by (auto intro: diff_less_mono2)
qed simp

declare char_run.simps [simp del]

text \<open>
  The scan of a run of blanks: where it ends, the end of its last newline (0 for none), the start of its
  last blank, and how many there are.
\<close>

function blank_scan ::
  "u8 list \<Rightarrow> nat \<Rightarrow> (nat \<Rightarrow> bool) \<Rightarrow> nat \<Rightarrow> nat \<Rightarrow> nat \<Rightarrow> nat \<Rightarrow> nat \<times> nat \<times> nat \<times> nat" where
  "blank_scan s end blank p newline_end last_ws count =
     (if p < end \<and> blank p
      then blank_scan s end blank (next_utf8_char s end p)
             (if is_cr_lf (fst (utf8_peek_one s end p)) then next_utf8_char s end p else newline_end) p (count + 1)
      else (p, newline_end, last_ws, count))"
  by pat_completeness auto
termination
proof (relation "measure (\<lambda>(s, end, blank, p, x). end - p)", goal_cases)
  case (2 s end_pos ok pos)
  then show ?case using next_utf8_char_bounds(1) [of pos s end_pos] by (auto intro: diff_less_mono2)
qed simp

declare blank_scan.simps [simp del]

text \<open>Up to the last newline; else all but the last_ws blank, which a word takes; else the whole run.\<close>

definition blank_end :: "u8 list \<Rightarrow> nat \<Rightarrow> (nat \<Rightarrow> bool) \<Rightarrow> nat \<Rightarrow> nat" where
  "blank_end s end blank pos =
     (let (p, newline_end, last_ws, count) = blank_scan s end blank pos 0 pos 0
      in if newline_end \<noteq> 0 then newline_end else if 1 < count \<and> p < end then last_ws else p)"

section \<open>GLM\<close>

definition glm4_unicode_whitespace :: "u32 \<Rightarrow> bool" where
  "glm4_unicode_whitespace cp =
     (if cp < 128 then ascii_space (ucast cp)
      else list_ex (\<lambda>(lo, hi). lo \<le> cp \<and> cp \<le> hi)
         [(0x0085, 0x0085), (0x00A0, 0x00A0), (0x1680, 0x1680), (0x2000, 0x200A), (0x2028, 0x2028), (0x2029,
          0x2029), (0x202F, 0x202F), (0x205F, 0x205F), (0x3000, 0x3000)])"

definition glm4_unicode_number :: "u32 \<Rightarrow> bool" where
  "glm4_unicode_number cp =
     (if cp < 128 then ascii_digit (ucast cp)
      else list_ex (\<lambda>(lo, hi). lo \<le> cp \<and> cp \<le> hi)
         [(0x0660, 0x0669), (0x06F0, 0x06F9), (0x07C0, 0x07C9), (0x0966, 0x096F), (0x09E6, 0x09EF), (0x0A66,
          0x0A6F), (0x0AE6, 0x0AEF), (0x0B66, 0x0B6F), (0x0BE6, 0x0BEF), (0x0C66, 0x0C6F), (0x0CE6, 0x0CEF),
          (0x0D66, 0x0D6F), (0x0DE6, 0x0DEF), (0x0E50, 0x0E59), (0x0ED0, 0x0ED9), (0x0F20, 0x0F29), (0x1040,
          0x1049), (0x1090, 0x1099), (0x17E0, 0x17E9), (0x1810, 0x1819), (0xFF10, 0xFF19)])"

definition glm4_unicode_punct_symbol :: "u32 \<Rightarrow> bool" where
  "glm4_unicode_punct_symbol cp =
     (if cp < 128 then joyai_ascii_punct_symbol (ucast cp)
      else list_ex (\<lambda>(lo, hi). lo \<le> cp \<and> cp \<le> hi)
         [(0x00A1, 0x00A9), (0x00AB, 0x00AC), (0x00AE, 0x00B1), (0x00B4, 0x00B4), (0x00B6, 0x00B8), (0x00BB,
          0x00BB), (0x00BF, 0x00BF), (0x00D7, 0x00D7), (0x00F7, 0x00F7), (0x02C2, 0x02DF), (0x02E5, 0x02EB),
          (0x02ED, 0x02FF), (0x0375, 0x037E), (0x0384, 0x0385), (0x0387, 0x0387), (0x055A, 0x055F), (0x0589,
          0x058A), (0x05BE, 0x05C0), (0x05C3, 0x05C3), (0x05C6, 0x05C7), (0x0609, 0x060A), (0x060C, 0x060D),
          (0x061B, 0x061B), (0x061E, 0x061F), (0x066A, 0x066A), (0x066D, 0x066D), (0x06D4, 0x06D4), (0x2000,
          0x206F), (0x20A0, 0x20CF), (0x2100, 0x214F), (0x2190, 0x23FF), (0x2460, 0x24FF), (0x2500, 0x2775),
          (0x2794, 0x2BFF), (0x2E00, 0x2E7F), (0x3000, 0x303F), (0xFD3E, 0xFD3F), (0xFE10, 0xFE6F), (0xFF01,
          0xFF0F), (0xFF1A, 0xFF20), (0xFF3B, 0xFF40), (0xFF5B, 0xFF65), (0x1F000, 0x1FAFF)])"

record glm4_char_info =
  gi_cp :: u32
  gi_next :: nat
  gi_valid :: bool
  gi_is_letter :: bool
  gi_is_number :: bool
  gi_is_whitespace :: bool

definition glm4_char_at :: "u8 list \<Rightarrow> nat \<Rightarrow> nat \<Rightarrow> glm4_char_info" where
  "glm4_char_at s len pos =
     (if len \<le> pos
      then \<lparr>gi_cp = 0, gi_next = 0, gi_valid = False, gi_is_letter = False, gi_is_number = False, gi_is_whitespace = False\<rparr>
      else let (cp, nxt) = utf8_peek_one s len pos;
               ws = glm4_unicode_whitespace cp; num = glm4_unicode_number cp
           in \<lparr>gi_cp = cp, gi_next = nxt, gi_valid = True,
               gi_is_letter = (if cp < 128 then ascii_alpha (ucast cp)
                               else \<not> ws \<and> \<not> num \<and> \<not> glm4_unicode_punct_symbol cp),
               gi_is_number = num, gi_is_whitespace = ws\<rparr>)"

text \<open>The contractions \<open>'s 't 'm 'd 're 've 'll\<close> after an apostrophe: where the piece ends.\<close>

definition contraction_end :: "u32 \<Rightarrow> nat \<Rightarrow> bool \<Rightarrow> nat \<Rightarrow> u32 \<Rightarrow> nat \<Rightarrow> nat option" where
  "contraction_end cp1 next1 valid1 len cp2 next2 =
     (let n1 = ascii_tolower_cp cp1; n2 = ascii_tolower_cp cp2
      in if n1 = 0x73 \<or> n1 = 0x74 \<or> n1 = 0x6D \<or> n1 = 0x64 then Some next1
         else if valid1 \<and> next1 < len \<and>
                 (n1 = 0x72 \<and> n2 = 0x65 \<or> n1 = 0x76 \<and> n2 = 0x65 \<or> n1 = 0x6C \<and> n2 = 0x6C) then Some next2
         else None)"

text \<open>At most three digits.\<close>

fun glm4_digits :: "nat \<Rightarrow> u8 list \<Rightarrow> nat \<Rightarrow> nat \<Rightarrow> nat" where
  "glm4_digits 0 s len pos = pos"
| "glm4_digits (Suc k) s len pos =
     (if pos < len \<and> gi_is_number (glm4_char_at s len pos)
      then glm4_digits k s len (gi_next (glm4_char_at s len pos)) else pos)"

definition glm4_other :: "glm4_char_info \<Rightarrow> bool" where
  "glm4_other c \<longleftrightarrow> gi_valid c \<and> \<not> gi_is_whitespace c \<and> \<not> gi_is_letter c \<and> \<not> gi_is_number c"

text \<open>One round of the loop: where the piece that starts at \<open>pos\<close> ends.\<close>

definition glm4_piece_end :: "u8 list \<Rightarrow> nat \<Rightarrow> nat \<Rightarrow> nat" where
  "glm4_piece_end s len pos =
     (let at = glm4_char_at s len; cur = at pos; nxt = at (gi_next cur); nxt2 = at (gi_next nxt)
      in case (if gi_cp cur = 0x27 \<and> gi_next cur < len
               then contraction_end (gi_cp nxt) (gi_next nxt) (gi_valid nxt) len (gi_cp nxt2) (gi_next nxt2)
               else None) of
           Some e \<Rightarrow> e
         | None \<Rightarrow>
             if \<not> (is_cr_lf (gi_cp cur) \<or> gi_is_number cur) \<and> (gi_is_letter cur \<or> gi_is_letter nxt)
             then char_run s len (\<lambda>p. gi_valid (at p) \<and> gi_is_letter (at p)) (gi_next cur)
             else if gi_is_number cur then glm4_digits 3 s len pos
             else
               let punct_pos = (if gi_cp cur = 0x20 then gi_next cur else pos)
               in if glm4_other (at punct_pos)
                  then char_run s len (\<lambda>p. gi_valid (at p) \<and> is_cr_lf (gi_cp (at p)))
                         (char_run s len (\<lambda>p. glm4_other (at p)) punct_pos)
                  else if gi_is_whitespace cur
                  then blank_end s len (\<lambda>p. gi_valid (at p) \<and> gi_is_whitespace (at p)) pos
                  else if gi_next cur = pos then next_utf8_char s len pos else gi_next cur)"

definition text_slice :: "u8 list \<Rightarrow> nat \<Rightarrow> nat \<Rightarrow> u8 list" where
  "text_slice s a b = take (b - a) (drop a s)"

section \<open>Where runs end\<close>

lemma char_run_bounds:
  "pos \<le> char_run s end ok pos \<and> (pos \<le> end \<longrightarrow> char_run s end ok pos \<le> end)"
proof (induction s "end" ok pos rule: char_run.induct)
  case (1 s "end" ok pos)
  then show ?case
    using next_utf8_char_bounds [where pos = pos and s = s and len = "end"] by (subst (1 2) char_run.simps) (fastforce split: if_splits)
qed

lemma char_run_start: "ok pos \<Longrightarrow> pos < end \<Longrightarrow> pos < char_run s end ok pos"
  using next_utf8_char_bounds(1) [of pos s "end"] char_run_bounds [of "next_utf8_char s end pos" s "end" ok]
  by (subst char_run.simps) (simp add: less_le_trans)

lemma blank_scan_bounds:
  assumes "blank_scan s end blank p nl l c = (p', nl', l', c')" and "start < p \<or> p = start \<and> c = 0"
    and "p \<le> end" and "nl = 0 \<or> start < nl \<and> nl \<le> p" and "c \<noteq> 0 \<longrightarrow> start \<le> l \<and> l < p" and "1 < c \<longrightarrow> start < l"
  shows "p \<le> p' \<and> p' \<le> end \<and> (nl' = 0 \<or> start < nl' \<and> nl' \<le> p') \<and> (1 < c' \<longrightarrow> start < l' \<and> l' < p')"
  using assms
proof (induction s "end" blank p nl l c rule: blank_scan.induct)
  case (1 s "end" blank p nl l c)
  show ?case
  proof (cases "p < end \<and> blank p")
    case True
    note next_utf8_char_bounds [where pos = p and s = s and len = "end"]
    then show ?thesis
      using "1.IH" [OF True] "1.prems" True by (subst (asm) blank_scan.simps) (auto split: if_splits)
  next
    case False
    then show ?thesis using "1.prems" by (subst (asm) blank_scan.simps) auto
  qed
qed

lemma blank_end_bounds:
  assumes "pos < end" and "blank pos"
  shows "pos < blank_end s end blank pos \<and> blank_end s end blank pos \<le> end"
proof -
  obtain p nl l c where scan: "blank_scan s end blank pos 0 pos 0 = (p, nl, l, c)" by (metis prod_cases4)
  have step: "pos < next_utf8_char s end pos" "next_utf8_char s end pos \<le> end"
    using assms(1) next_utf8_char_bounds by blast+
  have "blank_scan s end blank (next_utf8_char s end pos)
      (if is_cr_lf (fst (utf8_peek_one s end pos)) then next_utf8_char s end pos else 0) pos 1 = (p, nl, l, c)"
    using scan assms by (subst (asm) blank_scan.simps) simp
  from blank_scan_bounds [OF this, of pos] step
  have "next_utf8_char s end pos \<le> p \<and> p \<le> end \<and> (nl = 0 \<or> pos < nl \<and> nl \<le> p) \<and> (1 < c \<longrightarrow> pos < l \<and> l < p)"
    by (simp split: if_splits)
  then show ?thesis using step by (auto simp: blank_end_def scan)
qed

lemma glm4_char_at_next: "pos < len \<Longrightarrow> gi_next (glm4_char_at s len pos) = next_utf8_char s len pos"
  by (simp add: glm4_char_at_def Let_def case_prod_beta)

lemma glm4_char_at_valid: "gi_valid (glm4_char_at s len pos) \<longleftrightarrow> pos < len"
  by (simp add: glm4_char_at_def Let_def case_prod_beta)

lemma glm4_digits_bounds:
  "pos \<le> glm4_digits k s len pos \<and> (pos \<le> len \<longrightarrow> glm4_digits k s len pos \<le> len)"
proof (induction k s len pos rule: glm4_digits.induct)
  case (2 k s len pos)
  then show ?case
    using next_utf8_char_bounds [where pos = pos and s = s and len = len]
    by (fastforce simp: glm4_char_at_next)
qed simp

lemma glm4_digits_start:
  "pos < len \<Longrightarrow> gi_is_number (glm4_char_at s len pos) \<Longrightarrow> pos < glm4_digits (Suc k) s len pos"
  using next_utf8_char_bounds(1) [of pos s len] glm4_digits_bounds [of "next_utf8_char s len pos" k s len]
  by (simp add: glm4_char_at_next less_le_trans)

lemma contraction_end_cases:
  "contraction_end c1 n1 v1 len c2 n2 = Some e \<Longrightarrow> e = n1 \<or> v1 \<and> n1 < len \<and> e = n2"
  by (auto simp: contraction_end_def Let_def split: if_splits)

text \<open>Two runs, the second after the first, both behind the start.\<close>

lemma char_run_twice_bounds:
  assumes "pos \<le> p" and "p < end" and "ok p"
  shows "pos < char_run s end ok' (char_run s end ok p) \<and> char_run s end ok' (char_run s end ok p) \<le> end"
  using char_run_start [where ok = ok and pos = p, OF assms(3,2), of s] char_run_bounds [of p s "end" ok]
    char_run_bounds [of "char_run s end ok p" s "end" ok'] assms by linarith

text \<open>A piece ends behind its start and not behind the text.\<close>

definition piece_ok :: "nat \<Rightarrow> nat \<Rightarrow> nat \<Rightarrow> bool" where
  "piece_ok pos len e \<longleftrightarrow> pos < e \<and> e \<le> len"

lemma piece_ok_if: "(A \<Longrightarrow> piece_ok pos len x) \<Longrightarrow> (\<not> A \<Longrightarrow> piece_ok pos len y) \<Longrightarrow> piece_ok pos len (if A then x else y)"
  by simp

lemma glm4_piece_end_bounds:
  assumes "pos < len"
  shows "piece_ok pos len (glm4_piece_end s len pos)"
proof -
  let ?at = "glm4_char_at s len"
  let ?next = "next_utf8_char s len pos"
  have nxt: "gi_next (?at pos) = ?next" "pos < ?next" "?next \<le> len"
    using assms next_utf8_char_bounds [where pos = pos and s = s and len = len] by (simp_all add: glm4_char_at_next)
  define c where "c = (if gi_cp (?at pos) = 0x27 \<and> ?next < len
      then contraction_end (gi_cp (?at ?next)) (gi_next (?at ?next)) (gi_valid (?at ?next)) len
        (gi_cp (?at (gi_next (?at ?next)))) (gi_next (?at (gi_next (?at ?next)))) else None)"
  show ?thesis
  proof (cases c)
    case (Some e)
    then have "?next < len" "contraction_end (gi_cp (?at ?next)) (gi_next (?at ?next)) (gi_valid (?at ?next)) len
        (gi_cp (?at (gi_next (?at ?next)))) (gi_next (?at (gi_next (?at ?next)))) = Some e"
      by (auto simp: c_def split: if_splits)
    note e = contraction_end_cases [OF this(2)] this(1)
    have n1: "?next < gi_next (?at ?next)" "gi_next (?at ?next) \<le> len"
      using e(2) next_utf8_char_bounds [where pos = ?next and s = s and len = len] by (simp_all add: glm4_char_at_next)
    have "piece_ok pos len e"
    proof (cases "e = gi_next (?at ?next)")
      case True
      then show ?thesis using n1 nxt by (simp add: piece_ok_def)
    next
      case False
      then have "gi_next (?at ?next) < len" "e = gi_next (?at (gi_next (?at ?next)))" using e(1) by auto
      then show ?thesis
        using n1 nxt next_utf8_char_bounds [where pos = "gi_next (?at ?next)" and s = s and len = len]
          glm4_char_at_next [of "gi_next (?at ?next)" len s] by (simp add: piece_ok_def)
    qed
    then show ?thesis
      unfolding glm4_piece_end_def Let_def nxt(1)
      unfolding c_def [symmetric] Some by simp
  next
    case None
    have run: "piece_ok pos len (char_run s len ok ?next)" for ok
      using char_run_bounds [of ?next s len ok] nxt by (simp add: piece_ok_def)
    have digits: "piece_ok pos len (glm4_digits 3 s len pos)" if "gi_is_number (?at pos)"
      using glm4_digits_start [OF assms that, of 2] glm4_digits_bounds [of pos 3 s len] assms
      by (simp add: numeral_3_eq_3 piece_ok_def)
    have other: "piece_ok pos len (char_run s len ok' (char_run s len (\<lambda>p. glm4_other (?at p)) p))"
      if "glm4_other (?at p)" "pos \<le> p" for p ok'
      unfolding piece_ok_def using that by (intro char_run_twice_bounds) (auto simp: glm4_other_def glm4_char_at_valid)
    have blanks: "piece_ok pos len (blank_end s len (\<lambda>p. gi_valid (?at p) \<and> gi_is_whitespace (?at p)) pos)"
      if "gi_is_whitespace (?at pos)"
      unfolding piece_ok_def using that assms by (intro blank_end_bounds) (auto simp: glm4_char_at_valid)
    have one: "piece_ok pos len ?next" using nxt by (simp add: piece_ok_def)
    show ?thesis
      unfolding glm4_piece_end_def Let_def nxt(1)
      unfolding c_def [symmetric] None option.case
      using nxt(2) by (intro piece_ok_if run digits other blanks one) auto
  qed
qed

end
