(* ===== verification/Pretok_More.thy ===== *)
theory Pretok_More
  imports Pretok
begin

text \<open>
  The Qwen and DeepSeek pre-tokenizers of ds4.c, the loops that cut a text into pieces, and the proof
  that the pieces of every pre-tokenizer are the text.
\<close>

section \<open>Range tables\<close>

text \<open>The generated tables (ds4_qwen4_unicode.inc, ds4_deepseek_unicode.inc).\<close>

record unicode_tables =
  ut_letter :: "(u32 \<times> u32) list"
  ut_mark :: "(u32 \<times> u32) list"
  ut_number :: "(u32 \<times> u32) list"
  ut_space :: "(u32 \<times> u32) list"
  ut_deepseek :: "(u32 \<times> u32 \<times> u32) list"

function urange_search :: "(u32 \<times> u32) list \<Rightarrow> nat \<Rightarrow> nat \<Rightarrow> u32 \<Rightarrow> bool" where
  "urange_search r lo hi cp =
     (if lo < hi
      then let mid = (lo + hi) div 2
           in if cp < fst (r ! mid) then urange_search r lo mid cp
              else if snd (r ! mid) < cp then urange_search r (mid + 1) hi cp
              else True
      else False)"
  by pat_completeness auto
termination by (relation "measure (\<lambda>(r, lo, hi, cp). hi - lo)") auto

function uclass_search :: "(u32 \<times> u32 \<times> u32) list \<Rightarrow> nat \<Rightarrow> nat \<Rightarrow> u32 \<Rightarrow> u32" where
  "uclass_search r lo hi cp =
     (if lo < hi
      then let mid = (lo + hi) div 2
           in if cp < fst (r ! mid) then uclass_search r lo mid cp
              else if fst (snd (r ! mid)) < cp then uclass_search r (mid + 1) hi cp
              else snd (snd (r ! mid))
      else 0)"
  by pat_completeness auto
termination by (relation "measure (\<lambda>(r, lo, hi, cp). hi - lo)") auto

declare urange_search.simps [simp del] uclass_search.simps [simp del]

definition qwen4_urange_has :: "(u32 \<times> u32) list \<Rightarrow> u32 \<Rightarrow> bool" where
  "qwen4_urange_has r cp = urange_search r 0 (length r) cp"

definition deepseek_uclass :: "unicode_tables \<Rightarrow> u32 \<Rightarrow> u32" where
  "deepseek_uclass T cp = uclass_search (ut_deepseek T) 0 (length (ut_deepseek T)) cp"

section \<open>Qwen\<close>

record qwen4_char_info =
  qi_cp :: u32
  qi_next :: nat
  qi_valid :: bool
  qi_letter :: bool
  qi_mark :: bool
  qi_number :: bool
  qi_space :: bool

definition qwen4_char_at :: "unicode_tables \<Rightarrow> u8 list \<Rightarrow> nat \<Rightarrow> nat \<Rightarrow> qwen4_char_info" where
  "qwen4_char_at T s len pos =
     (if len \<le> pos
      then \<lparr>qi_cp = 0, qi_next = 0, qi_valid = False, qi_letter = False, qi_mark = False, qi_number = False,
            qi_space = False\<rparr>
      else let (cp, nxt) = utf8_peek_one s len pos
           in \<lparr>qi_cp = cp, qi_next = nxt, qi_valid = True, qi_letter = qwen4_urange_has (ut_letter T) cp,
               qi_mark = qwen4_urange_has (ut_mark T) cp, qi_number = qwen4_urange_has (ut_number T) cp,
               qi_space = qwen4_urange_has (ut_space T) cp\<rparr>)"

definition qwen4_other :: "qwen4_char_info \<Rightarrow> bool" where
  "qwen4_other c \<longleftrightarrow> qi_valid c \<and> \<not> qi_space c \<and> \<not> qi_letter c \<and> \<not> qi_mark c \<and> \<not> qi_number c"

text \<open>An optional other character, then letters and marks: where the run proper starts.\<close>

definition qwen4_word_start :: "qwen4_char_info \<Rightarrow> qwen4_char_info \<Rightarrow> nat option" where
  "qwen4_word_start cur n1 =
     (if qi_letter cur \<or> qi_mark cur then Some (qi_next cur)
      else if \<not> is_cr_lf (qi_cp cur) \<and> \<not> qi_number cur \<and> qi_valid n1 \<and> (qi_letter n1 \<or> qi_mark n1)
      then Some (qi_next n1) else None)"

definition qwen4_piece_end :: "unicode_tables \<Rightarrow> u8 list \<Rightarrow> nat \<Rightarrow> nat \<Rightarrow> nat" where
  "qwen4_piece_end T s len pos =
     (let at = qwen4_char_at T s len; cur = at pos; n1 = at (qi_next cur); n2 = at (qi_next n1)
      in case (if qi_cp cur = 0x27 \<and> qi_next cur < len
               then contraction_end (qi_cp n1) (qi_next n1) (qi_valid n1) len (qi_cp n2) (qi_next n2)
               else None) of
           Some e \<Rightarrow> e
         | None \<Rightarrow>
         (case qwen4_word_start cur n1 of
           Some run \<Rightarrow> char_run s len (\<lambda>p. qi_valid (at p) \<and> (qi_letter (at p) \<or> qi_mark (at p))) run
         | None \<Rightarrow>
             if qi_number cur then qi_next cur
             else
               let punct_pos = (if qi_cp cur = 0x20 then qi_next cur else pos)
               in if qwen4_other (at punct_pos)
                  then char_run s len (\<lambda>p. qi_valid (at p) \<and> is_cr_lf (qi_cp (at p)))
                         (char_run s len (\<lambda>p. qwen4_other (at p)) punct_pos)
                  else if qi_space cur then blank_end s len (\<lambda>p. qi_valid (at p) \<and> qi_space (at p)) pos
                  else if qi_next cur = pos then next_utf8_char s len pos else qi_next cur))"

section \<open>DeepSeek\<close>

definition UCLASS_L :: u32 where "UCLASS_L = 1"
definition UCLASS_M :: u32 where "UCLASS_M = 2"
definition UCLASS_N :: u32 where "UCLASS_N = 4"
definition UCLASS_P :: u32 where "UCLASS_P = 8"
definition UCLASS_S :: u32 where "UCLASS_S = 16"
definition UCLASS_WS :: u32 where "UCLASS_WS = 32"

record deepseek_char =
  dc_cp :: u32
  dc_cls :: u32
  dc_next :: nat

definition deepseek_char_at :: "unicode_tables \<Rightarrow> u8 list \<Rightarrow> nat \<Rightarrow> nat \<Rightarrow> deepseek_char" where
  "deepseek_char_at T s end pos =
     (let (cp, nxt) = utf8_peek_one s end pos
      in \<lparr>dc_cp = cp, dc_cls = deepseek_uclass T cp, dc_next = nxt\<rparr>)"

definition dc_in :: "deepseek_char \<Rightarrow> u32 \<Rightarrow> bool" where "dc_in c classes \<longleftrightarrow> dc_cls c AND classes \<noteq> 0"

definition deepseek_run :: "unicode_tables \<Rightarrow> u8 list \<Rightarrow> nat \<Rightarrow> nat \<Rightarrow> u32 \<Rightarrow> nat" where
  "deepseek_run T s pos end classes = char_run s end (\<lambda>p. dc_in (deepseek_char_at T s end p) classes) pos"

text \<open>Runs of single bytes.\<close>

function byte_run :: "u8 list \<Rightarrow> nat \<Rightarrow> (u8 \<Rightarrow> bool) \<Rightarrow> nat \<Rightarrow> nat" where
  "byte_run s end ok pos = (if pos < end \<and> ok (s ! pos) then byte_run s end ok (pos + 1) else pos)"
  by pat_completeness auto
termination by (relation "measure (\<lambda>(s, end, ok, pos). end - pos)") auto

declare byte_run.simps [simp del]

definition deepseek_run_newlines :: "u8 list \<Rightarrow> nat \<Rightarrow> nat \<Rightarrow> nat" where
  "deepseek_run_newlines s pos end = byte_run s end ascii_newline pos"

definition deepseek_match :: "unicode_tables \<Rightarrow> u8 list \<Rightarrow> nat \<Rightarrow> nat \<Rightarrow> nat" where
  "deepseek_match T s pos end =
     (let LM = UCLASS_L OR UCLASS_M; PS = UCLASS_P OR UCLASS_S;
          c = deepseek_char_at T s end pos;
          more = (dc_next c < end);
          n = (if more then deepseek_char_at T s end (dc_next c) else \<lparr>dc_cp = 0, dc_cls = 0, dc_next = 0\<rparr>)
      in if dc_cp c < 128 \<and> joyai_ascii_punct_symbol (ucast (dc_cp c)) \<and> more \<and>
            dc_cp n < 128 \<and> ascii_alpha (ucast (dc_cp n))
         then byte_run s end ascii_alpha (dc_next n)
         else if \<not> is_cr_lf (dc_cp c) \<and> \<not> dc_in c (UCLASS_L OR PS) \<and> more \<and> dc_in n LM
         then deepseek_run T s (dc_next n) end LM
         else if dc_in c LM then deepseek_run T s (dc_next c) end LM
         else if dc_cp c = 0x20 \<and> more \<and> dc_in n PS
         then deepseek_run_newlines s (deepseek_run T s (dc_next n) end PS) end
         else if dc_in c PS then deepseek_run_newlines s (deepseek_run T s (dc_next c) end PS) end
         else if \<not> dc_in c UCLASS_WS then pos
         else blank_end s end (\<lambda>p. dc_in (deepseek_char_at T s end p) UCLASS_WS) pos)"

section \<open>Pieces end behind their start\<close>

lemma qwen4_char_at_next: "pos < len \<Longrightarrow> qi_next (qwen4_char_at T s len pos) = next_utf8_char s len pos"
  by (simp add: qwen4_char_at_def Let_def case_prod_beta)

lemma qwen4_char_at_valid: "qi_valid (qwen4_char_at T s len pos) \<longleftrightarrow> pos < len"
  by (simp add: qwen4_char_at_def Let_def case_prod_beta)

lemma qwen4_piece_end_bounds:
  assumes "pos < len"
  shows "piece_ok pos len (qwen4_piece_end T s len pos)"
proof -
  let ?at = "qwen4_char_at T s len"
  let ?next = "next_utf8_char s len pos"
  let ?next1 = "qi_next (?at ?next)"
  have nxt: "qi_next (?at pos) = ?next" "pos < ?next" "?next \<le> len"
    using assms next_utf8_char_bounds [where pos = pos and s = s and len = len] by (simp_all add: qwen4_char_at_next)
  have n1: "?next < ?next1" "?next1 \<le> len" if "?next < len"
    using that next_utf8_char_bounds [where pos = ?next and s = s and len = len] by (simp_all add: qwen4_char_at_next)
  have n2: "?next1 < qi_next (?at ?next1)" "qi_next (?at ?next1) \<le> len" if "?next1 < len"
    using that next_utf8_char_bounds [where pos = ?next1 and s = s and len = len] by (simp_all add: qwen4_char_at_next)
  define c where "c = (if qi_cp (?at pos) = 0x27 \<and> ?next < len
      then contraction_end (qi_cp (?at ?next)) ?next1 (qi_valid (?at ?next)) len
        (qi_cp (?at ?next1)) (qi_next (?at ?next1)) else None)"
  show ?thesis
  proof (cases c)
    case (Some e)
    then have e: "?next < len" "e = ?next1 \<or> qi_valid (?at ?next) \<and> ?next1 < len \<and> e = qi_next (?at ?next1)"
      unfolding c_def by (auto split: if_splits dest: contraction_end_cases)
    have "piece_ok pos len e" using e(2) n1 [OF e(1)] n2 nxt unfolding piece_ok_def by linarith
    then show ?thesis
      unfolding qwen4_piece_end_def Let_def nxt(1)
      unfolding c_def [symmetric] Some by simp
  next
    case None
    define r where "r = qwen4_word_start (?at pos) (?at ?next)"
    have run: "piece_ok pos len (char_run s len ok p)" if "r = Some p" for ok p
    proof -
      have "p = ?next \<or> ?next < len \<and> p = ?next1"
        using that unfolding r_def qwen4_word_start_def nxt(1) by (auto simp: qwen4_char_at_valid split: if_splits)
      then have "pos < p" "p \<le> len" using n1 nxt by linarith+
      then show ?thesis using char_run_bounds [of p s len ok] by (simp add: piece_ok_def)
    qed
    have other: "piece_ok pos len (char_run s len ok' (char_run s len (\<lambda>p. qwen4_other (?at p)) p))"
      if "qwen4_other (?at p)" "pos \<le> p" for p ok'
      unfolding piece_ok_def using that by (intro char_run_twice_bounds) (auto simp: qwen4_other_def qwen4_char_at_valid)
    have blanks: "piece_ok pos len (blank_end s len (\<lambda>p. qi_valid (?at p) \<and> qi_space (?at p)) pos)"
      if "qi_space (?at pos)"
      unfolding piece_ok_def using that assms by (intro blank_end_bounds) (auto simp: qwen4_char_at_valid)
    have one: "piece_ok pos len ?next" using nxt by (simp add: piece_ok_def)
    show ?thesis
    proof (cases r)
      case None
      then show ?thesis
        unfolding qwen4_piece_end_def Let_def nxt(1)
        unfolding c_def [symmetric] \<open>c = None\<close> option.case r_def [symmetric] None option.case
        using nxt(2) by (intro piece_ok_if other blanks one) auto
    next
      case (Some p)
      show ?thesis
        unfolding qwen4_piece_end_def Let_def nxt(1)
        unfolding c_def [symmetric] \<open>c = None\<close> option.case r_def [symmetric] Some option.case
        by (rule run [OF Some])
    qed
  qed
qed

lemma deepseek_char_at_next: "dc_next (deepseek_char_at T s end pos) = next_utf8_char s end pos"
  by (simp add: deepseek_char_at_def Let_def case_prod_beta)

lemma byte_run_bounds: "pos \<le> byte_run s end ok pos \<and> (pos \<le> end \<longrightarrow> byte_run s end ok pos \<le> end)"
proof (induction s "end" ok pos rule: byte_run.induct)
  case (1 s "end" ok pos)
  then show ?case by (subst (1 2) byte_run.simps) (auto split: if_splits)
qed

text \<open>A match covers at least one character, or there is none.\<close>

lemma deepseek_match_bounds:
  assumes "pos < end"
  shows "deepseek_match T s pos end = pos \<or> piece_ok pos end (deepseek_match T s pos end)"
proof -
  let ?c = "deepseek_char_at T s end pos"
  let ?next = "next_utf8_char s end pos"
  let ?next1 = "next_utf8_char s end ?next"
  have nxt: "pos < ?next" "?next \<le> end" "?next < ?next1" "?next < end \<Longrightarrow> ?next1 \<le> end"
    using assms next_utf8_char_bounds by blast+
  have run: "pos < deepseek_run T s p end classes \<and> deepseek_run T s p end classes \<le> end"
    if "pos < p" "p \<le> end" for p classes
    unfolding deepseek_run_def
    using that char_run_bounds [of p s "end" "\<lambda>p. dc_in (deepseek_char_at T s end p) classes"] by linarith
  have run: "piece_ok pos end (deepseek_run T s p end classes)" if "pos < p" "p \<le> end" for p classes
    using run [OF that] by (simp add: piece_ok_def)
  have nl: "piece_ok pos end (deepseek_run_newlines s (deepseek_run T s p end classes) end)"
    if "pos < p" "p \<le> end" for p classes
    using run [OF that, of classes] byte_run_bounds [of "deepseek_run T s p end classes" s "end" ascii_newline]
    unfolding piece_ok_def deepseek_run_newlines_def by linarith
  have word: "piece_ok pos end (byte_run s end ascii_alpha p)" if "pos < p" "p \<le> end" for p
    using byte_run_bounds [of p s "end" ascii_alpha] that unfolding piece_ok_def by linarith
  have blanks: "piece_ok pos end (blank_end s end (\<lambda>p. dc_in (deepseek_char_at T s end p) UCLASS_WS) pos)"
    if "dc_in ?c UCLASS_WS"
    unfolding piece_ok_def using that assms by (intro blank_end_bounds) auto
  define m where "m = deepseek_match T s pos end"
  have "piece_ok pos end m" if "m \<noteq> pos"
    using that nxt run [of ?next] run [of ?next1] nl [of ?next] nl [of ?next1] word [of ?next1] blanks
    unfolding m_def deepseek_match_def Let_def deepseek_char_at_next
    by (simp split: if_splits add: deepseek_char_at_next)
  then show ?thesis unfolding m_def by blast
qed

section \<open>Cutting a text\<close>

text \<open>GLM and Qwen: the loop over the pieces.\<close>

function glm4_pieces :: "u8 list \<Rightarrow> nat \<Rightarrow> u8 list list" where
  "glm4_pieces s pos =
     (if pos < length s
      then let e = glm4_piece_end s (length s) pos in text_slice s pos e # glm4_pieces s e
      else [])"
  by pat_completeness auto
termination
proof (relation "measure (\<lambda>(s, pos). length s - pos)", goal_cases)
  case (2 s pos e)
  then show ?case using glm4_piece_end_bounds [of pos "length s" s] by (auto simp: piece_ok_def intro: diff_less_mono2)
qed simp

function qwen35_pieces :: "unicode_tables \<Rightarrow> u8 list \<Rightarrow> nat \<Rightarrow> u8 list list" where
  "qwen35_pieces T s pos =
     (if pos < length s
      then let e = qwen4_piece_end T s (length s) pos in text_slice s pos e # qwen35_pieces T s e
      else [])"
  by pat_completeness auto
termination
proof (relation "measure (\<lambda>(T, s, pos). length s - pos)", goal_cases)
  case (2 T s pos e)
  then show ?case using qwen4_piece_end_bounds [of pos "length s" T s] by (auto simp: piece_ok_def intro: diff_less_mono2)
qed simp

text \<open>DeepSeek: an isolating split gives each match and each run between matches; \<open>gap\<close> is where the
  pending run starts.\<close>

function deepseek_split_regex :: "unicode_tables \<Rightarrow> u8 list \<Rightarrow> nat \<Rightarrow> nat \<Rightarrow> nat \<Rightarrow> u8 list list" where
  "deepseek_split_regex T s gap pos end =
     (if pos < end
      then let m = deepseek_match T s pos end
           in if m = pos then deepseek_split_regex T s gap (dc_next (deepseek_char_at T s end pos)) end
              else (if gap < pos then [text_slice s gap pos] else []) @ text_slice s pos m #
                   deepseek_split_regex T s m m end
      else if gap < end then [text_slice s gap end] else [])"
  by pat_completeness auto
termination
proof (relation "measure (\<lambda>(T, s, gap, pos, end). end - pos)", goal_cases)
  case (2 T s gap pos end_pos m)
  then show ?case
    using next_utf8_char_bounds(1) [of pos s end_pos] by (auto simp: deepseek_char_at_next intro: diff_less_mono2)
next
  case (3 T s gap pos end_pos m)
  then show ?case
    using deepseek_match_bounds [of pos end_pos T s] by (auto simp: piece_ok_def intro: diff_less_mono2)
qed simp

function deepseek_split_cjk :: "unicode_tables \<Rightarrow> u8 list \<Rightarrow> nat \<Rightarrow> nat \<Rightarrow> nat \<Rightarrow> u8 list list" where
  "deepseek_split_cjk T s gap pos end =
     (if pos < end
      then if \<not> utf8_is_cjk_hira_kata (dc_cp (deepseek_char_at T s end pos))
           then deepseek_split_cjk T s gap (dc_next (deepseek_char_at T s end pos)) end
           else let stop = char_run s end (\<lambda>p. utf8_is_cjk_hira_kata (dc_cp (deepseek_char_at T s end p))) pos
                in deepseek_split_regex T s gap gap pos @ deepseek_split_regex T s pos pos stop @
                   deepseek_split_cjk T s stop stop end
      else deepseek_split_regex T s gap gap end)"
  by pat_completeness auto
termination
proof (relation "measure (\<lambda>(T, s, gap, pos, end). end - pos)", goal_cases)
  case (2 T s gap pos end_pos)
  then show ?case
    using next_utf8_char_bounds(1) [of pos s end_pos] by (auto simp: deepseek_char_at_next intro: diff_less_mono2)
next
  case (3 T s gap pos end_pos stop)
  then have "pos < stop"
    using char_run_start [of "\<lambda>p. utf8_is_cjk_hira_kata (dc_cp (deepseek_char_at T s end_pos p))" pos end_pos s]
    by simp
  then show ?case using 3 by (auto intro: diff_less_mono2)
qed simp

fun deepseek_digits :: "unicode_tables \<Rightarrow> nat \<Rightarrow> u8 list \<Rightarrow> nat \<Rightarrow> nat" where
  "deepseek_digits T 0 s pos = pos"
| "deepseek_digits T (Suc k) s pos =
     (if pos < length s \<and> dc_in (deepseek_char_at T s (length s) pos) UCLASS_N
      then deepseek_digits T k s (dc_next (deepseek_char_at T s (length s) pos)) else pos)"

lemma deepseek_digits_bounds:
  "pos \<le> deepseek_digits T k s pos \<and> (pos \<le> length s \<longrightarrow> deepseek_digits T k s pos \<le> length s)"
proof (induction T k s pos rule: deepseek_digits.induct)
  case (2 T k s pos)
  then show ?case
    using next_utf8_char_bounds [where pos = pos and s = s and len = "length s"]
    by (fastforce simp: deepseek_char_at_next)
qed simp

lemma deepseek_digits_start:
  "pos < length s \<Longrightarrow> dc_in (deepseek_char_at T s (length s) pos) UCLASS_N \<Longrightarrow> pos < deepseek_digits T (Suc k) s pos"
  using next_utf8_char_bounds(1) [of pos s "length s"]
    deepseek_digits_bounds [of "next_utf8_char s (length s) pos" T k s]
  by (simp add: deepseek_char_at_next less_le_trans)

function deepseek_pieces :: "unicode_tables \<Rightarrow> u8 list \<Rightarrow> nat \<Rightarrow> nat \<Rightarrow> u8 list list" where
  "deepseek_pieces T s gap pos =
     (if pos < length s
      then let c = deepseek_char_at T s (length s) pos
           in if \<not> dc_in c UCLASS_N then deepseek_pieces T s gap (dc_next c)
              else let stop = deepseek_digits T 3 s pos
                   in deepseek_split_cjk T s gap gap pos @ deepseek_split_cjk T s pos pos stop @
                      deepseek_pieces T s stop stop
      else deepseek_split_cjk T s gap gap (length s))"
  by pat_completeness auto
termination
proof (relation "measure (\<lambda>(T, s, gap, pos). length s - pos)", goal_cases)
  case (2 T s gap pos c)
  then show ?case
    using next_utf8_char_bounds(1) [of pos s "length s"] by (auto simp: deepseek_char_at_next intro: diff_less_mono2)
next
  case (3 T s gap pos c stop)
  then have "pos < stop" using deepseek_digits_start [of pos s T 2] by (simp add: numeral_3_eq_3)
  then show ?case using 3 by (auto intro: diff_less_mono2)
qed simp

declare glm4_pieces.simps [simp del] qwen35_pieces.simps [simp del] deepseek_split_regex.simps [simp del]
  deepseek_split_cjk.simps [simp del] deepseek_pieces.simps [simp del]

section \<open>The pieces are the text\<close>

lemma text_slice_join: "a \<le> b \<Longrightarrow> b \<le> c \<Longrightarrow> text_slice s a b @ text_slice s b c = text_slice s a c"
proof -
  assume "a \<le> b" "b \<le> c"
  then obtain i j where "b = a + i" "c = a + i + j" using le_Suc_ex by blast
  then show ?thesis by (simp add: text_slice_def take_add add.commute)
qed

lemma text_slice_empty [simp]: "text_slice s a a = []" by (simp add: text_slice_def)

lemma text_slice_rest: "text_slice s a (length s) = drop a s" by (simp add: text_slice_def)

lemma piece_then_rest: "piece_ok pos (length s) e \<Longrightarrow> text_slice s pos e @ drop e s = drop pos s"
  using text_slice_join [of pos e "length s" s] by (simp add: piece_ok_def text_slice_rest)

lemma glm4_pieces_text: "concat (glm4_pieces s pos) = drop pos s"
proof (induction s pos rule: glm4_pieces.induct)
  case (1 s pos)
  then show ?case
    using piece_then_rest [OF glm4_piece_end_bounds [of pos "length s" s]]
    by (subst glm4_pieces.simps) (simp add: Let_def)
qed

lemma qwen35_pieces_text: "concat (qwen35_pieces T s pos) = drop pos s"
proof (induction T s pos rule: qwen35_pieces.induct)
  case (1 T s pos)
  then show ?case
    using piece_then_rest [OF qwen4_piece_end_bounds [of pos "length s" T s]]
    by (subst qwen35_pieces.simps) (simp add: Let_def)
qed

lemma deepseek_next: "pos < end \<Longrightarrow> pos < dc_next (deepseek_char_at T s end pos) \<and> dc_next (deepseek_char_at T s end pos) \<le> end"
  using next_utf8_char_bounds by (simp add: deepseek_char_at_next)

lemma deepseek_next_le: "gap \<le> pos \<Longrightarrow> pos < end \<Longrightarrow> gap \<le> dc_next (deepseek_char_at T s end pos)"
  by (rule order_trans [OF _ less_imp_le [OF conjunct1 [OF deepseek_next]]])

lemma deepseek_split_regex_text:
  "gap \<le> pos \<Longrightarrow> pos \<le> end \<Longrightarrow> concat (deepseek_split_regex T s gap pos end) = text_slice s gap end"
proof (induction T s gap pos "end" rule: deepseek_split_regex.induct)
  case (1 T s gap pos "end")
  let ?m = "deepseek_match T s pos end"
  show ?case
  proof (cases "pos < end")
    case True
    have "?m = pos \<or> piece_ok pos end ?m" using True by (rule deepseek_match_bounds)
    then show ?thesis
    proof
      assume m: "?m = pos"
      then show ?thesis
        using "1.IH"(1) [OF True refl m] "1.prems" deepseek_next [OF True] deepseek_next_le [OF "1.prems"(1) True] True
        by (subst deepseek_split_regex.simps) (simp add: Let_def)
    next
      assume ok: "piece_ok pos end ?m"
      then have m: "?m \<noteq> pos" "pos \<le> ?m" "?m \<le> end" by (simp_all add: piece_ok_def)
      have "concat (deepseek_split_regex T s gap pos end) =
          text_slice s gap pos @ text_slice s pos ?m @ text_slice s ?m end"
        using "1.IH"(2) [OF True refl m(1)] m "1.prems" True
        by (subst deepseek_split_regex.simps) (auto simp: Let_def)
      then show ?thesis using m "1.prems" by (simp add: text_slice_join)
    qed
  next
    case False
    then show ?thesis using "1.prems" by (subst deepseek_split_regex.simps) auto
  qed
qed

lemma deepseek_split_cjk_text:
  "gap \<le> pos \<Longrightarrow> pos \<le> end \<Longrightarrow> concat (deepseek_split_cjk T s gap pos end) = text_slice s gap end"
proof (induction T s gap pos "end" rule: deepseek_split_cjk.induct)
  case (1 T s gap pos "end")
  show ?case
  proof (cases "pos < end")
    case True
    show ?thesis
    proof (cases "utf8_is_cjk_hira_kata (dc_cp (deepseek_char_at T s end pos))")
      case False
      then show ?thesis
        using "1.IH"(1) [OF True False] "1.prems" deepseek_next [OF True] deepseek_next_le [OF "1.prems"(1) True] True
        by (subst deepseek_split_cjk.simps) simp
    next
      case cjk: True
      define stop where
        "stop = char_run s end (\<lambda>p. utf8_is_cjk_hira_kata (dc_cp (deepseek_char_at T s end p))) pos"
      have stop: "pos \<le> stop" "stop \<le> end"
        using char_run_bounds [of pos s "end"] True unfolding stop_def by auto
      have "concat (deepseek_split_cjk T s gap pos end) =
          text_slice s gap pos @ text_slice s pos stop @ text_slice s stop end"
        using "1.IH"(2) [OF True _ stop_def] cjk stop "1.prems" True
        by (subst deepseek_split_cjk.simps) (simp add: Let_def stop_def [symmetric] deepseek_split_regex_text)
      then show ?thesis using stop "1.prems" by (simp add: text_slice_join)
    qed
  next
    case False
    then show ?thesis using "1.prems" by (subst deepseek_split_cjk.simps) (simp add: deepseek_split_regex_text)
  qed
qed

lemma deepseek_pieces_text:
  "gap \<le> pos \<Longrightarrow> pos \<le> length s \<Longrightarrow> concat (deepseek_pieces T s gap pos) = drop gap s"
proof (induction T s gap pos rule: deepseek_pieces.induct)
  case (1 T s gap pos)
  let ?c = "deepseek_char_at T s (length s) pos"
  show ?case
  proof (cases "pos < length s")
    case True
    show ?thesis
    proof (cases "dc_in ?c UCLASS_N")
      case False
      then show ?thesis
        using "1.IH"(1) [OF True refl False] "1.prems" deepseek_next [OF True] deepseek_next_le [OF "1.prems"(1) True] True
        by (subst deepseek_pieces.simps) (simp add: Let_def)
    next
      case digit: True
      define stop where "stop = deepseek_digits T 3 s pos"
      have stop: "pos \<le> stop" "stop \<le> length s"
        using deepseek_digits_bounds [of pos T 3 s] True unfolding stop_def by auto
      have "concat (deepseek_pieces T s gap pos) = text_slice s gap pos @ text_slice s pos stop @ drop stop s"
        using "1.IH"(2) [OF True refl _ stop_def] digit stop "1.prems" True
        by (subst deepseek_pieces.simps) (simp add: Let_def stop_def [symmetric] deepseek_split_cjk_text)
      then show ?thesis using stop "1.prems" by (simp add: text_slice_join text_slice_rest [symmetric])
    qed
  next
    case False
    then show ?thesis using "1.prems"
      by (subst deepseek_pieces.simps) (simp add: deepseek_split_cjk_text text_slice_rest)
  qed
qed

section \<open>Searching a range table\<close>

definition ranges_sorted :: "(u32 \<times> u32) list \<Rightarrow> bool" where
  "ranges_sorted r \<longleftrightarrow> sorted_wrt (\<lambda>a b. snd a < fst b) r \<and> list_all (\<lambda>a. fst a \<le> snd a) r"

lemma ranges_sorted_nth:
  assumes "ranges_sorted r" and "j < length r"
  shows "i < j \<Longrightarrow> snd (r ! i) < fst (r ! j)" and "fst (r ! j) \<le> snd (r ! j)"
  using assms by (auto simp: ranges_sorted_def sorted_wrt_iff_nth_less list_all_length)

lemma urange_search_spec:
  "ranges_sorted r \<Longrightarrow> hi \<le> length r \<Longrightarrow>
    urange_search r lo hi cp \<longleftrightarrow> (\<exists>i. lo \<le> i \<and> i < hi \<and> fst (r ! i) \<le> cp \<and> cp \<le> snd (r ! i))"
proof (induction r lo hi cp rule: urange_search.induct)
  case (1 r lo hi cp)
  define mid where "mid = (lo + hi) div 2"
  show ?case
  proof (cases "lo < hi")
    case True
    have mid: "lo \<le> mid" "mid < hi" "mid < length r" using True "1.prems"(2) by (auto simp: mid_def)
    consider "cp < fst (r ! mid)" | "\<not> cp < fst (r ! mid)" "snd (r ! mid) < cp"
      | "\<not> cp < fst (r ! mid)" "\<not> snd (r ! mid) < cp" by blast
    then show ?thesis
    proof cases
      case 1
      have "i < mid" if "i < hi" "fst (r ! i) \<le> cp" for i
      proof (rule ccontr)
        assume "\<not> i < mid"
        then have "fst (r ! mid) \<le> fst (r ! i)"
          using ranges_sorted_nth [OF "1.prems"(1), of i] ranges_sorted_nth(2) [OF "1.prems"(1) mid(3)] that "1.prems"(2)
          by (cases "i = mid") (auto simp: less_imp_le order_trans)
        then show False using 1 that(2) by simp
      qed
      moreover have "urange_search r lo hi cp = urange_search r lo mid cp"
        using True 1 by (subst urange_search.simps) (simp add: mid_def [symmetric])
      ultimately show ?thesis
        using "1.IH"(1) [OF True mid_def 1 "1.prems"(1)] mid by (meson less_imp_le order_less_trans)
    next
      case 2
      have "mid + 1 \<le> i" if "lo \<le> i" "i < hi" "cp \<le> snd (r ! i)" for i
      proof (rule ccontr)
        assume "\<not> mid + 1 \<le> i"
        then consider "i < mid" | "i = mid" by linarith
        then have "snd (r ! i) \<le> snd (r ! mid)"
          using ranges_sorted_nth [OF "1.prems"(1) mid(3)] by cases (meson less_imp_le order_trans, simp)
        then show False using 2 that(3) by simp
      qed
      moreover have "urange_search r lo hi cp = urange_search r (mid + 1) hi cp"
        using True 2 by (subst urange_search.simps) (simp add: mid_def [symmetric])
      ultimately show ?thesis
        using "1.IH"(2) [OF True mid_def 2 "1.prems"] mid by (meson order_trans le_add1)
    next
      case 3
      then have "urange_search r lo hi cp"
        using True by (subst urange_search.simps) (simp add: mid_def [symmetric])
      then show ?thesis using 3 mid by (auto simp: not_less)
    qed
  next
    case False
    then show ?thesis by (subst urange_search.simps) auto
  qed
qed

text \<open>The binary search over a generated class table is membership: with sorted, disjoint ranges a code
  point is found exactly when some range of the table holds it.\<close>

theorem qwen4_urange_has_iff:
  assumes "ranges_sorted r"
  shows "qwen4_urange_has r cp \<longleftrightarrow> list_ex (\<lambda>(lo, hi). lo \<le> cp \<and> cp \<le> hi) r"
  using urange_search_spec [OF assms order_refl, of 0 cp]
  by (auto simp: qwen4_urange_has_def list_ex_length case_prod_beta)

theorem qwen4_urange_has_iff_witness:
  "qwen4_urange_has [(0x41, 0x5A), (0x61, 0x7A), (0xAA, 0xAA)] 0x62 \<longleftrightarrow>
    list_ex (\<lambda>(lo, hi). lo \<le> (0x62 :: u32) \<and> (0x62 :: u32) \<le> hi) [(0x41, 0x5A), (0x61, 0x7A), (0xAA, 0xAA)]"
  by (rule qwen4_urange_has_iff) (simp add: ranges_sorted_def)

end
