(* ===== verification/Str_Table.thy ===== *)
theory Str_Table
  imports Ds4_Prelude
begin

text \<open>
  The open-addressed string table of ds4.c (\<open>str_i32_table\<close>): \<open>hash_bytes\<close>, \<open>next_pow2\<close>,
  \<open>table_init\<close>, \<open>table_put\<close>, \<open>table_get\<close>. The interface a client needs is a locale: with room left, an
  insertion returns and the lookups afterwards are those of a map. The tables of the vocabulary are
  built inside it.

  A result \<open>None\<close> of a loop means that it never returns: after as many probes as there are slots the
  loop has seen every slot and goes round forever; after 64 doublings the power is 0.
\<close>

section \<open>An interface for tables with room\<close>

locale key_table =
  fixes lookup :: "'t \<Rightarrow> 'k \<Rightarrow> 'v option option"
    and insert :: "'t \<Rightarrow> 'k \<Rightarrow> 'v \<Rightarrow> 't option"
    and room :: "nat \<Rightarrow> 't \<Rightarrow> bool"
  assumes insert_ok: "room (Suc n) t \<Longrightarrow> \<exists>t'. insert t k v = Some t' \<and> room n t'"
    and lookup_insert: "room (Suc n) t \<Longrightarrow> insert t k v = Some t' \<Longrightarrow>
      lookup t' k' = (if k' = k then Some (Some v) else lookup t k')"
begin

fun insert_all :: "'t \<Rightarrow> ('k \<times> 'v) list \<Rightarrow> 't option" where
  "insert_all t [] = Some t"
| "insert_all t ((k, v) # kvs) = (case insert t k v of None \<Rightarrow> None | Some t' \<Rightarrow> insert_all t' kvs)"

text \<open>With room for all pairs every insertion returns, and later pairs win.\<close>

lemma insert_all_map:
  "room (length kvs) t \<Longrightarrow>
    \<exists>t'. insert_all t kvs = Some t' \<and>
      (\<forall>k. lookup t' k = (case map_of (rev kvs) k of Some v \<Rightarrow> Some (Some v) | None \<Rightarrow> lookup t k))"
proof (induction kvs arbitrary: t)
  case (Cons kv kvs)
  obtain k v where kv: "kv = (k, v)" by fastforce
  have room: "room (Suc (length kvs)) t" using Cons.prems by simp
  obtain t1 where t1: "insert t k v = Some t1" "room (length kvs) t1" using insert_ok [OF room] by blast
  obtain t' where t': "insert_all t1 kvs = Some t'"
    "\<forall>k. lookup t' k = (case map_of (rev kvs) k of Some v \<Rightarrow> Some (Some v) | None \<Rightarrow> lookup t1 k)"
    using Cons.IH [OF t1(2)] by blast
  then show ?case using t1 kv lookup_insert [OF room t1(1)]
    by (auto simp: map_add_def split: option.splits)
qed simp

end

section \<open>The table\<close>

type_synonym str_i32_entry = "(u8 list \<times> int) option"

record str_i32_table =
  st_entry :: "str_i32_entry list"
  st_used :: u64

fun hash_bytes_loop :: "u64 \<Rightarrow> u8 list \<Rightarrow> u64" where
  "hash_bytes_loop h [] = h"
| "hash_bytes_loop h (b # p) = hash_bytes_loop ((h XOR ucast b) * 1099511628211) p"

definition hash_bytes :: "u8 list \<Rightarrow> u64" where
  "hash_bytes p = hash_bytes_loop 1469598103934665603 p"

fun next_pow2_loop :: "nat \<Rightarrow> u64 \<Rightarrow> u64 \<Rightarrow> u64 option" where
  "next_pow2_loop 0 p n = None"
| "next_pow2_loop (Suc fuel) p n = (if p < n then next_pow2_loop fuel (push_bit 1 p) n else Some p)"

definition next_pow2 :: "u64 \<Rightarrow> u64 option" where "next_pow2 n = next_pow2_loop 65 1 n"

definition table_init :: "u64 \<Rightarrow> str_i32_table option" where
  "table_init expected =
     map_option (\<lambda>cap. \<lparr>st_entry = replicate (unat cap) None, st_used = 0\<rparr>) (next_pow2 (expected * 2 + 16))"

text \<open>The loop both operations share: the slot it stops at, unused or with the key.\<close>

fun table_probe :: "nat \<Rightarrow> str_i32_entry list \<Rightarrow> u8 list \<Rightarrow> u64 \<Rightarrow> nat option" where
  "table_probe 0 e key i = None"
| "table_probe (Suc fuel) e key i =
     (case e ! unat i of
        None \<Rightarrow> Some (unat i)
      | Some (k, _) \<Rightarrow>
          if k = key then Some (unat i)
          else table_probe fuel e key ((i + 1) AND (of_nat (length e) - 1)))"

definition table_start :: "str_i32_entry list \<Rightarrow> u8 list \<Rightarrow> u64" where
  "table_start e key = hash_bytes key AND (of_nat (length e) - 1)"

definition table_put :: "str_i32_table \<Rightarrow> u8 list \<Rightarrow> int \<Rightarrow> str_i32_table option" where
  "table_put t key val =
     (case table_probe (length (st_entry t)) (st_entry t) key (table_start (st_entry t) key) of
        None \<Rightarrow> None
      | Some i \<Rightarrow>
          Some (t\<lparr>st_entry := (st_entry t)[i := Some (key, val)],
                 st_used := (if st_entry t ! i = None then st_used t + 1 else st_used t)\<rparr>))"

definition table_get :: "str_i32_table \<Rightarrow> u8 list \<Rightarrow> int option option" where
  "table_get t key =
     (if st_entry t = [] then Some None
      else map_option (\<lambda>i. map_option snd (st_entry t ! i))
             (table_probe (length (st_entry t)) (st_entry t) key (table_start (st_entry t) key)))"

section \<open>Probing\<close>

text \<open>The slot after \<open>j\<close> steps from \<open>i\<close>.\<close>

definition slot_at :: "str_i32_entry list \<Rightarrow> nat \<Rightarrow> nat \<Rightarrow> nat" where
  "slot_at e i j = (i + j) mod length e"

definition pow2_sized :: "str_i32_entry list \<Rightarrow> bool" where
  "pow2_sized e \<longleftrightarrow> (\<exists>k < 64. length e = 2 ^ k)"

lemma pow2_sized_less: "pow2_sized e \<Longrightarrow> length e < 2 ^ 64 \<and> 0 < length e"
  unfolding pow2_sized_def using power_strict_increasing [of _ 64 "2 :: nat"] by fastforce

lemma and_pow2_mod:
  fixes x :: u64
  assumes "pow2_sized e"
  shows "unat (x AND (of_nat (length e) - 1)) = unat x mod length e"
proof -
  obtain k where k: "k < 64" "length e = 2 ^ k" using assms by (auto simp: pow2_sized_def)
  have "x AND (of_nat (length e) - 1) = take_bit k x"
    unfolding take_bit_eq_mask mask_eq_exp_minus_1 k(2) by simp
  then have "unat (x AND (of_nat (length e) - 1)) = take_bit k (unat x)"
    by (simp only: unsigned_take_bit_eq)
  then show ?thesis by (simp only: take_bit_eq_mod k(2))
qed

lemma probe_next:
  fixes i :: u64
  assumes "pow2_sized e" and "unat i < length e"
  shows "unat ((i + 1) AND (of_nat (length e) - 1)) = (unat i + 1) mod length e"
proof -
  have "unat i < 2 ^ 64" by (rule order_less_le_trans [OF unsigned_less]) simp
  then have "unat i + 1 < 2 ^ 64 \<or> unat i + 1 = 2 ^ 64" by linarith
  moreover have "unat i + 1 \<noteq> 2 ^ 64" using assms pow2_sized_less [OF assms(1)] by linarith
  ultimately have "unat (i + 1) = unat i + 1" by (simp add: unat_word_ariths)
  then show ?thesis using and_pow2_mod [OF assms(1), of "i + 1"] by simp
qed

definition stops_at :: "u8 list \<Rightarrow> str_i32_entry \<Rightarrow> bool" where
  "stops_at key x \<longleftrightarrow> x = None \<or> (\<exists>v. x = Some (key, v))"

text \<open>The loop finds the first slot on its way that it stops at.\<close>

lemma table_probe_find:
  assumes "pow2_sized e"
  shows "unat i = slot_at e s j \<Longrightarrow>
    table_probe fuel e key i =
      map_option (slot_at e s) (List.find (\<lambda>j. stops_at key (e ! slot_at e s j)) [j..<j + fuel])"
proof (induction fuel arbitrary: i j)
  case (Suc fuel)
  have pos: "0 < length e" using pow2_sized_less [OF assms] by simp
  have "unat ((i + 1) AND (of_nat (length e) - 1)) = slot_at e s (Suc j)"
    using probe_next [OF assms, of i] Suc.prems pos by (simp add: slot_at_def mod_Suc_eq)
  note IH = Suc.IH [OF this]
  have upt: "[j..<j + Suc fuel] = j # [Suc j..<Suc j + fuel]" by (simp add: upt_conv_Cons)
  show ?case unfolding upt using IH Suc.prems by (auto simp: stops_at_def split: option.splits)
qed simp

section \<open>A table is a map\<close>

definition first_slot :: "str_i32_entry list \<Rightarrow> u8 list \<Rightarrow> nat option" where
  "first_slot e key = table_probe (length e) e key (table_start e key)"

lemma slot_at_less: "pow2_sized e \<Longrightarrow> slot_at e s j < length e"
  using pow2_sized_less by (simp add: slot_at_def)

lemma table_start_less: "pow2_sized e \<Longrightarrow> unat (table_start e key) < length e"
  using pow2_sized_less by (simp add: table_start_def and_pow2_mod)

definition on_path :: "str_i32_entry list \<Rightarrow> u8 list \<Rightarrow> nat \<Rightarrow> nat" where
  "on_path e key j = slot_at e (unat (table_start e key)) j"

lemma first_slot_find:
  assumes "pow2_sized e"
  shows "first_slot e key = map_option (on_path e key) (List.find (\<lambda>j. stops_at key (e ! on_path e key j)) [0..<length e])"
proof -
  have "unat (table_start e key) = slot_at e (unat (table_start e key)) 0"
    using table_start_less [OF assms, of key] by (simp add: slot_at_def)
  from table_probe_find [OF assms this] show ?thesis by (simp add: first_slot_def on_path_def [abs_def])
qed

lemma first_slot_Some:
  assumes "pow2_sized e" and "first_slot e key = Some p"
  obtains j where "j < length e" "p = on_path e key j" "stops_at key (e ! p)" "\<forall>i < j. \<not> stops_at key (e ! on_path e key i)"
    "p < length e"
  using assms(2) slot_at_less [OF assms(1)] unfolding first_slot_find [OF assms(1)]
  by (auto simp: find_upt_Some on_path_def)

lemma first_slot_I:
  assumes "pow2_sized e" and "j < length e" and "stops_at key (e ! on_path e key j)"
    and "\<forall>i < j. \<not> stops_at key (e ! on_path e key i)"
  shows "first_slot e key = Some (on_path e key j)"
proof -
  have "List.find (\<lambda>j. stops_at key (e ! on_path e key j)) [0..<length e] = Some j"
    using assms by (simp add: find_upt_Some)
  then show ?thesis by (simp add: first_slot_find [OF assms(1)])
qed

text \<open>Every slot is on the way, so with a free slot the loop ends.\<close>

lemma on_path_all: "p < length e \<Longrightarrow> pow2_sized e \<Longrightarrow> \<exists>j < length e. on_path e key j = p"
proof -
  assume p: "p < length e" and e: "pow2_sized e"
  define s where "s = unat (table_start e key)"
  have s: "s < length e" unfolding s_def using e by (rule table_start_less)
  define j where "j = (if s \<le> p then p - s else p + length e - s)"
  have "j < length e" "(s + j) mod length e = p" using p s by (auto simp: j_def)
  then show ?thesis by (auto simp: on_path_def slot_at_def s_def)
qed

lemma first_slot_total:
  assumes "pow2_sized e" and "p < length e" and "e ! p = None"
  shows "first_slot e key \<noteq> None"
proof -
  obtain j where "j < length e" "on_path e key j = p" using on_path_all assms by blast
  then have "List.find (\<lambda>j. stops_at key (e ! on_path e key j)) [0..<length e] \<noteq> None"
    using assms(3) by (auto simp: find_upt_None stops_at_def)
  then show ?thesis by (simp add: first_slot_find [OF assms(1)])
qed

text \<open>Every stored key is where its loop stops.\<close>

definition table_ok :: "str_i32_entry list \<Rightarrow> bool" where
  "table_ok e \<longleftrightarrow> pow2_sized e \<and> (\<forall>p < length e. \<forall>k v. e ! p = Some (k, v) \<longrightarrow> first_slot e k = Some p)"

definition entry_count :: "str_i32_entry list \<Rightarrow> nat" where
  "entry_count e = length (filter (\<lambda>x. x \<noteq> None) e)"

definition table_room :: "nat \<Rightarrow> str_i32_table \<Rightarrow> bool" where
  "table_room n t \<longleftrightarrow> table_ok (st_entry t) \<and> entry_count (st_entry t) + n < length (st_entry t)"

lemma free_slot: "entry_count e < length e \<Longrightarrow> \<exists>p < length e. e ! p = None"
proof (rule ccontr)
  assume less: "entry_count e < length e" and "\<not> (\<exists>p < length e. e ! p = None)"
  then have "\<forall>x \<in> set e. x \<noteq> None" by (auto simp: in_set_conv_nth)
  then have "filter (\<lambda>x. x \<noteq> None) e = e" by (simp add: filter_id_conv)
  then show False using less by (simp add: entry_count_def)
qed

lemma first_slot_stops: "pow2_sized e \<Longrightarrow> first_slot e key = Some p \<Longrightarrow> p < length e \<and> stops_at key (e ! p)"
  by (elim first_slot_Some) auto

lemma on_path_update [simp]: "on_path (e[p := x]) k = on_path e k"
  by (simp add: on_path_def [abs_def] slot_at_def [abs_def] table_start_def)

lemma pow2_sized_update [simp]: "pow2_sized (e[p := x]) = pow2_sized e"
  by (simp add: pow2_sized_def)

text \<open>A key stored elsewhere keeps its slot, the new key gets the slot its loop stopped at.\<close>

lemma first_slot_update:
  assumes e: "pow2_sized e" and p: "first_slot e key = Some p"
    and q: "first_slot e k = Some q" "stops_at k (e[p := Some (key, v)] ! q)"
  shows "first_slot (e[p := Some (key, v)]) k = Some q"
proof -
  let ?e = "e[p := Some (key, v)]"
  obtain j where j: "j < length e" "q = on_path e k j" "\<forall>i < j. \<not> stops_at k (e ! on_path e k i)"
    using first_slot_Some [OF e q(1)] by metis
  have pe: "p < length e" "stops_at key (e ! p)" using first_slot_stops [OF e p] by auto
  have "\<not> stops_at k (?e ! on_path e k i)" if "i < j" for i
  proof (cases "on_path e k i = p")
    case True
    have "\<not> stops_at k (e ! p)" using j(3) that True by auto
    then have "k \<noteq> key" using pe(2) by auto
    then show ?thesis using True pe(1) by (simp add: stops_at_def)
  next
    case False
    then show ?thesis using j(3) that by simp
  qed
  then show ?thesis
    using first_slot_I [of ?e j k] e j(1,2) q(2) by simp
qed

lemma table_ok_update:
  assumes "table_ok e" and p: "first_slot e key = Some p"
  shows "table_ok (e[p := Some (key, v)])"
proof -
  let ?e = "e[p := Some (key, v)]"
  have e: "pow2_sized e" using assms(1) by (simp add: table_ok_def)
  have pe: "p < length e" "stops_at key (e ! p)" using first_slot_stops [OF e p] by auto
  have "first_slot ?e k = Some q" if "q < length e" "?e ! q = Some (k, w)" for q k w
  proof (cases "q = p")
    case True
    then have "k = key" using that pe(1) by simp
    then show ?thesis using first_slot_update [OF e p, of key p] True p pe(1) by (simp add: stops_at_def)
  next
    case False
    then have "first_slot e k = Some q" using that assms(1) by (auto simp: table_ok_def)
    then show ?thesis using first_slot_update [OF e p, of k q] that by (simp add: stops_at_def)
  qed
  then show ?thesis using e by (simp add: table_ok_def)
qed

lemma table_get_stored:
  assumes "table_ok (st_entry t)" and "q < length (st_entry t)" and "st_entry t ! q = Some (k, w)"
  shows "table_get t k = Some (Some w)"
proof -
  have "first_slot (st_entry t) k = Some q" using assms by (auto simp: table_ok_def)
  moreover have "st_entry t \<noteq> []" using assms(2) by auto
  ultimately show ?thesis using assms(3) by (simp add: table_get_def first_slot_def)
qed

lemma table_get_absent:
  assumes "table_ok (st_entry t)" and "entry_count (st_entry t) < length (st_entry t)"
    and "\<And>q w. q < length (st_entry t) \<Longrightarrow> st_entry t ! q \<noteq> Some (k, w)"
  shows "table_get t k = Some None"
proof -
  let ?e = "st_entry t"
  have e: "pow2_sized ?e" using assms(1) by (simp add: table_ok_def)
  obtain p where "p < length ?e" "?e ! p = None" using free_slot [OF assms(2)] by blast
  then obtain q where q: "first_slot ?e k = Some q" using first_slot_total [OF e] by blast
  then have "?e ! q = None" using first_slot_stops [OF e q] assms(3) by (auto simp: stops_at_def)
  moreover have "?e \<noteq> []" using pow2_sized_less [OF e] by auto
  ultimately show ?thesis using q by (simp add: table_get_def first_slot_def)
qed

lemma entry_count_update: "p < length e \<Longrightarrow> entry_count (e[p := Some x]) \<le> Suc (entry_count e)"
proof -
  assume p: "p < length e"
  have "entry_count (e[p := Some x]) = length (filter (\<lambda>x. x \<noteq> None) (take p e)) + 1 +
      length (filter (\<lambda>x. x \<noteq> None) (drop (Suc p) e))"
    using p by (simp add: entry_count_def upd_conv_take_nth_drop)
  moreover have "entry_count e = length (filter (\<lambda>x. x \<noteq> None) (take p e @ e ! p # drop (Suc p) e))"
    unfolding entry_count_def using p by (simp only: id_take_nth_drop [symmetric])
  ultimately show ?thesis by simp
qed

lemma table_put_ok:
  assumes room: "table_room (Suc n) t"
  shows "\<exists>p. first_slot (st_entry t) k = Some p \<and> p < length (st_entry t) \<and>
    (\<exists>t'. table_put t k v = Some t' \<and> st_entry t' = (st_entry t)[p := Some (k, v)] \<and> table_room n t')"
proof -
  let ?e = "st_entry t"
  have ok: "table_ok ?e" "entry_count ?e + Suc n < length ?e" "pow2_sized ?e"
    using room by (auto simp: table_room_def table_ok_def)
  obtain q where "q < length ?e" "?e ! q = None" using free_slot [of ?e] ok(2) by auto
  then obtain p where p: "first_slot ?e k = Some p" using first_slot_total [OF ok(3)] by blast
  have pe: "p < length ?e" using first_slot_stops [OF ok(3) p] by auto
  have "table_room n (t\<lparr>st_entry := ?e[p := Some (k, v)], st_used := u\<rparr>)" for u
    using table_ok_update [OF ok(1) p] entry_count_update [OF pe, of "(k, v)"] ok(2) by (simp add: table_room_def)
  then show ?thesis using p pe by (simp add: table_put_def first_slot_def)
qed

interpretation str_table: key_table table_get table_put table_room
proof
  show "\<exists>t'. table_put t k v = Some t' \<and> table_room n t'" if "table_room (Suc n) t" for n t k v
    using table_put_ok [OF that, of k v] by blast
next
  fix n t k v t' k'
  assume room: "table_room (Suc n) t" and put: "table_put t k v = Some t'"
  let ?e = "st_entry t"
  obtain p where p: "first_slot ?e k = Some p" "p < length ?e" "st_entry t' = ?e[p := Some (k, v)]" "table_room n t'"
    using table_put_ok [OF room, of k v] put by auto
  have ok: "table_ok ?e" "pow2_sized ?e" "entry_count ?e < length ?e" "table_ok (st_entry t')"
      "entry_count (st_entry t') < length (st_entry t')"
    using room p(4) by (auto simp: table_room_def table_ok_def)
  have stop: "stops_at k (?e ! p)" using first_slot_stops [OF ok(2) p(1)] by simp
  show "table_get t' k' = (if k' = k then Some (Some v) else table_get t k')"
  proof (cases "k' = k")
    case True
    then show ?thesis using table_get_stored [OF ok(4), of p k v] p by simp
  next
    case False
    show ?thesis
    proof (cases "\<exists>q w. q < length ?e \<and> ?e ! q = Some (k', w)")
      case True
      then obtain q w where q: "q < length ?e" "?e ! q = Some (k', w)" by blast
      then have "q \<noteq> p" using stop False by (auto simp: stops_at_def)
      then show ?thesis
        using table_get_stored [OF ok(1) q] table_get_stored [OF ok(4), of q k' w] q p(3) False by simp
    next
      case absent: False
      then have "st_entry t' ! q \<noteq> Some (k', w)" if "q < length (st_entry t')" for q w
        using that False p(2,3) by (cases "q = p") auto
      then show ?thesis
        using table_get_absent [OF ok(1,3)] table_get_absent [OF ok(4,5)] absent False by auto
    qed
  qed
qed

section \<open>From the empty table on\<close>

lemma push_bit_pow: "k < 63 \<Longrightarrow> push_bit 1 (2 ^ k :: u64) = 2 ^ Suc k"
  by (simp add: push_bit_eq_mult)

lemma next_pow2_loop_pow:
  "k \<le> 63 \<Longrightarrow> 63 - k \<le> fuel \<Longrightarrow> n \<le> 2 ^ 63 \<Longrightarrow>
    \<exists>m. k \<le> m \<and> m \<le> 63 \<and> next_pow2_loop (Suc fuel) (2 ^ k) n = Some (2 ^ m) \<and> n \<le> 2 ^ m"
proof (induction fuel arbitrary: k)
  case 0
  then have "k = 63" by simp
  then show ?case using 0 by (intro exI [of _ 63]) (simp add: not_less)
next
  case (Suc fuel)
  show ?case
  proof (cases "2 ^ k < n")
    case True
    then have k: "k < 63" using Suc.prems by (cases "k = 63") auto
    have "next_pow2_loop (Suc (Suc fuel)) (2 ^ k) n = next_pow2_loop (Suc fuel) (2 ^ Suc k) n"
      unfolding push_bit_pow [OF k, symmetric]
      by (subst next_pow2_loop.simps(2)) (simp only: True if_True)
    moreover have "Suc k \<le> 63" "63 - Suc k \<le> fuel" using k Suc.prems by auto
    ultimately show ?thesis using Suc.IH [of "Suc k"] Suc.prems(3) by (metis Suc_leD)
  next
    case False
    then have "next_pow2_loop (Suc (Suc fuel)) (2 ^ k) n = Some (2 ^ k)"
      by (subst next_pow2_loop.simps(2)) (simp only: if_False)
    then show ?thesis using False Suc.prems by (intro exI [of _ k]) (simp add: not_less del: next_pow2_loop.simps)
  qed
qed

lemma next_pow2_ok:
  assumes "n \<le> 2 ^ 63"
  obtains m where "m < 64" "next_pow2 n = Some (2 ^ m)" "n \<le> 2 ^ m"
proof -
  have "\<exists>m. 0 \<le> m \<and> m \<le> 63 \<and> next_pow2_loop (Suc 64) (2 ^ 0) n = Some (2 ^ m) \<and> n \<le> 2 ^ m"
    using assms by (intro next_pow2_loop_pow) simp_all
  then obtain m where "m \<le> 63" "next_pow2 n = Some (2 ^ m)" "n \<le> 2 ^ m" by (auto simp: next_pow2_def)
  then show thesis by (intro that [of m]) simp_all
qed

lemma unat_pow2: "m < 64 \<Longrightarrow> unat (2 ^ m :: u64) = 2 ^ m"
proof -
  assume "m < 64"
  then have "(2 :: nat) ^ m < 2 ^ 64" by (rule power_strict_increasing) simp
  then have "unat (of_nat (2 ^ m) :: u64) = 2 ^ m" by (simp add: unat_of_nat take_bit_nat_eq_self del: of_nat_power of_nat_numeral)
  then show ?thesis by simp
qed

lemma table_init_room:
  assumes "unat expected < 2 ^ 62 - 8"
  shows "\<exists>t. table_init expected = Some t \<and> table_room (unat expected) t \<and> (\<forall>k. table_get t k = Some None)"
proof -
  have u: "unat (expected * 2 + 16) = unat expected * 2 + 16"
    using assms by (simp add: unat_word_ariths)
  then have "expected * 2 + 16 \<le> 2 ^ 63" using assms by (simp add: word_le_nat_alt)
  then obtain m where m: "m < 64" "next_pow2 (expected * 2 + 16) = Some (2 ^ m)" "expected * 2 + 16 \<le> 2 ^ m"
    by (rule next_pow2_ok)
  define t where "t = \<lparr>st_entry = replicate (2 ^ m) None, st_used = 0 :: u64\<rparr>"
  have pow: "unat (2 ^ m :: u64) = 2 ^ m" using m(1) by (rule unat_pow2)
  have size: "unat expected * 2 + 16 \<le> 2 ^ m" using m(3) u pow by (simp add: word_le_nat_alt)
  have "pow2_sized (st_entry t)" using m(1) by (auto simp: t_def pow2_sized_def)
  then have ok: "table_ok (st_entry t)" by (simp add: table_ok_def t_def)
  have count: "entry_count (st_entry t) = 0" by (simp add: entry_count_def t_def)
  have "table_get t k = Some None" for k
    using ok count size by (intro table_get_absent) (simp_all add: t_def)
  moreover have "table_room (unat expected) t"
    using ok count size by (simp add: table_room_def t_def)
  moreover have "table_init expected = Some t" by (simp add: table_init_def m(2) t_def pow)
  ultimately show ?thesis by blast
qed

text \<open>The loops of \<open>vocab_load\<close> that fill a table.\<close>

fun table_put_all :: "str_i32_table \<Rightarrow> (u8 list \<times> int) list \<Rightarrow> str_i32_table option" where
  "table_put_all t [] = Some t"
| "table_put_all t ((k, v) # kvs) = (case table_put t k v of None \<Rightarrow> None | Some t' \<Rightarrow> table_put_all t' kvs)"

lemma table_put_all_eq: "table_put_all t kvs = str_table.insert_all t kvs"
  by (induction t kvs rule: table_put_all.induct) (auto split: option.split)

definition table_build :: "u64 \<Rightarrow> (u8 list \<times> int) list \<Rightarrow> str_i32_table option" where
  "table_build expected kvs = (case table_init expected of None \<Rightarrow> None | Some t \<Rightarrow> table_put_all t kvs)"

lemma table_build_ok:
  assumes "length kvs \<le> unat expected" and "unat expected < 2 ^ 62 - 8"
  shows "\<exists>t. table_build expected kvs = Some t \<and> (\<forall>k. table_get t k = Some (map_of (rev kvs) k))"
proof -
  obtain t where t: "table_init expected = Some t" "table_room (unat expected) t" "\<forall>k. table_get t k = Some None"
    using table_init_room [OF assms(2)] by blast
  have "table_room (length kvs) t" using t(2) assms(1) by (auto simp: table_room_def)
  then obtain t' where t': "str_table.insert_all t kvs = Some t'"
    "\<forall>k. table_get t' k = (case map_of (rev kvs) k of Some v \<Rightarrow> Some (Some v) | None \<Rightarrow> table_get t k)"
    using str_table.insert_all_map by blast
  have "table_get t' k = Some (map_of (rev kvs) k)" for k
    using t(3) t'(2) by (cases "map_of (rev kvs) k") simp_all
  then show ?thesis using t(1) t'(1) by (simp add: table_build_def table_put_all_eq)
qed

text \<open>C23. The open-addressed string table is a map: sized for the number of pairs, it takes them all, every
  insertion and every lookup returns, and a lookup gives the value of the last pair with the key, or
  nothing.\<close>

theorem str_table_is_map:
  assumes "length kvs \<le> unat expected" and "unat expected < 2 ^ 62 - 8"
  shows "\<exists>t. table_build expected kvs = Some t \<and> (\<forall>k. table_get t k = Some (map_of (rev kvs) k))"
  using assms by (rule table_build_ok)

theorem str_table_is_map_witness:
  "\<exists>t. table_build 3 [([0x61], 0), ([0x62, 0x63], 1), ([0x61], 2)] = Some t \<and>
    (\<forall>k. table_get t k = Some (map_of (rev [([0x61], 0), ([0x62, 0x63], 1), ([0x61], 2)]) k))"
  by (rule str_table_is_map) simp_all

end
