(* ===== verification/Tokenizer.thy ===== *)
theory Tokenizer
  imports Pretok_More Str_Table "HOL-Library.Monad_Syntax"
begin

text \<open>
  The tokenizer of ds4.c as a whole: \<open>vocab_load\<close>, \<open>bpe_tokenize_text\<close> for every model family, the
  special tokens and \<open>tokenize_rendered_chat_vocab\<close>. The arrays of the model file (tokens, merges, the two
  token ids of the metadata) are arguments.
\<close>

datatype model_family = DEEPSEEK4 | GLM_DSA | DEEPSEEK41 | QWEN4_EXP

record ds4_vocab =
  vo_bpe :: vocab
  vo_bos_id :: int
  vo_eos_id :: int
  vo_system_id :: int
  vo_user_id :: int
  vo_assistant_id :: int
  vo_observation_id :: int
  vo_sop_id :: int
  vo_think_start_id :: int
  vo_think_end_id :: int
  vo_tool_call_start_id :: int
  vo_tool_call_end_id :: int
  vo_tool_response_start_id :: int
  vo_tool_response_end_id :: int
  vo_arg_key_start_id :: int
  vo_arg_key_end_id :: int
  vo_arg_value_start_id :: int
  vo_arg_value_end_id :: int
  vo_dsml_id :: int
  vo_im_start_id :: int
  vo_im_end_id :: int
  vo_endoftext_id :: int

section \<open>Names of the special tokens\<close>

definition ascii :: "string \<Rightarrow> u8 list" where "ascii s = map of_char s"

text \<open>U+FF5C, the full-width bar, and U+2581, the lower block.\<close>

definition bar :: "u8 list" where "bar = [0xEF, 0xBD, 0x9C]"
definition blk :: "u8 list" where "blk = [0xE2, 0x96, 0x81]"

definition barred :: "u8 list \<Rightarrow> u8 list" where
  "barred name = ascii ''<'' @ bar @ name @ bar @ ascii ''>''"

definition name_bos :: "u8 list" where
  "name_bos = barred (ascii ''begin'' @ blk @ ascii ''of'' @ blk @ ascii ''sentence'')"

definition name_eos :: "u8 list" where
  "name_eos = barred (ascii ''end'' @ blk @ ascii ''of'' @ blk @ ascii ''sentence'')"

definition name_dsml :: "u8 list" where "name_dsml = bar @ ascii ''DSML'' @ bar"

section \<open>Loading\<close>

definition table_map :: "str_i32_table \<Rightarrow> u8 list \<Rightarrow> int option" where
  "table_map t k = (case table_get t k of Some r \<Rightarrow> r | None \<Rightarrow> None)"

text \<open>The token and merge tables; ranks are converted to \<open>int\<close>.\<close>

definition vocab_tables :: "u8 list list \<Rightarrow> u8 list list \<Rightarrow> vocab option" where
  "vocab_tables tokens merges =
     do {
       tt \<leftarrow> table_build (of_nat (length tokens)) (zip tokens (map int [0..<length tokens]));
       mt \<leftarrow> table_build (of_nat (length merges))
              (zip merges (map (\<lambda>i. sint (of_nat i :: u32)) [0..<length merges]));
       Some \<lparr>vo_token = tokens, vo_token_to_id = table_map tt, vo_merge_rank = table_map mt\<rparr>
     }"

text \<open>\<open>None\<close>: the program exits with a message.\<close>

definition vocab_lookup :: "vocab \<Rightarrow> u8 list \<Rightarrow> int option" where
  "vocab_lookup V name = vo_token_to_id V name"

definition vocab_lookup_optional :: "vocab \<Rightarrow> u8 list \<Rightarrow> int" where
  "vocab_lookup_optional V name = (case vo_token_to_id V name of Some t \<Rightarrow> t | None \<Rightarrow> -1)"

definition vocab_no_ids :: "vocab \<Rightarrow> ds4_vocab" where
  "vocab_no_ids V =
     \<lparr>vo_bpe = V, vo_bos_id = -1, vo_eos_id = -1, vo_system_id = -1, vo_user_id = -1, vo_assistant_id = -1,
      vo_observation_id = -1, vo_sop_id = -1, vo_think_start_id = -1, vo_think_end_id = -1,
      vo_tool_call_start_id = -1, vo_tool_call_end_id = -1, vo_tool_response_start_id = -1,
      vo_tool_response_end_id = -1, vo_arg_key_start_id = -1, vo_arg_key_end_id = -1,
      vo_arg_value_start_id = -1, vo_arg_value_end_id = -1, vo_dsml_id = -1, vo_im_start_id = -1,
      vo_im_end_id = -1, vo_endoftext_id = -1\<rparr>"

definition vocab_ids_qwen :: "vocab \<Rightarrow> ds4_vocab option" where
  "vocab_ids_qwen V =
     do {
       im_start \<leftarrow> vocab_lookup V (ascii ''<|im_start|>'');
       im_end \<leftarrow> vocab_lookup V (ascii ''<|im_end|>'');
       endoftext \<leftarrow> vocab_lookup V (ascii ''<|endoftext|>'');
       think_start \<leftarrow> vocab_lookup V (ascii ''<think>'');
       think_end \<leftarrow> vocab_lookup V (ascii ''</think>'');
       Some ((vocab_no_ids V)
         \<lparr>vo_im_start_id := im_start, vo_im_end_id := im_end, vo_endoftext_id := endoftext, vo_eos_id := im_end,
          vo_think_start_id := think_start, vo_think_end_id := think_end,
          vo_tool_call_start_id := vocab_lookup_optional V (ascii ''<tool_call>''),
          vo_tool_call_end_id := vocab_lookup_optional V (ascii ''</tool_call>''),
          vo_tool_response_start_id := vocab_lookup_optional V (ascii ''<tool_response>''),
          vo_tool_response_end_id := vocab_lookup_optional V (ascii ''</tool_response>'')\<rparr>)
     }"

definition vocab_ids_glm :: "vocab \<Rightarrow> int option \<Rightarrow> int option \<Rightarrow> ds4_vocab" where
  "vocab_ids_glm V bos_meta eos_meta =
     (vocab_no_ids V)
       \<lparr>vo_bos_id := (case bos_meta of Some t \<Rightarrow> t | None \<Rightarrow> vocab_lookup_optional V (ascii ''<sop>'')),
        vo_eos_id := (case eos_meta of Some t \<Rightarrow> t | None \<Rightarrow> vocab_lookup_optional V (ascii ''<|endoftext|>'')),
        vo_system_id := vocab_lookup_optional V (ascii ''<|system|>''),
        vo_user_id := vocab_lookup_optional V (ascii ''<|user|>''),
        vo_assistant_id := vocab_lookup_optional V (ascii ''<|assistant|>''),
        vo_observation_id := vocab_lookup_optional V (ascii ''<|observation|>''),
        vo_sop_id := vocab_lookup_optional V (ascii ''<sop>''),
        vo_think_start_id := vocab_lookup_optional V (ascii ''<think>''),
        vo_think_end_id := vocab_lookup_optional V (ascii ''</think>''),
        vo_tool_call_start_id := vocab_lookup_optional V (ascii ''<tool_call>''),
        vo_tool_call_end_id := vocab_lookup_optional V (ascii ''</tool_call>''),
        vo_tool_response_start_id := vocab_lookup_optional V (ascii ''<tool_response>''),
        vo_tool_response_end_id := vocab_lookup_optional V (ascii ''</tool_response>''),
        vo_arg_key_start_id := vocab_lookup_optional V (ascii ''<arg_key>''),
        vo_arg_key_end_id := vocab_lookup_optional V (ascii ''</arg_key>''),
        vo_arg_value_start_id := vocab_lookup_optional V (ascii ''<arg_value>''),
        vo_arg_value_end_id := vocab_lookup_optional V (ascii ''</arg_value>'')\<rparr>"

definition vocab_ids_deepseek :: "model_family \<Rightarrow> vocab \<Rightarrow> ds4_vocab option" where
  "vocab_ids_deepseek fam V =
     do {
       bos \<leftarrow> vocab_lookup V name_bos;
       eos \<leftarrow> vocab_lookup V name_eos;
       system \<leftarrow> (if fam = DEEPSEEK41 then vocab_lookup V (barred (ascii ''System'')) else Some (-1));
       user \<leftarrow> vocab_lookup V (barred (ascii ''User''));
       assistant \<leftarrow> vocab_lookup V (barred (ascii ''Assistant''));
       think_start \<leftarrow> vocab_lookup V (ascii ''<think>'');
       think_end \<leftarrow> vocab_lookup V (ascii ''</think>'');
       dsml \<leftarrow> vocab_lookup V name_dsml;
       Some ((vocab_no_ids V)
         \<lparr>vo_bos_id := bos, vo_eos_id := eos, vo_system_id := system, vo_user_id := user,
          vo_assistant_id := assistant, vo_think_start_id := think_start, vo_think_end_id := think_end,
          vo_dsml_id := dsml\<rparr>)
     }"

definition vocab_load ::
  "model_family \<Rightarrow> u8 list list option \<Rightarrow> u8 list list option \<Rightarrow> int option \<Rightarrow> int option \<Rightarrow> ds4_vocab option" where
  "vocab_load fam tokens merges bos_meta eos_meta =
     do {
       tokens \<leftarrow> tokens;
       _ \<leftarrow> (if INT32_MAX < int (length tokens) then None else Some ());
       merges \<leftarrow> merges;
       V \<leftarrow> vocab_tables tokens merges;
       (if fam = QWEN4_EXP then vocab_ids_qwen V
        else if fam = GLM_DSA then Some (vocab_ids_glm V bos_meta eos_meta)
        else vocab_ids_deepseek fam V)
     }"

section \<open>Tokenizing text\<close>

definition bpe_text_pieces :: "model_family \<Rightarrow> unicode_tables \<Rightarrow> u8 list \<Rightarrow> u8 list list" where
  "bpe_text_pieces fam T text =
     (if fam = GLM_DSA then glm4_pieces text 0
      else if fam = QWEN4_EXP then qwen35_pieces T text 0
      else deepseek_pieces T text 0 0)"

definition bpe_tokenize_text :: "vocab \<Rightarrow> model_family \<Rightarrow> unicode_tables \<Rightarrow> u8 list \<Rightarrow> int list" where
  "bpe_tokenize_text V fam T text = concat (map (bpe_emit_piece V) (bpe_text_pieces fam T text))"

definition ds4_tokenize_text :: "ds4_vocab \<Rightarrow> model_family \<Rightarrow> unicode_tables \<Rightarrow> u8 list option \<Rightarrow> int list" where
  "ds4_tokenize_text V fam T text =
     bpe_tokenize_text (vo_bpe V) fam T (case text of Some t \<Rightarrow> t | None \<Rightarrow> [])"

text \<open>The names a rendered chat may hold and the tokens they stand for.\<close>

definition special_tokens :: "ds4_vocab \<Rightarrow> model_family \<Rightarrow> (u8 list \<times> int) list" where
  "special_tokens V fam =
     (let glm = (fam = GLM_DSA)
      in [(name_bos, vo_bos_id V), (name_eos, vo_eos_id V),
          (ascii ''[gMASK]'', if glm then vo_bos_id V else -1),
          (ascii ''<sop>'', vo_sop_id V),
          (ascii ''<|system|>'', if glm then vo_system_id V else -1),
          (barred (ascii ''System''), if fam = DEEPSEEK41 then vo_system_id V else -1),
          (barred (ascii ''User''), vo_user_id V),
          (barred (ascii ''Assistant''), vo_assistant_id V),
          (ascii ''<|user|>'', if glm then vo_user_id V else -1),
          (ascii ''<|assistant|>'', if glm then vo_assistant_id V else -1),
          (ascii ''<|observation|>'', if glm then vo_observation_id V else -1),
          (ascii ''<think>'', vo_think_start_id V), (ascii ''</think>'', vo_think_end_id V),
          (ascii ''<tool_call>'', vo_tool_call_start_id V), (ascii ''</tool_call>'', vo_tool_call_end_id V),
          (ascii ''<tool_response>'', vo_tool_response_start_id V),
          (ascii ''</tool_response>'', vo_tool_response_end_id V),
          (ascii ''<arg_key>'', vo_arg_key_start_id V), (ascii ''</arg_key>'', vo_arg_key_end_id V),
          (ascii ''<arg_value>'', vo_arg_value_start_id V), (ascii ''</arg_value>'', vo_arg_value_end_id V),
          (name_dsml, vo_dsml_id V),
          (ascii ''<|im_start|>'', vo_im_start_id V), (ascii ''<|im_end|>'', vo_im_end_id V),
          (ascii ''<|endoftext|>'', vo_endoftext_id V)])"

fun special_loop :: "(u8 list \<times> int) list \<Rightarrow> u8 list \<Rightarrow> (int \<times> nat) option" where
  "special_loop [] p = None"
| "special_loop ((name, token) # specials) p =
     (if token < 0 then special_loop specials p
      else if take (length name) p = name then Some (token, length name)
      else special_loop specials p)"

definition special_token_at :: "ds4_vocab \<Rightarrow> model_family \<Rightarrow> u8 list \<Rightarrow> (int \<times> nat) option" where
  "special_token_at V fam p = special_loop (special_tokens V fam) p"

definition tokenize_span :: "ds4_vocab \<Rightarrow> model_family \<Rightarrow> unicode_tables \<Rightarrow> u8 list \<Rightarrow> int list" where
  "tokenize_span V fam T span = (if span = [] then [] else bpe_tokenize_text (vo_bpe V) fam T span)"

lemma special_loop_Some:
  "special_loop specials p = Some (token, n) \<Longrightarrow>
    \<exists>name. (name, token) \<in> set specials \<and> 0 \<le> token \<and> n = length name \<and> take n p = name"
  by (induction specials p rule: special_loop.induct) (auto split: if_splits)

lemma special_names_nonempty: "(name, token) \<in> set (special_tokens V fam) \<Longrightarrow> name \<noteq> []"
  by (auto simp: special_tokens_def Let_def name_bos_def name_eos_def name_dsml_def barred_def ascii_def bar_def)

lemma special_token_at_Some:
  assumes "special_token_at V fam p = Some (token, n)"
  obtains name where "(name, token) \<in> set (special_tokens V fam)" "0 \<le> token" "n = length name" "p = name @ drop n p"
    "name \<noteq> []"
proof -
  obtain name where name: "(name, token) \<in> set (special_tokens V fam)" "0 \<le> token" "n = length name" "take n p = name"
    using special_loop_Some [OF assms [unfolded special_token_at_def]] by blast
  moreover have "p = name @ drop n p" using name(4) append_take_drop_id [of n p] by simp
  ultimately show thesis using that special_names_nonempty by blast
qed

text \<open>The scan of a rendered chat: \<open>span\<close> is the plain text since the last special token.\<close>

function rendered_loop :: "ds4_vocab \<Rightarrow> model_family \<Rightarrow> unicode_tables \<Rightarrow> u8 list \<Rightarrow> u8 list \<Rightarrow> int list" where
  "rendered_loop V fam T span p =
     (if p = [] then tokenize_span V fam T span
      else case special_token_at V fam p of
        Some (token, n) \<Rightarrow> tokenize_span V fam T span @ token # rendered_loop V fam T [] (drop n p)
      | None \<Rightarrow> rendered_loop V fam T (span @ [p ! 0]) (drop 1 p))"
  by pat_completeness auto
termination
proof (relation "measure (\<lambda>(V, fam, T, span, p). length p)", goal_cases)
  case (3 V fam T span p x token n)
  then have "0 < n" by (auto elim!: special_token_at_Some)
  then show ?case using 3 by simp
qed auto

declare rendered_loop.simps [simp del]

definition tokenize_rendered_chat :: "ds4_vocab \<Rightarrow> model_family \<Rightarrow> unicode_tables \<Rightarrow> u8 list option \<Rightarrow> int list" where
  "tokenize_rendered_chat V fam T text =
     rendered_loop V fam T [] (case text of Some t \<Rightarrow> t | None \<Rightarrow> [])"

section \<open>Tokens give the text back\<close>

definition tokens_text :: "ds4_vocab \<Rightarrow> int list \<Rightarrow> u8 list" where
  "tokens_text V tokens = concat (map (ds4_token_text (vo_bpe V)) tokens)"

lemma tokens_text_simps [simp]:
  "tokens_text V [] = []" "tokens_text V (t # ts) = ds4_token_text (vo_bpe V) t @ tokens_text V ts"
  "tokens_text V (ts @ us) = tokens_text V ts @ tokens_text V us"
  by (simp_all add: tokens_text_def)

lemma bpe_text_pieces_text: "concat (bpe_text_pieces fam T text) = text"
  by (simp add: bpe_text_pieces_def glm4_pieces_text qwen35_pieces_text deepseek_pieces_text)

lemma bpe_tokenize_text_back:
  assumes "vocab_ok (vo_bpe V)"
  shows "tokens_text V (bpe_tokenize_text (vo_bpe V) fam T text) = text"
proof -
  have "tokens_text V (concat (map (bpe_emit_piece (vo_bpe V)) ps)) = concat ps" for ps
    by (induction ps) (simp_all add: tokens_text_def bpe_piece_text [OF assms])
  then show ?thesis by (simp add: bpe_tokenize_text_def bpe_text_pieces_text)
qed

section \<open>The loaded vocabulary\<close>

text \<open>What a byte-level BPE model file provides: every byte symbol and the result of every merge is a token.\<close>

definition bpe_data_ok :: "u8 list list \<Rightarrow> u8 list list \<Rightarrow> bool" where
  "bpe_data_ok tokens merges \<longleftrightarrow>
     (\<forall>b. bpe_byte b \<in> set tokens) \<and> (\<forall>a b. a @ [0x20] @ b \<in> set merges \<longrightarrow> a @ b \<in> set tokens)"

lemma table_build_map:
  assumes "length ks = length vs" and "length ks < 2 ^ 61" and "table_build (of_nat (length ks)) (zip ks vs) = Some t"
  shows "table_map t = map_of (rev (zip ks vs))"
proof -
  have u: "unat (of_nat (length ks) :: u64) = length ks"
    using assms(2) by (simp add: unat_of_nat take_bit_nat_eq_self)
  have "\<exists>t. table_build (of_nat (length ks)) (zip ks vs) = Some t \<and>
      (\<forall>k. table_get t k = Some (map_of (rev (zip ks vs)) k))"
    by (rule table_build_ok) (use assms u in simp_all)
  then show ?thesis using assms(3) by (auto simp: table_map_def)
qed

lemma map_of_rev_zip_Some:
  "length ks = length vs \<Longrightarrow> map_of (rev (zip ks vs)) k = Some v \<Longrightarrow> \<exists>i < length ks. ks ! i = k \<and> vs ! i = v"
  by (drule map_of_SomeD) (auto simp: in_set_zip)

lemma map_of_rev_zip_None: "length ks = length vs \<Longrightarrow> map_of (rev (zip ks vs)) k = None \<longleftrightarrow> k \<notin> set ks"
  by (simp add: map_of_eq_None_iff image_set flip: set_map)

lemma vocab_tables_ok:
  assumes "vocab_tables tokens merges = Some V" and "length tokens < 2 ^ 61" and "length merges < 2 ^ 61"
  shows "vo_token V = tokens"
    and "vo_token_to_id V s = Some t \<Longrightarrow> 0 \<le> t \<and> t < int (length tokens) \<and> tokens ! nat t = s"
    and "s \<in> set tokens \<Longrightarrow> vo_token_to_id V s \<noteq> None"
    and "vo_merge_rank V s = Some r \<Longrightarrow> s \<in> set merges"
proof -
  let ?ids = "map int [0..<length tokens]" and ?ranks = "map (\<lambda>i. sint (of_nat i :: u32)) [0..<length merges]"
  obtain tt mt where t: "table_build (of_nat (length tokens)) (zip tokens ?ids) = Some tt"
      "table_build (of_nat (length merges)) (zip merges ?ranks) = Some mt"
      "V = \<lparr>vo_token = tokens, vo_token_to_id = table_map tt, vo_merge_rank = table_map mt\<rparr>"
    using assms(1) by (auto simp: vocab_tables_def bind_eq_Some_conv)
  have maps: "vo_token_to_id V = map_of (rev (zip tokens ?ids))" "vo_merge_rank V = map_of (rev (zip merges ?ranks))"
    using t(3) table_build_map [OF _ assms(2) t(1)] table_build_map [OF _ assms(3) t(2)] by simp_all
  show "vo_token V = tokens" using t(3) by simp
  show "0 \<le> t \<and> t < int (length tokens) \<and> tokens ! nat t = s" if "vo_token_to_id V s = Some t"
    using map_of_rev_zip_Some [of tokens ?ids s t] that maps(1) by auto
  show "vo_token_to_id V s \<noteq> None" if "s \<in> set tokens"
    using map_of_rev_zip_None [of tokens ?ids s] that maps(1) by simp
  show "s \<in> set merges" if "vo_merge_rank V s = Some r"
    using map_of_rev_zip_Some [of merges ?ranks s r] that maps(2) by auto
qed

lemma vocab_load_tables:
  assumes "vocab_load fam (Some tokens) (Some merges) bos eos = Some V"
  shows "vocab_tables tokens merges = Some (vo_bpe V) \<and> int (length tokens) \<le> INT32_MAX"
  using assms
  by (auto simp: vocab_load_def vocab_ids_qwen_def vocab_ids_glm_def vocab_ids_deepseek_def vocab_no_ids_def
      bind_eq_Some_conv split: if_splits)

lemma vocab_load_ok:
  assumes load: "vocab_load fam (Some tokens) (Some merges) bos eos = Some V" and data: "bpe_data_ok tokens merges"
    and "length merges < 2 ^ 61"
  shows "vocab_ok (vo_bpe V)"
proof -
  let ?V = "vo_bpe V"
  have "length tokens < 2 ^ 61" using vocab_load_tables [OF load] by (simp add: INT32_MAX_def)
  note V = vocab_tables_ok [OF conjunct1 [OF vocab_load_tables [OF load]] this assms(3)]
  have "vo_token_to_id ?V (a @ b) \<noteq> None" if "0 \<le> bpe_rank ?V a b" for a b
  proof -
    have "vo_merge_rank ?V (a @ [0x20] @ b) \<noteq> None"
      by (rule notI) (use that in \<open>simp add: bpe_rank_def\<close>)
    then obtain r where "vo_merge_rank ?V (a @ [0x20] @ b) = Some r" by blast
    then have "a @ b \<in> set tokens" using V(4) data by (auto simp: bpe_data_ok_def)
    then show ?thesis by (rule V(3))
  qed
  moreover have "vo_token_to_id ?V (bpe_byte b) \<noteq> None" for b
    using data by (intro V(3)) (simp add: bpe_data_ok_def)
  ultimately show ?thesis using V(1,2) by (simp add: vocab_ok_def)
qed

text \<open>C22. Tokenizing loses nothing: with any loaded byte-level vocabulary and for every model family, the
  texts of the tokens of any text are together that text, byte for byte, whether or not it is valid
  UTF-8.\<close>

theorem tokenize_roundtrip:
  assumes "vocab_load fam (Some tokens) (Some merges) bos eos = Some V" and "bpe_data_ok tokens merges"
    and "length merges < 2 ^ 61"
  shows "concat (map (ds4_token_text (vo_bpe V)) (ds4_tokenize_text V fam T (Some text))) = text"
  using bpe_tokenize_text_back [OF vocab_load_ok [OF assms], of fam T]
  by (simp add: ds4_tokenize_text_def tokens_text_def)

section \<open>Rendered chats\<close>

lemma lookup_text:
  assumes "vocab_ok V" and "vocab_lookup V name = Some t"
    and "vocab_token_is_literal_special name \<or> byte_encode name = name"
  shows "ds4_token_text V t = name"
proof -
  have t: "0 \<le> t" "t < int (length (vo_token V))" "vo_token V ! nat t = name"
    using assms(1,2) by (auto simp: vocab_ok_def vocab_lookup_def)
  show ?thesis
  proof (cases "vocab_token_is_literal_special name")
    case False
    then have "bpe_decode_loop name = name" using assms(3) bpe_decode_encode [of name] by simp
    then show ?thesis using t False by (simp add: ds4_token_text_def)
  qed (use t in \<open>simp add: ds4_token_text_def\<close>)
qed

lemma deepseek_names:
  "vocab_token_is_literal_special name_bos" "vocab_token_is_literal_special name_eos"
  "vocab_token_is_literal_special name_dsml" "vocab_token_is_literal_special (barred (ascii ''System''))"
  "vocab_token_is_literal_special (barred (ascii ''User''))"
  "vocab_token_is_literal_special (barred (ascii ''Assistant''))"
  "byte_encode (ascii ''<think>'') = ascii ''<think>''" "byte_encode (ascii ''</think>'') = ascii ''</think>''"
  by code_simp+

lemma rendered_loop_text:
  assumes "vocab_ok (vo_bpe V)"
    and "\<And>name token. (name, token) \<in> set (special_tokens V fam) \<Longrightarrow> 0 \<le> token \<Longrightarrow>
      ds4_token_text (vo_bpe V) token = name"
  shows "tokens_text V (rendered_loop V fam T span p) = span @ p"
proof (induction "length p" arbitrary: span p rule: less_induct)
  case less
  have span: "tokens_text V (tokenize_span V fam T sp) = sp" for sp
    by (simp add: tokenize_span_def bpe_tokenize_text_back [OF assms(1)])
  show ?case
  proof (cases "p = []")
    case True
    then show ?thesis by (simp add: rendered_loop.simps [of V fam T span] span)
  next
    case nonempty: False
    show ?thesis
    proof (cases "special_token_at V fam p")
      case None
      obtain c q where p: "p = c # q" using nonempty by (cases p) auto
      have "rendered_loop V fam T span p = rendered_loop V fam T (span @ [c]) q"
        using None p by (subst rendered_loop.simps) simp
      then show ?thesis using less [of q "span @ [c]"] p by simp
    next
      case (Some r)
      obtain token n where r: "r = (token, n)" by fastforce
      obtain name where name: "(name, token) \<in> set (special_tokens V fam)" "0 \<le> token" "n = length name"
          "p = name @ drop n p" "name \<noteq> []"
        using special_token_at_Some [OF Some [unfolded r]] by blast
      have "length (drop n p) < length p" using name(3,5) nonempty by simp
      then show ?thesis
        using less [of "drop n p" "[]"] assms(2) [OF name(1,2)] Some r nonempty span name(4)
        by (subst rendered_loop.simps) simp
    qed
  qed
qed

lemma vocab_load_deepseek:
  assumes "vocab_load fam (Some tokens) (Some merges) bos eos = Some V" and "fam = DEEPSEEK4 \<or> fam = DEEPSEEK41"
  shows "vocab_ids_deepseek fam (vo_bpe V) = Some V"
  using assms
  by (auto simp: vocab_load_def vocab_ids_deepseek_def vocab_no_ids_def bind_eq_Some_conv split: if_splits)

lemma deepseek_special_lookup:
  assumes "vocab_ids_deepseek fam B = Some V" and "fam = DEEPSEEK4 \<or> fam = DEEPSEEK41"
    and "(name, token) \<in> set (special_tokens V fam)" and "0 \<le> token"
  shows "vocab_lookup B name = Some token \<and> (vocab_token_is_literal_special name \<or> byte_encode name = name)"
proof -
  obtain i_bos i_eos i_system i_user i_assistant i_start i_end i_dsml where
    found: "vocab_lookup B name_bos = Some i_bos" "vocab_lookup B name_eos = Some i_eos"
      "(if fam = DEEPSEEK41 then vocab_lookup B (barred (ascii ''System'')) else Some (-1)) = Some i_system"
      "vocab_lookup B (barred (ascii ''User'')) = Some i_user"
      "vocab_lookup B (barred (ascii ''Assistant'')) = Some i_assistant"
      "vocab_lookup B (ascii ''<think>'') = Some i_start" "vocab_lookup B (ascii ''</think>'') = Some i_end"
      "vocab_lookup B name_dsml = Some i_dsml"
    and V: "V = (vocab_no_ids B)
         \<lparr>vo_bos_id := i_bos, vo_eos_id := i_eos, vo_system_id := i_system, vo_user_id := i_user,
          vo_assistant_id := i_assistant, vo_think_start_id := i_start, vo_think_end_id := i_end,
          vo_dsml_id := i_dsml\<rparr>"
    using assms(1) unfolding vocab_ids_deepseek_def bind_eq_Some_conv by blast
  have "fam \<noteq> GLM_DSA" using assms(2) by auto
  then have "(name, token) \<in> {(name_bos, i_bos), (name_eos, i_eos),
      (barred (ascii ''System''), if fam = DEEPSEEK41 then i_system else -1),
      (barred (ascii ''User''), i_user), (barred (ascii ''Assistant''), i_assistant),
      (ascii ''<think>'', i_start), (ascii ''</think>'', i_end), (name_dsml, i_dsml)}"
    using assms(3,4) by (auto simp: special_tokens_def V vocab_no_ids_def Let_def)
  then show ?thesis
    using found deepseek_names assms(4) by (auto split: if_splits)
qed

text \<open>C21. A rendered chat survives its tokens: for the DeepSeek models the texts of the tokens of a rendered
  chat, role markers, think markers and tool markers included, are the rendered text, so a prompt
  rebuilt from tokens is the prompt that was tokenized.\<close>

theorem rendered_chat_roundtrip:
  assumes "vocab_load fam (Some tokens) (Some merges) bos eos = Some V" and "fam = DEEPSEEK4 \<or> fam = DEEPSEEK41"
    and "bpe_data_ok tokens merges" and "length merges < 2 ^ 61"
  shows "concat (map (ds4_token_text (vo_bpe V)) (tokenize_rendered_chat V fam T (Some text))) = text"
proof -
  have ok: "vocab_ok (vo_bpe V)" using vocab_load_ok [OF assms(1,3,4)] .
  have ids: "vocab_ids_deepseek fam (vo_bpe V) = Some V" using assms(1,2) by (rule vocab_load_deepseek)
  have "ds4_token_text (vo_bpe V) token = name"
    if "(name, token) \<in> set (special_tokens V fam)" "0 \<le> token" for name token
    using deepseek_special_lookup [OF ids assms(2) that] lookup_text [OF ok] by blast
  then show ?thesis
    using rendered_loop_text [OF ok, of fam T "[]"] by (simp add: tokenize_rendered_chat_def tokens_text_def)
qed

text \<open>With tables of usable size and every required name among the tokens, loading succeeds.\<close>

lemma vocab_load_deepseek_total:
  assumes "length tokens < 2 ^ 31" and "length merges < 2 ^ 61"
    and "{name_bos, name_eos, barred (ascii ''User''), barred (ascii ''Assistant''), ascii ''<think>'',
      ascii ''</think>'', name_dsml} \<subseteq> set tokens"
  shows "\<exists>V. vocab_load DEEPSEEK4 (Some tokens) (Some merges) bos eos = Some V"
proof -
  let ?ids = "map int [0..<length tokens]" and ?ranks = "map (\<lambda>i. sint (of_nat i :: u32)) [0..<length merges]"
  have u: "unat (of_nat (length tokens) :: u64) = length tokens" "unat (of_nat (length merges) :: u64) = length merges"
    using assms(1,2) by (simp_all add: unat_of_nat take_bit_nat_eq_self)
  have "\<exists>t. table_build (of_nat (length tokens)) (zip tokens ?ids) = Some t \<and>
      (\<forall>k. table_get t k = Some (map_of (rev (zip tokens ?ids)) k))"
    by (rule table_build_ok) (use assms u in simp_all)
  moreover have "\<exists>t. table_build (of_nat (length merges)) (zip merges ?ranks) = Some t \<and>
      (\<forall>k. table_get t k = Some (map_of (rev (zip merges ?ranks)) k))"
    by (rule table_build_ok) (use assms u in simp_all)
  ultimately obtain B where B: "vocab_tables tokens merges = Some B" by (auto simp: vocab_tables_def)
  have "vo_token_to_id B s \<noteq> None" if "s \<in> set tokens" for s
    using vocab_tables_ok(3) [OF B _ assms(2) that] assms(1) by simp
  then have "\<forall>s \<in> {name_bos, name_eos, barred (ascii ''User''), barred (ascii ''Assistant''), ascii ''<think>'',
      ascii ''</think>'', name_dsml}. \<exists>t. vocab_lookup B s = Some t"
    using assms(3) unfolding vocab_lookup_def by blast
  then have "\<exists>V. vocab_ids_deepseek DEEPSEEK4 B = Some V"
    by (auto simp: vocab_ids_deepseek_def)
  then show ?thesis using assms(1) B by (auto simp: vocab_load_def INT32_MAX_def)
qed

text \<open>A small vocabulary: the byte symbols, one merge, and the names.\<close>

definition demo_tokens :: "u8 list list" where
  "demo_tokens = map (\<lambda>i. bpe_byte (of_nat i)) [0..<256] @
     [[0x61, 0x62], name_bos, name_eos, barred (ascii ''User''), barred (ascii ''Assistant''), ascii ''<think>'',
      ascii ''</think>'', name_dsml]"

definition demo_merges :: "u8 list list" where "demo_merges = [[0x61, 0x20, 0x62]]"

lemma demo_data: "bpe_data_ok demo_tokens demo_merges"
proof -
  have "bpe_byte b \<in> set demo_tokens" for b
  proof -
    have "unat b < 256" using unsigned_less [of b] by simp
    then have "bpe_byte b \<in> set (map (\<lambda>i. bpe_byte (of_nat i)) [0..<256])"
      unfolding set_map by (intro image_eqI [where x = "unat b"]) simp_all
    then show ?thesis by (simp add: demo_tokens_def)
  qed
  moreover have "a @ b \<in> set demo_tokens" if "a @ [0x20] @ b \<in> set demo_merges" for a b
  proof -
    have "a @ b = [0x61, 0x62]"
      using that by (auto simp: demo_merges_def append_eq_Cons_conv)
    then show ?thesis by (simp add: demo_tokens_def)
  qed
  ultimately show ?thesis by (simp add: bpe_data_ok_def)
qed

lemma demo_load: "\<exists>V. vocab_load DEEPSEEK4 (Some demo_tokens) (Some demo_merges) None None = Some V"
  by (rule vocab_load_deepseek_total) (simp_all add: demo_tokens_def demo_merges_def)

definition demo_tables :: unicode_tables where
  "demo_tables = \<lparr>ut_letter = [], ut_mark = [], ut_number = [], ut_space = [], ut_deepseek = [(0x61, 0x7A, 1)]\<rparr>"

theorem tokenize_roundtrip_witness:
  "\<exists>V. vocab_load DEEPSEEK4 (Some demo_tokens) (Some demo_merges) None None = Some V \<and>
    concat (map (ds4_token_text (vo_bpe V))
      (ds4_tokenize_text V DEEPSEEK4 demo_tables (Some [0x61, 0x62, 0x20, 0xFF, 0x39]))) = [0x61, 0x62, 0x20, 0xFF, 0x39]"
proof -
  obtain V where V: "vocab_load DEEPSEEK4 (Some demo_tokens) (Some demo_merges) None None = Some V"
    using demo_load by blast
  have "length demo_merges < 2 ^ 61" by (simp add: demo_merges_def)
  from tokenize_roundtrip [OF V demo_data this] V show ?thesis by blast
qed

theorem rendered_chat_roundtrip_witness:
  "\<exists>V. vocab_load DEEPSEEK4 (Some demo_tokens) (Some demo_merges) None None = Some V \<and>
    concat (map (ds4_token_text (vo_bpe V))
      (tokenize_rendered_chat V DEEPSEEK4 demo_tables (Some (name_bos @ [0x61, 0x62] @ ascii ''<think>'')))) =
    name_bos @ [0x61, 0x62] @ ascii ''<think>''"
proof -
  obtain V where V: "vocab_load DEEPSEEK4 (Some demo_tokens) (Some demo_merges) None None = Some V"
    using demo_load by blast
  have "length demo_merges < 2 ^ 61" "DEEPSEEK4 = DEEPSEEK4 \<or> DEEPSEEK4 = DEEPSEEK41" by (simp_all add: demo_merges_def)
  from rendered_chat_roundtrip [OF V this(2) demo_data this(1)] V show ?thesis by blast
qed

section \<open>What the Qwen vocabulary does with a DeepSeek name\<close>

text \<open>
  The guard \<open>glm ? id : -1\<close> keeps the GLM names plain text in other models; the DeepSeek names have
  no such guard, and in a Qwen model the end-of-sentence name is the token that ends a turn.
\<close>

lemma qwen_ids:
  "vocab_ids_qwen B = Some V \<Longrightarrow>
    vo_bos_id V = -1 \<and> vo_eos_id V = vo_im_end_id V \<and>
    vo_token_to_id B (ascii ''<|im_end|>'') = Some (vo_im_end_id V)"
  by (auto simp: vocab_ids_qwen_def vocab_no_ids_def vocab_lookup_def bind_eq_Some_conv)

lemma qwen_end_of_sentence_is_im_end:
  assumes "vocab_load QWEN4_EXP (Some tokens) (Some merges) bos eos = Some V" and "length merges < 2 ^ 61"
  shows "special_token_at V QWEN4_EXP (name_eos @ rest) = Some (vo_im_end_id V, length name_eos)"
proof -
  have "length tokens < 2 ^ 61" using vocab_load_tables [OF assms(1)] by (simp add: INT32_MAX_def)
  note B = vocab_tables_ok(2) [OF conjunct1 [OF vocab_load_tables [OF assms(1)]] this assms(2)]
  have "vocab_ids_qwen (vo_bpe V) = Some V"
    using assms(1)
    by (auto simp: vocab_load_def vocab_ids_qwen_def vocab_no_ids_def bind_eq_Some_conv split: if_splits)
  note ids = qwen_ids [OF this]
  then show ?thesis using B [OF ids [THEN conjunct2, THEN conjunct2]] by (simp add: special_token_at_def special_tokens_def Let_def)
qed

end
