(* ===== verification/Gguf_Vocab.thy ===== *)
theory Gguf_Vocab
  imports Gguf_Open Tokenizer
begin

text \<open>
  The two ends put together: \<open>vocab_load\<close> reads its token and merge strings from the opened model file, and
  the tokenizer it builds loses nothing.
\<close>

text \<open>The string loops of \<open>vocab_load\<close>.\<close>

fun read_strings :: "nat \<Rightarrow> ds4_cursor \<Rightarrow> u8 list list option" where
  "read_strings 0 c = Some []"
| "read_strings (Suc n) c =
     (case cursor_string c of
        (None, _) \<Rightarrow> None
      | (Some s, c) \<Rightarrow> map_option (Cons s) (read_strings n c))"

definition model_string_array :: "ds4_model \<Rightarrow> string \<Rightarrow> u8 list list option" where
  "model_string_array m key =
     (case model_get_array m key of
        None \<Rightarrow> None
      | Some arr \<Rightarrow> if ar_type arr \<noteq> GGUF_VALUE_STRING then None
                    else read_strings (unat (ar_len arr)) (cursor_at m (ar_data_pos arr)))"

definition model_vocab_load :: "model_family \<Rightarrow> ds4_model \<Rightarrow> ds4_vocab option" where
  "model_vocab_load fam m =
     vocab_load fam (model_string_array m ''tokenizer.ggml.tokens'') (model_string_array m ''tokenizer.ggml.merges'')
       (model_get_token_id m ''tokenizer.ggml.bos_token_id'') (model_get_token_id m ''tokenizer.ggml.eos_token_id'')"

fun gv_strings :: "gguf_value \<Rightarrow> u8 list list option" where
  "gv_strings (GArray t vs) =
     (if t = GGUF_VALUE_STRING then Some (map (\<lambda>v. case v of GString s \<Rightarrow> s | _ \<Rightarrow> []) vs) else None)"
| "gv_strings _ = None"

lemma read_strings_at:
  "cursor_ok c \<Longrightarrow> cursor_left c = enc_list str_bytes ss @ rest \<Longrightarrow> list_all str_ok ss \<Longrightarrow>
     read_strings (length ss) c = Some ss"
proof (induction ss arbitrary: c)
  case (Cons s ss)
  let ?c = "cursor_adv c (length (str_bytes s))"
  have "takes str_bytes str_ok c s ?c" using Cons.prems by (simp add: takes_def)
  then have "cursor_string c = (Some s, ?c)" using Cons.prems(1) cursor_string_takes by blast
  moreover have "read_strings (length ss) ?c = Some ss" by (rule Cons.IH) (use Cons.prems in simp_all)
  ultimately show ?case by simp
qed simp

lemma string_items:
  assumes "gv_ok d (GArray GGUF_VALUE_STRING vs)"
  shows "\<exists>ss. vs = map GString ss \<and> list_all str_ok ss \<and>
     concat (map gv_bytes vs) = enc_list str_bytes ss \<and> gv_strings (GArray GGUF_VALUE_STRING vs) = Some ss"
proof -
  have "\<exists>s. v = GString s \<and> str_ok s" if "v \<in> set vs" for v
  proof -
    have v: "gv_ok (d + 1) v" "gv_type v = GGUF_VALUE_STRING" using assms that by auto
    then obtain s where "v = GString s" using gv_of_type(1) by blast
    with v(1) show ?thesis by (simp add: str_ok_def)
  qed
  then have "\<exists>ss. vs = map GString ss \<and> list_all str_ok ss"
  proof (induction vs)
    case (Cons v vs)
    have "\<exists>ss. vs = map GString ss \<and> list_all str_ok ss" by (rule Cons.IH) (rule Cons.prems, simp)
    then obtain ss where "vs = map GString ss" "list_all str_ok ss" by blast
    moreover obtain s where "v = GString s" "str_ok s" using Cons.prems [of v] by auto
    ultimately show ?case by (intro exI [of _ "s # ss"]) simp
  qed simp
  then obtain ss where ss: "vs = map GString ss" "list_all str_ok ss" by blast
  have "concat (map gv_bytes vs) = enc_list str_bytes ss"
    unfolding ss enc_list_def by (simp add: str_bytes_def [abs_def] comp_def)
  with ss show ?thesis by (auto simp: comp_def)
qed

lemma model_get_array_at:
  assumes c: "cursor_ok (cursor_at m (gk_value_pos kv))" and kv: "model_find_kv m key = Some kv"
    and t: "gk_type kv = GGUF_VALUE_ARRAY" and ok: "gv_ok d (GArray t vs)"
    and l: "cursor_left (cursor_at m (gk_value_pos kv)) = gv_bytes (GArray t vs) @ rest"
  shows "\<exists>c'. model_get_array m key = Some \<lparr>ar_type = t, ar_len = of_nat (length vs), ar_data_pos = cu_pos c'\<rparr> \<and>
     cursor_at m (cu_pos c') = c' \<and> cursor_ok c' \<and> cursor_left c' = concat (map gv_bytes vs) @ rest \<and>
     unat (of_nat (length vs) :: u64) = length vs"
proof -
  let ?c = "cursor_at m (gk_value_pos kv)" let ?c' = "cursor_adv ?c 12"
  from array_head [OF c, of t "of_nat (length vs)" ?c'] l obtain c1 where
    h: "cursor_u32 ?c = (Some t, c1)" "cursor_u64 c1 = (Some (of_nat (length vs)), ?c')" by auto
  have "cursor_at m (cu_pos ?c') = ?c'" by (simp add: cursor_at_def cursor_adv_def)
  moreover have "cursor_ok ?c'" "cursor_left ?c' = concat (map gv_bytes vs) @ rest" using c l by simp_all
  moreover have "unat (of_nat (length vs) :: u64) = length vs"
    using ok by (simp add: unsigned_of_nat take_bit_nat_eq_self)
  ultimately show ?thesis
    using h t kv by (intro exI [of _ ?c']) (simp add: model_get_array_def cursor_then_def)
qed

lemma model_string_array_eq:
  assumes d: "directory_mapped m es ts"
  shows "model_string_array m key = Option.bind (gguf_lookup es key) gv_strings"
  using d
proof (cases rule: find_kv_cases [where key = key])
  case (arr kv t vs rest)
  obtain c' where c': "model_get_array m key = Some \<lparr>ar_type = t, ar_len = of_nat (length vs), ar_data_pos = cu_pos c'\<rparr>"
      "cursor_at m (cu_pos c') = c'" "cursor_ok c'" "cursor_left c' = concat (map gv_bytes vs) @ rest"
      "unat (of_nat (length vs) :: u64) = length vs"
    using model_get_array_at [OF arr(4,1,3,5,6)] by blast
  show ?thesis
  proof (cases "t = GGUF_VALUE_STRING")
    case True
    obtain ss where ss: "vs = map GString ss" "list_all str_ok ss" "concat (map gv_bytes vs) = enc_list str_bytes ss"
        "gv_strings (GArray t vs) = Some ss"
      using string_items arr(5) unfolding True by blast
    have "read_strings (length ss) c' = Some ss" using c'(3,4) ss by (intro read_strings_at) auto
    then show ?thesis using c' ss arr(2) True by (simp add: model_string_array_def)
  qed (use c'(1) arr(2) in \<open>simp add: model_string_array_def\<close>)
qed (auto simp: model_string_array_def model_get_array_def)

section \<open>From the file to the text\<close>

lemma enc_list_str_length: "8 * length ss \<le> length (enc_list str_bytes ss)"
  by (induction ss) (auto simp: str_bytes_def)

lemma string_array_room:
  assumes d: "directory_mapped m es ts" and g: "model_string_array m key = Some ss"
  shows "8 * length ss \<le> unat (mo_size m)"
  using d
proof (cases rule: find_kv_cases [where key = key])
  case (arr kv t vs rest)
  have t: "t = GGUF_VALUE_STRING" and gs: "gv_strings (GArray t vs) = Some ss"
    using g model_string_array_eq [OF d, of key] arr(2) by (auto split: if_splits)
  then have "concat (map gv_bytes vs) = enc_list str_bytes ss"
    using string_items [of 0 vs] arr(5) by force
  then have "length (enc_list str_bytes ss) \<le> length (cursor_left (cursor_at m (gk_value_pos kv)))"
    using arr(6) by simp
  then show ?thesis
    using enc_list_str_length [of ss] length_cursor_left [OF arr(4)] by (simp add: cursor_at_def)
qed (use g model_string_array_eq [OF d, of key] in auto)

lemma vocab_load_tokens:
  assumes "vocab_load fam (Some tokens) (Some merges) bos eos = Some V"
  shows "vo_token (vo_bpe V) = tokens"
proof -
  from vocab_load_tables [OF assms] obtain tt mt where
    "vo_bpe V = \<lparr>vo_token = tokens, vo_token_to_id = table_map tt, vo_merge_rank = table_map mt\<rparr>"
    by (auto simp: vocab_tables_def bind_eq_Some_conv dest: sym)
  then show ?thesis by simp
qed


section \<open>A file with a vocabulary\<close>

definition vocab_entries :: "gguf_entry list" where
  "vocab_entries =
     [(chars ''tokenizer.ggml.tokens'', GArray GGUF_VALUE_STRING (map GString demo_tokens)),
      (chars ''tokenizer.ggml.merges'', GArray GGUF_VALUE_STRING (map GString demo_merges))]"

definition vocab_file :: "u8 list" where "vocab_file = gguf_bytes vocab_entries []"

lemma bpe_byte_short: "length (bpe_byte b) \<le> 4"
  unfolding bpe_byte_facts(2) [symmetric] utf8_len_from_first_byte_def by simp

lemma demo_token_lengths: "s \<in> set demo_tokens \<Longrightarrow> length s < 100" "length demo_tokens = 264"
  by (auto simp: demo_tokens_def ascii_def name_bos_def name_eos_def name_dsml_def barred_def bar_def blk_def
      intro: le_less_trans [OF bpe_byte_short])

lemma gv_strings_length:
  "(\<And>s. s \<in> set ss \<Longrightarrow> length s < 100) \<Longrightarrow> length (concat (map gv_bytes (map GString ss))) \<le> 108 * length ss"
proof (induction ss)
  case (Cons s ss)
  have "length (concat (map gv_bytes (map GString ss))) \<le> 108 * length ss" by (rule Cons.IH) (simp add: Cons.prems)
  moreover have "length s < 100" by (rule Cons.prems) simp
  ultimately show ?case by simp
qed simp

lemma demo_merges_short: "s \<in> set demo_merges \<Longrightarrow> length s < 100" "length demo_merges = 1"
  by (simp_all add: demo_merges_def)

lemma gv_ok_strings: "(\<And>s. s \<in> set ss \<Longrightarrow> length s < 100) \<Longrightarrow> length ss < 1000 \<Longrightarrow>
    gv_ok 0 (GArray GGUF_VALUE_STRING (map GString ss))"
  by (fastforce intro: less_trans [of _ 100])

lemma vocab_file_ok: "gguf_ok vocab_file vocab_entries []" "length vocab_file < 2 ^ 63" "32 \<le> length vocab_file"
proof -
  have "list_all entry_ok vocab_entries"
    using gv_ok_strings [of demo_tokens, OF demo_token_lengths(1)]
      gv_ok_strings [of demo_merges, OF demo_merges_short(1)]
    by (simp add: vocab_entries_def entry_ok_def str_ok_def chars_def demo_token_lengths(2) demo_merges_short(2))
  then show "gguf_ok vocab_file vocab_entries []" by (simp add: gguf_ok_def vocab_file_def)
  have "length (concat (map gv_bytes (map GString demo_tokens))) \<le> 108 * 264"
      "length (concat (map gv_bytes (map GString demo_merges))) \<le> 108"
    using gv_strings_length [of demo_tokens, OF demo_token_lengths(1)]
      gv_strings_length [of demo_merges, OF demo_merges_short(1)]
    by (simp_all only: demo_token_lengths(2) demo_merges_short(2) mult_1_right)
  then show "length vocab_file < 2 ^ 63"
    by (simp add: vocab_file_def gguf_bytes_def vocab_entries_def entry_bytes_def str_bytes_def chars_def del: map_map)
  show "32 \<le> length vocab_file"
    by (simp add: vocab_file_def gguf_bytes_def vocab_entries_def entry_bytes_def str_bytes_def chars_def del: map_map)
qed

lemma vocab_file_lookup:
  "Option.bind (gguf_lookup vocab_entries ''tokenizer.ggml.tokens'') gv_strings = Some demo_tokens"
  "Option.bind (gguf_lookup vocab_entries ''tokenizer.ggml.merges'') gv_strings = Some demo_merges"
  "gguf_lookup vocab_entries ''tokenizer.ggml.bos_token_id'' = None"
  "gguf_lookup vocab_entries ''tokenizer.ggml.eos_token_id'' = None"
  "gguf_lookup vocab_entries ''general.architecture'' = None"
  by (simp_all add: gguf_lookup_def vocab_entries_def comp_def)

lemma vocab_file_open: "model_open demo_env vocab_file = Inr (gguf_model vocab_file vocab_entries [])"
  (is "_ = Inr ?m")
proof -
  have p: "model_parse demo_env vocab_file = Inr ?m"
    using model_parse_exact [of vocab_file demo_env ?m] vocab_file_ok by (auto simp: demo_env_def)
  have d: "directory_mapped ?m vocab_entries []"
    using gguf_model_sound(3) [OF vocab_file_ok(2,1) refl] .
  have "model_get_string ?m ''general.architecture'' = None"
    by (simp add: model_get_string_eq [OF d] vocab_file_lookup)
  then show ?thesis
    using vocab_file_ok(3)
    by (simp add: model_open_def p die_then_def die_if_def model_unmap_engram_def model_unmap_qwen_ngrams_def)
      (simp add: demo_env_def)
qed


end
