(* ===== verification/Kv_Entry.thy ===== *)
theory Kv_Entry
  imports Kv_Codec
begin

text \<open>
  Entry files of the KV store (ds4_kvstore.c): the header, writing an entry with its image
  list, staged payload, trailer and digest, reading the header back, the payload check, the
  in-place updates of an entry, and file names. A file is its bytes; a stream position is
  the list of the bytes after it. Failures of \<open>malloc\<close>, \<open>ftello\<close> and \<open>fseeko\<close> that the code
  tests are inputs where they decide a result.
\<close>

section \<open>The header\<close>

definition kv_fill_header ::
  "kv_globals \<Rightarrow> u8 \<Rightarrow> u8 \<Rightarrow> u8 \<Rightarrow> u8 \<Rightarrow> u32 \<Rightarrow> u32 \<Rightarrow> u32 \<Rightarrow> u64 \<Rightarrow> u64 \<Rightarrow> u64 \<Rightarrow> u8 list" where
  "kv_fill_header g model_id quant_bits reason ext_flags tokens hits ctx_size
      created_at last_used payload_bytes =
     (let h = replicate DS4_KVSTORE_FIXED_HEADER 0;
          h = h[0 := of_char CHR ''K''];
          h = h[1 := of_char CHR ''V''];
          h = h[2 := of_char CHR ''C''];
          h = h[3 := KV_CACHE_VERSION];
          h = h[4 := quant_bits];
          h = h[5 := reason];
          h = h[6 := ext_flags];
          h = h[7 := model_id];
          h = blit h 8 (le_put32 tokens);
          h = blit h 12 (le_put32 hits);
          h = blit h 16 (le_put32 ctx_size);
          h = h[20 := KV_CACHE_PAYLOAD_ABI];
          h = blit h 24 (kv_le_put64 created_at);
          h = blit h 32 (kv_le_put64 last_used);
          h = blit h 40 (kv_le_put64 payload_bytes);
          h = blit h 48 (kv_le_put64 (g_identity g));
          h = blit h 56 (kv_le_put64 (g_canary g))
      in h)"

definition kv_quant_bits_supported :: "int \<Rightarrow> bool" where
  "kv_quant_bits_supported quant_bits \<longleftrightarrow>
     quant_bits = 2 \<or> quant_bits = 4 \<or> quant_bits = 5 \<or> quant_bits = 6 \<or> quant_bits = 8"

definition kv_empty_entry :: kv_entry where
  "kv_empty_entry =
     \<lparr>ke_sha = [], ke_path = [], ke_quant_bits = 0, ke_model_id = 0, ke_reason = 0, ke_tokens = 0,
      ke_hits = 0, ke_ctx_size = 0, ke_ext_flags = 0, ke_created_at = 0, ke_last_used = 0,
      ke_payload_bytes = 0, ke_text_bytes = 0, ke_file_size = 0, ke_version = 0, ke_identity = 0,
      ke_canary = 0, ke_payload_hash = 0, ke_images = False, ke_refusal = None\<rparr>"

text \<open>The refusal the loader records, from the fields already read and header byte 20.\<close>

definition kv_refusal_of :: "kv_globals \<Rightarrow> kv_entry \<Rightarrow> u8 \<Rightarrow> kv_refusal option" where
  "kv_refusal_of g e abi =
     (if ke_version e = 1 then Some V1_entry
      else if abi \<noteq> KV_CACHE_PAYLOAD_ABI \<and> \<not> ke_images e then Some Abi_differs
      else if g_identity g \<noteq> 0 \<and> ke_identity e \<noteq> g_identity g then Some Identity_differs
      else if g_canary g \<noteq> 0 \<and> ke_canary e \<noteq> g_canary g
      then Some (if ke_canary e \<noteq> 0 then Canary_differs else No_canary)
      else None)"

text \<open>
  \<open>kv_parse_header\<close>: \<open>None\<close> is \<open>false\<close> (not an entry this code can read); otherwise the
  entry, the text length and the stream after it.
\<close>

definition kv_parse_header ::
  "kv_globals \<Rightarrow> u8 list \<Rightarrow> kv_entry \<Rightarrow> (kv_entry \<times> u32 \<times> u8 list) option" where
  "kv_parse_header g fp e =
     (case fread_exact 4 fp of
        None \<Rightarrow> None
      | Some (h0, fp) \<Rightarrow>
          if h0 ! 0 \<noteq> of_char CHR ''K'' \<or> h0 ! 1 \<noteq> of_char CHR ''V'' \<or> h0 ! 2 \<noteq> of_char CHR ''C'' then None
          else if h0 ! 3 \<noteq> 1 \<and> h0 ! 3 \<noteq> KV_CACHE_VERSION then None
          else let hb = (if h0 ! 3 = 1 then DS4_KVSTORE_V1_HEADER else DS4_KVSTORE_FIXED_HEADER)
            in case fread_exact (hb - 4) fp of
              None \<Rightarrow> None
            | Some (h1, fp) \<Rightarrow>
                let h = h0 @ h1;
                    e = e\<lparr>ke_version := h ! 3,
                          ke_quant_bits := h ! 4,
                          ke_reason := (if h ! 5 \<le> REASON_AGENT_SESSION then h ! 5 else REASON_UNKNOWN),
                          ke_ext_flags := h ! 6,
                          ke_model_id := h ! 7,
                          ke_tokens := le_get32 (drop 8 h),
                          ke_hits := le_get32 (drop 12 h),
                          ke_ctx_size := le_get32 (drop 16 h),
                          ke_created_at := kv_le_get64 (drop 24 h),
                          ke_last_used := kv_le_get64 (drop 32 h),
                          ke_payload_bytes := kv_le_get64 (drop 40 h),
                          ke_identity := 0, ke_canary := 0, ke_payload_hash := 0,
                          ke_images := (h ! 3 \<noteq> 1 \<and> h ! 20 = KV_CACHE_PAYLOAD_ABI_IMAGES)\<rparr>;
                    e = (if hb = DS4_KVSTORE_FIXED_HEADER
                         then e\<lparr>ke_identity := kv_le_get64 (drop 48 h),
                                ke_canary := kv_le_get64 (drop 56 h),
                                ke_payload_hash := kv_le_get64 (drop 64 h)\<rparr>
                         else e)
                in case fread_exact 4 fp of
                  None \<Rightarrow> None
                | Some (tb, fp) \<Rightarrow>
                    let text_bytes = le_get32 tb;
                        e = e\<lparr>ke_text_bytes := ucast text_bytes\<rparr>;
                        e = e\<lparr>ke_refusal := kv_refusal_of g e (h ! 20)\<rparr>
                    in if ke_tokens e \<noteq> 0 \<and> kv_quant_bits_supported (uint (ke_quant_bits e))
                       then Some (e, text_bytes, fp) else None)"

definition kv_read_header ::
  "kv_globals \<Rightarrow> u8 list \<Rightarrow> (kv_entry \<times> u32 \<times> u8 list) option" where
  "kv_read_header g fp =
     (case kv_parse_header g fp kv_empty_entry of
        None \<Rightarrow> None
      | Some (e, text_bytes, fp) \<Rightarrow> if ke_refusal e \<noteq> None then None else Some (e, text_bytes, fp))"

text \<open>\<open>kv_read_entry\<close>: the file must hold what its header announces.\<close>

definition kv_read_entry ::
  "kv_globals \<Rightarrow> string \<Rightarrow> u8 list option \<Rightarrow> string \<Rightarrow> bool \<Rightarrow> kv_entry option" where
  "kv_read_entry g path file sha keep_refused =
     (case file of
        None \<Rightarrow> None
      | Some content \<Rightarrow>
          if length content < DS4_KVSTORE_V1_HEADER + 4 then None
          else case kv_parse_header g content kv_empty_entry of
            None \<Rightarrow> None
          | Some (e, text_bytes, _) \<Rightarrow>
              if ke_refusal e \<noteq> None \<and> \<not> keep_refused then None
              else let fixed = (if ke_version e = 1 then of_nat DS4_KVSTORE_V1_HEADER
                                else of_nat DS4_KVSTORE_FIXED_HEADER) + (4 :: u64)
                in if (- 1) - fixed < ucast text_bytes \<or>
                      (- 1) - fixed - ucast text_bytes < ke_payload_bytes e then None
                   else let expected = fixed + ucast text_bytes + ke_payload_bytes e
                     in if (of_nat (length content) :: u64) < expected then None
                        else Some (e\<lparr>ke_sha := sha, ke_path := path,
                                     ke_file_size := of_nat (length content)\<rparr>))"

definition kv_read_entry_file ::
  "kv_globals \<Rightarrow> string \<Rightarrow> u8 list option \<Rightarrow> string \<Rightarrow> kv_entry option" where
  "kv_read_entry_file g path file sha = kv_read_entry g path file sha False"

text \<open>\<open>ds4_kvstore_touch_file\<close>: the file afterwards, and the result.\<close>

definition kv_touch_file ::
  "kv_globals \<Rightarrow> u64 \<Rightarrow> u8 list option \<Rightarrow> u32 \<Rightarrow> u8 list option \<times> bool" where
  "kv_touch_file g now file hits =
     (case file of
        None \<Rightarrow> (None, False)
      | Some content \<Rightarrow>
          (case kv_read_header g content of
             None \<Rightarrow> (Some content, False)
           | Some _ \<Rightarrow> (Some (blit (blit content 12 (le_put32 hits)) 32 (kv_le_put64 now)), True)))"

section \<open>File names\<close>

definition is_xdigit :: "char \<Rightarrow> bool" where
  "is_xdigit c \<longleftrightarrow> c \<in> set ''0123456789abcdefABCDEF''"

definition to_lower :: "char \<Rightarrow> char" where
  "to_lower c = (if (of_char c :: nat) \<in> {65..90} then char_of (of_char c + 32 :: nat) else c)"

text \<open>\<open>ds4_kvstore_sha_hex_name\<close>: the lower-cased digest of a \<open><40 hex>.kv\<close> name.\<close>

definition kv_sha_hex_name :: "string \<Rightarrow> string option" where
  "kv_sha_hex_name name =
     (if length name \<noteq> 43 \<or> drop 40 name \<noteq> ''.kv'' then None
      else if \<exists>c \<in> set (take 40 name). \<not> is_xdigit c then None
      else Some (map to_lower (take 40 name)))"

definition kv_path_join :: "string \<Rightarrow> string \<Rightarrow> string" where
  "kv_path_join dir name =
     (let b = dir;
          b = (if b = [] \<or> last b \<noteq> CHR ''/'' then b @ ''/'' else b)
      in b @ name)"

definition kv_path_for_sha :: "string \<Rightarrow> string \<Rightarrow> string" where
  "kv_path_for_sha dir sha = kv_path_join dir (take 40 sha @ ''.kv'')"

section \<open>Checking and copying a payload\<close>

definition KV_HASH_CHUNK :: nat where "KV_HASH_CHUNK = 8388608"

text \<open>The read loop of \<open>ds4_kvstore_verify_payload\<close>: the digest and the bytes still missing.\<close>

function kv_verify_loop :: "nat \<Rightarrow> u8 list \<Rightarrow> kv_hash \<Rightarrow> kv_hash \<times> nat" where
  "kv_verify_loop left fp s =
     (if 0 < left
      then let want = (if left < KV_HASH_CHUNK then left else KV_HASH_CHUNK)
           in case fread_exact want fp of
                None \<Rightarrow> (s, left)
              | Some (buf, fp) \<Rightarrow> kv_verify_loop (left - want) fp (kv_hash_update s buf)
      else (s, left))"
  by pat_completeness auto
termination
  by (relation "measure (\<lambda>(left, fp, s). left)") (auto simp: KV_HASH_CHUNK_def split: if_splits)

declare kv_verify_loop.simps [simp del]

datatype kv_verify_error =
    Cannot_locate | No_payload_hash | Verify_out_of_memory | Payload_short u64
  | Payload_corrupt u64 u64 | Cannot_rewind

text \<open>\<open>None\<close> is the return value 0 (verified).\<close>

definition kv_verify_payload ::
  "bool \<Rightarrow> bool \<Rightarrow> bool \<Rightarrow> u8 list \<Rightarrow> kv_entry \<Rightarrow> kv_verify_error option" where
  "kv_verify_payload tell_ok alloc_ok seek_ok fp e =
     (if \<not> tell_ok then Some Cannot_locate
      else if ke_payload_hash e = 0 then Some No_payload_hash
      else if \<not> alloc_ok then Some Verify_out_of_memory
      else let (s, left) = kv_verify_loop (unat (ke_payload_bytes e)) fp kv_hash_init
        in if 0 < left then Some (Payload_short (ke_payload_bytes e))
           else let got = kv_hash_final s
             in if got \<noteq> ke_payload_hash e then Some (Payload_corrupt got (ke_payload_hash e))
                else if \<not> seek_ok then Some Cannot_rewind
                else None)"

text \<open>
  \<open>kv_copy_staged_hashed\<close>: what is appended to the entry and the digest continued over it;
  \<open>None\<close> when the staged file cannot be opened, is shorter than recorded, or the buffer
  cannot be allocated.
\<close>

function kv_copy_loop :: "nat \<Rightarrow> u8 list \<Rightarrow> u8 list \<Rightarrow> kv_hash \<Rightarrow> (u8 list \<times> kv_hash) option" where
  "kv_copy_loop left src out s =
     (if 0 < left
      then let want = (if left < KV_HASH_CHUNK then left else KV_HASH_CHUNK)
           in case fread_exact want src of
                None \<Rightarrow> None
              | Some (buf, src) \<Rightarrow> kv_copy_loop (left - want) src (out @ buf) (kv_hash_update s buf)
      else Some (out, s))"
  by pat_completeness auto
termination
  by (relation "measure (\<lambda>(left, src, out, s). left)") (auto simp: KV_HASH_CHUNK_def split: if_splits)

declare kv_copy_loop.simps [simp del]

record kv_staged =
  staged_path :: "u8 list option"  \<comment> \<open>the staged file's contents, when it opens\<close>
  staged_bytes :: u64

definition kv_copy_staged_hashed ::
  "bool \<Rightarrow> kv_staged \<Rightarrow> u8 list \<Rightarrow> kv_hash \<Rightarrow> (u8 list \<times> u64) option" where
  "kv_copy_staged_hashed alloc_ok staged out s =
     (case staged_path staged of
        None \<Rightarrow> None
      | Some src \<Rightarrow>
          if \<not> alloc_ok then None
          else case kv_copy_loop (unat (staged_bytes staged)) src out s of
            None \<Rightarrow> None
          | Some (out, s) \<Rightarrow> Some (out, kv_hash_final s))"

section \<open>Writing an entry\<close>

text \<open>
  The trailer hook is a parameter: from the key text, the bytes it appends, or \<open>None\<close> when
  it fails; no hook writes nothing.
\<close>

definition kv_trailer_write ::
  "(u8 list \<Rightarrow> u8 list option) option \<Rightarrow> u8 list \<Rightarrow> (u8 list \<times> u64) option" where
  "kv_trailer_write hooks text =
     (case hooks of
        None \<Rightarrow> Some ([], 0)
      | Some w \<Rightarrow> (case w text of None \<Rightarrow> None | Some t \<Rightarrow> Some (t, of_nat (length t))))"

definition kv_put_payload_hash :: "u8 list \<Rightarrow> u64 \<Rightarrow> u8 list" where
  "kv_put_payload_hash file hash = blit file 64 (kv_le_put64 hash)"

text \<open>The finished file, the trailer's size and the payload digest; \<open>None\<close> is \<open>false\<close>.\<close>

definition kv_write_entry_images ::
  "bool \<Rightarrow> u8 list \<Rightarrow> u8 list \<Rightarrow> kv_images option \<Rightarrow> kv_staged option \<Rightarrow>
    (u8 list \<Rightarrow> u8 list option) option \<Rightarrow> (u8 list \<times> u64 \<times> u64) option" where
  "kv_write_entry_images alloc_ok h text images staged hooks =
     (let list_bytes = kv_images_bytes images;
          hh = h;
          digest = kv_hash_init
      in if list_bytes \<noteq> 0 \<and>
            (\<not> kv_images_well_formed (the images) \<or> ims_encoder (the images) = 0) then None
         else let list = (if list_bytes \<noteq> 0 then kv_images_encode (the images) else []);
                  digest = (if list_bytes \<noteq> 0 then kv_hash_update digest list else digest);
                  hh = (if list_bytes \<noteq> 0
                        then blit (hh[20 := KV_CACHE_PAYLOAD_ABI_IMAGES]) 40
                               (kv_le_put64 (kv_le_get64 (drop 40 h) + list_bytes))
                        else hh);
                  tb = le_put32 (of_nat (length text));
                  out = hh @ tb @ text @ list
           in case (case staged of
                      Some st \<Rightarrow> kv_copy_staged_hashed alloc_ok st out digest
                    | None \<Rightarrow> Some (out, kv_hash_final digest)) of
                None \<Rightarrow> None
              | Some (out, hash) \<Rightarrow>
                  (case kv_trailer_write hooks text of
                     None \<Rightarrow> None
                   | Some (t, trailer_bytes) \<Rightarrow>
                       Some (kv_put_payload_hash (out @ t) hash, trailer_bytes, hash)))"

definition kv_write_entry ::
  "bool \<Rightarrow> u8 list \<Rightarrow> u8 list \<Rightarrow> kv_staged option \<Rightarrow> (u8 list \<Rightarrow> u8 list option) option \<Rightarrow>
    (u8 list \<times> u64 \<times> u64) option" where
  "kv_write_entry alloc_ok h text staged hooks =
     kv_write_entry_images alloc_ok h text None staged hooks"

section \<open>Reading back what was written\<close>

lemma le_get_put [simp]: "le_get32 (le_put32 v) = v" "kv_le_get64 (kv_le_put64 w) = w"
  using le32.get_put [of v "[]"] le64.get_put [of w "[]"] by simp_all

text \<open>The layout as one equation: what every header write and the parser agree on.\<close>

definition kv_header_bytes :: "kv_entry \<Rightarrow> u8 \<Rightarrow> u8 list" where
  "kv_header_bytes e abi =
     [of_char CHR ''K'', of_char CHR ''V'', of_char CHR ''C'', KV_CACHE_VERSION,
      ke_quant_bits e, ke_reason e, ke_ext_flags e, ke_model_id e] @
     le_put32 (ke_tokens e) @ le_put32 (ke_hits e) @ le_put32 (ke_ctx_size e) @ [abi, 0, 0, 0] @
     kv_le_put64 (ke_created_at e) @ kv_le_put64 (ke_last_used e) @ kv_le_put64 (ke_payload_bytes e) @
     kv_le_put64 (ke_identity e) @ kv_le_put64 (ke_canary e) @ kv_le_put64 (ke_payload_hash e) @
     replicate 8 0"

lemma length_kv_header_bytes [simp]: "length (kv_header_bytes e abi) = 80"
  by (simp add: kv_header_bytes_def)

lemma kv_le_put64_0: "kv_le_put64 0 = replicate 8 0"
  by (simp add: kv_le_put64_def upt_rec eval_nat_numeral)

lemma blit_zeros:
  "off = length p + k \<Longrightarrow> k + length s \<le> n \<Longrightarrow>
    blit (p @ replicate n x) off s = (p @ replicate k x @ s) @ replicate (n - (k + length s)) x"
  by (simp add: blit_def)

lemma update_zeros:
  "i = length p \<Longrightarrow> 0 < n \<Longrightarrow> (p @ replicate n x)[i := v] = (p @ [v]) @ replicate (n - 1) x"
  by (cases n) simp_all

lemma kv_fill_header_bytes:
  "kv_fill_header g model quant reason ext tokens hits ctx created used payload =
   kv_header_bytes (kv_empty_entry\<lparr>ke_model_id := model, ke_quant_bits := quant, ke_reason := reason,
       ke_ext_flags := ext, ke_tokens := tokens, ke_hits := hits, ke_ctx_size := ctx,
       ke_created_at := created, ke_last_used := used, ke_payload_bytes := payload,
       ke_identity := g_identity g, ke_canary := g_canary g\<rparr>) KV_CACHE_PAYLOAD_ABI"
proof -
  define p where "p = [of_char CHR ''K'', of_char CHR ''V'', of_char CHR ''C'', KV_CACHE_VERSION,
    quant, reason, ext, model]"
  then have lp [simp]: "length p = 8" by simp
  have 1: "(replicate 80 (0 :: u8))[0 := of_char CHR ''K'', 1 := of_char CHR ''V'', 2 := of_char CHR ''C'',
      3 := KV_CACHE_VERSION, 4 := quant, 5 := reason, 6 := ext, 7 := model] = p @ replicate 72 0"
  proof -
    have "replicate 80 (0 :: u8) = [0, 0, 0, 0, 0, 0, 0, 0] @ replicate 72 0"
      by (rule replicate_eqI [symmetric]) auto
    then show ?thesis by (simp add: p_def)
  qed
  let ?q = "p @ le_put32 tokens @ le_put32 hits @ le_put32 ctx"
  have 2: "blit (blit (blit (p @ replicate 72 0) 8 (le_put32 tokens)) 12 (le_put32 hits)) 16 (le_put32 ctx)
      = ?q @ replicate 60 0"
    by (simp add: blit_zeros [where k = 0] del: append_assoc)
  have 3: "(?q @ replicate 60 0)[20 := KV_CACHE_PAYLOAD_ABI] = (?q @ [KV_CACHE_PAYLOAD_ABI]) @ replicate 59 0"
    by (subst update_zeros) auto
  have 4: "blit ((?q @ [KV_CACHE_PAYLOAD_ABI]) @ replicate 59 0) 24 (kv_le_put64 created) =
      (?q @ [KV_CACHE_PAYLOAD_ABI] @ replicate 3 0 @ kv_le_put64 created) @ replicate 48 0"
    by (subst blit_zeros [where k = 3]) auto
  let ?r = "?q @ [KV_CACHE_PAYLOAD_ABI] @ replicate 3 0 @ kv_le_put64 created"
  have 5: "blit (blit (blit (blit (?r @ replicate 48 0) 32 (kv_le_put64 used)) 40 (kv_le_put64 payload)) 48
      (kv_le_put64 (g_identity g))) 56 (kv_le_put64 (g_canary g)) =
      (?r @ kv_le_put64 used @ kv_le_put64 payload @ kv_le_put64 (g_identity g) @
        kv_le_put64 (g_canary g)) @ replicate 16 0"
    by (simp add: blit_zeros [where k = 0] del: append_assoc)
  have 6: "replicate 16 (0 :: u8) = replicate 8 0 @ replicate 8 0" "replicate 3 (0 :: u8) = [0, 0, 0]"
    by (simp_all flip: replicate_add add: numeral_3_eq_3)
  show ?thesis
    unfolding kv_fill_header_def Let_def DS4_KVSTORE_FIXED_HEADER_def 1 2 3 4 5
    by (simp add: kv_header_bytes_def 6 kv_empty_entry_def kv_le_put64_0 p_def)
qed

lemma kv_header_set_images:
  "blit ((kv_header_bytes e abi)[20 := abi']) 40 (kv_le_put64 p) =
     kv_header_bytes (e\<lparr>ke_payload_bytes := p\<rparr>) abi'"
  by (simp add: kv_header_bytes_def blit_def list_update_append)

lemma kv_header_put_hash:
  "kv_put_payload_hash (kv_header_bytes e abi @ rest) hash =
     kv_header_bytes (e\<lparr>ke_payload_hash := hash\<rparr>) abi @ rest"
  by (simp add: kv_header_bytes_def blit_def kv_put_payload_hash_def)

lemma kv_header_get_payload: "kv_le_get64 (drop 40 (kv_header_bytes e abi)) = ke_payload_bytes e"
  by (simp add: kv_header_bytes_def kv_le_get64_put64)

text \<open>What the parser makes of a written header.\<close>

definition kv_parsed :: "kv_globals \<Rightarrow> kv_entry \<Rightarrow> u8 \<Rightarrow> u32 \<Rightarrow> kv_entry" where
  "kv_parsed g e abi tb =
     (let p = e\<lparr>ke_sha := [], ke_path := [],
                ke_reason := (if ke_reason e \<le> REASON_AGENT_SESSION then ke_reason e else REASON_UNKNOWN),
                ke_text_bytes := ucast tb, ke_file_size := 0, ke_version := KV_CACHE_VERSION,
                ke_images := (abi = KV_CACHE_PAYLOAD_ABI_IMAGES), ke_refusal := None\<rparr>
      in p\<lparr>ke_refusal := kv_refusal_of g p abi\<rparr>)"

lemma fread_exact_prefix: "n \<le> length xs \<Longrightarrow> fread_exact n (xs @ ys) = Some (take n xs, drop n xs @ ys)"
  by (simp add: fread_exact_def)

lemma kv_parse_header_bytes:
  "kv_parse_header g (kv_header_bytes e abi @ le_put32 tb @ rest) kv_empty_entry =
     (if ke_tokens e \<noteq> 0 \<and> kv_quant_bits_supported (uint (ke_quant_bits e))
      then Some (kv_parsed g e abi tb, tb, rest) else None)"
proof -
  let ?h = "kv_header_bytes e abi"
  have len: "length ?h = 80" by simp
  have r1: "fread_exact 4 (?h @ le_put32 tb @ rest) = Some (take 4 ?h, drop 4 ?h @ le_put32 tb @ rest)"
    by (rule fread_exact_prefix) simp
  have r2: "fread_exact 76 (drop 4 ?h @ le_put32 tb @ rest) = Some (drop 4 ?h, le_put32 tb @ rest)"
    by (rule fread_exact_append) simp
  have r3: "fread_exact 4 (le_put32 tb @ rest) = Some (le_put32 tb, rest)"
    by (rule fread_exact_append) simp
  have b: "?h ! 0 = of_char CHR ''K''" "?h ! Suc 0 = of_char CHR ''V''" "?h ! 2 = of_char CHR ''C''" "?h ! 3 = 2"
    "?h ! 4 = ke_quant_bits e" "?h ! 5 = ke_reason e" "?h ! 6 = ke_ext_flags e" "?h ! 7 = ke_model_id e"
    "?h ! 20 = abi"
    by (simp_all add: kv_header_bytes_def nth_append KV_CACHE_VERSION_def)
  have i: "le_get32 (drop 8 ?h) = ke_tokens e" "le_get32 (drop 12 ?h) = ke_hits e"
    "le_get32 (drop 16 ?h) = ke_ctx_size e" "kv_le_get64 (drop 24 ?h) = ke_created_at e"
    "kv_le_get64 (drop 32 ?h) = ke_last_used e" "kv_le_get64 (drop 40 ?h) = ke_payload_bytes e"
    "kv_le_get64 (drop 48 ?h) = ke_identity e" "kv_le_get64 (drop 56 ?h) = ke_canary e"
    "kv_le_get64 (drop 64 ?h) = ke_payload_hash e"
    by (simp_all add: kv_header_bytes_def le_get32_put32 kv_le_get64_put64)
  show ?thesis
    unfolding kv_parse_header_def r1
    by (simp add: b DS4_KVSTORE_FIXED_HEADER_def DS4_KVSTORE_V1_HEADER_def KV_CACHE_VERSION_def r2 r3 i
        Let_def kv_parsed_def kv_empty_entry_def kv_refusal_of_def)
qed

subsection \<open>The payload check reads exactly the recorded bytes\<close>

text \<open>What the read loops do to a stream: the digest afterwards stands for the bytes read.\<close>

definition kv_absorbed :: "kv_hash \<Rightarrow> u8 list \<Rightarrow> kv_hash \<Rightarrow> bool" where
  "kv_absorbed s xs s' \<longleftrightarrow> kv_hash_inv s' \<and> kv_hash_view s' = kv_view_absorb (kv_hash_view s) xs"

lemma kv_absorbed_Nil: "kv_hash_inv s \<Longrightarrow> kv_absorbed s [] s"
  by (simp add: kv_absorbed_def kv_view_absorb_def)

lemma kv_absorbed_step:
  assumes "kv_hash_inv s" and "want \<le> left" and "left \<le> length fp"
    and "kv_absorbed (kv_hash_update s (take want fp)) (take (left - want) (drop want fp)) s'"
  shows "kv_absorbed s (take left fp) s'"
proof -
  have "take left fp = take want fp @ take (left - want) (drop want fp)"
    using assms(2) by (metis le_add_diff_inverse take_add)
  with assms show ?thesis by (simp add: kv_absorbed_def kvh.view_upd kvh.absorb_append)
qed

lemma kv_absorbed_final:
  "kv_hash_inv s \<Longrightarrow> kv_absorbed s xs s' \<Longrightarrow> kv_hash_final s' = kv_hash_final (kv_hash_update s xs)"
  by (rule kvh.fin_view) (auto simp: kv_absorbed_def kvh.inv_upd kvh.view_upd)

lemma kv_want_le: "(if left < KV_HASH_CHUNK then left else KV_HASH_CHUNK) \<le> (left :: nat)"
  by simp

lemma kv_verify_loop_spec:
  "kv_hash_inv s \<Longrightarrow> kv_verify_loop left fp s = (s', left') \<Longrightarrow>
    (left' = 0 \<longleftrightarrow> left \<le> length fp) \<and> (left' = 0 \<longrightarrow> kv_absorbed s (take left fp) s')"
proof (induction left fp s rule: kv_verify_loop.induct)
  case (1 left fp s)
  define want where "want = (if left < KV_HASH_CHUNK then left else KV_HASH_CHUNK)"
  have wl: "want \<le> left" by (simp add: want_def)
  show ?case
  proof (cases "0 < left \<and> want \<le> length fp")
    case True
    then have rd: "fread_exact want fp = Some (take want fp, drop want fp)" by (simp add: fread_exact_def)
    let ?t = "kv_hash_update s (take want fp)"
    from True rd "1.prems"(2) have rec: "kv_verify_loop (left - want) (drop want fp) ?t = (s', left')"
      by (simp add: kv_verify_loop.simps [of left] Let_def want_def)
    have inv: "kv_hash_inv ?t" using "1.prems"(1) by (rule kvh.inv_upd)
    have IH: "(left' = 0 \<longleftrightarrow> left - want \<le> length (drop want fp)) \<and>
        (left' = 0 \<longrightarrow> kv_absorbed ?t (take (left - want) (drop want fp)) s')"
      using True rd inv rec by (intro "1.IH" [OF _ want_def]) auto
    from True wl have "left - want \<le> length (drop want fp) \<longleftrightarrow> left \<le> length fp" by auto
    with IH show ?thesis using kv_absorbed_step [OF "1.prems"(1) wl] by blast
  next
    case False
    then consider "left = 0" | "0 < left" "\<not> want \<le> length fp" by auto
    then show ?thesis
    proof cases
      case 1
      with "1.prems" show ?thesis by (simp add: kv_verify_loop.simps kv_absorbed_Nil)
    next
      case 2
      with "1.prems"(2) have "left' = left"
        by (simp add: kv_verify_loop.simps [of left] Let_def want_def fread_exact_def split: if_splits)
      with 2 wl show ?thesis by auto
    qed
  qed
qed

lemma kv_verify_None:
  "kv_verify_payload True True True fp e = None \<longleftrightarrow>
     ke_payload_hash e \<noteq> 0 \<and> unat (ke_payload_bytes e) \<le> length fp \<and>
     kv_payload_hash (take (unat (ke_payload_bytes e)) fp) = ke_payload_hash e"
proof -
  let ?n = "unat (ke_payload_bytes e)"
  obtain s l where loop: "kv_verify_loop ?n fp kv_hash_init = (s, l)" by fastforce
  note spec = kv_verify_loop_spec [OF kvh.inv_init loop]
  have "kv_hash_final s = kv_payload_hash (take ?n fp)" if "l = 0"
    unfolding kv_payload_hash_def using spec that kv_absorbed_final [OF kvh.inv_init] by blast
  with spec show ?thesis
    by (auto simp: kv_verify_payload_def loop Let_def)
qed

text \<open>The payload check accepts exactly the streams that hold the recorded number of bytes with
  the recorded, non-zero digest: reading in 8 MiB pieces makes no difference to the digest.\<close>

theorem kv_verify_payload_iff:
  "kv_verify_payload True True True fp e = None \<longleftrightarrow>
     ke_payload_hash e \<noteq> 0 \<and> unat (ke_payload_bytes e) \<le> length fp \<and>
     kv_payload_hash (take (unat (ke_payload_bytes e)) fp) = ke_payload_hash e"
  by (rule kv_verify_None)

lemma kv_copy_loop_short: "length src < left \<Longrightarrow> kv_copy_loop left src out s = None"
proof (induction left src out s rule: kv_copy_loop.induct)
  case (1 left src out s)
  define want where "want = (if left < KV_HASH_CHUNK then left else KV_HASH_CHUNK)"
  have wl: "want \<le> left" by (simp add: want_def)
  show ?case
  proof (cases "want \<le> length src")
    case True
    then have rd: "fread_exact want src = Some (take want src, drop want src)" by (simp add: fread_exact_def)
    have "kv_copy_loop (left - want) (drop want src) (out @ take want src) (kv_hash_update s (take want src)) = None"
      using True "1.prems" rd by (intro "1.IH" [OF _ want_def]) auto
    with rd "1.prems" show ?thesis by (simp add: kv_copy_loop.simps [of left] Let_def want_def)
  next
    case False
    with "1.prems" show ?thesis
      by (simp add: kv_copy_loop.simps [of left] Let_def want_def fread_exact_def split: if_splits)
  qed
qed

lemma kv_copy_loop_spec:
  "kv_hash_inv s \<Longrightarrow> left \<le> length src \<Longrightarrow>
    \<exists>s'. kv_copy_loop left src out s = Some (out @ take left src, s') \<and> kv_absorbed s (take left src) s'"
proof (induction left src out s rule: kv_copy_loop.induct)
  case (1 left src out s)
  define want where "want = (if left < KV_HASH_CHUNK then left else KV_HASH_CHUNK)"
  have wl: "want \<le> left" by (simp add: want_def)
  show ?case
  proof (cases "left = 0")
    case True
    with "1.prems" show ?thesis by (simp add: kv_copy_loop.simps kv_absorbed_Nil)
  next
    case False
    from wl "1.prems" have rd: "fread_exact want src = Some (take want src, drop want src)"
      by (simp add: fread_exact_def)
    let ?t = "kv_hash_update s (take want src)"
    have "kv_hash_inv ?t" using "1.prems"(1) by (rule kvh.inv_upd)
    then obtain s' where s': "kv_copy_loop (left - want) (drop want src) (out @ take want src) ?t =
        Some ((out @ take want src) @ take (left - want) (drop want src), s')"
      "kv_absorbed ?t (take (left - want) (drop want src)) s'"
      using False "1.prems" wl "1.IH" [OF _ want_def rd refl] diff_le_mono by (metis length_drop neq0_conv)
    moreover have "(out @ take want src) @ take (left - want) (drop want src) = out @ take left src"
      using wl by (metis append.assoc le_add_diff_inverse take_add)
    ultimately show ?thesis
      using False rd kv_absorbed_step [OF "1.prems"(1) wl "1.prems"(2)]
      by (simp add: kv_copy_loop.simps [of left] Let_def want_def)
  qed
qed

section \<open>What a written entry reads back as\<close>

subsection \<open>The image list\<close>

text \<open>The array type: sixteen records of 32-byte fingerprints.\<close>

definition kv_images_ok :: "kv_images \<Rightarrow> bool" where
  "kv_images_ok ims \<longleftrightarrow> length (ims_v ims) = DS4_KVSTORE_IMAGES_MAX \<and>
     (\<forall>im \<in> set (ims_v ims). length (im_fingerprint im) = 32)"

text \<open>A list read back has empty records after the ones in use.\<close>

definition kv_images_trim :: "kv_images \<Rightarrow> kv_images" where
  "kv_images_trim ims = ims\<lparr>ims_v := take (unat (ims_len ims)) (ims_v ims) @
     replicate (DS4_KVSTORE_IMAGES_MAX - unat (ims_len ims)) kv_no_image\<rparr>"

lemma length_kv_image_encode [simp]:
  "length (im_fingerprint im) = 32 \<Longrightarrow> length (kv_image_encode im) = KV_IMAGE_RECORD"
  by (simp add: kv_image_encode_def KV_IMAGE_RECORD_def)

lemma kv_image_decode_encode [simp]:
  assumes "length (im_fingerprint im) = 32"
  shows "kv_image_decode (kv_image_encode im) = im"
  using assms by (cases im) (simp add: kv_image_decode_def kv_image_encode_def le_get32_put32)

lemma kv_read_image_records_encode:
  assumes "\<forall>im \<in> set ims. length (im_fingerprint im) = 32" and "i + length ims \<le> length v"
  shows "kv_read_image_records i (length ims) (concat (map kv_image_encode ims) @ rest) v =
    Some (blit v i ims, rest)"
  using assms
proof (induction ims arbitrary: i v)
  case Nil
  then show ?case by (simp add: blit_def)
next
  case (Cons im ims)
  have "blit (v[i := im]) (Suc i) ims = blit v i (im # ims)"
    using Cons.prems by (intro nth_equalityI) (auto simp: blit_nth nth_list_update nth_Cons')
  with Cons show ?case by simp
qed

lemma kv_images_bytes_unat:
  assumes "ims_len ims \<noteq> 0" and "ims_len ims \<le> of_nat DS4_KVSTORE_IMAGES_MAX"
  shows "unat (kv_images_bytes (Some ims)) = 24 + 48 * unat (ims_len ims)"
proof -
  have "unat (ims_len ims) \<le> 16" using assms(2) by (simp add: word_le_nat_alt DS4_KVSTORE_IMAGES_MAX_def)
  moreover have "unat (ucast (ims_len ims) :: u64) = unat (ims_len ims)"
    by (simp add: unat_ucast_up)
  moreover from calculation have "unat (ucast (ims_len ims) * 48 :: u64) = unat (ims_len ims) * 48"
    by (simp add: unat_mult_lem [THEN iffD1])
  ultimately show ?thesis
    using assms(1) by (simp add: kv_images_bytes_def kv_consts unat_add_lem [THEN iffD1])
qed

lemma kv_images_encode_length:
  assumes "kv_images_ok ims" and "ims_len ims \<noteq> 0" and "ims_len ims \<le> of_nat DS4_KVSTORE_IMAGES_MAX"
  shows "length (kv_images_encode ims) = unat (kv_images_bytes (Some ims))"
proof -
  have l16: "unat (ims_len ims) \<le> 16" using assms(3) by (simp add: word_le_nat_alt DS4_KVSTORE_IMAGES_MAX_def)
  have "map (\<lambda>i. length (kv_image_encode (ims_v ims ! i))) [0..<unat (ims_len ims)] =
      replicate (unat (ims_len ims)) 48"
    using l16 assms(1) by (intro nth_equalityI) (auto simp: kv_images_ok_def kv_consts)
  then show ?thesis
    using kv_images_bytes_unat [OF assms(2,3)]
    by (simp add: kv_images_encode_def kvim_def length_concat comp_def sum_list_replicate)
qed

lemma kv_images_well_formed_len: "kv_images_well_formed ims \<Longrightarrow> ims_len ims \<le> of_nat DS4_KVSTORE_IMAGES_MAX"
  by (auto simp: kv_images_well_formed_def split: if_splits)

text \<open>Reading an encoded image list gives the list back, with its size and the stream after it,
  whatever follows: every list the writer accepts (well-formed, with an encoder identity, at most
  sixteen images) survives the round trip, the unused slots of the array being cleared.\<close>

theorem kv_read_images_encode:
  assumes "kv_images_ok ims" and "ims_len ims \<noteq> 0" and "kv_images_well_formed ims"
    and "ims_encoder ims \<noteq> 0" and "kv_images_bytes (Some ims) \<le> payload_bytes"
  shows "kv_read_images (kv_images_encode ims @ rest) payload_bytes =
    Some (kv_images_bytes (Some ims), kv_images_trim ims, rest)"
proof -
  note len = kv_images_well_formed_len [OF assms(3)]
  let ?n = "unat (ims_len ims)"
  let ?v = "take ?n (ims_v ims)"
  have l16: "?n \<le> 16" using len by (simp add: word_le_nat_alt DS4_KVSTORE_IMAGES_MAX_def)
  have lv: "length ?v = ?n" using l16 assms(1) by (simp add: kv_images_ok_def kv_consts)
  have enc: "concat (map (\<lambda>i. kv_image_encode (ims_v ims ! i)) [0..<?n]) = concat (map kv_image_encode ?v)"
    using lv l16 by (intro arg_cong [where f = concat] nth_equalityI) auto
  let ?h = "kvim @ le_put32 1 @ le_put32 (ims_len ims) @ le_put32 0 @ kv_le_put64 (ims_encoder ims)"
  have r1: "fread_exact 24 (?h @ rest') = Some (?h, rest')" for rest'
    by (rule fread_exact_append) (simp add: kvim_def)
  have k4: "length kvim = 4" by (simp add: kvim_def)
  have h: "take 4 ?h = kvim" "le_get32 (drop 4 ?h) = 1" "le_get32 (drop 8 ?h) = ims_len ims"
    "le_get32 (drop 12 ?h) = 0" "kv_le_get64 (drop 16 ?h) = ims_encoder ims"
    by (simp_all add: k4 le_get32_put32)
  have r2: "kv_read_image_records 0 ?n (concat (map kv_image_encode ?v) @ rest) (ims_v kv_no_images) =
      Some (blit (ims_v kv_no_images) 0 ?v, rest)"
    using kv_read_image_records_encode [of ?v 0 "ims_v kv_no_images" rest] assms(1) lv l16
    by (auto simp: kv_images_ok_def kv_no_images_def kv_consts dest: in_set_takeD)
  have v: "blit (ims_v kv_no_images) 0 ?v = ims_v (kv_images_trim ims)"
    using lv l16 by (simp add: blit_def kv_no_images_def kv_images_trim_def)
  have trim: "kv_images_trim ims = \<lparr>ims_len = ims_len ims, ims_encoder = ims_encoder ims, ims_v = ims_v (kv_images_trim ims)\<rparr>"
    by (simp add: kv_images_trim_def)
  have wf: "kv_images_well_formed (kv_images_trim ims)"
    using assms(3) lv len by (simp add: kv_images_well_formed_def kv_images_trim_def not_less)
  have b24: "\<not> payload_bytes < 24"
  proof -
    have "24 \<le> unat (kv_images_bytes (Some ims))" using kv_images_bytes_unat [OF assms(2) len] by simp
    with assms(5) show ?thesis by (simp add: word_less_nat_alt word_le_nat_alt)
  qed
  have bytes: "kv_images_bytes (Some ims) = 24 + ucast (ims_len ims) * 48"
    using assms(2) by (simp add: kv_images_bytes_def kv_consts)
  have split: "kv_images_encode ims @ rest = ?h @ concat (map kv_image_encode ?v) @ rest"
    by (simp add: kv_images_encode_def enc)
  show ?thesis
    unfolding split kv_read_images_def kv_consts(4) r1
    using h r2 v b24 assms(2,4,5) len wf trim bytes
    by (simp add: kv_consts Let_def not_less)
qed

subsection \<open>The whole file\<close>

text \<open>The image list as the writer puts it in front of the staged payload.\<close>

definition kv_list_of :: "kv_images option \<Rightarrow> u8 list" where
  "kv_list_of images = (if kv_images_bytes images \<noteq> 0 then kv_images_encode (the images) else [])"

definition kv_abi_of :: "kv_images option \<Rightarrow> u8" where
  "kv_abi_of images = (if kv_images_bytes images \<noteq> 0 then KV_CACHE_PAYLOAD_ABI_IMAGES else KV_CACHE_PAYLOAD_ABI)"

lemma kv_copy_staged_Some:
  assumes "kv_hash_inv s" and "kv_copy_staged_hashed a st out s = Some (out', hash)"
  shows "\<exists>src. staged_path st = Some src \<and> unat (staged_bytes st) \<le> length src \<and>
    out' = out @ take (unat (staged_bytes st)) src \<and>
    hash = kv_hash_final (kv_hash_update s (take (unat (staged_bytes st)) src))"
proof -
  let ?n = "unat (staged_bytes st)"
  obtain src s' where src: "staged_path st = Some src"
    and loop: "kv_copy_loop ?n src out s = Some (out', s')" and fin: "hash = kv_hash_final s'"
    using assms(2) by (auto simp: kv_copy_staged_hashed_def split: option.splits if_splits)
  have len: "?n \<le> length src"
  proof (rule ccontr)
    assume "\<not> ?n \<le> length src"
    with loop show False by (simp add: kv_copy_loop_short)
  qed
  from kv_copy_loop_spec [OF assms(1) len, of out] loop
  have "out' = out @ take ?n src" and "kv_absorbed s (take ?n src) s'" by auto
  with src len fin show ?thesis by (simp add: kv_absorbed_final [OF assms(1)])
qed

lemma kv_write_entry_images_file:
  assumes "kv_write_entry_images a (kv_header_bytes e KV_CACHE_PAYLOAD_ABI) text images (Some st) hooks =
      Some (file, tb, hash)"
  shows "\<exists>src t. staged_path st = Some src \<and> unat (staged_bytes st) \<le> length src \<and>
    kv_trailer_write hooks text = Some (t, tb) \<and>
    hash = kv_payload_hash (kv_list_of images @ take (unat (staged_bytes st)) src) \<and>
    (kv_images_bytes images \<noteq> 0 \<longrightarrow> kv_images_well_formed (the images) \<and> ims_encoder (the images) \<noteq> 0) \<and>
    file = kv_header_bytes (e\<lparr>ke_payload_bytes := ke_payload_bytes e + kv_images_bytes images,
        ke_payload_hash := hash\<rparr>) (kv_abi_of images) @
      le_put32 (of_nat (length text)) @ text @ kv_list_of images @ take (unat (staged_bytes st)) src @ t"
proof -
  let ?e = "e\<lparr>ke_payload_bytes := ke_payload_bytes e + kv_images_bytes images\<rparr>"
  let ?d = "if kv_images_bytes images \<noteq> 0 then kv_hash_update kv_hash_init (kv_list_of images) else kv_hash_init"
  let ?out = "kv_header_bytes ?e (kv_abi_of images) @ le_put32 (of_nat (length text)) @ text @ kv_list_of images"
  have hd: "(if kv_images_bytes images \<noteq> 0
        then blit ((kv_header_bytes e KV_CACHE_PAYLOAD_ABI)[20 := KV_CACHE_PAYLOAD_ABI_IMAGES]) 40
               (kv_le_put64 (kv_le_get64 (drop 40 (kv_header_bytes e KV_CACHE_PAYLOAD_ABI)) + kv_images_bytes images))
        else kv_header_bytes e KV_CACHE_PAYLOAD_ABI) = kv_header_bytes ?e (kv_abi_of images)"
    by (simp add: kv_header_set_images kv_header_get_payload kv_abi_of_def)
  obtain out t where copy: "kv_copy_staged_hashed a st ?out ?d = Some (out, hash)"
    and fl: "file = kv_put_payload_hash (out @ t) hash"
    and tw: "kv_trailer_write hooks text = Some (t, tb)"
    and wf: "kv_images_bytes images \<noteq> 0 \<longrightarrow> kv_images_well_formed (the images) \<and> ims_encoder (the images) \<noteq> 0"
    using assms unfolding kv_write_entry_images_def Let_def hd
    by (auto simp: kv_list_of_def split: if_splits option.splits prod.splits)
  have inv: "kv_hash_inv ?d" by (simp add: kvh.inv_init kvh.inv_upd)
  from kv_copy_staged_Some [OF inv copy] obtain src where src: "staged_path st = Some src"
      "unat (staged_bytes st) \<le> length src" "out = ?out @ take (unat (staged_bytes st)) src"
    and hash: "hash = kv_hash_final (kv_hash_update ?d (take (unat (staged_bytes st)) src))" by blast
  have "hash = kv_payload_hash (kv_list_of images @ take (unat (staged_bytes st)) src)"
    unfolding hash kv_payload_hash_def by (simp add: kvh.fin_split [OF kvh.inv_init] kv_list_of_def)
  with src fl wf tw show ?thesis by (auto simp: kv_header_put_hash intro!: exI [of _ t])
qed



lemma kv_read_images_encode_witness:
  "let ims = \<lparr>ims_len = 1, ims_encoder = 5,
      ims_v = replicate 16 \<lparr>im_text_offset = 2, im_text_len = 3, im_token_start = 4, im_token_count = 5,
        im_fingerprint = replicate 32 6\<rparr>\<rparr>
   in kv_read_images (kv_images_encode ims @ [1]) 100 = Some (72, kv_images_trim ims, [1])"
  unfolding Let_def
  by (subst kv_read_images_encode)
    (simp_all add: kv_images_ok_def kv_consts kv_images_bytes_def kv_images_well_formed_def)

subsection \<open>Updating an entry in place\<close>

text \<open>Touching an entry changes its hit count and its last use and nothing else of the file.\<close>

theorem kv_touch_file_header:
  assumes "kv_read_header g (kv_header_bytes e abi @ le_put32 tb @ rest) \<noteq> None"
  shows "kv_touch_file g now (Some (kv_header_bytes e abi @ le_put32 tb @ rest)) hits =
    (Some (kv_header_bytes (e\<lparr>ke_hits := hits, ke_last_used := now\<rparr>) abi @ le_put32 tb @ rest), True)"
proof -
  have "blit (blit (kv_header_bytes e abi @ rest') 12 (le_put32 hits)) 32 (kv_le_put64 now) =
      kv_header_bytes (e\<lparr>ke_hits := hits, ke_last_used := now\<rparr>) abi @ rest'" for rest'
    by (simp add: kv_header_bytes_def blit_def)
  with assms show ?thesis by (auto simp: kv_touch_file_def split: option.splits)
qed

lemma kv_touch_file_header_witness:
  "kv_touch_file \<lparr>g_identity = 0, g_canary = 0, g_state = Canary_none\<rparr> 77
     (Some (kv_header_bytes (kv_empty_entry\<lparr>ke_tokens := 5, ke_quant_bits := 4\<rparr>) 2 @ le_put32 0 @ [])) 6 =
   (Some (kv_header_bytes (kv_empty_entry\<lparr>ke_tokens := 5, ke_quant_bits := 4, ke_hits := 6, ke_last_used := 77\<rparr>) 2 @
      le_put32 0 @ []), True)"
  by (subst kv_touch_file_header)
    (simp_all only: kv_read_header_def kv_parse_header_bytes, simp_all add: kv_empty_entry_def
      kv_quant_bits_supported_def kv_parsed_def Let_def kv_refusal_of_def KV_CACHE_VERSION_def KV_CACHE_PAYLOAD_ABI_def)

subsection \<open>Entry names\<close>

lemma hex_digit_facts:
  assumes "x < 16"
  shows "is_xdigit (hex_digit x) \<and> to_lower (hex_digit x) = hex_digit x"
proof -
  have "unat x < 16" using assms by (simp add: word_less_nat_alt)
  then have "unat x \<in> {..<16}" by simp
  then have "unat x \<in> {0, 1, 2, 3, 4, 5, 6, 7, 8, 9, 10, 11, 12, 13, 14, 15}"
    by (auto simp: lessThan_nat_numeral)
  then show ?thesis by (auto simp: hex_digit_def is_xdigit_def to_lower_def)
qed

lemma nibbles: "drop_bit 4 (b :: u8) < 16" "b AND 15 < 16"
proof -
  have "unat (drop_bit 4 b) < 16"
    using unsigned_less [of b, where ?'a = nat]
    by (simp only: unat_drop_bit_eq drop_bit_eq_div) (simp add: unat_div less_mult_imp_div_less)
  then show "drop_bit 4 b < 16" by (simp add: word_less_nat_alt)
  have "b AND 15 \<le> 15" by (rule word_and_le1)
  then show "b AND 15 < 16" by (simp add: word_le_nat_alt word_less_nat_alt)
qed

lemma hex20_digits: "\<forall>c \<in> set (hex20 d). is_xdigit c \<and> to_lower c = c"
  by (auto simp: hex20_def hex_digit_facts nibbles)

lemma length_hex20: "length (hex20 d) = 40"
  by (simp add: hex20_def length_concat comp_def sum_list_triv)

lemma kv_entry_sha_hex20: "\<exists>d. kv_entry_sha text images = hex20 d"
  by (auto simp: kv_entry_sha_def Let_def sha1_bytes_hex_def split: option.splits)

lemma kv_sha_hex_name_entry:
  "kv_sha_hex_name (kv_entry_sha text images @ ''.kv'') = Some (kv_entry_sha text images)"
  "length (kv_entry_sha text images) = 40"
proof -
  obtain d where d: "kv_entry_sha text images = hex20 d" using kv_entry_sha_hex20 by blast
  have "map to_lower (hex20 d) = hex20 d" using hex20_digits by (simp add: map_idI)
  then show "kv_sha_hex_name (kv_entry_sha text images @ ''.kv'') = Some (kv_entry_sha text images)"
    using hex20_digits [of d] by (simp add: d kv_sha_hex_name_def length_hex20)
  show "length (kv_entry_sha text images) = 40" by (simp add: d length_hex20)
qed

text \<open>The directory scan recognises the name of every entry the store writes, and recovers its
  digest from it.\<close>

theorem kv_entry_name_roundtrip:
  "kv_sha_hex_name (kv_entry_sha text images @ ''.kv'') = Some (kv_entry_sha text images) \<and>
   kv_path_for_sha dir (kv_entry_sha text images) = kv_path_join dir (kv_entry_sha text images @ ''.kv'')"
  by (simp add: kv_path_for_sha_def kv_sha_hex_name_entry)

section \<open>The image identity check\<close>

lemma kv_images_wf_loop_start:
  "kv_images_wf_loop ims te ke \<Longrightarrow> im \<in> set ims \<Longrightarrow>
    unat te \<le> unat (im_text_offset im) \<and> unat ke \<le> unat (im_token_start im)"
proof (induction ims te ke rule: kv_images_wf_loop.induct)
  case (2 a ims te ke)
  have add: "unat (ucast x + ucast y :: u64) = unat x + unat y" for x y :: u32
    using unsigned_less [of x, where ?'a = nat] unsigned_less [of y, where ?'a = nat]
    by (subst unat_add_lem [THEN iffD1]) (simp_all add: unat_ucast_up)
  have a: "unat te \<le> unat (im_text_offset a) \<and> unat ke \<le> unat (im_token_start a)"
    using "2.prems"(1) by (auto simp: word_less_nat_alt not_less unat_ucast_up split: if_splits)
  show ?case
  proof (cases "im = a")
    case False
    with 2 have "unat (ucast (im_text_offset a) + ucast (im_text_len a) :: u64) \<le> unat (im_text_offset im) \<and>
        unat (ucast (im_token_start a) + ucast (im_token_count a) :: u64) \<le> unat (im_token_start im)"
      by (auto split: if_splits)
    with a show ?thesis by (simp add: add)
  qed (use a in simp)
qed simp

lemma kv_images_wf_loop_disjoint:
  "kv_images_wf_loop ims te ke \<Longrightarrow> i < j \<Longrightarrow> j < length ims \<Longrightarrow>
    unat (im_text_offset (ims ! i)) + unat (im_text_len (ims ! i)) \<le> unat (im_text_offset (ims ! j)) \<and>
    unat (im_token_start (ims ! i)) + unat (im_token_count (ims ! i)) \<le> unat (im_token_start (ims ! j))"
proof (induction ims te ke arbitrary: i j rule: kv_images_wf_loop.induct)
  case (2 a ims te ke)
  have add: "unat (ucast x + ucast y :: u64) = unat x + unat y" for x y :: u32
    using unsigned_less [of x, where ?'a = nat] unsigned_less [of y, where ?'a = nat]
    by (subst unat_add_lem [THEN iffD1]) (simp_all add: unat_ucast_up)
  obtain j' where j: "j = Suc j'" "j' < length ims" using "2.prems" by (cases j) auto
  show ?case
  proof (cases i)
    case 0
    with 2 j show ?thesis
      using kv_images_wf_loop_start [of ims _ _ "ims ! j'"] by (fastforce simp: add split: if_splits)
  next
    case (Suc i')
    with 2 j show ?thesis by (auto split: if_splits)
  qed
qed simp

text \<open>A well-formed list has its images in order: for any two of them, the earlier one ends
  before the later one starts, in the key text and in the token history.\<close>

theorem kv_images_well_formed_disjoint:
  assumes "kv_images_ok ims" and "kv_images_well_formed ims" and "i < j" and "j < unat (ims_len ims)"
  shows "unat (im_text_offset (ims_v ims ! i)) + unat (im_text_len (ims_v ims ! i)) \<le>
      unat (im_text_offset (ims_v ims ! j)) \<and>
    unat (im_token_start (ims_v ims ! i)) + unat (im_token_count (ims_v ims ! i)) \<le>
      unat (im_token_start (ims_v ims ! j))"
proof -
  have "unat (ims_len ims) \<le> 16"
    using kv_images_well_formed_len [OF assms(2)] by (simp add: word_le_nat_alt DS4_KVSTORE_IMAGES_MAX_def)
  with assms kv_images_wf_loop_disjoint [of "take (unat (ims_len ims)) (ims_v ims)" 0 0 i j] show ?thesis
    by (simp add: kv_images_well_formed_def kv_images_ok_def kv_consts split: if_splits)
qed

lemma kv_images_well_formed_disjoint_witness:
  "let v = \<lparr>im_text_offset = 2, im_text_len = 3, im_token_start = 4, im_token_count = 5,
        im_fingerprint = replicate 32 6\<rparr>;
      w = v\<lparr>im_text_offset := 5, im_token_start := 9\<rparr>;
      ims = \<lparr>ims_len = 2, ims_encoder = 5, ims_v = v # replicate 15 w\<rparr>
   in unat (im_text_offset (ims_v ims ! 0)) + unat (im_text_len (ims_v ims ! 0)) \<le>
      unat (im_text_offset (ims_v ims ! 1))"
  unfolding Let_def
  by (rule kv_images_well_formed_disjoint [THEN conjunct1])
    (simp_all add: kv_images_ok_def kv_consts kv_images_well_formed_def take_Cons')

lemma kv_images_mismatch_loop_None:
  "length as = length bs \<Longrightarrow> kv_images_mismatch_loop as bs n = None \<longleftrightarrow>
    (\<forall>i < length as. im_text_offset (as ! i) = im_text_offset (bs ! i) \<and>
      im_text_len (as ! i) = im_text_len (bs ! i) \<and> im_token_count (as ! i) = im_token_count (bs ! i) \<and>
      im_fingerprint (as ! i) = im_fingerprint (bs ! i) \<and>
      ucast (im_text_offset (as ! i)) + ucast (im_text_len (as ! i)) \<le> n)"
proof (induction as bs n rule: kv_images_mismatch_loop.induct)
  case (1 a as b bs n)
  then show ?case by (auto simp: All_less_Suc2 not_less)
qed auto

lemma kv_images_inside_le: "kv_images_ok ims \<Longrightarrow> kv_images_inside ims n \<le> length (ims_v ims)"
  unfolding kv_images_inside_def
  by (rule le_trans [OF length_takeWhile_le]) simp

text \<open>A stored list is taken for a request exactly when the request has as many images inside the
  text, under the same non-zero encoder identity, each at the same position with the same token
  count and pixels and ending inside the text.\<close>

theorem kv_images_mismatch_iff:
  assumes "kv_images_ok stored" and "kv_images_ok request"
  shows "kv_images_mismatch (Some stored) (Some request) text_bytes = None \<longleftrightarrow>
    (let n = kv_images_inside request text_bytes
     in of_nat n = ims_len stored \<and>
        (n \<noteq> 0 \<longrightarrow> ims_encoder stored \<noteq> 0 \<and> ims_encoder stored = ims_encoder request) \<and>
        (\<forall>i < n. im_text_offset (ims_v stored ! i) = im_text_offset (ims_v request ! i) \<and>
           im_text_len (ims_v stored ! i) = im_text_len (ims_v request ! i) \<and>
           im_token_count (ims_v stored ! i) = im_token_count (ims_v request ! i) \<and>
           im_fingerprint (ims_v stored ! i) = im_fingerprint (ims_v request ! i) \<and>
           ucast (im_text_offset (ims_v stored ! i)) + ucast (im_text_len (ims_v stored ! i)) \<le> text_bytes))"
proof -
  let ?n = "kv_images_inside request text_bytes"
  have "?n \<le> 16" using kv_images_inside_le [OF assms(2)] assms(2) by (simp add: kv_images_ok_def kv_consts)
  then have "length (take ?n (ims_v stored)) = ?n" "length (take ?n (ims_v request)) = ?n"
    using assms by (simp_all add: kv_images_ok_def kv_consts)
  then show ?thesis
    by (auto simp: kv_images_mismatch_def Let_def kv_images_mismatch_loop_None)
qed

lemma kv_images_mismatch_iff_witness:
  "kv_images_mismatch (Some kv_no_images) (Some kv_no_images) 10 = None"
  by (subst kv_images_mismatch_iff)
    (simp_all add: kv_images_ok_def kv_no_images_def kv_no_image_def kv_images_inside_def)

end
