(* ===== verification/Kv_Policy.thy ===== *)
theory Kv_Policy
  imports Complex_Main Kv_Entry
begin

text \<open>
  What the KV store keeps (ds4_kvstore.c): the directory index, the eviction score and the
  eviction pass, the checkpoint ladder of a chain, the store schedule, and the size budget.
  Scores are real numbers, the exact values the code's doubles approximate; C \<open>int\<close>s are
  integers, with the code's casts written out. The environment switch of the ladder, the
  clock, the directory listing and which files may be unlinked are arguments.
\<close>

section \<open>The store\<close>

record kv_options =
  ko_min_tokens :: int
  ko_cold_max_tokens :: int
  ko_continued_interval_tokens :: int
  ko_boundary_trim_tokens :: int
  ko_boundary_align_tokens :: int

definition kv_default_options :: kv_options where
  "kv_default_options =
     \<lparr>ko_min_tokens = 512, ko_cold_max_tokens = 30000, ko_continued_interval_tokens = 10000,
      ko_boundary_trim_tokens = 32, ko_boundary_align_tokens = 2048\<rparr>"

record kv_store =
  ks_enabled :: bool
  ks_dir :: string
  ks_budget_bytes :: u64
  ks_reject_different_quant :: bool
  ks_opt :: kv_options
  ks_continued_last_store_tokens :: int
  ks_entry :: "kv_entry list"

record kv_evict_ctx =
  ec_text :: "u8 list option"
  ec_model_id :: u8
  ec_quant_bits :: u8
  ec_ctx_size :: u32
  ec_reject_different_quant :: bool
  ec_images :: "kv_images option"

type_synonym kv_fs = "string \<Rightarrow> u8 list option"

definition kv_unlink :: "(string \<Rightarrow> bool) \<Rightarrow> kv_fs \<Rightarrow> string \<Rightarrow> kv_fs \<times> bool" where
  "kv_unlink may fs path =
     (if fs path \<noteq> None \<and> may path then (fs(path := None), True) else (fs, False))"

text \<open>
  The scan of the directory; \<open>names\<close> is what \<open>readdir\<close> returns, \<open>None\<close> when \<open>opendir\<close> fails.
\<close>

fun kv_refresh_loop :: "kv_globals \<Rightarrow> string \<Rightarrow> kv_fs \<Rightarrow> string list \<Rightarrow> kv_entry list \<Rightarrow> kv_entry list" where
  "kv_refresh_loop g dir fs [] es = es"
| "kv_refresh_loop g dir fs (n # names) es =
     (case kv_sha_hex_name n of
        None \<Rightarrow> kv_refresh_loop g dir fs names es
      | Some sha \<Rightarrow>
          (let path = kv_path_join dir n
           in case kv_read_entry g path (fs path) sha True of
                None \<Rightarrow> kv_refresh_loop g dir fs names es
              | Some e \<Rightarrow> kv_refresh_loop g dir fs names (es @ [e])))"

definition kv_refresh :: "kv_globals \<Rightarrow> kv_fs \<Rightarrow> string list option \<Rightarrow> kv_store \<Rightarrow> kv_store" where
  "kv_refresh g fs names kc =
     (if \<not> ks_enabled kc then kc
      else let kc = kc\<lparr>ks_entry := []\<rparr>
        in case names of
             None \<Rightarrow> kc
           | Some ns \<Rightarrow> kc\<lparr>ks_entry := kv_refresh_loop g (ks_dir kc) fs ns []\<rparr>)"

section \<open>The eviction score\<close>

text \<open>\<open>env\<close> is the value of \<open>DS4_KV_LADDER\<close>, when it is set.\<close>

definition kv_ladder_enabled :: "string option \<Rightarrow> bool" where
  "kv_ladder_enabled env =
     (case env of None \<Rightarrow> True | Some v \<Rightarrow> \<not> (v \<noteq> [] \<and> hd v = CHR ''0''))"

definition kv_supersedes_continued :: "kv_entry \<Rightarrow> kv_evict_ctx option \<Rightarrow> bool" where
  "kv_supersedes_continued e incoming =
     (case incoming of
        None \<Rightarrow> False
      | Some inc \<Rightarrow>
          (case ec_text inc of
             None \<Rightarrow> False
           | Some text \<Rightarrow>
               if ke_reason e \<noteq> REASON_CONTINUED then False
               else if ke_text_bytes e = 0 then False
               else if of_nat (length text) \<le> ke_text_bytes e then False
               else if ke_model_id e \<noteq> ec_model_id inc then False
               else if ec_reject_different_quant inc \<and> ke_quant_bits e \<noteq> ec_quant_bits inc then False
               else if ke_ctx_size e < ec_ctx_size inc then False
               else kv_entry_sha (take (unat (ke_text_bytes e)) text) (ec_images inc) = ke_sha e))"

definition kv_reason_is_anchor :: "u8 \<Rightarrow> bool" where
  "kv_reason_is_anchor reason \<longleftrightarrow>
     reason = REASON_COLD \<or> reason = REASON_EVICT \<or> reason = REASON_SHUTDOWN"

definition HIT_HALF_LIFE :: real where "HIT_HALF_LIFE = 21600"
definition BASE_HALF_LIFE :: real where "BASE_HALF_LIFE = 86400"

text \<open>The decayed hit count and the decayed baseline.\<close>

definition kv_effective_hits :: "kv_entry \<Rightarrow> u64 \<Rightarrow> real" where
  "kv_effective_hits e now =
     (let used_at = (if ke_last_used e \<noteq> 0 then ke_last_used e else ke_created_at e)
      in if used_at = 0 then 0
         else if used_at < now
         then let elapsed = real (unat (now - used_at));
                  h = real (unat (ke_hits e)) * 2 powr (- elapsed / HIT_HALF_LIFE)
              in if h < 1 / 100 then 0 else h
         else real (unat (ke_hits e)))"

definition kv_base :: "kv_entry \<Rightarrow> u64 \<Rightarrow> real" where
  "kv_base e now =
     (let used_at = (if ke_last_used e \<noteq> 0 then ke_last_used e else ke_created_at e)
      in if used_at = 0 then 1
         else if used_at < now
         then let elapsed = real (unat (now - used_at));
                  base = 2 powr (- elapsed / BASE_HALF_LIFE)
              in if base < 1 / 1000000 then 1 / 1000000 else base
         else 1)"

text \<open>\<open>live\<close> is the length of the live token vector.\<close>

definition kv_eviction_score ::
  "bool \<Rightarrow> int option \<Rightarrow> u64 \<Rightarrow> kv_evict_ctx option \<Rightarrow> kv_entry \<Rightarrow> real" where
  "kv_eviction_score ladder live now incoming e =
     (if ke_file_size e = 0 then 0
      else
        let effective_hits = kv_effective_hits e now;
            base = kv_base e now;
            score = (effective_hits + base) * real (unat (ke_tokens e)) / real (unat (ke_file_size e));
            score = (if kv_reason_is_anchor (ke_reason e) then score * 2 else score)
        in if kv_supersedes_continued e incoming
           then let adjacent = (case live of None \<Rightarrow> False
                                | Some n \<Rightarrow> sint (ke_tokens e) < n \<and> n - sint (ke_tokens e) \<le> 16384)
                in if adjacent then score * 8
                   else if \<not> ladder
                   then let h = (if 0 < effective_hits then effective_hits / (effective_hits + 1) else 0)
                        in score * (5 / 100 + 45 / 100 * h)
                   else score * (32768 / real (unat (if ke_tokens e \<noteq> 0 then ke_tokens e else 1)))
           else score)"

section \<open>The eviction pass\<close>

fun kv_victim_loop ::
  "(kv_entry \<Rightarrow> real) \<Rightarrow> kv_entry list \<Rightarrow> nat \<Rightarrow> kv_entry list \<Rightarrow> nat \<Rightarrow> real \<Rightarrow> nat" where
  "kv_victim_loop score es i [] victim victim_score = victim"
| "kv_victim_loop score es i (e # rest) victim victim_score =
     (if score e < victim_score \<or>
         (score e = victim_score \<and> ke_last_used e < ke_last_used (es ! victim))
      then kv_victim_loop score es (Suc i) rest i (score e)
      else kv_victim_loop score es (Suc i) rest victim victim_score)"

definition kv_victim :: "(kv_entry \<Rightarrow> real) \<Rightarrow> kv_entry list \<Rightarrow> nat" where
  "kv_victim score es = kv_victim_loop score es 1 (tl es) 0 (score (hd es))"

lemma kv_victim_loop_bound:
  "victim < n \<Longrightarrow> i + length rest = n \<Longrightarrow> kv_victim_loop score es i rest victim vs < n"
  by (induction score es i rest victim vs rule: kv_victim_loop.induct) auto

lemma kv_victim_bound: "es \<noteq> [] \<Longrightarrow> kv_victim score es < length es"
  unfolding kv_victim_def by (rule kv_victim_loop_bound) (auto simp: neq_Nil_conv)

text \<open>What the pass returns: the index, the running total and the files.\<close>

function kv_evict_loop ::
  "(kv_entry \<Rightarrow> real) \<Rightarrow> (string \<Rightarrow> bool) \<Rightarrow> u64 \<Rightarrow> kv_entry list \<Rightarrow> u64 \<Rightarrow> kv_fs \<Rightarrow>
    kv_entry list \<times> u64 \<times> kv_fs" where
  "kv_evict_loop score may target es tot fs =
     (if target < tot \<and> es \<noteq> []
      then let victim = kv_victim score es;
               e = es ! victim;
               (fs, ok) = kv_unlink may fs (ke_path e);
               tot = (if ok then if ke_file_size e \<le> tot then tot - ke_file_size e else 0 else 0);
               es = take victim es @ drop (Suc victim) es
           in kv_evict_loop score may target es tot fs
      else (es, tot, fs))"
  by pat_completeness auto
termination
proof (relation "measure (\<lambda>(_, _, _, es, _, _). length es)", goal_cases)
  case (2 score may target es)
  then have "kv_victim score es < length es" by (simp add: kv_victim_bound)
  with 2 show ?case by auto
qed simp

declare kv_evict_loop.simps [simp del]

definition kv_evict ::
  "kv_globals \<Rightarrow> bool \<Rightarrow> u64 \<Rightarrow> (string \<Rightarrow> bool) \<Rightarrow> string list option \<Rightarrow> int option \<Rightarrow> u64 \<Rightarrow>
    kv_evict_ctx option \<Rightarrow> kv_store \<Rightarrow> kv_fs \<Rightarrow> kv_store \<times> kv_fs" where
  "kv_evict g ladder now may names live extra_bytes incoming kc fs =
     (if \<not> ks_enabled kc \<or> ks_budget_bytes kc = 0 then (kc, fs)
      else if ks_budget_bytes kc < extra_bytes then (kc, fs)
      else let kc = kv_refresh g fs names kc;
               tot = sum_list (map ke_file_size (ks_entry kc));
               target = ks_budget_bytes kc - extra_bytes;
               (es, tot, fs) = kv_evict_loop (kv_eviction_score ladder live now incoming) may target
                                   (ks_entry kc) tot fs
           in (kc\<lparr>ks_entry := es\<rparr>, fs))"

section \<open>The ladder\<close>

text \<open>\<open>ds4_kvstore_ladder_select\<close>: which depths of a chain are kept behind the frontier.\<close>

fun kv_ladder_loop :: "u32 \<Rightarrow> u32 \<Rightarrow> u32 list \<Rightarrow> bool list" where
  "kv_ladder_loop frontier last_kept [] = []"
| "kv_ladder_loop frontier last_kept (d # ds) =
     (let k = (if frontier \<le> d then False
               else if frontier - d \<le> 32768 then True
               else (ucast d :: u64) * 7 \<le> ucast last_kept * 5)
      in k # kv_ladder_loop frontier (if k then d else last_kept) ds)"

definition kv_ladder_select :: "u32 \<Rightarrow> u32 list \<Rightarrow> bool list \<times> int" where
  "kv_ladder_select frontier depths =
     (let keep = kv_ladder_loop frontier frontier depths
      in (keep, int (length (filter (\<lambda>k. k) keep))))"

text \<open>The insertion step of the sort: \<open>v\<close> goes behind the last element that is not smaller.\<close>

definition kv_insert_desc :: "('a \<Rightarrow> 'k::linorder) \<Rightarrow> 'a list \<Rightarrow> 'a \<Rightarrow> 'a list" where
  "kv_insert_desc key xs v =
     (let shifted = takeWhile (\<lambda>x. key x < key v) (rev xs)
      in rev (dropWhile (\<lambda>x. key x < key v) (rev xs)) @ v # rev shifted)"

definition kv_sort_desc :: "('a \<Rightarrow> 'k::linorder) \<Rightarrow> 'a list \<Rightarrow> 'a list" where
  "kv_sort_desc key xs = foldl (kv_insert_desc key) [] xs"

text \<open>One kept or dropped waypoint of the thinning pass.\<close>

definition kv_thin_one ::
  "kv_globals \<Rightarrow> u64 \<Rightarrow> (string \<Rightarrow> bool) \<Rightarrow> kv_entry list \<times> kv_fs \<Rightarrow> nat \<times> bool \<Rightarrow> kv_entry list \<times> kv_fs" where
  "kv_thin_one g now may st ik =
     (let (es, fs) = st; (i, keep) = ik; e = es ! i
      in if keep
         then let (f, ok) = kv_touch_file g now (fs (ke_path e)) (ke_hits e);
                  fs = fs(ke_path e := f)
              in (if ok then es[i := e\<lparr>ke_last_used := now\<rparr>] else es, fs)
         else let (fs, _) = kv_unlink may fs (ke_path e)
              in (es[i := e\<lparr>ke_file_size := 0\<rparr>], fs))"

definition kv_ladder_thin ::
  "kv_globals \<Rightarrow> bool \<Rightarrow> bool \<Rightarrow> u64 \<Rightarrow> (string \<Rightarrow> bool) \<Rightarrow> string list option \<Rightarrow> kv_evict_ctx option \<Rightarrow>
    u32 \<Rightarrow> kv_store \<Rightarrow> kv_fs \<Rightarrow> kv_store \<times> kv_fs" where
  "kv_ladder_thin g alloc_ok ladder now may names incoming frontier kc fs =
     (if \<not> ks_enabled kc \<or> \<not> ladder then (kc, fs)
      else if incoming = None \<or> ec_text (the incoming) = None then (kc, fs)
      else let kc = kv_refresh g fs names kc
        in if \<not> alloc_ok then (kc, fs)
           else let es = ks_entry kc;
                    idx = filter (\<lambda>i. ke_tokens (es ! i) < frontier \<and>
                            kv_supersedes_continued (es ! i) incoming) [0..<length es]
                in if idx = [] then (kc, fs)
                   else let idx = kv_sort_desc (\<lambda>i. ke_tokens (es ! i)) idx;
                            depths = map (\<lambda>i. ke_tokens (es ! i)) idx;
                            (keep, _) = kv_ladder_select frontier depths;
                            (es, fs) = foldl (kv_thin_one g now may) (es, fs) (zip idx keep)
                        in (kc\<lparr>ks_entry := es\<rparr>, fs))"

section \<open>The store schedule\<close>

text \<open>C \<open>%\<close> and \<open>/\<close> truncate towards zero.\<close>

definition c_mod :: "int \<Rightarrow> int \<Rightarrow> int" where
  "c_mod a b = sgn a * (\<bar>a\<bar> mod \<bar>b\<bar>)"

definition c_div :: "int \<Rightarrow> int \<Rightarrow> int" where
  "c_div a b = sgn a * sgn b * (\<bar>a\<bar> div \<bar>b\<bar>)"

lemma c_mod_nonneg [simp]: "0 \<le> a \<Longrightarrow> 0 < b \<Longrightarrow> c_mod a b = a mod b"
  by (cases "a = 0") (auto simp: c_mod_def)

lemma c_div_nonneg [simp]: "0 \<le> a \<Longrightarrow> 0 < b \<Longrightarrow> c_div a b = a div b"
  by (cases "a = 0") (auto simp: c_div_def)

definition kv_store_len :: "kv_store \<Rightarrow> int \<Rightarrow> int" where
  "kv_store_len kc tokens =
     (let trim = ko_boundary_trim_tokens (ks_opt kc);
          align = ko_boundary_align_tokens (ks_opt kc)
      in if ko_min_tokens (ks_opt kc) + trim < tokens
         then let stable = tokens - trim;
                  stable = (if 0 < align then stable - c_mod stable align else stable)
              in if ko_min_tokens (ks_opt kc) \<le> stable then stable else tokens
         else tokens)"

fun kv_last_user :: "int \<Rightarrow> int \<Rightarrow> int \<Rightarrow> int list \<Rightarrow> int \<Rightarrow> int" where
  "kv_last_user user assistant i [] last_user = last_user"
| "kv_last_user user assistant i (t # ts) last_user =
     (if t = assistant then last_user
      else kv_last_user user assistant (i + 1) ts (if t = user then i else last_user))"

definition kv_chat_anchor_pos :: "kv_store \<Rightarrow> int list option \<Rightarrow> int \<Rightarrow> int \<Rightarrow> int" where
  "kv_chat_anchor_pos kc prompt user assistant =
     (case prompt of
        None \<Rightarrow> -1
      | Some p \<Rightarrow>
          if user < 0 \<or> assistant < 0 then -1
          else let last_user = kv_last_user user assistant 0 p (-1)
            in if ko_min_tokens (ks_opt kc) \<le> last_user then last_user else -1)"

definition kv_continued_step :: "kv_store \<Rightarrow> int" where
  "kv_continued_step kc =
     (if \<not> ks_enabled kc \<or> ko_continued_interval_tokens (ks_opt kc) \<le> 0 then 0
      else let step = ko_continued_interval_tokens (ks_opt kc);
               align = ko_boundary_align_tokens (ks_opt kc)
           in if 0 < align
              then let step = c_div (step + align - 1) align * align
                   in if step \<le> 0 then align else step
              else step)"

definition kv_continued_store_target :: "kv_store \<Rightarrow> int \<Rightarrow> int" where
  "kv_continued_store_target kc live_tokens =
     (let step = kv_continued_step kc
      in if step \<le> 0 then 0
         else if live_tokens < ko_min_tokens (ks_opt kc) then 0
         else if c_mod live_tokens step \<noteq> 0 then 0
         else if live_tokens \<le> ks_continued_last_store_tokens kc then 0
         else live_tokens)"

definition kv_continued_store_target_crossing :: "kv_store \<Rightarrow> int \<Rightarrow> int" where
  "kv_continued_store_target_crossing kc live_tokens =
     (let step = kv_continued_step kc
      in if step \<le> 0 then 0
         else if live_tokens < ko_min_tokens (ks_opt kc) then 0
         else let last = ks_continued_last_store_tokens kc
           in if live_tokens \<le> last then 0
              else let nxt = (c_div last step + 1) * step
                in if nxt \<le> live_tokens then live_tokens else 0)"

definition kv_note_store :: "kv_store \<Rightarrow> int \<Rightarrow> kv_store" where
  "kv_note_store kc tokens =
     (if ks_continued_last_store_tokens kc < tokens
      then kc\<lparr>ks_continued_last_store_tokens := tokens\<rparr> else kc)"

definition kv_suppress_continued_store :: "kv_store \<Rightarrow> int \<Rightarrow> kv_store \<times> int" where
  "kv_suppress_continued_store kc tokens =
     (if kv_continued_store_target kc tokens \<noteq> tokens then (kc, -1)
      else (kv_note_store kc tokens, ks_continued_last_store_tokens kc))"

definition kv_restore_suppressed_continued :: "kv_store \<Rightarrow> int \<Rightarrow> int \<Rightarrow> kv_store" where
  "kv_restore_suppressed_continued kc old_tokens suppressed_tokens =
     (if 0 \<le> old_tokens \<and> ks_continued_last_store_tokens kc = suppressed_tokens
      then kc\<lparr>ks_continued_last_store_tokens := old_tokens\<rparr> else kc)"

section \<open>The size budget\<close>

definition kv_file_size_bytes :: "u64 \<Rightarrow> u64 \<Rightarrow> u64 \<Rightarrow> u64 option" where
  "kv_file_size_bytes text_bytes payload_bytes trailer_bytes =
     (let fixed = of_nat DS4_KVSTORE_FIXED_HEADER + 4
      in if (- 1) - fixed < text_bytes \<or> (- 1) - fixed - text_bytes < payload_bytes \<or>
            (- 1) - fixed - text_bytes - payload_bytes < trailer_bytes then None
         else Some (fixed + text_bytes + payload_bytes + trailer_bytes))"

definition kv_budget_required :: "u64 \<Rightarrow> u64 option" where
  "kv_budget_required file_bytes =
     (let slack = file_bytes div 100;
          slack = (if file_bytes mod 100 \<noteq> 0 then slack + 1 else slack)
      in if (- 1) - file_bytes < slack then None else Some (file_bytes + slack))"

text \<open>The result, and the two sizes where the code assigns them.\<close>

definition kv_file_size_fits ::
  "kv_store option \<Rightarrow> u64 \<Rightarrow> u64 \<Rightarrow> u64 \<Rightarrow> bool \<times> u64 option \<times> u64 option" where
  "kv_file_size_fits kc text_bytes payload_bytes trailer_bytes =
     (case kv_file_size_bytes text_bytes payload_bytes trailer_bytes of
        None \<Rightarrow> (False, None, None)
      | Some file_bytes \<Rightarrow>
          if kc = None \<or> ks_budget_bytes (the kc) = 0 then (True, Some file_bytes, None)
          else case kv_budget_required file_bytes of
            None \<Rightarrow> (False, Some file_bytes, None)
          | Some required \<Rightarrow> (required \<le> ks_budget_bytes (the kc), Some file_bytes, Some required))"

section \<open>What the ladder keeps\<close>

lemma ladder_ratio: "(ucast (d :: u32) :: u64) * 7 \<le> ucast (l :: u32) * 5 \<longleftrightarrow> 7 * unat d \<le> 5 * unat l"
proof -
  have "unat d < 2 ^ 32" "unat l < 2 ^ 32"
    using unsigned_less [of d, where ?'a = nat] unsigned_less [of l, where ?'a = nat] by simp_all
  then have "unat ((ucast d :: u64) * 7) = unat d * 7" "unat ((ucast l :: u64) * 5) = unat l * 5"
    by (simp_all add: unat_mult_lem [THEN iffD1] unat_ucast_up)
  then show ?thesis by (simp add: word_le_nat_alt mult.commute)
qed

lemma length_kv_ladder_loop [simp]: "length (kv_ladder_loop frontier l ds) = length ds"
  by (induction frontier l ds rule: kv_ladder_loop.induct) (auto simp: Let_def)

lemma kv_ladder_loop_dense:
  "i < length ds \<Longrightarrow> ds ! i < frontier \<Longrightarrow> frontier - ds ! i \<le> 32768 \<Longrightarrow> kv_ladder_loop frontier l ds ! i"
  by (induction ds arbitrary: l i) (auto simp: Let_def nth_Cons split: nat.splits)

lemma kv_ladder_loop_behind: "i < length ds \<Longrightarrow> kv_ladder_loop frontier l ds ! i \<Longrightarrow> ds ! i < frontier"
  by (induction ds arbitrary: l i) (auto simp: Let_def nth_Cons not_le split: nat.splits if_splits)

lemma kv_ladder_loop_geometric:
  "sorted_wrt (\<ge>) ds \<Longrightarrow> \<forall>d \<in> set ds. d \<le> l \<Longrightarrow> i < length ds \<Longrightarrow> kv_ladder_loop frontier l ds ! i \<Longrightarrow>
    32768 < frontier - ds ! i \<Longrightarrow>
    7 * unat (ds ! i) \<le> 5 * unat l \<and>
    (\<forall>j < i. kv_ladder_loop frontier l ds ! j \<longrightarrow> 7 * unat (ds ! i) \<le> 5 * unat (ds ! j))"
proof (induction frontier l ds arbitrary: i rule: kv_ladder_loop.induct)
  case (2 frontier l d ds)
  define k where "k = (if frontier \<le> d then False else if frontier - d \<le> 32768 then True
    else (ucast d :: u64) * 7 \<le> ucast l * 5)"
  let ?l = "if k then d else l"
  have loop: "kv_ladder_loop frontier l (d # ds) = k # kv_ladder_loop frontier ?l ds"
    by (simp add: k_def Let_def)
  show ?case
  proof (cases i)
    case 0
    with "2.prems"(4,5) show ?thesis by (auto simp: Let_def ladder_ratio split: if_splits)
  next
    case (Suc i')
    have dl: "unat ?l \<le> unat l" using "2.prems"(2) by (simp add: word_le_nat_alt)
    have "7 * unat (ds ! i') \<le> 5 * unat ?l \<and>
        (\<forall>j < i'. kv_ladder_loop frontier ?l ds ! j \<longrightarrow> 7 * unat (ds ! i') \<le> 5 * unat (ds ! j))"
      using "2.prems" Suc loop by (intro "2.IH" [OF k_def, of i']) (auto simp del: kv_ladder_loop.simps split: if_splits)
    with dl Suc loop show ?thesis
      by (auto simp: nth_Cons' simp del: kv_ladder_loop.simps)
  qed
qed simp

lemma kv_ladder_loop_covered:
  "i < length ds \<Longrightarrow> ds ! i < frontier \<Longrightarrow> \<not> kv_ladder_loop frontier l ds ! i \<Longrightarrow>
    5 * unat l < 7 * unat (ds ! i) \<or>
    (\<exists>j < i. kv_ladder_loop frontier l ds ! j \<and> 5 * unat (ds ! j) < 7 * unat (ds ! i))"
proof (induction frontier l ds arbitrary: i rule: kv_ladder_loop.induct)
  case (2 frontier l d ds)
  define k where "k = (if frontier \<le> d then False else if frontier - d \<le> 32768 then True
    else (ucast d :: u64) * 7 \<le> ucast l * 5)"
  let ?l = "if k then d else l"
  have loop: "kv_ladder_loop frontier l (d # ds) = k # kv_ladder_loop frontier ?l ds"
    by (simp add: k_def Let_def)
  show ?case
  proof (cases i)
    case 0
    with "2.prems" show ?thesis by (auto simp: Let_def ladder_ratio split: if_splits)
  next
    case (Suc i')
    have "5 * unat ?l < 7 * unat (ds ! i') \<or>
        (\<exists>j < i'. kv_ladder_loop frontier ?l ds ! j \<and> 5 * unat (ds ! j) < 7 * unat (ds ! i'))"
      using "2.prems" Suc loop by (intro "2.IH" [OF k_def, of i']) (auto simp del: kv_ladder_loop.simps split: if_splits)
    then show ?thesis
    proof
      assume *: "5 * unat ?l < 7 * unat (ds ! i')"
      show ?thesis
      proof (cases k)
        case True
        with * Suc loop show ?thesis
          by (intro disjI2 exI [of _ 0]) (auto simp del: kv_ladder_loop.simps)
      qed (use * Suc in simp)
    next
      assume "\<exists>j < i'. kv_ladder_loop frontier ?l ds ! j \<and> 5 * unat (ds ! j) < 7 * unat (ds ! i')"
      then obtain j where "j < i'" "kv_ladder_loop frontier ?l ds ! j" "5 * unat (ds ! j) < 7 * unat (ds ! i')"
        by blast
      with Suc loop show ?thesis
        by (intro disjI2 exI [of _ "Suc j"]) (auto simp del: kv_ladder_loop.simps)
    qed
  qed
qed simp

text \<open>C32. The ladder of a chain, deepest waypoint first: everything within 32768 tokens behind the
  frontier is kept; a rung kept further back is at most 5/7 of every deeper kept rung and of the
  frontier; and a dropped waypoint has a deeper kept rung, or the frontier, within 7/5 of it, so
  a restore after a divergence there never falls back by more than that factor.\<close>

theorem kv_ladder_select_spec:
  assumes "sorted_wrt (\<ge>) depths" and "\<forall>d \<in> set depths. d < frontier"
    and "fst (kv_ladder_select frontier depths) = keep" and "i < length depths"
  shows "(frontier - depths ! i \<le> 32768 \<longrightarrow> keep ! i) \<and>
    (keep ! i \<and> 32768 < frontier - depths ! i \<longrightarrow> 7 * unat (depths ! i) \<le> 5 * unat frontier \<and>
      (\<forall>j < i. keep ! j \<longrightarrow> 7 * unat (depths ! i) \<le> 5 * unat (depths ! j))) \<and>
    (\<not> keep ! i \<longrightarrow> 5 * unat frontier < 7 * unat (depths ! i) \<or>
      (\<exists>j < i. keep ! j \<and> 5 * unat (depths ! j) < 7 * unat (depths ! i)))"
proof -
  have keep: "keep = kv_ladder_loop frontier frontier depths"
    using assms(3) by (simp add: kv_ladder_select_def Let_def)
  have lt: "depths ! i < frontier" "\<forall>d \<in> set depths. d \<le> frontier"
    using assms(2,4) by (auto intro: less_imp_le)
  show ?thesis
    unfolding keep
    using kv_ladder_loop_dense [OF assms(4) lt(1)]
      kv_ladder_loop_geometric [OF assms(1) lt(2) assms(4), of frontier]
      kv_ladder_loop_covered [OF assms(4) lt(1)]
    by blast
qed

lemma kv_ladder_select_spec_witness:
  "let keep = fst (kv_ladder_select 100000 [90000, 60000, 55000, 40000]) in
    \<not> keep ! 2 \<longrightarrow> 5 * unat (100000 :: u32) < 7 * unat ([90000, 60000, 55000, 40000 :: u32] ! 2) \<or>
      (\<exists>j < 2. keep ! j \<and> 5 * unat ([90000, 60000, 55000, 40000 :: u32] ! j) < 7 * unat ([90000, 60000, 55000, 40000 :: u32] ! 2))"
  using kv_ladder_select_spec [of "[90000, 60000, 55000, 40000]" 100000 _ 2, OF _ _ refl]
  by (simp add: Let_def)

end
