(* ===== verification/Kv_Evict.thy ===== *)
theory Kv_Evict
  imports Kv_Policy "HOL-Library.Multiset" "HOL-Library.Sublist"
begin

text \<open>
  Properties of the KV store's policy: the score decays, the eviction pass meets the budget
  by removing the entries with the lowest scores and no other file, the sort of the thinning
  pass, the store schedule, and the exact meaning of the size budget.
\<close>

section \<open>Scores\<close>

declare of_nat_unat [simp del]

lemma floor_mono: "(p :: real) \<le> q \<Longrightarrow> (if p < c then c else p) \<le> (if q < c then c else q)"
  by auto

lemma hit_ratio_mono:
  assumes "0 \<le> (x :: real)" and "x \<le> y"
  shows "(if 0 < x then x / (x + 1) else 0) \<le> (if 0 < y then y / (y + 1) else 0)"
proof (cases "0 < x")
  case True
  then have "x / (x + 1) = 1 - 1 / (x + 1)" "y / (y + 1) = 1 - 1 / (y + 1)"
    using assms by (simp_all add: field_simps)
  moreover have "1 / (y + 1) \<le> 1 / (x + 1)" using True assms by (intro divide_left_mono) auto
  ultimately show ?thesis using True assms by simp
qed (use assms in auto)

lemma powr_elapsed_antimono:
  assumes "0 < c" and "(a :: nat) \<le> b"
  shows "2 powr (- real b / c) \<le> 2 powr (- real a / c)"
  using assms by (intro powr_mono) (auto simp: field_simps)

lemma elapsed_mono:
  assumes "u < a" and "a \<le> (b :: u64)"
  shows "unat (a - u) \<le> unat (b - u)"
  using assms by (simp add: word_le_nat_alt word_less_nat_alt unat_sub)

lemma kv_effective_hits_nonneg: "0 \<le> kv_effective_hits e now"
  by (simp add: kv_effective_hits_def Let_def)

lemma kv_base_pos: "0 < kv_base e now"
  by (simp add: kv_base_def Let_def)

lemma kv_base_le_1: "kv_base e now \<le> 1"
proof -
  have "2 powr (- real n / BASE_HALF_LIFE) \<le> 1" for n
    using powr_elapsed_antimono [of BASE_HALF_LIFE 0 n] by (simp add: BASE_HALF_LIFE_def)
  then show ?thesis by (simp add: kv_base_def Let_def)
qed

lemma kv_effective_hits_le: "kv_effective_hits e now \<le> real (unat (ke_hits e))"
proof -
  have "2 powr (- real n / HIT_HALF_LIFE) \<le> 1" for n
    using powr_elapsed_antimono [of HIT_HALF_LIFE 0 n] by (simp add: HIT_HALF_LIFE_def)
  then have "real (unat (ke_hits e)) * 2 powr (- real n / HIT_HALF_LIFE) \<le> real (unat (ke_hits e))" for n
    by (simp add: mult_left_le)
  then show ?thesis by (simp add: kv_effective_hits_def Let_def)
qed

lemma kv_effective_hits_antimono:
  assumes "a \<le> b"
  shows "kv_effective_hits e b \<le> kv_effective_hits e a"
proof -
  define u where "u = (if ke_last_used e \<noteq> 0 then ke_last_used e else ke_created_at e)"
  let ?h = "\<lambda>n. real (unat (ke_hits e)) * 2 powr (- real n / HIT_HALF_LIFE)"
  have mono: "?h (unat (b - u)) \<le> ?h (unat (a - u))" if "u < a"
    using elapsed_mono [OF that assms] powr_elapsed_antimono [of HIT_HALF_LIFE]
    by (intro mult_left_mono) (auto simp: HIT_HALF_LIFE_def)
  show ?thesis
  proof (cases "u < a")
    case True
    with assms have "u < b" by simp
    with True mono show ?thesis
      by (auto simp: kv_effective_hits_def Let_def u_def [symmetric] kv_effective_hits_nonneg)
  next
    case False
    then show ?thesis
      using kv_effective_hits_le [of e b]
      by (auto simp: kv_effective_hits_def [of e a] Let_def u_def [symmetric])
        (simp add: kv_effective_hits_def u_def)
  qed
qed

lemma kv_base_antimono:
  assumes "a \<le> b"
  shows "kv_base e b \<le> kv_base e a"
proof -
  define u where "u = (if ke_last_used e \<noteq> 0 then ke_last_used e else ke_created_at e)"
  let ?h = "\<lambda>n. 2 powr (- real n / BASE_HALF_LIFE)"
  have mono: "?h (unat (b - u)) \<le> ?h (unat (a - u))" if "u < a"
    using elapsed_mono [OF that assms] powr_elapsed_antimono [of BASE_HALF_LIFE]
    by (auto simp: BASE_HALF_LIFE_def)
  show ?thesis
  proof (cases "u < a")
    case True
    with assms have "u < b" by simp
    with True floor_mono [OF mono [OF True], of "1 / 1000000"] show ?thesis
      by (simp only: kv_base_def Let_def u_def [symmetric]) auto
  next
    case False
    then have "kv_base e a = 1" by (simp add: kv_base_def Let_def u_def [symmetric])
    then show ?thesis using kv_base_le_1 by simp
  qed
qed

text \<open>An entry that is not used again only loses score as time passes, whatever its reason and
  whatever is being stored.\<close>

theorem kv_eviction_score_antimono:
  assumes "a \<le> b"
  shows "kv_eviction_score ladder live b incoming e \<le> kv_eviction_score ladder live a incoming e"
proof (cases "ke_file_size e = 0")
  case False
  let ?h = "kv_effective_hits e" and ?t = "real (unat (ke_tokens e)) / real (unat (ke_file_size e))"
  let ?f = "if kv_reason_is_anchor (ke_reason e) then 2 else (1 :: real)"
  define s where "s now = (?h now + kv_base e now) * ?t * ?f" for now
  define m where "m now = (5 / 100 + 45 / 100 * (if 0 < ?h now then ?h now / (?h now + 1) else 0))" for now
  have h: "0 \<le> ?h b" "?h b \<le> ?h a"
    using kv_effective_hits_nonneg kv_effective_hits_antimono [OF assms] by auto
  have s: "0 \<le> s b" "s b \<le> s a"
    unfolding s_def using h kv_base_pos [of e b] kv_base_antimono [OF assms, of e]
    by (auto intro!: mult_right_mono mult_nonneg_nonneg divide_right_mono add_mono)
  have m: "0 \<le> m b" "m b \<le> m a"
    unfolding m_def using h hit_ratio_mono [OF h] by auto
  have sm: "s b * m b \<le> s a * m a" using s m by (intro mult_mono) auto
  have score: "kv_eviction_score ladder live now incoming e =
      (if kv_supersedes_continued e incoming
       then if (case live of None \<Rightarrow> False | Some n \<Rightarrow> sint (ke_tokens e) < n \<and> n - sint (ke_tokens e) \<le> 16384)
            then s now * 8 else if \<not> ladder then s now * m now
            else s now * (32768 / real (unat (if ke_tokens e \<noteq> 0 then ke_tokens e else 1)))
       else s now)" for now
    using False by (simp add: kv_eviction_score_def Let_def s_def m_def)
  show ?thesis
    unfolding score using s sm by (auto intro!: mult_right_mono divide_right_mono)
qed (simp add: kv_eviction_score_def)

lemma kv_eviction_score_antimono_witness:
  "kv_eviction_score True None 2000000000 None (kv_empty_entry\<lparr>ke_tokens := 9, ke_file_size := 7, ke_last_used := 5\<rparr>) \<le>
   kv_eviction_score True None 1900000000 None (kv_empty_entry\<lparr>ke_tokens := 9, ke_file_size := 7, ke_last_used := 5\<rparr>)"
  by (rule kv_eviction_score_antimono) simp

text \<open>A stored entry never reaches the score zero that marks a dropped one, however old it is.\<close>

theorem kv_eviction_score_pos:
  assumes "ke_tokens e \<noteq> 0" and "ke_file_size e \<noteq> 0"
  shows "0 < kv_eviction_score ladder live now incoming e"
proof -
  let ?f = "if kv_reason_is_anchor (ke_reason e) then 2 else (1 :: real)"
  define s where "s = (kv_effective_hits e now + kv_base e now) * real (unat (ke_tokens e)) /
    real (unat (ke_file_size e)) * ?f"
  define m where "m = 5 / 100 + 45 / 100 * (if 0 < kv_effective_hits e now
    then kv_effective_hits e now / (kv_effective_hits e now + 1) else 0)"
  have "0 < kv_effective_hits e now + kv_base e now"
    using kv_effective_hits_nonneg kv_base_pos by (simp add: add_nonneg_pos)
  then have s: "0 < s" using assms by (simp add: s_def unat_gt_0)
  have m: "0 < m" unfolding m_def by (auto intro!: add_pos_nonneg)
  have "kv_eviction_score ladder live now incoming e =
      (if kv_supersedes_continued e incoming
       then if (case live of None \<Rightarrow> False | Some n \<Rightarrow> sint (ke_tokens e) < n \<and> n - sint (ke_tokens e) \<le> 16384)
            then s * 8 else if \<not> ladder then s * m
            else s * (32768 / real (unat (if ke_tokens e \<noteq> 0 then ke_tokens e else 1)))
       else s)"
    using assms(2) by (simp add: kv_eviction_score_def Let_def s_def m_def)
  then show ?thesis using s m assms(1) by (simp add: unat_gt_0)
qed

lemma kv_eviction_score_pos_witness:
  "0 < kv_eviction_score False (Some 5) 4000000000 None
         (kv_empty_entry\<lparr>ke_tokens := 9, ke_file_size := 7, ke_last_used := 5\<rparr>)"
  by (rule kv_eviction_score_pos) simp_all

section \<open>The eviction pass\<close>

lemma kv_victim_loop_min:
  assumes "i \<le> length es" and "victim < i" and "\<forall>j < i. score (es ! victim) \<le> score (es ! j)"
  shows "kv_victim_loop score es i (drop i es) victim (score (es ! victim)) < length es \<and>
    (\<forall>j < length es. score (es ! kv_victim_loop score es i (drop i es) victim (score (es ! victim))) \<le> score (es ! j))"
  using assms
proof (induction "length es - i" arbitrary: i victim)
  case 0
  then show ?case by simp
next
  case (Suc n)
  then have i: "i < length es" "drop i es = es ! i # drop (Suc i) es" by (auto simp: Cons_nth_drop_Suc)
  show ?case
  proof (cases "score (es ! i) < score (es ! victim) \<or>
      (score (es ! i) = score (es ! victim) \<and> ke_last_used (es ! i) < ke_last_used (es ! victim))")
    case True
    with Suc.prems i have "\<forall>j < Suc i. score (es ! i) \<le> score (es ! j)"
      by (fastforce simp: less_Suc_eq)
    moreover have "kv_victim_loop score es i (drop i es) victim (score (es ! victim)) =
        kv_victim_loop score es (Suc i) (drop (Suc i) es) i (score (es ! i))"
      using True by (simp only: i(2) kv_victim_loop.simps if_True)
    ultimately show ?thesis using Suc.hyps(1) [of "Suc i" i] Suc.hyps(2) i(1) by simp
  next
    case False
    with Suc.prems i have "\<forall>j < Suc i. score (es ! victim) \<le> score (es ! j)"
      by (auto simp: less_Suc_eq)
    moreover have "kv_victim_loop score es i (drop i es) victim (score (es ! victim)) =
        kv_victim_loop score es (Suc i) (drop (Suc i) es) victim (score (es ! victim))"
      using False by (simp only: i(2) kv_victim_loop.simps if_False)
    ultimately show ?thesis using Suc.hyps(1) [of "Suc i" victim] Suc.hyps(2) Suc.prems(2) i(1) by simp
  qed
qed

lemma kv_victim_min:
  assumes "es \<noteq> []"
  shows "kv_victim score es < length es" and "e \<in> set es \<Longrightarrow> score (es ! kv_victim score es) \<le> score e"
proof -
  have "1 \<le> length es" using assms by (cases es) auto
  from kv_victim_loop_min [OF this, of 0 score]
  have "kv_victim score es < length es \<and> (\<forall>j < length es. score (es ! kv_victim score es) \<le> score (es ! j))"
    using assms by (simp add: kv_victim_def hd_conv_nth drop_Suc)
  then show "kv_victim score es < length es"
    and "e \<in> set es \<Longrightarrow> score (es ! kv_victim score es) \<le> score e"
    by (auto simp: in_set_conv_nth)
qed

lemma subseq_subset: "subseq xs ys \<Longrightarrow> set xs \<subseteq> set ys"
  by (induction rule: list_emb.induct) auto

text \<open>The loop, when the index holds distinct existing files that may be removed.\<close>

definition kv_index_ok :: "(string \<Rightarrow> bool) \<Rightarrow> kv_fs \<Rightarrow> kv_entry list \<Rightarrow> bool" where
  "kv_index_ok may fs es \<longleftrightarrow> distinct (map ke_path es) \<and> (\<forall>e \<in> set es. fs (ke_path e) \<noteq> None \<and> may (ke_path e))"

abbreviation kv_sizes :: "kv_entry list \<Rightarrow> nat" where
  "kv_sizes es \<equiv> sum_list (map (\<lambda>e. unat (ke_file_size e)) es)"

lemma kv_evict_loop_spec:
  assumes "kv_evict_loop score may target es tot fs = (es', tot', fs')"
    and "kv_index_ok may fs es" and "unat tot = kv_sizes es"
  shows "subseq es' es \<and> unat tot' = kv_sizes es' \<and> (tot' \<le> target \<or> es' = []) \<and>
    (\<forall>r \<in> set es - set es'. \<forall>k \<in> set es'. score r \<le> score k) \<and>
    fs' = (\<lambda>p. if p \<in> ke_path ` (set es - set es') then None else fs p)"
  using assms
proof (induction score may target es tot fs rule: kv_evict_loop.induct)
  case (1 score may target es tot fs)
  show ?case
  proof (cases "target < tot \<and> es \<noteq> []")
    case False
    with "1.prems" show ?thesis by (auto simp: kv_evict_loop.simps)
  next
    case True
    define v where "v = kv_victim score es"
    define e where "e = es ! v"
    let ?es = "take v es @ drop (Suc v) es" and ?fs = "fs(ke_path e := None)"
    have v: "v < length es" "\<forall>x \<in> set es. score e \<le> score x"
      using kv_victim_min True by (auto simp: v_def e_def)
    have es: "es = take v es @ e # drop (Suc v) es" using v(1) by (simp add: e_def id_take_nth_drop)
    have ul: "kv_unlink may fs (ke_path e) = (?fs, True)"
      using "1.prems"(2) v(1) by (simp add: kv_unlink_def kv_index_ok_def e_def)
    have sz: "kv_sizes es = kv_sizes ?es + unat (ke_file_size e)"
      by (subst es) simp
    then have le: "ke_file_size e \<le> tot" using "1.prems"(3) by (simp add: word_le_nat_alt)
    then have tot: "unat (tot - ke_file_size e) = kv_sizes ?es"
      using "1.prems"(3) sz by (simp add: unat_sub)
    have d: "distinct (map ke_path (take v es @ e # drop (Suc v) es))"
      using "1.prems"(2) es by (simp add: kv_index_ok_def)
    then have notin: "ke_path e \<notin> ke_path ` set ?es" by auto
    have sub: "set es = insert e (set ?es)" by (subst es) auto
    have ok: "kv_index_ok may ?fs ?es"
      unfolding kv_index_ok_def
    proof (intro conjI ballI)
      show "distinct (map ke_path ?es)" using d by auto
      fix x assume x: "x \<in> set ?es"
      then have "ke_path x \<noteq> ke_path e" using notin by (metis image_eqI)
      then show "?fs (ke_path x) \<noteq> None" "may (ke_path x)"
        using "1.prems"(2) x sub by (auto simp: kv_index_ok_def)
    qed
    have rec: "kv_evict_loop score may target ?es (tot - ke_file_size e) ?fs = (es', tot', fs')"
      using "1.prems"(1) True ul le by (simp add: kv_evict_loop.simps [of score may target es] Let_def v_def e_def)
    have IH: "subseq es' ?es \<and> unat tot' = kv_sizes es' \<and> (tot' \<le> target \<or> es' = []) \<and>
        (\<forall>r \<in> set ?es - set es'. \<forall>k \<in> set es'. score r \<le> score k) \<and>
        fs' = (\<lambda>p. if p \<in> ke_path ` (set ?es - set es') then None else ?fs p)"
      using "1.IH" [OF True v_def e_def ul [symmetric] refl refl refl] rec ok tot le by (simp add: fun_upd_def)
    have "subseq ?es es" by (subst (2) es) (intro list_emb_append_mono, auto)
    moreover have "set es' \<subseteq> set ?es" using IH subseq_subset by blast
    moreover have "e \<notin> set es'" using notin calculation(2) by blast
    ultimately show ?thesis
      using IH v(2) sub by (auto intro: subseq_order.trans simp: fun_eq_iff)
  qed
qed

subsection \<open>The directory index\<close>

lemma kv_read_entry_Some:
  "kv_read_entry g path c sha keep = Some e \<Longrightarrow> c \<noteq> None \<and> ke_path e = path \<and> ke_sha e = sha"
  by (auto simp: kv_read_entry_def Let_def split: option.splits prod.splits if_splits)

definition kv_index_name :: "kv_globals \<Rightarrow> string \<Rightarrow> kv_fs \<Rightarrow> string \<Rightarrow> kv_entry option" where
  "kv_index_name g dir fs n =
     (case kv_sha_hex_name n of None \<Rightarrow> None
      | Some sha \<Rightarrow> kv_read_entry g (kv_path_join dir n) (fs (kv_path_join dir n)) sha True)"

lemma kv_refresh_loop_filter:
  "kv_refresh_loop g dir fs ns es = es @ List.map_filter (kv_index_name g dir fs) ns"
  by (induction g dir fs ns es rule: kv_refresh_loop.induct)
    (auto simp: kv_index_name_def Let_def map_filter_simps split: option.splits)

lemma kv_index_name_Some: "kv_index_name g dir fs n = Some e \<Longrightarrow> ke_path e = kv_path_join dir n \<and> fs (ke_path e) \<noteq> None"
  by (auto simp: kv_index_name_def split: option.splits dest: kv_read_entry_Some)

lemma kv_path_join_inj: "kv_path_join dir a = kv_path_join dir b \<longleftrightarrow> a = b"
  by (simp add: kv_path_join_def Let_def)

lemma kv_refresh_index_ok:
  assumes "distinct ns" and "\<forall>p. may p"
  shows "kv_index_ok may fs (kv_refresh_loop g dir fs ns [])"
proof -
  have "distinct (map ke_path (List.map_filter (kv_index_name g dir fs) ns))"
    using assms(1)
  proof (induction ns)
    case (Cons n ns)
    show ?case
    proof (cases "kv_index_name g dir fs n")
      case (Some e)
      have "ke_path e \<notin> ke_path ` set (List.map_filter (kv_index_name g dir fs) ns)"
      proof
        assume "ke_path e \<in> ke_path ` set (List.map_filter (kv_index_name g dir fs) ns)"
        then obtain m e' where "m \<in> set ns" "kv_index_name g dir fs m = Some e'" "ke_path e' = ke_path e"
          by (auto simp: List.map_filter_def)
        with Cons.prems kv_index_name_Some [OF Some] kv_index_name_Some [of g dir fs m e'] show False
          by (auto simp: kv_path_join_inj)
      qed
      with Some Cons show ?thesis by (simp add: map_filter_simps)
    qed (use Cons in \<open>simp add: map_filter_simps\<close>)
  qed (simp add: map_filter_simps)
  moreover have "\<forall>e \<in> set (List.map_filter (kv_index_name g dir fs) ns). fs (ke_path e) \<noteq> None"
    using kv_index_name_Some by (fastforce simp: List.map_filter_def)
  ultimately show ?thesis using assms(2) by (simp add: kv_refresh_loop_filter kv_index_ok_def)
qed

lemma kv_refresh_fields [simp]:
  "ks_budget_bytes (kv_refresh g fs names kc) = ks_budget_bytes kc"
  "ks_enabled (kv_refresh g fs names kc) = ks_enabled kc"
  "ks_dir (kv_refresh g fs names kc) = ks_dir kc"
  "ks_opt (kv_refresh g fs names kc) = ks_opt kc"
  "ks_reject_different_quant (kv_refresh g fs names kc) = ks_reject_different_quant kc"
  "ks_continued_last_store_tokens (kv_refresh g fs names kc) = ks_continued_last_store_tokens kc"
  by (simp_all add: kv_refresh_def Let_def split: option.splits)

lemma kv_sizes_word: "kv_sizes es < 2 ^ 64 \<Longrightarrow> unat (sum_list (map ke_file_size es)) = kv_sizes es"
proof (induction es)
  case (Cons e es)
  then show ?case by (simp add: unat_add_lem [THEN iffD1])
qed simp



section \<open>The sort of the thinning pass\<close>

lemma kv_insert_desc_sorted:
  assumes "sorted_wrt (\<lambda>a b. key b \<le> key a) xs"
  shows "sorted_wrt (\<lambda>a b. key b \<le> key a) (kv_insert_desc key xs v)"
    and "mset (kv_insert_desc key xs v) = add_mset v (mset xs)"
proof -
  let ?p = "\<lambda>x. key x < key v"
  have xs: "xs = rev (dropWhile ?p (rev xs)) @ rev (takeWhile ?p (rev xs))"
    by (metis rev_append rev_rev_ident takeWhile_dropWhile_id)
  show "mset (kv_insert_desc key xs v) = add_mset v (mset xs)"
    by (subst (2) xs) (simp add: kv_insert_desc_def Let_def)
  have "\<forall>x \<in> set (dropWhile ?p (rev xs)). key v \<le> key x"
  proof (cases "dropWhile ?p (rev xs)")
    case (Cons y ys)
    then have y: "\<not> ?p y" by (metis hd_dropWhile list.discI list.sel(1))
    from assms xs Cons have "sorted_wrt (\<lambda>a b. key b \<le> key a) (rev ys @ [y])"
      by (metis rev.simps(2) sorted_wrt_append)
    then have "\<forall>x \<in> set ys. key y \<le> key x" by (auto simp: sorted_wrt_append)
    moreover have "key v \<le> key y" using y by (simp add: not_less)
    ultimately show ?thesis using Cons order_trans by fastforce
  next
    case Nil
    then show ?thesis by (simp only: list.set) simp
  qed
  moreover have "\<forall>x \<in> set (takeWhile ?p (rev xs)). key x \<le> key v"
    by (auto dest: set_takeWhileD)
  moreover have "sorted_wrt (\<lambda>a b. key b \<le> key a) (rev (dropWhile ?p (rev xs)) @ rev (takeWhile ?p (rev xs)))"
    using assms xs by simp
  ultimately show "sorted_wrt (\<lambda>a b. key b \<le> key a) (kv_insert_desc key xs v)"
    by (auto simp: kv_insert_desc_def Let_def sorted_wrt_append)
qed

text \<open>The sort of the thinning pass orders the waypoints from the deepest to the shallowest and
  loses none, which is the order the ladder selection needs.\<close>

theorem kv_sort_desc_sorted:
  "sorted_wrt (\<lambda>a b. key b \<le> key a) (kv_sort_desc key xs) \<and> mset (kv_sort_desc key xs) = mset xs"
proof -
  have "sorted_wrt (\<lambda>a b. key b \<le> key a) ys \<Longrightarrow>
      sorted_wrt (\<lambda>a b. key b \<le> key a) (foldl (kv_insert_desc key) ys xs) \<and>
      mset (foldl (kv_insert_desc key) ys xs) = mset ys + mset xs" for ys
    by (induction xs arbitrary: ys) (auto simp: kv_insert_desc_sorted)
  from this [of "[]"] show ?thesis by (simp add: kv_sort_desc_def)
qed

section \<open>The store schedule\<close>

text \<open>The stored length never exceeds the tokens there are; when it is shorter it is at least the
  minimum, drops no fewer than the trim, and sits on the alignment grid.\<close>

theorem kv_store_len_spec:
  assumes "0 \<le> ko_boundary_trim_tokens (ks_opt kc)" and "0 \<le> ko_min_tokens (ks_opt kc)"
  shows "kv_store_len kc tokens \<le> tokens \<and>
    (kv_store_len kc tokens \<noteq> tokens \<longrightarrow>
      ko_min_tokens (ks_opt kc) \<le> kv_store_len kc tokens \<and>
      kv_store_len kc tokens \<le> tokens - ko_boundary_trim_tokens (ks_opt kc) \<and>
      (0 < ko_boundary_align_tokens (ks_opt kc) \<longrightarrow>
        ko_boundary_align_tokens (ks_opt kc) dvd kv_store_len kc tokens))"
proof -
  let ?a = "ko_boundary_align_tokens (ks_opt kc)" and ?t = "tokens - ko_boundary_trim_tokens (ks_opt kc)"
  define m where "m = ?t mod ?a"
  have m: "?a dvd ?t - m" "0 < ?a \<Longrightarrow> 0 \<le> m" by (simp_all add: m_def dvd_minus_mod)
  have c: "0 \<le> ?t \<Longrightarrow> 0 < ?a \<Longrightarrow> c_mod ?t ?a = m" by (simp add: m_def)
  show ?thesis
    using assms m c by (auto simp: kv_store_len_def Let_def)
qed

lemma kv_store_len_spec_witness:
  "let kc = \<lparr>ks_enabled = True, ks_dir = ''d'', ks_budget_bytes = 100, ks_reject_different_quant = False,
      ks_opt = kv_default_options, ks_continued_last_store_tokens = 0, ks_entry = []\<rparr>
   in kv_store_len kc 5000 = 4096 \<and> kv_store_len kc 5000 \<le> 5000"
  using kv_store_len_spec [of "\<lparr>ks_enabled = True, ks_dir = ''d'', ks_budget_bytes = 100,
      ks_reject_different_quant = False, ks_opt = kv_default_options, ks_continued_last_store_tokens = 0,
      ks_entry = []\<rparr>" 5000]
  by (simp add: kv_default_options_def kv_store_len_def)

lemma kv_continued_step_nonneg: "0 \<le> kv_continued_step kc"
  by (auto simp: kv_continued_step_def Let_def)

text \<open>On boundaries that are multiples of the step the crossing schedule is the exact one.\<close>

theorem kv_crossing_exact:
  assumes "0 \<le> ks_continued_last_store_tokens kc" and "kv_continued_step kc dvd live_tokens"
  shows "kv_continued_store_target_crossing kc live_tokens = kv_continued_store_target kc live_tokens"
proof -
  let ?s = "kv_continued_step kc" and ?l = "ks_continued_last_store_tokens kc"
  have "(?l div ?s + 1) * ?s \<le> live_tokens" if "0 < ?s" "?l < live_tokens"
  proof -
    from assms(2) obtain k where k: "live_tokens = ?s * k" ..
    have "?s * (?l div ?s) \<le> ?l" using that by (simp add: pos_mod_sign flip: minus_mod_eq_mult_div)
    then have "?s * (?l div ?s) < ?s * k" using that k by linarith
    then have "?l div ?s + 1 \<le> k" using that by (simp only: mult_less_cancel_left_pos)
    then have "?s * (?l div ?s + 1) \<le> ?s * k" using that by (intro mult_left_mono) auto
    then show ?thesis using k by (simp add: mult.commute)
  qed
  moreover have "c_mod live_tokens ?s = 0"
  proof -
    have "\<bar>?s\<bar> dvd \<bar>live_tokens\<bar>" using assms(2) by simp
    then have "\<bar>live_tokens\<bar> mod \<bar>?s\<bar> = 0" by (rule dvd_imp_mod_0)
    then show ?thesis by (simp only: c_mod_def mult_zero_right)
  qed
  ultimately show ?thesis
    using assms(1) kv_continued_step_nonneg [of kc]
    by (auto simp: kv_continued_store_target_crossing_def kv_continued_store_target_def Let_def)
qed

lemma kv_crossing_exact_witness:
  "let kc = \<lparr>ks_enabled = True, ks_dir = ''d'', ks_budget_bytes = 100, ks_reject_different_quant = False,
      ks_opt = kv_default_options, ks_continued_last_store_tokens = 10240, ks_entry = []\<rparr>
   in kv_continued_store_target_crossing kc 20480 = 20480 \<and>
      kv_continued_store_target_crossing kc 20480 = kv_continued_store_target kc 20480"
proof -
  let ?kc = "\<lparr>ks_enabled = True, ks_dir = ''d'', ks_budget_bytes = 100, ks_reject_different_quant = False,
      ks_opt = kv_default_options, ks_continued_last_store_tokens = 10240, ks_entry = []\<rparr>"
  have s: "kv_continued_step ?kc = 10240"
    by (simp add: kv_continued_step_def kv_default_options_def)
  have "kv_continued_store_target ?kc 20480 = 20480"
  proof -
    have "ko_min_tokens kv_default_options = 512" by (simp add: kv_default_options_def)
    then show ?thesis by (simp add: kv_continued_store_target_def Let_def s)
  qed
  with kv_crossing_exact [of ?kc 20480] s show ?thesis by simp
qed

text \<open>Suppressing a continued store and restoring it leaves the store as it was.\<close>

theorem kv_suppress_restore:
  assumes "0 \<le> ks_continued_last_store_tokens kc"
  shows "case kv_suppress_continued_store kc tokens of
    (kc', old) \<Rightarrow> kv_restore_suppressed_continued kc' old tokens = kc"
  using assms by (auto simp: kv_suppress_continued_store_def kv_restore_suppressed_continued_def kv_note_store_def
      kv_continued_store_target_def Let_def split: if_splits)

lemma kv_suppress_restore_witness:
  "let kc = \<lparr>ks_enabled = True, ks_dir = ''d'', ks_budget_bytes = 100, ks_reject_different_quant = False,
      ks_opt = kv_default_options, ks_continued_last_store_tokens = 10240, ks_entry = []\<rparr>
   in kv_restore_suppressed_continued (fst (kv_suppress_continued_store kc 20480))
        (snd (kv_suppress_continued_store kc 20480)) 20480 = kc"
  using kv_suppress_restore [of "\<lparr>ks_enabled = True, ks_dir = ''d'', ks_budget_bytes = 100,
      ks_reject_different_quant = False, ks_opt = kv_default_options, ks_continued_last_store_tokens = 10240,
      ks_entry = []\<rparr>" 20480]
  by (simp add: case_prod_beta Let_def)

section \<open>The size budget\<close>

lemma kv_file_size_bytes_iff:
  "kv_file_size_bytes t p r =
    (if 84 + unat t + unat p + unat r < 2 ^ 64 then Some (84 + t + p + r) else None)"
proof -
  have l: "unat t < 2 ^ 64" "unat p < 2 ^ 64" "unat r < 2 ^ 64"
    using unsigned_less [of t, where ?'a = nat] unsigned_less [of p, where ?'a = nat]
      unsigned_less [of r, where ?'a = nat] by simp_all
  have m: "unat (- 1 - 84 :: u64) = 2 ^ 64 - 85" by simp
  have s1: "unat ((- 1) - 84 - t) = 2 ^ 64 - 85 - unat t" if "unat t \<le> 2 ^ 64 - 85"
    using that m by (simp only: unat_sub word_le_nat_alt)
  have s2: "unat ((- 1) - 84 - t - p) = 2 ^ 64 - 85 - unat t - unat p"
    if "unat t \<le> 2 ^ 64 - 85" "unat p \<le> 2 ^ 64 - 85 - unat t"
    using that s1 by (simp only: unat_sub word_le_nat_alt)
  have d: "(of_nat DS4_KVSTORE_FIXED_HEADER + 4 :: u64) = 84" by (simp add: DS4_KVSTORE_FIXED_HEADER_def)
  let ?M = "2 ^ 64 - 85 :: nat"
  consider "?M < unat t" | "unat t \<le> ?M" "?M - unat t < unat p" |
    "unat t \<le> ?M" "unat p \<le> ?M - unat t" by linarith
  then show ?thesis
  proof cases
    case 1
    then have "(- 1) - 84 < t" by (simp only: word_less_nat_alt m)
    with 1 show ?thesis by (simp add: kv_file_size_bytes_def Let_def d del: word_less_nat_alt)
  next
    case 2
    then have "(- 1) - 84 - t < p" by (simp only: word_less_nat_alt s1)
    with 2 show ?thesis by (simp add: kv_file_size_bytes_def Let_def d)
  next
    case 3
    then have "\<not> (- 1) - 84 < t" "\<not> (- 1) - 84 - t < p"
      "(- 1) - 84 - t - p < r \<longleftrightarrow> ?M - unat t - unat p < unat r"
      by (simp_all only: word_less_nat_alt m s1 s2 not_less)
    with 3 show ?thesis by (auto simp: kv_file_size_bytes_def Let_def d)
  qed
qed

lemma ceil_100: "(n + 99) div 100 = (if n mod 100 \<noteq> 0 then n div 100 + 1 else n div 100)" for n :: nat
proof -
  define q r where "q = n div 100" and "r = n mod 100"
  have n: "n = 100 * q + r" "r < 100" by (simp_all add: q_def r_def)
  have "(n + 99) div 100 = (if r \<noteq> 0 then q + 1 else q)"
    by (rule div_nat_eqI) (use n in auto)
  then show ?thesis by (simp only: q_def r_def)
qed

lemma kv_budget_required_iff:
  "kv_budget_required n =
    (if unat n + (unat n + 99) div 100 < 2 ^ 64 then Some (n + of_nat ((unat n + 99) div 100)) else None)"
proof -
  let ?slack = "if n mod 100 \<noteq> 0 then n div 100 + 1 else n div 100"
  have lt: "unat n < 2 ^ 64" using unsigned_less [of n, where ?'a = nat] by simp
  have md: "n mod 100 = 0 \<longleftrightarrow> unat n mod 100 = 0" by (simp add: word_eq_iff_unsigned [where ?'a = nat] unat_mod)
  have dv: "unat (n div 100) = unat n div 100" by (simp add: unat_div)
  have "unat (n div 100 + 1) = unat n div 100 + 1"
    using lt dv by (subst unat_add_lem [THEN iffD1]) auto
  then have slack: "unat ?slack = (unat n + 99) div 100"
    using md dv unfolding ceil_100 by (simp only: if_distrib [of unat] md dv)
  moreover have "?slack = of_nat (unat ?slack)" by (simp only: of_nat_unat ucast_id)
  ultimately have s: "?slack = of_nat ((unat n + 99) div 100)" by (simp only:)
  have "unat ((- 1) - n) = 2 ^ 64 - 1 - unat n"
  proof -
    have "unat (- 1 :: u64) = 2 ^ 64 - 1"
      by (simp add: unsigned_minus_1_eq_mask mask_eq_exp_minus_1)
    then show ?thesis by (subst unat_sub) (simp_all only: word_order.extremum)
  qed
  then have "(- 1) - n < ?slack \<longleftrightarrow> \<not> unat n + (unat n + 99) div 100 < 2 ^ 64"
    using lt by (simp only: word_less_nat_alt slack) linarith
  then show ?thesis unfolding kv_budget_required_def Let_def by (simp only: s) auto
qed

text \<open>A store passes the size test exactly when its file, counted without overflow and with one
  percent headroom rounded up, fits the budget; overflow anywhere is a refusal.\<close>

theorem kv_file_size_fits_iff:
  assumes "ks_budget_bytes kc \<noteq> 0"
  shows "fst (kv_file_size_fits (Some kc) text_bytes payload_bytes trailer_bytes) \<longleftrightarrow>
    (let n = 84 + unat text_bytes + unat payload_bytes + unat trailer_bytes
     in n + (n + 99) div 100 \<le> unat (ks_budget_bytes kc))"
proof -
  let ?n = "84 + unat text_bytes + unat payload_bytes + unat trailer_bytes"
  let ?w = "84 + text_bytes + payload_bytes + trailer_bytes"
  have b: "unat (ks_budget_bytes kc) < 2 ^ 64"
    using unsigned_less [of "ks_budget_bytes kc", where ?'a = nat] by simp
  show ?thesis
  proof (cases "?n < 2 ^ 64")
    case False
    with b assms show ?thesis by (simp add: kv_file_size_fits_def kv_file_size_bytes_iff Let_def)
  next
    case True
    have w: "unat ?w = ?n"
    proof -
      have "?w = of_nat ?n" by (simp add: of_nat_unat)
      then show ?thesis using True by (simp only: unat_of_nat) (simp add: take_bit_nat_eq_self)
    qed
    show ?thesis
    proof (cases "?n + (?n + 99) div 100 < 2 ^ 64")
      case small: True
      then have "unat (?w + of_nat ((?n + 99) div 100)) = ?n + (?n + 99) div 100"
        using w by (subst unat_add_lem [THEN iffD1]) (simp_all add: unat_of_nat take_bit_nat_eq_self)
      with True small assms w show ?thesis
        by (simp add: kv_file_size_fits_def kv_file_size_bytes_iff kv_budget_required_iff Let_def word_le_nat_alt)
    next
      case False
      with True b assms w show ?thesis
        by (simp add: kv_file_size_fits_def kv_file_size_bytes_iff kv_budget_required_iff Let_def)
    qed
  qed
qed

lemma kv_file_size_fits_iff_witness:
  "fst (kv_file_size_fits (Some \<lparr>ks_enabled = True, ks_dir = ''d'', ks_budget_bytes = 200,
      ks_reject_different_quant = False, ks_opt = kv_default_options, ks_continued_last_store_tokens = 0,
      ks_entry = []\<rparr>) 10 90 14)"
  by (subst kv_file_size_fits_iff) simp_all

end
