(* ===== verification/Kv_Store.thy ===== *)
theory Kv_Store
  imports Kv_Evict
begin

text \<open>
  The two operations the rest of the program calls (ds4_kvstore.c): storing the live
  checkpoint and restoring the longest stored prefix of a prompt. The engine and its session
  (ds4.c) are a record of the functions the store calls; clocks, directory listings and the
  results of system calls are arguments. Effects are the store, the process identity, the
  session and the files.
\<close>

section \<open>The engine as the store sees it\<close>

record 's kv_engine =
  en_identity :: u64
  en_routed_quant_bits :: int
  en_model_id :: int
  en_token_text :: "int \<Rightarrow> u8 list"
  en_tokenize_rendered_chat :: "u8 list \<Rightarrow> int list"
  en_ctx :: "'s \<Rightarrow> int"
  en_tokens :: "'s \<Rightarrow> int list option"
  en_stage_payload :: "'s \<Rightarrow> kv_staged option"
  en_load_payload :: "'s \<Rightarrow> u8 list \<Rightarrow> u64 \<Rightarrow> 's \<times> u8 list option"
  en_restore_vision :: "'s \<Rightarrow> kv_image list \<Rightarrow> 's \<times> bool"
  en_invalidate :: "'s \<Rightarrow> 's"

text \<open>Trailer hooks: the extension flag, the size estimate, the writer, and whether there is a loader.\<close>

record kv_hooks =
  hk_ext_flag :: u8
  hk_serialized_size :: "(u8 list \<Rightarrow> u64 option) option"
  hk_write :: "(u8 list \<Rightarrow> u8 list option) option"
  hk_load :: bool

definition kv_trailer_serialized_size :: "kv_hooks option \<Rightarrow> u8 list \<Rightarrow> u64 option" where
  "kv_trailer_serialized_size hooks text =
     (case hooks of
        None \<Rightarrow> Some 0
      | Some hk \<Rightarrow> (case hk_serialized_size hk of None \<Rightarrow> Some 0 | Some f \<Rightarrow> f text))"

definition kv_canary_gate :: "kv_globals \<Rightarrow> bool" where
  "kv_canary_gate g = kv_canary_ready g"

text \<open>The identity is bound by the first store or load.\<close>

definition kv_bind_identity :: "'s kv_engine \<Rightarrow> kv_globals \<Rightarrow> kv_globals" where
  "kv_bind_identity en g = (if g_identity g = 0 then g\<lparr>g_identity := en_identity en\<rparr> else g)"

section \<open>Keys\<close>

definition kv_render_tokens_text :: "'s kv_engine \<Rightarrow> int list \<Rightarrow> u8 list" where
  "kv_render_tokens_text en tokens = fold (\<lambda>t b. b @ en_token_text en t) tokens []"

text \<open>
  With images: a marker of \<open>text_len\<close> record separators (\<open>\036\<close>) stands for the rows of each
  image and its offset is recorded. \<open>None\<close> is \<open>NULL\<close>; the fuel is the number of tokens.
\<close>

function kv_render_images_loop ::
  "'s kv_engine \<Rightarrow> int list \<Rightarrow> nat \<Rightarrow> nat \<Rightarrow> kv_images \<Rightarrow> u8 list \<Rightarrow> nat \<times> kv_images \<times> u8 list" where
  "kv_render_images_loop en tokens i nxt images b =
     (if i < length tokens
      then if nxt < unat (ims_len images) \<and> of_nat i = im_token_start (ims_v images ! nxt)
           then let im = ims_v images ! nxt
             in if im_token_count im = 0 \<or> 0xffffffff < length b \<or>
                   length tokens < unat (im_token_start im) + unat (im_token_count im)
                then (Suc nxt, images, b)
                else kv_render_images_loop en tokens (i + unat (im_token_count im)) (Suc nxt)
                       (images\<lparr>ims_v := (ims_v images)[nxt := im\<lparr>im_text_offset := of_nat (length b)\<rparr>]\<rparr>)
                       (b @ replicate (unat (im_text_len im)) 0x1e)
           else kv_render_images_loop en tokens (Suc i) nxt images (b @ en_token_text en (tokens ! i))
      else (nxt, images, b))"
  by pat_completeness auto
termination
  by (relation "measure (\<lambda>(_, tokens, i, _). length tokens - i)") (auto simp: unat_eq_zero, metis diff_less_mono2 less_add_same_cancel1 unat_gt_0)

declare kv_render_images_loop.simps [simp del]

definition kv_render_tokens_text_images ::
  "'s kv_engine \<Rightarrow> int list \<Rightarrow> kv_images \<Rightarrow> (kv_images \<times> u8 list) option" where
  "kv_render_tokens_text_images en tokens images =
     (let (nxt, images, b) = kv_render_images_loop en tokens 0 0 images []
      in if nxt \<noteq> unat (ims_len images) \<or> \<not> kv_images_well_formed images then None
         else Some (images, b))"

definition kv_override_images_ok :: "u8 list \<Rightarrow> kv_images \<Rightarrow> nat \<Rightarrow> bool" where
  "kv_override_images_ok text images token_len =
     (kv_images_well_formed images \<and>
      list_all (\<lambda>im.
          unat (im_text_offset im) + unat (im_text_len im) \<le> length text \<and>
          unat (im_token_start im) + unat (im_token_count im) \<le> token_len \<and>
          list_all (\<lambda>c. c = 0x1e) (mslice (unat (im_text_offset im)) (unat (im_text_len im)) text))
        (take (unat (ims_len images)) (ims_v images)))"

definition kv_byte_prefix_match :: "u8 list \<Rightarrow> u8 list \<Rightarrow> bool" where
  "kv_byte_prefix_match text pfx =
     (length pfx \<le> length text \<and> (length pfx = 0 \<or> take (length pfx) text = pfx))"

definition kv_tokens_copy_prefix :: "int list \<Rightarrow> int \<Rightarrow> int list" where
  "kv_tokens_copy_prefix src n = take (nat (min n (int (length src)))) src"

definition kv_build_prompt :: "'s kv_engine \<Rightarrow> int list \<Rightarrow> u8 list \<Rightarrow> int list" where
  "kv_build_prompt en exact_prefix suffix_text =
     exact_prefix @ en_tokenize_rendered_chat en suffix_text"

section \<open>Lookup\<close>

definition kv_entry_images :: "kv_globals \<Rightarrow> kv_fs \<Rightarrow> kv_entry \<Rightarrow> kv_images option" where
  "kv_entry_images g fs e =
     (if \<not> ke_images e then Some kv_no_images
      else case fs (ke_path e) of
        None \<Rightarrow> None
      | Some content \<Rightarrow>
          (case kv_parse_header g content kv_empty_entry of
             None \<Rightarrow> None
           | Some (hdr, text_bytes, fp) \<Rightarrow>
               if \<not> ke_images hdr then None
               else case kv_read_images (drop (unat text_bytes) fp) (ke_payload_bytes hdr) of
                 None \<Rightarrow> None
               | Some (_, ims, _) \<Rightarrow> Some ims))"

text \<open>One entry of the scan: the best index afterwards (-1 for none).\<close>

definition kv_find_one ::
  "kv_globals \<Rightarrow> kv_fs \<Rightarrow> kv_store \<Rightarrow> u8 list \<Rightarrow> kv_images option \<Rightarrow> int \<Rightarrow> int \<Rightarrow> int \<Rightarrow> nat \<Rightarrow> int \<Rightarrow> int" where
  "kv_find_one g fs kc prompt images model_id quant_bits ctx_size i best =
     (let e = ks_entry kc ! i
      in if ke_refusal e \<noteq> None then best
         else if length prompt < unat (ke_text_bytes e) then best
         else if sint (ke_tokens e) < ko_min_tokens (ks_opt kc) then best
         else if ke_model_id e \<noteq> of_int model_id then best
         else if of_int ctx_size < ke_ctx_size e then best
         else if ks_reject_different_quant kc \<and> ke_quant_bits e \<noteq> of_int quant_bits then best
         else if 0 \<le> best \<and>
                 (let b = ks_entry kc ! nat best
                  in ke_text_bytes e < ke_text_bytes b \<or>
                     (ke_text_bytes e = ke_text_bytes b \<and> ke_tokens e \<le> ke_tokens b)) then best
         else if kv_entry_sha (take (unat (ke_text_bytes e)) prompt) images \<noteq> ke_sha e then best
         else case kv_entry_images g fs e of
             None \<Rightarrow> best
           | Some stored \<Rightarrow>
               if kv_images_mismatch (Some stored) images (ke_text_bytes e) = None then int i else best)"

definition kv_find_image_prefix ::
  "kv_globals \<Rightarrow> kv_fs \<Rightarrow> string list option \<Rightarrow> kv_store \<Rightarrow> u8 list option \<Rightarrow> kv_images option \<Rightarrow>
    int \<Rightarrow> int \<Rightarrow> int \<Rightarrow> kv_store \<times> int" where
  "kv_find_image_prefix g fs names kc prompt_text images model_id quant_bits ctx_size =
     (case prompt_text of
        None \<Rightarrow> (kc, -1)
      | Some prompt \<Rightarrow>
          let kc = kv_refresh g fs names kc
          in (kc, fold (kv_find_one g fs kc prompt images model_id quant_bits ctx_size)
                    [0..<length (ks_entry kc)] (-1)))"

definition kv_find_text_prefix ::
  "kv_globals \<Rightarrow> kv_fs \<Rightarrow> string list option \<Rightarrow> kv_store \<Rightarrow> u8 list option \<Rightarrow>
    int \<Rightarrow> int \<Rightarrow> int \<Rightarrow> kv_store \<times> int" where
  "kv_find_text_prefix g fs names kc prompt_text model_id quant_bits ctx_size =
     kv_find_image_prefix g fs names kc prompt_text None model_id quant_bits ctx_size"

section \<open>Restoring\<close>

datatype kv_load_failure =
    Invalid_header | Refused_header kv_refusal | Other_model | Text_longer | Truncated_text
  | Text_hash_mismatch | Text_prefix_mismatch | Payload_unverified kv_verify_error
  | Malformed_images | Images_differ kv_mismatch

text \<open>
  Everything that is checked before the session is touched: the header, the stored images,
  their size and the stream at the session payload, or why nothing is restored.
\<close>

definition kv_load_check ::
  "kv_globals \<Rightarrow> bool \<Rightarrow> bool \<Rightarrow> bool \<Rightarrow> u8 list \<Rightarrow> int \<Rightarrow> u8 list \<Rightarrow> string \<Rightarrow> kv_images option \<Rightarrow>
    kv_load_failure + (kv_entry \<times> u32 \<times> kv_images \<times> u64 \<times> u8 list)" where
  "kv_load_check g tell_ok alloc_ok seek_ok content model_id prompt sha images =
     (case kv_parse_header g content kv_empty_entry of
        None \<Rightarrow> Inl Invalid_header
      | Some (hdr, text_bytes, fp) \<Rightarrow>
          if ke_refusal hdr \<noteq> None then Inl (Refused_header (the (ke_refusal hdr)))
          else if ke_model_id hdr \<noteq> of_int model_id then Inl Other_model
          else if length prompt < unat text_bytes then Inl Text_longer
          else case fread_exact (unat text_bytes) fp of
            None \<Rightarrow> Inl Truncated_text
          | Some (cached_text, fp) \<Rightarrow>
              if kv_entry_sha cached_text images \<noteq> sha then Inl Text_hash_mismatch
              else if \<not> kv_byte_prefix_match prompt cached_text then Inl Text_prefix_mismatch
              else case kv_verify_payload tell_ok alloc_ok seek_ok fp hdr of
                Some why \<Rightarrow> Inl (Payload_unverified why)
              | None \<Rightarrow>
                  let r = (if ke_images hdr then kv_read_images fp (ke_payload_bytes hdr)
                           else Some (0, kv_no_images, fp))
                  in case r of
                       None \<Rightarrow> Inl Malformed_images
                     | Some (list_bytes, stored, fp) \<Rightarrow>
                         (case kv_images_mismatch (Some stored) images (ucast text_bytes) of
                            Some m \<Rightarrow> Inl (Images_differ m)
                          | None \<Rightarrow> Inr (hdr, text_bytes, stored, list_bytes, fp)))"

text \<open>
  The result: the store, the identity, the session, the files, the tokens restored (0 for
  none), the prompt to continue with and the bytes handed to the trailer loader.
\<close>

record 's kv_loaded =
  kl_store :: kv_store
  kl_globals :: kv_globals
  kl_session :: 's
  kl_fs :: kv_fs
  kl_loaded :: int
  kl_prompt :: "int list option"
  kl_trailer :: "u8 list option"

definition kv_nothing :: "kv_store \<Rightarrow> kv_globals \<Rightarrow> 's \<Rightarrow> kv_fs \<Rightarrow> 's kv_loaded" where
  "kv_nothing kc g s fs = \<lparr>kl_store = kc, kl_globals = g, kl_session = s, kl_fs = fs,
     kl_loaded = 0, kl_prompt = None, kl_trailer = None\<rparr>"

text \<open>The restore proper, after every check has passed.\<close>

definition kv_restore_session ::
  "'s kv_engine \<Rightarrow> u64 \<Rightarrow> (string \<Rightarrow> bool) \<Rightarrow> u8 list \<Rightarrow> kv_hooks option \<Rightarrow> kv_store \<Rightarrow> kv_globals \<Rightarrow> 's \<Rightarrow>
    kv_fs \<Rightarrow> string \<Rightarrow> kv_entry \<Rightarrow> u32 \<Rightarrow> kv_images \<Rightarrow> u64 \<Rightarrow> u8 list \<Rightarrow> 's kv_loaded" where
  "kv_restore_session en now may prompt hooks kc g s fs path hdr text_bytes stored list_bytes fp =
     (case en_load_payload en s fp (ke_payload_bytes hdr - list_bytes) of
        (s, None) \<Rightarrow> kv_nothing kc g (en_invalidate en s) fs
      | (s, Some fp) \<Rightarrow>
          (case en_tokens en s of
             None \<Rightarrow> kv_nothing kc g (en_invalidate en s) (fst (kv_unlink may fs path))
           | Some loaded_tokens \<Rightarrow>
               if int (length loaded_tokens) \<noteq> sint (ke_tokens hdr)
               then kv_nothing kc g (en_invalidate en s) (fst (kv_unlink may fs path))
               else case en_restore_vision en s (take (unat (ims_len stored)) (ims_v stored)) of
                 (s, False) \<Rightarrow> kv_nothing kc g (en_invalidate en s) fs
               | (s, True) \<Rightarrow>
                   let loaded = sint (ke_tokens hdr);
                       p = kv_build_prompt en loaded_tokens (drop (unat text_bytes) prompt);
                       trailer = (case hooks of
                           None \<Rightarrow> None
                         | Some hk \<Rightarrow> if hk_load hk \<and> ke_ext_flags hdr AND hk_ext_flag hk \<noteq> 0
                                     then Some fp else None);
                       (kc, fs) = (if 0 < loaded
                         then (kc\<lparr>ks_continued_last_store_tokens := loaded\<rparr>,
                               fs(path := fst (kv_touch_file g now (fs path) (ke_hits hdr + 1))))
                         else (kc, fs))
                   in \<lparr>kl_store = kc, kl_globals = g, kl_session = s, kl_fs = fs, kl_loaded = loaded,
                       kl_prompt = Some p, kl_trailer = trailer\<rparr>))"

definition kv_try_load_text ::
  "'s kv_engine \<Rightarrow> u64 \<Rightarrow> string list option \<Rightarrow> (string \<Rightarrow> bool) \<Rightarrow> bool \<Rightarrow> bool \<Rightarrow> bool \<Rightarrow>
    u8 list option \<Rightarrow> kv_hooks option \<Rightarrow> kv_images option \<Rightarrow>
    kv_store \<Rightarrow> kv_globals \<Rightarrow> 's \<Rightarrow> kv_fs \<Rightarrow> 's kv_loaded" where
  "kv_try_load_text en now names may tell_ok alloc_ok seek_ok prompt_text hooks images kc g s fs =
     (if \<not> ks_enabled kc \<or> prompt_text = None then kv_nothing kc g s fs
      else if \<not> kv_canary_gate g then kv_nothing kc g s fs
      else let g = kv_bind_identity en g;
               quant_bits = en_routed_quant_bits en
        in if \<not> kv_quant_bits_supported quant_bits then kv_nothing kc g s fs
           else let model_id = en_model_id en;
                    prompt = the prompt_text;
                    (kc, idx) = kv_find_image_prefix g fs names kc prompt_text images model_id
                                  quant_bits (en_ctx en s)
                in if idx < 0 then kv_nothing kc g s fs
                   else let e = ks_entry kc ! nat idx; path = ke_path e
                     in case fs path of
                          None \<Rightarrow> kv_nothing kc g s fs
                        | Some content \<Rightarrow>
                            (case kv_load_check g tell_ok alloc_ok seek_ok content model_id prompt
                                    (ke_sha e) images of
                               Inl (Payload_unverified _) \<Rightarrow> kv_nothing kc g s (fst (kv_unlink may fs path))
                             | Inl _ \<Rightarrow> kv_nothing kc g s fs
                             | Inr (hdr, text_bytes, stored, list_bytes, fp) \<Rightarrow>
                                 kv_restore_session en now may prompt hooks kc g s fs path
                                   hdr text_bytes stored list_bytes fp))"

section \<open>Storing\<close>

definition kv_file_text_matches ::
  "kv_globals \<Rightarrow> u8 list option \<Rightarrow> string \<Rightarrow> u8 list \<Rightarrow> kv_images option \<Rightarrow> bool" where
  "kv_file_text_matches g content sha text images =
     (if 0xffffffff < length text then False
      else case content of
        None \<Rightarrow> False
      | Some c \<Rightarrow>
          (case kv_read_header g c of
             None \<Rightarrow> False
           | Some (hdr, text_bytes, fp) \<Rightarrow>
               if text_bytes \<noteq> of_nat (length text) then False
               else case fread_exact (unat text_bytes) fp of
                 None \<Rightarrow> False
               | Some (stored, _) \<Rightarrow>
                   kv_entry_sha stored images = sha \<and> (length text = 0 \<or> stored = text)))"

text \<open>Is there already an entry that serves as well? An incompatible one is removed.\<close>

definition kv_existing_compatible ::
  "kv_globals \<Rightarrow> (string \<Rightarrow> bool) \<Rightarrow> kv_store \<Rightarrow> kv_fs \<Rightarrow> string \<Rightarrow> string \<Rightarrow> u8 list \<Rightarrow>
    kv_images option \<Rightarrow> int \<Rightarrow> int \<Rightarrow> int \<Rightarrow> kv_fs \<times> bool" where
  "kv_existing_compatible g may kc fs path sha text images model_id quant_bits ctx_size =
     (case fs path of
        None \<Rightarrow> (fs, False)
      | Some content \<Rightarrow>
          (case kv_read_entry_file g path (Some content) sha of
             None \<Rightarrow> (fs, False)
           | Some e \<Rightarrow>
               let want = (case images of None \<Rightarrow> 0 | Some ims \<Rightarrow> ims_len ims);
                   compatible =
                     (case kv_entry_images g fs e of
                        None \<Rightarrow> False
                      | Some stored \<Rightarrow>
                          ims_len stored = want \<and>
                          kv_images_mismatch (Some stored) images (of_nat (length text)) = None \<and>
                          ke_model_id e = of_int model_id \<and>
                          (\<not> ks_reject_different_quant kc \<or> ke_quant_bits e = of_int quant_bits) \<and>
                          ke_ctx_size e \<le> of_int ctx_size \<and>
                          kv_file_text_matches g (Some content) sha text images)
               in if \<not> compatible then (fst (kv_unlink may fs path), False) else (fs, True)))"

text \<open>
  The trailer of an existing entry is replaced: the file is cut (or zero-filled) to the end
  of its payload, the hook's bytes follow, and a non-empty trailer marks the header.
\<close>

definition kv_rewrite_trailer ::
  "kv_globals \<Rightarrow> u64 \<Rightarrow> kv_hooks option \<Rightarrow> u8 list \<Rightarrow> u8 list option \<Rightarrow> u8 list option" where
  "kv_rewrite_trailer g now hooks text file =
     (case hooks of
        None \<Rightarrow> file
      | Some hk \<Rightarrow>
          if hk_write hk = None \<or> hk_serialized_size hk = None \<or>
             kv_trailer_serialized_size hooks text = None \<or> kv_trailer_serialized_size hooks text = Some 0
          then file
          else case file of
            None \<Rightarrow> None
          | Some c \<Rightarrow>
              (case kv_read_header g c of
                 None \<Rightarrow> Some c
               | Some (hdr, text_bytes, _) \<Rightarrow>
                   let end_at = of_nat DS4_KVSTORE_FIXED_HEADER + 4 + ucast text_bytes + ke_payload_bytes hdr
                   in if (0x7fffffffffffffff :: u64) < end_at then Some c
                      else let n = unat end_at;
                               c = take n c @ replicate (n - length c) 0
                        in case kv_trailer_write (hk_write hk) text of
                             None \<Rightarrow> Some c
                           | Some (t, written) \<Rightarrow>
                               let c = c @ t
                               in if 0 < written
                                  then Some (blit (c[6 := ke_ext_flags hdr OR hk_ext_flag hk]) 32 (kv_le_put64 now))
                                  else Some c))"

text \<open>The key text of a store and its images; \<open>None\<close> when the image spans do not fit it.\<close>

definition kv_store_key ::
  "'s kv_engine \<Rightarrow> int list \<Rightarrow> u8 list option \<Rightarrow> kv_images option \<Rightarrow> (kv_images \<times> u8 list) option" where
  "kv_store_key en store_tokens text_override images =
     (let im = (case images of None \<Rightarrow> kv_no_images | Some i \<Rightarrow> i)
      in case text_override of
           Some (c # cs) \<Rightarrow>
             if ims_len im \<noteq> 0 \<and> \<not> kv_override_images_ok (c # cs) im (length store_tokens) then None
             else Some (im, c # cs)
         | _ \<Rightarrow>
             if ims_len im \<noteq> 0 then kv_render_tokens_text_images en store_tokens im
             else Some (im, kv_render_tokens_text en store_tokens))"

text \<open>
  From the staged payload on: the size test, thinning, eviction, the temporary file, the
  final size test, the rename. \<open>io_ok\<close> stands for \<open>fopen\<close>, \<open>fflush\<close>, \<open>fsync\<close>, \<open>fclose\<close> and
  \<open>rename\<close> all succeeding; on a failure the temporary file is removed, so the entry's file
  stays as it was. \<open>names1\<close> and \<open>names2\<close> are the two directory scans.
\<close>

definition kv_store_staged ::
  "'s kv_engine \<Rightarrow> bool \<Rightarrow> u64 \<Rightarrow> (string \<Rightarrow> bool) \<Rightarrow> string list option \<Rightarrow> string list option \<Rightarrow> bool \<Rightarrow> bool \<Rightarrow>
    nat \<Rightarrow> string option \<Rightarrow> u8 \<Rightarrow> kv_hooks option \<Rightarrow> u64 \<Rightarrow> kv_images \<Rightarrow> u8 list \<Rightarrow> int \<Rightarrow> kv_staged \<Rightarrow> string \<Rightarrow>
    kv_store \<Rightarrow> kv_globals \<Rightarrow> kv_fs \<Rightarrow> kv_store \<times> kv_fs \<times> bool" where
  "kv_store_staged en ladder now may names1 names2 alloc_ok io_ok token_len reason text_ext hooks trailer_est
      im text ctx staged path kc g fs =
     (let model_id = en_model_id en;
          quant_bits = en_routed_quant_bits en;
          payload_bytes = staged_bytes staged + kv_images_bytes (Some im);
          (fits, est, _) = kv_file_size_fits (Some kc) (of_nat (length text)) payload_bytes trailer_est
      in if \<not> fits then (kc, fs, False)
         else
           let incoming = Some \<lparr>ec_text = Some text, ec_model_id = of_int model_id,
                 ec_quant_bits = of_int quant_bits, ec_ctx_size = of_int ctx,
                 ec_reject_different_quant = ks_reject_different_quant kc, ec_images = Some im\<rparr>;
               (kc, fs) = kv_ladder_thin g alloc_ok ladder now may names1 incoming (of_nat token_len) kc fs;
               (kc, fs) = kv_evict g ladder now may names2 (Some (int token_len)) (the est) incoming kc fs;
               ext = (if 0 < trailer_est \<and> hooks \<noteq> None then hk_ext_flag (the hooks) else 0);
               ext = ext OR text_ext;
               h = kv_fill_header g (of_int model_id) (of_int quant_bits) (kv_reason_code reason) ext
                     (of_nat token_len) 0 (of_int ctx) now now (staged_bytes staged)
           in case kv_write_entry_images alloc_ok h text (Some im) (Some staged)
                     (case hooks of None \<Rightarrow> None | Some hk \<Rightarrow> hk_write hk) of
                None \<Rightarrow> (kc, fs, False)
              | Some (content, trailer_bytes, hash) \<Rightarrow>
                  if \<not> io_ok then (kc, fs, False)
                  else if \<not> fst (kv_file_size_fits (Some kc) (of_nat (length text)) payload_bytes trailer_bytes)
                  then (kc, fs, False)
                  else (kc, fs(path := Some content), True))"

definition kv_store_live_prefix_text ::
  "'s kv_engine \<Rightarrow> bool \<Rightarrow> u64 \<Rightarrow> (string \<Rightarrow> bool) \<Rightarrow> string list option \<Rightarrow> string list option \<Rightarrow> bool \<Rightarrow> bool \<Rightarrow>
    int list option \<Rightarrow> int \<Rightarrow> string option \<Rightarrow> u8 list option \<Rightarrow> u8 \<Rightarrow> kv_images option \<Rightarrow> kv_hooks option \<Rightarrow>
    kv_store \<Rightarrow> kv_globals \<Rightarrow> 's \<Rightarrow> kv_fs \<Rightarrow> kv_store \<times> kv_globals \<times> kv_fs \<times> bool" where
  "kv_store_live_prefix_text en ladder now may names1 names2 alloc_ok io_ok tokens store_len reason
      text_override text_ext images hooks kc g s fs =
     (if \<not> ks_enabled kc then (kc, g, fs, False)
      else if tokens = None \<or> store_len < ko_min_tokens (ks_opt kc) then (kc, g, fs, False)
      else if \<not> kv_canary_gate g then (kc, g, fs, False)
      else
        let store_tokens = kv_tokens_copy_prefix (the tokens) store_len;
            g = kv_bind_identity en g
        in if \<not> kv_quant_bits_supported (en_routed_quant_bits en) then (kc, g, fs, False)
           else if en_tokens en s \<noteq> Some store_tokens then (kc, g, fs, False)
           else case kv_store_key en store_tokens text_override images of
             None \<Rightarrow> (kc, g, fs, False)
           | Some (im, text) \<Rightarrow>
               if 0xffffffff < length text then (kc, g, fs, False)
               else case kv_trailer_serialized_size hooks text of
                 None \<Rightarrow> (kc, g, fs, False)
               | Some trailer_est \<Rightarrow>
                   let sha = kv_entry_sha text (Some im);
                       path = kv_path_for_sha (ks_dir kc) sha;
                       ctx = en_ctx en s;
                       (fs, compatible) = kv_existing_compatible g may kc fs path sha text (Some im)
                                            (en_model_id en) (en_routed_quant_bits en) ctx
                   in if compatible
                      then (kc, g, fs(path := kv_rewrite_trailer g now hooks text (fs path)), True)
                      else case en_stage_payload en s of
                        None \<Rightarrow> (kc, g, fs, False)
                      | Some staged \<Rightarrow>
                          (case kv_store_staged en ladder now may names1 names2 alloc_ok io_ok
                                  (length store_tokens) reason
                                  (case text_override of Some (c # cs) \<Rightarrow> text_ext | _ \<Rightarrow> 0)
                                  hooks trailer_est im text ctx staged path kc g fs of
                             (kc, fs, ok) \<Rightarrow> (kc, g, fs, ok)))"

definition kv_store_live_prefix ::
  "'s kv_engine \<Rightarrow> bool \<Rightarrow> u64 \<Rightarrow> (string \<Rightarrow> bool) \<Rightarrow> string list option \<Rightarrow> string list option \<Rightarrow> bool \<Rightarrow> bool \<Rightarrow>
    int list option \<Rightarrow> int \<Rightarrow> string option \<Rightarrow> kv_hooks option \<Rightarrow>
    kv_store \<Rightarrow> kv_globals \<Rightarrow> 's \<Rightarrow> kv_fs \<Rightarrow> kv_store \<times> kv_globals \<times> kv_fs \<times> bool" where
  "kv_store_live_prefix en ladder now may names1 names2 alloc_ok io_ok tokens store_len reason hooks kc g s fs =
     kv_store_live_prefix_text en ladder now may names1 names2 alloc_ok io_ok tokens store_len reason
       None 0 None hooks kc g s fs"

definition kv_maybe_store_continued ::
  "'s kv_engine \<Rightarrow> bool \<Rightarrow> u64 \<Rightarrow> (string \<Rightarrow> bool) \<Rightarrow> string list option \<Rightarrow> string list option \<Rightarrow> bool \<Rightarrow> bool \<Rightarrow>
    kv_hooks option \<Rightarrow> kv_store \<Rightarrow> kv_globals \<Rightarrow> 's \<Rightarrow> kv_fs \<Rightarrow> kv_store \<times> kv_globals \<times> kv_fs \<times> bool" where
  "kv_maybe_store_continued en ladder now may names1 names2 alloc_ok io_ok hooks kc g s fs =
     (case en_tokens en s of
        None \<Rightarrow> (kc, g, fs, False)
      | Some tokens \<Rightarrow>
          let target = kv_continued_store_target kc (int (length tokens))
          in if target = 0 then (kc, g, fs, False)
             else case kv_store_live_prefix en ladder now may names1 names2 alloc_ok io_ok (Some tokens) target
                         (Some ''continued'') hooks kc g s fs of
               (kc, g, fs, ok) \<Rightarrow> if ok then (kv_note_store kc target, g, fs, True) else (kc, g, fs, False))"

section \<open>The lookup returns the longest usable prefix\<close>

text \<open>What makes an indexed entry usable for a prompt.\<close>

definition kv_serves ::
  "kv_globals \<Rightarrow> kv_fs \<Rightarrow> kv_store \<Rightarrow> u8 list \<Rightarrow> kv_images option \<Rightarrow> int \<Rightarrow> int \<Rightarrow> int \<Rightarrow> kv_entry \<Rightarrow> bool" where
  "kv_serves g fs kc prompt images model_id quant_bits ctx_size e \<longleftrightarrow>
     ke_refusal e = None \<and> unat (ke_text_bytes e) \<le> length prompt \<and>
     ko_min_tokens (ks_opt kc) \<le> sint (ke_tokens e) \<and> ke_model_id e = of_int model_id \<and>
     ke_ctx_size e \<le> of_int ctx_size \<and>
     (ks_reject_different_quant kc \<longrightarrow> ke_quant_bits e = of_int quant_bits) \<and>
     kv_entry_sha (take (unat (ke_text_bytes e)) prompt) images = ke_sha e \<and>
     (\<exists>stored. kv_entry_images g fs e = Some stored \<and>
       kv_images_mismatch (Some stored) images (ke_text_bytes e) = None)"

definition kv_no_better :: "kv_entry \<Rightarrow> kv_entry \<Rightarrow> bool" where
  "kv_no_better e b \<longleftrightarrow> ke_text_bytes e < ke_text_bytes b \<or>
     (ke_text_bytes e = ke_text_bytes b \<and> ke_tokens e \<le> ke_tokens b)"

lemma kv_no_better_trans: "kv_no_better a b \<Longrightarrow> kv_no_better b c \<Longrightarrow> kv_no_better a c"
  by (auto simp: kv_no_better_def)

lemma kv_no_better_linear: "kv_no_better a b \<or> kv_no_better b a"
  by (auto simp: kv_no_better_def)

lemma kv_find_one_eq:
  "kv_find_one g fs kc prompt images m q c i best =
    (if kv_serves g fs kc prompt images m q c (ks_entry kc ! i) \<and>
        \<not> (0 \<le> best \<and> kv_no_better (ks_entry kc ! i) (ks_entry kc ! nat best))
     then int i else best)"
  unfolding kv_find_one_def Let_def kv_serves_def kv_no_better_def
  by (auto split: option.splits)

lemma kv_find_fold:
  assumes "n \<le> length (ks_entry kc)"
  shows "let best = fold (kv_find_one g fs kc prompt images m q c) [0..<n] (-1); es = ks_entry kc;
      serves = kv_serves g fs kc prompt images m q c
    in (best = -1 \<and> (\<forall>i < n. \<not> serves (es ! i))) \<or>
       (0 \<le> best \<and> nat best < n \<and> serves (es ! nat best) \<and>
        (\<forall>i < n. serves (es ! i) \<longrightarrow> kv_no_better (es ! i) (es ! nat best)))"
  using assms
proof (induction n)
  case (Suc n)
  define best where "best = fold (kv_find_one g fs kc prompt images m q c) [0..<n] (-1)"
  let ?s = "kv_serves g fs kc prompt images m q c" and ?es = "ks_entry kc"
  have IH: "(best = -1 \<and> (\<forall>i < n. \<not> ?s (?es ! i))) \<or>
       (0 \<le> best \<and> nat best < n \<and> ?s (?es ! nat best) \<and>
        (\<forall>i < n. ?s (?es ! i) \<longrightarrow> kv_no_better (?es ! i) (?es ! nat best)))"
    using Suc by (simp add: Let_def best_def)
  have step: "fold (kv_find_one g fs kc prompt images m q c) [0..<Suc n] (-1) =
      kv_find_one g fs kc prompt images m q c n best"
    by (simp add: best_def)
  have refl: "kv_no_better x x" for x using kv_no_better_linear by blast
  show ?case
  proof (cases "?s (?es ! n) \<and> \<not> (0 \<le> best \<and> kv_no_better (?es ! n) (?es ! nat best))")
    case True
    then have new: "kv_find_one g fs kc prompt images m q c n best = int n" by (simp add: kv_find_one_eq)
    have "kv_no_better (?es ! i) (?es ! n)" if "i < Suc n" "?s (?es ! i)" for i
    proof (cases "i = n")
      case False
      with that IH have "0 \<le> best" "kv_no_better (?es ! i) (?es ! nat best)" by auto
      moreover from this True have "kv_no_better (?es ! nat best) (?es ! n)"
        using kv_no_better_linear by blast
      ultimately show ?thesis using kv_no_better_trans by blast
    qed (simp add: refl)
    with True show ?thesis unfolding step new Let_def by simp
  next
    case False
    then have new: "kv_find_one g fs kc prompt images m q c n best = best"
      by (simp only: kv_find_one_eq if_False)
    have "\<forall>i < Suc n. P i" if "\<forall>i < n. P i" "P n" for P using that by (simp add: less_Suc_eq)
    with False IH show ?thesis unfolding step new Let_def by (elim disjE) (auto simp: less_Suc_eq)
  qed
qed (simp add: Let_def)

text \<open>C4. The lookup returns -1 exactly when no indexed entry is usable for the prompt; otherwise it
  returns a usable entry, and no usable entry has a longer key text, or as long a text and more
  tokens.\<close>

theorem kv_find_image_prefix_best:
  assumes "kv_find_image_prefix g fs names kc (Some prompt) images m q c = (kc', idx)"
  shows "(idx = -1 \<and> (\<forall>e \<in> set (ks_entry kc'). \<not> kv_serves g fs kc' prompt images m q c e)) \<or>
    (0 \<le> idx \<and> nat idx < length (ks_entry kc') \<and>
     kv_serves g fs kc' prompt images m q c (ks_entry kc' ! nat idx) \<and>
     (\<forall>e \<in> set (ks_entry kc'). kv_serves g fs kc' prompt images m q c e \<longrightarrow>
        kv_no_better e (ks_entry kc' ! nat idx)))"
proof -
  have kc': "kc' = kv_refresh g fs names kc"
    and idx: "idx = fold (kv_find_one g fs kc' prompt images m q c) [0..<length (ks_entry kc')] (-1)"
    using assms by (auto simp: kv_find_image_prefix_def Let_def)
  from kv_find_fold [of "length (ks_entry kc')" kc' g fs prompt images m q c]
  show ?thesis
    unfolding Let_def idx [symmetric] by (auto simp: in_set_conv_nth)
qed

section \<open>Nothing is restored from an entry that was not checked\<close>

lemma kv_load_check_Inr:
  assumes "kv_load_check g tell_ok alloc_ok seek_ok content model_id prompt sha images =
    Inr (hdr, tb, stored, list_bytes, fp)"
  shows "\<exists>text rest. kv_parse_header g content kv_empty_entry = Some (hdr, tb, text @ rest) \<and>
    length text = unat tb \<and> ke_refusal hdr = None \<and> take (length text) prompt = text \<and>
    kv_entry_sha text images = sha \<and> kv_verify_payload True True True rest hdr = None \<and>
    kv_images_mismatch (Some stored) images (ucast tb) = None"
proof -
  obtain fp0 where ph: "kv_parse_header g content kv_empty_entry = Some (hdr, tb, fp0)"
    and nr: "ke_refusal hdr = None"
    using assms by (auto simp: kv_load_check_def Let_def split: option.splits if_splits prod.splits)
  obtain key rest where rd: "fread_exact (unat tb) fp0 = Some (key, rest)"
    using assms by (auto simp: kv_load_check_def Let_def ph split: option.splits if_splits)
  have v: "kv_verify_payload tell_ok alloc_ok seek_ok rest hdr = None"
    using assms by (auto simp: kv_load_check_def Let_def ph rd split: option.splits if_splits)
  then have "tell_ok" "alloc_ok" "seek_ok"
    by (auto simp: kv_verify_payload_def Let_def split: if_splits prod.splits)
  then have "kv_verify_payload True True True rest hdr = None" using v by simp
  moreover have "kv_byte_prefix_match prompt key" "kv_entry_sha key images = sha"
    "kv_images_mismatch (Some stored) images (ucast tb) = None"
    using assms by (auto simp: kv_load_check_def Let_def ph rd v split: option.splits if_splits)
  ultimately show ?thesis
    using ph nr rd
    by (intro exI [of _ key] exI [of _ rest]) (auto simp: fread_exact_Some kv_byte_prefix_match_def)
qed

lemma kv_nothing_fields [simp]:
  "kl_session (kv_nothing kc g s fs) = s" "kl_loaded (kv_nothing kc g s fs) = 0"
  "kl_prompt (kv_nothing kc g s fs) = None" "kl_trailer (kv_nothing kc g s fs) = None"
  "kl_store (kv_nothing kc g s fs) = kc" "kl_globals (kv_nothing kc g s fs) = g"
  "kl_fs (kv_nothing kc g s fs) = fs"
  by (simp_all add: kv_nothing_def)

lemma kv_try_load_text_checked:
  assumes "kl_session (kv_try_load_text en now names may tell_ok alloc_ok seek_ok (Some prompt) hooks images kc g s fs) \<noteq> s"
    and "kv_find_image_prefix (kv_bind_identity en g) fs names kc (Some prompt) images (en_model_id en)
      (en_routed_quant_bits en) (en_ctx en s) = (kc', idx)"
  shows "kv_canary_ready g \<and> 0 \<le> idx \<and> (\<exists>content x. fs (ke_path (ks_entry kc' ! nat idx)) = Some content \<and>
    kv_load_check (kv_bind_identity en g) tell_ok alloc_ok seek_ok content (en_model_id en) prompt
      (ke_sha (ks_entry kc' ! nat idx)) images = Inr x)"
proof -
  let ?path = "ke_path (ks_entry kc' ! nat idx)"
  have 1: "ks_enabled kc" "kv_canary_gate g" "kv_quant_bits_supported (en_routed_quant_bits en)" "0 \<le> idx"
    using assms by (auto simp: kv_try_load_text_def Let_def split: if_splits)
  obtain content where c: "fs ?path = Some content"
    using assms 1 by (auto simp: kv_try_load_text_def Let_def split: option.splits)
  have "\<exists>x. kv_load_check (kv_bind_identity en g) tell_ok alloc_ok seek_ok content (en_model_id en) prompt
      (ke_sha (ks_entry kc' ! nat idx)) images = Inr x"
    using assms 1 c by (auto simp: kv_try_load_text_def Let_def split: sum.splits kv_load_failure.splits)
  with 1 c show ?thesis by (auto simp: kv_canary_gate_def)
qed


section \<open>A stored checkpoint is restored\<close>

lemma kv_store_staged_True:
  assumes "kv_store_staged en ladder now may names1 names2 alloc_ok io_ok n reason text_ext hooks est
      im key ctx staged path kc g fs = (kc', fs', True)"
  shows "\<exists>flags content tb hash fs2.
    fst (kv_file_size_fits (Some kc) (of_nat (length key)) (staged_bytes staged + kv_images_bytes (Some im)) est) \<and>
    kv_write_entry_images alloc_ok
      (kv_fill_header g (of_int (en_model_id en)) (of_int (en_routed_quant_bits en)) (kv_reason_code reason) flags
        (of_nat n) 0 (of_int ctx) now now (staged_bytes staged))
      key (Some im) (Some staged) (case hooks of None \<Rightarrow> None | Some hk \<Rightarrow> hk_write hk) =
      Some (content, tb, hash) \<and> fs' = fs2(path := Some content)"
  using assms unfolding kv_store_staged_def Let_def
  by (auto split: prod.splits option.splits if_splits)

lemma kv_store_live_prefix_text_fresh:
  assumes "kv_store_live_prefix_text en ladder now may names1 names2 alloc_ok io_ok tokens store_len reason
      ovr ext images hooks kc g s fs = (kc', g', fs', True)"
  shows "\<exists>toks im key est.
    en_tokens en s = Some toks \<and> ko_min_tokens (ks_opt kc) \<le> store_len \<and> toks = kv_tokens_copy_prefix (the tokens) store_len \<and>
    kv_canary_ready g \<and> g' = kv_bind_identity en g \<and> length key \<le> 0xffffffff \<and>
    kv_quant_bits_supported (en_routed_quant_bits en) \<and> kv_store_key en toks ovr images = Some (im, key) \<and>
    (fs (kv_path_for_sha (ks_dir kc) (kv_entry_sha key (Some im))) = None \<longrightarrow>
      (\<exists>staged. en_stage_payload en s = Some staged \<and>
        kv_store_staged en ladder now may names1 names2 alloc_ok io_ok (length toks) reason
          (case ovr of Some (c # cs) \<Rightarrow> ext | _ \<Rightarrow> 0) hooks est im key (en_ctx en s) staged
          (kv_path_for_sha (ks_dir kc) (kv_entry_sha key (Some im))) kc g' fs = (kc', fs', True)))"
proof -
  note defs = assms [unfolded kv_store_live_prefix_text_def]
  have 1: "ks_enabled kc" "tokens \<noteq> None" "ko_min_tokens (ks_opt kc) \<le> store_len" "kv_canary_gate g"
    "kv_quant_bits_supported (en_routed_quant_bits en)"
    "en_tokens en s = Some (kv_tokens_copy_prefix (the tokens) store_len)"
    using defs by (auto simp: Let_def split: if_splits)
  let ?toks = "kv_tokens_copy_prefix (the tokens) store_len"
  obtain im key where key: "kv_store_key en ?toks ovr images = Some (im, key)" "length key \<le> 0xffffffff"
    using defs 1 by (auto simp: Let_def not_less split: option.splits if_splits)
  obtain est where est: "kv_trailer_serialized_size hooks key = Some est"
    using defs 1 key by (auto simp: Let_def split: option.splits)
  have g: "g' = kv_bind_identity en g"
    using defs 1 key est by (auto simp: Let_def split: option.splits if_splits prod.splits)
  show ?thesis
    using defs 1 key est g
    by (intro exI [of _ ?toks] exI [of _ im] exI [of _ key] exI [of _ est])
      (auto simp: Let_def kv_canary_gate_def kv_existing_compatible_def split: option.splits prod.splits)
qed

text \<open>The file the store leaves for a text-only checkpoint without a trailer.\<close>

definition kv_text_file :: "kv_entry \<Rightarrow> u8 list \<Rightarrow> u8 list \<Rightarrow> u8 list" where
  "kv_text_file e key payload =
     kv_header_bytes e KV_CACHE_PAYLOAD_ABI @ le_put32 (of_nat (length key)) @ key @ payload"

definition kv_text_ok :: "kv_globals \<Rightarrow> kv_entry \<Rightarrow> u8 list \<Rightarrow> u8 list \<Rightarrow> bool" where
  "kv_text_ok g e key payload \<longleftrightarrow>
     ke_tokens e \<noteq> 0 \<and> kv_quant_bits_supported (uint (ke_quant_bits e)) \<and>
     84 + length key + length payload < 2 ^ 64 \<and> length key < 2 ^ 32 \<and> unat (ke_payload_bytes e) = length payload \<and>
     ke_payload_hash e = kv_payload_hash payload \<and> ke_payload_hash e \<noteq> 0 \<and>
     ke_identity e = g_identity g \<and> ke_canary e = g_canary g"

lemma kv_text_file_parse:
  assumes "kv_text_ok g e key payload"
  shows "kv_parse_header g (kv_text_file e key payload) kv_empty_entry =
    Some (kv_parsed g e KV_CACHE_PAYLOAD_ABI (of_nat (length key)), of_nat (length key), key @ payload)"
  using assms by (simp add: kv_text_ok_def kv_text_file_def kv_parse_header_bytes)

lemma kv_parsed_fields [simp]:
  "ke_tokens (kv_parsed g e abi tb) = ke_tokens e" "ke_model_id (kv_parsed g e abi tb) = ke_model_id e"
  "ke_quant_bits (kv_parsed g e abi tb) = ke_quant_bits e" "ke_ctx_size (kv_parsed g e abi tb) = ke_ctx_size e"
  "ke_payload_bytes (kv_parsed g e abi tb) = ke_payload_bytes e"
  "ke_payload_hash (kv_parsed g e abi tb) = ke_payload_hash e"
  "ke_text_bytes (kv_parsed g e abi tb) = ucast tb" "ke_version (kv_parsed g e abi tb) = KV_CACHE_VERSION"
  "ke_images (kv_parsed g e abi tb) = (abi = KV_CACHE_PAYLOAD_ABI_IMAGES)"
  "ke_hits (kv_parsed g e abi tb) = ke_hits e" "ke_ext_flags (kv_parsed g e abi tb) = ke_ext_flags e"
  by (simp_all add: kv_parsed_def Let_def)

lemma kv_text_refusal:
  assumes "kv_text_ok g e key payload"
  shows "ke_refusal (kv_parsed g e KV_CACHE_PAYLOAD_ABI tb) = None"
  using assms by (simp add: kv_parsed_def Let_def kv_refusal_of_def KV_CACHE_VERSION_def kv_text_ok_def)

lemma kv_abi_neq: "KV_CACHE_PAYLOAD_ABI \<noteq> KV_CACHE_PAYLOAD_ABI_IMAGES"
  by (simp add: kv_consts)

lemma unat_key: "length key < 2 ^ 32 \<Longrightarrow> unat (of_nat (length key) :: u32) = length key"
  by (simp add: unat_of_nat take_bit_nat_eq_self)

lemma kv_text_file_length: "length (kv_text_file e key payload) = 84 + length key + length payload"
  by (simp add: kv_text_file_def)

lemma kv_text_file_read:
  assumes "kv_text_ok g e key payload"
  shows "kv_read_entry g path (Some (kv_text_file e key payload)) sha True =
    Some ((kv_parsed g e KV_CACHE_PAYLOAD_ABI (of_nat (length key)))
      \<lparr>ke_sha := sha, ke_path := path, ke_file_size := of_nat (84 + length key + length payload)\<rparr>)"
proof -
  let ?tb = "ucast (of_nat (length key) :: u32) :: u64"
  have ok: "84 + length key + length payload < 2 ^ 64" "length key < 2 ^ 32"
    "unat (ke_payload_bytes e) = length payload"
    using assms by (auto simp: kv_text_ok_def)
  have tb: "unat ?tb = length key" by (subst unat_ucast_up) (simp, rule unat_key [OF ok(2)])
  have sz: "kv_file_size_bytes ?tb (ke_payload_bytes e) 0 = Some (84 + ?tb + ke_payload_bytes e)"
    using ok tb by (simp add: kv_file_size_bytes_iff)
  have nov: "\<not> (- 1) - (of_nat DS4_KVSTORE_FIXED_HEADER + 4) < ?tb"
    "\<not> (- 1) - (of_nat DS4_KVSTORE_FIXED_HEADER + 4) - ?tb < ke_payload_bytes e"
    using sz by (simp_all add: kv_file_size_bytes_def Let_def split: if_splits)
  have "?tb = of_nat (unat ?tb)" "ke_payload_bytes e = of_nat (unat (ke_payload_bytes e))"
    by (simp_all only: of_nat_unat ucast_id)
  then have "?tb = of_nat (length key)" "ke_payload_bytes e = of_nat (length payload)"
    by (simp_all only: tb ok(3))
  with nov show ?thesis
    by (simp add: kv_read_entry_def kv_text_file_parse [OF assms] kv_text_refusal [OF assms]
        kv_text_file_length DS4_KVSTORE_V1_HEADER_def KV_CACHE_VERSION_def Let_def DS4_KVSTORE_FIXED_HEADER_def)
qed


lemma kv_entry_sha_no_images: "kv_entry_sha key (Some kv_no_images) = kv_entry_sha key None"
  by (simp add: kv_entry_sha_def Let_def kv_images_inside_def kv_no_images_def)

lemma kv_no_images_match: "kv_images_mismatch (Some kv_no_images) None n = None"
  by (simp add: kv_images_mismatch_def Let_def kv_images_inside_def kv_no_images_def)

text \<open>The lookup in a directory that holds only that file.\<close>

lemma kv_text_file_found:
  assumes ok: "kv_text_ok g e key payload"
    and kc: "ks_enabled kc" "ko_min_tokens (ks_opt kc) \<le> sint (ke_tokens e)"
    and m: "ke_model_id e = of_int m" "ke_ctx_size e \<le> of_int c" "ke_quant_bits e = of_int q"
    and sha: "sha = kv_entry_sha key None" and path: "path = kv_path_for_sha (ks_dir kc) sha"
    and fs: "fs path = Some (kv_text_file e key payload)"
  shows "\<exists>kc'. kv_find_image_prefix g fs (Some [sha @ ''.kv'']) kc (Some (key @ rem)) None m q c = (kc', 0) \<and>
    ks_entry kc' \<noteq> [] \<and> ke_path (ks_entry kc' ! 0) = path \<and> ke_sha (ks_entry kc' ! 0) = sha \<and>
    kc' = kc\<lparr>ks_entry := ks_entry kc'\<rparr>"
proof -
  let ?e = "(kv_parsed g e KV_CACHE_PAYLOAD_ABI (of_nat (length key)))
      \<lparr>ke_sha := sha, ke_path := path, ke_file_size := of_nat (84 + length key + length payload)\<rparr>"
  have name: "kv_sha_hex_name (sha @ ''.kv'') = Some sha" "kv_path_join (ks_dir kc) (sha @ ''.kv'') = path"
    unfolding path by (simp_all add: sha kv_sha_hex_name_entry kv_path_for_sha_def)
  define kc' where "kc' = kc\<lparr>ks_entry := [?e]\<rparr>"
  have es: "ks_entry kc' = [?e]" by (simp add: kc'_def)
  have refresh: "kv_refresh g fs (Some [sha @ ''.kv'']) kc = kc'"
    using kc(1) by (simp add: kv_refresh_def name fs kv_text_file_read [OF ok] kc'_def)
  have tb: "unat (ucast (of_nat (length key) :: u32) :: u64) = length key"
    using ok by (subst unat_ucast_up) (simp, simp only: unat_key kv_text_ok_def)
  have "kv_serves g fs kc' (key @ rem) None m q c ?e"
    using kc(2) m tb
    by (simp add: kv_serves_def kc'_def kv_text_refusal [OF ok] sha kv_entry_images_def kv_no_images_match kv_abi_neq)
  then have "kv_find_image_prefix g fs (Some [sha @ ''.kv'']) kc (Some (key @ rem)) None m q c = (kc', 0)"
    using es by (simp add: kv_find_image_prefix_def refresh Let_def kv_find_one_eq)
  then show ?thesis by (auto simp: kc'_def)
qed

lemma kv_text_file_checked:
  assumes ok: "kv_text_ok g e key payload" and "ke_model_id e = of_int m"
  shows "kv_load_check g True True True (kv_text_file e key payload) m (key @ rem) (kv_entry_sha key None) None =
    Inr (kv_parsed g e KV_CACHE_PAYLOAD_ABI (of_nat (length key)), of_nat (length key), kv_no_images, 0, payload)"
proof -
  let ?hdr = "kv_parsed g e KV_CACHE_PAYLOAD_ABI (of_nat (length key))"
  have kl: "unat (of_nat (length key) :: u32) = length key"
    by (rule unat_key) (use ok in \<open>simp add: kv_text_ok_def\<close>)
  have "kv_verify_payload True True True payload ?hdr = None"
    unfolding kv_verify_None using ok by (auto simp: kv_text_ok_def)
  then show ?thesis
    unfolding kv_load_check_def kv_text_file_parse [OF ok]
    using assms(2) kv_text_refusal [OF ok] kl
    by (simp add: kv_byte_prefix_match_def kv_no_images_match kv_abi_neq Let_def)
qed


lemma kv_bind_identity_bound: "g_identity (kv_bind_identity en g) \<noteq> 0 \<Longrightarrow>
    kv_bind_identity en (kv_bind_identity en g) = kv_bind_identity en g"
  by (simp add: kv_bind_identity_def)

lemma kv_supported_word:
  "kv_quant_bits_supported q \<Longrightarrow> kv_quant_bits_supported (uint (of_int q :: u8))"
  by (auto simp: kv_quant_bits_supported_def)

lemma kv_store_then_load_lemma:
  assumes store: "kv_store_live_prefix_text en ladder now may names1 names2 alloc_ok io_ok (Some toks)
      (int (length toks)) reason None 0 None None kc g s fs = (kc1, g1, fs1, True)"
    and key: "key = kv_render_tokens_text en toks" and sha: "sha = kv_entry_sha key None"
    and fresh: "fs (kv_path_for_sha (ks_dir kc) sha) = None"
    and toks: "toks \<noteq> []" "length toks < 2 ^ 31"
    and staged: "en_stage_payload en s = Some \<lparr>staged_path = Some payload, staged_bytes = of_nat (length payload)\<rparr>"
      "length payload < 2 ^ 63" "kv_payload_hash payload \<noteq> 0"
    and loads: "en_load_payload en s2 payload (of_nat (length payload)) = (s3, Some [])"
      "en_tokens en s3 = Some toks" "en_restore_vision en s3 [] = (s4, True)"
    and ctx: "of_int (en_ctx en s) \<le> (of_int (en_ctx en s2) :: u32)"
    and ident: "g_identity g1 \<noteq> 0"
    and kc2: "ks_enabled kc2" "ks_dir kc2 = ks_dir kc" "ks_opt kc2 = ks_opt kc"
  shows "let r = kv_try_load_text en now2 (Some [sha @ ''.kv'']) may True True True (Some (key @ rem)) None None
      kc2 g1 s2 fs1
    in kl_loaded r = int (length toks) \<and> kl_session r = s4 \<and>
      kl_prompt r = Some (toks @ en_tokenize_rendered_chat en rem) \<and>
      ks_continued_last_store_tokens (kl_store r) = int (length toks)"
proof -
  let ?path = "kv_path_for_sha (ks_dir kc) sha"
  from kv_store_live_prefix_text_fresh [OF store] obtain im key' est where
    st: "ko_min_tokens (ks_opt kc) \<le> int (length toks)" "kv_canary_ready g" "g1 = kv_bind_identity en g"
      "length key' \<le> 0xffffffff" "kv_quant_bits_supported (en_routed_quant_bits en)"
      "kv_store_key en toks None None = Some (im, key')"
    and imp: "fs (kv_path_for_sha (ks_dir kc) (kv_entry_sha key' (Some im))) = None \<longrightarrow>
      (\<exists>staged. en_stage_payload en s = Some staged \<and>
        kv_store_staged en ladder now may names1 names2 alloc_ok io_ok (length toks) reason 0 None est im key'
          (en_ctx en s) staged (kv_path_for_sha (ks_dir kc) (kv_entry_sha key' (Some im))) kc g1 fs = (kc1, fs1, True))"
    by (auto simp: kv_tokens_copy_prefix_def)
  from st(6) have im: "im = kv_no_images" "key' = key"
    by (auto simp: kv_store_key_def Let_def key kv_no_images_def)
  from imp fresh staged(1) have
    "kv_store_staged en ladder now may names1 names2 alloc_ok io_ok (length toks) reason 0 None est im key
      (en_ctx en s) \<lparr>staged_path = Some payload, staged_bytes = of_nat (length payload)\<rparr> ?path kc g1 fs = (kc1, fs1, True)"
    by (simp add: im kv_entry_sha_no_images sha)
  from kv_store_staged_True [OF this] obtain flags content tb hash fs2 where
    w: "kv_write_entry_images alloc_ok (kv_fill_header g1 (of_int (en_model_id en)) (of_int (en_routed_quant_bits en))
        (kv_reason_code reason) flags (of_nat (length toks)) 0 (of_int (en_ctx en s)) now now (of_nat (length payload)))
      key (Some kv_no_images) (Some \<lparr>staged_path = Some payload, staged_bytes = of_nat (length payload)\<rparr>) None =
      Some (content, tb, hash)"
    and fs1: "fs1 = fs2(?path := Some content)"
    by (auto simp: im)
  define e0 where "e0 = kv_empty_entry\<lparr>ke_model_id := of_int (en_model_id en),
       ke_quant_bits := of_int (en_routed_quant_bits en), ke_reason := kv_reason_code reason,
       ke_ext_flags := flags, ke_tokens := of_nat (length toks), ke_hits := 0, ke_ctx_size := of_int (en_ctx en s),
       ke_created_at := now, ke_last_used := now, ke_payload_bytes := of_nat (length payload),
       ke_identity := g_identity g1, ke_canary := g_canary g1\<rparr>"
  define e where "e = e0\<lparr>ke_payload_hash := hash\<rparr>"
  have nb: "kv_images_bytes (Some kv_no_images) = 0" by (simp add: kv_images_bytes_def kv_no_images_def)
  have pl: "unat (of_nat (length payload) :: u64) = length payload"
    using staged(2) by (simp add: unat_of_nat take_bit_nat_eq_self)
  from kv_write_entry_images_file [OF w [unfolded kv_fill_header_bytes, folded e0_def]]
  have h: "hash = kv_payload_hash payload" and content: "content = kv_text_file e key payload"
    by (auto simp: kv_list_of_def kv_abi_of_def nb pl kv_text_file_def kv_trailer_write_def e_def e0_def kv_empty_entry_def)
  have tl: "unat (of_nat (length toks) :: u32) = length toks"
    using toks(2) by (simp add: unat_of_nat take_bit_nat_eq_self)
  then have tn: "(of_nat (length toks) :: u32) \<noteq> 0" using toks(1) by (metis length_0_conv unat_0)
  have ts: "sint (of_nat (length toks) :: u32) = int (length toks)"
    using toks(2) by (simp add: signed_of_nat signed_take_bit_int_eq_self)
  have ok: "kv_text_ok g1 e key payload"
    using st(4,5) staged(2,3) tn pl
    by (auto simp: kv_text_ok_def e_def e0_def kv_supported_word h im)
  have bind: "kv_bind_identity en g1 = g1" using ident by (simp add: kv_bind_identity_def)
  have gate: "kv_canary_gate g1" using st(2,3) by (simp add: kv_canary_gate_def kv_bind_identity_def kv_canary_ready_def)
  have "\<exists>kc'. kv_find_image_prefix g1 fs1 (Some [sha @ ''.kv'']) kc2 (Some (key @ rem)) None (en_model_id en)
      (en_routed_quant_bits en) (en_ctx en s2) = (kc', 0) \<and> ks_entry kc' \<noteq> [] \<and>
      ke_path (ks_entry kc' ! 0) = ?path \<and> ke_sha (ks_entry kc' ! 0) = sha \<and> kc' = kc2\<lparr>ks_entry := ks_entry kc'\<rparr>"
    by (rule kv_text_file_found [OF ok])
      (use kc2 st(1) ctx in \<open>simp_all add: e_def e0_def ts sha fs1 content\<close>)
  then obtain kc' where find: "kv_find_image_prefix g1 fs1 (Some [sha @ ''.kv'']) kc2 (Some (key @ rem)) None
      (en_model_id en) (en_routed_quant_bits en) (en_ctx en s2) = (kc', 0)"
    "ke_path (ks_entry kc' ! 0) = ?path" "ke_sha (ks_entry kc' ! 0) = sha" by blast
  have chk: "kv_load_check g1 True True True content (en_model_id en) (key @ rem) sha None =
      Inr (kv_parsed g1 e KV_CACHE_PAYLOAD_ABI (of_nat (length key)), of_nat (length key), kv_no_images, 0, payload)"
    unfolding content sha by (rule kv_text_file_checked [OF ok]) (simp add: e_def e0_def)
  have kl: "unat (of_nat (length key) :: u32) = length key"
    by (rule unat_key) (use ok in \<open>simp add: kv_text_ok_def\<close>)
  have f: "fs1 ?path = Some content" by (simp add: fs1)
  show ?thesis
    using loads toks(1) kc2(1) gate st(5)
    by (simp add: kv_try_load_text_def bind find f chk kv_restore_session_def e_def e0_def ts kl
        kv_build_prompt_def kv_no_images_def Let_def)
qed


text \<open>A concrete engine for the witnesses: its session is a number, 1 once something was loaded.\<close>

definition kv_demo_engine :: "nat kv_engine" where
  "kv_demo_engine = \<lparr>en_identity = 7, en_routed_quant_bits = 4, en_model_id = 1, en_token_text = (\<lambda>t. [65]),
     en_tokenize_rendered_chat = (\<lambda>x. map uint x), en_ctx = (\<lambda>s. 4096), en_tokens = (\<lambda>s. Some [5, 6]),
     en_stage_payload = (\<lambda>s. Some \<lparr>staged_path = Some [1], staged_bytes = 1\<rparr>),
     en_load_payload = (\<lambda>s fp n. (1, Some (drop (unat n) fp))),
     en_restore_vision = (\<lambda>s ims. (s, True)), en_invalidate = (\<lambda>s. 2)\<rparr>"

definition kv_demo_store :: kv_store where
  "kv_demo_store = \<lparr>ks_enabled = True, ks_dir = ''d'', ks_budget_bytes = 1000, ks_reject_different_quant = False,
     ks_opt = kv_default_options\<lparr>ko_min_tokens := 1\<rparr>, ks_continued_last_store_tokens = 0, ks_entry = []\<rparr>"

definition kv_demo_globals :: kv_globals where
  "kv_demo_globals = \<lparr>g_identity = 0, g_canary = 3, g_state = Canary_ready\<rparr>"

lemma kv_demo_key: "kv_render_tokens_text kv_demo_engine [5, 6] = [65, 65]"
  by (simp add: kv_render_tokens_text_def kv_demo_engine_def)

lemma kv_demo_write:
  "\<exists>f h. kv_write_entry_images True hh [65, 65] (Some kv_no_images)
    (Some \<lparr>staged_path = Some [1], staged_bytes = 1\<rparr>) None = Some (f, 0, h)"
  by (simp add: kv_write_entry_images_def kv_images_bytes_def kv_no_images_def kv_copy_staged_hashed_def
        kv_copy_loop.simps KV_HASH_CHUNK_def fread_exact_def kv_trailer_write_def Let_def)

lemma kv_demo_fits: "fst (kv_file_size_fits (Some kv_demo_store) 2 1 0)"
  "kv_file_size_fits (Some kv_demo_store) 2 1 0 = (True, Some 87, Some 88)"
  by (simp_all add: kv_file_size_fits_def kv_file_size_bytes_iff kv_budget_required_iff kv_demo_store_def)

lemma kv_demo_fields:
  "en_identity kv_demo_engine = 7" "en_routed_quant_bits kv_demo_engine = 4" "en_model_id kv_demo_engine = 1"
  "en_ctx kv_demo_engine s = 4096" "en_tokens kv_demo_engine s = Some [5, 6]"
  "en_stage_payload kv_demo_engine s = Some \<lparr>staged_path = Some [1], staged_bytes = 1\<rparr>"
  "ks_enabled kv_demo_store" "ko_min_tokens (ks_opt kv_demo_store) = 1" "g_identity kv_demo_globals = 0"
  "g_state kv_demo_globals = Canary_ready"
  by (simp_all add: kv_demo_engine_def kv_demo_store_def kv_demo_globals_def)

lemma kv_demo_staged:
  "\<exists>fs1. kv_store_staged kv_demo_engine False 9 (\<lambda>_. True) None None True True 2 (Some ''cold'') 0 None 0
     kv_no_images [65, 65] 4096 \<lparr>staged_path = Some [1], staged_bytes = 1\<rparr> path kv_demo_store g (\<lambda>_. None) =
     (kv_demo_store, fs1, True)"
proof -
  obtain f h where w: "kv_write_entry_images True (kv_fill_header g 1 4
      (kv_reason_code (Some ''cold'')) 0 2 0 4096 9 9 1) [65, 65] (Some kv_no_images)
    (Some \<lparr>staged_path = Some [1], staged_bytes = 1\<rparr>) None = Some (f, 0, h)"
    using kv_demo_write by blast
  have nb: "kv_images_bytes (Some kv_no_images) = 0" by (simp add: kv_images_bytes_def kv_no_images_def)
  have st: "kv_ladder_thin g True False 9 (\<lambda>_. True) None inc x kv_demo_store fs = (kv_demo_store, fs)" for g inc x fs
    by (simp add: kv_ladder_thin_def)
  have ev: "kv_evict g False 9 (\<lambda>_. True) None live 87 inc kv_demo_store (\<lambda>_. None) = (kv_demo_store, \<lambda>_. None)" for g inc live
    by (simp add: kv_evict_def kv_demo_store_def kv_refresh_def Let_def kv_evict_loop.simps)
  show ?thesis using w
    by (simp add: kv_store_staged_def Let_def nb kv_demo_fits st ev kv_demo_fields)
qed

lemma kv_demo_store_ok:
  "\<exists>fs1. kv_store_live_prefix_text kv_demo_engine False 9 (\<lambda>_. True) None None True True (Some [5, 6])
     (int (length [5, 6 :: int])) (Some ''cold'') None 0 None None kv_demo_store kv_demo_globals 0 (\<lambda>_. None) =
     (kv_demo_store, kv_demo_globals\<lparr>g_identity := 7\<rparr>, fs1, True)"
proof -
  have b: "kv_bind_identity kv_demo_engine kv_demo_globals = kv_demo_globals\<lparr>g_identity := 7\<rparr>"
    by (simp add: kv_bind_identity_def kv_demo_fields)
  have k: "kv_store_key kv_demo_engine [5, 6] None None = Some (kv_no_images, [65, 65])"
    by (simp add: kv_store_key_def Let_def kv_demo_key) (simp add: kv_no_images_def)
  have cp: "kv_tokens_copy_prefix [5, 6] 2 = [5, 6]" by (simp add: kv_tokens_copy_prefix_def)
  have q: "kv_quant_bits_supported 4" by (simp add: kv_quant_bits_supported_def)
  obtain fs1 where "kv_store_staged kv_demo_engine False 9 (\<lambda>_. True) None None True True 2 (Some ''cold'') 0 None 0
     kv_no_images [65, 65] 4096 \<lparr>staged_path = Some [1], staged_bytes = 1\<rparr>
     (kv_path_for_sha (ks_dir kv_demo_store) (kv_entry_sha [65, 65] (Some kv_no_images)))
     kv_demo_store (kv_demo_globals\<lparr>g_identity := 7\<rparr>) (\<lambda>_. None) = (kv_demo_store, fs1, True)"
    using kv_demo_staged by blast
  then show ?thesis
    by (simp add: kv_store_live_prefix_text_def b k cp q Let_def kv_existing_compatible_def
        kv_trailer_serialized_size_def kv_canary_gate_def kv_canary_ready_def kv_demo_fields
        flip: numeral_2_eq_2)
qed

lemma kv_demo_hash: "kv_payload_hash [1] \<noteq> 0"
  by code_simp

text \<open>The hypotheses of the theorem, discharged on the concrete engine.\<close>

lemma kv_demo_hyps:
  assumes "kv_store_live_prefix_text kv_demo_engine False 9 (\<lambda>_. True) None None True True (Some [5, 6])
     (int (length [5, 6 :: int])) (Some ''cold'') None 0 None None kv_demo_store kv_demo_globals 0 (\<lambda>_. None) =
     (kv_demo_store, kv_demo_globals\<lparr>g_identity := 7\<rparr>, fs1, True)"
  shows "kl_session (kv_try_load_text kv_demo_engine 10 (Some [kv_entry_sha [65, 65] None @ ''.kv'']) (\<lambda>_. True)
    True True True (Some ([65, 65] @ [66])) None None kv_demo_store (kv_demo_globals\<lparr>g_identity := 7\<rparr>) 0 fs1) = 1"
  using kv_store_then_load_lemma [OF assms kv_demo_key [symmetric] refl, where payload = "[1]"
      and ?s2.0 = 0 and ?s3.0 = 1 and ?s4.0 = 1 and ?kc2.0 = kv_demo_store and ?now2.0 = 10
      and rem = "[66]"]
  using kv_demo_hash
  by (simp add: kv_demo_engine_def kv_demo_store_def kv_demo_globals_def Let_def)



lemma kv_find_image_prefix_best_witness:
  "let e = kv_empty_entry\<lparr>ke_tokens := 2, ke_quant_bits := 4, ke_model_id := 1, ke_payload_bytes := 1,
        ke_payload_hash := kv_payload_hash [1], ke_canary := 3\<rparr>;
      fs = (\<lambda>_. Some (kv_text_file e [65] [1]))
   in \<exists>kc' idx. kv_find_image_prefix kv_demo_globals fs (Some [kv_entry_sha [65] None @ ''.kv'']) kv_demo_store
      (Some ([65] @ [66])) None 1 4 4096 = (kc', idx) \<and> idx = 0 \<and>
      kv_serves kv_demo_globals fs kc' [65, 66] None 1 4 4096 (ks_entry kc' ! 0)"
proof -
  let ?e = "kv_empty_entry\<lparr>ke_tokens := 2, ke_quant_bits := 4, ke_model_id := 1, ke_payload_bytes := 1,
        ke_payload_hash := kv_payload_hash [1], ke_canary := 3\<rparr>"
  let ?fs = "\<lambda>_ :: string. Some (kv_text_file ?e [65] [1])"
  have "kv_text_ok (kv_demo_globals\<lparr>g_identity := 0\<rparr>) ?e [65] [1]"
    using kv_demo_hash
    by (simp add: kv_text_ok_def kv_demo_globals_def kv_empty_entry_def kv_quant_bits_supported_def)
  then have ok: "kv_text_ok kv_demo_globals ?e [65] [1]" by (simp add: kv_demo_globals_def)
  obtain kc' where f: "kv_find_image_prefix kv_demo_globals ?fs (Some [kv_entry_sha [65] None @ ''.kv'']) kv_demo_store
      (Some ([65] @ [66])) None 1 4 4096 = (kc', 0)"
    using kv_text_file_found [OF ok, of kv_demo_store 1 4096 4 _ _ ?fs "[66]"]
    by (auto simp: kv_demo_store_def kv_empty_entry_def)
  from kv_find_image_prefix_best [OF f] f show ?thesis by (simp add: Let_def)
qed

section \<open>A failure that is not the file's fault\<close>



end
