(* ===== verification/C_Text.thy ===== *)
theory C_Text
  imports Ds4_Prelude
begin

text \<open>
  The parts of the C string library the program's text formats rest on: character classes in
  the C locale, \<open>strtoull\<close>, the width-limited \<open>%s\<close> of \<open>sscanf\<close>, and substring search. A C
  string is the list of its characters without the terminator.
\<close>

definition is_space :: "char \<Rightarrow> bool" where
  "is_space c \<longleftrightarrow> (of_char c :: nat) \<in> {9, 10, 11, 12, 13, 32}"

definition is_digit :: "char \<Rightarrow> bool" where
  "is_digit c \<longleftrightarrow> 48 \<le> (of_char c :: nat) \<and> (of_char c :: nat) \<le> 57"

definition digit_val :: "char \<Rightarrow> nat option" where
  "digit_val c =
     (let n = of_char c
      in if 48 \<le> n \<and> n \<le> 57 then Some (n - 48)
         else if 97 \<le> n \<and> n \<le> 122 then Some (n - 87)
         else if 65 \<le> n \<and> n \<le> 90 then Some (n - 55)
         else None)"

fun scan_digits :: "nat \<Rightarrow> nat \<Rightarrow> string \<Rightarrow> nat \<times> string" where
  "scan_digits base acc [] = (acc, [])"
| "scan_digits base acc (c # cs) =
     (case digit_val c of
        Some d \<Rightarrow> if d < base then scan_digits base (acc * base + d) cs else (acc, c # cs)
      | None \<Rightarrow> (acc, c # cs))"

text \<open>
  \<open>strtoull\<close>: the value, the rest of the string, and whether \<open>errno\<close> was set to \<open>ERANGE\<close>.
  Without digits nothing is consumed.
\<close>

definition strtoull :: "nat \<Rightarrow> string \<Rightarrow> u64 \<times> string \<times> bool" where
  "strtoull base s =
     (let t = dropWhile is_space s;
          neg = (t \<noteq> [] \<and> hd t = CHR ''-'');
          t = (if t \<noteq> [] \<and> (hd t = CHR ''-'' \<or> hd t = CHR ''+'') then tl t else t);
          hex = ((base = 16 \<or> base = 0) \<and> 2 < length t \<and> t ! 0 = CHR ''0'' \<and>
                 (t ! 1 = CHR ''x'' \<or> t ! 1 = CHR ''X'') \<and> (\<exists>d. digit_val (t ! 2) = Some d \<and> d < 16));
          b = (if hex then 16 else if base = 0 then (if t \<noteq> [] \<and> hd t = CHR ''0'' then 8 else 10) else base);
          t = (if hex then drop 2 t else t);
          (v, rest) = scan_digits b 0 t
      in if length rest = length t then (0, s, False)
         else if 2 ^ 64 \<le> v then (- 1, rest, True)
         else (if neg then - of_nat v else of_nat v, rest, False))"

text \<open>One \<open>%<w>s\<close> conversion: the field and the rest, nothing when the input is exhausted.\<close>

definition scan_word :: "nat \<Rightarrow> string \<Rightarrow> (string \<times> string) option" where
  "scan_word w s =
     (let t = dropWhile is_space s;
          f = take w (takeWhile (\<lambda>c. \<not> is_space c) t)
      in if f = [] then None else Some (f, drop (length f) t))"

fun str_contains :: "string \<Rightarrow> string \<Rightarrow> bool" where
  "str_contains needle [] = (needle = [])"
| "str_contains needle (c # cs) =
     (take (length needle) (c # cs) = needle \<or> str_contains needle cs)"

definition starts_with :: "string \<Rightarrow> string \<Rightarrow> bool" where
  "starts_with s p = (take (length p) s = p)"

text \<open>The text before the first \<open>c\<close> and, when there is one, the text after it.\<close>

definition split_at :: "char \<Rightarrow> string \<Rightarrow> string \<times> string option" where
  "split_at c s =
     (let a = takeWhile (\<lambda>x. x \<noteq> c) s
      in (a, if length a = length s then None else Some (drop (Suc (length a)) s)))"

lemma split_at_hit: "c \<notin> set a \<Longrightarrow> split_at c (a @ c # b) = (a, Some b)"
proof -
  assume "c \<notin> set a"
  then have "\<And>x. x \<in> set a \<Longrightarrow> x \<noteq> c" by auto
  then have "takeWhile (\<lambda>x. x \<noteq> c) (a @ c # b) = a" by (subst takeWhile_append2) auto
  then show ?thesis by (simp add: split_at_def)
qed

lemma split_at_miss: "c \<notin> set a \<Longrightarrow> split_at c a = (a, None)"
proof -
  assume "c \<notin> set a"
  then have "takeWhile (\<lambda>x. x \<noteq> c) a = a" by (auto simp: takeWhile_eq_all_conv)
  then show ?thesis unfolding split_at_def Let_def by (simp only: if_True refl simp_thms)
qed

lemma split_at_None: "split_at c s = (a, None) \<Longrightarrow> a = s \<and> c \<notin> set s"
proof -
  assume *: "split_at c s = (a, None)"
  then have a: "a = takeWhile (\<lambda>x. x \<noteq> c) s" and l: "length a = length s"
    by (auto simp: split_at_def Let_def split: if_splits)
  have "a @ dropWhile (\<lambda>x. x \<noteq> c) s = s" using a by simp
  then have "length a + length (dropWhile (\<lambda>x. x \<noteq> c) s) = length s" by (metis length_append)
  with l have "dropWhile (\<lambda>x. x \<noteq> c) s = []" by simp
  then have "\<forall>x \<in> set s. x \<noteq> c" and "a = s" using a by (auto simp: takeWhile_eq_all_conv)
  then show ?thesis by auto
qed

lemma split_at_Some: "split_at c s = (a, Some b) \<Longrightarrow> s = a @ c # b \<and> c \<notin> set a"
proof -
  assume *: "split_at c s = (a, Some b)"
  then have a: "a = takeWhile (\<lambda>x. x \<noteq> c) s" and l: "length a \<noteq> length s" and b: "b = drop (Suc (length a)) s"
    by (auto simp: split_at_def Let_def split: if_splits)
  have s: "s = a @ dropWhile (\<lambda>x. x \<noteq> c) s" using a by simp
  with l obtain x xs where d: "dropWhile (\<lambda>x. x \<noteq> c) s = x # xs" by (cases "dropWhile (\<lambda>x. x \<noteq> c) s") auto
  then have "x = c" by (metis (mono_tags, lifting) hd_dropWhile list.discI list.sel(1))
  moreover have "b = xs" unfolding b by (subst s) (simp add: d)
  ultimately show ?thesis using s d a by (metis (mono_tags, lifting) set_takeWhileD)
qed

lemma split_at_length: "split_at c s = (a, Some b) \<Longrightarrow> length b < length s"
  by (drule split_at_Some) simp

lemma scan_digits_length: "scan_digits base acc s = (v, r) \<Longrightarrow> length r \<le> length s"
  by (induction base acc s rule: scan_digits.induct) (auto split: option.splits if_splits intro: le_SucI)

section \<open>Decimal numbers\<close>

definition digit_char :: "nat \<Rightarrow> char" where
  "digit_char d = char_of (48 + d)"

fun show_nat :: "nat \<Rightarrow> string" where
  "show_nat n = (if n < 10 then [digit_char n] else show_nat (n div 10) @ [digit_char (n mod 10)])"

declare show_nat.simps [simp del]

definition show_int :: "int \<Rightarrow> string" where
  "show_int i = (if i < 0 then CHR ''-'' # show_nat (nat (- i)) else show_nat (nat i))"

lemma of_char_digit [simp]: "d < 10 \<Longrightarrow> (of_char (digit_char d) :: nat) = 48 + d"
  by (simp add: digit_char_def)

lemma digit_val_digit [simp]: "d < 10 \<Longrightarrow> digit_val (digit_char d) = Some d"
  by (simp add: digit_val_def)

lemma is_digit_digit [simp]: "d < 10 \<Longrightarrow> is_digit (digit_char d)"
  by (simp add: is_digit_def)

lemma show_nat_digits: "c \<in> set (show_nat n) \<Longrightarrow> is_digit c"
  by (induction n rule: show_nat.induct) (subst (asm) (2) show_nat.simps, auto split: if_splits)

lemma show_nat_nonempty [simp]: "show_nat n \<noteq> []"
  by (subst show_nat.simps) simp

lemma is_digit_val: "is_digit c \<Longrightarrow> \<exists>d < 10. digit_val c = Some d \<and> c = digit_char d"
  by (auto simp: is_digit_def digit_val_def digit_char_def Let_def intro!: exI [of _ "of_char c - 48"])

lemma scan_digits_append:
  "\<forall>c \<in> set a. is_digit c \<Longrightarrow> scan_digits 10 acc (a @ b) = scan_digits 10 (fst (scan_digits 10 acc a)) b"
  by (induction a arbitrary: acc) (auto dest!: is_digit_val)

lemma scan_digits_show: "scan_digits 10 0 (show_nat n) = (n, [])"
proof (induction n rule: show_nat.induct)
  case (1 n)
  show ?case
  proof (cases "n < 10")
    case True
    then show ?thesis by (simp add: show_nat.simps [of n])
  next
    case False
    have "scan_digits 10 0 (show_nat n) = scan_digits 10 (fst (scan_digits 10 0 (show_nat (n div 10)))) [digit_char (n mod 10)]"
      using False by (subst show_nat.simps) (simp add: scan_digits_append show_nat_digits)
    with 1 False show ?thesis by simp
  qed
qed

lemma scan_digits_all: "\<forall>c \<in> set a. is_digit c \<Longrightarrow> snd (scan_digits 10 acc a) = []"
  by (induction a arbitrary: acc) (auto dest!: is_digit_val)

text \<open>The value of a string of digits.\<close>

definition dec_val :: "string \<Rightarrow> nat" where
  "dec_val s = fst (scan_digits 10 0 s)"

lemma dec_val_show [simp]: "dec_val (show_nat n) = n"
  by (simp add: dec_val_def scan_digits_show)

lemma is_digit_not_space: "is_digit c \<Longrightarrow> \<not> is_space c \<and> c \<noteq> CHR ''-'' \<and> c \<noteq> CHR ''+''"
  by (auto simp: is_digit_def is_space_def)

lemma strtoull_digits:
  assumes "\<forall>c \<in> set s. is_digit c" and "s \<noteq> []"
  shows "strtoull 10 s = (if 2 ^ 64 \<le> dec_val s then (- 1, [], True) else (of_nat (dec_val s), [], False))"
proof -
  obtain c cs where s: "s = c # cs" and c: "is_digit c" using assms by (cases s) auto
  have "scan_digits 10 0 s = (dec_val s, [])"
    using scan_digits_all [OF assms(1)] by (simp add: dec_val_def prod_eq_iff)
  with s is_digit_not_space [OF c] show ?thesis
    by (simp add: strtoull_def Let_def)
qed

end
