(* ===== verification/Snap_Meta.thy ===== *)
theory Snap_Meta
  imports Word_Digest C_Text
begin

text \<open>
  Prefill snapshots (ds4_snapstore.c): the atomic file write, the metadata text and the
  compatibility check that decides whether a saved frontier may be restored.
\<close>

section \<open>Atomic writes\<close>

text \<open>
  The files are a map from paths. What the system does is given: whether the temporary file
  can be created, the outcomes of the \<open>write\<close> calls, \<open>fsync\<close>, \<open>close\<close>, what another process
  put at the path meanwhile, and \<open>rename\<close>.
\<close>

type_synonym ss_fs = "string \<Rightarrow> u8 list option"

datatype ss_write = Wrote nat | Interrupted | Write_failed

datatype ss_write_error =
  Exists | Path_too_long | Cannot_create | Cannot_write | Cannot_fsync | Cannot_close | Appeared | Cannot_rename

text \<open>The write loop: the bytes in the temporary file, and whether all of them were written.\<close>

fun ss_write_loop :: "ss_write list \<Rightarrow> u8 list \<Rightarrow> u8 list \<Rightarrow> u8 list \<times> bool" where
  "ss_write_loop ws done [] = (done, True)"
| "ss_write_loop [] done (b # bs) = (done, False)"
| "ss_write_loop (w # ws) done (b # bs) =
     (case w of
        Interrupted \<Rightarrow> ss_write_loop ws done (b # bs)
      | Write_failed \<Rightarrow> (done, False)
      | Wrote n \<Rightarrow> if n = 0 then (done, False)
                  else ss_write_loop ws (done @ take n (b # bs)) (drop n (b # bs)))"

definition ss_write_file_atomic ::
  "bool \<Rightarrow> ss_write list \<Rightarrow> bool \<Rightarrow> bool \<Rightarrow> ss_fs \<Rightarrow> bool \<Rightarrow> string \<Rightarrow> string \<Rightarrow> u8 list \<Rightarrow> bool \<Rightarrow> ss_fs \<Rightarrow>
    ss_fs \<times> ss_write_error option" where
  "ss_write_file_atomic open_ok writes fsync_ok close_ok others rename_ok path pid buf replace fs =
     (if \<not> replace \<and> fs path \<noteq> None then (fs, Some Exists)
      else let tmp = path @ ''.tmp.'' @ pid
        in if 4096 \<le> length tmp then (fs, Some Path_too_long)
           else if \<not> open_ok \<or> fs tmp \<noteq> None then (fs, Some Cannot_create)
           else let (content, all) = ss_write_loop writes [] buf;
                    without = fs(tmp := None);
                    later = (\<lambda>p. if p \<noteq> tmp \<and> others p \<noteq> None then others p else without p)
                in if \<not> all then (without, Some Cannot_write)
                   else if \<not> fsync_ok then (without, Some Cannot_fsync)
                   else if \<not> close_ok then (without, Some Cannot_close)
                   else if \<not> replace \<and> later path \<noteq> None then (later, Some Appeared)
                   else if \<not> rename_ok then (later, Some Cannot_rename)
                   else (later(path := Some content), None))"

section \<open>Metadata\<close>

record ss_line =
  ss_key :: string
  ss_val :: string

record ss_meta =
  ss_lines :: "ss_line list"
  ss_complete :: bool

definition ss_two_word_key :: "string \<Rightarrow> bool" where
  "ss_two_word_key k \<longleftrightarrow> k = ''numerics'' \<or> k = ''env''"

text \<open>One non-empty line of the text.\<close>

definition ss_parse_line :: "string \<Rightarrow> ss_line" where
  "ss_parse_line l =
     (case split_at CHR '' '' l of
        (k, None) \<Rightarrow> \<lparr>ss_key = k, ss_val = []\<rparr>
      | (k, Some v) \<Rightarrow>
          if ss_two_word_key k
          then case split_at CHR ''='' v of
                 (name, Some v') \<Rightarrow> \<lparr>ss_key = k @ '' '' @ name, ss_val = v'\<rparr>
               | (_, None) \<Rightarrow> \<lparr>ss_key = k, ss_val = v\<rparr>
          else \<lparr>ss_key = k, ss_val = v\<rparr>)"

function ss_parse_loop :: "string \<Rightarrow> ss_line list \<Rightarrow> string \<Rightarrow> ss_line list \<times> string" where
  "ss_parse_loop p ls lst =
     (if p = [] then (ls, lst)
      else let (line, rest) = split_at CHR ''\<newline>'' p;
               (ls, lst) = (if line \<noteq> [] then (ls @ [ss_parse_line line], line) else (ls, lst))
           in case rest of None \<Rightarrow> (ls, lst) | Some r \<Rightarrow> ss_parse_loop r ls lst)"
  by pat_completeness auto
termination
  by (relation "measure (\<lambda>(p, _, _). length p)") (auto dest!: split_at_length [OF sym])

declare ss_parse_loop.simps [simp del]

text \<open>\<open>ds4_ss_meta_parse\<close>; the allocation failures it reports are left out.\<close>

definition ss_meta_parse :: "string \<Rightarrow> ss_meta" where
  "ss_meta_parse text =
     (let (ls, lst) = ss_parse_loop text [] []
      in \<lparr>ss_lines = ls, ss_complete = (lst = ''end'')\<rparr>)"

definition ss_meta_get :: "ss_meta \<Rightarrow> string \<Rightarrow> string option" where
  "ss_meta_get m key = map_option ss_val (find (\<lambda>l. ss_key l = key) (ss_lines m))"

definition ss_meta_get_u64 :: "ss_meta \<Rightarrow> string \<Rightarrow> nat \<Rightarrow> u64 option" where
  "ss_meta_get_u64 m key base =
     (case ss_meta_get m key of
        None \<Rightarrow> None
      | Some v \<Rightarrow>
          if v = [] then None
          else case strtoull base v of
            (x, rest, err) \<Rightarrow>
              if err \<or> rest = v \<or> (rest \<noteq> [] \<and> hd rest \<noteq> CHR '' '') then None else Some x)"

section \<open>Compatibility\<close>

definition ss_format :: string where "ss_format = ''ds4-bench-prefill-cache-4''"
definition ss_format_legacy :: string where "ss_format_legacy = ''ds4-bench-prefill-cache-3''"

datatype ss_verdict = SS_ok | SS_legacy | SS_incomplete | SS_corrupt | SS_incompatible | SS_unverifiable

definition ss_verdict_name :: "ss_verdict \<Rightarrow> string" where
  "ss_verdict_name v =
     (case v of SS_ok \<Rightarrow> ''compatible'' | SS_legacy \<Rightarrow> ''legacy'' | SS_incomplete \<Rightarrow> ''incomplete''
      | SS_corrupt \<Rightarrow> ''corrupt'' | SS_incompatible \<Rightarrow> ''incompatible'' | SS_unverifiable \<Rightarrow> ''unverifiable'')"

text \<open>The part of a weight line that is compared; the result is cut to \<open>cap - 1\<close> characters.\<close>

definition ss_weight_key :: "nat \<Rightarrow> string option \<Rightarrow> string" where
  "ss_weight_key cap v =
     (case v of
        None \<Rightarrow> take (cap - 1) ''-''
      | Some s \<Rightarrow>
          if s = ''-'' then take (cap - 1) ''-''
          else case scan_word 4095 s of
            None \<Rightarrow> take (cap - 1) (''?'' @ s)
          | Some (path, r) \<Rightarrow>
              (case scan_word 31 r of
                 None \<Rightarrow> take (cap - 1) (''?'' @ s)
               | Some (sz, r) \<Rightarrow>
                   (case scan_word 31 r of
                      None \<Rightarrow> take (cap - 1) (''?'' @ s)
                    | Some (mtime, r) \<Rightarrow>
                        (case scan_word 79 r of
                           None \<Rightarrow> take (cap - 1) (''?'' @ s)
                         | Some (sha, r) \<Rightarrow> take (cap - 1) (sz @ '' '' @ sha)))))"

text \<open>\<open>any_drafter\<close>: the environment variable \<open>DS4_SNAPSTORE_ANY_DRAFTER\<close> is set.\<close>

definition ss_compat_key :: "bool \<Rightarrow> string \<Rightarrow> bool" where
  "ss_compat_key any_drafter key =
     (if any_drafter \<and> (key = ''drafter'' \<or> key = ''armed'') then False
      else if key \<in> {''contract'', ''payload_version'', ''model'', ''drafter'', ''armed'', ''ctx'',
                ''prefill_chunk'', ''vocab'', ''prefill_repr'', ''prefill_values'', ''canary''} then True
      else starts_with key ''numerics '')"

text \<open>The comparison of one needed line: \<open>None\<close> goes on to the next.\<close>

definition ss_compat_line :: "bool \<Rightarrow> ss_meta \<Rightarrow> ss_line \<Rightarrow> ss_verdict option" where
  "ss_compat_line any_drafter have need =
     (let k = ss_key need; nv = ss_val need
      in if \<not> ss_compat_key any_drafter k then None
         else let hv = ss_meta_get have k
           in if k = ''canary'' \<and> hv = None then None
              else if k = ''model'' \<or> k = ''drafter''
              then let a = ss_weight_key 160 hv; b = ss_weight_key 160 (Some nv)
                in if str_contains ''unverifiable'' b \<or> str_contains ''unverifiable'' a then Some SS_unverifiable
                   else if a \<noteq> b then Some SS_incompatible
                   else None
              else if hv = None \<or> hv \<noteq> Some nv then Some SS_incompatible
              else None)"

fun ss_compat_needs :: "bool \<Rightarrow> ss_meta \<Rightarrow> ss_line list \<Rightarrow> ss_verdict option" where
  "ss_compat_needs any_drafter have [] = None"
| "ss_compat_needs any_drafter have (l # ls) =
     (case ss_compat_line any_drafter have l of
        Some v \<Rightarrow> Some v
      | None \<Rightarrow> ss_compat_needs any_drafter have ls)"

definition ss_compat :: "bool \<Rightarrow> ss_meta \<Rightarrow> ss_meta \<Rightarrow> ss_verdict" where
  "ss_compat any_drafter have need =
     (case ss_meta_get have ''format'' of
        None \<Rightarrow> SS_incomplete
      | Some fmt \<Rightarrow>
          if fmt = ss_format_legacy then SS_legacy
          else if fmt \<noteq> ss_format then SS_incompatible
          else if \<not> ss_complete have then SS_incomplete
          else case ss_compat_needs any_drafter have (ss_lines need) of
            Some v \<Rightarrow> v
          | None \<Rightarrow>
              if ss_meta_get have ''canary'' \<noteq> None \<and> ss_meta_get need ''canary'' = None then SS_unverifiable
              else if list_ex (\<lambda>l. starts_with (ss_key l) ''numerics '' \<and>
                        ss_meta_get need (ss_key l) = None \<and> ss_val l \<noteq> ''(unset)'') (ss_lines have)
              then SS_incompatible
              else SS_ok)"

section \<open>Properties\<close>

lemma ss_write_loop_all: "ss_write_loop ws acc b = (c, True) \<Longrightarrow> c = acc @ b"
  by (induction ws acc b rule: ss_write_loop.induct) (auto split: ss_write.splits if_splits)

text \<open>C34. The atomic write is all or nothing: with no other writer in the directory it either leaves the
  path holding exactly the buffer and every other file as it was, or reports an error and changes
  nothing; without \<open>replace\<close> it never succeeds over an existing file.\<close>

theorem ss_write_file_atomic_spec:
  "case ss_write_file_atomic open_ok writes fsync_ok close_ok (\<lambda>_. None) rename_ok path pid buf replace fs of
     (fs', None) \<Rightarrow> fs' = fs(path := Some buf) \<and> (replace \<or> fs path = None)
   | (fs', Some e) \<Rightarrow> fs' = fs"
proof -
  obtain c all where w: "ss_write_loop writes [] buf = (c, all)" by fastforce
  have same: "fs t = None \<Longrightarrow> (\<lambda>p. if p = t then None else fs p) = fs" for t by (auto simp: fun_eq_iff)
  show ?thesis
    using ss_write_loop_all [of writes "[]" buf c] w same
    by (auto simp: ss_write_file_atomic_def Let_def fun_upd_def split: if_splits)
qed

text \<open>What the check asks of one needed line.\<close>

definition ss_agrees :: "bool \<Rightarrow> ss_meta \<Rightarrow> ss_line \<Rightarrow> bool" where
  "ss_agrees any_drafter have l \<longleftrightarrow>
     (let k = ss_key l; hv = ss_meta_get have k
      in ss_compat_key any_drafter k \<longrightarrow>
         (if k = ''model'' \<or> k = ''drafter''
          then ss_weight_key 160 hv = ss_weight_key 160 (Some (ss_val l)) \<and>
               \<not> str_contains ''unverifiable'' (ss_weight_key 160 hv)
          else hv = Some (ss_val l) \<or> (k = ''canary'' \<and> hv = None)))"

lemma ss_compat_line_None: "ss_compat_line d have l = None \<longleftrightarrow> ss_agrees d have l"
  by (auto simp: ss_compat_line_def ss_agrees_def Let_def)

lemma ss_compat_needs_None: "ss_compat_needs d have ls = None \<longleftrightarrow> list_all (ss_agrees d have) ls"
  by (induction ls) (auto simp: ss_compat_line_None [symmetric] split: option.splits)

lemma ss_compat_needs_not_ok: "ss_compat_needs d have ls \<noteq> Some SS_ok"
  by (induction ls) (auto simp: ss_compat_line_def Let_def split: option.splits if_splits)

text \<open>A snapshot is accepted exactly when its metadata has the current format and is complete, every
  line of the needed identity that takes part agrees (weights by size and digest, with a
  recorded digest on both sides; an absent canary is left to the caller), a recorded canary was
  recomputed, and no numerics switch is recorded as set that this build does not know.\<close>

theorem ss_compat_ok_iff:
  "ss_compat any_drafter have need = SS_ok \<longleftrightarrow>
     ss_meta_get have ''format'' = Some ss_format \<and> ss_complete have \<and>
     list_all (ss_agrees any_drafter have) (ss_lines need) \<and>
     \<not> (ss_meta_get have ''canary'' \<noteq> None \<and> ss_meta_get need ''canary'' = None) \<and>
     \<not> list_ex (\<lambda>l. starts_with (ss_key l) ''numerics '' \<and> ss_meta_get need (ss_key l) = None \<and>
       ss_val l \<noteq> ''(unset)'') (ss_lines have)"
proof -
  have "ss_format \<noteq> ss_format_legacy" by (simp add: ss_format_def ss_format_legacy_def)
  then show ?thesis
    using ss_compat_needs_not_ok [of any_drafter "have" "ss_lines need"]
      ss_compat_needs_None [of any_drafter "have" "ss_lines need"]
    by (auto simp: ss_compat_def split: option.splits)
qed

text \<open>The comparison reads a weight line by its blanks, so a model path that contains one shifts the
  fields: two model files whose recorded digests differ are then taken for the same weights, and a
  line without any recorded digest is not reported as unverifiable.\<close>

theorem ss_weight_key_blank_path:
  "ss_weight_key 160 (Some ''/my models/a.gguf 100 7 aaaa'') = ss_weight_key 160 (Some ''/my models/a.gguf 200 7 bbbb'') \<and>
   \<not> str_contains ''unverifiable'' (ss_weight_key 160 (Some ''/my models/a.gguf 100 7 unverifiable''))"
  by code_simp

text \<open>Metadata as the writer lays it out: one \<open>key value\<close> line each, then the end marker.\<close>

definition ss_text_ok :: "string \<times> string \<Rightarrow> bool" where
  "ss_text_ok kv \<longleftrightarrow> CHR '' '' \<notin> set (fst kv) \<and> CHR ''\<newline>'' \<notin> set (fst kv) \<and> CHR ''\<newline>'' \<notin> set (snd kv) \<and>
     \<not> ss_two_word_key (fst kv)"

lemma ss_parse_loop_line:
  assumes "CHR ''\<newline>'' \<notin> set l" and "l \<noteq> []"
  shows "ss_parse_loop (l @ CHR ''\<newline>'' # p) ls lst = ss_parse_loop p (ls @ [ss_parse_line l]) l"
  using assms by (subst ss_parse_loop.simps) (simp add: split_at_hit)

lemma ss_parse_loop_lines:
  "list_all ss_text_ok kvs \<Longrightarrow>
    \<exists>lst'. ss_parse_loop (concat (map (\<lambda>kv. fst kv @ '' '' @ snd kv @ ''\<newline>'') kvs) @ p) ls lst =
      ss_parse_loop p (ls @ map (\<lambda>kv. \<lparr>ss_key = fst kv, ss_val = snd kv\<rparr>) kvs) lst'"
proof (induction kvs arbitrary: ls lst)
  case (Cons kv kvs)
  have "ss_parse_line (fst kv @ '' '' @ snd kv) = \<lparr>ss_key = fst kv, ss_val = snd kv\<rparr>"
    using Cons.prems by (simp add: ss_parse_line_def split_at_hit ss_text_ok_def)
  moreover have "ss_parse_loop ((fst kv @ '' '' @ snd kv) @ CHR ''\<newline>'' # q) ls lst =
      ss_parse_loop q (ls @ [ss_parse_line (fst kv @ '' '' @ snd kv)]) (fst kv @ '' '' @ snd kv)" for q
    using Cons.prems by (intro ss_parse_loop_line) (auto simp: ss_text_ok_def)
  ultimately show ?case
    using Cons.IH [of "ls @ [\<lparr>ss_key = fst kv, ss_val = snd kv\<rparr>]" "fst kv @ '' '' @ snd kv"] Cons.prems
    by simp
qed auto



end
