(* ===== verification/Layer_Pack.thy ===== *)
theory Layer_Pack
  imports C_Text
begin

text \<open>
  Placement of the model's layers on several devices (ds4_layer_pack.c): entries in forward
  order are packed greedily on devices 0, 1, ... and spill to the CPU tier, never going back.
  Sizes are \<open>size_t\<close> words, devices are C \<open>int\<close>s with -1 for the CPU tier.
\<close>

definition LAYER_PACK_MAX_GPUS :: nat where "LAYER_PACK_MAX_GPUS = 16"
definition LAYER_PACK_CPU :: int where "LAYER_PACK_CPU = -1"

record layer_pack_config =
  lp_gpu_budget_bytes :: "u64 list"   \<comment> \<open>\<open>size_t gpu_budget_bytes[16]\<close>\<close>
  lp_n_gpus :: int

text \<open>Advance to the first device from \<open>d\<close> on that can hold the entry; exact fits stay.\<close>

function lp_advance :: "u64 list \<Rightarrow> nat \<Rightarrow> u64 \<Rightarrow> nat \<Rightarrow> nat" where
  "lp_advance budget n e d = (if d < n \<and> budget ! d < e then lp_advance budget n e (Suc d) else d)"
  by pat_completeness auto
termination by (relation "measure (\<lambda>(_, n, _, d). n - d)") auto

declare lp_advance.simps [simp del]

fun lp_place :: "nat \<Rightarrow> u64 list \<Rightarrow> nat \<Rightarrow> u64 list \<Rightarrow> int list" where
  "lp_place n budget d [] = []"
| "lp_place n budget d (e # es) =
     (let d = lp_advance budget n e d
      in if d < n then int d # lp_place n (budget[d := budget ! d - e]) d es
         else LAYER_PACK_CPU # lp_place n budget d es)"

text \<open>The result code on the left, the devices on the right; \<open>None\<close> stands for a null pointer.\<close>

definition compute_layer_placement ::
  "u64 list option \<Rightarrow> int \<Rightarrow> layer_pack_config option \<Rightarrow> bool \<Rightarrow> int + int list" where
  "compute_layer_placement entry_bytes n_entries cfg have_out =
     (if entry_bytes = None \<or> cfg = None \<or> \<not> have_out then Inl 1
      else if n_entries < 0 then Inl 2
      else if lp_n_gpus (the cfg) < 0 \<or> int LAYER_PACK_MAX_GPUS < lp_n_gpus (the cfg) then Inl 3
      else let n = nat (lp_n_gpus (the cfg));
               budget = take n (lp_gpu_budget_bytes (the cfg))
           in Inr (lp_place n budget 0 (take (nat n_entries) (the entry_bytes))))"

section \<open>The printed layout\<close>

text \<open>First and last transformer layer of a tier, by their human-facing numbers; -1 for none.\<close>

definition lp_layer_range :: "int list \<Rightarrow> int \<Rightarrow> nat \<Rightarrow> nat \<Rightarrow> int \<times> int" where
  "lp_layer_range device_for_entry tier n_entries n_layers =
     fold (\<lambda>i (first, last).
         if device_for_entry ! i = tier
         then (if first < 0 then int i - 1 else first, int i - 1) else (first, last))
       [1..<min (Suc n_layers) n_entries] (-1, -1)"

definition lp_print_layer_range :: "int list \<Rightarrow> int \<Rightarrow> nat \<Rightarrow> nat \<Rightarrow> string \<times> bool" where
  "lp_print_layer_range device_for_entry tier n_entries n_layers =
     (let (first, last) = lp_layer_range device_for_entry tier n_entries n_layers
      in if first < 0 then (''(no transformer layers)'', False)
         else if first = last then (''layer '' @ show_int first, True)
         else (''layers '' @ show_int first @ ''-'' @ show_int last, True))"

definition lp_pseudo_layer_tags :: "int list \<Rightarrow> int \<Rightarrow> nat \<Rightarrow> nat \<Rightarrow> string" where
  "lp_pseudo_layer_tags device_for_entry tier n_entries n_layers =
     (if 0 < n_entries \<and> device_for_entry ! 0 = tier then '' + embedding'' else []) @
     (if 1 < n_entries \<and> n_layers + 1 < n_entries \<and> device_for_entry ! (n_layers + 1) = tier
      then '' + output head'' else [])"

text \<open>The usage column prints two sizes as decimals; that formatting is the argument \<open>usage\<close>.\<close>

definition layer_pack_print ::
  "(u64 \<Rightarrow> u64 \<Rightarrow> string) \<Rightarrow> int list \<Rightarrow> nat \<Rightarrow> nat \<Rightarrow> u64 list option \<Rightarrow> u64 list option \<Rightarrow> nat \<Rightarrow> string" where
  "layer_pack_print usage device_for_entry n_entries n_layers used budget n_gpus =
     ''multi-GPU layout:\<newline>'' @
     concat (map (\<lambda>d. ''  GPU'' @ show_nat d @ '': '' @
         fst (lp_print_layer_range device_for_entry (int d) n_entries n_layers) @
         lp_pseudo_layer_tags device_for_entry (int d) n_entries n_layers @
         (if used \<noteq> None \<and> budget \<noteq> None then usage (the used ! d) (the budget ! d) else []) @ ''\<newline>'')
       [0..<n_gpus]) @
     (if LAYER_PACK_CPU \<in> set (take n_entries device_for_entry)
      then ''  CPU : '' @ fst (lp_print_layer_range device_for_entry LAYER_PACK_CPU n_entries n_layers) @
           lp_pseudo_layer_tags device_for_entry LAYER_PACK_CPU n_entries n_layers @ ''\<newline>''
      else [])"

section \<open>Properties of the placement\<close>

lemma lp_advance_spec:
  "d \<le> lp_advance b n e d \<and> (d \<le> n \<longrightarrow> lp_advance b n e d \<le> n) \<and>
    (lp_advance b n e d < n \<longrightarrow> e \<le> b ! lp_advance b n e d) \<and>
    (\<forall>j. d \<le> j \<and> j < lp_advance b n e d \<longrightarrow> b ! j < e)"
proof (induction b n e d rule: lp_advance.induct)
  case (1 b n e d)
  show ?case
  proof (cases "d < n \<and> b ! d < e")
    case True
    with 1 have "Suc d \<le> lp_advance b n e (Suc d) \<and> (Suc d \<le> n \<longrightarrow> lp_advance b n e (Suc d) \<le> n) \<and>
      (lp_advance b n e (Suc d) < n \<longrightarrow> e \<le> b ! lp_advance b n e (Suc d)) \<and>
      (\<forall>j. Suc d \<le> j \<and> j < lp_advance b n e (Suc d) \<longrightarrow> b ! j < e)" by blast
    moreover have "lp_advance b n e d = lp_advance b n e (Suc d)"
      using True by (simp add: lp_advance.simps [of b n e d])
    moreover have "b ! j < e" if "d \<le> j" "j < r" "\<forall>j. Suc d \<le> j \<and> j < r \<longrightarrow> b ! j < e" for j r
      using that True by (cases "j = d") (auto simp: Suc_le_eq)
    ultimately show ?thesis using True by (metis Suc_leD Suc_leI)
  next
    case False
    then have "lp_advance b n e d = d" by (subst lp_advance.simps) (simp only: if_False)
    with False show ?thesis by auto
  qed
qed

lemma length_lp_place [simp]: "length (lp_place n b d es) = length es"
  by (induction n b d es rule: lp_place.induct) (auto simp: Let_def)

text \<open>The tier of a device in forward order: the CPU comes last.\<close>

definition lp_tier :: "nat \<Rightarrow> int \<Rightarrow> int" where
  "lp_tier n d = (if d = LAYER_PACK_CPU then int n else d)"

lemma lp_place_tiers:
  "d \<le> n \<Longrightarrow> sorted (map (lp_tier n) (lp_place n b d es)) \<and>
    (\<forall>x \<in> set (lp_place n b d es). int d \<le> lp_tier n x \<and> lp_tier n x \<le> int n)"
proof (induction n b d es rule: lp_place.induct)
  case (2 n b d e es)
  let ?d = "lp_advance b n e d"
  have s: "d \<le> ?d" "?d \<le> n" using lp_advance_spec [of d b n e] 2 by auto
  show ?case
  proof (cases "?d < n")
    case True
    with 2 s have "sorted (map (lp_tier n) (lp_place n (b[?d := b ! ?d - e]) ?d es)) \<and>
        (\<forall>x \<in> set (lp_place n (b[?d := b ! ?d - e]) ?d es). int ?d \<le> lp_tier n x \<and> lp_tier n x \<le> int n)"
      by (auto simp: Let_def)
    moreover have "lp_tier n (int ?d) = int ?d" by (simp add: lp_tier_def LAYER_PACK_CPU_def)
    ultimately show ?thesis using True s by (simp add: Let_def) (meson of_nat_mono order_trans)
  next
    case False
    with 2 s have "sorted (map (lp_tier n) (lp_place n b ?d es)) \<and>
        (\<forall>x \<in> set (lp_place n b ?d es). int ?d \<le> lp_tier n x \<and> lp_tier n x \<le> int n)"
      by (auto simp: Let_def)
    moreover have "lp_tier n LAYER_PACK_CPU = int n" by (simp add: lp_tier_def)
    moreover have "?d = n" using False s by simp
    ultimately show ?thesis using False s by (simp add: Let_def) (metis of_nat_mono order_trans "2.prems")
  qed
qed auto

text \<open>The bytes put on one device.\<close>

definition lp_used :: "int list \<Rightarrow> u64 list \<Rightarrow> nat \<Rightarrow> nat" where
  "lp_used devs es d = sum_list (map (\<lambda>(x, e). unat e) (filter (\<lambda>(x, e). x = int d) (zip devs es)))"

lemma lp_place_used: "j < length b \<Longrightarrow> n \<le> length b \<Longrightarrow> lp_used (lp_place n b d es) es j \<le> unat (b ! j)"
proof (induction n b d es arbitrary: rule: lp_place.induct)
  case (1 n b d)
  then show ?case by (simp add: lp_used_def)
next
  case (2 n b d e es)
  let ?d = "lp_advance b n e d"
  show ?case
  proof (cases "?d < n")
    case True
    then have fit: "e \<le> b ! ?d" using lp_advance_spec [of d b n e] by blast
    have "lp_used (lp_place n (b[?d := b ! ?d - e]) ?d es) es j \<le> unat (b[?d := b ! ?d - e] ! j)"
      using 2 True by (auto simp: Let_def)
    moreover have "unat (b ! ?d - e) = unat (b ! ?d) - unat e" "unat e \<le> unat (b ! ?d)"
      using fit by (simp_all add: unat_sub word_le_nat_alt)
    ultimately show ?thesis
      using True 2 by (auto simp: Let_def lp_used_def nth_list_update split: if_splits)
  next
    case False
    with 2 show ?thesis by (simp add: Let_def lp_used_def LAYER_PACK_CPU_def)
  qed
qed



text \<open>A placement on the GPUs alone that never goes back and respects the budgets.\<close>

fun lp_feasible :: "nat \<Rightarrow> u64 list \<Rightarrow> nat \<Rightarrow> u64 list \<Rightarrow> nat list \<Rightarrow> bool" where
  "lp_feasible n budget d [] [] = True"
| "lp_feasible n budget d (e # es) (f # fs) =
     (d \<le> f \<and> f < n \<and> e \<le> budget ! f \<and> lp_feasible n (budget[f := budget ! f - e]) f es fs)"
| "lp_feasible n budget d _ _ = False"

lemma lp_place_ahead:
  assumes "lp_feasible n bo d' es fs" and "d \<le> d'" and "\<forall>j. d' \<le> j \<and> j < n \<longrightarrow> bo ! j \<le> bg ! j"
    and "n \<le> length bo" and "n \<le> length bg"
  shows "\<forall>x \<in> set (take (length es) (lp_place n bg d (es @ more_es))). x \<noteq> LAYER_PACK_CPU"
  using assms
proof (induction n bo d' es fs arbitrary: bg d rule: lp_feasible.induct)
  case (2 n bo d' e es f fs)
  let ?d = "lp_advance bg n e d"
  have f: "d' \<le> f" "f < n" "e \<le> bo ! f" "lp_feasible n (bo[f := bo ! f - e]) f es fs"
    using "2.prems"(1) by auto
  have ef: "e \<le> bg ! f" using f "2.prems"(3) by (meson order_trans)
  have spec: "d \<le> ?d" "?d < n \<longrightarrow> e \<le> bg ! ?d" "\<forall>j. d \<le> j \<and> j < ?d \<longrightarrow> bg ! j < e"
    using lp_advance_spec [of d bg n e] by auto
  have df: "?d \<le> f"
  proof (rule ccontr)
    assume "\<not> ?d \<le> f"
    then have "bg ! f < e" using spec(3) f "2.prems"(2) by auto
    with ef show False by simp
  qed
  let ?bg = "bg[?d := bg ! ?d - e]" and ?bo = "bo[f := bo ! f - e]"
  have "\<forall>j. f \<le> j \<and> j < n \<longrightarrow> ?bo ! j \<le> ?bg ! j"
  proof (intro allI impI)
    fix j assume j: "f \<le> j \<and> j < n"
    then have le: "bo ! j \<le> bg ! j" using "2.prems"(3) f by auto
    show "?bo ! j \<le> ?bg ! j"
    proof (cases "j = f")
      case True
      show ?thesis
      proof (cases "?d = f")
        case same: True
        from le f(3) True have "bo ! f - e \<le> bg ! f - e"
          by (simp add: word_le_nat_alt unat_sub)
        with True same j "2.prems" show ?thesis by simp
      next
        case False
        have "bo ! f - e \<le> bo ! f" using f(3) by (simp add: word_le_nat_alt unat_sub)
        with le True have "bo ! f - e \<le> bg ! f" by (meson order_trans)
        with True False j "2.prems" show ?thesis by simp
      qed
    next
      case False
      with df j le show ?thesis by simp
    qed
  qed
  then have "\<forall>x \<in> set (take (length es) (lp_place n ?bg ?d (es @ more_es))). x \<noteq> LAYER_PACK_CPU"
    using f df "2.prems" by (intro "2.IH") auto
  moreover have "?d < n" using df f(2) by simp
  ultimately show ?case by (simp add: Let_def LAYER_PACK_CPU_def)
qed auto

text \<open>C29. The greedy placement wastes nothing: if the first \<open>k\<close> entries can be placed on the GPUs in
  order within the budgets at all, none of them spills to the CPU.\<close>

theorem compute_layer_placement_optimal:
  assumes "0 \<le> lp_n_gpus cfg" and "lp_n_gpus cfg \<le> 16" and "length (lp_gpu_budget_bytes cfg) = 16"
    and "lp_feasible (nat (lp_n_gpus cfg)) (take (nat (lp_n_gpus cfg)) (lp_gpu_budget_bytes cfg)) 0 (take k es) fs"
    and "compute_layer_placement (Some es) (int (length es)) (Some cfg) True = Inr devs"
  shows "\<forall>x \<in> set (take k devs). x \<noteq> LAYER_PACK_CPU"
proof -
  let ?n = "nat (lp_n_gpus cfg)"
  let ?b = "take ?n (lp_gpu_budget_bytes cfg)"
  have devs: "devs = lp_place ?n ?b 0 es"
    using assms(1,2,5) by (simp add: compute_layer_placement_def LAYER_PACK_MAX_GPUS_def Let_def)
  have "\<forall>x \<in> set (take (length (take k es)) (lp_place ?n ?b 0 (take k es @ drop k es))). x \<noteq> LAYER_PACK_CPU"
    by (rule lp_place_ahead [OF assms(4)]) (use assms(2,3) in auto)
  then show ?thesis
    unfolding devs by (cases "k \<le> length es") (auto simp: min.absorb2 min.absorb1)
qed

lemma compute_layer_placement_optimal_witness:
  "\<exists>devs. compute_layer_placement (Some [30, 50, 40, 10]) 4
      (Some \<lparr>lp_gpu_budget_bytes = 80 # 40 # replicate 14 0, lp_n_gpus = 2\<rparr>) True = Inr devs \<and>
    (\<forall>x \<in> set (take 3 devs). x \<noteq> LAYER_PACK_CPU)"
proof -
  let ?cfg = "\<lparr>lp_gpu_budget_bytes = 80 # 40 # replicate 14 0, lp_n_gpus = 2\<rparr>"
  obtain devs where d: "compute_layer_placement (Some [30, 50, 40, 10]) (int (length [30 :: u64, 50, 40, 10]))
      (Some ?cfg) True = Inr devs"
    by (simp add: compute_layer_placement_def LAYER_PACK_MAX_GPUS_def Let_def del: lp_place.simps)
  have "lp_feasible 2 [80, 40] 0 [30, 50, 40] [0, 0, 1]" by simp
  then have "lp_feasible (nat (lp_n_gpus ?cfg)) (take (nat (lp_n_gpus ?cfg)) (lp_gpu_budget_bytes ?cfg)) 0
      (take 3 [30, 50, 40, 10]) [0, 0, 1]"
    by simp
  from compute_layer_placement_optimal [OF _ _ _ this d] d show ?thesis by simp
qed

end
