(* ===== verification/Gpu_Args.thy ===== *)
theory Gpu_Args
  imports C_Text
begin

text \<open>
  The device options of the command lines (ds4_gpu_args.c): a comma-separated list of sizes in GiB, one of device
  numbers, and the configuration they give. The message buffer is the error value; the formats and their truncation
  are left out. What the CUDA build answers to \<open>auto\<close> is the argument \<open>probe\<close>, \<open>None\<close> in a build
  without CUDA.
\<close>

section \<open>The program\<close>

datatype gpu_args_error =
    Empty_value string | Not_a_number string string | Out_of_range string string | Too_many_entries string
  | Empty_entry string string | Junk_after_value string string | No_values string
  | Both_null | Zero_with_devices | Auto_requires_cuda | Count_mismatch nat nat | Probe_failed string

text \<open>\<open>strtol\<close> in base 10: the value, the rest of the string, and whether \<open>errno\<close> was set.\<close>

definition strtol :: "string \<Rightarrow> int \<times> string \<times> bool" where
  "strtol s =
     (let t = dropWhile is_space s;
          neg = (t \<noteq> [] \<and> hd t = CHR ''-'');
          t = (if t \<noteq> [] \<and> (hd t = CHR ''-'' \<or> hd t = CHR ''+'') then tl t else t);
          (v, rest) = scan_digits 10 0 t
      in if length rest = length t then (0, s, False)
         else if neg then (if 2 ^ 63 < v then (- (2 ^ 63), rest, True) else (- int v, rest, False))
         else (if 2 ^ 63 \<le> v then (2 ^ 63 - 1, rest, True) else (int v, rest, False)))"

definition is_blank :: "char \<Rightarrow> bool" where
  "is_blank c \<longleftrightarrow> c = CHR '' '' \<or> c = CHR 0x09"

lemma strtol_length: "strtol s = (v, r, e) \<Longrightarrow> length r \<le> length s"
proof -
  assume s: "strtol s = (v, r, e)"
  define t where "t = dropWhile is_space s"
  define u where "u = (if t \<noteq> [] \<and> (hd t = CHR ''-'' \<or> hd t = CHR ''+'') then tl t else t)"
  have "length u \<le> length s" using length_dropWhile_le [of is_space s] by (auto simp: u_def t_def)
  moreover obtain w q where q: "scan_digits 10 0 u = (w, q)" by fastforce
  moreover have "length q \<le> length u" by (rule scan_digits_length [OF q])
  ultimately show ?thesis using s unfolding strtol_def t_def [symmetric] Let_def u_def [symmetric] q
    by (auto split: if_splits)
qed

lemma strtol_shorter:
  assumes "(v, fin, err) = strtol (dropWhile is_blank p)" and "length fin \<noteq> length (dropWhile is_blank p)"
  shows "length (dropWhile is_blank fin) < length p" and "length (dropWhile is_blank fin) - Suc 0 < length p"
  using strtol_length [OF assms(1) [symmetric]] assms(2) length_dropWhile_le [of is_blank p] length_dropWhile_le [of is_blank fin]
  by linarith+

text \<open>The loop of \<open>parse_csv_int_list\<close>; \<open>acc\<close> is what is in \<open>out\<close> so far.\<close>

function csv_loop :: "nat \<Rightarrow> int \<Rightarrow> string \<Rightarrow> string \<Rightarrow> int list \<Rightarrow> gpu_args_error + int list" where
  "csv_loop max_count max_value what p acc =
     (if p = [] then (if acc = [] then Inl (No_values what) else Inr acc)
      else let p = dropWhile is_blank p
      in case strtol p of (v, fin, err) \<Rightarrow>
         if length fin = length p then Inl (Not_a_number what p)
         else if err \<or> v < 0 \<or> max_value < v then Inl (Out_of_range what p)
         else if max_count \<le> length acc then Inl (Too_many_entries what)
         else let acc = acc @ [v]; fin = dropWhile is_blank fin
         in if fin \<noteq> [] \<and> hd fin = CHR '',''
            then (if tl fin = [] \<or> hd (tl fin) = CHR '','' then Inl (Empty_entry what (tl fin))
                  else csv_loop max_count max_value what (tl fin) acc)
            else if fin \<noteq> [] then Inl (Junk_after_value what fin)
            else csv_loop max_count max_value what fin acc)"
  by pat_completeness auto

termination
  by (relation "measure (\<lambda>(max_count, max_value, what, p, acc). length p)") (auto dest: strtol_shorter)

declare csv_loop.simps [simp del]

definition parse_csv_int_list :: "string option \<Rightarrow> nat \<Rightarrow> int \<Rightarrow> string \<Rightarrow> gpu_args_error + int list" where
  "parse_csv_int_list s max_count max_value what =
     (case s of
        None \<Rightarrow> Inl (Empty_value what)
      | Some s \<Rightarrow> if s = [] then Inl (Empty_value what) else csv_loop max_count max_value what s [])"

definition DS4_MAX_GPUS :: nat where "DS4_MAX_GPUS = 16"
definition DS4_GPU_ARGS_MAX_VRAM_GB :: int where "DS4_GPU_ARGS_MAX_VRAM_GB = 16384"
definition DS4_GPU_ARGS_MAX_DEVICE_INDEX :: int where "DS4_GPU_ARGS_MAX_DEVICE_INDEX = 1023"
definition DS4_GPU_ARGS_DEFAULT_SAFETY_MARGIN :: u64 where "DS4_GPU_ARGS_DEFAULT_SAFETY_MARGIN = 512 * 1024 * 1024"

record ds4_gpu_config =
  device_indices :: "int list"
  vram_bytes :: "u64 list"
  n_gpus :: nat
  safety_margin_bytes :: u64

text \<open>The last loop: the device numbers and the budgets in bytes.\<close>

fun fill_budgets :: "int list \<Rightarrow> int list \<Rightarrow> nat \<Rightarrow> ds4_gpu_config \<Rightarrow> ds4_gpu_config" where
  "fill_budgets [] devs i cfg = cfg"
| "fill_budgets (v # vs) devs i cfg =
     fill_budgets vs devs (Suc i)
       (cfg\<lparr>device_indices := (device_indices cfg)[i := (if devs \<noteq> [] then devs ! i else int i)],
            vram_bytes := (vram_bytes cfg)[i := of_int v * 1024 * 1024 * 1024]\<rparr>)"

text \<open>
  \<open>parse_gpu_vram_arg\<close>: the configuration and \<open>out_skip_cuda\<close>. The device numbers are at most 1023, so the
  cast to \<open>int\<close> keeps them.
\<close>

definition parse_gpu_vram_arg ::
    "(int list option \<Rightarrow> ds4_gpu_config \<Rightarrow> gpu_args_error + ds4_gpu_config) option \<Rightarrow> string option \<Rightarrow> string option \<Rightarrow>
     ds4_gpu_config \<Rightarrow> gpu_args_error + (ds4_gpu_config \<times> bool)" where
  "parse_gpu_vram_arg probe vram_arg devices_arg cfg =
     (let cfg = cfg\<lparr>n_gpus := 0, safety_margin_bytes := DS4_GPU_ARGS_DEFAULT_SAFETY_MARGIN\<rparr>
      in case (case devices_arg of
                 None \<Rightarrow> Inr []
               | Some d \<Rightarrow> parse_csv_int_list (Some d) DS4_MAX_GPUS DS4_GPU_ARGS_MAX_DEVICE_INDEX ''--gpu-devices'') of
        Inl e \<Rightarrow> Inl e
      | Inr devs \<Rightarrow>
          if vram_arg = None \<and> devices_arg = None then Inl Both_null
          else let vram = (case vram_arg of None \<Rightarrow> ''auto'' | Some v \<Rightarrow> v)
          in if vram = ''0'' then (if devices_arg \<noteq> None then Inl Zero_with_devices else Inr (cfg, True))
             else if vram = ''auto''
             then (case probe of
                     None \<Rightarrow> Inl Auto_requires_cuda
                   | Some probe \<Rightarrow>
                       (case probe (if devs \<noteq> [] then Some devs else None) cfg of
                          Inl e \<Rightarrow> Inl e
                        | Inr cfg \<Rightarrow> Inr (cfg, False)))
             else (case parse_csv_int_list (Some vram) DS4_MAX_GPUS DS4_GPU_ARGS_MAX_VRAM_GB ''--gpu-vram'' of
                     Inl e \<Rightarrow> Inl e
                   | Inr vs \<Rightarrow>
                       if devs \<noteq> [] \<and> length devs \<noteq> length vs then Inl (Count_mismatch (length devs) (length vs))
                       else Inr (fill_budgets vs devs 0 (cfg\<lparr>n_gpus := length vs\<rparr>), False)))"

section \<open>Lists are read as they are written\<close>

text \<open>A list as a user writes it: decimal numbers between blanks, commas between them.\<close>

fun csv_text :: "(string \<times> nat \<times> string) list \<Rightarrow> string" where
  "csv_text [] = []"
| "csv_text [(a, n, b)] = a @ show_nat n @ b"
| "csv_text ((a, n, b) # e # es) = a @ show_nat n @ b @ CHR '','' # csv_text (e # es)"

definition csv_ok :: "nat \<Rightarrow> (string \<times> nat \<times> string) list \<Rightarrow> bool" where
  "csv_ok lim es \<longleftrightarrow> es \<noteq> [] \<and> (\<forall>(a, n, b) \<in> set es. list_all is_blank a \<and> n \<le> lim \<and> list_all is_blank b)"

abbreviation csv_values :: "(string \<times> nat \<times> string) list \<Rightarrow> int list" where
  "csv_values es \<equiv> map (\<lambda>(a, n, b). int n) es"

lemma blank_chars: "is_blank c \<Longrightarrow> \<not> is_digit c" "is_digit c \<Longrightarrow> \<not> is_blank c" "\<not> is_digit CHR '',''" "\<not> is_blank CHR '',''"
  by (auto simp: is_blank_def is_digit_def)

lemma drop_blanks: "list_all is_blank a \<Longrightarrow> dropWhile is_blank (a @ s) = dropWhile is_blank s"
  by (simp add: list_all_iff)

lemma show_nat_head: "\<exists>c cs. show_nat n = c # cs \<and> is_digit c"
  using show_nat_digits [of _ n] show_nat_nonempty [of n] by (cases "show_nat n") auto

lemma not_digit_val: "\<not> is_digit c \<Longrightarrow> digit_val c = Some d \<Longrightarrow> \<not> d < 10"
  by (auto simp: digit_val_def is_digit_def Let_def split: if_splits)

lemma scan_digits_stop: "r = [] \<or> \<not> is_digit (hd r) \<Longrightarrow> scan_digits 10 acc r = (acc, r)"
  by (cases r) (auto split: option.split dest: not_digit_val)

lemma strtol_show:
  assumes n: "n < 2 ^ 63" and r: "r = [] \<or> \<not> is_digit (hd r)"
  shows "strtol (show_nat n @ r) = (int n, r, False)"
proof -
  obtain c cs where c: "show_nat n = c # cs" "is_digit c" using show_nat_head by blast
  have scan: "scan_digits 10 0 (show_nat n @ r) = (n, r)"
    using scan_digits_append [of "show_nat n" 0 r] show_nat_digits scan_digits_stop [OF r] by (simp add: scan_digits_show)
  have "dropWhile is_space (show_nat n @ r) = show_nat n @ r" "hd (show_nat n @ r) \<noteq> CHR ''-''" "hd (show_nat n @ r) \<noteq> CHR ''+''"
    using c is_digit_not_space [of c] by simp_all
  moreover have "length r \<noteq> length (show_nat n @ r)" using show_nat_nonempty [of n] by simp
  ultimately show ?thesis using n by (simp add: strtol_def scan del: length_append)
qed

lemma csv_head: "csv_ok lim es \<Longrightarrow> \<exists>c cs. csv_text es = c # cs \<and> (is_blank c \<or> is_digit c)"
proof (induction es rule: csv_text.induct)
  case (2 a n b)
  then show ?case using show_nat_head [of n] by (cases a) (auto simp: csv_ok_def)
next
  case (3 a n b e es)
  then show ?case using show_nat_head [of n] by (cases a) (auto simp: csv_ok_def)
qed (simp add: csv_ok_def)

lemma csv_first:
  assumes "list_all is_blank a" and "list_all is_blank b" and "n < 2 ^ 63" and r: "r = [] \<or> hd r = CHR '',''"
  shows "dropWhile is_blank (a @ show_nat n @ b @ r) = show_nat n @ b @ r" and
    "strtol (show_nat n @ b @ r) = (int n, b @ r, False)" and "dropWhile is_blank (b @ r) = r"
proof -
  obtain c cs where c: "show_nat n = c # cs" "is_digit c" using show_nat_head by blast
  then show "dropWhile is_blank (a @ show_nat n @ b @ r) = show_nat n @ b @ r"
    using drop_blanks [OF assms(1)] blank_chars(2) by simp
  have "r = [] \<or> \<not> is_digit (hd r)" using r blank_chars(3) by auto
  then show "strtol (show_nat n @ b @ r) = (int n, b @ r, False)"
    using assms(2) blank_chars(1) by (intro strtol_show assms(3)) (cases b, auto)
  show "dropWhile is_blank (b @ r) = r" using assms(2) r blank_chars(4) by (cases r) (auto simp: list_all_iff)
qed

lemma csv_loop_exact:
  "csv_ok lim es \<Longrightarrow> lim < 2 ^ 63 \<Longrightarrow> csv_loop max_count (int lim) what (csv_text es) acc =
    (if length acc + length es \<le> max_count then Inr (acc @ csv_values es) else Inl (Too_many_entries what))"
proof (induction es arbitrary: acc rule: csv_text.induct)
  case (2 a n b)
  then have ok: "list_all is_blank a" "list_all is_blank b" "n < 2 ^ 63" "n \<le> lim" by (auto simp: csv_ok_def)
  have f: "dropWhile is_blank (a @ show_nat n @ b) = show_nat n @ b" "strtol (show_nat n @ b) = (int n, b, False)" "dropWhile is_blank b = []"
    using csv_first [OF ok(1-3), of "[]"] by (simp_all only: append_Nil2 simp_thms)
  have ne: "length b \<noteq> length (show_nat n @ b)" "a @ show_nat n @ b \<noteq> []" using show_nat_nonempty [of n] by auto
  show ?case
    using ok(4) ne by (subst csv_text.simps, subst csv_loop.simps) (simp add: f csv_loop.simps [of _ _ _ "[]"] del: length_append)
next
  case (3 a n b e es)
  let ?r = "CHR '','' # csv_text (e # es)"
  from 3 have ok: "list_all is_blank a" "list_all is_blank b" "n < 2 ^ 63" "n \<le> lim" and es: "csv_ok lim (e # es)"
    by (auto simp: csv_ok_def)
  note f = csv_first [OF ok(1-3), of ?r, simplified]
  obtain c cs where c: "csv_text (e # es) = c # cs" "is_blank c \<or> is_digit c" using csv_head [OF es] by blast
  then have more: "csv_text (e # es) \<noteq> []" "hd (csv_text (e # es)) \<noteq> CHR '',''" using blank_chars by auto
  have ne: "length (b @ ?r) \<noteq> length (show_nat n @ b @ ?r)" "a @ show_nat n @ b @ ?r \<noteq> []" using show_nat_nonempty [of n] by auto
  have "csv_loop max_count (int lim) what (csv_text ((a, n, b) # e # es)) acc =
      (if max_count \<le> length acc then Inl (Too_many_entries what)
       else csv_loop max_count (int lim) what (csv_text (e # es)) (acc @ [int n]))"
    using ok(4) ne more by (subst csv_text.simps, subst csv_loop.simps) (simp add: f del: length_append)
  with "3.IH" [OF es 3(3), of "acc @ [int n]"] show ?case by auto
qed (simp add: csv_ok_def)

section \<open>The configuration\<close>

lemma fill_budgets_fields:
  "n_gpus (fill_budgets vs devs i cfg) = n_gpus cfg" "safety_margin_bytes (fill_budgets vs devs i cfg) = safety_margin_bytes cfg"
  "length (device_indices (fill_budgets vs devs i cfg)) = length (device_indices cfg)"
  "length (vram_bytes (fill_budgets vs devs i cfg)) = length (vram_bytes cfg)"
  by (induction vs devs i cfg rule: fill_budgets.induct) simp_all

lemma fill_budgets_nth:
  "i + length vs \<le> length (device_indices cfg) \<Longrightarrow> device_indices (fill_budgets vs devs i cfg) ! j =
    (if i \<le> j \<and> j < i + length vs then (if devs \<noteq> [] then devs ! j else int j) else device_indices cfg ! j)"
  "i + length vs \<le> length (vram_bytes cfg) \<Longrightarrow> vram_bytes (fill_budgets vs devs i cfg) ! j =
    (if i \<le> j \<and> j < i + length vs then of_int (vs ! (j - i)) * 1024 * 1024 * 1024 else vram_bytes cfg ! j)"
  by (induction vs devs i cfg rule: fill_budgets.induct) (auto simp: nth_list_update nth_Cons')

lemma budget_bytes: "n \<le> 16384 \<Longrightarrow> unat (of_int (int n) * 1024 * 1024 * 1024 :: u64) = n * 2 ^ 30"
proof -
  assume n: "n \<le> 16384"
  have "(of_int (int n) * 1024 * 1024 * 1024 :: u64) = of_nat (n * 2 ^ 30)" by simp
  moreover have "unat (of_nat (n * 2 ^ 30) :: u64) = n * 2 ^ 30"
    using n by (simp only: unat_of_nat take_bit_nat_eq_self) (simp add: take_bit_nat_eq_self)
  ultimately show ?thesis by (simp only:)
qed

lemma csv_text_special: "csv_ok lim es \<Longrightarrow> csv_text es \<noteq> [] \<and> csv_text es \<noteq> ''auto''"
  using csv_head [of lim es] by (auto simp: is_blank_def is_digit_def)

lemma parse_csv_exact:
  "csv_ok lim es \<Longrightarrow> lim < 2 ^ 63 \<Longrightarrow> length es \<le> max_count \<Longrightarrow>
    parse_csv_int_list (Some (csv_text es)) max_count (int lim) what = Inr (csv_values es)"
  using csv_loop_exact [of lim es max_count what "[]"] csv_text_special [of lim es] by (simp add: parse_csv_int_list_def)



end
