(* ===== verification/Ssd.thy ===== *)
theory Ssd
  imports C_Text
begin

text \<open>
  Command-line sizes and the automatic expert-cache plan of SSD streaming (ds4_ssd.c). A
  missing string is \<open>None\<close>; the environment variable \<open>DS4_SSD_AUTO_CACHE_PCT\<close> is an argument.
\<close>

definition DS4_GIB :: u64 where "DS4_GIB = 1073741824"

definition has_gb :: "string \<Rightarrow> bool" where
  "has_gb s \<longleftrightarrow> 2 < length s \<and> (s ! (length s - 2) = CHR ''g'' \<or> s ! (length s - 2) = CHR ''G'') \<and>
     (s ! (length s - 1) = CHR ''b'' \<or> s ! (length s - 1) = CHR ''B'')"

definition parse_gib_arg :: "string option \<Rightarrow> u64 option" where
  "parse_gib_arg so =
     (case so of
        None \<Rightarrow> None
      | Some s \<Rightarrow>
          if s = [] then None
          else let len = (if has_gb s then length s - 2 else length s)
            in if len = 0 then None
               else if \<not> list_all is_digit (take len s) then None
               else if 32 \<le> len then None
               else case strtoull 10 (take len s) of
                 (v, _, err) \<Rightarrow>
                   if err \<or> v = 0 \<or> (- 1) div DS4_GIB < v then None else Some (v * DS4_GIB))"

text \<open>The expert count and the byte budget; exactly one of them is set on success.\<close>

definition parse_streaming_cache_experts_arg :: "string option \<Rightarrow> (u32 \<times> u64) option" where
  "parse_streaming_cache_experts_arg so =
     (case so of
        None \<Rightarrow> None
      | Some s \<Rightarrow>
          if s = [] then None
          else if has_gb s then map_option (\<lambda>b. (0, b)) (parse_gib_arg (Some s))
          else if \<not> list_all is_digit s then None
          else case strtoull 10 s of
            (v, _, err) \<Rightarrow> if err \<or> v = 0 \<or> 0xffffffff < v then None else Some (ucast v, 0))"

definition ssd_cache_experts_for_byte_budget :: "u64 \<Rightarrow> u64 \<Rightarrow> u32" where
  "ssd_cache_experts_for_byte_budget bytes per_expert_bytes =
     (if bytes = 0 \<or> per_expert_bytes = 0 then 0
      else let experts = bytes div per_expert_bytes
        in if experts = 0 \<or> 0xffffffff < experts then 0 else ucast experts)"

definition ssd_auto_cache_percent :: "string option \<Rightarrow> u32 \<Rightarrow> u64" where
  "ssd_auto_cache_percent env default_percent =
     (case env of
        None \<Rightarrow> ucast default_percent
      | Some e \<Rightarrow>
          if e = [] then ucast default_percent
          else case strtoull 10 e of
            (v, rest, err) \<Rightarrow>
              if rest \<noteq> e \<and> rest = [] \<and> \<not> err \<and> 50 \<le> v \<and> v \<le> 95 then v else ucast default_percent)"

record ssd_cache_plan =
  sp_model_target_bytes :: u64
  sp_cache_bytes :: u64
  sp_cache_experts :: u32
  sp_effective_cache_bytes :: u64

definition ssd_auto_cache_plan ::
  "string option \<Rightarrow> u64 \<Rightarrow> u32 \<Rightarrow> u64 \<Rightarrow> u64 \<Rightarrow> u64 \<Rightarrow> u64 \<Rightarrow> ssd_cache_plan option" where
  "ssd_auto_cache_plan env recommended default_percent model_limit non_routed per_expert max_model_experts =
     (if recommended = 0 \<or> per_expert = 0 \<or> default_percent < 50 \<or> 95 < default_percent then None
      else let pct = ssd_auto_cache_percent env default_percent;
               target = (if (- 1) div pct < recommended then - 1 else recommended * pct div 100);
               target = (if model_limit \<noteq> 0 \<and> model_limit < target then model_limit else target);
               cache_bytes = (if non_routed < target then target - non_routed else 0);
               n = cache_bytes div per_expert;
               n = (if n = 0 then 1 else n);
               n = (if max_model_experts \<noteq> 0 \<and> max_model_experts < n then max_model_experts else n);
               n = (if 0xffffffff < n then 0xffffffff else n);
               plan = \<lparr>sp_model_target_bytes = target, sp_cache_bytes = cache_bytes,
                       sp_cache_experts = ucast n, sp_effective_cache_bytes = n * per_expert\<rparr>
           in if sp_cache_experts plan \<noteq> 0 then Some plan else None)"

section \<open>Properties\<close>

lemma digits_list_all: "list_all is_digit (show_nat n)"
  by (simp add: list_all_iff show_nat_digits)

lemma gib_limit: "(- 1) div DS4_GIB = (17179869183 :: u64)"
  by (simp add: DS4_GIB_def)

text \<open>A size argument is accepted exactly when it is at most 31 decimal digits, optionally followed
  by GB in any case, whose value is positive and below 2^34 gibibytes; the result is the exact
  number of bytes.\<close>

theorem parse_gib_arg_iff:
  "parse_gib_arg (Some s) = Some b \<longleftrightarrow>
     (let ds = (if has_gb s then take (length s - 2) s else s)
      in ds \<noteq> [] \<and> length ds < 32 \<and> list_all is_digit ds \<and> 0 < dec_val ds \<and> dec_val ds < 2 ^ 34 \<and>
         unat b = dec_val ds * 2 ^ 30)"
proof -
  define ds where "ds = (if has_gb s then take (length s - 2) s else s)"
  define len where "len = (if has_gb s then length s - 2 else length s)"
  have ds: "take len s = ds" "length ds = len" by (auto simp: ds_def len_def)
  have ne: "s = [] \<Longrightarrow> ds = []" by (simp add: ds_def)
  show ?thesis
  proof (cases "ds \<noteq> [] \<and> length ds < 32 \<and> list_all is_digit ds")
    case False
    then show ?thesis
      using ds ne by (auto simp: parse_gib_arg_def Let_def ds_def [symmetric] len_def [symmetric])
  next
    case True
    then have st: "strtoull 10 ds = (if 2 ^ 64 \<le> dec_val ds then (- 1, [], True) else (of_nat (dec_val ds), [], False))"
      by (intro strtoull_digits) (auto simp: list_all_iff)
    have p: "parse_gib_arg (Some s) = (if 2 ^ 64 \<le> dec_val ds then None
        else let v = of_nat (dec_val ds) :: u64
          in if v = 0 \<or> (- 1) div DS4_GIB < v then None else Some (v * DS4_GIB))"
      using True ds ne by (auto simp: parse_gib_arg_def Let_def len_def [symmetric] st)
    show ?thesis
    proof (cases "dec_val ds < 2 ^ 64")
      case False
      then show ?thesis using p by (auto simp: Let_def ds_def [symmetric])
    next
      case small: True
      let ?v = "of_nat (dec_val ds) :: u64"
      have v: "unat ?v = dec_val ds" using small by (simp add: unat_of_nat take_bit_nat_eq_self)
      have z: "?v = 0 \<longleftrightarrow> dec_val ds = 0" using v by (metis unat_0 unat_eq_zero)
      have l: "(- 1) div DS4_GIB < ?v \<longleftrightarrow> \<not> dec_val ds < 2 ^ 34"
        unfolding gib_limit by (simp only: word_less_nat_alt v) auto
      have m: "unat (?v * DS4_GIB) = dec_val ds * 2 ^ 30" if "dec_val ds < 2 ^ 34"
        using that v by (subst unat_mult_lem [THEN iffD1]) (simp_all add: DS4_GIB_def)
      have "Some (?v * DS4_GIB) = Some b \<longleftrightarrow> unat b = dec_val ds * 2 ^ 30" if "dec_val ds < 2 ^ 34"
        using m [OF that] by (metis option.inject word_unat_eq_iff)
      then show ?thesis
        using True small z l unfolding p ds_def [symmetric] by (auto simp: Let_def)
    qed
  qed
qed

lemma parse_gib_arg_iff_witness:
  "parse_gib_arg (Some ''12GB'') = Some 12884901888"
  by (subst parse_gib_arg_iff)
    (simp add: has_gb_def Let_def is_digit_def dec_val_def digit_val_def)

text \<open>A successful automatic plan is consistent: it caches between one expert and the number the
  model has, its effective size is the exact product, it exceeds the cache budget only when a
  single expert already does, and the budget together with the resident weights stays within the
  target, which respects the model limit.\<close>

theorem ssd_auto_cache_plan_spec:
  assumes "ssd_auto_cache_plan env recommended pct limit non_routed per_expert max_experts = Some p"
  shows "0 < unat (sp_cache_experts p) \<and>
    (max_experts \<noteq> 0 \<longrightarrow> unat (sp_cache_experts p) \<le> unat max_experts) \<and>
    unat (sp_effective_cache_bytes p) = unat (sp_cache_experts p) * unat per_expert \<and>
    unat (sp_effective_cache_bytes p) \<le> max (unat (sp_cache_bytes p)) (unat per_expert) \<and>
    (limit \<noteq> 0 \<longrightarrow> sp_model_target_bytes p \<le> limit) \<and>
    (non_routed \<le> sp_model_target_bytes p \<longrightarrow>
      unat non_routed + unat (sp_cache_bytes p) = unat (sp_model_target_bytes p))"
proof -
  define target0 where "target0 = (if (- 1) div ssd_auto_cache_percent env pct < recommended then - 1
    else recommended * ssd_auto_cache_percent env pct div 100)"
  define target where "target = (if limit \<noteq> 0 \<and> limit < target0 then limit else target0)"
  define cache where "cache = (if non_routed < target then target - non_routed else 0)"
  define n0 where "n0 = (if cache div per_expert = 0 then 1 else cache div per_expert)"
  define n1 where "n1 = (if max_experts \<noteq> 0 \<and> max_experts < n0 then max_experts else n0)"
  define n where "n = (if 0xffffffff < n1 then 0xffffffff else n1)"
  have pe: "per_expert \<noteq> 0" and p: "p = \<lparr>sp_model_target_bytes = target, sp_cache_bytes = cache,
      sp_cache_experts = ucast n, sp_effective_cache_bytes = n * per_expert\<rparr>"
    using assms
    unfolding ssd_auto_cache_plan_def Let_def target0_def [symmetric]
    unfolding target_def [symmetric] unfolding cache_def [symmetric] unfolding n0_def [symmetric]
    unfolding n1_def [symmetric] unfolding n_def [symmetric]
    by (auto split: if_splits)
  have n0: "0 < n0" by (simp add: n0_def word_neq_0_conv)
  then have n1: "0 < n1" "n1 \<le> n0" by (auto simp: n1_def word_neq_0_conv)
  then have n: "0 < n" "n \<le> n1" "n \<le> 0xffffffff" by (auto simp: n_def)
  have nn: "unat n \<le> unat n0" using n(2) n1(2) by (simp add: word_le_nat_alt)
  have small: "unat n < 2 ^ 32" using n(3) by (simp add: word_le_nat_alt)
  then have u: "unat (ucast n :: u32) = unat n"
    by (simp add: unsigned_ucast_eq take_bit_nat_eq_self)
  have mult: "unat n0 * unat per_expert \<le> max (unat cache) (unat per_expert)"
  proof (cases "cache div per_expert = 0")
    case False
    then have "unat n0 = unat cache div unat per_expert" by (simp add: n0_def unat_div)
    then show ?thesis by (simp only:) (rule max.coboundedI1, rule div_times_less_eq_dividend)
  qed (simp add: n0_def)
  have le: "unat n * unat per_expert \<le> max (unat cache) (unat per_expert)"
    using nn mult by (meson mult_le_mono1 order_trans)
  have "max (unat cache) (unat per_expert) < 2 ^ 64"
    using unsigned_less [of cache, where ?'a = nat] unsigned_less [of per_expert, where ?'a = nat] by simp
  with le have "unat n * unat per_expert < 2 ^ 64" by (rule le_less_trans)
  then have eff: "unat (n * per_expert) = unat n * unat per_expert"
    by (subst unat_mult_lem [THEN iffD1]) simp_all
  have "max_experts \<noteq> 0 \<longrightarrow> unat n \<le> unat max_experts"
    using n(2) by (auto simp: n1_def word_le_nat_alt word_less_nat_alt split: if_splits)
  moreover have "limit \<noteq> 0 \<longrightarrow> target \<le> limit" by (auto simp: target_def)
  moreover have "non_routed \<le> target \<longrightarrow> unat non_routed + unat cache = unat target"
    by (auto simp: cache_def unat_sub word_le_nat_alt word_less_nat_alt)
  ultimately show ?thesis
    using n(1) u eff le by (simp add: p word_less_nat_alt)
qed

lemma ssd_auto_cache_plan_spec_witness:
  "\<exists>p. ssd_auto_cache_plan None 1000 80 0 100 30 0 = Some p \<and>
    unat (sp_effective_cache_bytes p) = unat (sp_cache_experts p) * 30 \<and> sp_cache_experts p = 23"
proof -
  obtain p where p: "ssd_auto_cache_plan None 1000 80 0 100 30 0 = Some p" "sp_cache_experts p = 23"
    by (simp add: ssd_auto_cache_plan_def ssd_auto_cache_percent_def Let_def)
  from ssd_auto_cache_plan_spec [OF p(1)] p show ?thesis by simp
qed

end
