(* ===== verification/Prompt_Prefix.thy ===== *)
theory Prompt_Prefix
  imports C_Text
begin

text \<open>
  The prompt prefix file (ds4_prompt_prefix.c): alternating \<open>USER:\<close> and \<open>ASSISTANT:\<close> turns.
  The scan works on positions in the data, as the code does; errors carry the line number.
\<close>

datatype pp_role = PP_user | PP_assistant

record pp_turn =
  pp_role :: pp_role
  pp_content :: string

datatype pp_error =
    PP_empty_file | PP_nul_byte | PP_bad_marker nat | PP_expected nat pp_role
  | PP_empty_turn nat pp_role | PP_no_turns | PP_must_end_assistant

definition pp_user :: string where "pp_user = ''USER:''"
definition pp_assistant :: string where "pp_assistant = ''ASSISTANT:''"

definition pp_marker_at :: "string \<Rightarrow> nat \<Rightarrow> (pp_role \<times> nat) option" where
  "pp_marker_at data pos =
     (if length pp_user \<le> length data - pos \<and> mslice pos (length pp_user) data = pp_user
      then Some (PP_user, length pp_user)
      else if length pp_assistant \<le> length data - pos \<and> mslice pos (length pp_assistant) data = pp_assistant
      then Some (PP_assistant, length pp_assistant)
      else None)"

text \<open>From the content on: where the next marker starts a line (or the end), and that line's number.\<close>

function pp_next :: "string \<Rightarrow> nat \<Rightarrow> nat \<Rightarrow> nat \<Rightarrow> nat \<times> nat" where
  "pp_next data i scan_line line =
     (if i < length data
      then if data ! i \<noteq> CHR ''\<newline>'' then pp_next data (Suc i) scan_line line
           else if i + 1 < length data \<and> pp_marker_at data (i + 1) \<noteq> None then (i + 1, Suc scan_line)
           else pp_next data (Suc i) (Suc scan_line) line
      else (length data, line))"
  by pat_completeness auto
termination by (relation "measure (\<lambda>(data, i, _). length data - i)") auto

declare pp_next.simps [simp del]

definition pp_content_end :: "string \<Rightarrow> nat \<Rightarrow> nat \<Rightarrow> nat" where
  "pp_content_end data start next_pos =
     (let e = next_pos
      in if start < e \<and> data ! (e - 1) = CHR ''\<newline>''
         then let e = e - 1 in if start < e \<and> data ! (e - 1) = CHR 0x0D then e - 1 else e
         else e)"

lemma pp_next_ge: "i \<le> length data \<Longrightarrow> pp_next data i sl l = (n, l') \<Longrightarrow> i \<le> n"
proof (induction data i sl l rule: pp_next.induct)
  case (1 data i sl l)
  then show ?case by (auto simp: pp_next.simps [of data i] split: if_splits)
qed

lemma pp_next_le: "pp_next data i sl l = (n, l') \<Longrightarrow> n \<le> length data"
proof (induction data i sl l rule: pp_next.induct)
  case (1 data i sl l)
  then show ?case by (auto simp: pp_next.simps [of data i] split: if_splits)
qed

lemma pp_marker_at_len: "pp_marker_at data pos = Some (r, m) \<Longrightarrow> pos < length data \<and> pos + m \<le> length data \<and> 0 < m"
  by (auto simp: pp_marker_at_def pp_user_def pp_assistant_def split: if_splits)

function pp_loop :: "string \<Rightarrow> nat \<Rightarrow> nat \<Rightarrow> pp_turn list \<Rightarrow> pp_error + pp_turn list" where
  "pp_loop data pos line turns =
     (if pos < length data
      then case pp_marker_at data pos of
          None \<Rightarrow> Inl (PP_bad_marker line)
        | Some (role, marker_len) \<Rightarrow>
            let expected = (if length turns mod 2 = 0 then PP_user else PP_assistant)
            in if role \<noteq> expected then Inl (PP_expected line expected)
               else let start = pos + marker_len;
                        start = (if start < length data \<and> (data ! start = CHR '' '' \<or> data ! start = CHR 0x09)
                                 then Suc start else start);
                        (nxt, next_line) = pp_next data start line line;
                        e = pp_content_end data start nxt
                    in if e = start then Inl (PP_empty_turn line role)
                       else let turns = turns @ [\<lparr>pp_role = role, pp_content = mslice start (e - start) data\<rparr>]
                            in if nxt = length data then pp_loop data (length data) line turns
                               else pp_loop data nxt next_line turns
      else Inr turns)"
  by pat_completeness auto
termination
proof (relation "measure (\<lambda>(data, pos, _). length data - pos)", goal_cases)
  case (3 data pos line turns x role marker_len expected start1 start y nxt next_line e turns')
  then have mk: "pp_marker_at data pos = Some (role, marker_len)" by simp
  from pp_marker_at_len [OF mk] have "start1 \<le> length data" "pos < start1"
    using 3 by auto
  then have "start \<le> length data" "pos < start" using 3 by (auto split: if_splits)
  with pp_next_ge [of start data line line nxt next_line] 3 show ?case by auto
qed auto

declare pp_loop.simps [simp del]

definition pp_parse :: "string option \<Rightarrow> pp_error + pp_turn list" where
  "pp_parse data_opt =
     (case data_opt of
        None \<Rightarrow> Inl PP_empty_file
      | Some data \<Rightarrow>
          if data = [] then Inl PP_empty_file
          else if CHR 0x00 \<in> set data then Inl PP_nul_byte
          else let pos = (if 3 \<le> length data \<and> data ! 0 = CHR 0xEF \<and> data ! 1 = CHR 0xBB \<and> data ! 2 = CHR 0xBF
                          then 3 else 0)
            in case pp_loop data pos 1 [] of
                 Inl e \<Rightarrow> Inl e
               | Inr turns \<Rightarrow>
                   if turns = [] then Inl PP_no_turns
                   else if pp_role (last turns) \<noteq> PP_assistant then Inl PP_must_end_assistant
                   else Inr turns)"

section \<open>What a parsed file holds\<close>

lemma pp_content_end_le: "start \<le> nxt \<Longrightarrow> start \<le> pp_content_end data start nxt \<and> pp_content_end data start nxt \<le> nxt"
  by (auto simp: pp_content_end_def Let_def)

definition pp_alternating :: "pp_turn list \<Rightarrow> bool" where
  "pp_alternating ts \<longleftrightarrow> (\<forall>i < length ts. pp_role (ts ! i) = (if i mod 2 = 0 then PP_user else PP_assistant) \<and>
     pp_content (ts ! i) \<noteq> [])"

lemma pp_alternating_snoc:
  "pp_alternating ts \<Longrightarrow> pp_role t = (if length ts mod 2 = 0 then PP_user else PP_assistant) \<Longrightarrow> pp_content t \<noteq> [] \<Longrightarrow>
    pp_alternating (ts @ [t])"
  by (auto simp: pp_alternating_def nth_append less_Suc_eq)

lemma pp_loop_alternating: "pp_alternating ts \<Longrightarrow> pp_loop data pos line ts = Inr ts' \<Longrightarrow> pp_alternating ts'"
proof (induction data pos line ts arbitrary: ts' rule: pp_loop.induct)
  case (1 data pos line ts)
  show ?case
  proof (cases "pos < length data")
    case False
    with "1.prems" show ?thesis by (simp add: pp_loop.simps [of data pos])
  next
    case True
    then obtain role m where mk: "pp_marker_at data pos = Some (role, m)"
      using "1.prems" by (auto simp: pp_loop.simps [of data pos] split: option.splits)
    define start where "start = (if pos + m < length data \<and> (data ! (pos + m) = CHR '' '' \<or> data ! (pos + m) = CHR 0x09)
      then Suc (pos + m) else pos + m)"
    obtain nxt nl where nx: "pp_next data start line line = (nxt, nl)" by fastforce
    define e where "e = pp_content_end data start nxt"
    let ?t = "\<lparr>pp_role = role, pp_content = mslice start (e - start) data\<rparr>"
    have role: "role = (if length ts mod 2 = 0 then PP_user else PP_assistant)" and e: "e \<noteq> start"
      and rec: "(if nxt = length data then pp_loop data (length data) line (ts @ [?t])
        else pp_loop data nxt nl (ts @ [?t])) = Inr ts'"
      using "1.prems"(2) True mk nx
      by (simp_all add: pp_loop.simps [of data pos] Let_def start_def [symmetric] e_def [symmetric] split: if_splits)
    have st: "start \<le> length data" using pp_marker_at_len [OF mk] by (simp add: start_def)
    have "nxt \<le> length data \<and> start \<le> nxt"
      using pp_next_le [OF nx] pp_next_ge [OF st nx] by blast
    with pp_content_end_le [of start nxt data] e have "start < e" "e \<le> length data" by (auto simp: e_def)
    then have "pp_content ?t \<noteq> []" by (simp add: mslice_def)
    with role have alt: "pp_alternating (ts @ [?t])"
      by (intro pp_alternating_snoc [OF "1.prems"(1)]) auto
    have "pp_loop data (length data) line (ts @ [?t]) = Inr (ts @ [?t])"
      by (simp add: pp_loop.simps [of data "length data"])
    moreover have "pp_alternating ts'" if "nxt \<noteq> length data" "pp_loop data nxt nl (ts @ [?t]) = Inr ts'"
      using "1.IH"(2) [OF True mk refl refl _ refl start_def nx [symmetric] refl e_def _ refl] role e alt that by simp
    ultimately show ?thesis using rec alt by (cases "nxt = length data") auto
  qed
qed

text \<open>A file that parses is a sequence of user and assistant turns in strict alternation, starting
  with the user and ending with the assistant, so an even number of turns, none of them empty.\<close>

theorem pp_parse_alternates:
  assumes "pp_parse data = Inr turns"
  shows "turns \<noteq> [] \<and> even (length turns) \<and> pp_alternating turns"
proof -
  obtain d pos where "pp_loop d pos 1 [] = Inr turns" and t: "turns \<noteq> []" "pp_role (last turns) = PP_assistant"
    using assms by (auto simp: pp_parse_def Let_def split: option.splits if_splits sum.splits)
  then have alt: "pp_alternating turns"
    using pp_loop_alternating [of "[]"] by (simp add: pp_alternating_def)
  have "(length turns - 1) mod 2 \<noteq> 0"
    using alt t by (auto simp: pp_alternating_def last_conv_nth split: if_splits)
  then have "even (length turns)" using t(1) by (cases "length turns") (auto simp: mod_Suc)
  with alt t show ?thesis by blast
qed

section \<open>Printing and parsing\<close>

definition pp_mark :: "string \<Rightarrow> (pp_role \<times> nat) option" where
  "pp_mark s = (if starts_with s pp_user then Some (PP_user, length pp_user)
     else if starts_with s pp_assistant then Some (PP_assistant, length pp_assistant) else None)"

lemma pp_marker_at_drop: "pp_marker_at data pos = pp_mark (drop pos data)"
proof -
  have "length p \<le> length data - pos \<and> mslice pos (length p) data = p \<longleftrightarrow> starts_with (drop pos data) p" for p
  proof -
    have "length p \<le> length data - pos" if "take (length p) (drop pos data) = p"
    proof -
      have "length (take (length p) (drop pos data)) = length p" using that by simp
      then show ?thesis by simp
    qed
    then show ?thesis unfolding starts_with_def mslice_def by blast
  qed
  then show ?thesis unfolding pp_marker_at_def pp_mark_def by presburger
qed

text \<open>No line of the content starts with a marker.\<close>

fun pp_clean :: "string \<Rightarrow> bool" where
  "pp_clean [] = True"
| "pp_clean (c # s) = ((c = CHR ''\<newline>'' \<longrightarrow> pp_mark s = None) \<and> pp_clean s)"

lemma starts_with_newline:
  "CHR ''\<newline>'' \<notin> set p \<Longrightarrow> starts_with (s @ CHR ''\<newline>'' # r) p \<longleftrightarrow> starts_with s p"
proof (induction p arbitrary: s)
  case (Cons c p)
  then show ?case by (cases s) (auto simp: starts_with_def)
qed (simp add: starts_with_def)

lemma pp_mark_newline: "pp_mark (s @ CHR ''\<newline>'' # r) = pp_mark s"
  by (simp add: pp_mark_def starts_with_newline pp_user_def pp_assistant_def)

lemma pp_mark_Nil [simp]: "pp_mark [] = None"
  by (simp add: pp_mark_def starts_with_def pp_user_def pp_assistant_def)

lemma pp_next_body:
  assumes "pp_clean content" and "rest = [] \<or> pp_mark rest \<noteq> None"
  shows "\<exists>l'. pp_next (pre @ content @ CHR ''\<newline>'' # rest) (length pre) sl l = (length pre + length content + 1, l')"
  using assms
proof (induction content arbitrary: pre sl l)
  case Nil
  show ?case
  proof (cases "rest = []")
    case True
    then show ?thesis
      by (simp add: pp_next.simps [of _ "length pre"] pp_next.simps [of _ "Suc (length pre)"] pp_marker_at_drop)
  next
    case False
    with Nil show ?thesis
      by (simp add: pp_next.simps [of _ "length pre"] pp_marker_at_drop)
  qed
next
  case (Cons c content)
  let ?data = "pre @ (c # content) @ CHR ''\<newline>'' # rest"
  have d: "?data ! length pre = c" "drop (Suc (length pre)) ?data = content @ CHR ''\<newline>'' # rest" by simp_all
  have m: "c = CHR ''\<newline>'' \<Longrightarrow> pp_marker_at ?data (Suc (length pre)) = None"
    using Cons.prems(1) unfolding pp_marker_at_drop d(2) pp_mark_newline by simp
  have step: "\<exists>sl'. pp_next ?data (length pre) sl l = pp_next ?data (Suc (length pre)) sl' l"
  proof -
    define D where "D = ?data"
    have "length pre < length D" "D ! length pre = c" by (simp_all add: D_def)
    moreover have "c = CHR ''\<newline>'' \<Longrightarrow> pp_marker_at D (Suc (length pre)) = None" using m by (simp add: D_def)
    ultimately have "\<exists>sl'. pp_next D (length pre) sl l = pp_next D (Suc (length pre)) sl' l"
      by (cases "c = CHR ''\<newline>''") (auto simp: pp_next.simps [of D "length pre"])
    then show ?thesis by (simp add: D_def)
  qed
  have "pp_clean content" using Cons.prems by simp
  from Cons.IH [OF this Cons.prems(2), of "pre @ [c]"] step show ?case by fastforce
qed

definition pp_marker :: "pp_role \<Rightarrow> string" where
  "pp_marker r = (case r of PP_user \<Rightarrow> pp_user | PP_assistant \<Rightarrow> pp_assistant)"

definition pp_show_turn :: "pp_turn \<Rightarrow> string" where
  "pp_show_turn t = pp_marker (pp_role t) @ '' '' @ pp_content t @ ''\<newline>''"

definition pp_show :: "pp_turn list \<Rightarrow> string" where
  "pp_show ts = concat (map pp_show_turn ts)"

definition pp_printable :: "pp_turn \<Rightarrow> bool" where
  "pp_printable t \<longleftrightarrow> pp_content t \<noteq> [] \<and> pp_clean (pp_content t) \<and> last (pp_content t) \<noteq> CHR 0x0D \<and>
     CHR 0x00 \<notin> set (pp_content t)"

lemma pp_mark_marker: "pp_mark (pp_marker r @ s) = Some (r, length (pp_marker r))"
  by (cases r) (simp_all add: pp_mark_def pp_marker_def starts_with_def pp_user_def pp_assistant_def)

lemma pp_show_mark: "pp_show ts = [] \<or> pp_mark (pp_show ts) \<noteq> None"
  by (cases ts) (simp_all add: pp_show_def pp_show_turn_def pp_mark_marker)

lemma pp_loop_show:
  assumes "list_all pp_printable ts" and "pp_alternating (done @ ts)"
  shows "pp_loop (pre @ pp_show ts) (length pre) line done = Inr (done @ ts)"
  using assms
proof (induction ts arbitrary: pre line "done")
  case Nil
  then show ?case by (simp add: pp_show_def pp_loop.simps [of pre "length pre"])
next
  case (Cons t ts)
  let ?m = "pp_marker (pp_role t)"
  let ?data = "pre @ pp_show (t # ts)"
  have data: "?data = (pre @ ?m @ '' '') @ pp_content t @ CHR ''\<newline>'' # pp_show ts"
    by (simp add: pp_show_def pp_show_turn_def)
  have t: "pp_content t \<noteq> []" "pp_clean (pp_content t)" "last (pp_content t) \<noteq> CHR 0x0D"
    using Cons.prems(1) by (auto simp: pp_printable_def)
  have mk: "pp_marker_at ?data (length pre) = Some (pp_role t, length ?m)"
    by (simp add: pp_marker_at_drop pp_show_def pp_show_turn_def pp_mark_marker)
  have role: "pp_role t = (if length done mod 2 = 0 then PP_user else PP_assistant)"
    using Cons.prems(2) by (auto simp: pp_alternating_def nth_append dest!: spec [of _ "length done"])
  define start where "start = length pre + length ?m + 1"
  have sp: "length pre + length ?m < length ?data" "?data ! (length pre + length ?m) = CHR '' ''"
    unfolding data by (simp_all add: nth_append)
  obtain l' where nx: "pp_next ?data start line line = (start + length (pp_content t) + 1, l')"
    using pp_next_body [OF t(2) pp_show_mark, of "pre @ ?m @ '' ''" ts line line] by (auto simp: data start_def)
  let ?e = "start + length (pp_content t)"
  have c: "?data ! ?e = CHR ''\<newline>''" unfolding data start_def by (simp add: nth_append)
  have "?data ! (?e - 1) = last (pp_content t)"
    using t(1) unfolding data start_def by (simp add: nth_append last_conv_nth)
  then have e: "pp_content_end ?data start (?e + 1) = ?e"
    using c t(3) by (simp add: pp_content_end_def)
  have body: "mslice start (length (pp_content t)) ?data = pp_content t"
    unfolding data start_def by (simp add: mslice_def)
  have turn: "\<lparr>pp_role = pp_role t, pp_content = mslice start (?e - start) ?data\<rparr> = t"
    using body by simp
  have len: "length ?data = start + length (pp_content t) + 1 + length (pp_show ts)"
    unfolding data start_def by simp
  have step: "pp_loop ?data (length pre) line done =
      (if ?e + 1 = length ?data then pp_loop ?data (length ?data) line (done @ [t])
       else pp_loop ?data (?e + 1) l' (done @ [t]))"
  proof -
    define D R m n where "D = ?data" and "R = pp_role t" and "m = length ?m" and "n = ?e + 1"
    have f: "length pre < length D" "pp_marker_at D (length pre) = Some (R, m)"
      "(if length done mod 2 = 0 then PP_user else PP_assistant) = R"
      "pp_next D start line line = (n, l')" "pp_content_end D start n = ?e" "?e \<noteq> start"
      "\<lparr>pp_role = R, pp_content = mslice start (?e - start) D\<rparr> = t"
      using sp mk role nx e turn t(1) by (auto simp: D_def R_def m_def n_def)
    have st: "(if length pre + m < length D \<and> (D ! (length pre + m) = CHR '' '' \<or>
        D ! (length pre + m) = CHR 0x09) then Suc (length pre + m) else length pre + m) = start"
      using sp by (simp add: start_def D_def m_def)
    show ?thesis
      unfolding D_def [symmetric] n_def [symmetric]
      by (subst pp_loop.simps) (simp only: f st Let_def if_True option.case prod.case if_False not_True_eq_False simp_thms)
  qed
  have IH: "pp_loop ?data (?e + 1) ln (done @ [t]) = Inr (done @ t # ts)" for ln
    using Cons.IH [of "done @ [t]" "(pre @ ?m @ '' '') @ pp_content t @ ''\<newline>''" ln] Cons.prems
    by (simp add: data start_def add.assoc)
  show ?case unfolding step using IH by (metis)
qed

text \<open>Printing turns and parsing the file gives the turns back, for any alternating conversation
  whose contents are not empty, hold no NUL, do not end in a carriage return and have no line that
  starts with a marker.\<close>

theorem pp_parse_show:
  assumes "list_all pp_printable ts" and "pp_alternating ts" and "ts \<noteq> []" and "even (length ts)"
  shows "pp_parse (Some (pp_show ts)) = Inr ts"
proof -
  obtain t ts' where ts: "ts = t # ts'" using assms(3) by (cases ts) auto
  have r: "pp_role t = PP_user" using assms(2) by (auto simp: pp_alternating_def ts)
  then have hd: "pp_show ts \<noteq> []" "pp_show ts ! 0 = CHR ''U''"
    by (simp_all add: ts pp_show_def pp_show_turn_def pp_marker_def pp_user_def)
  have "CHR 0x00 \<notin> set (pp_show ts)"
    using assms(1) by (auto simp: pp_show_def pp_show_turn_def pp_printable_def list_all_iff pp_marker_def
        pp_user_def pp_assistant_def split: pp_role.splits)
  moreover have "pp_loop (pp_show ts) 0 1 [] = Inr ts"
    using pp_loop_show [of ts "[]" "[]" 1] assms by simp
  moreover have "pp_role (last ts) = PP_assistant"
  proof -
    have "odd (length ts - 1)" using assms(3,4) by (cases ts) auto
    then have "(length ts - 1) mod 2 \<noteq> 0" by (metis odd_iff_mod_2_eq_one zero_neq_one)
    moreover have "length ts - 1 < length ts" using assms(3) by simp
    ultimately show ?thesis
      using assms(2,3) unfolding pp_alternating_def last_conv_nth [OF assms(3)] by presburger
  qed
  ultimately show ?thesis using hd assms(3) by (simp add: pp_parse_def Let_def)
qed

lemma pp_parse_show_witness:
  "pp_parse (Some (pp_show [\<lparr>pp_role = PP_user, pp_content = ''hi''\<rparr>, \<lparr>pp_role = PP_assistant, pp_content = ''yes''\<rparr>])) =
   Inr [\<lparr>pp_role = PP_user, pp_content = ''hi''\<rparr>, \<lparr>pp_role = PP_assistant, pp_content = ''yes''\<rparr>]"
  by (rule pp_parse_show)
    (auto simp: pp_printable_def pp_alternating_def less_Suc_eq numeral_2_eq_2)

lemma pp_parse_alternates_witness:
  "pp_parse (Some ''USER: hi\<newline>ASSISTANT: yes'') = Inr [\<lparr>pp_role = PP_user, pp_content = ''hi''\<rparr>,
     \<lparr>pp_role = PP_assistant, pp_content = ''yes''\<rparr>] \<and>
   even (length [\<lparr>pp_role = PP_user, pp_content = ''hi''\<rparr>, \<lparr>pp_role = PP_assistant, pp_content = ''yes''\<rparr>])"
proof -
  have p: "pp_parse (Some ''USER: hi\<newline>ASSISTANT: yes'') = Inr [\<lparr>pp_role = PP_user, pp_content = ''hi''\<rparr>,
     \<lparr>pp_role = PP_assistant, pp_content = ''yes''\<rparr>]"
    by code_simp
  from pp_parse_alternates [OF p] p show ?thesis by simp
qed

end
