(* ===== verification/Engram_Hash.thy ===== *)
theory Engram_Hash
  imports Ds4_Prelude
begin

text \<open>
  The n-gram hash of ds4_engram.c: the layout check (\<open>ds4_engram_layout_valid\<close>), the history
  (\<open>ds4_engram_history_reset\<close>) and the hash of a run of tokens (\<open>ds4_engram_hash\<close>), which turns
  every token and the three before it into 24 table rows for each of the two layers.

  Token ids and history slots are C \<open>int\<close> values, hence \<open>int\<close>; the slot -1 is
  \<open>DS4_ENGRAM_DEAD\<close>. Everything hashed is a machine word. The arrays of the layout are lists;
  a null pointer is \<open>None\<close>.
\<close>

section \<open>Layout and history\<close>

definition ENGRAM_LAYERS :: nat where "ENGRAM_LAYERS = 2"
definition ENGRAM_NGRAM :: nat where "ENGRAM_NGRAM = 4"
definition ENGRAM_HEADS :: nat where "ENGRAM_HEADS = 8"
definition ENGRAM_COLS :: nat where "ENGRAM_COLS = 24"
definition ENGRAM_DEAD :: int where "ENGRAM_DEAD = -1"

lemmas engram_consts = ENGRAM_LAYERS_def ENGRAM_NGRAM_def ENGRAM_HEADS_def ENGRAM_COLS_def ENGRAM_DEAD_def

record engram_layout =
  el_token_map :: "u32 list option"
  el_vocab_size :: u32
  el_compressed_vocab_size :: u32
  el_pad_id :: u32
  el_rows :: "u32 list"
  el_multipliers :: "u64 list list"
  el_primes :: "u32 list list"

definition engram_multiplier_ok :: "u32 \<Rightarrow> u64 \<Rightarrow> bool" where
  "engram_multiplier_ok compressed m \<longleftrightarrow> m AND 1 \<noteq> 0 \<and> m \<le> 0x7FFFFFFFFFFFFFFF div ucast compressed"

definition engram_layer_ok :: "engram_layout \<Rightarrow> nat \<Rightarrow> bool" where
  "engram_layer_ok l layer \<longleftrightarrow>
     list_all (engram_multiplier_ok (el_compressed_vocab_size l)) (el_multipliers l ! layer) \<and>
     list_all (\<lambda>p. 2 \<le> p) (el_primes l ! layer) \<and>
     sum_list (map ucast (el_primes l ! layer)) = (ucast (el_rows l ! layer) :: u64)"

definition engram_layout_valid :: "engram_layout \<Rightarrow> bool" where
  "engram_layout_valid l \<longleftrightarrow>
     (case el_token_map l of
        None \<Rightarrow> False
      | Some token_map \<Rightarrow>
          el_vocab_size l \<noteq> 0 \<and> el_compressed_vocab_size l \<noteq> 0 \<and>
          el_compressed_vocab_size l \<le> 0x7FFFFFFF \<and> el_pad_id l < el_compressed_vocab_size l \<and>
          list_all (\<lambda>m. m < el_compressed_vocab_size l) (take (unat (el_vocab_size l)) token_map) \<and>
          list_all (engram_layer_ok l) [0..<ENGRAM_LAYERS])"

text \<open>The sizes the C type fixes, and the promise that the map covers the vocabulary.\<close>

definition engram_layout_shape :: "engram_layout \<Rightarrow> bool" where
  "engram_layout_shape l \<longleftrightarrow>
     (case el_token_map l of None \<Rightarrow> True | Some m \<Rightarrow> length m = unat (el_vocab_size l)) \<and>
     length (el_rows l) = ENGRAM_LAYERS \<and>
     length (el_multipliers l) = ENGRAM_LAYERS \<and> length (el_primes l) = ENGRAM_LAYERS \<and>
     list_all (\<lambda>ms. length ms = ENGRAM_NGRAM) (el_multipliers l) \<and>
     list_all (\<lambda>ps. length ps = ENGRAM_COLS) (el_primes l)"

definition engram_history_reset :: "int list" where
  "engram_history_reset = replicate (ENGRAM_NGRAM - 1) ENGRAM_DEAD"

section \<open>The hash\<close>

text \<open>The n-gram ids, newest first: from the first dead slot on they are the pad id.\<close>

fun engram_ids :: "u32 \<Rightarrow> bool \<Rightarrow> int list \<Rightarrow> u32 list" where
  "engram_ids pad blocked [] = []"
| "engram_ids pad blocked (i # ids) =
     (let blocked = (blocked \<or> i = ENGRAM_DEAD)
      in (if blocked then pad else of_int i) # engram_ids pad blocked ids)"

text \<open>The heads of one n-gram length, then the lengths of one layer; the offset runs on.\<close>

fun engram_heads :: "u64 \<Rightarrow> u32 \<Rightarrow> u32 list \<Rightarrow> u32 list \<times> u32" where
  "engram_heads h offset [] = ([], offset)"
| "engram_heads h offset (prime # ps) =
     (let row = ucast (h mod ucast prime) + offset;
          (rows, offset) = engram_heads h (offset + prime) ps
      in (row # rows, offset))"

fun engram_grams :: "u64 \<Rightarrow> u32 \<Rightarrow> (u32 \<times> u64) list \<Rightarrow> u32 list \<Rightarrow> u32 list" where
  "engram_grams h offset [] primes = []"
| "engram_grams h offset ((i, m) # rest) primes =
     (let h = h XOR (ucast i * m);
          (rows, offset) = engram_heads h offset (take ENGRAM_HEADS primes)
      in rows @ engram_grams h offset rest (drop ENGRAM_HEADS primes))"

definition engram_layer_rows :: "engram_layout \<Rightarrow> u32 list \<Rightarrow> nat \<Rightarrow> u32 list" where
  "engram_layer_rows l ids layer =
     (let ms = el_multipliers l ! layer
      in engram_grams (ucast (hd ids) * hd ms) 0 (zip (tl ids) (tl ms)) (el_primes l ! layer))"

text \<open>One position: its rows for every layer, and the history after it.\<close>

definition engram_position :: "engram_layout \<Rightarrow> int list \<Rightarrow> int \<Rightarrow> u32 list \<times> int list" where
  "engram_position l tail current =
     (let ids = engram_ids (el_pad_id l) False (current # tail)
      in (concat (map (engram_layer_rows l ids) [0..<ENGRAM_LAYERS]),
          take (ENGRAM_NGRAM - 1) (current # tail)))"

fun engram_positions :: "engram_layout \<Rightarrow> int list \<Rightarrow> int list \<Rightarrow> u32 list list \<times> int list" where
  "engram_positions l tail [] = ([], tail)"
| "engram_positions l tail (c # cs) =
     (let (r, tail) = engram_position l tail c; (rs, tail) = engram_positions l tail cs
      in (r # rs, tail))"

definition engram_history_ok :: "engram_layout \<Rightarrow> int list \<Rightarrow> bool" where
  "engram_history_ok l tail \<longleftrightarrow>
     list_all (\<lambda>t. ENGRAM_DEAD \<le> t \<and> \<not> (0 \<le> t \<and> el_compressed_vocab_size l \<le> of_int t)) tail"

definition engram_tokens_ok :: "engram_layout \<Rightarrow> int list \<Rightarrow> bool" where
  "engram_tokens_ok l tokens \<longleftrightarrow> list_all (\<lambda>t. 0 \<le> t \<and> \<not> el_vocab_size l \<le> of_int t) tokens"

text \<open>The compressed id of every position, dead where the mask is zero; \<open>(int32_t)\<close> wraps.\<close>

definition engram_current :: "u32 list \<Rightarrow> u8 list option \<Rightarrow> int list \<Rightarrow> int list" where
  "engram_current token_map msk tokens =
     (case msk of
        None \<Rightarrow> map (\<lambda>t. sint (token_map ! nat t)) tokens
      | Some ms \<Rightarrow> map2 (\<lambda>m t. if m = 0 then ENGRAM_DEAD else sint (token_map ! nat t)) ms tokens)"

text \<open>\<open>None\<close> is the result false; the count is the length of the token list.\<close>

definition engram_hash ::
  "engram_layout \<Rightarrow> int list \<Rightarrow> int list \<Rightarrow> u8 list option \<Rightarrow> (u32 list \<times> int list) option" where
  "engram_hash l tail tokens msk =
     (case el_token_map l of
        None \<Rightarrow> None
      | Some token_map \<Rightarrow>
          if (2 ^ 64 - 1) div (ENGRAM_LAYERS * ENGRAM_COLS * 4) < length tokens then None
          else if \<not> engram_history_ok l tail then None
          else if \<not> engram_tokens_ok l tokens then None
          else let (rows, tail) = engram_positions l tail (engram_current token_map msk tokens)
               in Some (concat rows, tail))"

section \<open>Facts about one position\<close>

lemma unat_u32_less: "unat (x :: u32) < 2 ^ 32"
proof -
  have "unat x < 2 ^ LENGTH(32)" by (rule unsigned_less)
  then show ?thesis by simp
qed

lemma engram_ids_live:
  "engram_ids pad False xs =
    map of_int (takeWhile (\<lambda>i. i \<noteq> ENGRAM_DEAD) xs) @
    replicate (length xs - length (takeWhile (\<lambda>i. i \<noteq> ENGRAM_DEAD) xs)) pad"
proof -
  have blocked: "engram_ids pad True ys = replicate (length ys) pad" for ys by (induction ys) auto
  show ?thesis by (induction xs) (auto simp: blocked)
qed

lemma length_engram_ids [simp]: "length (engram_ids pad b xs) = length xs"
  by (induction xs arbitrary: b) (auto simp: Let_def)

lemma engram_heads_length [simp]: "length (fst (engram_heads h off ps)) = length ps"
  by (induction h off ps rule: engram_heads.induct) (auto simp: Let_def split: prod.splits)

lemma engram_heads_offset [simp]: "snd (engram_heads h off ps) = off + sum_list ps"
  by (induction h off ps rule: engram_heads.induct) (auto simp: Let_def ac_simps split: prod.splits)

text \<open>The offset does not wrap while the true sum of the primes has 32 bits.\<close>

lemma engram_heads_nth:
  assumes "unat off + sum_list (map unat ps) < 2 ^ 32" and "\<forall>p \<in> set ps. 2 \<le> p" and "c < length ps"
  shows "unat off + sum_list (map unat (take c ps)) \<le> unat (fst (engram_heads h off ps) ! c) \<and>
    unat (fst (engram_heads h off ps) ! c) < unat off + sum_list (map unat (take (Suc c) ps))"
  using assms
proof (induction h off ps arbitrary: c rule: engram_heads.induct)
  case (2 h off prime ps)
  obtain rows off' where r: "engram_heads h (off + prime) ps = (rows, off')" by fastforce
  have off: "unat (off + prime) = unat off + unat prime"
    using "2.prems"(1) by (intro unat_add_lem [THEN iffD1]) simp
  have pos: "0 < unat prime"
    using "2.prems"(2) by (auto simp: word_le_nat_alt)
  have up: "unat (ucast prime :: u64) = unat prime" by (rule unat_ucast_up) simp
  have m: "unat (h mod ucast prime) < unat prime" by (simp add: unat_mod up pos)
  have dn: "unat (ucast (h mod ucast prime) :: u32) = unat (h mod ucast prime)"
    using order.strict_trans [OF m unsigned_less [of prime]]
    by (simp add: unsigned_ucast_eq take_bit_nat_eq_self)
  have row: "unat (ucast (h mod ucast prime) + off) = unat (h mod ucast prime) + unat off"
    using m "2.prems"(1) dn by (subst unat_add_lem [THEN iffD1]) auto
  show ?case
  proof (cases c)
    case 0
    then show ?thesis using row m r by simp
  next
    case (Suc d)
    have "unat (off + prime) + sum_list (map unat (take d ps)) \<le> unat (rows ! d) \<and>
        unat (rows ! d) < unat (off + prime) + sum_list (map unat (take (Suc d) ps))"
      using "2.IH" [OF refl, of d] "2.prems" Suc off r by simp
    then show ?thesis using Suc r off by (simp add: ac_simps)
  qed
qed simp

lemma engram_grams_step:
  "engram_grams h off ((i, m) # rest) ps =
    fst (engram_heads (h XOR (ucast i * m)) off (take 8 ps)) @
    engram_grams (h XOR (ucast i * m)) (off + sum_list (take 8 ps)) rest (drop 8 ps)"
  using engram_heads_offset [of "h XOR (ucast i * m)" off "take 8 ps"]
  by (cases "engram_heads (h XOR (ucast i * m)) off (take 8 ps)") (simp add: Let_def engram_consts)

declare engram_grams.simps(2) [simp del]

lemma engram_grams_length:
  "length ims * 8 \<le> length ps \<Longrightarrow> length (engram_grams h off ims ps) = length ims * 8"
  by (induction ims arbitrary: h off ps) (auto simp: engram_grams_step)

lemma unat_add_sum_list:
  fixes x :: u32
  shows "unat x + sum_list (map unat xs) < 2 ^ 32 \<Longrightarrow> unat (x + sum_list xs) = unat x + sum_list (map unat xs)"
proof (induction xs arbitrary: x)
  case (Cons y ys)
  have "unat (x + y) = unat x + unat y" using Cons.prems by (intro unat_add_lem [THEN iffD1]) simp
  then show ?case using Cons.IH [of "x + y"] Cons.prems by (simp add: ac_simps)
qed simp

lemma engram_grams_nth:
  assumes "unat off + sum_list (map unat ps) < 2 ^ 32" and "\<forall>p \<in> set ps. 2 \<le> p"
    and "length ims * 8 \<le> length ps" and "c < length ims * 8"
  shows "unat off + sum_list (map unat (take c ps)) \<le> unat (engram_grams h off ims ps ! c) \<and>
    unat (engram_grams h off ims ps ! c) < unat off + sum_list (map unat (take (Suc c) ps))"
  using assms
proof (induction ims arbitrary: h off ps c)
  case (Cons im rest)
  obtain i m where im: "im = (i, m)" by fastforce
  define h' where "h' = h XOR (ucast i * m)"
  define g where "g = take 8 ps"
  define d where "d = drop 8 ps"
  define rows where "rows = fst (engram_heads h' off g)"
  have ps: "ps = g @ d" by (simp add: g_def d_def)
  have lg: "length g = 8" using Cons.prems by (simp add: g_def)
  have step: "engram_grams h off (im # rest) ps = rows @ engram_grams h' (off + sum_list g) rest d"
    unfolding im engram_grams_step rows_def h'_def g_def d_def ..
  have len: "length rows = 8" by (simp add: rows_def lg)
  have all: "sum_list (map unat ps) = sum_list (map unat g) + sum_list (map unat d)" by (simp add: ps)
  have uoff: "unat (off + sum_list g) = unat off + sum_list (map unat g)"
    using Cons.prems(1) all by (intro unat_add_sum_list) simp
  show ?case
  proof (cases "c < 8")
    case True
    have "unat off + sum_list (map unat (take c g)) \<le> unat (rows ! c) \<and>
        unat (rows ! c) < unat off + sum_list (map unat (take (Suc c) g))"
      unfolding rows_def using Cons.prems(1,2) all True lg
      by (intro engram_heads_nth) (auto simp: ps)
    then show ?thesis using step len True by (simp add: nth_append ps lg)
  next
    case False
    have "unat (off + sum_list g) + sum_list (map unat (take (c - 8) d)) \<le>
          unat (engram_grams h' (off + sum_list g) rest d ! (c - 8)) \<and>
        unat (engram_grams h' (off + sum_list g) rest d ! (c - 8)) <
          unat (off + sum_list g) + sum_list (map unat (take (Suc (c - 8)) d))"
      using Cons.prems all uoff False by (intro Cons.IH) (auto simp: ps lg)
    moreover have "Suc c - 8 = Suc (c - 8)" using False by simp
    ultimately show ?thesis using step len False uoff
      by (simp add: nth_append ps lg ac_simps del: diff_Suc_Suc)
  qed
qed simp

section \<open>Properties\<close>

lemma engram_valid_layer:
  assumes "engram_layout_valid l" and "engram_layout_shape l" and "layer < 2"
  shows "sum_list (map unat (el_primes l ! layer)) = unat (el_rows l ! layer)"
    and "\<forall>p \<in> set (el_primes l ! layer). 2 \<le> p" and "length (el_primes l ! layer) = 24"
    and "length (el_multipliers l ! layer) = 4"
proof -
  show lens: "length (el_primes l ! layer) = 24" "length (el_multipliers l ! layer) = 4"
    using assms(2,3) by (auto simp: engram_layout_shape_def list_all_length engram_consts)
  have ok: "engram_layer_ok l layer"
    using assms(1,3) by (auto simp: engram_layout_valid_def list_all_iff engram_consts split: option.splits)
  then show "\<forall>p \<in> set (el_primes l ! layer). 2 \<le> p" by (simp add: engram_layer_ok_def list_all_iff)
  have small: "sum_list (map unat (ps :: u32 list)) \<le> length ps * 2 ^ 32" for ps
  proof (induction ps)
    case (Cons p ps)
    then show ?case using unat_u32_less [of p] by simp
  qed simp
  have sum: "sum_list (map unat ps) < 2 ^ 64 \<Longrightarrow>
      unat (sum_list (map ucast ps) :: u64) = sum_list (map unat ps)" for ps :: "u32 list"
  proof (induction ps)
    case (Cons p ps)
    have "unat (ucast p :: u64) = unat p" by (rule unat_ucast_up) simp
    then show ?case using Cons by (simp add: unat_add_lem [THEN iffD1])
  qed simp
  have "sum_list (map unat (el_primes l ! layer)) < 2 ^ 64"
    using small [of "el_primes l ! layer"] lens by simp
  then have "sum_list (map unat (el_primes l ! layer)) = unat (ucast (el_rows l ! layer) :: u64)"
    using ok sum by (metis engram_layer_ok_def)
  then show "sum_list (map unat (el_primes l ! layer)) = unat (el_rows l ! layer)"
    by (simp add: unat_ucast_up)
qed

definition engram_slice_ok :: "u32 list \<Rightarrow> nat \<Rightarrow> u32 \<Rightarrow> bool" where
  "engram_slice_ok primes col row \<longleftrightarrow>
     sum_list (map unat (take col primes)) \<le> unat row \<and>
     unat row < sum_list (map unat (take (Suc col) primes))"

lemma engram_layer_rows_ok:
  assumes "engram_layout_valid l" and "engram_layout_shape l" and "layer < 2" and "length ids = 4"
  shows "length (engram_layer_rows l ids layer) = 24"
    and "col < 24 \<Longrightarrow> engram_slice_ok (el_primes l ! layer) col (engram_layer_rows l ids layer ! col)"
proof -
  note v = engram_valid_layer [OF assms(1-3)]
  let ?ims = "zip (tl ids) (tl (el_multipliers l ! layer))"
  have len: "length ?ims = 3" using v assms(4) by simp
  then show "length (engram_layer_rows l ids layer) = 24"
    using v by (simp add: engram_layer_rows_def Let_def engram_grams_length)
  have "unat (el_rows l ! layer) < 2 ^ 32" by (rule unat_u32_less)
  then show "col < 24 \<Longrightarrow> engram_slice_ok (el_primes l ! layer) col (engram_layer_rows l ids layer ! col)"
    using engram_grams_nth [of 0 "el_primes l ! layer" ?ims col] v len
    by (simp add: engram_layer_rows_def Let_def engram_slice_ok_def)
qed

lemma engram_position_history [simp]: "snd (engram_position l tail c) = take 3 (c # tail)"
  by (simp add: engram_position_def Let_def engram_consts)

lemma engram_positions_Cons:
  "engram_positions l tail (c # cs) =
    (fst (engram_position l tail c) # fst (engram_positions l (take 3 (c # tail)) cs),
     snd (engram_positions l (take 3 (c # tail)) cs))"
  using engram_position_history [of l tail c]
  by (cases "engram_position l tail c") (auto simp: Let_def split: prod.splits)

declare engram_positions.simps(2) [simp del]
declare engram_positions_Cons [simp]

lemma engram_positions_append:
  "engram_positions l tail (a @ b) =
    (fst (engram_positions l tail a) @ fst (engram_positions l (snd (engram_positions l tail a)) b),
     snd (engram_positions l (snd (engram_positions l tail a)) b))"
  by (induction a arbitrary: tail) auto

lemma engram_positions_length [simp]: "length (fst (engram_positions l tail cs)) = length cs"
  by (induction cs arbitrary: tail) auto

lemma engram_positions_history_length:
  "length tail = 3 \<Longrightarrow> length (snd (engram_positions l tail cs)) = 3"
  by (induction cs arbitrary: tail) auto

lemma engram_position_nth:
  assumes "engram_layout_valid l" and "engram_layout_shape l" and "length tail = 3"
  shows "length (fst (engram_position l tail c)) = 48"
    and "layer < 2 \<Longrightarrow> col < 24 \<Longrightarrow>
      engram_slice_ok (el_primes l ! layer) col (fst (engram_position l tail c) ! (layer * 24 + col))"
proof -
  define ids where "ids = engram_ids (el_pad_id l) False (c # tail)"
  have ids: "length ids = 4" by (simp add: ids_def assms del: engram_ids.simps)
  have rows: "fst (engram_position l tail c) = engram_layer_rows l ids 0 @ engram_layer_rows l ids 1"
    by (simp add: engram_position_def engram_consts ids_def Let_def numeral_2_eq_2 del: engram_ids.simps)
  note ok = engram_layer_rows_ok [OF assms(1,2) _ ids]
  show "length (fst (engram_position l tail c)) = 48" unfolding rows using ok(1) by simp
  show "engram_slice_ok (el_primes l ! layer) col (fst (engram_position l tail c) ! (layer * 24 + col))"
    if "layer < 2" "col < 24"
  proof (cases "layer = 0")
    case True
    then show ?thesis unfolding rows using ok(1,2) [of 0] that by (simp add: nth_append)
  next
    case False
    then have "layer = 1" using that by simp
    then show ?thesis unfolding rows using ok(1) [of 0] ok(2) [of 1] that by (simp add: nth_append)
  qed
qed

lemma engram_positions_nth:
  assumes "engram_layout_valid l" and "engram_layout_shape l" and "length tail = 3"
    and "i < length cs" and "layer < 2" and "col < 24"
  shows "engram_slice_ok (el_primes l ! layer) col
      (concat (fst (engram_positions l tail cs)) ! (48 * i + layer * 24 + col))"
    and "length (concat (fst (engram_positions l tail cs))) = 48 * length cs"
proof -
  have "length (concat (fst (engram_positions l tail cs))) = 48 * length cs \<and>
    (i < length cs \<longrightarrow> engram_slice_ok (el_primes l ! layer) col
      (concat (fst (engram_positions l tail cs)) ! (48 * i + layer * 24 + col)))"
    using assms(3)
  proof (induction cs arbitrary: tail i)
    case (Cons c cs)
    define t where "t = take 3 (c # tail)"
    note pos = engram_position_nth [OF assms(1,2) Cons.prems, where c = c]
    have "length t = 3" by (simp add: t_def Cons.prems)
    note IH = Cons.IH [OF this, of "i - 1"]
    have step: "concat (fst (engram_positions l tail (c # cs))) =
        fst (engram_position l tail c) @ concat (fst (engram_positions l t cs))"
      by (simp add: t_def)
    show ?case
    proof (cases i)
      case 0
      then show ?thesis unfolding step using pos(1) pos(2) [OF assms(5,6)] IH assms(5,6)
        by (simp add: nth_append)
    next
      case (Suc j)
      then show ?thesis unfolding step using pos(1) IH by (simp add: nth_append add.assoc)
    qed
  qed simp
  then show "engram_slice_ok (el_primes l ! layer) col
      (concat (fst (engram_positions l tail cs)) ! (48 * i + layer * 24 + col))"
    and "length (concat (fst (engram_positions l tail cs))) = 48 * length cs" using assms(4) by auto
qed

lemma engram_current_length:
  "length (engram_current m msk tokens) =
    (case msk of None \<Rightarrow> length tokens | Some ms \<Rightarrow> min (length ms) (length tokens))"
  by (simp add: engram_current_def split: option.splits)

text \<open>C37. For a valid layout every row the hash returns lies in the slice of the table that belongs to
  its column: slices of one layer follow each other, each as long as its prime, and end at the
  table's last row, so no row is out of range and two columns never share a row.\<close>

theorem engram_hash_in_table:
  assumes "engram_layout_valid l" and "engram_layout_shape l" and "length tail = 3"
    and "engram_hash l tail tokens msk = Some (rows, tail')"
    and "case msk of None \<Rightarrow> True | Some ms \<Rightarrow> length ms = length tokens"
    and "i < length tokens" and "layer < 2" and "col < 24"
  shows "length rows = 48 * length tokens \<and>
    engram_slice_ok (el_primes l ! layer) col (rows ! (48 * i + layer * 24 + col)) \<and>
    unat (rows ! (48 * i + layer * 24 + col)) < unat (el_rows l ! layer)"
proof -
  obtain m where m: "el_token_map l = Some m" using assms(4) by (auto simp: engram_hash_def split: option.splits)
  let ?cs = "engram_current m msk tokens"
  have len: "length ?cs = length tokens" using assms(5) by (auto simp: engram_current_length split: option.splits)
  have rows: "rows = concat (fst (engram_positions l tail ?cs))"
    using assms(4) m by (auto simp: engram_hash_def Let_def split: prod.splits if_splits)
  have i: "i < length ?cs" using assms(6) len by simp
  have v: "sum_list (map unat (el_primes l ! layer)) = unat (el_rows l ! layer)"
    "length (el_primes l ! layer) = 24"
    using engram_valid_layer [OF assms(1,2,7)] by auto
  have le: "sum_list (map unat (take (Suc col) ps)) \<le> sum_list (map unat ps)" for ps :: "u32 list"
    by (metis append_take_drop_id le_add1 map_append sum_list_append)
  have slice: "engram_slice_ok (el_primes l ! layer) col (rows ! (48 * i + layer * 24 + col))"
    "length rows = 48 * length tokens"
    unfolding rows len [symmetric] by (rule engram_positions_nth [OF assms(1-3) i assms(7,8)])+
  moreover have "unat (rows ! (48 * i + layer * 24 + col)) < unat (el_rows l ! layer)"
    using slice(1) le [of "el_primes l ! layer"] v(1) by (simp add: engram_slice_ok_def)
  ultimately show ?thesis by simp
qed

definition engram_demo :: engram_layout where
  "engram_demo = \<lparr>el_token_map = Some [0, 1, 2], el_vocab_size = 3, el_compressed_vocab_size = 3,
     el_pad_id = 0, el_rows = [48, 72], el_multipliers = [[1, 3, 5, 7], [9, 11, 13, 15]],
     el_primes =
      [[2, 2, 2, 2, 2, 2, 2, 2, 2, 2, 2, 2, 2, 2, 2, 2, 2, 2, 2, 2, 2, 2, 2, 2],
       [3, 3, 3, 3, 3, 3, 3, 3, 3, 3, 3, 3, 3, 3, 3, 3, 3, 3, 3, 3, 3, 3, 3, 3]]\<rparr>"

lemma engram_demo_ok: "engram_layout_valid engram_demo" "engram_layout_shape engram_demo"
proof -
  have "[0..<2] = [0, 1::nat]" by (simp add: upt_rec)
  then show "engram_layout_valid engram_demo" "engram_layout_shape engram_demo"
    by (simp_all add: engram_layout_valid_def engram_layout_shape_def engram_demo_def engram_layer_ok_def
        engram_multiplier_ok_def engram_consts word_le_nat_alt)
qed

lemma engram_history_reset_eq: "engram_history_reset = [-1, -1, -1]"
  by (simp add: engram_history_reset_def engram_consts numeral_3_eq_3)

lemma engram_hash_Some:
  assumes "el_token_map l = Some m" and "length tokens * 192 < 2 ^ 64"
    and "engram_history_ok l tail" and "engram_tokens_ok l tokens"
  shows "engram_hash l tail tokens msk =
    Some (concat (fst (engram_positions l tail (engram_current m msk tokens))),
      snd (engram_positions l tail (engram_current m msk tokens)))"
proof -
  have "\<not> (2 ^ 64 - 1) div (ENGRAM_LAYERS * ENGRAM_COLS * 4) < length tokens"
    using assms(2) by (simp add: engram_consts)
  then show ?thesis using assms by (simp add: engram_hash_def Let_def split: prod.splits)
qed

theorem engram_hash_in_table_witness:
  "unat (fst (the (engram_hash engram_demo engram_history_reset [1, 2, 0, 2] None)) ! (48 * 3 + 24 + 23)) < 72"
proof -
  let ?r = "engram_hash engram_demo engram_history_reset [1, 2, 0, 2] None"
  have "?r \<noteq> None"
    by (simp add: engram_hash_def engram_demo_def engram_history_ok_def engram_tokens_ok_def
        engram_history_reset_eq engram_consts Let_def word_le_nat_alt split: prod.splits)
  then obtain rows tail' where r: "?r = Some (rows, tail')" by auto
  have h: "length engram_history_reset = 3" by (simp add: engram_history_reset_def engram_consts)
  show ?thesis
    using engram_hash_in_table [OF engram_demo_ok h r, of 3 1 23] r
    by (simp add: engram_demo_def)
qed

text \<open>The history carries everything: hashing a run of tokens in two pieces gives the same rows and
  the same history as hashing it at once, with or without a mask.\<close>

theorem engram_hash_chunks:
  assumes "engram_hash l tail a (map_option (take (length a)) msk) = Some (r1, t1)"
    and "engram_hash l t1 b (map_option (drop (length a)) msk) = Some (r2, t2)"
    and "length (a @ b) * 192 < 2 ^ 64" and "case msk of None \<Rightarrow> True | Some ms \<Rightarrow> length ms = length (a @ b)"
  shows "engram_hash l tail (a @ b) msk = Some (r1 @ r2, t2)"
proof -
  obtain m where m: "el_token_map l = Some m" using assms(1) by (auto simp: engram_hash_def split: option.splits)
  have cur: "engram_current m msk (a @ b) =
      engram_current m (map_option (take (length a)) msk) a @ engram_current m (map_option (drop (length a)) msk) b"
  proof (cases msk)
    case (Some ms)
    define x where "x = take (length a) ms"
    define y where "y = drop (length a) ms"
    have "ms = x @ y" "length x = length a" "length y = length b"
      using Some assms(4) by (auto simp: x_def y_def)
    then show ?thesis using Some by (simp add: engram_current_def)
  qed (simp add: engram_current_def)
  have cnt: "\<not> (2 ^ 64 - 1) div (ENGRAM_LAYERS * ENGRAM_COLS * 4) < length (a @ b)"
    using assms(3) by (simp add: engram_consts)
  obtain ra where ra: "engram_positions l tail (engram_current m (map_option (take (length a)) msk) a) = (ra, t1)"
      "r1 = concat ra" and ha: "engram_history_ok l tail" "engram_tokens_ok l a"
    using assms(1) m by (auto simp: engram_hash_def Let_def split: if_splits prod.splits)
  obtain rb where rb: "engram_positions l t1 (engram_current m (map_option (drop (length a)) msk) b) = (rb, t2)"
      "r2 = concat rb" and hb: "engram_tokens_ok l b"
    using assms(2) m by (auto simp: engram_hash_def Let_def split: if_splits prod.splits)
  have "engram_tokens_ok l (a @ b)" using ha hb by (simp add: engram_tokens_ok_def)
  then show ?thesis using m cnt ha ra rb by (simp add: engram_hash_def cur engram_positions_append)
qed

theorem engram_hash_chunks_witness:
  "engram_hash engram_demo engram_history_reset ([1, 2] @ [0, 2]) (Some [1, 0, 1, 1]) =
    Some (fst (the (engram_hash engram_demo engram_history_reset [1, 2] (Some [1, 0]))) @
      fst (the (engram_hash engram_demo [-1, 1, -1] [0, 2] (Some [1, 1]))), [2, 0, -1])"
proof -
  let ?h = engram_history_reset
  have map: "el_token_map engram_demo = Some [0, 1, 2]" by (simp add: engram_demo_def)
  have ok: "engram_history_ok engram_demo ?h" "engram_history_ok engram_demo [-1, 1, -1]"
    "engram_tokens_ok engram_demo [1, 2]" "engram_tokens_ok engram_demo [0, 2]"
    by (simp_all add: engram_history_ok_def engram_tokens_ok_def engram_history_reset_eq engram_demo_def
        engram_consts word_le_nat_alt)
  note h = engram_history_reset_eq
  have a: "engram_hash engram_demo ?h [1, 2] (map_option (take 2) (Some [1, 0, 1, 1])) =
      Some (fst (the (engram_hash engram_demo ?h [1, 2] (Some [1, 0]))), [-1, 1, -1])"
    using engram_hash_Some [OF map _ ok(1,3), of "Some [1, 0]"]
    by (simp add: engram_current_def h ENGRAM_DEAD_def)
  have b: "engram_hash engram_demo [-1, 1, -1] [0, 2] (map_option (drop 2) (Some [1, 0, 1, 1])) =
      Some (fst (the (engram_hash engram_demo [-1, 1, -1] [0, 2] (Some [1, 1]))), [2, 0, -1])"
    using engram_hash_Some [OF map _ ok(2,4), of "Some [1, 1]"]
    by (simp add: engram_current_def)
  show ?thesis
    by (rule engram_hash_chunks [of _ _ "[1, 2]" "Some [1, 0, 1, 1]" _ "[-1, 1, -1]"])
      (use a b in \<open>simp_all only: list.size One_nat_def add_0 Suc_1 plus_1_eq_Suc option.simps append.simps, simp_all\<close>)
qed

section \<open>Masked positions\<close>

text \<open>The part of a history that the hash can see.\<close>

definition engram_visible :: "int list \<Rightarrow> int list" where
  "engram_visible = takeWhile (\<lambda>i. i \<noteq> ENGRAM_DEAD)"

lemma takeWhile_take: "takeWhile P (take n xs) = take n (takeWhile P xs)"
  by (induction xs arbitrary: n) (auto simp: take_Cons split: nat.splits)

lemma engram_position_visible:
  assumes "engram_visible s = engram_visible t" and "length s = length t"
  shows "fst (engram_position l s c) = fst (engram_position l t c)"
    and "engram_visible (take 3 (c # s)) = engram_visible (take 3 (c # t))"
proof -
  have v: "takeWhile (\<lambda>i. i \<noteq> ENGRAM_DEAD) (c # s) = takeWhile (\<lambda>i. i \<noteq> ENGRAM_DEAD) (c # t)"
    using assms(1) by (simp add: engram_visible_def)
  show "fst (engram_position l s c) = fst (engram_position l t c)"
    unfolding engram_position_def engram_ids_live v by (simp add: assms(2))
  show "engram_visible (take 3 (c # s)) = engram_visible (take 3 (c # t))"
    unfolding engram_visible_def takeWhile_take v ..
qed

lemma engram_positions_visible:
  "engram_visible s = engram_visible t \<Longrightarrow> length s = length t \<Longrightarrow>
    fst (engram_positions l s cs) = fst (engram_positions l t cs) \<and>
    engram_visible (snd (engram_positions l s cs)) = engram_visible (snd (engram_positions l t cs))"
proof (induction cs arbitrary: s t)
  case (Cons c cs)
  note v = engram_position_visible [OF Cons.prems]
  have len: "length (take 3 (c # s)) = length (take 3 (c # t))" using Cons.prems by simp
  show ?case using Cons.IH [OF v(2) len] v(1) by simp
qed simp

lemma engram_rows_length:
  assumes "engram_layout_valid l" and "engram_layout_shape l" and "length tail = 3"
  shows "length (concat (fst (engram_positions l tail cs))) = 48 * length cs"
  using engram_positions_nth(2) [OF assms, of 0 cs 0 0] by (cases cs) auto

text \<open>C38. A masked position cuts the n-grams: whatever was hashed before it, and whatever token sits
  there, the rows of the positions after it depend only on the tokens after it.\<close>

theorem engram_hash_mask_barrier:
  assumes "engram_layout_valid l" and "engram_layout_shape l" and "length h1 = 3" and "length h2 = 3"
    and "engram_hash l h1 (a1 @ [x1] @ b) (Some (m1 @ [0] @ mb)) = Some (r1, e1)"
    and "engram_hash l h2 (a2 @ [x2] @ b) (Some (m2 @ [0] @ mb)) = Some (r2, e2)"
    and "length m1 = length a1" and "length m2 = length a2" and "length mb = length b"
  shows "drop (48 * Suc (length a1)) r1 = drop (48 * Suc (length a2)) r2"
proof -
  obtain m where m: "el_token_map l = Some m" using assms(5) by (auto simp: engram_hash_def split: option.splits)
  define cb where "cb = engram_current m (Some mb) b"
  have run: "drop (48 * Suc (length a)) r = concat (fst (engram_positions l
        (take 3 (ENGRAM_DEAD # snd (engram_positions l h (engram_current m (Some ma) a)))) cb))"
    if "engram_hash l h (a @ [x] @ b) (Some (ma @ [0] @ mb)) = Some (r, e)" "length ma = length a" "length h = 3"
    for h a x ma r e
  proof -
    let ?ca = "engram_current m (Some ma) a"
    have cur: "engram_current m (Some (ma @ [0] @ mb)) (a @ [x] @ b) = ?ca @ [ENGRAM_DEAD] @ cb"
      using that assms(9) by (simp add: engram_current_def cb_def)
    have "r = concat (fst (engram_positions l h (?ca @ [ENGRAM_DEAD] @ cb)))"
      using that(1) m unfolding engram_hash_def by (auto simp: cur [simplified] Let_def split: prod.splits if_splits)
    moreover have "length (concat (fst (engram_positions l h ?ca))) = 48 * length a"
      using engram_rows_length [OF assms(1,2) that(3)] that(2) by (simp add: engram_current_length)
    moreover have "length (fst (engram_position l t ENGRAM_DEAD)) = 48" if "length t = 3" for t
      using engram_position_nth(1) [OF assms(1,2) that] .
    ultimately show ?thesis
      using engram_positions_history_length [OF that(3)]
      by (simp add: engram_positions_append)
  qed
  have vis: "engram_visible (take 3 (ENGRAM_DEAD # t)) = []" for t by (simp add: engram_visible_def)
  have same: "fst (engram_positions l (take 3 (ENGRAM_DEAD # s)) cb) = fst (engram_positions l (take 3 (ENGRAM_DEAD # t)) cb)"
    if "length s = 3" "length t = 3" for s t
    using engram_positions_visible [of "take 3 (ENGRAM_DEAD # s)" "take 3 (ENGRAM_DEAD # t)" l cb] vis that
    by simp
  show ?thesis
    unfolding run [OF assms(5,7,3)] run [OF assms(6,8,4)]
    by (intro arg_cong [where f = concat] same engram_positions_history_length assms)
qed

theorem engram_hash_mask_barrier_witness:
  "drop 96 (fst (the (engram_hash engram_demo [-1, -1, -1] [1, 2, 0] (Some [1, 0, 1])))) =
    drop 48 (fst (the (engram_hash engram_demo [2, 1, 0] [1, 0] (Some [0, 1]))))"
proof -
  have map: "el_token_map engram_demo = Some [0, 1, 2]" by (simp add: engram_demo_def)
  have ok: "engram_history_ok engram_demo [-1, -1, -1]" "engram_history_ok engram_demo [2, 1, 0]"
    "engram_tokens_ok engram_demo [1, 2, 0]" "engram_tokens_ok engram_demo [1, 0]"
    by (simp_all add: engram_history_ok_def engram_tokens_ok_def engram_demo_def engram_consts word_le_nat_alt)
  obtain r1 e1 where 1: "engram_hash engram_demo [-1, -1, -1] [1, 2, 0] (Some [1, 0, 1]) = Some (r1, e1)"
    using engram_hash_Some [OF map _ ok(1,3)] by simp
  obtain r2 e2 where 2: "engram_hash engram_demo [2, 1, 0] [1, 0] (Some [0, 1]) = Some (r2, e2)"
    using engram_hash_Some [OF map _ ok(2,4)] by simp
  show ?thesis
    using engram_hash_mask_barrier [OF engram_demo_ok, of "[-1, -1, -1]" "[2, 1, 0]" "[1]" 2 "[0]" "[1]" "[1]" r1 e1
        "[]" 1 "[]" r2 e2] 1 2
    by simp
qed

end
