(* ===== verification/Engram_Table.thy ===== *)
theory Engram_Table
  imports Engram_Hash Complex_Main "HOL-Library.Multiset"
begin

text \<open>
  The table reader of ds4_engram.c: opening a table inside a file (\<open>ds4_engram_table_open\<close>), reading
  a row against short and interrupted reads (\<open>read_row\<close>), the E4M3 times E8M0 to BF16 lookup
  (\<open>e4m3\<close>, \<open>init_engram_bf16\<close>), decoding rows (\<open>ds4_engram_read\<close>) and the sorted, deduplicated,
  concurrent batch (\<open>read_batch_part\<close>, \<open>ds4_engram_read_batch_readers\<close>).

  A decoded row is the list of its 256 F32 bit patterns; the output block is a function from row
  slots to decoded rows. After a failure the header leaves the output unspecified, so a failed
  call carries its \<open>errno\<close> only.
\<close>

datatype errno = E_INVAL | E_IO | E_DOM | E_NOMEM | E_BUSY | E_OS nat

definition ENGRAM_DIM :: nat where "ENGRAM_DIM = 256"
definition ENGRAM_ROW_BYTES :: nat where "ENGRAM_ROW_BYTES = 264"

record engram_table =
  et_open :: bool
  et_offset :: u64
  et_rows :: u32

section \<open>Opening and reading bytes\<close>

text \<open>
  What \<open>open\<close> and \<open>fstat\<close> answer: an error of either, or whether the file is regular and its
  size. A null path is \<open>path_ok\<close> false. The read-ahead advice has no result that matters.
\<close>

definition engram_table_open :: "bool \<Rightarrow> errno + (bool \<times> int) \<Rightarrow> u64 \<Rightarrow> u32 \<Rightarrow> errno + engram_table" where
  "engram_table_open path_ok stat_result offset rows =
     (let bytes = ucast rows * of_nat ENGRAM_ROW_BYTES
      in if \<not> path_ok \<or> rows = 0 \<or> 0x7FFFFFFFFFFFFFFF < offset \<or> 0x7FFFFFFFFFFFFFFF - offset < bytes
         then Inl E_INVAL
         else case stat_result of
           Inl e \<Rightarrow> Inl e
         | Inr (regular, st_size) \<Rightarrow>
             if \<not> regular \<or> st_size < 0 \<or> (of_int st_size :: u64) < offset + bytes then Inl E_INVAL
             else Inr \<lparr>et_open = True, et_offset = offset, et_rows = rows\<rparr>)"

definition engram_table_close :: "engram_table \<Rightarrow> engram_table" where
  "engram_table_close t = \<lparr>et_open = False, et_offset = 0, et_rows = 0\<rparr>"

text \<open>
  What the kernel answers to one \<open>pread\<close>: interrupted, an error, or at most \<open>n\<close> of the bytes
  asked for. \<open>None\<close> is a call that has not returned when the answers run out.
\<close>

datatype pread = Interrupted | Failed errno | Bytes nat

fun read_row :: "u8 list \<Rightarrow> nat \<Rightarrow> u8 list \<Rightarrow> pread list \<Rightarrow> (errno + u8 list) option" where
  "read_row content offset row [] = (if ENGRAM_ROW_BYTES \<le> length row then Some (Inr row) else None)"
| "read_row content offset row (a # as) =
     (if ENGRAM_ROW_BYTES \<le> length row then Some (Inr row)
      else case a of
        Interrupted \<Rightarrow> read_row content offset row as
      | Failed e \<Rightarrow> Some (Inl e)
      | Bytes n \<Rightarrow>
          (let got = take (min n (ENGRAM_ROW_BYTES - length row)) (drop (offset + length row) content)
           in if got = [] then Some (Inl E_IO) else read_row content offset (row @ got) as))"

section \<open>Decoding\<close>

text \<open>
  The F32 values of this code are \<open>m * 2 ^ k\<close> with \<open>m\<close> below 16 and a sign; \<open>f32_bits\<close> is the bit
  pattern of such a value. Exponents never go below -136, so \<open>ldexpf\<close> is exact here (the
  smallest subnormal is \<open>2 ^ -149\<close>) until it overflows to infinity.
\<close>

definition e4m3 :: "u8 \<Rightarrow> bool \<times> nat \<times> int" where
  "e4m3 byte =
     (let exponent = unat (drop_bit 3 byte AND 15); mantissa = unat (byte AND 7)
      in (byte AND 128 \<noteq> 0,
          if exponent \<noteq> 0 then (8 + mantissa, int exponent - 10) else (mantissa, -9)))"

definition log2_16 :: "nat \<Rightarrow> nat" where
  "log2_16 m = (if 8 \<le> m then 3 else if 4 \<le> m then 2 else if 2 \<le> m then 1 else 0)"

definition f32_bits :: "bool \<Rightarrow> nat \<Rightarrow> int \<Rightarrow> u32" where
  "f32_bits neg m k =
     (let e = k + int (log2_16 m);
          magnitude =
            (if m = 0 then 0
             else if 128 \<le> e then 0x7F800000
             else if -126 \<le> e then of_int (e + 127) * 2 ^ 23 + of_nat ((m - 2 ^ log2_16 m) * 2 ^ (23 - log2_16 m))
             else of_nat (m * 2 ^ nat (k + 149)))
      in (if neg then 0x80000000 else 0) + magnitude)"

definition engram_bf16 :: "u8 \<Rightarrow> u8 \<Rightarrow> u16" where
  "engram_bf16 scale code =
     (if code AND 127 \<noteq> 127 \<and> scale \<noteq> 255
      then let (neg, m, k) = e4m3 code;
               bits = f32_bits neg m (k + uint scale - 127);
               bits = (bits + 0x7FFF + (drop_bit 16 bits AND 1)) AND 0xFFFF0000
           in if bits AND 0x7F800000 \<noteq> 0x7F800000 then ucast (drop_bit 16 bits) else 0xFFFF
      else 0xFFFF)"

text \<open>One row: 256 codes, then one scale for every 32 of them.\<close>

definition engram_decode :: "u8 list \<Rightarrow> u32 list option" where
  "engram_decode raw =
     (let values = map (\<lambda>j. engram_bf16 (raw ! (ENGRAM_DIM + j div 32)) (raw ! j)) [0..<ENGRAM_DIM]
      in if 0xFFFF \<in> set values then None else Some (map (\<lambda>v. push_bit 16 (ucast v)) values))"

text \<open>\<open>rd\<close> is what \<open>read_row\<close> returns for an offset of the open file.\<close>

fun engram_read_loop :: "(u64 \<Rightarrow> errno + u8 list) \<Rightarrow> engram_table \<Rightarrow> u32 list \<Rightarrow> errno + u32 list list" where
  "engram_read_loop rd t [] = Inr []"
| "engram_read_loop rd t (r # rs) =
     (case rd (et_offset t + ucast r * of_nat ENGRAM_ROW_BYTES) of
        Inl e \<Rightarrow> Inl e
      | Inr raw \<Rightarrow>
          (case engram_decode raw of
             None \<Rightarrow> Inl E_DOM
           | Some v \<Rightarrow> (case engram_read_loop rd t rs of Inl e \<Rightarrow> Inl e | Inr vs \<Rightarrow> Inr (v # vs))))"

definition engram_read :: "(u64 \<Rightarrow> errno + u8 list) \<Rightarrow> engram_table \<Rightarrow> u32 list \<Rightarrow> errno + u32 list list" where
  "engram_read rd t rows =
     (if \<not> et_open t \<or> (2 ^ 64 - 1) div (ENGRAM_DIM * 4) < length rows then Inl E_INVAL
      else if list_ex (\<lambda>r. et_rows t \<le> r) rows then Inl E_INVAL
      else engram_read_loop rd t rows)"

section \<open>Batches\<close>

record engram_request =
  er_row :: u32
  er_output :: u32

definition ENGRAM_READERS :: nat where "ENGRAM_READERS = 16"
definition ENGRAM_READERS_MAX :: nat where "ENGRAM_READERS_MAX = 32"
definition ENGRAM_PARALLEL_MIN_ROWS :: nat where "ENGRAM_PARALLEL_MIN_ROWS = 256"
definition BATCH_TOKENS :: nat where "BATCH_TOKENS = 2048"

text \<open>
  One reader's part: the slots it writes, in order, and the error it stopped at. \<open>prev\<close> is the
  row read last with its decoded value, which the next requests for the same row copy.
\<close>

fun engram_part ::
  "(u64 \<Rightarrow> errno + u8 list) \<Rightarrow> engram_table \<Rightarrow> (u32 \<times> u32 list) option \<Rightarrow> engram_request list \<Rightarrow>
    (nat \<times> u32 list) list \<times> errno option" where
  "engram_part rd t prev [] = ([], None)"
| "engram_part rd t prev (q # qs) =
     (if prev \<noteq> None \<and> fst (the prev) = er_row q
      then let (ws, e) = engram_part rd t prev qs in ((unat (er_output q), snd (the prev)) # ws, e)
      else case engram_read rd t [er_row q] of
        Inl e \<Rightarrow> ([], Some e)
      | Inr vs \<Rightarrow>
          let (ws, e) = engram_part rd t (Some (er_row q, hd vs)) qs
          in ((unat (er_output q), hd vs) # ws, e))"

definition read_batch_part ::
  "(u64 \<Rightarrow> errno + u8 list) \<Rightarrow> engram_table \<Rightarrow> engram_request list \<Rightarrow> nat \<Rightarrow> nat \<Rightarrow>
    (nat \<times> u32 list) list \<times> errno option" where
  "read_batch_part rd t request readers part =
     (let begin = length request * part div readers; end' = length request * (part + 1) div readers
      in engram_part rd t None (take (end' - begin) (drop begin request)))"

text \<open>
  One chunk of tokens. \<open>qsort\<close> is the library sort with \<open>request_order\<close>, which leaves the order of equal rows
  open; \<open>mix\<close> is the order in which the writes of the readers reach memory.
\<close>

definition engram_chunk ::
  "(engram_request list \<Rightarrow> engram_request list) \<Rightarrow> ((nat \<times> u32 list) list list \<Rightarrow> (nat \<times> u32 list) list) \<Rightarrow>
    (u64 \<Rightarrow> errno + u8 list) \<Rightarrow> engram_table \<Rightarrow> u32 list \<Rightarrow> nat \<Rightarrow> nat \<Rightarrow> nat \<Rightarrow> nat \<Rightarrow> (nat \<Rightarrow> u32 list) \<Rightarrow>
    errno + (nat \<Rightarrow> u32 list)" where
  "engram_chunk qsort mix rd t rows stride readers start n out =
     (let count = n * ENGRAM_COLS;
          request = qsort (map (\<lambda>i. \<lparr>er_row = rows ! ((start + i div ENGRAM_COLS) * stride + i mod ENGRAM_COLS),
                                    er_output = of_nat i\<rparr>) [0..<count]);
          readers = (if ENGRAM_PARALLEL_MIN_ROWS \<le> count then readers else 1);
          parts = map (read_batch_part rd t request readers) [0..<readers];
          out = fold (\<lambda>(k, v) o'. o'(start * ENGRAM_COLS + k := v)) (mix (map fst parts)) out
      in case List.map_filter snd parts of
           e # _ \<Rightarrow> Inl e
         | [] \<Rightarrow> Inr out)"

function engram_chunks ::
  "(engram_request list \<Rightarrow> engram_request list) \<Rightarrow> ((nat \<times> u32 list) list list \<Rightarrow> (nat \<times> u32 list) list) \<Rightarrow>
    (u64 \<Rightarrow> errno + u8 list) \<Rightarrow> engram_table \<Rightarrow> u32 list \<Rightarrow> nat \<Rightarrow> nat \<Rightarrow> nat \<Rightarrow> nat \<Rightarrow> nat \<Rightarrow> (nat \<Rightarrow> u32 list) \<Rightarrow>
    errno + (nat \<Rightarrow> u32 list)" where
  "engram_chunks qsort mix rd t rows stride readers tokens cap start out =
     (if start < tokens \<and> 0 < cap
      then case engram_chunk qsort mix rd t rows stride readers start (min cap (tokens - start)) out of
             Inl e \<Rightarrow> Inl e
           | Inr out \<Rightarrow> engram_chunks qsort mix rd t rows stride readers tokens cap (start + cap) out
      else Inr out)"
  by pat_completeness auto
termination
  by (relation "measure (\<lambda>(_, _, _, _, _, _, _, tokens, _, start, _). tokens - start)") auto

definition engram_batch_args_bad :: "engram_table \<Rightarrow> nat \<Rightarrow> nat \<Rightarrow> nat \<Rightarrow> bool" where
  "engram_batch_args_bad t tokens stride readers \<longleftrightarrow>
     \<not> et_open t \<or> readers < 1 \<or> ENGRAM_READERS_MAX < readers \<or> (tokens \<noteq> 0 \<and> stride < ENGRAM_COLS) \<or>
     (2 ^ 64 - 1) div (ENGRAM_COLS * ENGRAM_DIM * 4) < tokens \<or>
     (tokens \<noteq> 0 \<and> ((2 ^ 64 - 1) div 4 - ENGRAM_COLS) div stride < tokens - 1)"

definition engram_read_batch_readers ::
  "(engram_request list \<Rightarrow> engram_request list) \<Rightarrow> ((nat \<times> u32 list) list list \<Rightarrow> (nat \<times> u32 list) list) \<Rightarrow>
    (u64 \<Rightarrow> errno + u8 list) \<Rightarrow> bool \<Rightarrow> engram_table \<Rightarrow> u32 list \<Rightarrow> nat \<Rightarrow> nat \<Rightarrow> nat \<Rightarrow> (nat \<Rightarrow> u32 list) \<Rightarrow>
    errno + (nat \<Rightarrow> u32 list)" where
  "engram_read_batch_readers qsort mix rd alloc_ok t rows tokens stride readers out =
     (if engram_batch_args_bad t tokens stride readers then Inl E_INVAL
      else if list_ex (\<lambda>i. list_ex (\<lambda>j. et_rows t \<le> rows ! (i * stride + j)) [0..<ENGRAM_COLS]) [0..<tokens]
      then Inl E_INVAL
      else if tokens = 0 then Inr out
      else if \<not> alloc_ok then Inl E_NOMEM
      else engram_chunks qsort mix rd t rows stride readers tokens (min tokens BATCH_TOKENS) 0 out)"

definition engram_read_batch ::
  "(engram_request list \<Rightarrow> engram_request list) \<Rightarrow> ((nat \<times> u32 list) list list \<Rightarrow> (nat \<times> u32 list) list) \<Rightarrow>
    (u64 \<Rightarrow> errno + u8 list) \<Rightarrow> bool \<Rightarrow> engram_table \<Rightarrow> u32 list \<Rightarrow> nat \<Rightarrow> nat \<Rightarrow> (nat \<Rightarrow> u32 list) \<Rightarrow>
    errno + (nat \<Rightarrow> u32 list)" where
  "engram_read_batch qsort mix rd alloc_ok t rows tokens stride out =
     engram_read_batch_readers qsort mix rd alloc_ok t rows tokens stride ENGRAM_READERS out"

section \<open>Rows from the file\<close>

lemma read_row_Inr:
  "read_row content offset row answers = Some (Inr r) \<Longrightarrow> length row \<le> 264 \<Longrightarrow>
    row = take (length row) (drop offset content) \<Longrightarrow> length r = 264 \<and> r = take 264 (drop offset content)"
proof (induction content offset row answers rule: read_row.induct)
  case (1 content offset row)
  then show ?case by (auto simp: ENGRAM_ROW_BYTES_def split: if_splits)
next
  case (2 content offset row a as)
  show ?case
  proof (cases "264 \<le> length row")
    case True
    then show ?thesis using "2.prems" by (auto simp: ENGRAM_ROW_BYTES_def)
  next
    case False
    then have nd: "\<not> ENGRAM_ROW_BYTES \<le> length row" by (simp add: ENGRAM_ROW_BYTES_def)
    show ?thesis
    proof (cases a)
      case Interrupted
      then have "read_row content offset row as = Some (Inr r)" using "2.prems"(1) nd by simp
      then show ?thesis by (rule "2.IH"(1) [OF nd Interrupted _ "2.prems"(2,3)])
    next
      case (Failed e)
      then show ?thesis using "2.prems" nd by simp
    next
      case (Bytes n)
      let ?got = "take (min n (264 - length row)) (drop (offset + length row) content)"
      have r: "?got \<noteq> []" "read_row content offset (row @ ?got) as = Some (Inr r)"
        using "2.prems"(1) nd Bytes by (auto simp: Let_def ENGRAM_ROW_BYTES_def split: if_splits)
      let ?n = "length ?got"
      have gen: "take k ys = take (length (take k ys)) ys" for k and ys :: "u8 list"
        by (simp add: min_def)
      have "?got = take ?n (drop (length row) (drop offset content))"
        unfolding drop_drop add.commute [of "length row"] by (rule gen)
      then have "row @ ?got = take (length row) (drop offset content) @ take ?n (drop (length row) (drop offset content))"
        using "2.prems"(3) by (intro arg_cong2 [where f = "(@)"])
      then have eq: "row @ ?got = take (length (row @ ?got)) (drop offset content)"
        unfolding length_append take_add .
      have "length (row @ ?got) \<le> 264" using False by simp
      then show ?thesis
        by (rule "2.IH"(2) [OF nd Bytes refl, unfolded ENGRAM_ROW_BYTES_def, OF r _ eq])
    qed
  qed
qed

text \<open>The answers of a file that never fails: enough of them always finish a row.\<close>

definition pread_fine :: "pread \<Rightarrow> bool" where
  "pread_fine a \<longleftrightarrow> (case a of Bytes n \<Rightarrow> 0 < n | Failed e \<Rightarrow> False | Interrupted \<Rightarrow> True)"

lemma read_row_total:
  assumes "list_all pread_fine answers" and "offset + 264 \<le> length content"
    and "264 \<le> length row + length (filter (\<lambda>a. a \<noteq> Interrupted) answers)"
  shows "\<exists>r. read_row content offset row answers = Some (Inr r)"
  using assms
proof (induction answers arbitrary: row)
  case (Cons a as)
  show ?case
  proof (cases "264 \<le> length row")
    case False
    note nd = False
    show ?thesis
    proof (cases a)
      case (Bytes n)
      let ?got = "take (min n (264 - length row)) (drop (offset + length row) content)"
      have n: "0 < n" using Cons.prems Bytes by (simp add: pread_fine_def)
      have "0 < length ?got" using n nd Cons.prems(2) by simp
      then have "?got \<noteq> []" "1 \<le> length ?got" by auto
      moreover have "\<exists>r. read_row content offset (row @ ?got) as = Some (Inr r)"
      proof (rule Cons.IH)
        show "264 \<le> length (row @ ?got) + length (filter (\<lambda>a. a \<noteq> Interrupted) as)"
        proof -
          have "length (filter (\<lambda>a. a \<noteq> Interrupted) (a # as)) = Suc (length (filter (\<lambda>a. a \<noteq> Interrupted) as))"
            using Bytes by simp
          then show ?thesis using Cons.prems(3) \<open>1 \<le> length ?got\<close> unfolding length_append by linarith
        qed
      qed (use Cons.prems in simp_all)
      ultimately show ?thesis using Bytes nd by (simp add: ENGRAM_ROW_BYTES_def Let_def)
    qed (use Cons nd in \<open>auto simp: ENGRAM_ROW_BYTES_def pread_fine_def\<close>)
  qed (simp add: ENGRAM_ROW_BYTES_def)
qed (simp add: ENGRAM_ROW_BYTES_def)

lemma engram_table_open_bounds:
  assumes "engram_table_open path_ok (Inr (regular, int (length content))) offset rows = Inr t"
    and "length content < 2 ^ 63" and "r < et_rows t"
  shows "unat (et_offset t + ucast r * 264) = unat offset + unat r * 264 \<and>
    unat offset + unat r * 264 + 264 \<le> length content \<and> et_open t \<and> et_rows t = rows"
proof -
  have up: "unat (ucast x :: u64) = unat x" for x :: u32 by (rule unat_ucast_up) simp
  have m: "unat (ucast x * 264 :: u64) = unat x * 264" for x :: u32
    using unat_u32_less [of x] by (subst unat_mult_lem [THEN iffD1]) (auto simp: up)
  from assms(1) have o: "offset \<le> 0x7FFFFFFFFFFFFFFF" "ucast rows * 264 \<le> 0x7FFFFFFFFFFFFFFF - offset"
      "offset + ucast rows * 264 \<le> (of_int (int (length content)) :: u64)"
      "t = \<lparr>et_open = True, et_offset = offset, et_rows = rows\<rparr>"
    by (auto simp: engram_table_open_def Let_def ENGRAM_ROW_BYTES_def not_less split: if_splits)
  have o1: "unat offset \<le> 0x7FFFFFFFFFFFFFFF" using o(1) by (simp add: word_le_nat_alt)
  have "unat (0x7FFFFFFFFFFFFFFF - offset) = 0x7FFFFFFFFFFFFFFF - unat offset"
    using o(1) by (subst unat_sub) simp_all
  then have o2: "unat rows * 264 + unat offset \<le> 0x7FFFFFFFFFFFFFFF"
    using o(2) o1 m [of rows] by (simp add: word_le_nat_alt)
  have add: "unat (offset + ucast x * 264) = unat offset + unat x * 264" if "unat x \<le> unat rows" for x :: u32
    using that o2 m [of x] by (subst unat_add_lem [THEN iffD1]) auto
  have "unat (of_int (int (length content)) :: u64) = length content"
    using assms(2) by (simp add: unat_of_nat take_bit_nat_eq_self)
  then have "unat offset + unat rows * 264 \<le> length content"
    using o(3) add [of rows] by (simp add: word_le_nat_alt)
  moreover have "unat r < unat rows" using assms(3) o(4) by (simp add: word_less_nat_alt)
  ultimately show ?thesis using add [of r] o(4) by simp
qed

text \<open>A table that opened can be read: every row number below its size addresses 264 bytes inside the
  file without wrap-around, reading it ends with exactly those bytes however the kernel splits
  or interrupts the reads, and anything else it could return is an I/O error it was given.\<close>

theorem engram_open_read_row:
  assumes "engram_table_open path_ok (Inr (regular, int (length content))) offset rows = Inr t"
    and "length content < 2 ^ 63" and "r < et_rows t"
    and "list_all pread_fine answers" and "264 \<le> length (filter (\<lambda>a. a \<noteq> Interrupted) answers)"
  shows "read_row content (unat (et_offset t + ucast r * 264)) [] answers =
    Some (Inr (take 264 (drop (unat offset + unat r * 264) content)))"
proof -
  note b = engram_table_open_bounds [OF assms(1-3)]
  obtain row where row: "read_row content (unat (et_offset t + ucast r * 264)) [] answers = Some (Inr row)"
    using read_row_total [OF assms(4), of "unat (et_offset t + ucast r * 264)" content "[]"] b assms(5) by auto
  then show ?thesis using read_row_Inr [OF row] b by simp
qed

theorem engram_open_read_row_witness:
  "read_row (replicate 600 7) (unat (8 + ucast (1 :: u32) * 264 :: u64)) []
      (Interrupted # replicate 264 (Bytes 3)) = Some (Inr (replicate 264 7))"
  using engram_open_read_row [of True True "replicate 600 7" 8 2 "\<lparr>et_open = True, et_offset = 8, et_rows = 2\<rparr>"
      1 "Interrupted # replicate 264 (Bytes 3)"]
  by (simp add: engram_table_open_def ENGRAM_ROW_BYTES_def pread_fine_def list_all_iff word_less_nat_alt)

section \<open>Decoding is exact\<close>

text \<open>The value of an F32 bit pattern that is not infinite or a NaN.\<close>

definition f32_real :: "u32 \<Rightarrow> real" where
  "f32_real b =
     (let n = unat b; e = n div 2 ^ 23 mod 256; m = n mod 2 ^ 23
      in (if n div 2 ^ 31 = 0 then 1 else - 1) *
         (if e = 0 then real m * 2 powi (-149) else (2 ^ 23 + real m) * 2 powi (int e - 150)))"

lemma log2_16_bounds: "0 < m \<Longrightarrow> m < 16 \<Longrightarrow> 2 ^ log2_16 m \<le> m \<and> m < 2 * 2 ^ log2_16 m \<and> log2_16 m \<le> 3"
  by (auto simp: log2_16_def)

lemma f32_bits_normal:
  assumes "0 < m" and "m < 16" and "-126 \<le> k + int (log2_16 m)" and "k + int (log2_16 m) < 128"
  shows "unat (f32_bits neg m k) =
    (if neg then 2 ^ 31 else 0) + nat (k + int (log2_16 m) + 127) * 2 ^ 23 + (m - 2 ^ log2_16 m) * 2 ^ (23 - log2_16 m)"
proof -
  let ?p = "log2_16 m"
  define e where "e = nat (k + int ?p + 127)"
  define f where "f = (m - 2 ^ ?p) * 2 ^ (23 - ?p)"
  define n where "n = (if neg then 2 ^ 31 else 0) + e * 2 ^ 23 + f"
  note b = log2_16_bounds [OF assms(1,2)]
  have e: "1 \<le> e" "e < 255" "k + int ?p + 127 = int e" using assms(3,4) by (auto simp: e_def)
  have "m - 2 ^ ?p < 2 ^ ?p" using b by linarith
  then have "f < 2 ^ ?p * 2 ^ (23 - ?p)" by (simp add: f_def)
  also have "2 ^ ?p * 2 ^ (23 - ?p) = (2 :: nat) ^ 23" using b by (simp flip: power_add)
  finally have f: "f < 2 ^ 23" .
  have "f32_bits neg m k = of_nat n"
    using assms e by (simp add: f32_bits_def Let_def n_def f_def)
  moreover have "n < 2 ^ 32" using e f by (auto simp: n_def)
  ultimately have "unat (f32_bits neg m k) = n" by (simp add: unat_of_nat)
  then show ?thesis unfolding e_def [symmetric] f_def [symmetric] n_def .
qed

lemma f32_real_bits:
  assumes "m < 16" and "m = 0 \<or> -126 \<le> k + int (log2_16 m)" and "k + int (log2_16 m) < 128"
  shows "f32_real (f32_bits neg m k) = (if neg then - 1 else 1) * real m * 2 powi k"
proof (cases "m = 0")
  case True
  then show ?thesis by (simp add: f32_bits_def f32_real_def Let_def)
next
  case False
  let ?p = "log2_16 m"
  define e where "e = nat (k + int ?p + 127)"
  define f where "f = (m - 2 ^ ?p) * 2 ^ (23 - ?p)"
  have m: "0 < m" "m < 16" using False assms by auto
  note b = log2_16_bounds [OF m]
  have e: "1 \<le> e" "e < 255" "k + int ?p + 127 = int e" using assms False by (auto simp: e_def)
  have pw: "(2 :: nat) ^ ?p * 2 ^ (23 - ?p) = 2 ^ 23" using b by (simp flip: power_add)
  have "m - 2 ^ ?p < 2 ^ ?p" using b by linarith
  then have f: "f < 2 ^ 23" using pw by (metis f_def mult_less_cancel2 zero_less_numeral zero_less_power)
  have n: "unat (f32_bits neg m k) = (if neg then 2 ^ 31 else 0) + e * 2 ^ 23 + f"
    using f32_bits_normal [of m k neg] assms m False by (simp add: e_def f_def)
  have "2 ^ ?p * 2 ^ (23 - ?p) \<le> m * 2 ^ (23 - ?p)" using b by (intro mult_right_mono) auto
  then have "f + 2 ^ 23 = m * 2 ^ (23 - ?p)"
    using pw by (simp add: f_def diff_mult_distrib)
  then have frac: "real f + 2 ^ 23 = real m * 2 ^ (23 - ?p)" by (metis of_nat_add of_nat_mult of_nat_numeral of_nat_power)
  have "(2 :: real) ^ (23 - ?p) = 2 powi (23 - int ?p)" using b by (simp add: power_int_def)
  then have val: "(2 ^ 23 + real f) * 2 powi (int e - 150) = real m * 2 powi k"
    using frac by (simp add: add.commute power_int_add [symmetric] flip: e(3))
  define s where "s = (if neg then 1 else 0 :: nat)"
  have n': "unat (f32_bits neg m k) = f + (e + s * 256) * 2 ^ 23" using n by (simp add: s_def)
  have "unat (f32_bits neg m k) mod 2 ^ 23 = f" by (simp only: n' mod_mult_self1 mod_less f)
  moreover have "unat (f32_bits neg m k) div 2 ^ 23 = e + s * 256"
    using f by (simp only: n' div_mult_self1 div_less)
  ultimately have "unat (f32_bits neg m k) div 2 ^ 23 mod 256 = e" "unat (f32_bits neg m k) mod 2 ^ 23 = f"
    using e by simp_all
  moreover have "unat (f32_bits neg m k) div 2 ^ 31 = (if neg then 1 else 0)"
    using n e f by (auto intro: div_nat_eqI)
  ultimately have "unat (f32_bits neg m k) div 2 ^ 23 mod 256 = e" "unat (f32_bits neg m k) mod 2 ^ 23 = f"
    "unat (f32_bits neg m k) div 2 ^ 31 = (if neg then 1 else 0)" by auto
  then show ?thesis using val e by (simp add: f32_real_def Let_def)
qed

text \<open>A pattern whose low half is zero is its own rounding.\<close>

lemma bf16_round_exact:
  fixes b :: u32
  assumes "2 ^ 17 dvd unat b"
  shows "(b + 0x7FFF + (drop_bit 16 b AND 1)) AND 0xFFFF0000 = b"
    and "push_bit 16 (ucast (ucast (drop_bit 16 b) :: u16)) = b"
proof -
  have low: "\<not> bit b n" if "n < 17" for n
  proof -
    have "take_bit 17 (unat b) = 0" using assms by (simp add: take_bit_eq_mod)
    then have "take_bit 17 b = 0" by (metis unsigned_0 unsigned_take_bit_eq unsigned_word_eqI)
    then show ?thesis using that by (metis bit_0_eq bit_take_bit_iff bot_apply bot_bool_def)
  qed
  have "drop_bit 16 b AND 1 = 0" by (rule bit_eqI) (auto simp: bit_simps low intro!: gr0I)
  moreover have "b + 0x7FFF = b OR mask 15"
  proof -
    have "b + mask 15 = b OR mask 15" by (rule disjunctive_add) (auto simp: bit_simps low)
    then show ?thesis by (simp add: mask_eq_exp_minus_1)
  qed
  moreover have "(0xFFFF0000 :: u32) = NOT (mask 16)" by (simp add: mask_eq_exp_minus_1)
  moreover have "(b OR mask 15) AND NOT (mask 16) = b"
    by (rule bit_word_eqI) (auto simp: bit_simps low intro: ccontr)
  ultimately show "(b + 0x7FFF + (drop_bit 16 b AND 1)) AND 0xFFFF0000 = b" by simp
  have hi: "17 \<le> n" if "bit b n" for n using low [of n] that not_less by blast
  then have "16 + (n - 16) = n" if "bit b n" for n using that by fastforce
  then show "push_bit 16 (ucast (ucast (drop_bit 16 b) :: u16)) = b"
    by (intro bit_word_eqI) (auto simp: bit_simps dest: hi)
qed

lemma exponent_field:
  fixes b :: u32
  shows "b AND 0x7F800000 = 0x7F800000 \<longleftrightarrow> unat b div 2 ^ 23 mod 256 = 255"
proof -
  have m: "(0x7F800000 :: u32) = push_bit 23 (mask 8)" by (simp add: mask_eq_exp_minus_1 push_bit_eq_mult)
  have "b AND push_bit 23 (mask 8) = push_bit 23 (take_bit 8 (drop_bit 23 b))"
    by (rule bit_word_eqI) (auto simp: bit_simps)
  moreover have "push_bit 23 (take_bit 8 x) = push_bit 23 (mask 8) \<longleftrightarrow> take_bit 8 x = mask 8" for x :: u32
  proof
    assume eq: "push_bit 23 (take_bit 8 x) = push_bit 23 (mask 8 :: u32)"
    show "take_bit 8 x = mask 8"
    proof (rule bit_word_eqI)
      fix n assume "n < LENGTH(32)"
      show "bit (take_bit 8 x) n = bit (mask 8 :: u32) n"
        using arg_cong [OF eq, of "\<lambda>w. bit w (23 + n)"] by (cases "n < 8") (auto simp: bit_simps)
    qed
  qed simp
  moreover have "take_bit 8 x = mask 8 \<longleftrightarrow> unat x mod 256 = 255" for x :: u32
  proof -
    have "take_bit 8 x = mask 8 \<longleftrightarrow> unat (take_bit 8 x) = unat (mask 8 :: u32)" by (rule word_unat_eq_iff)
    then show ?thesis by (simp add: unsigned_take_bit_eq take_bit_eq_mod mask_eq_exp_minus_1 unat_mod)
  qed
  ultimately show ?thesis unfolding m by (simp add: drop_bit_eq_div unat_div)
qed

lemma f32_bits_fields:
  assumes "m < 16" and "m = 0 \<or> -126 \<le> k + int (log2_16 m)"
  shows "2 ^ 17 dvd unat (f32_bits neg m k)"
    and "f32_bits neg m k AND 0x7F800000 = 0x7F800000 \<longleftrightarrow> m \<noteq> 0 \<and> 128 \<le> k + int (log2_16 m)"
proof -
  have "2 ^ 17 dvd unat (f32_bits neg m k) \<and>
    (unat (f32_bits neg m k) div 2 ^ 23 mod 256 = 255 \<longleftrightarrow> m \<noteq> 0 \<and> 128 \<le> k + int (log2_16 m))"
  proof (cases "m \<noteq> 0 \<and> k + int (log2_16 m) < 128")
    case True
    then have m: "0 < m" "m < 16" "-126 \<le> k + int (log2_16 m)" "k + int (log2_16 m) < 128" using assms by auto
    define f where "f = (m - 2 ^ log2_16 m) * 2 ^ (23 - log2_16 m)"
    define e where "e = nat (k + int (log2_16 m) + 127)"
    define s where "s = (if neg then 1 else 0 :: nat)"
    have n: "unat (f32_bits neg m k) = f + (e + s * 256) * 2 ^ 23"
      using f32_bits_normal [OF m] by (simp add: f_def e_def s_def)
    note b = log2_16_bounds [OF m(1,2)]
    have e: "e < 255" using m by (auto simp: e_def)
    have "m - 2 ^ log2_16 m < 2 ^ log2_16 m" using b by linarith
    then have "f < 2 ^ log2_16 m * 2 ^ (23 - log2_16 m)" by (simp add: f_def)
    also have "2 ^ log2_16 m * 2 ^ (23 - log2_16 m) = (2 :: nat) ^ 23" using b by (simp flip: power_add)
    finally have f: "f < 2 ^ 23" .
    have "17 \<le> 23 - log2_16 m" using b by linarith
    then have "(2 :: nat) ^ 17 dvd 2 ^ (23 - log2_16 m)" by (rule le_imp_power_dvd)
    then have "2 ^ 17 dvd f" unfolding f_def by (rule dvd_mult)
    moreover have "(2 :: nat) ^ 17 dvd (e + s * 256) * 2 ^ 23" by (intro dvd_mult le_imp_power_dvd) simp
    ultimately have "2 ^ 17 dvd f + (e + s * 256) * 2 ^ 23" by (rule dvd_add)
    moreover have "unat (f32_bits neg m k) div 2 ^ 23 = e + s * 256"
      using f by (simp only: n div_mult_self1 div_less)
    then have "unat (f32_bits neg m k) div 2 ^ 23 mod 256 = e" using e by simp
    ultimately show ?thesis using e n True by simp
  next
    case False
    then show ?thesis by (auto simp: f32_bits_def Let_def)
  qed
  then show "2 ^ 17 dvd unat (f32_bits neg m k)"
    and "f32_bits neg m k AND 0x7F800000 = 0x7F800000 \<longleftrightarrow> m \<noteq> 0 \<and> 128 \<le> k + int (log2_16 m)"
    by (simp_all only: exponent_field)
qed

lemma e4m3_bounds:
  assumes "e4m3 code = (neg, m, k)"
  shows "m < 16" and "m \<noteq> 0 \<Longrightarrow> -9 \<le> k"
proof -
  have mask: "code AND 7 = take_bit 3 code" by (simp add: take_bit_eq_mask mask_eq_exp_minus_1)
  have m: "unat (code AND 7) < 8" unfolding mask unsigned_take_bit_eq by (simp add: take_bit_eq_mod)
  define e where "e = unat (drop_bit 3 code AND 15)"
  show "m < 16" "m \<noteq> 0 \<Longrightarrow> -9 \<le> k"
    using assms m unfolding e4m3_def e_def [symmetric] by (auto simp: Let_def split: if_splits)
qed

text \<open>Decoding loses nothing: for every scale above the subnormal range the lookup refuses exactly the
  NaN codes, the NaN scale and the products that overflow F32, and every value it returns is the
  exact product of the E4M3 code and the power of two.\<close>

theorem engram_bf16_exact:
  assumes "e4m3 code = (neg, m, k)" and "10 \<le> uint scale"
  shows "(engram_bf16 scale code = 0xFFFF \<longleftrightarrow>
      code AND 127 = 127 \<or> scale = 255 \<or> m \<noteq> 0 \<and> 128 \<le> k + uint scale - 127 + int (log2_16 m)) \<and>
    (engram_bf16 scale code = 0xFFFF \<or>
      f32_real (push_bit 16 (ucast (engram_bf16 scale code))) =
        (if neg then - 1 else 1) * real m * 2 powi (k + uint scale - 127))"
proof (cases "code AND 127 = 127 \<or> scale = 255")
  case True
  then show ?thesis by (auto simp: engram_bf16_def)
next
  case False
  let ?k = "k + uint scale - 127"
  define b where "b = f32_bits neg m ?k"
  have k: "m = 0 \<or> -126 \<le> ?k + int (log2_16 m)" 
  proof (cases "m = 0")
    case False
    then show ?thesis using e4m3_bounds(2) [OF assms(1) False] assms(2) by simp
  qed simp
  note m = e4m3_bounds(1) [OF assms(1)]
  note fields = f32_bits_fields [OF m k, of neg, folded b_def]
  note round = bf16_round_exact [OF fields(1)]
  have val: "engram_bf16 scale code =
      (if m \<noteq> 0 \<and> 128 \<le> ?k + int (log2_16 m) then 0xFFFF else ucast (drop_bit 16 b))"
    using False fields(2) round(1) by (simp add: engram_bf16_def assms(1) b_def [symmetric] Let_def)
  show ?thesis
  proof (cases "m \<noteq> 0 \<and> 128 \<le> ?k + int (log2_16 m)")
    case True
    then show ?thesis using val by simp
  next
    case fin: False
    have "(ucast (drop_bit 16 b) :: u16) \<noteq> 0xFFFF"
    proof
      assume "(ucast (drop_bit 16 b) :: u16) = 0xFFFF"
      then have "b = 0xFFFF0000" using round(2) by simp
      then show False using fields(2) fin by simp
    qed
    moreover have "f32_real b = (if neg then - 1 else 1) * real m * 2 powi ?k"
    proof (cases "m = 0")
      case True
      then show ?thesis by (simp add: b_def f32_bits_def f32_real_def Let_def)
    next
      case False
      then show ?thesis unfolding b_def using fin k by (intro f32_real_bits m) auto
    qed
    ultimately show ?thesis using val round(2) False fin by simp
  qed
qed

theorem engram_bf16_exact_witness:
  "engram_bf16 127 0x39 \<noteq> 0xFFFF \<and> f32_real (push_bit 16 (ucast (engram_bf16 127 0x39))) = 9 / 8"
proof -
  have e: "e4m3 0x39 = (False, 9, -3)" by code_simp
  show ?thesis using engram_bf16_exact [OF e, of 127] by (auto simp: log2_16_def power_int_def power_divide)
qed

section \<open>Batches equal single reads\<close>

definition engram_readable :: "(u64 \<Rightarrow> errno + u8 list) \<Rightarrow> engram_table \<Rightarrow> u32 \<Rightarrow> bool" where
  "engram_readable rd t r \<longleftrightarrow> (\<exists>v. engram_read rd t [r] = Inr [v])"

definition engram_value :: "(u64 \<Rightarrow> errno + u8 list) \<Rightarrow> engram_table \<Rightarrow> u32 \<Rightarrow> u32 list" where
  "engram_value rd t r = (case engram_read rd t [r] of Inr (v # _) \<Rightarrow> v | _ \<Rightarrow> [])"

lemma engram_read_one:
  "engram_read rd t [r] = Inr vs \<Longrightarrow> vs = [engram_value rd t r]"
  by (auto simp: engram_read_def engram_value_def split: if_splits sum.splits option.splits)

lemma engram_readable_value: "engram_readable rd t r \<longleftrightarrow> engram_read rd t [r] = Inr [engram_value rd t r]"
  using engram_read_one by (auto simp: engram_readable_def)

definition engram_writes :: "(u64 \<Rightarrow> errno + u8 list) \<Rightarrow> engram_table \<Rightarrow> engram_request list \<Rightarrow> (nat \<times> u32 list) list" where
  "engram_writes rd t qs = map (\<lambda>q. (unat (er_output q), engram_value rd t (er_row q))) qs"

lemma engram_part_spec:
  "case prev of None \<Rightarrow> True | Some (r, v) \<Rightarrow> engram_readable rd t r \<and> v = engram_value rd t r \<Longrightarrow>
    (snd (engram_part rd t prev qs) = None \<longleftrightarrow> (\<forall>q \<in> set qs. engram_readable rd t (er_row q))) \<and>
    (snd (engram_part rd t prev qs) = None \<longrightarrow> fst (engram_part rd t prev qs) = engram_writes rd t qs)"
proof (induction qs arbitrary: prev)
  case (Cons q qs)
  show ?case
  proof (cases "prev \<noteq> None \<and> fst (the prev) = er_row q")
    case True
    then obtain v where prev: "prev = Some (er_row q, v)" by (cases prev) auto
    then show ?thesis using Cons.IH [OF Cons.prems] Cons.prems
      by (auto simp: engram_writes_def split: prod.splits)
  next
    case False
    show ?thesis
    proof (cases "engram_read rd t [er_row q]")
      case (Inl e)
      then show ?thesis using False by (auto simp: engram_readable_def)
    next
      case (Inr vs)
      note vs = engram_read_one [OF Inr]
      have ok: "engram_readable rd t (er_row q)" using Inr vs by (auto simp: engram_readable_def)
      show ?thesis
        using Cons.IH [of "Some (er_row q, hd vs)"] ok False Inr vs
        by (auto simp: engram_writes_def split: prod.splits)
    qed
  qed
qed (simp add: engram_writes_def)

lemma concat_slices:
  assumes "b 0 = 0" and "mono b"
  shows "concat (map (\<lambda>p. take (b (Suc p) - b p) (drop (b p) xs)) [0..<n]) = take (b n) xs"
proof (induction n)
  case (Suc n)
  have "b (Suc n) = b n + (b (Suc n) - b n)" using assms(2) by (simp add: mono_def)
  then have "take (b (Suc n)) xs = take (b n) xs @ take (b (Suc n) - b n) (drop (b n) xs)"
    by (metis take_add)
  then show ?case using Suc by simp
qed (simp add: assms)

lemma engram_parts_concat:
  assumes "0 < readers"
  shows "concat (map (\<lambda>p. take (length xs * (p + 1) div readers - length xs * p div readers)
      (drop (length xs * p div readers) xs)) [0..<readers]) = xs"
proof -
  let ?b = "\<lambda>p. length xs * p div readers"
  have "mono ?b" by (intro monoI div_le_mono mult_le_mono2)
  then show ?thesis using concat_slices [of ?b xs readers] assms by simp
qed

lemma fold_upd_mem:
  "distinct (map fst ws) \<Longrightarrow> (k, v) \<in> set ws \<Longrightarrow> fold (\<lambda>(k, v) o'. o'(s + k := v)) ws out (s + k :: nat) = v"
  and fold_upd_other:
  "x \<notin> (\<lambda>w. s + fst w) ` set ws \<Longrightarrow> fold (\<lambda>(k, v) o'. o'(s + k := v)) ws out x = out x"
proof -
  have other: "x \<notin> (\<lambda>w. s + fst w) ` set ws \<Longrightarrow> fold (\<lambda>(k, v) o'. o'(s + k := v)) ws out x = out x" for ws out x
    by (induction ws arbitrary: out) auto
  then show "x \<notin> (\<lambda>w. s + fst w) ` set ws \<Longrightarrow> fold (\<lambda>(k, v) o'. o'(s + k := v)) ws out x = out x" .
  show "distinct (map fst ws) \<Longrightarrow> (k, v) \<in> set ws \<Longrightarrow> fold (\<lambda>(k, v) o'. o'(s + k := v)) ws out (s + k) = v"
  proof (induction ws arbitrary: out)
    case (Cons w ws)
    then show ?case
    proof (cases "(k, v) = w")
      case True
      then have "s + k \<notin> (\<lambda>w. s + fst w) ` set ws" using Cons.prems(1) by (force simp: image_iff)
      then have "fold (\<lambda>(k, v) o'. o'(s + k := v)) ws (out(s + k := v)) (s + k) = (out(s + k := v)) (s + k)"
        by (rule other)
      then have "fold (\<lambda>(k, v) o'. o'(s + k := v)) ws (out(s + k := v)) (s + k) = v"
        unfolding fun_upd_same .
      then show ?thesis unfolding True [symmetric] fold_simps prod.case .
    qed auto
  qed simp
qed

lemma map_filter_snd_Nil: "List.map_filter snd ps = [] \<longleftrightarrow> (\<forall>p \<in> set ps. snd p = None)"
  by (induction ps) (auto simp: map_filter_simps split: option.splits)

text \<open>What the library sort and the memory system promise: nothing is lost or made up.\<close>

definition engram_reorders :: "(engram_request list \<Rightarrow> engram_request list) \<Rightarrow>
    ((nat \<times> u32 list) list list \<Rightarrow> (nat \<times> u32 list) list) \<Rightarrow> bool" where
  "engram_reorders qsort mix \<longleftrightarrow>
     (\<forall>xs. mset (qsort xs) = mset xs) \<and> (\<forall>wss. mset (mix wss) = mset (concat wss))"

definition engram_slot_row :: "u32 list \<Rightarrow> nat \<Rightarrow> nat \<Rightarrow> u32" where
  "engram_slot_row rows stride i = rows ! (i div ENGRAM_COLS * stride + i mod ENGRAM_COLS)"

lemma engram_chunk_spec:
  fixes rows :: "u32 list" and stride start :: nat
  assumes re: "engram_reorders qsort mix" and "0 < readers" and small: "n * ENGRAM_COLS < 2 ^ 32"
  defines "R \<equiv> \<lambda>i. engram_slot_row rows stride (start * ENGRAM_COLS + i)"
  shows "case engram_chunk qsort mix rd t rows stride readers start n out of
      Inl e \<Rightarrow> \<not> (\<forall>i < n * ENGRAM_COLS. engram_readable rd t (R i))
    | Inr out' \<Rightarrow> (\<forall>i < n * ENGRAM_COLS. engram_readable rd t (R i)) \<and>
        (\<forall>i < n * ENGRAM_COLS. out' (start * ENGRAM_COLS + i) = engram_value rd t (R i)) \<and>
        (\<forall>x. x < start * ENGRAM_COLS \<or> (start + n) * ENGRAM_COLS \<le> x \<longrightarrow> out' x = out x)"
proof -
  let ?count = "n * ENGRAM_COLS"
  define reqs where "reqs = map (\<lambda>i. \<lparr>er_row = R i, er_output = of_nat i\<rparr>) [0..<?count]"
  define request where "request = qsort reqs"
  define rdrs where "rdrs = (if ENGRAM_PARALLEL_MIN_ROWS \<le> ?count then readers else 1)"
  define parts where "parts = map (read_batch_part rd t request rdrs) [0..<rdrs]"
  define sl where "sl = (\<lambda>p. take (length request * (p + 1) div rdrs - length request * p div rdrs)
      (drop (length request * p div rdrs) request))"
  define ok where "ok = (\<forall>i < ?count. engram_readable rd t (R i))"
  have R: "R = (\<lambda>i. rows ! ((start + i div ENGRAM_COLS) * stride + i mod ENGRAM_COLS))"
    by (simp add: R_def engram_slot_row_def ENGRAM_COLS_def fun_eq_iff)
  have chunk: "engram_chunk qsort mix rd t rows stride readers start n out =
      (case List.map_filter snd parts of
         e # _ \<Rightarrow> Inl e
       | [] \<Rightarrow> Inr (fold (\<lambda>(k, v) o'. o'(start * ENGRAM_COLS + k := v)) (mix (map fst parts)) out))"
    unfolding engram_chunk_def Let_def parts_def request_def reqs_def rdrs_def R ..
  have mreq: "mset request = mset reqs" using re by (simp add: request_def engram_reorders_def)
  have sreq: "set request = set reqs" using mreq by (rule mset_eq_setD)
  have allok: "ok \<longleftrightarrow> (\<forall>q \<in> set request. engram_readable rd t (er_row q))"
    by (auto simp: ok_def sreq reqs_def)
  have parts: "parts = map (\<lambda>p. engram_part rd t None (sl p)) [0..<rdrs]"
    by (simp add: parts_def sl_def read_batch_part_def Let_def)
  have cat: "concat (map sl [0..<rdrs]) = request"
    unfolding sl_def using engram_parts_concat [of rdrs request] assms(2) by (simp add: rdrs_def)
  note spec = engram_part_spec [where prev = None and rd = rd and t = t, simplified]
  have none: "List.map_filter snd parts = [] \<longleftrightarrow> ok"
  proof -
    have "List.map_filter snd parts = [] \<longleftrightarrow> (\<forall>p < rdrs. \<forall>q \<in> set (sl p). engram_readable rd t (er_row q))"
      using spec by (auto simp: map_filter_snd_Nil parts)
    also have "\<dots> \<longleftrightarrow> (\<forall>q \<in> set (concat (map sl [0..<rdrs])). engram_readable rd t (er_row q))" by auto
    finally show ?thesis by (simp only: cat allok)
  qed
  show ?thesis
  proof (cases ok)
    case False
    then show ?thesis unfolding chunk using none by (auto simp: ok_def split: list.splits)
  next
    case True
    have rows: "engram_readable rd t (er_row q)" if "p < rdrs" "q \<in> set (sl p)" for p q
      using True that cat unfolding allok by auto
    have "map fst parts = map (\<lambda>p. engram_writes rd t (sl p)) [0..<rdrs]"
      using spec rows by (auto simp: parts)
    then have "concat (map fst parts) = engram_writes rd t (concat (map sl [0..<rdrs]))"
      by (simp add: engram_writes_def map_concat comp_def)
    then have mw: "mset (mix (map fst parts)) = mset (engram_writes rd t reqs)"
      using re mreq by (simp add: engram_reorders_def cat engram_writes_def)
    let ?W = "mix (map fst parts)"
    have u: "unat (of_nat i :: u32) = i" if "i < ?count" for i
      using that small by (simp add: unat_of_nat take_bit_nat_eq_self)
    have writes: "engram_writes rd t reqs = map (\<lambda>i. (i, engram_value rd t (R i))) [0..<?count]"
      using u by (simp add: engram_writes_def reqs_def)
    have "mset (map fst ?W) = mset [0..<?count]"
      using mw unfolding mset_map writes by (simp add: multiset.map_comp comp_def)
    then have dist: "distinct (map fst ?W)" by (metis distinct_upt mset_eq_imp_distinct_iff)
    have set: "set ?W = (\<lambda>i. (i, engram_value rd t (R i))) ` {0..<?count}"
      using mset_eq_setD [OF mw] by (simp add: writes)
    let ?o = "fold (\<lambda>(k, v) o'. o'(start * ENGRAM_COLS + k := v)) ?W out"
    have "?o (start * ENGRAM_COLS + i) = engram_value rd t (R i)" if "i < ?count" for i
      using fold_upd_mem [OF dist, of i] set that by auto
    moreover have "?o x = out x" if "x < start * ENGRAM_COLS \<or> (start + n) * ENGRAM_COLS \<le> x" for x
      using that by (intro fold_upd_other) (auto simp: set algebra_simps)
    ultimately show ?thesis unfolding chunk using none True by (simp add: ok_def)
  qed
qed

declare engram_chunks.simps [simp del]

text \<open>The slots of the tokens from \<open>a\<close> to \<open>b\<close> hold their rows, and no other slot changed.\<close>

definition engram_filled :: "(u64 \<Rightarrow> errno + u8 list) \<Rightarrow> engram_table \<Rightarrow> u32 list \<Rightarrow> nat \<Rightarrow> nat \<Rightarrow> nat \<Rightarrow>
    (nat \<Rightarrow> u32 list) \<Rightarrow> (nat \<Rightarrow> u32 list) \<Rightarrow> bool" where
  "engram_filled rd t rows stride a b out out' \<longleftrightarrow>
     (\<forall>i. a * ENGRAM_COLS \<le> i \<and> i < b * ENGRAM_COLS \<longrightarrow>
        engram_read rd t [engram_slot_row rows stride i] = Inr [out' i]) \<and>
     (\<forall>i. i < a * ENGRAM_COLS \<or> b * ENGRAM_COLS \<le> i \<longrightarrow> out' i = out i)"

lemma engram_filled_empty: "engram_filled rd t rows stride a a out out"
  by (auto simp: engram_filled_def)

lemma engram_filled_trans:
  assumes "engram_filled rd t rows stride a b o1 o2" and "engram_filled rd t rows stride b c o2 o3"
    and "a \<le> b" and "b \<le> c"
  shows "engram_filled rd t rows stride a c o1 o3"
proof -
  have le: "a * ENGRAM_COLS \<le> b * ENGRAM_COLS" "b * ENGRAM_COLS \<le> c * ENGRAM_COLS" using assms(3,4) by simp_all
  have ab: "a * ENGRAM_COLS \<le> i \<Longrightarrow> i < b * ENGRAM_COLS \<Longrightarrow>
      engram_read rd t [engram_slot_row rows stride i] = Inr [o3 i]" for i
    using assms(1,2) by (auto simp: engram_filled_def)
  have bc: "b * ENGRAM_COLS \<le> i \<Longrightarrow> i < c * ENGRAM_COLS \<Longrightarrow>
      engram_read rd t [engram_slot_row rows stride i] = Inr [o3 i]" for i
    using assms(2) by (auto simp: engram_filled_def)
  have out: "i < a * ENGRAM_COLS \<or> c * ENGRAM_COLS \<le> i \<Longrightarrow> o3 i = o1 i" for i
    using assms(1,2) le unfolding engram_filled_def by (metis le_trans order_less_le_trans)
  show ?thesis unfolding engram_filled_def using ab bc out by (meson not_le)
qed

lemma engram_chunk_filled:
  assumes "engram_reorders qsort mix" and "0 < readers" and "n * ENGRAM_COLS < 2 ^ 32"
  shows "case engram_chunk qsort mix rd t rows stride readers start n out of
      Inl e \<Rightarrow> \<exists>i < (start + n) * ENGRAM_COLS. \<not> engram_readable rd t (engram_slot_row rows stride i)
    | Inr out' \<Rightarrow> engram_filled rd t rows stride start (start + n) out out'"
proof (cases "engram_chunk qsort mix rd t rows stride readers start n out")
  case (Inl e)
  then obtain i where i: "i < n * ENGRAM_COLS"
      "\<not> engram_readable rd t (engram_slot_row rows stride (start * ENGRAM_COLS + i))"
    using engram_chunk_spec [OF assms, where rd = rd and t = t and rows = rows and stride = stride and start = start and out = out] by auto
  then have "start * ENGRAM_COLS + i < (start + n) * ENGRAM_COLS" by (simp add: algebra_simps)
  then show ?thesis using Inl i(2) by auto
next
  case (Inr out')
  note chunk = engram_chunk_spec [OF assms, where rd = rd and t = t and rows = rows and stride = stride and start = start and out = out,
      unfolded Inr sum.case]
  have "engram_read rd t [engram_slot_row rows stride i] = Inr [out' i]"
    if "start * ENGRAM_COLS \<le> i" "i < (start + n) * ENGRAM_COLS" for i
    using chunk that
    by (auto simp: algebra_simps engram_readable_value dest!: spec [of _ "i - start * ENGRAM_COLS"])
  then show ?thesis using chunk Inr by (simp add: engram_filled_def)
qed

lemma engram_chunks_filled:
  assumes re: "engram_reorders qsort mix" and "0 < readers" and "0 < cap" and "cap * ENGRAM_COLS < 2 ^ 32"
  shows "start \<le> tokens \<Longrightarrow> case engram_chunks qsort mix rd t rows stride readers tokens cap start out of
      Inl e \<Rightarrow> \<exists>i < tokens * ENGRAM_COLS. \<not> engram_readable rd t (engram_slot_row rows stride i)
    | Inr out' \<Rightarrow> engram_filled rd t rows stride start tokens out out'"
proof (induction "tokens - start" arbitrary: start out rule: less_induct)
  case less
  show ?case
  proof (cases "start < tokens")
    case False
    then show ?thesis using less.prems by (simp add: engram_chunks.simps engram_filled_empty)
  next
    case True
    define n where "n = min cap (tokens - start)"
    have "n * ENGRAM_COLS < 2 ^ 32" using assms(4) by (simp add: n_def ENGRAM_COLS_def)
    note chunk = engram_chunk_filled [OF re assms(2) this,
        where rd = rd and t = t and rows = rows and stride = stride and start = start and out = out]
    have step: "engram_chunks qsort mix rd t rows stride readers tokens cap start out =
        (case engram_chunk qsort mix rd t rows stride readers start n out of
           Inl e \<Rightarrow> Inl e
         | Inr out \<Rightarrow> engram_chunks qsort mix rd t rows stride readers tokens cap (start + cap) out)"
      using True assms(3) by (simp add: engram_chunks.simps [of _ _ _ _ _ _ _ tokens] n_def)
    show ?thesis
    proof (cases "engram_chunk qsort mix rd t rows stride readers start n out")
      case (Inl e)
      have le: "(start + n) * ENGRAM_COLS \<le> tokens * ENGRAM_COLS" using True by (simp add: n_def ENGRAM_COLS_def)
      show ?thesis unfolding step Inl sum.case
        using chunk [unfolded Inl sum.case] order_less_le_trans [OF _ le] by blast
    next
      case (Inr mid)
      note mid = chunk [unfolded Inr sum.case]
      show ?thesis
      proof (cases "start + cap < tokens")
        case False
        then have "start + n = tokens" using True by (simp add: n_def)
        then show ?thesis unfolding step Inr sum.case using mid False
          by (simp add: engram_chunks.simps [of _ _ _ _ _ _ _ tokens])
      next
        case more: True
        then have n: "n = cap" by (simp add: n_def)
        have "tokens - (start + cap) < tokens - start" using True assms(3) by simp
        from less.hyps [OF this less_imp_le [OF more], of mid] show ?thesis
          unfolding step Inr sum.case using mid [unfolded n] more
          by (auto split: sum.splits intro: engram_filled_trans)
      qed
    qed
  qed
qed

text \<open>C36. A batch is as good as reading its rows one by one: whatever order the sort leaves equal rows in,
  however many readers run and however their writes interleave, a batch that succeeds puts the
  decoded row of every token and column in its own slot and touches no other; and a batch fails
  only for arguments out of range, a failed allocation or a row that cannot be read.\<close>

theorem engram_batch_equals_reads:
  assumes "engram_reorders qsort mix"
  shows "case engram_read_batch_readers qsort mix rd alloc_ok t rows tokens stride readers out of
      Inr out' \<Rightarrow>
        (\<forall>token < tokens. \<forall>col < ENGRAM_COLS.
           engram_read rd t [rows ! (token * stride + col)] = Inr [out' (token * ENGRAM_COLS + col)]) \<and>
        (\<forall>i \<ge> tokens * ENGRAM_COLS. out' i = out i)
    | Inl e \<Rightarrow>
        engram_batch_args_bad t tokens stride readers \<or> \<not> alloc_ok \<or>
        (\<exists>token < tokens. \<exists>col < ENGRAM_COLS. \<not> engram_readable rd t (rows ! (token * stride + col)))"
proof (cases "engram_batch_args_bad t tokens stride readers \<or> tokens = 0 \<or> \<not> alloc_ok")
  case True
  then show ?thesis by (auto simp: engram_read_batch_readers_def)
next
  case False
  have slot: "engram_slot_row rows stride (token * ENGRAM_COLS + col) = rows ! (token * stride + col)"
    if "col < ENGRAM_COLS" for token col
    using that by (simp add: engram_slot_row_def)
  have range: "\<not> et_rows t \<le> r" if "engram_readable rd t r" for r
    using that by (auto simp: engram_readable_def engram_read_def split: if_splits)
  show ?thesis
  proof (cases "\<exists>token < tokens. \<exists>col < ENGRAM_COLS. et_rows t \<le> rows ! (token * stride + col)")
    case True
    then have "engram_read_batch_readers qsort mix rd alloc_ok t rows tokens stride readers out = Inl E_INVAL"
      by (auto simp: engram_read_batch_readers_def list_ex_iff)
    then show ?thesis using True range by auto
  next
    case ok: False
    let ?cap = "min tokens BATCH_TOKENS"
    have run: "engram_read_batch_readers qsort mix rd alloc_ok t rows tokens stride readers out =
        engram_chunks qsort mix rd t rows stride readers tokens ?cap 0 out"
      using False ok by (simp add: engram_read_batch_readers_def list_ex_iff)
    have "?cap * ENGRAM_COLS < 2 ^ 32" by (simp add: ENGRAM_COLS_def BATCH_TOKENS_def min_def)
    moreover have "0 < readers" using False by (simp add: engram_batch_args_bad_def)
    moreover have "0 < ?cap" using False by (simp add: BATCH_TOKENS_def)
    ultimately have spec: "case engram_chunks qsort mix rd t rows stride readers tokens ?cap 0 out of
        Inl e \<Rightarrow> \<exists>i < tokens * ENGRAM_COLS. \<not> engram_readable rd t (engram_slot_row rows stride i)
      | Inr out' \<Rightarrow> engram_filled rd t rows stride 0 tokens out out'"
      using engram_chunks_filled [OF assms, where start = 0] by simp
    have bound: "token * ENGRAM_COLS + col < tokens * ENGRAM_COLS" if "token < tokens" "col < ENGRAM_COLS" for token col
      using that by (simp add: ENGRAM_COLS_def)
    show ?thesis
    proof (cases "engram_chunks qsort mix rd t rows stride readers tokens ?cap 0 out")
      case (Inl e)
      then obtain i where i: "i < tokens * ENGRAM_COLS" "\<not> engram_readable rd t (engram_slot_row rows stride i)"
        using spec by auto
      have "i div ENGRAM_COLS < tokens" "i mod ENGRAM_COLS < ENGRAM_COLS"
        using i(1) by (auto simp: less_mult_imp_div_less ENGRAM_COLS_def)
      then show ?thesis using i(2) unfolding run Inl engram_slot_row_def by auto
    next
      case (Inr out')
      have "engram_read rd t [rows ! (token * stride + col)] = Inr [out' (token * ENGRAM_COLS + col)]"
        if "token < tokens" "col < ENGRAM_COLS" for token col
        using spec [unfolded Inr sum.case engram_filled_def] bound [OF that] slot [OF that(2)] by fastforce
      then show ?thesis using spec [unfolded Inr sum.case engram_filled_def] unfolding run Inr by simp
    qed
  qed
qed

lemma engram_decode_zeros: "engram_decode (replicate 264 0) = Some (replicate 256 0)"
proof -
  have "engram_bf16 0 0 = 0" by code_simp
  then have "map (\<lambda>j. engram_bf16 (replicate 264 0 ! (ENGRAM_DIM + j div 32)) (replicate 264 0 ! j)) [0..<ENGRAM_DIM] =
      replicate 256 0"
    by (intro nth_equalityI) (auto simp: ENGRAM_DIM_def)
  then show ?thesis unfolding engram_decode_def Let_def by simp
qed

theorem engram_batch_equals_reads_witness:
  "\<exists>out'. engram_read_batch_readers id concat (\<lambda>_. Inr (replicate 264 0)) True
      \<lparr>et_open = True, et_offset = 8, et_rows = 5\<rparr> (replicate 24 3) 1 24 16 (\<lambda>_. []) = Inr out' \<and>
    replicate 256 0 = out' 23 \<and> out' 24 = []"
proof -
  let ?t = "\<lparr>et_open = True, et_offset = 8, et_rows = 5\<rparr>" and ?rd = "\<lambda>_. Inr (replicate 264 0)"
  have read: "engram_read ?rd ?t [3] = Inr [replicate 256 0]"
    by (simp add: engram_read_def engram_decode_zeros ENGRAM_DIM_def word_le_nat_alt)
  have re: "engram_reorders id concat" by (simp add: engram_reorders_def)
  have args: "\<not> engram_batch_args_bad ?t 1 24 16"
    by (simp add: engram_batch_args_bad_def ENGRAM_READERS_MAX_def ENGRAM_COLS_def ENGRAM_DIM_def)
  show ?thesis
    using engram_batch_equals_reads [OF re, where rd = ?rd and alloc_ok = True and t = ?t and rows = "replicate 24 3"
        and tokens = 1 and stride = 24 and readers = 16 and out = "\<lambda>_. []"] args read
    by (auto simp: ENGRAM_COLS_def engram_readable_def split: sum.splits)
qed

end
