(* ===== verification/Engram_Reader.thy ===== *)
theory Engram_Reader
  imports Engram_Table
begin

text \<open>
  The reusable two-table reader of ds4_engram.c (\<open>ds4_engram_reader\<close>): worker threads that wait for a
  generation, read their slice of the first table's rows and then of the second's, and post each
  result under the mutex. The model is a step relation on the shared state and the workers'
  program counters; every step is one critical section, or the unlocked read of a slice, so runs
  of the relation are the interleavings of the threads. The number of workers \<open>n\<close> is
  \<open>TOKEN_READERS\<close>: 24 on Apple, 4 elsewhere.
\<close>

datatype engram_phase = Waiting | Reading nat | Posting nat "errno option" | Exited

record engram_reader =
  rd_active :: bool
  rd_shutdown :: bool
  rd_generation :: u64
  rd_completed :: "nat \<Rightarrow> nat"
  rd_errors :: "nat \<Rightarrow> errno option"
  rd_tables :: "nat \<Rightarrow> engram_table"
  rd_ids :: "nat \<Rightarrow> u32 list"
  rd_out :: "nat \<Rightarrow> u32 list"
  rd_seen :: "nat \<Rightarrow> u64"
  rd_phase :: "nat \<Rightarrow> engram_phase"

definition engram_reader_create :: "(nat \<Rightarrow> u32 list) \<Rightarrow> engram_reader" where
  "engram_reader_create out =
     \<lparr>rd_active = False, rd_shutdown = False, rd_generation = 0, rd_completed = (\<lambda>_. 0),
      rd_errors = (\<lambda>_. None), rd_tables = (\<lambda>_. \<lparr>et_open = False, et_offset = 0, et_rows = 0\<rparr>),
      rd_ids = (\<lambda>_. []), rd_out = out, rd_seen = (\<lambda>_. 0), rd_phase = (\<lambda>_. Waiting)\<rparr>"

section \<open>The owner's calls\<close>

text \<open>\<open>Inl\<close> is the error of a refused start; \<open>out\<close> is the block the caller passes.\<close>

definition engram_reader_start ::
  "(nat \<Rightarrow> engram_table) \<Rightarrow> (nat \<Rightarrow> u32 list) \<Rightarrow> (nat \<Rightarrow> u32 list) \<Rightarrow> engram_reader \<Rightarrow> errno + engram_reader" where
  "engram_reader_start tables ids out r =
     (if list_ex (\<lambda>t. \<not> et_open (tables t) \<or> list_ex (\<lambda>col. et_rows (tables t) \<le> ids t ! col) [0..<ENGRAM_COLS]) [0, 1]
      then Inl E_INVAL
      else if rd_active r \<or> rd_shutdown r then Inl E_BUSY
      else Inr (r\<lparr>rd_tables := tables, rd_ids := ids, rd_errors := (\<lambda>_. None), rd_out := out,
                 rd_completed := (\<lambda>_. 0), rd_generation := rd_generation r + 1, rd_active := True\<rparr>))"

text \<open>\<open>None\<close>: the caller still sleeps on the condition.\<close>

definition engram_reader_wait :: "nat \<Rightarrow> engram_reader \<Rightarrow> nat \<Rightarrow> (errno + unit) option" where
  "engram_reader_wait n r table =
     (if 2 \<le> table then Some (Inl E_INVAL)
      else if \<not> rd_active r \<and> rd_completed r 1 = 0 then Some (Inl E_INVAL)
      else if rd_completed r table < n then None
      else case rd_errors r table of Some e \<Rightarrow> Some (Inl e) | None \<Rightarrow> Some (Inr ()))"

definition engram_reader_shutdown :: "engram_reader \<Rightarrow> engram_reader" where
  "engram_reader_shutdown r = r\<lparr>rd_shutdown := True\<rparr>"

section \<open>The workers\<close>

definition reader_first :: "nat \<Rightarrow> nat \<Rightarrow> nat" where
  "reader_first n i = i * ENGRAM_COLS div n"

definition reader_slice :: "nat \<Rightarrow> nat \<Rightarrow> u32 list \<Rightarrow> u32 list" where
  "reader_slice n i ids = map (\<lambda>col. ids ! col) [reader_first n i..<reader_first n (Suc i)]"

text \<open>What a worker posts for table \<open>t\<close>: the error, if it is the first, and its completion.\<close>

definition reader_post :: "nat \<Rightarrow> nat \<Rightarrow> errno option \<Rightarrow> engram_reader \<Rightarrow> engram_reader" where
  "reader_post n t error r =
     (let r = (if rd_errors r t = None then r\<lparr>rd_errors := (rd_errors r)(t := error)\<rparr> else r);
          r = r\<lparr>rd_completed := (rd_completed r)(t := rd_completed r t + 1)\<rparr>
      in if rd_completed r t = n \<and> t = 1 then r\<lparr>rd_active := False\<rparr> else r)"

text \<open>A failed read may leave anything in the slots of its slice.\<close>

inductive reader_worker :: "nat \<Rightarrow> (u64 \<Rightarrow> errno + u8 list) \<Rightarrow> engram_reader \<Rightarrow> engram_reader \<Rightarrow> bool" for n rd where
  wake: "i < n \<Longrightarrow> rd_phase r i = Waiting \<Longrightarrow> rd_generation r \<noteq> rd_seen r i \<Longrightarrow> \<not> rd_shutdown r \<Longrightarrow>
    reader_worker n rd r
      (r\<lparr>rd_seen := (rd_seen r)(i := rd_generation r), rd_phase := (rd_phase r)(i := Reading 0)\<rparr>)"
| leave: "i < n \<Longrightarrow> rd_phase r i = Waiting \<Longrightarrow> rd_shutdown r \<Longrightarrow>
    reader_worker n rd r (r\<lparr>rd_phase := (rd_phase r)(i := Exited)\<rparr>)"
| read_ok: "i < n \<Longrightarrow> rd_phase r i = Reading t \<Longrightarrow>
    engram_read rd (rd_tables r t) (reader_slice n i (rd_ids r t)) = Inr vs \<Longrightarrow>
    out = (\<lambda>k. if t * ENGRAM_COLS + reader_first n i \<le> k \<and> k < t * ENGRAM_COLS + reader_first n (Suc i)
               then vs ! (k - (t * ENGRAM_COLS + reader_first n i)) else rd_out r k) \<Longrightarrow>
    reader_worker n rd r (r\<lparr>rd_out := out, rd_phase := (rd_phase r)(i := Posting t None)\<rparr>)"
| read_fail: "i < n \<Longrightarrow> rd_phase r i = Reading t \<Longrightarrow>
    engram_read rd (rd_tables r t) (reader_slice n i (rd_ids r t)) = Inl e \<Longrightarrow>
    (\<And>k. k < t * ENGRAM_COLS + reader_first n i \<or> t * ENGRAM_COLS + reader_first n (Suc i) \<le> k \<Longrightarrow> out k = rd_out r k) \<Longrightarrow>
    reader_worker n rd r (r\<lparr>rd_out := out, rd_phase := (rd_phase r)(i := Posting t (Some e))\<rparr>)"
| post: "i < n \<Longrightarrow> rd_phase r i = Posting t error \<Longrightarrow>
    reader_worker n rd r
      ((reader_post n t error r)\<lparr>rd_phase := (rd_phase r)(i := (if t = 0 then Reading 1 else Waiting))\<rparr>)"

inductive reader_reachable :: "nat \<Rightarrow> (u64 \<Rightarrow> errno + u8 list) \<Rightarrow> engram_reader \<Rightarrow> bool" for n rd where
  create: "reader_reachable n rd (engram_reader_create out)"
| start: "reader_reachable n rd r \<Longrightarrow> engram_reader_start tables ids out r = Inr r' \<Longrightarrow> reader_reachable n rd r'"
| shutdown: "reader_reachable n rd r \<Longrightarrow> reader_reachable n rd (engram_reader_shutdown r)"
| worker: "reader_reachable n rd r \<Longrightarrow> reader_worker n rd r r' \<Longrightarrow> reader_reachable n rd r'"

inductive_cases reader_workerE: "reader_worker n rd r r'"

section \<open>Slices\<close>

lemma reader_first_mono: "i \<le> j \<Longrightarrow> reader_first n i \<le> reader_first n j"
  by (simp add: reader_first_def div_le_mono)

lemma reader_first_bounds [simp]: "reader_first n 0 = 0" "0 < n \<Longrightarrow> reader_first n n = ENGRAM_COLS"
  by (simp_all add: reader_first_def)

lemma reader_first_le: "i \<le> n \<Longrightarrow> 0 < n \<Longrightarrow> reader_first n i \<le> ENGRAM_COLS"
  using reader_first_mono [of i n n] by simp

lemma reader_slice_of:
  assumes "0 < n" and "col < ENGRAM_COLS"
  shows "\<exists>i < n. reader_first n i \<le> col \<and> col < reader_first n (Suc i)"
proof -
  define i where "i = (LEAST j. col < reader_first n j)"
  have ex: "col < reader_first n n" using assms by simp
  have i: "col < reader_first n i" unfolding i_def by (rule LeastI) (rule ex)
  have "i \<le> n" unfolding i_def by (rule Least_le) (rule ex)
  moreover obtain j where "i = Suc j" using i by (cases i) auto
  moreover have "\<not> col < reader_first n j" using not_less_Least [of j "\<lambda>j. col < reader_first n j"] calculation
    by (simp add: i_def)
  ultimately show ?thesis using i by (intro exI [of _ j]) simp
qed

lemma reader_slices_disjoint:
  assumes "i \<noteq> j" and "reader_first n i \<le> c" and "c < reader_first n (Suc i)"
  shows "\<not> (reader_first n j \<le> c \<and> c < reader_first n (Suc j))"
proof (cases "i < j")
  case True
  then show ?thesis using assms reader_first_mono [of "Suc i" j n] by simp
next
  case False
  then show ?thesis using assms reader_first_mono [of "Suc j" i n] by simp
qed

section \<open>The invariant\<close>

text \<open>Worker \<open>i\<close> has posted table \<open>t\<close> of the current generation.\<close>

definition reader_posted :: "engram_reader \<Rightarrow> nat \<Rightarrow> nat \<Rightarrow> bool" where
  "reader_posted r i t =
     (case rd_phase r i of Reading u \<Rightarrow> t < u | Posting u _ \<Rightarrow> t < u | _ \<Rightarrow> rd_seen r i = rd_generation r)"

definition reader_idle :: "engram_reader \<Rightarrow> nat \<Rightarrow> bool" where
  "reader_idle r i \<longleftrightarrow> rd_phase r i = Waiting \<or> rd_phase r i = Exited"

text \<open>The slots of worker \<open>i\<close> for table \<open>t\<close> hold their rows.\<close>

definition reader_good :: "nat \<Rightarrow> (u64 \<Rightarrow> errno + u8 list) \<Rightarrow> engram_reader \<Rightarrow> nat \<Rightarrow> nat \<Rightarrow> bool" where
  "reader_good n rd r i t \<longleftrightarrow>
     (\<forall>col. reader_first n i \<le> col \<and> col < reader_first n (Suc i) \<longrightarrow>
        engram_read rd (rd_tables r t) [rd_ids r t ! col] = Inr [rd_out r (t * ENGRAM_COLS + col)])"

definition reader_pristine :: "nat \<Rightarrow> engram_reader \<Rightarrow> bool" where
  "reader_pristine n r \<longleftrightarrow> \<not> rd_active r \<and> rd_completed r = (\<lambda>_. 0) \<and>
     (\<forall>i < n. reader_idle r i \<and> rd_seen r i = rd_generation r)"

definition reader_phase_ok :: "engram_reader \<Rightarrow> nat \<Rightarrow> bool" where
  "reader_phase_ok r i \<longleftrightarrow>
     (\<forall>u x. rd_phase r i = Reading u \<or> rd_phase r i = Posting u x \<longrightarrow> u < 2 \<and> rd_seen r i = rd_generation r)"

definition reader_counts :: "nat \<Rightarrow> engram_reader \<Rightarrow> bool" where
  "reader_counts n r \<longleftrightarrow>
     (\<forall>i < n. reader_phase_ok r i) \<and>
     (\<forall>t < 2. rd_completed r t = card {i \<in> {..<n}. reader_posted r i t}) \<and>
     (rd_active r \<longleftrightarrow> rd_completed r 1 < n)"

definition reader_data :: "nat \<Rightarrow> (u64 \<Rightarrow> errno + u8 list) \<Rightarrow> engram_reader \<Rightarrow> bool" where
  "reader_data n rd r \<longleftrightarrow>
     (\<forall>i < n. \<forall>t < 2. reader_posted r i t \<and> rd_errors r t = None \<longrightarrow> reader_good n rd r i t) \<and>
     (\<forall>t < 2. \<forall>e. rd_errors r t = Some e \<longrightarrow>
        (\<exists>i < n. engram_read rd (rd_tables r t) (reader_slice n i (rd_ids r t)) = Inl e)) \<and>
     (\<forall>i < n. \<forall>t x. rd_phase r i = Posting t x \<longrightarrow>
        (case x of None \<Rightarrow> reader_good n rd r i t
         | Some e \<Rightarrow> engram_read rd (rd_tables r t) (reader_slice n i (rd_ids r t)) = Inl e))"

definition reader_inv :: "nat \<Rightarrow> (u64 \<Rightarrow> errno + u8 list) \<Rightarrow> engram_reader \<Rightarrow> bool" where
  "reader_inv n rd r \<longleftrightarrow> reader_pristine n r \<or> reader_counts n r \<and> reader_data n rd r"

lemma reader_inv_create: "reader_inv n rd (engram_reader_create out)"
  by (simp add: reader_inv_def reader_pristine_def engram_reader_create_def reader_idle_def)

lemma reader_all_posted:
  assumes "reader_counts n r" and "t < 2" and "rd_completed r t = n" and "i < n"
  shows "reader_posted r i t"
proof -
  have "card {i \<in> {..<n}. reader_posted r i t} = card {..<n}" using assms by (simp add: reader_counts_def)
  then have "{i \<in> {..<n}. reader_posted r i t} = {..<n}" by (intro card_subset_eq) auto
  then show ?thesis using assms(4) by auto
qed

lemma reader_completed_le: "reader_counts n r \<Longrightarrow> t < 2 \<Longrightarrow> rd_completed r t \<le> n"
  unfolding reader_counts_def using card_mono [of "{..<n}" "{i \<in> {..<n}. reader_posted r i t}"] by auto

text \<open>Between two generations nobody is reading: what makes overwriting tables and ids safe.\<close>

lemma reader_inactive_idle:
  assumes "reader_inv n rd r" and "\<not> rd_active r" and "i < n"
  shows "reader_idle r i \<and> rd_seen r i = rd_generation r"
proof (cases "reader_pristine n r")
  case True
  then show ?thesis using assms(3) by (simp add: reader_pristine_def)
next
  case False
  then have c: "reader_counts n r" using assms(1) by (simp add: reader_inv_def)
  then have "\<not> rd_completed r 1 < n" using assms(2) unfolding reader_counts_def by blast
  moreover have "rd_completed r 1 \<le> n" using c by (rule reader_completed_le) simp
  ultimately have "rd_completed r 1 = n" by simp
  from reader_all_posted [OF c _ this assms(3)] have "reader_posted r i 1" by simp
  then show ?thesis using c assms(3)
    by (auto simp: reader_posted_def reader_counts_def reader_phase_ok_def reader_idle_def split: engram_phase.splits)
qed

lemma reader_inv_start:
  assumes "reader_inv n rd r" and "engram_reader_start tables ids out r = Inr r'" and "0 < n"
  shows "reader_inv n rd r'"
proof -
  have act: "\<not> rd_active r" using assms(2) by (auto simp: engram_reader_start_def split: if_splits)
  have r': "rd_phase r' = rd_phase r" "rd_seen r' = rd_seen r" "rd_generation r' = rd_generation r + 1"
    "rd_completed r' = (\<lambda>_. 0)" "rd_errors r' = (\<lambda>_. None)" "rd_active r'"
    using assms(2) by (auto simp: engram_reader_start_def split: if_splits)
  note idle = reader_inactive_idle [OF assms(1) act]
  have no: "\<not> reader_posted r' i t" if "i < n" for i t
    using idle [OF that] r' by (auto simp: reader_posted_def reader_idle_def)
  then have "{i \<in> {..<n}. reader_posted r' i t} = {}" for t by auto
  then have "reader_counts n r'" using idle r' assms(3)
    by (fastforce simp: reader_counts_def reader_phase_ok_def reader_idle_def)
  moreover have "reader_data n rd r'" using idle r' no by (fastforce simp: reader_data_def reader_idle_def)
  ultimately show ?thesis by (simp add: reader_inv_def)
qed

lemma engram_read_each:
  assumes "engram_read rd t rs = Inr vs"
  shows "length vs = length rs \<and> (\<forall>k < length rs. engram_read rd t [rs ! k] = Inr [vs ! k])"
proof -
  have "engram_read_loop rd t rs = Inr vs \<Longrightarrow>
      length vs = length rs \<and> (\<forall>k < length rs. engram_read_loop rd t [rs ! k] = Inr [vs ! k])"
  proof (induction rs arbitrary: vs)
    case (Cons r rs)
    from Cons.prems obtain raw v ws where
      *: "rd (et_offset t + ucast r * of_nat ENGRAM_ROW_BYTES) = Inr raw" "engram_decode raw = Some v"
        "engram_read_loop rd t rs = Inr ws" "vs = v # ws"
      by (auto split: sum.splits option.splits)
    show ?case using * Cons.IH [OF *(3)] by (auto simp: nth_Cons split: nat.splits)
  qed simp
  then show ?thesis using assms
    by (auto simp: engram_read_def list_ex_iff ENGRAM_DIM_def split: if_splits)
qed

lemma reader_slice_nth:
  "k < reader_first n (Suc i) - reader_first n i \<Longrightarrow> reader_slice n i ids ! k = ids ! (reader_first n i + k)"
  by (simp add: reader_slice_def)

lemma reader_good_after_read:
  assumes "engram_read rd (rd_tables r t) (reader_slice n i (rd_ids r t)) = Inr vs"
    and "rd_tables r' = rd_tables r" and "rd_ids r' = rd_ids r"
    and "rd_out r' = (\<lambda>k. if t * ENGRAM_COLS + reader_first n i \<le> k \<and> k < t * ENGRAM_COLS + reader_first n (Suc i)
               then vs ! (k - (t * ENGRAM_COLS + reader_first n i)) else rd_out r k)"
  shows "reader_good n rd r' i t"
  unfolding reader_good_def
proof (intro allI impI, elim conjE)
  fix col assume c: "reader_first n i \<le> col" "col < reader_first n (Suc i)"
  let ?k = "col - reader_first n i"
  have "?k < length (reader_slice n i (rd_ids r t))" using c by (simp add: reader_slice_def)
  then have "engram_read rd (rd_tables r t) [reader_slice n i (rd_ids r t) ! ?k] = Inr [vs ! ?k]"
    using engram_read_each [OF assms(1)] by blast
  moreover have "reader_slice n i (rd_ids r t) ! ?k = rd_ids r t ! col"
    using c reader_slice_nth [of ?k n i "rd_ids r t"] by simp
  moreover have "rd_out r' (t * ENGRAM_COLS + col) = vs ! ?k" using c by (simp add: assms(4))
  ultimately show "engram_read rd (rd_tables r' t) [rd_ids r' t ! col] = Inr [rd_out r' (t * ENGRAM_COLS + col)]"
    by (simp add: assms(2,3))
qed

text \<open>Writing one slice leaves every other worker's and table's slots alone.\<close>

lemma reader_good_frame:
  assumes "reader_good n rd r j u" and "0 < n" and "i < n" and "j < n" and "(j, u) \<noteq> (i, t)"
    and "rd_tables r' = rd_tables r" and "rd_ids r' = rd_ids r"
    and out: "\<And>k. k < t * ENGRAM_COLS + reader_first n i \<or> t * ENGRAM_COLS + reader_first n (Suc i) \<le> k \<Longrightarrow>
      rd_out r' k = rd_out r k"
  shows "reader_good n rd r' j u"
  unfolding reader_good_def
proof (intro allI impI)
  fix col assume c: "reader_first n j \<le> col \<and> col < reader_first n (Suc j)"
  let ?k = "u * ENGRAM_COLS + col"
  have col: "col < ENGRAM_COLS" using c reader_first_le [of "Suc j" n] assms(2,4) by simp
  have top: "reader_first n (Suc i) \<le> ENGRAM_COLS" using reader_first_le [of "Suc i" n] assms(2,3) by simp
  have "?k < t * ENGRAM_COLS + reader_first n i \<or> t * ENGRAM_COLS + reader_first n (Suc i) \<le> ?k"
  proof (rule ccontr)
    assume "\<not> ?thesis"
    then have k: "t * ENGRAM_COLS + reader_first n i \<le> ?k" "?k < t * ENGRAM_COLS + reader_first n (Suc i)" by auto
    have "u = t" using k col top by (auto simp: ENGRAM_COLS_def)
    then show False using k c assms(5) reader_slices_disjoint [of j i n col] by auto
  qed
  then have "rd_out r' ?k = rd_out r ?k" by (rule out)
  then show "engram_read rd (rd_tables r' u) [rd_ids r' u ! col] = Inr [rd_out r' ?k]"
    using assms(1,6,7) c by (simp add: reader_good_def)
qed

lemma reader_good_cong:
  "rd_tables r' = rd_tables r \<Longrightarrow> rd_ids r' = rd_ids r \<Longrightarrow> rd_out r' = rd_out r \<Longrightarrow>
    reader_good n rd r' i t = reader_good n rd r i t"
  by (simp add: reader_good_def)

lemma reader_pristine_phase:
  "reader_pristine n r \<Longrightarrow> i < n \<Longrightarrow> rd_phase r i \<noteq> Reading t \<and> rd_phase r i \<noteq> Posting t x"
  by (auto simp: reader_pristine_def reader_idle_def)

text \<open>A step of worker \<open>i\<close> that posts nothing keeps the counts.\<close>

lemma reader_counts_step:
  assumes "reader_counts n r" and "rd_completed r' = rd_completed r" and "rd_active r' = rd_active r"
    and "rd_generation r' = rd_generation r"
    and "\<And>j. j \<noteq> i \<Longrightarrow> rd_phase r' j = rd_phase r j \<and> rd_seen r' j = rd_seen r j"
    and "\<And>t. t < 2 \<Longrightarrow> reader_posted r' i t = reader_posted r i t"
    and "reader_phase_ok r' i"
  shows "reader_counts n r'" and "t < 2 \<Longrightarrow> reader_posted r' j t = reader_posted r j t"
proof -
  have same: "reader_posted r' j t = reader_posted r j t" if "t < 2" for j t
  proof (cases "j = i")
    case False
    then show ?thesis using assms(4) assms(5) [OF False] by (simp add: reader_posted_def split: engram_phase.split)
  qed (use assms(6) that in simp)
  then show "t < 2 \<Longrightarrow> reader_posted r' j t = reader_posted r j t" .
  have "reader_phase_ok r' j" if "j < n" for j
  proof (cases "j = i")
    case False
    then show ?thesis using assms(1,4) assms(5) [OF False] that by (simp add: reader_counts_def reader_phase_ok_def)
  qed (use assms(7) in simp)
  then show "reader_counts n r'" using assms(1-3) same by (simp add: reader_counts_def cong: conj_cong)
qed

lemma reader_data_step:
  assumes "reader_data n rd r" and "rd_tables r' = rd_tables r" and "rd_ids r' = rd_ids r"
    and "rd_out r' = rd_out r" and "rd_errors r' = rd_errors r"
    and "\<And>j t. t < 2 \<Longrightarrow> reader_posted r' j t = reader_posted r j t"
    and "\<And>j t x. rd_phase r' j = Posting t x \<Longrightarrow> rd_phase r j = Posting t x"
  shows "reader_data n rd r'"
proof -
  have good: "reader_good n rd r' j t = reader_good n rd r j t" for j t
    using assms(2-4) by (rule reader_good_cong)
  show ?thesis using assms(1) assms(6) unfolding reader_data_def good assms(2,3,5)
    by (auto dest!: assms(7))
qed

lemma reader_inv_wake:
  assumes "reader_inv n rd r" and "i < n" and "rd_phase r i = Waiting" and "rd_generation r \<noteq> rd_seen r i"
  shows "reader_inv n rd (r\<lparr>rd_seen := (rd_seen r)(i := rd_generation r), rd_phase := (rd_phase r)(i := Reading 0)\<rparr>)"
    (is "reader_inv n rd ?r")
proof -
  have c: "reader_counts n r" "reader_data n rd r"
    using assms by (auto simp: reader_inv_def reader_pristine_def)
  have post: "reader_posted ?r i t = reader_posted r i t" for t
    using assms(3,4) by (simp add: reader_posted_def)
  have step: "reader_counts n ?r" "t < 2 \<Longrightarrow> reader_posted ?r j t = reader_posted r j t" for j t
    by (rule reader_counts_step [where i = i and r = r]; use c post in \<open>simp add: reader_phase_ok_def\<close>)+
  have "reader_data n rd ?r"
    by (rule reader_data_step [OF c(2)]) (use step(2) in \<open>auto split: if_splits\<close>)
  then show ?thesis using step(1) by (simp add: reader_inv_def)
qed

lemma reader_inv_leave:
  assumes "reader_inv n rd r" and "i < n" and "rd_phase r i = Waiting"
  shows "reader_inv n rd (r\<lparr>rd_phase := (rd_phase r)(i := Exited)\<rparr>)" (is "reader_inv n rd ?r")
proof (cases "reader_pristine n r")
  case True
  then show ?thesis by (simp add: reader_inv_def reader_pristine_def reader_idle_def)
next
  case False
  then have c: "reader_counts n r" "reader_data n rd r" using assms by (auto simp: reader_inv_def)
  have post: "reader_posted ?r i t = reader_posted r i t" for t
    using assms(3) by (simp add: reader_posted_def)
  have step: "reader_counts n ?r" "t < 2 \<Longrightarrow> reader_posted ?r j t = reader_posted r j t" for j t
    by (rule reader_counts_step [where i = i and r = r]; use c post in \<open>simp add: reader_phase_ok_def\<close>)+
  have "reader_data n rd ?r"
    by (rule reader_data_step [OF c(2)]) (use step(2) in \<open>auto split: if_splits\<close>)
  then show ?thesis using step(1) by (simp add: reader_inv_def)
qed

lemma reader_inv_read:
  assumes "reader_inv n rd r" and "0 < n" and "i < n" and "rd_phase r i = Reading t"
    and frame: "\<And>k. k < t * ENGRAM_COLS + reader_first n i \<or> t * ENGRAM_COLS + reader_first n (Suc i) \<le> k \<Longrightarrow>
      out k = rd_out r k"
    and res: "case x of
        None \<Rightarrow> reader_good n rd (r\<lparr>rd_out := out\<rparr>) i t
      | Some e \<Rightarrow> engram_read rd (rd_tables r t) (reader_slice n i (rd_ids r t)) = Inl e"
  shows "reader_inv n rd (r\<lparr>rd_out := out, rd_phase := (rd_phase r)(i := Posting t x)\<rparr>)" (is "reader_inv n rd ?r")
proof -
  have c: "reader_counts n r" "reader_data n rd r"
    using assms(1,3,4) reader_pristine_phase by (auto simp: reader_inv_def)
  have post: "reader_posted ?r i u = reader_posted r i u" for u using assms(4) by (simp add: reader_posted_def)
  have ph: "t < 2 \<and> rd_seen r i = rd_generation r"
    using c(1) assms(3,4) by (auto simp: reader_counts_def reader_phase_ok_def)
  have step: "reader_counts n ?r" "u < 2 \<Longrightarrow> reader_posted ?r j u = reader_posted r j u" for j u
    by (rule reader_counts_step [where i = i and r = r]; use c post ph in \<open>simp add: reader_phase_ok_def\<close>)+
  have good: "reader_good n rd ?r j u" if "reader_good n rd r j u" "j < n" "(j, u) \<noteq> (i, t)" for j u
    using reader_good_frame [OF that(1) assms(2,3) that(2,3), of ?r] frame by simp
  have "reader_data n rd ?r"
    unfolding reader_data_def
  proof (intro conjI allI impI)
    fix j u assume j: "j < n" "u < 2" "reader_posted ?r j u \<and> rd_errors ?r u = None"
    then have p: "reader_posted r j u" "rd_errors r u = None" using step(2) by auto
    have "(j, u) \<noteq> (i, t)" using p(1) assms(4) by (auto simp: reader_posted_def)
    then show "reader_good n rd ?r j u" using good [of j u] c(2) j p by (auto simp: reader_data_def)
  next
    fix j u y assume j: "j < n" "rd_phase ?r j = Posting u y"
    show "case y of None \<Rightarrow> reader_good n rd ?r j u
      | Some e \<Rightarrow> engram_read rd (rd_tables ?r u) (reader_slice n j (rd_ids ?r u)) = Inl e"
    proof (cases "j = i")
      case True
      then show ?thesis using res j by (auto simp: reader_good_def split: option.splits)
    next
      case False
      then show ?thesis using c(2) j good [of j u] by (auto simp: reader_data_def split: option.splits)
    qed
  qed (use c(2) in \<open>auto simp: reader_data_def\<close>)
  then show ?thesis using step(1) by (simp add: reader_inv_def)
qed

lemma reader_post_fields:
  "rd_phase (reader_post n t x r) = rd_phase r" "rd_seen (reader_post n t x r) = rd_seen r"
  "rd_generation (reader_post n t x r) = rd_generation r" "rd_tables (reader_post n t x r) = rd_tables r"
  "rd_ids (reader_post n t x r) = rd_ids r" "rd_out (reader_post n t x r) = rd_out r"
  "rd_shutdown (reader_post n t x r) = rd_shutdown r"
  "rd_completed (reader_post n t x r) = (rd_completed r)(t := rd_completed r t + 1)"
  "rd_errors (reader_post n t x r) = (if rd_errors r t = None then (rd_errors r)(t := x) else rd_errors r)"
  "rd_active (reader_post n t x r) = (if rd_completed r t + 1 = n \<and> t = 1 then False else rd_active r)"
  by (auto simp: reader_post_def Let_def)

lemma reader_inv_post:
  assumes "reader_inv n rd r" and "i < n" and "rd_phase r i = Posting t x"
  shows "reader_inv n rd ((reader_post n t x r)\<lparr>rd_phase := (rd_phase r)(i := (if t = 0 then Reading 1 else Waiting))\<rparr>)"
    (is "reader_inv n rd ?r")
proof -
  have c: "reader_counts n r" "reader_data n rd r"
    using assms reader_pristine_phase by (auto simp: reader_inv_def)
  have ph: "t < 2" "rd_seen r i = rd_generation r"
    using c(1) assms(2,3) by (auto simp: reader_counts_def reader_phase_ok_def)
  have np: "\<not> reader_posted r i t" using assms(3) by (simp add: reader_posted_def)
  have post: "reader_posted ?r j u \<longleftrightarrow> reader_posted r j u \<or> (j, u) = (i, t)" if "u < 2" for j u
  proof (cases "j = i")
    case True
    have "u = 0 \<or> u = 1" "t = 0 \<or> t = 1" using that ph(1) by auto
    then show ?thesis using True ph assms(3) by (auto simp: reader_posted_def reader_post_fields)
  qed (simp add: reader_posted_def reader_post_fields split: engram_phase.split)
  have cnt: "{j \<in> {..<n}. reader_posted ?r j u} =
      (if u = t then insert i {j \<in> {..<n}. reader_posted r j u} else {j \<in> {..<n}. reader_posted r j u})"
    if "u < 2" for u
    using post [OF that] assms(2) by auto
  have less: "rd_completed r t < n"
  proof (rule ccontr)
    assume "\<not> ?thesis"
    then have "rd_completed r t = n" using reader_completed_le [OF c(1) ph(1)] by simp
    then show False using reader_all_posted [OF c(1) ph(1) _ assms(2)] np by simp
  qed
  have "reader_counts n ?r"
    unfolding reader_counts_def
  proof (intro conjI allI impI)
    fix j assume "j < n"
    then show "reader_phase_ok ?r j"
      using c(1) ph by (auto simp: reader_counts_def reader_phase_ok_def reader_post_fields)
  next
    fix u :: nat assume u: "u < 2"
    then have "rd_completed r u = card {j \<in> {..<n}. reader_posted r j u}" using c(1) by (simp add: reader_counts_def)
    then show "rd_completed ?r u = card {j \<in> {..<n}. reader_posted ?r j u}"
      unfolding cnt [OF u] using np by (cases "u = t") (simp_all add: reader_post_fields)
  next
    show "rd_active ?r \<longleftrightarrow> rd_completed ?r 1 < n"
      using c(1) less ph(1) by (auto simp: reader_counts_def reader_post_fields)
  qed
  moreover have "reader_data n rd ?r"
    unfolding reader_data_def
  proof (intro conjI allI impI)
    fix j u assume j: "j < n" "u < 2" "reader_posted ?r j u \<and> rd_errors ?r u = None"
    then have e: "rd_errors r u = None" "(j, u) = (i, t) \<Longrightarrow> x = None"
      by (auto simp: reader_post_fields split: if_splits)
    have "reader_good n rd r j u"
      using c(2) j e post [OF j(2)] assms(2,3) by (auto simp: reader_data_def split: option.splits)
    then show "reader_good n rd ?r j u" by (simp add: reader_good_def reader_post_fields)
  next
    fix u e assume u: "u < 2" "rd_errors ?r u = Some e"
    then have "rd_errors r u = Some e \<or> (u = t \<and> x = Some e)" by (auto simp: reader_post_fields split: if_splits)
    then show "\<exists>j < n. engram_read rd (rd_tables ?r u) (reader_slice n j (rd_ids ?r u)) = Inl e"
      using c(2) u(1) assms(2,3) by (auto simp: reader_data_def reader_post_fields split: option.splits)
  next
    fix j u y assume j: "j < n" "rd_phase ?r j = Posting u y"
    then have "rd_phase r j = Posting u y" by (auto split: if_splits)
    then show "case y of None \<Rightarrow> reader_good n rd ?r j u
      | Some e \<Rightarrow> engram_read rd (rd_tables ?r u) (reader_slice n j (rd_ids ?r u)) = Inl e"
      using c(2) j(1) by (auto simp: reader_data_def reader_good_def reader_post_fields split: option.splits)
  qed
  ultimately show ?thesis by (simp add: reader_inv_def)
qed

lemma reader_inv_worker:
  assumes "reader_worker n rd r r'" and "reader_inv n rd r" and "0 < n"
  shows "reader_inv n rd r'"
  using assms(1)
proof cases
  case (wake i)
  then show ?thesis using reader_inv_wake [OF assms(2)] by simp
next
  case (leave i)
  then show ?thesis using reader_inv_leave [OF assms(2)] by simp
next
  case (read_ok i t vs out)
  show ?thesis unfolding read_ok(1)
    by (rule reader_inv_read [OF assms(2,3) read_ok(2,3)])
      (use read_ok(4,5) reader_good_after_read [OF read_ok(4), of "r\<lparr>rd_out := out\<rparr>"] in auto)
next
  case (read_fail i t e out)
  show ?thesis unfolding read_fail(1)
    by (rule reader_inv_read [OF assms(2,3) read_fail(2,3)]) (use read_fail(4,5) in auto)
next
  case (post i t error)
  then show ?thesis using reader_inv_post [OF assms(2)] by simp
qed

lemma reader_inv_shutdown:
  assumes "reader_inv n rd r"
  shows "reader_inv n rd (engram_reader_shutdown r)" (is "reader_inv n rd ?r")
proof (cases "reader_pristine n r")
  case True
  then show ?thesis by (simp add: reader_inv_def reader_pristine_def reader_idle_def engram_reader_shutdown_def)
next
  case False
  then have c: "reader_counts n r" "reader_data n rd r" using assms by (auto simp: reader_inv_def)
  have post: "reader_posted ?r i t = reader_posted r i t" for i t
    by (simp add: reader_posted_def engram_reader_shutdown_def split: engram_phase.split)
  have "reader_counts n ?r" using c(1) post
    by (simp add: reader_counts_def reader_phase_ok_def) (simp add: engram_reader_shutdown_def)
  moreover have "reader_data n rd ?r"
    by (rule reader_data_step [OF c(2)]) (use post in \<open>auto simp: engram_reader_shutdown_def\<close>)
  ultimately show ?thesis by (simp add: reader_inv_def)
qed

lemma reader_reachable_inv: "reader_reachable n rd r \<Longrightarrow> 0 < n \<Longrightarrow> reader_inv n rd r"
  by (induction rule: reader_reachable.induct)
    (auto intro: reader_inv_create reader_inv_start reader_inv_shutdown reader_inv_worker)

section \<open>Properties\<close>


text \<open>A request can only be started when no worker is still reading for the previous one, so the
  tables, ids and output block a worker uses never change under it.\<close>

theorem engram_reader_start_exclusive:
  assumes "reader_reachable n rd r" and "0 < n" and "engram_reader_start tables ids out r = Inr r'"
  shows "\<forall>i < n. \<forall>t x. rd_phase r i \<noteq> Reading t \<and> rd_phase r i \<noteq> Posting t x"
proof -
  have "\<not> rd_active r" using assms(3) by (auto simp: engram_reader_start_def split: if_splits)
  then have "reader_idle r i" if "i < n" for i
    using reader_inactive_idle [OF reader_reachable_inv [OF assms(1,2)]] that by blast
  then show ?thesis by (fastforce simp: reader_idle_def)
qed

section \<open>Liveness\<close>

text \<open>The steps a worker still has to do for the current generation.\<close>

definition reader_todo :: "engram_reader \<Rightarrow> nat \<Rightarrow> nat" where
  "reader_todo r i =
     (case rd_phase r i of
        Waiting \<Rightarrow> if rd_seen r i = rd_generation r then 0 else 5
      | Reading t \<Rightarrow> if t = 0 then 4 else 2
      | Posting t _ \<Rightarrow> if t = 0 then 3 else 1
      | Exited \<Rightarrow> 0)"

definition reader_work :: "nat \<Rightarrow> engram_reader \<Rightarrow> nat" where
  "reader_work n r = sum (reader_todo r) {..<n}"

lemma reader_work_bound: "reader_work n r \<le> 5 * n"
proof -
  have "reader_todo r i \<le> 5" for i by (simp add: reader_todo_def split: engram_phase.split)
  then have "reader_work n r \<le> of_nat (card {..<n}) * 5" unfolding reader_work_def by (rule sum_bounded_above)
  then show ?thesis by simp
qed

lemma reader_work_less:
  assumes "i < n" and "reader_todo r' i < reader_todo r i" and "\<And>j. j \<noteq> i \<Longrightarrow> reader_todo r' j = reader_todo r j"
  shows "reader_work n r' < reader_work n r"
proof -
  have "reader_todo r' j \<le> reader_todo r j" for j using assms(2,3) by (cases "j = i") auto
  then show ?thesis unfolding reader_work_def using assms(1,2) by (intro sum_strict_mono_ex1) auto
qed

lemma reader_worker_shutdown: "reader_worker n rd r r' \<Longrightarrow> rd_shutdown r' = rd_shutdown r"
  by (auto elim!: reader_workerE simp: reader_post_fields)

lemma reader_worker_work:
  assumes "reader_worker n rd r r'" and "\<not> rd_shutdown r" and "reader_inv n rd r"
  shows "reader_work n r' < reader_work n r"
  using assms(1)
proof cases
  case (wake i)
  then show ?thesis by (intro reader_work_less [of i]) (auto simp: reader_todo_def)
next
  case (leave i)
  then show ?thesis using assms(2) by simp
next
  case (read_ok i t vs out)
  then show ?thesis by (intro reader_work_less [of i]) (auto simp: reader_todo_def)
next
  case (read_fail i t e out)
  then show ?thesis by (intro reader_work_less [of i]) (auto simp: reader_todo_def)
next
  case (post i t error)
  then have "rd_seen r i = rd_generation r"
    using assms(3) reader_pristine_phase by (fastforce simp: reader_inv_def reader_counts_def reader_phase_ok_def)
  then show ?thesis using post
    by (intro reader_work_less [of i]) (auto simp: reader_todo_def reader_post_fields split: engram_phase.split)
qed

lemma reader_exited: "reader_reachable n rd r \<Longrightarrow> rd_phase r i = Exited \<Longrightarrow> rd_shutdown r"
proof (induction arbitrary: i rule: reader_reachable.induct)
  case (start r tables ids out r')
  then show ?case by (auto simp: engram_reader_start_def split: if_splits)
next
  case (worker r r')
  from worker.hyps(2) show ?case
    using worker.IH worker.prems by cases (auto simp: reader_post_fields split: if_splits)
qed (auto simp: engram_reader_create_def engram_reader_shutdown_def)

text \<open>A worker that is neither asleep nor gone can always move.\<close>

lemma reader_worker_enabled:
  assumes "i < n" and "\<nexists>r'. reader_worker n rd r r'" and "\<not> rd_shutdown r"
  shows "rd_phase r i = Exited \<or> rd_phase r i = Waiting \<and> rd_seen r i = rd_generation r"
proof (cases "rd_phase r i")
  case Waiting
  then show ?thesis using assms reader_worker.wake [of i n r rd] by metis
next
  case (Reading t)
  then show ?thesis
    using assms reader_worker.read_ok [OF assms(1) Reading _ refl, of rd]
      reader_worker.read_fail [OF assms(1) Reading, of rd _ "rd_out r"]
    by (cases "engram_read rd (rd_tables r t) (reader_slice n i (rd_ids r t))") blast+
next
  case (Posting t x)
  then show ?thesis using assms reader_worker.post [OF assms(1) Posting] by blast
qed simp

lemma reader_reachable_steps:
  assumes "(reader_worker n rd ^^ k) r r'" and "reader_reachable n rd r" and "0 < n" and "\<not> rd_shutdown r"
  shows "reader_reachable n rd r' \<and> \<not> rd_shutdown r' \<and> reader_work n r' + k \<le> reader_work n r"
  using assms(1)
proof (induction k arbitrary: r')
  case (Suc k)
  then obtain m where m: "(reader_worker n rd ^^ k) r m" "reader_worker n rd m r'" by auto
  note IH = Suc.IH [OF m(1)]
  have "reader_work n r' < reader_work n m"
    using reader_worker_work [OF m(2)] reader_reachable_inv assms(3) IH by blast
  then show ?case using IH reader_worker_shutdown [OF m(2)] reader_reachable.worker [OF _ m(2)] by simp
qed (use assms in simp)


section \<open>A run\<close>

definition reader_demo_rd :: "u64 \<Rightarrow> errno + u8 list" where "reader_demo_rd = (\<lambda>_. Inr (replicate 264 0))"

definition reader_demo :: engram_reader where
  "reader_demo = (engram_reader_create (\<lambda>_. []))\<lparr>
     rd_tables := (\<lambda>_. \<lparr>et_open = True, et_offset = 8, et_rows = 5\<rparr>), rd_ids := (\<lambda>_. replicate 24 3),
     rd_generation := 1, rd_active := True\<rparr>"

lemma reader_demo_start:
  "engram_reader_start (\<lambda>_. \<lparr>et_open = True, et_offset = 8, et_rows = 5\<rparr>) (\<lambda>_. replicate 24 3) (\<lambda>_. [])
     (engram_reader_create (\<lambda>_. [])) = Inr reader_demo"
  by (simp add: engram_reader_start_def engram_reader_create_def reader_demo_def ENGRAM_COLS_def list_ex_iff
      word_le_nat_alt)

lemma reader_demo_reachable: "reader_reachable 1 reader_demo_rd reader_demo"
  by (rule reader_reachable.start [OF reader_reachable.create reader_demo_start])

lemma reader_demo_read: "engram_read reader_demo_rd \<lparr>et_open = True, et_offset = 8, et_rows = 5\<rparr>
    (reader_slice 1 0 (replicate 24 3)) = Inr (replicate 24 (replicate 256 0))"
proof -
  have "reader_slice 1 0 (replicate 24 3) = replicate 24 (3 :: u32)"
    unfolding reader_slice_def by (intro nth_equalityI) (auto simp: reader_first_def ENGRAM_COLS_def)
  moreover have "engram_read_loop reader_demo_rd t (replicate k 3) = Inr (replicate k (replicate 256 0))" for k t
    by (induction k) (auto simp: reader_demo_rd_def engram_decode_zeros)
  ultimately show ?thesis
    by (simp add: engram_read_def list_ex_iff ENGRAM_DIM_def word_le_nat_alt)
qed

text \<open>One worker runs to the end: wake, read and post table 0, read and post table 1.\<close>

lemma reader_demo_run:
  "\<exists>r. reader_reachable 1 reader_demo_rd r \<and> rd_completed r = (\<lambda>t. if t < 2 then 1 else 0) \<and>
    rd_errors r = (\<lambda>_. None) \<and> \<not> rd_active r \<and> \<not> rd_shutdown r \<and>
    rd_ids r = rd_ids reader_demo \<and> rd_tables r = rd_tables reader_demo"
proof -
  let ?n = "1 :: nat" and ?rd = reader_demo_rd
  define r1 where "r1 = reader_demo\<lparr>rd_seen := (rd_seen reader_demo)(0 := rd_generation reader_demo),
      rd_phase := (rd_phase reader_demo)(0 := Reading 0)\<rparr>"
  define wr where "wr = (\<lambda>t (o' :: nat \<Rightarrow> u32 list) k. if t * ENGRAM_COLS + reader_first ?n 0 \<le> k \<and>
      k < t * ENGRAM_COLS + reader_first ?n (Suc 0)
      then replicate 24 (replicate 256 0) ! (k - (t * ENGRAM_COLS + reader_first ?n 0)) else o' k)"
  define r2 where "r2 = r1\<lparr>rd_out := wr 0 (rd_out r1), rd_phase := (rd_phase r1)(0 := Posting 0 None)\<rparr>"
  define r3 where "r3 = (reader_post ?n 0 None r2)\<lparr>rd_phase := (rd_phase r2)(0 := (if (0::nat) = 0 then Reading 1 else Waiting))\<rparr>"
  define r4 where "r4 = r3\<lparr>rd_out := wr 1 (rd_out r3), rd_phase := (rd_phase r3)(0 := Posting 1 None)\<rparr>"
  define r5 where "r5 = (reader_post ?n 1 None r4)\<lparr>rd_phase := (rd_phase r4)(0 := (if (1::nat) = 0 then Reading 1 else Waiting))\<rparr>"
  have f0: "rd_phase reader_demo 0 = Waiting" "rd_generation reader_demo \<noteq> rd_seen reader_demo 0"
      "\<not> rd_shutdown reader_demo" "rd_completed reader_demo = (\<lambda>_. 0)" "rd_errors reader_demo = (\<lambda>_. None)"
    by (simp_all add: reader_demo_def engram_reader_create_def)
  have tab: "rd_tables reader_demo t = \<lparr>et_open = True, et_offset = 8, et_rows = 5\<rparr>"
      "rd_ids reader_demo t = replicate 24 3" for t
    by (simp_all add: reader_demo_def)
  have p1: "rd_phase r1 0 = Reading 0" "rd_tables r1 = rd_tables reader_demo" "rd_ids r1 = rd_ids reader_demo"
    by (simp_all add: r1_def)
  have p3: "rd_phase r3 0 = Reading 1" "rd_tables r3 = rd_tables reader_demo" "rd_ids r3 = rd_ids reader_demo"
    by (simp_all add: r3_def r2_def p1 reader_post_fields)
  have w1: "reader_worker ?n ?rd reader_demo r1" unfolding r1_def by (rule reader_worker.wake) (use f0 in simp_all)
  have w2: "reader_worker ?n ?rd r1 r2" unfolding r2_def
    by (rule reader_worker.read_ok [where vs = "replicate 24 (replicate 256 0)"])
      (use tab reader_demo_read in \<open>simp_all add: p1 wr_def\<close>)
  have w3: "reader_worker ?n ?rd r2 r3" unfolding r3_def
    by (rule reader_worker.post) (simp_all add: r2_def)
  have w4: "reader_worker ?n ?rd r3 r4" unfolding r4_def
  proof (rule reader_worker.read_ok [where vs = "replicate 24 (replicate 256 0)", OF _ p3(1)])
    show "engram_read ?rd (rd_tables r3 1) (reader_slice ?n 0 (rd_ids r3 1)) = Inr (replicate 24 (replicate 256 0))"
      using reader_demo_read by (simp add: tab p3)
  qed (simp_all only: wr_def zero_less_one)
  have w5: "reader_worker ?n ?rd r4 r5" unfolding r5_def
    by (rule reader_worker.post) (simp_all add: r4_def)
  note step = reader_reachable.worker
  have "reader_reachable ?n ?rd r5"
    by (rule step [OF step [OF step [OF step [OF step [OF reader_demo_reachable w1] w2] w3] w4] w5])
  moreover have "rd_completed r5 = (\<lambda>t. if t < 2 then 1 else 0)" "rd_errors r5 = (\<lambda>_. None)" "\<not> rd_active r5"
    "\<not> rd_shutdown r5" "rd_ids r5 = rd_ids reader_demo" "rd_tables r5 = rd_tables reader_demo"
    using f0 by (auto simp: r5_def r4_def r3_def r2_def r1_def reader_post_fields fun_eq_iff)
  ultimately show ?thesis by blast
qed


theorem engram_reader_start_exclusive_witness:
  "\<exists>r r'. reader_reachable 1 reader_demo_rd r \<and> rd_completed r 0 = 1 \<and>
    engram_reader_start (rd_tables r) (rd_ids r) (\<lambda>_. []) r = Inr r' \<and> rd_phase r 0 \<noteq> Reading 0"
proof -
  obtain r where r: "reader_reachable 1 reader_demo_rd r" "rd_completed r = (\<lambda>t. if t < 2 then 1 else 0)"
      "\<not> rd_active r" "\<not> rd_shutdown r" "rd_ids r = rd_ids reader_demo" "rd_tables r = rd_tables reader_demo"
    using reader_demo_run by blast
    then have "\<exists>r'. engram_reader_start (rd_tables r) (rd_ids r) (\<lambda>_. []) r = Inr r'"
      using r by (simp add: engram_reader_start_def reader_demo_def ENGRAM_COLS_def list_ex_iff word_le_nat_alt)
    then obtain r' where s: "engram_reader_start (rd_tables r) (rd_ids r) (\<lambda>_. []) r = Inr r'" by blast
    show ?thesis using engram_reader_start_exclusive [OF r(1) _ s] s r by auto
qed


end
