(* ===== verification/Server_Json.thy ===== *)
theory Server_Json
  imports Ds4_Prelude
begin

text \<open>
  The JSON reader and writer of ds4_server.c: \<open>json_string\<close> with its escapes and surrogate pairs,
  the depth-limited skipper \<open>json_skip_value\<close>, \<open>json_raw_value\<close>, \<open>json_minify_raw_value\<close>, and the
  string writers \<open>json_escape\<close> and \<open>json_python_string\<close>.

  A C string is the list of its bytes before the terminating NUL, and the cursor \<open>p\<close> of a parser
  is the rest of the list, so reading the terminator is reading the empty list. Byte values:
  0x22 is the quote, 0x5C the backslash, 0x2F the slash, 0x75 the letter u, 0x2C the comma,
  0x3A the colon, 0x5B, 0x5D, 0x7B, 0x7D the brackets and braces.
\<close>

section \<open>Characters\<close>

definition c_isspace :: "u8 \<Rightarrow> bool" where "c_isspace c \<longleftrightarrow> c = 0x20 \<or> 9 \<le> c \<and> c \<le> 13"
definition c_isdigit :: "u8 \<Rightarrow> bool" where "c_isdigit c \<longleftrightarrow> 0x30 \<le> c \<and> c \<le> 0x39"

definition json_ws :: "u8 list \<Rightarrow> u8 list" where "json_ws p = dropWhile c_isspace p"

definition json_lit :: "u8 list \<Rightarrow> u8 list \<Rightarrow> u8 list option" where
  "json_lit lit p = (if take (length lit) p = lit then Some (drop (length lit) p) else None)"

definition json_hex :: "u8 \<Rightarrow> u32 option" where
  "json_hex c =
     (if 0x30 \<le> c \<and> c \<le> 0x39 then Some (ucast (c - 0x30))
      else if 0x61 \<le> c \<and> c \<le> 0x66 then Some (10 + ucast (c - 0x61))
      else if 0x41 \<le> c \<and> c \<le> 0x46 then Some (10 + ucast (c - 0x41))
      else None)"

definition utf8_put :: "u32 \<Rightarrow> u8 list" where
  "utf8_put cp =
     (let cp = (if 0x10FFFF < cp \<or> 0xD800 \<le> cp \<and> cp \<le> 0xDFFF then 0xFFFD else cp)
      in if cp \<le> 0x7F then [ucast cp]
         else if cp \<le> 0x7FF then [ucast (0xC0 OR drop_bit 6 cp), ucast (0x80 OR (cp AND 0x3F))]
         else if cp \<le> 0xFFFF then
           [ucast (0xE0 OR drop_bit 12 cp), ucast (0x80 OR (drop_bit 6 cp AND 0x3F)), ucast (0x80 OR (cp AND 0x3F))]
         else
           [ucast (0xF0 OR drop_bit 18 cp), ucast (0x80 OR (drop_bit 12 cp AND 0x3F)),
            ucast (0x80 OR (drop_bit 6 cp AND 0x3F)), ucast (0x80 OR (cp AND 0x3F))])"

fun json_u16 :: "u8 list \<Rightarrow> (u32 \<times> u8 list) option" where
  "json_u16 (b # u # h0 # h1 # h2 # h3 # p) =
     (if b \<noteq> 0x5C \<or> u \<noteq> 0x75 then None
      else case (json_hex h0, json_hex h1, json_hex h2, json_hex h3) of
        (Some d0, Some d1, Some d2, Some d3) \<Rightarrow>
          Some (push_bit 4 (push_bit 4 (push_bit 4 d0 OR d1) OR d2) OR d3, p)
      | _ \<Rightarrow> None)"
| "json_u16 _ = None"

section \<open>Strings\<close>

definition json_simple_escape :: "u8 \<Rightarrow> u8 option" where
  "json_simple_escape c =
     (if c = 0x22 then Some 0x22 else if c = 0x5C then Some 0x5C else if c = 0x2F then Some 0x2F
      else if c = 0x62 then Some 8 else if c = 0x66 then Some 12 else if c = 0x6E then Some 10
      else if c = 0x72 then Some 13 else if c = 0x74 then Some 9 else None)"

text \<open>The \<open>u\<close> escape at the backslash: a code point, a surrogate pair, or a lone high surrogate.\<close>

definition json_unicode :: "u8 list \<Rightarrow> (u32 \<times> u8 list) option" where
  "json_unicode p =
     (case json_u16 p of
        None \<Rightarrow> None
      | Some (cp, q) \<Rightarrow>
          if 0xD800 \<le> cp \<and> cp \<le> 0xDBFF
          then case json_u16 q of
                 Some (lo, r) \<Rightarrow>
                   if 0xDC00 \<le> lo \<and> lo \<le> 0xDFFF
                   then Some (0x10000 + push_bit 10 (cp - 0xD800) + (lo - 0xDC00), r)
                   else Some (0xFFFD, q)
               | None \<Rightarrow> Some (0xFFFD, q)
          else Some (cp, q))"

lemma json_u16_length: "json_u16 p = Some (cp, q) \<Longrightarrow> length p = 6 + length q"
  by (induction p rule: json_u16.induct) (auto split: if_splits option.splits)

lemma json_unicode_length: "json_unicode p = Some (cp, q) \<Longrightarrow> length q + 6 \<le> length p"
  by (auto simp: json_unicode_def split: option.splits if_splits dest!: json_u16_length)

text \<open>The loop after the opening quote, with the buffer so far.\<close>

function json_string_loop :: "u8 list \<Rightarrow> u8 list \<Rightarrow> (u8 list \<times> u8 list) option" where
  "json_string_loop b [] = None"
| "json_string_loop b (c # p) =
     (if c = 0x22 then Some (b, p)
      else if c \<noteq> 0x5C then json_string_loop (b @ [c]) p
      else case p of
        [] \<Rightarrow> None
      | e # q \<Rightarrow>
          if e = 0x75
          then case json_unicode (c # p) of
                 None \<Rightarrow> None
               | Some (cp, r) \<Rightarrow> json_string_loop (b @ utf8_put cp) r
          else case json_simple_escape e of
                 None \<Rightarrow> None
               | Some x \<Rightarrow> json_string_loop (b @ [x]) q)"
  by pat_completeness auto
termination
  by (relation "measure (\<lambda>(b, p). length p)") (auto dest: json_unicode_length)

definition json_string :: "u8 list \<Rightarrow> (u8 list \<times> u8 list) option" where
  "json_string p = (case json_ws p of
       c # q \<Rightarrow> if c = 0x22 then json_string_loop [] q else None
     | [] \<Rightarrow> None)"

definition hex_lower :: "u8 \<Rightarrow> u8" where "hex_lower d = (if d < 10 then 0x30 + d else 0x61 + (d - 10))"

definition json_escape_char :: "u8 \<Rightarrow> u8 list" where
  "json_escape_char c =
     (if c = 0x22 \<or> c = 0x5C then [0x5C, c]
      else if c = 10 then [0x5C, 0x6E]
      else if c = 13 then [0x5C, 0x72]
      else if c = 9 then [0x5C, 0x74]
      else if c < 0x20 then [0x5C, 0x75, 0x30, 0x30, hex_lower (drop_bit 4 c), hex_lower (c AND 15)]
      else [c])"

definition json_escape_fragment_n :: "u8 list \<Rightarrow> u8 list" where
  "json_escape_fragment_n s = concat (map json_escape_char s)"

definition json_escape :: "u8 list \<Rightarrow> u8 list" where
  "json_escape s = 0x22 # concat (map json_escape_char s) @ [0x22]"

definition json_python_char :: "u8 \<Rightarrow> u8 list" where
  "json_python_char c =
     (if c = 0x22 then [0x5C, 0x22] else if c = 0x5C then [0x5C, 0x5C] else if c = 10 then [0x5C, 0x6E]
      else if c = 13 then [0x5C, 0x72] else if c = 9 then [0x5C, 0x74] else if c = 8 then [0x5C, 0x62]
      else if c = 12 then [0x5C, 0x66]
      else if c < 0x20 then [0x5C, 0x75, 0x30, 0x30, hex_lower (drop_bit 4 c), hex_lower (c AND 15)]
      else [c])"

definition json_python_string :: "u8 list \<Rightarrow> u8 list" where
  "json_python_string s = 0x22 # concat (map json_python_char s) @ [0x22]"

section \<open>Numbers\<close>

text \<open>
  What \<open>strtod\<close> consumes in the C locale: blanks, a sign, then infinity, NaN, a hexadecimal or a
  decimal number with an exponent; \<open>None\<close> when there is nothing to convert.
\<close>

definition c_lower :: "u8 \<Rightarrow> u8" where "c_lower c = (if 0x41 \<le> c \<and> c \<le> 0x5A then c + 0x20 else c)"

definition skip_word :: "u8 list \<Rightarrow> u8 list \<Rightarrow> u8 list option" where
  "skip_word w p = (if map c_lower (take (length w) p) = w then Some (drop (length w) p) else None)"

definition skip_sign :: "u8 list \<Rightarrow> u8 list" where
  "skip_sign p = (case p of c # q \<Rightarrow> if c = 0x2B \<or> c = 0x2D then q else p | [] \<Rightarrow> [])"

definition skip_mantissa :: "(u8 \<Rightarrow> bool) \<Rightarrow> u8 list \<Rightarrow> u8 list option" where
  "skip_mantissa digit p =
     (let q = dropWhile digit p
      in case q of
           c # r \<Rightarrow>
             if c = 0x2E then
               if takeWhile digit p = [] \<and> takeWhile digit r = [] then None else Some (dropWhile digit r)
             else if takeWhile digit p = [] then None else Some q
         | [] \<Rightarrow> if takeWhile digit p = [] then None else Some [])"

definition skip_exponent :: "u8 \<Rightarrow> u8 list \<Rightarrow> u8 list" where
  "skip_exponent letter p =
     (case p of
        c # q \<Rightarrow>
          if c_lower c = letter \<and> takeWhile c_isdigit (skip_sign q) \<noteq> [] then dropWhile c_isdigit (skip_sign q)
          else p
      | [] \<Rightarrow> [])"

definition skip_nan_tail :: "u8 list \<Rightarrow> u8 list" where
  "skip_nan_tail p =
     (case p of
        c # q \<Rightarrow>
          (if c = 0x28 then
             case dropWhile (\<lambda>x. json_hex x \<noteq> None \<or> 0x67 \<le> c_lower x \<and> c_lower x \<le> 0x7A \<or> x = 0x5F) q of
               d # r \<Rightarrow> if d = 0x29 then r else p
             | [] \<Rightarrow> p
           else p)
      | [] \<Rightarrow> [])"

definition strtod_rest :: "u8 list \<Rightarrow> u8 list option" where
  "strtod_rest p =
     (let q = skip_sign (dropWhile c_isspace p)
      in case skip_word [0x69, 0x6E, 0x66, 0x69, 0x6E, 0x69, 0x74, 0x79] q of
           Some r \<Rightarrow> Some r
         | None \<Rightarrow>
         (case skip_word [0x69, 0x6E, 0x66] q of
           Some r \<Rightarrow> Some r
         | None \<Rightarrow>
         (case skip_word [0x6E, 0x61, 0x6E] q of
           Some r \<Rightarrow> Some (skip_nan_tail r)
         | None \<Rightarrow>
         (case (case skip_word [0x30, 0x78] q of
                  Some r \<Rightarrow> skip_mantissa (\<lambda>c. json_hex c \<noteq> None) r | None \<Rightarrow> None) of
           Some r \<Rightarrow> Some (skip_exponent 0x70 r)
         | None \<Rightarrow> map_option (skip_exponent 0x65) (skip_mantissa c_isdigit q)))))"

definition json_number :: "u8 list \<Rightarrow> u8 list option" where
  "json_number p = strtod_rest (json_ws p)"

section \<open>Skipping values\<close>

definition JSON_MAX_NESTING :: nat where "JSON_MAX_NESTING = 256"

text \<open>The byte under the cursor; 0 at the end.\<close>

definition at :: "u8 list \<Rightarrow> u8" where "at p = (case p of c # _ \<Rightarrow> c | [] \<Rightarrow> 0)"

lemma length_json_ws: "length (json_ws p) \<le> length p"
  unfolding json_ws_def by (rule length_dropWhile_le)

lemma json_string_loop_length: "json_string_loop b p = Some (s, q) \<Longrightarrow> length q < length p"
proof (induction b p rule: json_string_loop.induct)
  case (2 b c p)
  note IH1 = "2.IH"(1) and IH2 = "2.IH"(2) and IH3 = "2.IH"(3)
  consider "c = 0x22" | "c \<noteq> 0x22" "c \<noteq> 0x5C" | "c = 0x5C" by blast
  then show ?case
  proof cases
    case 2
    then show ?thesis using IH1 "2.prems" by simp
  next
    case 3
    then obtain e r where p: "p = e # r" using "2.prems" by (auto split: list.splits)
    show ?thesis
    proof (cases "e = 0x75")
      case True
      obtain cp u where u: "json_unicode (c # p) = Some (cp, u)" "json_string_loop (b @ utf8_put cp) u = Some (s, q)"
        using 3 p True "2.prems" by (auto split: option.splits)
      have "length q < length u" using IH2 [OF _ _ p True u(1) refl u(2)] 3 by simp
      then show ?thesis using json_unicode_length [OF u(1)] by simp
    next
      case False
      then show ?thesis using 3 p "2.prems" IH3 [OF _ _ p] by (auto split: option.splits)
    qed
  qed (use "2.prems" in simp)
qed simp

lemma json_string_length: "json_string p = Some (s, q) \<Longrightarrow> length q < length p"
  using length_json_ws [of p]
  by (auto simp: json_string_def split: list.splits if_splits dest!: json_string_loop_length)

function (domintros)
  json_skip_value_depth :: "nat \<Rightarrow> u8 list \<Rightarrow> u8 list option" and
  json_skip_array_depth :: "nat \<Rightarrow> u8 list \<Rightarrow> u8 list option" and
  json_skip_array_loop :: "nat \<Rightarrow> u8 list \<Rightarrow> u8 list option" and
  json_skip_object_depth :: "nat \<Rightarrow> u8 list \<Rightarrow> u8 list option" and
  json_skip_object_loop :: "nat \<Rightarrow> u8 list \<Rightarrow> u8 list option"
where
  "json_skip_value_depth depth p =
     (let p = json_ws p
      in if at p = 0x22 then map_option snd (json_string p)
         else if at p = 0x7B then json_skip_object_depth depth p
         else if at p = 0x5B then json_skip_array_depth depth p
         else case json_lit [0x74, 0x72, 0x75, 0x65] p of Some q \<Rightarrow> Some q | None \<Rightarrow>
           (case json_lit [0x66, 0x61, 0x6C, 0x73, 0x65] p of Some q \<Rightarrow> Some q | None \<Rightarrow>
           (case json_lit [0x6E, 0x75, 0x6C, 0x6C] p of Some q \<Rightarrow> Some q | None \<Rightarrow> json_number p)))"
| "json_skip_array_depth depth p =
     (if JSON_MAX_NESTING \<le> depth then None
      else let p = json_ws p
           in if at p \<noteq> 0x5B then None
              else let p = json_ws (tl p)
                   in if at p = 0x5D then Some (tl p) else json_skip_array_loop depth p)"
| "json_skip_array_loop depth p =
     (case json_skip_value_depth (depth + 1) p of
        None \<Rightarrow> None
      | Some p \<Rightarrow>
          let p = json_ws p
          in if at p = 0x5D then Some (tl p)
             else if at p \<noteq> 0x2C then None
             else json_skip_array_loop depth (tl p))"
| "json_skip_object_depth depth p =
     (if JSON_MAX_NESTING \<le> depth then None
      else let p = json_ws p
           in if at p \<noteq> 0x7B then None
              else let p = json_ws (tl p)
                   in if at p = 0x7D then Some (tl p) else json_skip_object_loop depth p)"
| "json_skip_object_loop depth p =
     (case json_string p of
        None \<Rightarrow> None
      | Some (_, p) \<Rightarrow>
          let p = json_ws p
          in if at p \<noteq> 0x3A then None
             else case json_skip_value_depth (depth + 1) (tl p) of
               None \<Rightarrow> None
             | Some p \<Rightarrow>
                 let p = json_ws p
                 in if at p = 0x7D then Some (tl p)
                    else if at p \<noteq> 0x2C then None
                    else json_skip_object_loop depth (tl p))"
  by pat_completeness auto

lemma length_skip_parts:
  "length (skip_sign p) \<le> length p" "length (skip_exponent l p) \<le> length p" "length (skip_nan_tail p) \<le> length p"
proof -
  show s: "length (skip_sign p) \<le> length p" for p by (auto simp: skip_sign_def split: list.splits)
  show "length (skip_exponent l p) \<le> length p"
  proof (cases p)
    case (Cons c q)
    have "length (dropWhile c_isdigit (skip_sign q)) \<le> length q"
      using length_dropWhile_le [of c_isdigit "skip_sign q"] s [of q] by simp
    then show ?thesis using Cons by (simp add: skip_exponent_def)
  qed (simp add: skip_exponent_def)
  show "length (skip_nan_tail p) \<le> length p"
  proof (cases p)
    case (Cons c q)
    let ?w = "\<lambda>x. json_hex x \<noteq> None \<or> 0x67 \<le> c_lower x \<and> c_lower x \<le> 0x7A \<or> x = 0x5F"
    define d where "d = dropWhile ?w q"
    have "length d \<le> length q" unfolding d_def by (rule length_dropWhile_le)
    then show ?thesis unfolding skip_nan_tail_def Cons list.case d_def [symmetric] by (cases d) auto
  qed (simp add: skip_nan_tail_def)
qed

lemma length_skip_word: "skip_word (c # w) p = Some q \<Longrightarrow> length q < length p"
  by (cases p) (auto simp: skip_word_def split: if_splits)

lemma length_dropWhile_less: "takeWhile P p \<noteq> [] \<Longrightarrow> length (dropWhile P p) < length p"
  using length_dropWhile_le [of P "tl p"] by (cases p) (auto split: if_splits)

lemma length_skip_mantissa:
  assumes "skip_mantissa d p = Some r"
  shows "length r < length p"
proof (cases "dropWhile d p")
  case Nil
  show ?thesis using assms length_dropWhile_less [of d p] unfolding skip_mantissa_def Let_def Nil list.case
    by (auto split: if_splits)
next
  case (Cons c q)
  have "length (dropWhile d q) \<le> length q" by (rule length_dropWhile_le)
  moreover have "Suc (length q) \<le> length p" using length_dropWhile_le [of d p] Cons by simp
  ultimately show ?thesis using assms length_dropWhile_less [of d p] unfolding skip_mantissa_def Let_def Cons list.case
    by (auto split: if_splits)
qed

lemma length_strtod_rest:
  assumes "strtod_rest p = Some r"
  shows "length r < length p"
proof -
  define q where "q = skip_sign (dropWhile c_isspace p)"
  have q: "length q \<le> length p"
    unfolding q_def by (rule order_trans [OF length_skip_parts(1) length_dropWhile_le])
  have "length r < length q"
    using assms unfolding strtod_rest_def q_def [symmetric] Let_def
    by (auto split: option.splits dest!: length_skip_word length_skip_mantissa
        intro: le_less_trans [OF length_skip_parts(2)] le_less_trans [OF length_skip_parts(3)])
  then show ?thesis using q by simp
qed

lemma length_json_lit: "json_lit (c # w) p = Some q \<Longrightarrow> length q < length p"
  by (cases p) (auto simp: json_lit_def split: if_splits)

lemma length_json_number: "json_number p = Some q \<Longrightarrow> length q < length p"
  unfolding json_number_def using length_strtod_rest length_json_ws [of p] less_le_trans by blast

lemma at_length: "at x \<noteq> 0 \<Longrightarrow> Suc (length (tl x)) = length x"
  by (cases x) (auto simp: at_def)

lemma length_tl_ws: "at (json_ws p) = c \<Longrightarrow> c \<noteq> 0 \<Longrightarrow> length (tl (json_ws p)) < length p"
  using at_length [of "json_ws p"] length_json_ws [of p] by simp

lemma length_ws_tl_ws: "at (json_ws p) = c \<Longrightarrow> c \<noteq> 0 \<Longrightarrow> length (json_ws (tl (json_ws p))) < length p"
  using length_tl_ws [of p c] length_json_ws [of "tl (json_ws p)"] by simp

lemmas json_skip_dom_induct =
  json_skip_value_depth_json_skip_array_depth_json_skip_array_loop_json_skip_object_depth_json_skip_object_loop.pinduct

lemmas json_skip_psimps = json_skip_value_depth.psimps json_skip_array_depth.psimps json_skip_array_loop.psimps
  json_skip_object_depth.psimps json_skip_object_loop.psimps

text \<open>Every branch that returns has consumed at least one byte: what makes the loops end.\<close>

lemma json_skip_length_dom:
  "json_skip_value_depth_json_skip_array_depth_json_skip_array_loop_json_skip_object_depth_json_skip_object_loop_dom (Inl (Inl (d1, p1))) \<Longrightarrow>
    json_skip_value_depth d1 p1 = Some q1 \<Longrightarrow> length q1 < length p1"
  "json_skip_value_depth_json_skip_array_depth_json_skip_array_loop_json_skip_object_depth_json_skip_object_loop_dom (Inl (Inr (d2, p2))) \<Longrightarrow>
    json_skip_array_depth d2 p2 = Some q2 \<Longrightarrow> length q2 < length p2"
  "json_skip_value_depth_json_skip_array_depth_json_skip_array_loop_json_skip_object_depth_json_skip_object_loop_dom (Inr (Inl (d3, p3))) \<Longrightarrow>
    json_skip_array_loop d3 p3 = Some q3 \<Longrightarrow> length q3 < length p3"
  "json_skip_value_depth_json_skip_array_depth_json_skip_array_loop_json_skip_object_depth_json_skip_object_loop_dom (Inr (Inr (Inl (d4, p4)))) \<Longrightarrow>
    json_skip_object_depth d4 p4 = Some q4 \<Longrightarrow> length q4 < length p4"
  "json_skip_value_depth_json_skip_array_depth_json_skip_array_loop_json_skip_object_depth_json_skip_object_loop_dom (Inr (Inr (Inr (d5, p5)))) \<Longrightarrow>
    json_skip_object_loop d5 p5 = Some q5 \<Longrightarrow> length q5 < length p5"
proof (induction arbitrary: q1 and q2 and q3 and q4 and q5 rule: json_skip_dom_induct)
  case (1 depth p)
  have "length q1 < length (json_ws p)"
    using "1.prems" "1.IH" unfolding json_skip_value_depth.psimps [OF "1.hyps"] Let_def
    by (auto split: if_splits option.splits dest!: json_string_length length_json_lit length_json_number)
  then show ?case using length_json_ws [of p] by simp
next
  case (2 depth p)
  have "length q2 \<le> length (tl (json_ws p))" "at (json_ws p) = 0x5B"
    using "2.prems" "2.IH" length_json_ws [of "tl (json_ws p)"]
    unfolding json_skip_array_depth.psimps [OF "2.hyps"] Let_def
    by (fastforce split: if_splits intro: order_trans less_imp_le)+
  then show ?case using length_tl_ws [of p "0x5B"] by simp
next
  case (3 depth p)
  then obtain q where q: "json_skip_value_depth (depth + 1) p = Some q"
    unfolding json_skip_array_loop.psimps [OF "3.hyps"] by (auto split: option.splits)
  have "length q < length p" using "3.IH"(1) q by simp
  moreover have "length q3 \<le> length q"
    using "3.prems" "3.IH"(2) [OF q refl] length_tl_ws [where p = q] q
    unfolding json_skip_array_loop.psimps [OF "3.hyps"]
    by (fastforce simp: Let_def split: if_splits intro: order_trans less_imp_le)
  ultimately show ?case by simp
next
  case (4 depth p)
  have "length q4 \<le> length (tl (json_ws p))" "at (json_ws p) = 0x7B"
    using "4.prems" "4.IH" length_json_ws [of "tl (json_ws p)"]
    unfolding json_skip_object_depth.psimps [OF "4.hyps"] Let_def
    by (fastforce split: if_splits intro: order_trans less_imp_le)+
  then show ?case using length_tl_ws [of p "0x7B"] by simp
next
  case (5 depth p)
  then obtain s u where u: "json_string p = Some (s, u)" "at (json_ws u) = 0x3A"
    unfolding json_skip_object_loop.psimps [OF "5.hyps"] by (auto simp: Let_def split: option.splits if_splits)
  then obtain q where q: "json_skip_value_depth (depth + 1) (tl (json_ws u)) = Some q"
    using "5.prems" unfolding json_skip_object_loop.psimps [OF "5.hyps"] by (auto simp: Let_def split: option.splits)
  have "length q \<le> length (tl (json_ws u))" using "5.IH"(1) [OF u(1) refl refl] u q by simp
  moreover have "length (tl (json_ws u)) < length p"
    using json_string_length [OF u(1)] length_tl_ws [OF u(2)] by simp
  moreover have "length q5 \<le> length q"
    using "5.prems" "5.IH"(2) [OF u(1) refl refl _ q refl] length_tl_ws [where p = q] q u
    unfolding json_skip_object_loop.psimps [OF "5.hyps"]
    by (fastforce simp: Let_def split: if_splits intro: order_trans less_imp_le)
  ultimately show ?case by simp
qed

lemma json_skip_total: "All json_skip_value_depth_json_skip_array_depth_json_skip_array_loop_json_skip_object_depth_json_skip_object_loop_dom"
proof (relation "measures [\<lambda>x. case x of
      Inl (Inl (d, p)) \<Rightarrow> length p | Inl (Inr (d, p)) \<Rightarrow> length p | Inr (Inl (d, p)) \<Rightarrow> length p
    | Inr (Inr (Inl (d, p))) \<Rightarrow> length p | Inr (Inr (Inr (d, p))) \<Rightarrow> length p,
    \<lambda>x. case x of
      Inl (Inl (d, p)) \<Rightarrow> 1 | Inl (Inr (d, p)) \<Rightarrow> 0 | Inr (Inl (d, p)) \<Rightarrow> 2
    | Inr (Inr (Inl (d, p))) \<Rightarrow> 0 | Inr (Inr (Inr (d, p))) \<Rightarrow> (2 :: nat)]", goal_cases)
  case (2 depth p x)
  then show ?case using length_json_ws [of p] by auto
next
  case (3 depth p x)
  then show ?case using length_json_ws [of p] by auto
next
  case (4 depth p x y)
  then show ?case using length_ws_tl_ws [of p "0x5B"] by auto
next
  case (6 depth p q x)
  then show ?case using json_skip_length_dom(1) [OF 6(5,1)] length_tl_ws [of q "0x2C"] by auto
next
  case (7 depth p x y)
  then show ?case using length_ws_tl_ws [of p "0x7B"] by auto
next
  case (8 depth p z s y x)
  then show ?case using json_string_length [of p s y] length_tl_ws [of y "0x3A"] by auto
next
  case (9 depth p z s y x v w)
  then show ?case
    using json_string_length [of p s y] length_tl_ws [of y "0x3A"] json_skip_length_dom(1) [OF 9(9,5)]
      length_tl_ws [of v "0x2C"] by auto
qed auto

termination json_skip_value_depth
  by (rule json_skip_total)

declare json_skip_value_depth.simps [simp del] json_skip_array_depth.simps [simp del]
  json_skip_array_loop.simps [simp del] json_skip_object_depth.simps [simp del] json_skip_object_loop.simps [simp del]

definition json_skip_value :: "u8 list \<Rightarrow> u8 list option" where
  "json_skip_value p = json_skip_value_depth 0 p"

lemma json_skip_value_length: "json_skip_value p = Some q \<Longrightarrow> length q < length p"
  unfolding json_skip_value_def
  by (rule json_skip_length_dom(1) [OF json_skip_total [THEN spec]])

text \<open>The raw text of a value and the rest.\<close>

definition json_raw_value :: "u8 list \<Rightarrow> (u8 list \<times> u8 list) option" where
  "json_raw_value p =
     (let start = json_ws p
      in case json_skip_value start of
           None \<Rightarrow> None
         | Some q \<Rightarrow> Some (take (length start - length q) start, q))"

fun json_minify_loop :: "bool \<Rightarrow> bool \<Rightarrow> u8 list \<Rightarrow> u8 list" where
  "json_minify_loop in_string escape [] = []"
| "json_minify_loop in_string escape (c # s) =
     (if in_string then
        c # (if escape then json_minify_loop True False s
             else if c = 0x5C then json_minify_loop True True s
             else json_minify_loop (c \<noteq> 0x22) False s)
      else if c = 0x22 then c # json_minify_loop True escape s
      else if \<not> c_isspace c then c # json_minify_loop False escape s
      else json_minify_loop False escape s)"

definition json_minify_raw_value :: "u8 list option \<Rightarrow> u8 list" where
  "json_minify_raw_value json =
     (let raw = (case json of Some j \<Rightarrow> j | None \<Rightarrow> [0x6E, 0x75, 0x6C, 0x6C]);
          start = json_ws raw
      in case json_skip_value start of
           None \<Rightarrow> raw
         | Some q \<Rightarrow> json_minify_loop False False (take (length start - length q) start))"

section \<open>Strings come back\<close>

lemma u8_less_16: "d < 16 \<Longrightarrow> d \<in> {0, 1, 2, 3, 4, 5, 6, 7, 8, 9, 10, 11, 12, 13, 14, 15 :: u8}"
proof -
  assume "d < 16"
  then have "unat d \<in> set [0..<16]" by (simp add: word_less_nat_alt)
  then have "of_nat (unat d) \<in> set (map of_nat [0..<16] :: u8 list)" unfolding set_map by (rule imageI)
  moreover have "map of_nat [0..<16] = [0, 1, 2, 3, 4, 5, 6, 7, 8, 9, 10, 11, 12, 13, 14, 15 :: u8]" by code_simp
  ultimately show ?thesis by simp
qed

lemma json_hex_lower: "d < 16 \<Longrightarrow> json_hex (hex_lower d) = Some (ucast d)"
  by (drule u8_less_16) (auto simp: json_hex_def hex_lower_def word_le_nat_alt word_less_nat_alt)

lemma utf8_put_ascii: "c \<le> 0x7F \<Longrightarrow> utf8_put (ucast c) = [c :: u8]"
proof -
  assume c: "c \<le> 0x7F"
  have u: "unat (ucast c :: u32) = unat c" by (rule unat_ucast_up) simp
  have "(ucast c :: u32) \<le> 0x7F" using c by (simp add: word_le_nat_alt u)
  moreover from this have "\<not> 0x10FFFF < (ucast c :: u32)" "\<not> 0xD800 \<le> (ucast c :: u32)"
    by (simp_all add: word_le_nat_alt word_less_nat_alt)
  moreover have "(ucast (ucast c :: u32) :: u8) = c" by (rule bit_word_eqI) (auto simp: bit_simps)
  ultimately show ?thesis by (simp add: utf8_put_def)
qed

lemma json_unicode_control:
  assumes "c < 0x20"
  shows "json_unicode ([0x5C, 0x75, 0x30, 0x30, hex_lower (drop_bit 4 c), hex_lower (c AND 15)] @ p) = Some (ucast c, p)"
proof -
  have hi: "drop_bit 4 c < 16" using assms
    by (simp add: word_less_nat_alt drop_bit_eq_div unat_div)
  have mask: "c AND 15 = take_bit 4 c" by (simp add: take_bit_eq_mask mask_eq_exp_minus_1)
  then have lo: "c AND 15 < 16" by (simp add: word_less_nat_alt unsigned_take_bit_eq take_bit_eq_mod unat_mod)
  have z: "json_hex 0x30 = Some 0" by (simp add: json_hex_def)
  have "push_bit 4 (ucast (drop_bit 4 c)) OR ucast (take_bit 4 c) = (ucast c :: u32)"
  proof (rule bit_word_eqI)
    fix n assume "n < LENGTH(32)"
    then show "bit (push_bit 4 (ucast (drop_bit 4 c)) OR ucast (take_bit 4 c) :: u32) n = bit (ucast c :: u32) n"
      by (cases "n < 4") (auto simp: bit_simps)
  qed
  then have "push_bit 4 (push_bit 4 (push_bit 4 0 OR 0) OR ucast (drop_bit 4 c)) OR ucast (c AND 15) = (ucast c :: u32)"
    using mask by simp
  moreover have "\<not> 0xD800 \<le> (ucast c :: u32)"
  proof -
    have "unat (ucast c :: u32) = unat c" by (rule unat_ucast_up) simp
    then show ?thesis using assms by (simp add: word_le_nat_alt word_less_nat_alt)
  qed
  ultimately show ?thesis using json_hex_lower [OF hi] json_hex_lower [OF lo] z
    by (simp add: json_unicode_def)
qed

lemma json_string_loop_control:
  assumes "c < 0x20"
  shows "json_string_loop b ([0x5C, 0x75, 0x30, 0x30, hex_lower (drop_bit 4 c), hex_lower (c AND 15)] @ p) =
    json_string_loop (b @ [c]) p"
proof -
  have "c \<le> 0x7F" using assms by (simp add: word_le_nat_alt word_less_nat_alt)
  then show ?thesis using json_unicode_control [OF assms, of p] utf8_put_ascii [of c] by simp
qed

lemma json_string_loop_escape: "json_string_loop b (json_escape_char c @ p) = json_string_loop (b @ [c]) p"
proof (cases "c = 0x22 \<or> c = 0x5C \<or> c = 10 \<or> c = 13 \<or> c = 9")
  case True
  then show ?thesis by (auto simp: json_escape_char_def json_simple_escape_def)
next
  case False
  then show ?thesis using json_string_loop_control [of c b p]
    by (cases "c < 0x20") (auto simp: json_escape_char_def)
qed

lemma json_string_loop_python: "json_string_loop b (json_python_char c @ p) = json_string_loop (b @ [c]) p"
proof (cases "c = 0x22 \<or> c = 0x5C \<or> c = 10 \<or> c = 13 \<or> c = 9 \<or> c = 8 \<or> c = 12")
  case True
  then show ?thesis by (auto simp: json_python_char_def json_simple_escape_def)
next
  case False
  then show ?thesis using json_string_loop_control [of c b p]
    by (cases "c < 0x20") (auto simp: json_python_char_def)
qed

lemma json_string_loop_concat:
  assumes "\<And>b c p. json_string_loop b (f c @ p) = json_string_loop (b @ [c]) p"
  shows "json_string_loop b (concat (map f s) @ 0x22 # rest) = Some (b @ s, rest)"
  by (induction s arbitrary: b) (simp_all add: assms)

lemma json_ws_quote: "json_ws (0x22 # p) = 0x22 # p"
  by (simp add: json_ws_def c_isspace_def word_le_nat_alt)

lemma json_string_escape: "json_string (json_escape s @ rest) = Some (s, rest)"
  using json_string_loop_concat [of json_escape_char "[]" s rest] json_string_loop_escape
  by (simp add: json_string_def json_escape_def json_ws_quote)

lemma json_string_python: "json_string (json_python_string s @ rest) = Some (s, rest)"
  using json_string_loop_concat [of json_python_char "[]" s rest] json_string_loop_python
  by (simp add: json_string_def json_python_string_def json_ws_quote)

text \<open>C25. Both writers are inverted by the reader: any string written as JSON, whatever quotes, backslashes,
  control characters or non-ASCII bytes it holds, is read back byte for byte, and the reader
  stops exactly behind it; so it does not matter to the reader which of the two spellings a
  prompt or a response uses.\<close>

theorem json_string_roundtrip:
  "json_string (json_escape s @ rest) = Some (s, rest) \<and>
   json_string (json_python_string s @ rest) = Some (s, rest)"
  by (simp only: json_string_escape json_string_python)

section \<open>Values that were printed\<close>

text \<open>
  JSON values, printed with the string \<open>w\<close> of blanks between any two tokens. Numbers are integers,
  a sign and decimal digits.
\<close>

datatype json =
    J_null | J_true | J_false
  | J_int bool "u8 list"
  | J_str "u8 list"
  | J_arr "json list"
  | J_obj "(u8 list \<times> json) list"

fun json_sep :: "u8 list \<Rightarrow> u8 list list \<Rightarrow> u8 list" where
  "json_sep w [] = []"
| "json_sep w [x] = x @ w"
| "json_sep w (x # xs) = x @ w @ 0x2C # w @ json_sep w xs"

fun json_show :: "u8 list \<Rightarrow> json \<Rightarrow> u8 list" where
  "json_show w J_null = [0x6E, 0x75, 0x6C, 0x6C]"
| "json_show w J_true = [0x74, 0x72, 0x75, 0x65]"
| "json_show w J_false = [0x66, 0x61, 0x6C, 0x73, 0x65]"
| "json_show w (J_int neg ds) = (if neg then [0x2D] else []) @ ds"
| "json_show w (J_str s) = json_escape s"
| "json_show w (J_arr vs) = 0x5B # w @ json_sep w (map (json_show w) vs) @ [0x5D]"
| "json_show w (J_obj kvs) =
     0x7B # w @ json_sep w (map (\<lambda>(k, v). json_escape k @ w @ 0x3A # w @ json_show w v) kvs) @ [0x7D]"

fun json_nest :: "json \<Rightarrow> nat" where
  "json_nest (J_arr vs) = Suc (foldr (max \<circ> json_nest) vs 0)"
| "json_nest (J_obj kvs) = Suc (foldr (max \<circ> (json_nest \<circ> snd)) kvs 0)"
| "json_nest _ = 0"

fun json_proper :: "json \<Rightarrow> bool" where
  "json_proper (J_int neg ds) = (ds \<noteq> [] \<and> list_all c_isdigit ds)"
| "json_proper (J_arr vs) = list_all json_proper vs"
| "json_proper (J_obj kvs) = list_all (\<lambda>kv. json_proper (snd kv)) kvs"
| "json_proper _ = True"

text \<open>What may follow a value.\<close>

definition json_delimited :: "u8 list \<Rightarrow> bool" where
  "json_delimited p \<longleftrightarrow> p = [] \<or> c_isspace (hd p) \<or> hd p \<in> {0x2C, 0x5D, 0x7D}"

section \<open>Printed values are skipped exactly\<close>

lemma json_ws_append: "list_all c_isspace w \<Longrightarrow> json_ws (w @ p) = json_ws p"
  by (induction w) (auto simp: json_ws_def)

lemma json_ws_nonspace: "\<not> c_isspace c \<Longrightarrow> json_ws (c # p) = c # p"
  by (simp add: json_ws_def)

lemma json_ws_idem [simp]: "json_ws (json_ws p) = json_ws p"
  unfolding json_ws_def by (rule dropWhile_idem)

lemma json_skip_value_ws:
  "list_all c_isspace w \<Longrightarrow> json_skip_value_depth d (w @ p) = json_skip_value_depth d p"
  by (simp add: json_skip_value_depth.simps [of d "w @ p"] json_skip_value_depth.simps [of d p] json_ws_append)

lemma json_string_ws: "list_all c_isspace w \<Longrightarrow> json_string (w @ p) = json_string p"
  by (simp add: json_string_def json_ws_append)

lemma json_array_loop_ws:
  "list_all c_isspace w \<Longrightarrow> json_skip_array_loop d (w @ p) = json_skip_array_loop d p"
  by (simp add: json_skip_array_loop.simps [of d "w @ p"] json_skip_array_loop.simps [of d p] json_skip_value_ws)

lemma json_object_loop_ws:
  "list_all c_isspace w \<Longrightarrow> json_skip_object_loop d (w @ p) = json_skip_object_loop d p"
  by (simp add: json_skip_object_loop.simps [of d "w @ p"] json_skip_object_loop.simps [of d p] json_string_ws)

lemma c_isdigit_bounds: "c_isdigit c \<longleftrightarrow> 48 \<le> unat c \<and> unat c \<le> 57"
  by (simp add: c_isdigit_def word_le_nat_alt)

lemma c_isspace_bounds: "c_isspace c \<longleftrightarrow> unat c = 32 \<or> 9 \<le> unat c \<and> unat c \<le> 13"
  by (simp add: c_isspace_def word_le_nat_alt word_unat_eq_iff)

lemma c_lower_digit: "c_isdigit c \<Longrightarrow> c_lower c = c"
  by (auto simp: c_isdigit_bounds c_lower_def word_le_nat_alt)

lemma json_delimited_facts:
  assumes "json_delimited (c # p)"
  shows "\<not> c_isdigit c" "c \<noteq> 0x2E" "c_lower c \<noteq> 0x65" "c_lower c \<noteq> 0x78"
  using assms by (auto simp: json_delimited_def c_isspace_bounds c_isdigit_bounds c_lower_def word_le_nat_alt
      word_unat_eq_iff)

lemma json_number_int:
  assumes "ds \<noteq> []" and "list_all c_isdigit ds" and "json_delimited rest"
  shows "strtod_rest ((if neg then [0x2D] else []) @ ds @ rest) = Some rest"
proof -
  obtain d ds' where ds: "ds = d # ds'" using assms(1) by (cases ds) auto
  have d: "c_isdigit d" using assms(2) ds by simp
  have sp: "\<not> c_isspace d" "\<not> c_isspace 0x2D" "d \<noteq> 0x2B" "d \<noteq> 0x2D"
    using d by (auto simp: c_isdigit_bounds c_isspace_bounds word_unat_eq_iff)
  have q: "skip_sign (dropWhile c_isspace ((if neg then [0x2D] else []) @ ds @ rest)) = ds @ rest"
    using sp by (simp add: ds skip_sign_def)
  have letter: "c_lower d \<noteq> 0x69" "c_lower d \<noteq> 0x6E"
    using d by (auto simp: c_lower_digit c_isdigit_bounds word_unat_eq_iff)
  have word: "skip_word (0x69 # w) (ds @ rest) = None" "skip_word (0x6E # w) (ds @ rest) = None" for w
    using letter by (simp_all add: skip_word_def ds)
  have "c_lower e \<noteq> 0x78" if "ds' @ rest = e # r" for e r
  proof (cases ds')
    case Nil
    then show ?thesis using that assms(3) json_delimited_facts(4) by auto
  next
    case (Cons x xs)
    then have "c_isdigit e" using that assms(2) ds by simp
    then show ?thesis by (auto simp: c_lower_digit c_isdigit_bounds word_unat_eq_iff)
  qed
  then have hex: "skip_word [0x30, 0x78] (ds @ rest) = None"
    by (cases "ds' @ rest") (auto simp: skip_word_def ds)
  have all: "\<forall>x \<in> set ds. c_isdigit x" using assms(2) by (simp add: list_all_iff)
  have "skip_mantissa c_isdigit (ds @ rest) = Some rest"
  proof (cases rest)
    case Nil
    have tw: "takeWhile c_isdigit ds = ds" "dropWhile c_isdigit ds = []" using all by auto
    show ?thesis unfolding skip_mantissa_def Nil append_Nil2 tw Let_def using assms(1) by simp
  next
    case (Cons c r)
    then have "\<not> c_isdigit c" "c \<noteq> 0x2E" using assms(3) json_delimited_facts by auto
    then show ?thesis using all assms(1) Cons
      by (simp add: skip_mantissa_def takeWhile_append2 dropWhile_append2)
  qed
  moreover have "skip_exponent 0x65 rest = rest"
    using assms(3) json_delimited_facts(3) by (cases rest) (auto simp: skip_exponent_def)
  ultimately show ?thesis unfolding strtod_rest_def q Let_def word hex by simp
qed

lemma json_delimited_ws: "list_all c_isspace w \<Longrightarrow> c \<in> {0x2C, 0x5D, 0x7D} \<Longrightarrow> json_delimited (w @ c # p)"
  by (cases w) (auto simp: json_delimited_def)

lemma json_show_head:
  "json_proper v \<Longrightarrow> \<exists>c p. json_show w v = c # p \<and> \<not> c_isspace c \<and> c \<noteq> 0x5D"
proof (cases v)
  case (J_int neg ds)
  assume "json_proper v"
  then obtain d ds' where d: "ds = d # ds'" "c_isdigit d" using J_int by (cases ds) auto
  have "d \<noteq> 0x5D" "\<not> c_isspace d" using d(2) by (auto simp: c_isdigit_bounds c_isspace_bounds)
  then show ?thesis using J_int d(1) by (cases neg) (auto simp: c_isspace_bounds)
qed (simp_all add: c_isspace_bounds json_escape_def)

lemma json_ws_show: "json_proper v \<Longrightarrow> json_ws (json_show w v @ p) = json_show w v @ p"
  using json_show_head [of v w] by (auto simp: json_ws_nonspace)

definition json_ok_at :: "u8 list \<Rightarrow> json \<Rightarrow> bool" where
  "json_ok_at w v \<longleftrightarrow> (\<forall>d rest. json_delimited rest \<longrightarrow> d \<le> JSON_MAX_NESTING \<longrightarrow>
     json_skip_value_depth d (json_show w v @ rest) =
       (if d + json_nest v \<le> JSON_MAX_NESTING then Some rest else None))"

lemma json_array_loop_show:
  assumes "list_all c_isspace w" and "vs \<noteq> []" and "\<forall>v \<in> set vs. json_ok_at w v" and "d < JSON_MAX_NESTING"
  shows "json_skip_array_loop d (json_sep w (map (json_show w) vs) @ 0x5D # rest) =
    (if \<forall>v \<in> set vs. Suc d + json_nest v \<le> JSON_MAX_NESTING then Some rest else None)"
  using assms(2,3)
proof (induction vs rule: induct_list012)
  case (2 v)
  have del: "json_delimited (w @ 0x5D # rest)" using assms(1) by (rule json_delimited_ws) simp
  then show ?case
    using 2 assms(1,4) json_ws_nonspace [of "0x5D" rest]
    by (simp add: json_skip_array_loop.simps json_ok_at_def json_ws_append at_def c_isspace_bounds)
next
  case (3 v v' vs)
  let ?tail = "json_sep w (map (json_show w) (v' # vs)) @ 0x5D # rest"
  have del: "json_delimited (w @ 0x2C # w @ ?tail)" using assms(1) by (rule json_delimited_ws) simp
  have "json_skip_array_loop d (json_sep w (map (json_show w) (v # v' # vs)) @ 0x5D # rest) =
      (if Suc d + json_nest v \<le> JSON_MAX_NESTING then json_skip_array_loop d ?tail else None)"
    using del 3(4) assms(1,4) json_ws_nonspace [of "0x2C"] json_array_loop_ws [OF assms(1), of d ?tail]
    by (subst json_skip_array_loop.simps) (simp add: json_ok_at_def json_ws_append at_def c_isspace_bounds)
  then show ?case using 3(2) 3(4) by simp
qed simp

lemma json_object_loop_show:
  assumes "list_all c_isspace w" and "kvs \<noteq> []" and "\<forall>kv \<in> set kvs. json_ok_at w (snd kv)"
    and "d < JSON_MAX_NESTING"
  shows "json_skip_object_loop d
      (json_sep w (map (\<lambda>(k, v). json_escape k @ w @ 0x3A # w @ json_show w v) kvs) @ 0x7D # rest) =
    (if \<forall>kv \<in> set kvs. Suc d + json_nest (snd kv) \<le> JSON_MAX_NESTING then Some rest else None)"
  using assms(2,3)
proof (induction kvs rule: induct_list012)
  case (2 kv)
  obtain k v where kv: "kv = (k, v)" by fastforce
  have del: "json_delimited (w @ 0x7D # rest)" using assms(1) by (rule json_delimited_ws) simp
  then show ?case
    using 2 kv assms(1,4) json_ws_nonspace [of "0x7D" rest] json_ws_nonspace [of "0x3A"]
    by (subst json_skip_object_loop.simps)
      (simp add: json_ok_at_def json_ws_append at_def c_isspace_bounds json_string_escape json_skip_value_ws)
next
  case (3 kv kv' kvs)
  obtain k v where kv: "kv = (k, v)" by fastforce
  let ?f = "\<lambda>(k, v). json_escape k @ w @ 0x3A # w @ json_show w v"
  let ?tail = "json_sep w (map ?f (kv' # kvs)) @ 0x7D # rest"
  have del: "json_delimited (w @ 0x2C # w @ ?tail)" using assms(1) by (rule json_delimited_ws) simp
  have "json_skip_object_loop d (json_sep w (map ?f (kv # kv' # kvs)) @ 0x7D # rest) =
      (if Suc d + json_nest v \<le> JSON_MAX_NESTING then json_skip_object_loop d ?tail else None)"
    using del 3(4) kv assms(1,4) json_ws_nonspace [of "0x2C"] json_ws_nonspace [of "0x3A"]
      json_object_loop_ws [OF assms(1), of d ?tail]
    by (subst json_skip_object_loop.simps)
      (simp add: json_ok_at_def json_ws_append at_def c_isspace_bounds json_string_escape json_skip_value_ws)
  then show ?case using 3(2) 3(4) kv by simp
qed simp

lemma foldr_max_le: "foldr (max \<circ> f) xs 0 \<le> (k :: nat) \<longleftrightarrow> (\<forall>x \<in> set xs. f x \<le> k)"
  by (induction xs) auto

lemma json_lit_other: "hd w \<noteq> c \<Longrightarrow> w \<noteq> [] \<Longrightarrow> json_lit w (c # p) = None"
  by (cases w) (auto simp: json_lit_def)

lemma json_lit_same: "json_lit w (w @ p) = Some p"
  by (simp add: json_lit_def)

lemma json_ok_at_int:
  assumes "ds \<noteq> []" and "list_all c_isdigit ds"
  shows "json_ok_at w (J_int neg ds)"
  unfolding json_ok_at_def
proof (intro allI impI)
  fix d rest assume del: "json_delimited rest" and "d \<le> JSON_MAX_NESTING"
  obtain c p where cp: "(if neg then [0x2D] else []) @ ds @ rest = c # p" "c = 0x2D \<or> c_isdigit c"
    using assms by (cases ds; cases neg) auto
  have c: "\<not> c_isspace c" "c \<notin> {0x22, 0x7B, 0x5B, 0x74, 0x66, 0x6E}"
    using cp(2) by (auto simp: c_isspace_bounds c_isdigit_bounds word_unat_eq_iff)
  have "json_skip_value_depth d (c # p) = json_number (c # p)"
    using c by (simp add: json_skip_value_depth.simps json_ws_nonspace at_def json_lit_other)
  then show "json_skip_value_depth d (json_show w (J_int neg ds) @ rest) =
      (if d + json_nest (J_int neg ds) \<le> JSON_MAX_NESTING then Some rest else None)"
    using json_number_int [OF assms del, of neg] cp(1) c \<open>d \<le> JSON_MAX_NESTING\<close>
    by (simp add: json_number_def json_ws_nonspace)
qed

lemma json_ok_at_arr:
  assumes "list_all c_isspace w" and "\<forall>v \<in> set vs. json_ok_at w v" and "list_all json_proper vs"
  shows "json_ok_at w (J_arr vs)"
  unfolding json_ok_at_def
proof (intro allI impI)
  fix d rest assume "json_delimited rest" "d \<le> JSON_MAX_NESTING"
  let ?inner = "json_sep w (map (json_show w) vs) @ 0x5D # rest"
  have nest: "d + json_nest (J_arr vs) \<le> JSON_MAX_NESTING \<longleftrightarrow>
      d < JSON_MAX_NESTING \<and> (\<forall>v \<in> set vs. Suc d + json_nest v \<le> JSON_MAX_NESTING)"
    using foldr_max_le [of json_nest vs "JSON_MAX_NESTING - Suc d"] by (auto simp: JSON_MAX_NESTING_def)
  have "json_skip_value_depth d (0x5B # w @ ?inner) = json_skip_array_depth d (0x5B # w @ ?inner)"
    by (simp add: json_skip_value_depth.simps json_ws_nonspace c_isspace_bounds at_def)
  also have "\<dots> = (if d + json_nest (J_arr vs) \<le> JSON_MAX_NESTING then Some rest else None)"
  proof (cases "vs = [] \<or> \<not> d < JSON_MAX_NESTING")
    case True
    then show ?thesis unfolding nest using assms(1) json_ws_nonspace [of "0x5D" rest]
      by (auto simp: json_skip_array_depth.simps json_ws_nonspace c_isspace_bounds at_def json_ws_append)
  next
    case False
    have ws: "json_skip_array_loop d (json_ws ?inner) = json_skip_array_loop d ?inner"
      by (simp add: json_skip_array_loop.simps json_skip_value_depth.simps [of _ ?inner]
          json_skip_value_depth.simps [of _ "json_ws ?inner"])
    obtain v vs' where vs: "vs = v # vs'" using False by (cases vs) auto
    obtain c p where "json_show w v = c # p" "\<not> c_isspace c" "c \<noteq> 0x5D"
      using json_show_head [of v w] assms(3) vs by auto
    then have "at (json_ws ?inner) \<noteq> 0x5D"
      using vs by (cases vs') (auto simp: json_ws_nonspace at_def)
    then show ?thesis unfolding nest
      using False json_array_loop_show [OF assms(1) _ assms(2), of d rest] ws assms(1)
      by (simp add: json_skip_array_depth.simps json_ws_nonspace c_isspace_bounds at_def [of "0x5B # _"] json_ws_append)
  qed
  finally show "json_skip_value_depth d (json_show w (J_arr vs) @ rest) =
      (if d + json_nest (J_arr vs) \<le> JSON_MAX_NESTING then Some rest else None)" by simp
qed

lemma json_ok_at_obj:
  assumes "list_all c_isspace w" and "\<forall>kv \<in> set kvs. json_ok_at w (snd kv)"
  shows "json_ok_at w (J_obj kvs)"
  unfolding json_ok_at_def
proof (intro allI impI)
  fix d rest assume "json_delimited rest" "d \<le> JSON_MAX_NESTING"
  let ?inner = "json_sep w (map (\<lambda>(k, v). json_escape k @ w @ 0x3A # w @ json_show w v) kvs) @ 0x7D # rest"
  have nest: "d + json_nest (J_obj kvs) \<le> JSON_MAX_NESTING \<longleftrightarrow>
      d < JSON_MAX_NESTING \<and> (\<forall>kv \<in> set kvs. Suc d + json_nest (snd kv) \<le> JSON_MAX_NESTING)"
    using foldr_max_le [of "json_nest \<circ> snd" kvs "JSON_MAX_NESTING - Suc d"] by (auto simp: JSON_MAX_NESTING_def)
  have "json_skip_value_depth d (0x7B # w @ ?inner) = json_skip_object_depth d (0x7B # w @ ?inner)"
    by (simp add: json_skip_value_depth.simps json_ws_nonspace c_isspace_bounds at_def)
  also have "\<dots> = (if d + json_nest (J_obj kvs) \<le> JSON_MAX_NESTING then Some rest else None)"
  proof (cases "kvs = [] \<or> \<not> d < JSON_MAX_NESTING")
    case True
    then show ?thesis unfolding nest using assms(1) json_ws_nonspace [of "0x7D" rest]
      by (auto simp: json_skip_object_depth.simps json_ws_nonspace c_isspace_bounds at_def json_ws_append)
  next
    case False
    then obtain k v kvs' where kvs: "kvs = (k, v) # kvs'" by (cases kvs) auto
    then obtain p where inner: "?inner = 0x22 # p" by (cases kvs') (auto simp: json_escape_def)
    have ws: "json_ws ?inner = ?inner" unfolding inner by (rule json_ws_quote)
    have head: "at ?inner \<noteq> 0x7D" unfolding inner by (simp add: at_def)
    show ?thesis unfolding nest
      using False json_object_loop_show [OF assms(1) _ assms(2), of d rest] ws head assms(1)
      by (simp add: json_skip_object_depth.simps json_ws_nonspace c_isspace_bounds at_def [of "0x7B # _"] json_ws_append)
  qed
  finally show "json_skip_value_depth d (json_show w (J_obj kvs) @ rest) =
      (if d + json_nest (J_obj kvs) \<le> JSON_MAX_NESTING then Some rest else None)" by simp
qed

lemma json_ok_at_all: "list_all c_isspace w \<Longrightarrow> json_proper v \<Longrightarrow> json_ok_at w v"
proof (induction v)
  case (J_int neg ds)
  then show ?case by (intro json_ok_at_int) simp_all
next
  case (J_str s)
  have "at (json_escape s @ p) = 0x22" "json_ws (json_escape s @ p) = json_escape s @ p" for p
    by (simp_all add: at_def json_escape_def json_ws_quote)
  then show ?case by (simp add: json_ok_at_def json_skip_value_depth.simps json_string_escape)
next
  case (J_arr vs)
  then show ?case by (intro json_ok_at_arr) (auto simp: list_all_iff)
next
  case (J_obj kvs)
  have "json_ok_at w (snd kv)" if "kv \<in> set kvs" for kv
    using J_obj that by (cases kv) (auto simp: list_all_iff)
  then show ?case using J_obj.prems(1) by (intro json_ok_at_obj) auto
qed (simp_all add: json_ok_at_def json_skip_value_depth.simps json_ws_nonspace at_def c_isspace_bounds
    json_lit_other json_lit_def)



section \<open>Minifying\<close>

definition json_plain :: "u8 \<Rightarrow> bool" where "json_plain c \<longleftrightarrow> c \<noteq> 0x22 \<and> \<not> c_isspace c"

lemma json_minify_plain:
  "list_all json_plain s \<Longrightarrow> json_minify_loop False False (s @ p) = s @ json_minify_loop False False p"
  by (induction s) (auto simp: json_plain_def)

lemma json_minify_blank:
  "list_all c_isspace w \<Longrightarrow> json_minify_loop False False (w @ p) = json_minify_loop False False p"
  by (induction w) (auto simp: c_isspace_bounds)

lemma hex_lower_plain: "d < 16 \<Longrightarrow> hex_lower d \<noteq> 0x22 \<and> hex_lower d \<noteq> 0x5C"
  by (drule u8_less_16) (auto simp: hex_lower_def word_less_nat_alt)

lemma json_minify_escape_char:
  "json_minify_loop True False (json_escape_char c @ p) = json_escape_char c @ json_minify_loop True False p"
proof (cases "c < 0x20 \<and> c \<noteq> 10 \<and> c \<noteq> 13 \<and> c \<noteq> 9")
  case True
  have "drop_bit 4 c < 16" "c AND 15 < 16"
  proof -
    have "c < 0x20" using True by simp
    then show "drop_bit 4 c < 16" by (simp add: word_less_nat_alt drop_bit_eq_div unat_div)
    have "c AND 15 = take_bit 4 c" by (simp add: take_bit_eq_mask mask_eq_exp_minus_1)
    then show "c AND 15 < 16" by (simp add: word_less_nat_alt unsigned_take_bit_eq take_bit_eq_mod unat_mod)
  qed
  moreover have "c \<noteq> 0x22" "c \<noteq> 0x5C" using True by (auto simp: word_less_nat_alt)
  ultimately show ?thesis using True hex_lower_plain by (simp add: json_escape_char_def)
qed (auto simp: json_escape_char_def)

lemma json_minify_escape:
  "json_minify_loop False False (json_escape s @ p) = json_escape s @ json_minify_loop False False p"
proof -
  have "json_minify_loop True False (concat (map json_escape_char s) @ 0x22 # p) =
      concat (map json_escape_char s) @ 0x22 # json_minify_loop False False p"
    by (induction s) (simp_all add: json_minify_escape_char)
  then show ?thesis by (simp add: json_escape_def)
qed

lemma json_minify_sep:
  assumes "list_all c_isspace w" and "\<And>x p. x \<in> set xs \<Longrightarrow>
      json_minify_loop False False (f x @ p) = g x @ json_minify_loop False False p"
  shows "json_minify_loop False False (json_sep w (map f xs) @ p) =
    json_sep [] (map g xs) @ json_minify_loop False False p"
  using assms(2)
proof (induction xs rule: induct_list012)
  case (3 x y zs)
  have comma: "\<not> c_isspace 0x2C" by (simp add: c_isspace_bounds)
  show ?case using 3 assms(1) comma by (simp add: json_minify_blank)
qed (simp_all add: json_minify_blank assms(1))

lemma json_minify_show:
  "list_all c_isspace w \<Longrightarrow> json_proper v \<Longrightarrow>
    json_minify_loop False False (json_show w v @ p) = json_show [] v @ json_minify_loop False False p"
proof (induction v arbitrary: p)
  case (J_int neg ds)
  have "list_all json_plain ds"
    using J_int.prems(2) by (auto simp: list_all_iff json_plain_def c_isdigit_bounds c_isspace_bounds word_unat_eq_iff)
  then have "list_all json_plain ((if neg then [0x2D] else []) @ ds)"
    by (simp add: json_plain_def c_isspace_bounds)
  from json_minify_plain [OF this, of p] show ?case by simp
next
  case (J_str s)
  then show ?case by (simp add: json_minify_escape)
next
  case (J_arr vs)
  have "json_minify_loop False False (json_sep w (map (json_show w) vs) @ 0x5D # p) =
      json_sep [] (map (json_show []) vs) @ json_minify_loop False False (0x5D # p)"
    using J_arr by (intro json_minify_sep) (auto simp: list_all_iff)
  then show ?case using json_minify_blank [OF J_arr.prems(1)] by (simp add: c_isspace_bounds)
next
  case (J_obj kvs)
  have "json_minify_loop False False (json_sep w (map (\<lambda>(k, v). json_escape k @ w @ 0x3A # w @ json_show w v) kvs) @ 0x7D # p) =
      json_sep [] (map (\<lambda>(k, v). json_escape k @ 0x3A # json_show [] v) kvs) @ json_minify_loop False False (0x7D # p)"
  proof (intro json_minify_sep)
    fix kv q assume kv: "kv \<in> set kvs"
    obtain k v where [simp]: "kv = (k, v)" by fastforce
    have "json_minify_loop False False (json_show w v @ q) = json_show [] v @ json_minify_loop False False q"
      using J_obj kv by (auto simp: list_all_iff)
    then show "json_minify_loop False False ((case kv of (k, v) \<Rightarrow> json_escape k @ w @ 0x3A # w @ json_show w v) @ q) =
        (case kv of (k, v) \<Rightarrow> json_escape k @ 0x3A # json_show [] v) @ json_minify_loop False False q"
      using json_minify_blank [OF J_obj.prems(1)] by (simp add: json_minify_escape c_isspace_bounds)
  qed (rule J_obj.prems(1))
  then show ?case using json_minify_blank [OF J_obj.prems(1)] by (simp add: c_isspace_bounds)
qed (simp_all add: c_isspace_bounds)

text \<open>Minifying a raw value removes the blanks between its tokens and nothing else: from a value printed
  with any blanks, inside whatever text, it gives the compact print of the same value, the
  blanks inside its strings kept.\<close>

theorem json_minify_compact:
  assumes "list_all c_isspace w" and "json_proper v" and "json_nest v \<le> 256" and "json_delimited rest"
  shows "json_minify_raw_value (Some (w @ json_show w v @ rest)) = json_show [] v"
proof -
  have start: "json_ws (w @ json_show w v @ rest) = json_show w v @ rest"
    using json_ws_show [OF assms(2)] by (simp add: json_ws_append assms(1))
  have "json_skip_value (json_show w v @ rest) = Some rest"
    using json_ok_at_all [OF assms(1,2)] assms(3,4)
    by (simp add: json_skip_value_def json_ok_at_def JSON_MAX_NESTING_def)
  then show ?thesis using json_minify_show [OF assms(1,2), of "[]"]
    by (simp add: json_minify_raw_value_def Let_def start)
qed

theorem json_minify_compact_witness:
  "json_minify_raw_value (Some ([0x20] @ json_show [0x20] (J_obj [([0x61, 0x20, 0x22], J_arr [J_true, J_null])]) @ [0x2C])) =
    json_show [] (J_obj [([0x61, 0x20, 0x22], J_arr [J_true, J_null])])"
  by (rule json_minify_compact) (simp_all add: c_isspace_bounds json_delimited_def)

end
