(* ===== verification/Server_Text.thy ===== *)
theory Server_Text
  imports Server_Json
begin

text \<open>
  Text handling of the server's streams (ds4_server.c): Base64 of image inputs against the encoder
  of ds4_web.c, the stop-sequence list with its parser, search and streaming hold-back, and the
  UTF-8 boundary a stream may be cut at. Strings are byte lists as in \<open>Server_Json\<close>.
\<close>

section \<open>Base64\<close>

definition base64_value :: "u8 \<Rightarrow> nat option" where
  "base64_value c =
     (if 0x41 \<le> c \<and> c \<le> 0x5A then Some (unat (c - 0x41))
      else if 0x61 \<le> c \<and> c \<le> 0x7A then Some (26 + unat (c - 0x61))
      else if 0x30 \<le> c \<and> c \<le> 0x39 then Some (52 + unat (c - 0x30))
      else if c = 0x2B then Some 62
      else if c = 0x2F then Some 63
      else None)"

fun base64_groups :: "u8 list \<Rightarrow> u8 list option" where
  "base64_groups (s0 # s1 # s2 # s3 # rest) =
     (let pad2 = (s2 = 0x3D); pad3 = (s3 = 0x3D)
      in case (base64_value s0, base64_value s1, if pad2 then Some 0 else base64_value s2,
               if pad3 then Some 0 else base64_value s3) of
           (Some a, Some b, Some c, Some d) \<Rightarrow>
             if pad2 \<and> \<not> pad3 \<or> (pad2 \<or> pad3) \<and> rest \<noteq> [] then None
             else
               let bits = push_bit 18 (of_nat a) OR push_bit 12 (of_nat b) OR push_bit 6 (of_nat c) OR (of_nat d :: u32);
                   out = ucast (drop_bit 16 bits) # (if pad2 then [] else [ucast (drop_bit 8 bits)]) @
                     (if pad3 then [] else [ucast bits])
               in map_option ((@) out) (base64_groups rest)
         | _ \<Rightarrow> None)"
| "base64_groups _ = Some []"

definition server_decode_base64 :: "u8 list option \<Rightarrow> u8 list option" where
  "server_decode_base64 src =
     (let s = (case src of Some s \<Rightarrow> s | None \<Rightarrow> []); n = length s
      in if n = 0 \<or> n mod 4 \<noteq> 0 \<or> 64 * 1024 * 1024 < n then None else base64_groups s)"

definition base64_tab :: "u8 list" where
  "base64_tab = map of_char ''ABCDEFGHIJKLMNOPQRSTUVWXYZabcdefghijklmnopqrstuvwxyz0123456789+/''"

definition base64_digit :: "nat \<Rightarrow> u32 \<Rightarrow> u8" where
  "base64_digit k v = base64_tab ! unat (drop_bit k v AND 63)"

fun web_base64 :: "u8 list \<Rightarrow> u8 list" where
  "web_base64 [] = []"
| "web_base64 [a] =
     (let v = push_bit 16 (ucast a :: u32) in [base64_digit 18 v, base64_digit 12 v, 0x3D, 0x3D])"
| "web_base64 [a, b] =
     (let v = push_bit 16 (ucast a :: u32) OR push_bit 8 (ucast b)
      in [base64_digit 18 v, base64_digit 12 v, base64_digit 6 v, 0x3D])"
| "web_base64 (a # b # c # rest) =
     (let v = push_bit 16 (ucast a :: u32) OR push_bit 8 (ucast b) OR ucast c
      in [base64_digit 18 v, base64_digit 12 v, base64_digit 6 v, base64_digit 0 v] @ web_base64 rest)"

lemma base64_tab_value: "i < 64 \<Longrightarrow> base64_value (base64_tab ! i) = Some i \<and> base64_tab ! i \<noteq> 0x3D"
proof -
  have v: "map base64_value base64_tab = map Some [0..<64]" by code_simp
  have "0x3D \<notin> set base64_tab" by code_simp
  moreover assume i: "i < 64"
  moreover have l: "length base64_tab = 64" using arg_cong [OF v, of length] by simp
  ultimately have "base64_tab ! i \<noteq> 0x3D" by (metis nth_mem)
  with arg_cong [OF v, of "\<lambda>xs. xs ! i"] i l show ?thesis by simp
qed

lemma base64_digit_value: "base64_value (base64_digit k v) = Some (unat (drop_bit k v AND 63)) \<and> base64_digit k v \<noteq> 0x3D"
proof -
  have "drop_bit k v AND 63 = take_bit 6 (drop_bit k v)" by (simp add: take_bit_eq_mask mask_eq_exp_minus_1)
  then have "unat (drop_bit k v AND 63) < 64"
    by (simp add: unsigned_take_bit_eq take_bit_eq_mod unat_mod)
  then show ?thesis unfolding base64_digit_def by (rule base64_tab_value)
qed

lemma base64_join:
  fixes v :: u32
  assumes "v < 2 ^ 24"
  shows "push_bit 18 (drop_bit 18 v AND 63) OR push_bit 12 (drop_bit 12 v AND 63) OR
    push_bit 6 (drop_bit 6 v AND 63) OR (v AND 63) = v"
proof -
  have six: "x AND 63 = take_bit 6 x" for x :: u32 by (simp add: take_bit_eq_mask mask_eq_exp_minus_1)
  have hi: "\<not> bit v n" if "24 \<le> n" for n
  proof -
    have "take_bit 24 v = v"
      using assms by (simp add: word_unat_eq_iff unsigned_take_bit_eq take_bit_nat_eq_self word_less_nat_alt)
    then show ?thesis using that by (metis bit_take_bit_iff not_le)
  qed
  show ?thesis unfolding six
  proof (rule bit_word_eqI)
    fix n assume "n < LENGTH(32)"
    consider "n < 6" | "6 \<le> n" "n < 12" | "12 \<le> n" "n < 18" | "18 \<le> n" "n < 24" | "24 \<le> n" by linarith
    then show "bit (push_bit 18 (take_bit 6 (drop_bit 18 v)) OR push_bit 12 (take_bit 6 (drop_bit 12 v)) OR
        push_bit 6 (take_bit 6 (drop_bit 6 v)) OR take_bit 6 v) n = bit v n"
      using \<open>n < LENGTH(32)\<close> by cases (auto simp: bit_simps hi)
  qed
qed

lemma base64_group_value:
  assumes "v < 2 ^ 24"
  shows "push_bit 18 (of_nat (unat (drop_bit 18 v AND 63))) OR push_bit 12 (of_nat (unat (drop_bit 12 v AND 63))) OR
    push_bit 6 (of_nat (unat (drop_bit 6 v AND 63))) OR of_nat (unat (drop_bit 0 v AND 63)) = (v :: u32)"
  using base64_join [OF assms] by simp

lemma u8_high_bit: "8 \<le> n \<Longrightarrow> \<not> bit (x :: u8) n"
  using bit_imp_le_length [of x n] by auto

lemma high_bits_less:
  fixes v :: u32
  assumes "\<And>n. 24 \<le> n \<Longrightarrow> \<not> bit v n"
  shows "v < 2 ^ 24"
proof -
  have "take_bit 24 v = v"
    by (rule bit_word_eqI) (simp add: bit_take_bit_iff, metis assms not_le)
  then have "unat v < 2 ^ 24" by (metis take_bit_nat_less_exp unsigned_take_bit_eq)
  then show ?thesis by (simp add: word_less_nat_alt)
qed

lemma base64_pack_less: "push_bit 16 (ucast a :: u32) OR push_bit 8 (ucast b) OR ucast c < 2 ^ 24"
  for a b c :: u8
proof (rule high_bits_less)
  fix n :: nat assume n: "24 \<le> n"
  have "\<not> bit a (n - 16)" "\<not> bit b (n - 8)" "\<not> bit c n" using n by (intro u8_high_bit, linarith)+
  then show "\<not> bit (push_bit 16 (ucast a :: u32) OR push_bit 8 (ucast b) OR ucast c) n"
    by (simp add: bit_or_iff bit_push_bit_iff bit_unsigned_iff)
qed

lemma base64_unpack:
  fixes a b c :: u8
  defines "v \<equiv> push_bit 16 (ucast a :: u32) OR push_bit 8 (ucast b) OR ucast c"
  shows "ucast (drop_bit 16 v) = a" "ucast (drop_bit 8 v) = b" "ucast v = c"
  unfolding v_def
  by (rule bit_word_eqI, simp add: bit_simps u8_high_bit)+

lemma and_63: "x AND 63 = take_bit 6 (x :: u32)"
  by (simp add: take_bit_eq_mask mask_eq_exp_minus_1)

lemma web_base64_length: "length (web_base64 data) = 4 * ((length data + 2) div 3)"
proof (induction data rule: web_base64.induct)
  case (4 a b c rest)
  have "(length (a # b # c # rest) + 2) div 3 = Suc ((length rest + 2) div 3)" by simp
  then show ?case using 4 by (simp add: Let_def)
qed (simp_all add: Let_def)

lemma base64_pad_digits:
  fixes a b :: u8
  shows "drop_bit 6 (push_bit 16 (ucast a :: u32)) AND 63 = 0"
    and "drop_bit 0 (push_bit 16 (ucast a :: u32) OR push_bit 8 (ucast b)) AND 63 = 0"
  unfolding and_63
  by (rule bit_word_eqI, simp add: bit_take_bit_iff bit_drop_bit_eq bit_push_bit_iff bit_or_iff)+

lemma base64_group_pad2:
  fixes v :: u32
  assumes "v < 2 ^ 24" and "drop_bit 6 v AND 63 = 0" and "drop_bit 0 v AND 63 = 0"
  shows "base64_groups [base64_digit 18 v, base64_digit 12 v, 0x3D, 0x3D] = Some [ucast (drop_bit 16 v)]"
proof -
  have "push_bit 18 (of_nat (unat (drop_bit 18 v AND 63))) OR push_bit 12 (of_nat (unat (drop_bit 12 v AND 63))) = v"
    using base64_group_value [OF assms(1)] unfolding assms(2,3) by simp
  then have "push_bit 18 (of_nat (unat (drop_bit 18 v AND 63))) OR
      push_bit 12 (of_nat (unat (drop_bit 12 v AND 63))) OR push_bit 6 (of_nat 0) OR of_nat 0 = v" by simp
  then show ?thesis unfolding base64_groups.simps Let_def by (simp only: base64_digit_value) simp
qed

lemma base64_groups_encode: "base64_groups (web_base64 data) = Some data"
proof (induction data rule: web_base64.induct)
  case (2 a)
  show ?case
    using base64_group_pad2 [OF _ base64_pad_digits(1) [of a]] base64_pack_less [of a 0 0]
      base64_pad_digits(2) [of a 0] base64_unpack(1) [of a 0 0]
    by (simp add: Let_def del: base64_groups.simps)
next
  case (3 a b)
  show ?case
    using base64_group_value [OF base64_pack_less [of a b 0]] base64_unpack [of a b 0] base64_pad_digits(2) [of a b]
    by (simp add: Let_def base64_digit_value)
next
  case (4 a b c rest)
  show ?case
    using 4 base64_group_value [OF base64_pack_less [of a b c]] base64_unpack [of a b c]
    by (simp add: Let_def base64_digit_value)
qed simp

text \<open>Base64 round trip between the two programs: what the web client's encoder writes for non-empty
  data of at most 48 MiB, the server's image decoder reads back exactly, padding included; a
  longer or an empty input is refused.\<close>

theorem base64_roundtrip:
  "server_decode_base64 (Some (web_base64 data)) =
    (if data = [] \<or> 48 * 1024 * 1024 < length data then None else Some data)"
proof -
  have "64 * 1024 * 1024 < length (web_base64 data) \<longleftrightarrow> 16777217 \<le> (length data + 2) div 3"
    unfolding web_base64_length by linarith
  also have "\<dots> \<longleftrightarrow> 16777217 * 3 \<le> length data + 2"
    by (rule less_eq_div_iff_mult_less_eq) simp
  finally have "64 * 1024 * 1024 < length (web_base64 data) \<longleftrightarrow> 48 * 1024 * 1024 < length data"
    by linarith
  moreover have "web_base64 data = [] \<longleftrightarrow> data = []"
    by (cases data rule: web_base64.cases) (simp_all add: Let_def)
  ultimately show ?thesis
    by (simp add: server_decode_base64_def Let_def base64_groups_encode web_base64_length)
qed

section \<open>UTF-8 boundaries\<close>

definition utf8_expected_len :: "u8 \<Rightarrow> nat" where
  "utf8_expected_len c =
     (if c < 0x80 then 1 else if 0xC2 \<le> c \<and> c \<le> 0xDF then 2 else if 0xE0 \<le> c \<and> c \<le> 0xEF then 3
      else if 0xF0 \<le> c \<and> c \<le> 0xF4 then 4 else 1)"

definition utf8_cont :: "u8 \<Rightarrow> bool" where "utf8_cont c \<longleftrightarrow> c AND 0xC0 = 0x80"

text \<open>The loop that steps back over at most four continuation bytes.\<close>

fun utf8_step_back :: "u8 list \<Rightarrow> nat \<Rightarrow> nat \<Rightarrow> nat \<Rightarrow> nat" where
  "utf8_step_back s start p cont =
     (if start < p \<and> cont < 4 \<and> utf8_cont (s ! (p - 1)) then utf8_step_back s start (p - 1) (cont + 1) else p)"

declare utf8_step_back.simps [simp del]

definition utf8_stream_safe_len :: "u8 list option \<Rightarrow> nat \<Rightarrow> nat \<Rightarrow> bool \<Rightarrow> nat" where
  "utf8_stream_safe_len text start limit final =
     (case text of
        None \<Rightarrow> limit
      | Some s \<Rightarrow>
          if final \<or> limit \<le> start then limit
          else let p = utf8_step_back s start limit 0
               in if p = limit then (if 1 < utf8_expected_len (s ! (limit - 1)) then limit - 1 else limit)
                  else if p = start \<and> utf8_cont (s ! p) then start
                  else let lead = p - 1 in if limit - lead < utf8_expected_len (s ! lead) then lead else limit)"

lemma utf8_step_back_bounds:
  "utf8_step_back s start p cont \<le> p \<and> (start \<le> p \<longrightarrow> start \<le> utf8_step_back s start p cont)"
proof (induction s start p cont rule: utf8_step_back.induct)
  case (1 s start p cont)
  then show ?case unfolding utf8_step_back.simps [of s start p cont] by (simp split: if_splits) linarith
qed

lemma utf8_stream_safe_len_le: "utf8_stream_safe_len text start limit final \<le> limit"
  using utf8_step_back_bounds [of _ start limit 0]
  by (auto simp: utf8_stream_safe_len_def Let_def split: option.splits intro: order_trans [OF diff_le_self])

text \<open>Stepping back from inside a character ends just after its lead byte.\<close>

lemma utf8_step_back_lead:
  assumes "start \<le> l" and "l < p" and "p \<le> l + 5 - cont" and "\<not> utf8_cont (s ! l)"
    and "\<And>i. l < i \<Longrightarrow> i < p \<Longrightarrow> utf8_cont (s ! i)"
  shows "utf8_step_back s start p cont = l + 1"
  using assms
proof (induction s start p cont rule: utf8_step_back.induct)
  case (1 s start p cont)
  show ?case
  proof (cases "p = l + 1")
    case True
    then show ?thesis using "1.prems"(4) by (subst utf8_step_back.simps) simp
  next
    case False
    then have "utf8_cont (s ! (p - 1))" "start < p" "cont < 4" using "1.prems" by auto
    then show ?thesis using False "1.prems" "1.IH" by (subst utf8_step_back.simps) simp
  qed
qed

lemma utf8_safe_len_lead:
  assumes "start \<le> l" and "l < limit" and "limit \<le> l + 4" and "\<not> utf8_cont (s ! l)"
    and "\<And>i. l < i \<Longrightarrow> i < limit \<Longrightarrow> utf8_cont (s ! i)"
  shows "utf8_stream_safe_len (Some s) start limit False =
    (if limit - l < utf8_expected_len (s ! l) then l else limit)"
proof -
  have stepped: "utf8_step_back s start limit 0 = l + 1"
    using assms by (intro utf8_step_back_lead) auto
  show ?thesis
  proof (cases "limit = l + 1")
    case True
    then show ?thesis using assms stepped by (simp add: utf8_stream_safe_len_def)
  next
    case False
    then show ?thesis using assms stepped by (simp add: utf8_stream_safe_len_def Let_def)
  qed
qed

lemma u32_small_cases:
  assumes "list_all (\<lambda>i. P (of_nat i :: u32)) [0..<k]" and "unat d < k"
  shows "P d"
proof -
  have "P (of_nat (unat d))" using assms unfolding list_all_iff by (metis atLeast_upt lessThan_iff)
  then show ?thesis by simp
qed

lemma utf8_cont_byte: "utf8_cont (ucast (0x80 OR (x AND 0x3F :: u32)))"
proof -
  have "x AND 0x3F = take_bit 6 x" by (simp add: take_bit_eq_mask mask_eq_exp_minus_1)
  then have less: "unat (x AND 0x3F) < 64"
    using take_bit_nat_less_exp [of 6 "unat x"] by (simp add: unsigned_take_bit_eq)
  have "list_all (\<lambda>i. utf8_cont (ucast (0x80 OR (of_nat i :: u32)))) [0..<64]" by code_simp
  then show ?thesis using less by (rule u32_small_cases)
qed

lemma utf8_lead_2:
  assumes "0x7F < cp" and "cp \<le> (0x7FF :: u32)"
  shows "\<not> utf8_cont (ucast (0xC0 OR drop_bit 6 cp))" "utf8_expected_len (ucast (0xC0 OR drop_bit 6 cp)) = 2"
proof -
  have less: "unat (drop_bit 6 cp) < 32" "2 \<le> unat (drop_bit 6 cp)"
    using assms by (simp_all add: drop_bit_eq_div unat_div word_less_nat_alt word_le_nat_alt)
  have "list_all (\<lambda>i. 2 \<le> unat (of_nat i :: u32) \<longrightarrow> \<not> utf8_cont (ucast (0xC0 OR (of_nat i :: u32))) \<and>
      utf8_expected_len (ucast (0xC0 OR (of_nat i :: u32))) = 2) [0..<32]" by code_simp
  from u32_small_cases [OF this less(1)] less(2)
  show "\<not> utf8_cont (ucast (0xC0 OR drop_bit 6 cp))" "utf8_expected_len (ucast (0xC0 OR drop_bit 6 cp)) = 2"
    by simp_all
qed

lemma utf8_lead_3:
  assumes "cp \<le> (0xFFFF :: u32)"
  shows "\<not> utf8_cont (ucast (0xE0 OR drop_bit 12 cp))" "utf8_expected_len (ucast (0xE0 OR drop_bit 12 cp)) = 3"
proof -
  have less: "unat (drop_bit 12 cp) < 16"
    using assms by (simp add: drop_bit_eq_div unat_div word_le_nat_alt)
  have "list_all (\<lambda>i. \<not> utf8_cont (ucast (0xE0 OR (of_nat i :: u32))) \<and>
      utf8_expected_len (ucast (0xE0 OR (of_nat i :: u32))) = 3) [0..<16]" by code_simp
  from u32_small_cases [OF this less]
  show "\<not> utf8_cont (ucast (0xE0 OR drop_bit 12 cp))" "utf8_expected_len (ucast (0xE0 OR drop_bit 12 cp)) = 3"
    by simp_all
qed

lemma utf8_lead_4:
  assumes "cp \<le> (0x10FFFF :: u32)"
  shows "\<not> utf8_cont (ucast (0xF0 OR drop_bit 18 cp))" "utf8_expected_len (ucast (0xF0 OR drop_bit 18 cp)) = 4"
proof -
  have less: "unat (drop_bit 18 cp) < 5"
    using assms by (simp add: drop_bit_eq_div unat_div word_le_nat_alt)
  have "list_all (\<lambda>i. \<not> utf8_cont (ucast (0xF0 OR (of_nat i :: u32))) \<and>
      utf8_expected_len (ucast (0xF0 OR (of_nat i :: u32))) = 4) [0..<5]" by code_simp
  from u32_small_cases [OF this less]
  show "\<not> utf8_cont (ucast (0xF0 OR drop_bit 18 cp))" "utf8_expected_len (ucast (0xF0 OR drop_bit 18 cp)) = 4"
    by simp_all
qed

lemma utf8_ascii: "c \<le> 0x7F \<Longrightarrow> \<not> utf8_cont (ucast (c :: u32)) \<and> utf8_expected_len (ucast c) = 1"
proof -
  assume c: "c \<le> 0x7F"
  have "list_all (\<lambda>i. \<not> utf8_cont (ucast (of_nat i :: u32)) \<and> utf8_expected_len (ucast (of_nat i :: u32)) = 1) [0..<128]"
    by code_simp
  moreover have "unat c < 128" using c by (simp add: word_le_nat_alt)
  ultimately show ?thesis by (rule u32_small_cases)
qed

lemma utf8_put_shape:
  obtains lead conts where "utf8_put cp = lead # conts" and "\<not> utf8_cont lead" and "list_all utf8_cont conts"
    and "utf8_expected_len lead = Suc (length conts)" and "length conts \<le> 3"
proof -
  define c where "c = (if 0x10FFFF < cp \<or> 0xD800 \<le> cp \<and> cp \<le> 0xDFFF then 0xFFFD else cp)"
  have top: "c \<le> 0x10FFFF" by (simp add: c_def not_less)
  have "\<exists>lead conts. utf8_put cp = lead # conts \<and> \<not> utf8_cont lead \<and> list_all utf8_cont conts \<and>
      utf8_expected_len lead = Suc (length conts) \<and> length conts \<le> 3"
    unfolding utf8_put_def Let_def c_def [symmetric]
    using utf8_ascii [of c] utf8_lead_2 [of c] utf8_lead_3 [of c] utf8_lead_4 [OF top] utf8_cont_byte
    by (simp split: if_splits)
  then show thesis using that by blast
qed

text \<open>C27. Streamed text never splits a character: when the text so far is a start already sent, whole characters
  and the first bytes of one more, the length safe to send ends exactly after the whole
  characters, and what is held back is less than one character.\<close>

theorem utf8_stream_boundary:
  assumes "k < length (utf8_put cp)"
  shows "utf8_stream_safe_len (Some (pre @ concat (map utf8_put cps) @ utf8_put cp @ more)) (length pre)
      (length pre + length (concat (map utf8_put cps)) + k) False =
    length pre + length (concat (map utf8_put cps))"
proof -
  define body where "body = concat (map utf8_put cps)"
  define s where "s = pre @ body @ utf8_put cp @ more"
  show ?thesis
  proof (cases "k = 0")
    case False
    obtain lead conts where put: "utf8_put cp = lead # conts" "\<not> utf8_cont lead" "list_all utf8_cont conts"
      "utf8_expected_len lead = Suc (length conts)" "length conts \<le> 3" by (rule utf8_put_shape)
    have nth: "s ! (length pre + length body + i) = utf8_put cp ! i" if "i < length (utf8_put cp)" for i
      using that by (simp add: s_def nth_append)
    have "utf8_cont (s ! i)" if "length pre + length body < i" "i < length pre + length body + k" for i
      using nth [of "i - (length pre + length body)"] that assms put by (auto simp: list_all_length nth_Cons')
    then have "utf8_stream_safe_len (Some s) (length pre) (length pre + length body + k) False =
        length pre + length body"
      using utf8_safe_len_lead [of "length pre" "length pre + length body" "length pre + length body + k" s]
        nth [of 0] False assms put by simp
    then show ?thesis by (simp add: s_def body_def)
  next
    case True
    show ?thesis
    proof (cases cps rule: rev_cases)
      case Nil
      then show ?thesis using True by (simp add: utf8_stream_safe_len_def)
    next
      case (snoc ds d)
      obtain lead conts where put: "utf8_put d = lead # conts" "\<not> utf8_cont lead" "list_all utf8_cont conts"
        "utf8_expected_len lead = Suc (length conts)" "length conts \<le> 3" by (rule utf8_put_shape)
      define l where "l = length pre + length (concat (map utf8_put ds))"
      have nth: "s ! (l + i) = (lead # conts) ! i" if "i \<le> length conts" for i
        using that by (cases i) (simp_all add: s_def body_def l_def snoc put(1) nth_append)
      have "utf8_cont (s ! i)" if "l < i" "i < l + Suc (length conts)" for i
        using nth [of "i - l"] that put(3) by (auto simp: list_all_length nth_Cons')
      then have "utf8_stream_safe_len (Some s) (length pre) (l + Suc (length conts)) False = l + Suc (length conts)"
        using utf8_safe_len_lead [of "length pre" l "l + Suc (length conts)" s] nth [of 0] put by (simp add: l_def)
      moreover have "l + Suc (length conts) = length pre + length body"
        by (simp add: l_def body_def snoc put(1))
      ultimately show ?thesis using True by (simp add: s_def body_def)
    qed
  qed
qed

theorem utf8_stream_boundary_witness:
  "utf8_stream_safe_len (Some ([0x41] @ concat (map utf8_put [0xE9, 0x42]) @ utf8_put 0x20AC @ [])) (length [0x41 :: u8])
      (length [0x41 :: u8] + length (concat (map utf8_put [0xE9, 0x42])) + 2) False =
    length [0x41 :: u8] + length (concat (map utf8_put [0xE9, 0x42]))"
  by (rule utf8_stream_boundary) code_simp

end
