(* ===== verification/Server_Stream.thy ===== *)
theory Server_Stream
  imports Server_Text
begin

text \<open>
  Stop sequences and the plain token stream of ds4_server.c: the stop list with its parser, search
  and hold-back, and the part of the generation loop that appends a token's text, looks for a stop
  sequence, and sends the client what can no longer become part of one.
\<close>

section \<open>The stop list\<close>

record stop_list =
  sl_v :: "u8 list list"
  sl_max_len :: nat

definition stop_list_clear :: "stop_list \<Rightarrow> stop_list" where
  "stop_list_clear stops = stops\<lparr>sl_v := [], sl_max_len := 0\<rparr>"

definition stop_list_push :: "stop_list \<Rightarrow> u8 list \<Rightarrow> stop_list" where
  "stop_list_push stops s =
     (if s = [] then stops
      else stops\<lparr>sl_v := sl_v stops @ [s], sl_max_len := max (length s) (sl_max_len stops)\<rparr>)"

text \<open>The elements of a stop array: strings are pushed, other values skipped, commas optional.\<close>

definition parse_stop_comma :: "u8 list \<Rightarrow> u8 list" where
  "parse_stop_comma q = (let r = json_ws q in json_ws (if at r = 0x2C then tl r else r))"

lemma parse_stop_comma_length: "length (parse_stop_comma q) \<le> length q"
  using length_json_ws [of q] length_json_ws [of "tl (json_ws q)"] length_json_ws [of "json_ws q"]
  by (cases "json_ws q") (auto simp: parse_stop_comma_def Let_def)

function parse_stop_loop :: "u8 list \<Rightarrow> stop_list \<Rightarrow> (u8 list \<times> stop_list) option" where
  "parse_stop_loop p out =
     (if p = [] then None
      else if at p = 0x5D then Some (tl p, out)
      else if at p = 0x22
      then case json_string p of None \<Rightarrow> None
           | Some (s, q) \<Rightarrow> parse_stop_loop (parse_stop_comma q) (stop_list_push out s)
      else case json_skip_value p of None \<Rightarrow> None
           | Some q \<Rightarrow> parse_stop_loop (parse_stop_comma q) out)"
  by pat_completeness auto

termination
proof (relation "measure (\<lambda>(p, out). length p)", goal_cases)
  case (2 p out x s q)
  then show ?case using json_string_length [of p s q] parse_stop_comma_length [of q] by simp
next
  case (3 p out q)
  then show ?case using json_skip_value_length [of p q] parse_stop_comma_length [of q] by simp
qed simp

declare parse_stop_loop.simps [simp del]

definition parse_stop :: "u8 list \<Rightarrow> stop_list \<Rightarrow> (u8 list \<times> stop_list) option" where
  "parse_stop p out =
     (let p = json_ws p; out = stop_list_clear out
      in if at p = 0x22
         then case json_string p of None \<Rightarrow> None | Some (s, q) \<Rightarrow> Some (q, stop_list_push out s)
         else if at p \<noteq> 0x5B then map_option (\<lambda>q. (q, out)) (json_skip_value p)
         else parse_stop_loop (json_ws (tl p)) out)"

text \<open>\<open>strstr\<close> of the C library: the first position the needle is found at.\<close>

definition strstr :: "u8 list \<Rightarrow> u8 list \<Rightarrow> nat option" where
  "strstr hay needle = List.find (\<lambda>q. take (length needle) (drop q hay) = needle) [0..<Suc (length hay)]"

text \<open>The bytes a C string pointer sees: up to the terminating NUL.\<close>

definition c_string :: "u8 list \<Rightarrow> u8 list" where "c_string s = takeWhile (\<lambda>c. c \<noteq> 0) s"

fun stop_find_loop :: "u8 list \<Rightarrow> nat \<Rightarrow> u8 list list \<Rightarrow> (nat \<times> nat) option \<Rightarrow> (nat \<times> nat) option" where
  "stop_find_loop hay from [] best = best"
| "stop_find_loop hay from (s # vs) best =
     (case strstr hay s of
        None \<Rightarrow> stop_find_loop hay from vs best
      | Some p \<Rightarrow>
          stop_find_loop hay from vs
            (if best = None \<or> from + p < fst (the best) then Some (from + p, length s) else best))"

definition stop_list_find_from :: "stop_list \<Rightarrow> u8 list option \<Rightarrow> nat \<Rightarrow> (nat \<times> nat) option" where
  "stop_list_find_from stops text from =
     (case text of
        None \<Rightarrow> None
      | Some t \<Rightarrow> if sl_v stops = [] then None else stop_find_loop (c_string (drop from t)) from (sl_v stops) None)"

definition stop_list_stream_safe_len :: "stop_list \<Rightarrow> nat \<Rightarrow> nat" where
  "stop_list_stream_safe_len stops text_len =
     (if sl_v stops = [] \<or> sl_max_len stops \<le> 1 then text_len
      else let hold = sl_max_len stops - 1 in if hold < text_len then text_len - hold else 0)"

section \<open>The plain stream\<close>

text \<open>
  The generation loop's share of a plain (not structured) stream: \<open>pl_text\<close> is \<open>text\<close>, \<open>pl_pos\<close> is
  \<open>plain_stream_pos\<close>, \<open>pl_scan\<close> is \<open>stop_scan_from\<close>, \<open>pl_sent\<close> the bytes of the deltas the client
  accepted, \<open>pl_done\<close> whether decoding was stopped and \<open>pl_failed\<close> whether a write failed.
  Each token is given with the outcome of the write it may cause.
\<close>

record plain_stream =
  pl_text :: "u8 list"
  pl_pos :: nat
  pl_scan :: nat
  pl_sent :: "u8 list"
  pl_done :: bool
  pl_failed :: bool

definition plain_stream_init :: plain_stream where
  "plain_stream_init =
     \<lparr>pl_text = [], pl_pos = 0, pl_scan = 0, pl_sent = [], pl_done = False, pl_failed = False\<rparr>"

definition plain_stream_token :: "stop_list \<Rightarrow> u8 list \<times> bool \<Rightarrow> plain_stream \<Rightarrow> plain_stream" where
  "plain_stream_token stops tok st =
     (if pl_done st then st
      else
        let t = pl_text st @ fst tok;
            hit = stop_list_find_from stops (Some t) (pl_scan st);
            len = (case hit of Some (p, _) \<Rightarrow> p | None \<Rightarrow> stop_list_stream_safe_len stops (length t));
            len = (if length t < len then length t else len);
            len = utf8_stream_safe_len (Some t) (pl_pos st) len (hit \<noteq> None);
            scan = (if hit = None \<and> 1 < sl_max_len stops
                    then let hold = sl_max_len stops - 1 in if hold < length t then length t - hold else 0
                    else pl_scan st);
            st = st\<lparr>pl_text := t, pl_scan := scan\<rparr>
        in if pl_pos st < len \<and> \<not> snd tok then st\<lparr>pl_done := True, pl_failed := True\<rparr>
           else
             let st = (if pl_pos st < len
                       then st\<lparr>pl_sent := pl_sent st @ c_string (take (len - pl_pos st) (drop (pl_pos st) t)), pl_pos := len\<rparr>
                       else st)
             in case hit of None \<Rightarrow> st | Some (p, _) \<Rightarrow> st\<lparr>pl_text := take p t, pl_done := True\<rparr>)"

text \<open>The tail sent once generation has ended.\<close>

definition plain_stream_flush :: "bool \<Rightarrow> plain_stream \<Rightarrow> plain_stream" where
  "plain_stream_flush ok st =
     (if pl_pos st < length (pl_text st)
      then if ok then st\<lparr>pl_sent := pl_sent st @ c_string (drop (pl_pos st) (pl_text st))\<rparr> else st\<lparr>pl_failed := True\<rparr>
      else st)"

definition plain_stream_run :: "stop_list \<Rightarrow> (u8 list \<times> bool) list \<Rightarrow> bool \<Rightarrow> plain_stream" where
  "plain_stream_run stops toks ok =
     plain_stream_flush ok (foldl (\<lambda>st tok. plain_stream_token stops tok st) plain_stream_init toks)"

section \<open>What the stream is meant to send\<close>

definition stop_occurs :: "u8 list list \<Rightarrow> u8 list \<Rightarrow> nat \<Rightarrow> bool" where
  "stop_occurs vs t q \<longleftrightarrow> (\<exists>s \<in> set vs. take (length s) (drop q t) = s)"

definition first_stop :: "u8 list list \<Rightarrow> u8 list \<Rightarrow> nat option" where
  "first_stop vs t = List.find (stop_occurs vs t) [0..<Suc (length t)]"

text \<open>Generation without a stream: append, search the whole text again, cut at the first stop.\<close>

fun stop_reference :: "u8 list list \<Rightarrow> u8 list \<Rightarrow> u8 list list \<Rightarrow> u8 list" where
  "stop_reference vs t [] = t"
| "stop_reference vs t (p # ps) =
     (case first_stop vs (t @ p) of
        Some q \<Rightarrow> take q (t @ p)
      | None \<Rightarrow> stop_reference vs (t @ p) ps)"

definition stop_list_ok :: "stop_list \<Rightarrow> bool" where
  "stop_list_ok stops \<longleftrightarrow>
     [] \<notin> set (sl_v stops) \<and> sl_max_len stops = foldr (\<lambda>s n. max (length s) n) (sl_v stops) 0"

section \<open>Searching\<close>

lemma strstr_Some:
  "strstr hay s = Some q \<longleftrightarrow>
    q \<le> length hay \<and> take (length s) (drop q hay) = s \<and> (\<forall>i < q. take (length s) (drop i hay) \<noteq> s)"
  unfolding strstr_def find_upt_Some less_Suc_eq_le ..

lemma strstr_None: "strstr hay s = None \<longleftrightarrow> (\<forall>i \<le> length hay. take (length s) (drop i hay) \<noteq> s)"
  unfolding strstr_def find_upt_None less_Suc_eq_le ..

lemma first_stop_Some:
  "first_stop vs t = Some q \<longleftrightarrow> q \<le> length t \<and> stop_occurs vs t q \<and> (\<forall>i < q. \<not> stop_occurs vs t i)"
  unfolding first_stop_def find_upt_Some less_Suc_eq_le ..

lemma first_stop_None: "first_stop vs t = None \<longleftrightarrow> (\<forall>i \<le> length t. \<not> stop_occurs vs t i)"
  unfolding first_stop_def find_upt_None less_Suc_eq_le ..

lemma stop_occurs_less: "[] \<notin> set vs \<Longrightarrow> stop_occurs vs t q \<Longrightarrow> q < length t"
  by (rule ccontr) (auto simp: stop_occurs_def)

text \<open>The loop keeps the earliest of the positions found.\<close>

lemma stop_find_loop_None:
  "stop_find_loop hay from vs best = None \<longleftrightarrow> best = None \<and> (\<forall>s \<in> set vs. strstr hay s = None)"
  by (induction vs arbitrary: best) (auto split: option.split)

lemma stop_find_loop_cases:
  "stop_find_loop hay from vs best = Some (p, l) \<Longrightarrow>
    best = Some (p, l) \<or> (\<exists>s \<in> set vs. \<exists>q. strstr hay s = Some q \<and> p = from + q)"
proof (induction vs arbitrary: best)
  case (Cons v vs)
  show ?case
  proof (cases "strstr hay v")
    case None
    then show ?thesis using Cons by auto
  next
    case (Some q)
    show ?thesis using Cons.IH Cons.prems Some by (auto split: if_splits)
  qed
qed simp

lemma stop_find_loop_best: "stop_find_loop hay from vs (Some b) = Some (p, l) \<Longrightarrow> p \<le> fst b"
proof (induction vs arbitrary: b)
  case (Cons v vs)
  show ?case
  proof (cases "strstr hay v")
    case None
    then show ?thesis using Cons by auto
  next
    case (Some q)
    then show ?thesis
      using Cons.IH [of b] Cons.IH [of "(from + q, length v)"] Cons.prems by (auto split: if_splits)
  qed
qed simp

lemma stop_find_loop_least:
  "stop_find_loop hay from vs best = Some (p, l) \<Longrightarrow> s \<in> set vs \<Longrightarrow> strstr hay s = Some q \<Longrightarrow> p \<le> from + q"
proof (induction vs arbitrary: best)
  case (Cons v vs)
  show ?case
  proof (cases "s = v")
    case True
    have "\<exists>b'. (if best = None \<or> from + q < fst (the best) then Some (from + q, length v) else best) = Some b' \<and>
        fst b' \<le> from + q" by (cases best) auto
    then obtain b' where b': "stop_find_loop hay from vs (Some b') = Some (p, l)" "fst b' \<le> from + q"
      using Cons.prems True by auto
    show ?thesis using stop_find_loop_best [OF b'(1)] b'(2) by simp
  next
    case False
    then show ?thesis using Cons by (cases "strstr hay v") auto
  qed
qed simp

lemma c_string_id: "0 \<notin> set s \<Longrightarrow> c_string s = s"
  by (auto simp: c_string_def takeWhile_eq_all_conv)

text \<open>Searching from a position before which nothing occurs finds what searching everything finds.\<close>

lemma stop_list_find_from_first:
  assumes "[] \<notin> set (sl_v stops)" and "0 \<notin> set t" and early: "\<And>q. q < from \<Longrightarrow> \<not> stop_occurs (sl_v stops) t q"
  shows "map_option fst (stop_list_find_from stops (Some t) from) = first_stop (sl_v stops) t"
proof (cases "stop_list_find_from stops (Some t) from")
  let ?hay = "drop from t"
  have hay: "c_string ?hay = ?hay" using assms(2) by (intro c_string_id) (auto dest: in_set_dropD)
  have found: "strstr ?hay s \<noteq> None" if "s \<in> set (sl_v stops)" "take (length s) (drop i t) = s" "from \<le> i" for s i
  proof
    assume "strstr ?hay s = None"
    then have "\<And>j. j \<le> length ?hay \<Longrightarrow> take (length s) (drop j ?hay) \<noteq> s"
      by (simp add: strstr_None)
    then have "take (length s) (drop (i - from) ?hay) \<noteq> s" if "i - from \<le> length ?hay" using that by blast
    moreover have "i < length t" using that assms(1) by (intro stop_occurs_less) (auto simp: stop_occurs_def)
    ultimately show False using that by (simp add: diff_le_mono)
  qed
  {
    case None
    have "\<not> stop_occurs (sl_v stops) t i" for i
    proof
      assume occ: "stop_occurs (sl_v stops) t i"
      then have "from \<le> i" using early not_le by blast
      then show False using occ None found [of _ i] hay
        by (auto simp: stop_occurs_def stop_list_find_from_def stop_find_loop_None split: if_splits)
    qed
    then have "first_stop (sl_v stops) t = None" by (simp add: first_stop_None)
    then show ?thesis using None by simp
  next
    case (Some b)
    obtain p l where b: "b = (p, l)" by fastforce
    have loop: "stop_find_loop ?hay from (sl_v stops) None = Some (p, l)"
      using Some b hay by (simp add: stop_list_find_from_def split: if_splits)
    obtain s q where s: "s \<in> set (sl_v stops)" "strstr ?hay s = Some q" "p = from + q"
      using stop_find_loop_cases [OF loop] by auto
    have occ: "stop_occurs (sl_v stops) t p" using s by (auto simp: stop_occurs_def strstr_Some add.commute)
    have "\<not> stop_occurs (sl_v stops) t i" if "i < p" for i
    proof
      assume "stop_occurs (sl_v stops) t i"
      then obtain s' where s': "s' \<in> set (sl_v stops)" "take (length s') (drop i t) = s'"
        by (auto simp: stop_occurs_def)
      have "from \<le> i" using s' early not_le by (auto simp: stop_occurs_def)
      then obtain q' where q': "strstr ?hay s' = Some q'" using found [OF s'] by blast
      have "q' \<le> i - from"
        using q' s'(2) \<open>from \<le> i\<close> by (auto simp: strstr_Some intro!: leI)
      then show False using stop_find_loop_least [OF loop s'(1) q'] that \<open>from \<le> i\<close> by simp
    qed
    then have "first_stop (sl_v stops) t = Some p"
      using occ stop_occurs_less [OF assms(1) occ] by (simp add: first_stop_Some)
    then show ?thesis using Some b by simp
  }
qed

section \<open>Streaming\<close>

lemma stop_max_len: "s \<in> set vs \<Longrightarrow> length s \<le> foldr (\<lambda>s n. max (length s) n) vs 0"
  by (induction vs) (auto simp: max_def)

lemma stop_list_safe_len:
  "stop_list_ok stops \<Longrightarrow> stop_list_stream_safe_len stops n = n - (sl_max_len stops - 1)"
  by (auto simp: stop_list_stream_safe_len_def stop_list_ok_def Let_def)

text \<open>What is appended can only complete a stop that starts in the part held back.\<close>

lemma stop_occurs_late:
  assumes "stop_list_ok stops" and "first_stop (sl_v stops) t = None" and "stop_occurs (sl_v stops) (t @ p) q"
  shows "length t - (sl_max_len stops - 1) \<le> q"
proof (rule ccontr)
  assume q: "\<not> ?thesis"
  obtain s where s: "s \<in> set (sl_v stops)" "take (length s) (drop q (t @ p)) = s"
    using assms(3) by (auto simp: stop_occurs_def)
  have "length s \<le> sl_max_len stops" using stop_max_len [OF s(1)] assms(1) by (simp add: stop_list_ok_def)
  then have "q + length s \<le> length t" using q by linarith
  then have "take (length s) (drop q t) = s" using s(2) by simp
  moreover have "q \<le> length t" using q by linarith
  ultimately show False using assms(2) s(1) by (auto simp: first_stop_None stop_occurs_def)
qed

text \<open>While decoding goes on: no stop in the text, and only what is before the held-back tail was sent.\<close>

definition plain_stream_ok :: "stop_list \<Rightarrow> plain_stream \<Rightarrow> bool" where
  "plain_stream_ok stops st \<longleftrightarrow>
     \<not> pl_done st \<and> \<not> pl_failed st \<and> 0 \<notin> set (pl_text st) \<and> first_stop (sl_v stops) (pl_text st) = None \<and>
     pl_sent st = take (pl_pos st) (pl_text st) \<and>
     pl_pos st \<le> length (pl_text st) - (sl_max_len stops - 1) \<and>
     pl_scan st \<le> length (pl_text st) - (sl_max_len stops - 1)"

lemma take_send:
  assumes "a \<le> b" and "a \<le> length t" and "0 \<notin> set (t @ p)"
  shows "take a t @ c_string (take (b - a) (drop a (t @ p))) = take b (t @ p)"
proof -
  have "c_string (take (b - a) (drop a (t @ p))) = take (b - a) (drop a (t @ p))"
    by (rule c_string_id) (use assms(3) set_take_subset [of "b - a" "drop a (t @ p)"] set_drop_subset [of a "t @ p"] in blast)
  moreover have "take a t @ take (b - a) (drop a (t @ p)) = take b (t @ p)"
    using assms(1,2) take_add [of a "b - a" "t @ p"] by simp
  ultimately show ?thesis by simp
qed

lemma plain_stream_token_found:
  assumes ok: "stop_list_ok stops" "plain_stream_ok stops st" and p: "0 \<notin> set p"
  shows "map_option fst (stop_list_find_from stops (Some (pl_text st @ p)) (pl_scan st)) =
    first_stop (sl_v stops) (pl_text st @ p)"
proof (rule stop_list_find_from_first)
  fix q assume "q < pl_scan st"
  then show "\<not> stop_occurs (sl_v stops) (pl_text st @ p) q"
    using stop_occurs_late [OF ok(1), of "pl_text st" p q] ok(2) by (auto simp: plain_stream_ok_def)
qed (use ok p in \<open>auto simp: stop_list_ok_def plain_stream_ok_def\<close>)

lemma plain_stream_token_next:
  assumes ok: "stop_list_ok stops" "plain_stream_ok stops st" and p: "0 \<notin> set p"
    and none: "first_stop (sl_v stops) (pl_text st @ p) = None"
  shows "plain_stream_ok stops (plain_stream_token stops (p, True) st)"
    and "pl_text (plain_stream_token stops (p, True) st) = pl_text st @ p"
proof -
  let ?t = "pl_text st @ p" and ?h = "sl_max_len stops - 1"
  have hit: "stop_list_find_from stops (Some ?t) (pl_scan st) = None"
    using plain_stream_token_found [OF ok p] none by simp
  define len where "len = utf8_stream_safe_len (Some ?t) (pl_pos st) (length ?t - ?h) False"
  have len: "len \<le> length ?t - ?h" unfolding len_def by (rule utf8_stream_safe_len_le)
  have pos: "pl_pos st \<le> length (pl_text st) - ?h" "pl_sent st = take (pl_pos st) (pl_text st)" "\<not> pl_done st"
    "\<not> pl_failed st" "pl_scan st \<le> length (pl_text st) - ?h" and zero: "0 \<notin> set ?t"
    using ok(2) p by (auto simp: plain_stream_ok_def)
  have scan: "(if 1 < sl_max_len stops then if ?h < length ?t then length ?t - ?h else 0 else pl_scan st) \<le> length ?t - ?h"
    using pos(5) by auto
  have step: "plain_stream_token stops (p, True) st =
      st\<lparr>pl_text := ?t, pl_scan := (if 1 < sl_max_len stops then if ?h < length ?t then length ?t - ?h else 0 else pl_scan st),
        pl_sent := take (max (pl_pos st) len) ?t, pl_pos := max (pl_pos st) len\<rparr>"
  proof (cases "pl_pos st < len")
    case True
    have "take (pl_pos st) (pl_text st) @ c_string (take (len - pl_pos st) (drop (pl_pos st) ?t)) = take len ?t"
      using True pos(1) zero by (intro take_send) auto
    then show ?thesis
      using True pos(2,3) hit len_def [symmetric]
      by (simp add: plain_stream_token_def stop_list_safe_len [OF ok(1)] Let_def max_def)
  next
    case False
    then have "take (pl_pos st) ?t = pl_sent st" using pos(1,2) by simp
    then show ?thesis
      using False pos(2,3) hit len_def [symmetric]
      by (simp add: plain_stream_token_def stop_list_safe_len [OF ok(1)] Let_def max_def)
  qed
  show "pl_text (plain_stream_token stops (p, True) st) = ?t" unfolding step by simp
  have "max (pl_pos st) len \<le> length ?t - ?h" using pos(1) len by simp
  then show "plain_stream_ok stops (plain_stream_token stops (p, True) st)"
    unfolding step plain_stream_ok_def using pos zero none scan by simp
qed

lemma plain_stream_token_hit:
  assumes ok: "stop_list_ok stops" "plain_stream_ok stops st" and p: "0 \<notin> set p"
    and some: "first_stop (sl_v stops) (pl_text st @ p) = Some q"
  shows "pl_done (plain_stream_token stops (p, True) st)"
    and "pl_text (plain_stream_token stops (p, True) st) = take q (pl_text st @ p)"
    and "pl_sent (plain_stream_token stops (p, True) st) = take q (pl_text st @ p)"
    and "pl_pos (plain_stream_token stops (p, True) st) = q"
proof -
  let ?t = "pl_text st @ p"
  obtain l where hit: "stop_list_find_from stops (Some ?t) (pl_scan st) = Some (q, l)"
    using plain_stream_token_found [OF ok p] some by (cases "stop_list_find_from stops (Some ?t) (pl_scan st)") auto
  have q: "q \<le> length ?t" "stop_occurs (sl_v stops) ?t q" using some by (simp_all add: first_stop_Some)
  have pos: "pl_pos st \<le> length (pl_text st) - (sl_max_len stops - 1)" "pl_sent st = take (pl_pos st) (pl_text st)"
    "\<not> pl_done st" and zero: "0 \<notin> set ?t"
    using ok(2) p by (auto simp: plain_stream_ok_def)
  have late: "pl_pos st \<le> q"
    using stop_occurs_late [OF ok(1) _ q(2)] ok(2) pos(1) by (auto simp: plain_stream_ok_def)
  have len: "utf8_stream_safe_len (Some ?t) (pl_pos st) q True = q" by (simp add: utf8_stream_safe_len_def)
  have "take (pl_pos st) (pl_text st) @ c_string (take (q - pl_pos st) (drop (pl_pos st) ?t)) = take q ?t"
    using late pos(1) zero by (intro take_send) auto
  then have "plain_stream_token stops (p, True) st =
      st\<lparr>pl_text := take q ?t, pl_scan := pl_scan st, pl_sent := take q ?t, pl_pos := q, pl_done := True\<rparr>"
    using late pos hit len q(1) by (auto simp: plain_stream_token_def Let_def)
  then show "pl_done (plain_stream_token stops (p, True) st)"
    "pl_text (plain_stream_token stops (p, True) st) = take q (pl_text st @ p)"
    "pl_sent (plain_stream_token stops (p, True) st) = take q (pl_text st @ p)"
    "pl_pos (plain_stream_token stops (p, True) st) = q" by simp_all
qed

lemma plain_stream_done: "pl_done st \<Longrightarrow> foldl (\<lambda>st tok. plain_stream_token stops tok st) st toks = st"
  by (induction toks) (simp_all add: plain_stream_token_def)

lemma plain_stream_tokens:
  assumes "stop_list_ok stops" and "plain_stream_ok stops st" and "list_all (\<lambda>p. 0 \<notin> set p) pieces"
  shows "let r = foldl (\<lambda>st tok. plain_stream_token stops tok st) st (map (\<lambda>p. (p, True)) pieces)
    in pl_text r = stop_reference (sl_v stops) (pl_text st) pieces \<and>
       pl_sent (plain_stream_flush True r) = stop_reference (sl_v stops) (pl_text st) pieces"
  using assms(2,3)
proof (induction pieces arbitrary: st)
  case Nil
  have "pl_sent st = take (pl_pos st) (pl_text st)" "0 \<notin> set (pl_text st)"
    using Nil by (auto simp: plain_stream_ok_def)
  moreover have "c_string (drop (pl_pos st) (pl_text st)) = drop (pl_pos st) (pl_text st)"
    using calculation(2) by (intro c_string_id) (auto dest: in_set_dropD)
  ultimately show ?case by (simp add: plain_stream_flush_def)
next
  case (Cons p pieces)
  then have p: "0 \<notin> set p" "list_all (\<lambda>p. 0 \<notin> set p) pieces" by simp_all
  show ?case
  proof (cases "first_stop (sl_v stops) (pl_text st @ p)")
    case None
    note step = plain_stream_token_next [OF assms(1) Cons.prems(1) p(1) None]
    show ?thesis using Cons.IH [OF step(1) p(2)] step(2) None by simp
  next
    case (Some q)
    note step = plain_stream_token_hit [OF assms(1) Cons.prems(1) p(1) Some]
    have "length (take q (pl_text st @ p)) \<le> q" by simp
    then show ?thesis using plain_stream_done [OF step(1)] step Some by (simp add: plain_stream_flush_def)
  qed
qed

lemma stop_list_ok_push: "stop_list_ok stops \<Longrightarrow> stop_list_ok (stop_list_push stops s)"
proof -
  have "foldr (\<lambda>s n. max (length s) n) (vs @ [s]) 0 = max (length s) (foldr (\<lambda>s n. max (length s) n) vs 0)" for vs
    by (induction vs) simp_all
  then show "stop_list_ok stops \<Longrightarrow> stop_list_ok (stop_list_push stops s)"
    by (auto simp: stop_list_ok_def stop_list_push_def)
qed

lemma parse_stop_loop_ok: "parse_stop_loop p out = Some (q, stops) \<Longrightarrow> stop_list_ok out \<Longrightarrow> stop_list_ok stops"
proof (induction p out rule: parse_stop_loop.induct)
  case (1 p out)
  show ?case
    using "1.prems" "1.IH" unfolding parse_stop_loop.simps [of p out]
    by (auto simp: stop_list_ok_push split: if_splits option.splits)
qed

lemma parse_stop_ok: "parse_stop p out = Some (q, stops) \<Longrightarrow> stop_list_ok stops"
proof -
  assume parse: "parse_stop p out = Some (q, stops)"
  have cleared: "stop_list_ok (stop_list_clear out)" by (simp add: stop_list_ok_def stop_list_clear_def)
  then show ?thesis
    using parse parse_stop_loop_ok [of _ "stop_list_clear out" q stops] stop_list_ok_push [OF cleared]
    by (auto simp: parse_stop_def Let_def split: if_splits option.splits)
qed



end
