(* ===== verification/Image_Exif.thy ===== *)
theory Image_Exif
  imports Ds4_Prelude "HOL-Library.Monad_Syntax"
begin

text \<open>
  The orientation of a photograph: \<open>ds4_jpeg_orientation\<close> of ds4_image.c walks over the segments of a JPEG
  file it does not trust. Every byte access is an explicit read that is \<open>None\<close> outside the file, so a
  result is also a proof that no read was out of bounds. Offsets are natural numbers: they never exceed the
  length of the file by more than a segment.
\<close>

definition rd :: "u8 list \<Rightarrow> nat \<Rightarrow> u8 option" where
  "rd data i = (if i < length data then Some (data ! i) else None)"

definition ds4_exif_u16 :: "u8 list \<Rightarrow> nat \<Rightarrow> bool \<Rightarrow> u16 option" where
  "ds4_exif_u16 data p little =
     do {
       a \<leftarrow> rd data p;
       b \<leftarrow> rd data (p + 1);
       Some (if little then ucast a OR push_bit 8 (ucast b) else push_bit 8 (ucast a) OR ucast b)
     }"

definition ds4_exif_u32 :: "u8 list \<Rightarrow> nat \<Rightarrow> bool \<Rightarrow> u32 option" where
  "ds4_exif_u32 data p little =
     do {
       a \<leftarrow> rd data p;
       b \<leftarrow> rd data (p + 1);
       c \<leftarrow> rd data (p + 2);
       d \<leftarrow> rd data (p + 3);
       Some (if little
             then ucast a OR push_bit 8 (ucast b) OR push_bit 16 (ucast c) OR push_bit 24 (ucast d)
             else push_bit 24 (ucast a) OR push_bit 16 (ucast b) OR push_bit 8 (ucast c) OR ucast d)
     }"

text \<open>\<open>break\<close> out of the segment loop, an orientation, or on to the next segment.\<close>

datatype exif_result = Exif_break | Exif_found nat | Exif_none

text \<open>The entry loop: \<open>n\<close> entries are left, the next one is at \<open>entry\<close>.\<close>

fun exif_entries :: "u8 list \<Rightarrow> bool \<Rightarrow> nat \<Rightarrow> nat \<Rightarrow> exif_result option" where
  "exif_entries data little entry 0 = Some Exif_none"
| "exif_entries data little entry (Suc n) =
     do {
       tag \<leftarrow> ds4_exif_u16 data entry little;
       match \<leftarrow> (if tag \<noteq> 0x0112 then Some False
                else do {
                  kind \<leftarrow> ds4_exif_u16 data (entry + 2) little;
                  if kind \<noteq> 3 then Some False
                  else do {
                    cnt \<leftarrow> ds4_exif_u32 data (entry + 4) little;
                    Some (cnt = 1)
                  }
                });
       if match then do {
         v \<leftarrow> ds4_exif_u16 data (entry + 8) little;
         Some (Exif_found (if 1 \<le> v \<and> v \<le> 8 then unat v else 1))
       } else exif_entries data little (entry + 12) n
     }"

text \<open>The directory at offset \<open>ifd\<close> of a TIFF block.\<close>

definition exif_ifd :: "u8 list \<Rightarrow> nat \<Rightarrow> nat \<Rightarrow> bool \<Rightarrow> nat \<Rightarrow> exif_result option" where
  "exif_ifd data tiff tiff_len little ifd =
     (if tiff_len < ifd \<or> tiff_len - ifd < 2 then Some Exif_break
      else do {
        count \<leftarrow> ds4_exif_u16 data (tiff + ifd) little;
        let entries = unat count * 12;
        if tiff_len - ifd - 2 < entries then Some Exif_break
        else exif_entries data little (tiff + ifd + 2) (unat count)
      })"

text \<open>The TIFF block at offset \<open>tiff\<close> of length \<open>tiff_len\<close>.\<close>

definition exif_tiff :: "u8 list \<Rightarrow> nat \<Rightarrow> nat \<Rightarrow> exif_result option" where
  "exif_tiff data tiff tiff_len =
     (if tiff_len < 8 then Some Exif_break
      else do {
        t0 \<leftarrow> rd data tiff;
        t1 \<leftarrow> rd data (tiff + 1);
        let little = (t0 = 0x49 \<and> t1 = 0x49);
        let big = (t0 = 0x4D \<and> t1 = 0x4D);
        magic \<leftarrow> (if \<not> little \<and> \<not> big then Some 0 else ds4_exif_u16 data (tiff + 2) little);
        if (\<not> little \<and> \<not> big) \<or> magic \<noteq> 42 then Some Exif_break
        else do {
          ifd \<leftarrow> ds4_exif_u32 data (tiff + 4) little;
          exif_ifd data tiff tiff_len little (unat ifd)
        }
      })"

definition exif_head :: "u8 list" where "exif_head = [0x45, 0x78, 0x69, 0x66, 0, 0]"

text \<open>\<open>memcmp(p, "Exif\\0\\0", 6) == 0\<close>; the bytes must be there.\<close>

definition is_exif :: "u8 list \<Rightarrow> nat \<Rightarrow> bool option" where
  "is_exif data p = (if p + 6 \<le> length data then Some (mslice p 6 data = exif_head) else None)"

text \<open>The EXIF part of a segment of \<open>segment\<close> bytes at \<open>pos\<close>.\<close>

definition jpeg_exif :: "u8 list \<Rightarrow> u8 \<Rightarrow> nat \<Rightarrow> nat \<Rightarrow> exif_result option" where
  "jpeg_exif data marker pos segment =
     (if marker = 0xE1 \<and> 14 \<le> segment
      then do {
        e \<leftarrow> is_exif data (pos + 2);
        if e then exif_tiff data (pos + 8) (segment - 8) else Some Exif_none
      }
      else Some Exif_none)"

text \<open>One turn of the segment loop at the marker in front of \<open>pos\<close>: \<open>Inl r\<close> ends with \<open>r\<close>, \<open>Inr p\<close> goes on at
  \<open>p\<close>.\<close>

definition jpeg_segment :: "u8 list \<Rightarrow> nat \<Rightarrow> (nat + nat) option" where
  "jpeg_segment data pos =
     do {
       marker \<leftarrow> rd data (pos + 1);
       let pos = pos + 2;
       if marker = 0xD8 \<or> 0xD0 \<le> marker \<and> marker \<le> 0xD9 then Some (Inr pos)
       else if length data < pos + 2 then Some (Inl 1)
       else do {
         s0 \<leftarrow> rd data pos;
         s1 \<leftarrow> rd data (pos + 1);
         let segment = unat s0 * 256 + unat s1;
         if segment < 2 \<or> length data - pos < segment then Some (Inl 1)
         else do {
           r \<leftarrow> jpeg_exif data marker pos segment;
           (case r of
              Exif_break \<Rightarrow> Some (Inl 1)
            | Exif_found v \<Rightarrow> Some (Inl v)
            | Exif_none \<Rightarrow> Some (if marker = 0xDA then Inl 1 else Inr (pos + segment)))
         }
       }
     }"

function jpeg_loop :: "u8 list \<Rightarrow> nat \<Rightarrow> nat option" where
  "jpeg_loop data pos =
     (if pos + 4 \<le> length data
      then case rd data pos of
             None \<Rightarrow> None
           | Some b \<Rightarrow>
               if b \<noteq> 0xFF then Some 1
               else (case jpeg_segment data pos of
                       None \<Rightarrow> None
                     | Some (Inl r) \<Rightarrow> Some r
                     | Some (Inr pos') \<Rightarrow> if pos < pos' then jpeg_loop data pos' else None)
      else Some 1)"
  by pat_completeness auto
termination by (relation "measure (\<lambda>(data, pos). length data - pos)") auto

declare jpeg_loop.simps [simp del]

definition ds4_jpeg_orientation :: "u8 list \<Rightarrow> nat option" where
  "ds4_jpeg_orientation data = jpeg_loop data 2"

section \<open>No read outside the file\<close>

lemma rd_ok: "i < length data \<Longrightarrow> rd data i = Some (data ! i)"
  by (simp add: rd_def)

lemma ds4_exif_u16_ok: "p + 2 \<le> length data \<Longrightarrow> \<exists>v. ds4_exif_u16 data p little = Some v"
  by (simp add: ds4_exif_u16_def rd_ok)

lemma ds4_exif_u32_ok: "p + 4 \<le> length data \<Longrightarrow> \<exists>v. ds4_exif_u32 data p little = Some v"
  by (simp add: ds4_exif_u32_def rd_ok)

text \<open>A finished scan of a TIFF block: no read failed, and a found orientation is one of the eight.\<close>

definition exif_ok :: "exif_result option \<Rightarrow> bool" where
  "exif_ok r = (case r of None \<Rightarrow> False | Some (Exif_found v) \<Rightarrow> 1 \<le> v \<and> v \<le> 8 | Some _ \<Rightarrow> True)"

lemma exif_ok_simps [simp]:
  "exif_ok (Some Exif_break)" "exif_ok (Some Exif_none)" "\<not> exif_ok None"
  "exif_ok (Some (Exif_found v)) \<longleftrightarrow> 1 \<le> v \<and> v \<le> 8"
  by (simp_all add: exif_ok_def)

lemma orientation_range: "1 \<le> (if 1 \<le> (v :: u16) \<and> v \<le> 8 then unat v else 1)"
  "(if 1 \<le> (v :: u16) \<and> v \<le> 8 then unat v else 1) \<le> 8"
  by (auto simp: word_le_nat_alt)

lemma exif_entries_ok: "e + n * 12 \<le> length data \<Longrightarrow> exif_ok (exif_entries data little e n)"
proof (induction n arbitrary: e)
  case 0
  then show ?case by simp
next
  case (Suc n)
  then have len: "e + 12 \<le> length data" and IH: "exif_ok (exif_entries data little (e + 12) n)" by auto
  obtain tag where tag: "ds4_exif_u16 data e little = Some tag" using ds4_exif_u16_ok [of e] len by fastforce
  obtain kind where kind: "ds4_exif_u16 data (e + 2) little = Some kind"
    using ds4_exif_u16_ok [of "e + 2"] len by fastforce
  obtain cnt where cnt: "ds4_exif_u32 data (e + 4) little = Some cnt"
    using ds4_exif_u32_ok [of "e + 4"] len by fastforce
  obtain v where v: "ds4_exif_u16 data (e + 8) little = Some v"
    using ds4_exif_u16_ok [of "e + 8"] len by fastforce
  show ?case using IH orientation_range [of v] by (simp add: tag kind cnt v del: add_2_eq_Suc')
qed

lemma exif_ifd_ok:
  assumes "tiff + n \<le> length data"
  shows "exif_ok (exif_ifd data tiff n little i)"
proof (cases "n < i \<or> n - i < 2")
  case True
  then show ?thesis by (auto simp: exif_ifd_def)
next
  case False
  obtain c where c: "ds4_exif_u16 data (tiff + i) little = Some c"
    using ds4_exif_u16_ok [of "tiff + i" data little] assms False by fastforce
  show ?thesis using exif_entries_ok [of "tiff + i + 2" "unat c" data little] assms False
    by (auto simp: exif_ifd_def c)
qed

lemma exif_tiff_ok:
  assumes "tiff + n \<le> length data"
  shows "exif_ok (exif_tiff data tiff n)"
proof (cases "n < 8")
  case True
  then show ?thesis by (simp add: exif_tiff_def)
next
  case False
  with assms have t: "rd data tiff = Some (data ! tiff)" "rd data (Suc tiff) = Some (data ! Suc tiff)"
    by (auto simp: rd_def)
  obtain ifd where ifd: "\<And>little. ds4_exif_u32 data (tiff + 4) little = Some (ifd little)"
    using ds4_exif_u32_ok [of "tiff + 4" data] assms False by atomize_elim (rule choice, auto)
  obtain m where m: "\<And>little. ds4_exif_u16 data (tiff + 2) little = Some (m little)"
    using ds4_exif_u16_ok [of "tiff + 2" data] assms False by atomize_elim (rule choice, auto)
  show ?thesis using False exif_ifd_ok [OF assms]
    by (simp add: exif_tiff_def t ifd m Let_def not_less del: add_2_eq_Suc')
qed

lemma jpeg_exif_ok: "pos + segment \<le> length data \<Longrightarrow> exif_ok (jpeg_exif data marker pos segment)"
  using exif_tiff_ok [of "pos + 8" "segment - 8" data] by (auto simp: jpeg_exif_def is_exif_def)

text \<open>What a turn of the loop promises its caller.\<close>

definition turn_ok :: "nat \<Rightarrow> (nat + nat) option \<Rightarrow> bool" where
  "turn_ok pos r = (case r of None \<Rightarrow> False | Some (Inl v) \<Rightarrow> 1 \<le> v \<and> v \<le> 8 | Some (Inr p) \<Rightarrow> pos < p)"

lemma turn_ok_simps [simp]:
  "turn_ok pos (Some (Inl v)) \<longleftrightarrow> 1 \<le> v \<and> v \<le> 8" "turn_ok pos (Some (Inr p)) \<longleftrightarrow> pos < p"
  by (simp_all add: turn_ok_def)

lemma turn_ok_bind:
  "exif_ok r \<Longrightarrow> turn_ok pos y \<Longrightarrow> turn_ok pos (r \<bind> case_exif_result (Some (Inl 1)) (\<lambda>v. Some (Inl v)) y)"
  by (auto simp: exif_ok_def split: option.splits exif_result.splits)

lemma jpeg_segment_ok:
  assumes "pos + 4 \<le> length data"
  shows "turn_ok pos (jpeg_segment data pos)"
proof -
  have r: "rd data (pos + 1) = Some (data ! (pos + 1))" "rd data (pos + 2) = Some (data ! (pos + 2))"
    "rd data (3 + pos) = Some (data ! (pos + 3))" using assms by (auto simp: rd_def add.commute)
  show ?thesis using assms
    by (auto simp: jpeg_segment_def r Let_def not_less intro!: turn_ok_bind jpeg_exif_ok
        simp del: add_2_eq_Suc' add_Suc_right One_nat_def)
qed

lemma jpeg_loop_ok: "\<exists>v. jpeg_loop data pos = Some v \<and> 1 \<le> v \<and> v \<le> 8"
proof (induction data pos rule: jpeg_loop.induct)
  case (1 data pos)
  show ?case
  proof (cases "pos + 4 \<le> length data \<and> data ! pos = 0xFF")
    case False
    then show ?thesis by (auto simp: jpeg_loop.simps [of data pos] rd_def)
  next
    case True
    then have len: "pos + 4 \<le> length data" and b: "rd data pos = Some 0xFF" by (auto simp: rd_def)
    show ?thesis
    proof (cases "jpeg_segment data pos")
      case None
      with jpeg_segment_ok [OF len] show ?thesis by (simp add: turn_ok_def)
    next
      case (Some r)
      with jpeg_segment_ok [OF len] 1 [OF len b] show ?thesis
        by (cases r) (auto simp: jpeg_loop.simps [of data pos] len b)
    qed
  qed
qed

text \<open>C19. Reading the orientation of a photograph is safe for every byte sequence: the scan ends, no access
  lies outside the file although segment lengths, directory offset and entry count come from the file, and the
  result is one of the eight orientations of EXIF.\<close>

theorem jpeg_orientation_safe: "\<exists>v. ds4_jpeg_orientation data = Some v \<and> 1 \<le> v \<and> v \<le> 8"
  using jpeg_loop_ok by (simp add: ds4_jpeg_orientation_def)

end
