(* ===== verification/Sha256_Digest.thy ===== *)
theory Sha256_Digest
  imports Sha1_Digest Kv_Codec
begin

text \<open>
  The SHA-256 routine of ds4_image.c and the image fingerprint made with it. The copy loop is the one of
  SHA-1 over another block routine; the padding is written into the block at once instead of byte by byte.
\<close>

section \<open>A buffered block routine\<close>

text \<open>The loop of \<open>ds4_sha256_update\<close> on chaining value, block and fill count.\<close>

function buffer_loop ::
  "('h \<Rightarrow> u8 list \<Rightarrow> 'h) \<Rightarrow> 'h \<Rightarrow> u8 list \<Rightarrow> nat \<Rightarrow> u8 list \<Rightarrow> 'h \<times> u8 list \<times> nat" where
  "buffer_loop f h block used p =
     (if p \<noteq> [] \<and> used < 64
      then let n = min (64 - used) (length p);
               block = blit block used (take n p);
               used = used + n
           in if used = 64 then buffer_loop f (f h block) block 0 (drop n p)
              else buffer_loop f h block used (drop n p)
      else (h, block, used))"
  by pat_completeness auto
termination by (relation "measure (\<lambda>(f, h, block, used, p). length p)") auto

declare buffer_loop.simps [simp del]

lemma buffer_step:
  "p \<noteq> [] \<Longrightarrow> used < 64 \<Longrightarrow> n = min (64 - used) (length p) \<Longrightarrow> b = blit block used (take n p) \<Longrightarrow>
     buffer_loop f h block used p =
       (if used + n = 64 then buffer_loop f (f h b) b 0 (drop n p) else buffer_loop f h b (used + n) (drop n p))"
  by (subst buffer_loop.simps) (simp add: Let_def)

lemma buffer_loop_spec:
  "length block = 64 \<Longrightarrow> used < 64 \<Longrightarrow> buffer_loop f h block used p = (h', block', used') \<Longrightarrow>
     length block' = 64 \<and> used' < 64 \<and> (h', take used' block') = absorb_bytes 64 f h (take used block) p"
proof (induction f h block used p rule: buffer_loop.induct)
  case (1 f h block used p)
  show ?case
  proof (cases "p = []")
    case True
    with "1.prems" show ?thesis by (simp add: buffer_loop.simps)
  next
    case False
    define n where "n = min (64 - used) (length p)"
    define b where "b = blit block used (take n p)"
    have n: "0 < n" "n \<le> length p" "used + n \<le> 64" using "1.prems" False by (auto simp: n_def)
    have lb: "length b = 64" using n "1.prems"(1) by (simp add: b_def)
    have tk: "take (used + n) b = take used block @ take n p"
      using take_blit_end [of used "take n p" block] n "1.prems"(1) by (simp add: b_def)
    show ?thesis
    proof (cases "used + n = 64")
      case True
      have "b = take used block @ take n p" using tk lb True by simp
      moreover have "absorb_bytes 64 f h (take used block) (take n p @ drop n p) =
          absorb_bytes 64 f (f h (take used block @ take n p)) [] (drop n p)"
        using True n "1.prems" False by (intro absorb_bytes_full) auto
      moreover have "buffer_loop f (f h b) b 0 (drop n p) = (h', block', used')"
        using "1.prems"(3) True buffer_step [OF False "1.prems"(2) n_def b_def, of f h] by simp
      ultimately show ?thesis
        using "1.IH"(1) [OF _ n_def b_def refl True lb] "1.prems"(2) False by simp
    next
      case part: False
      have "absorb_bytes 64 f h (take used block) (take n p) = (h, take used block @ take n p)"
        using part n "1.prems" by (intro absorb_bytes_part) auto
      then have "absorb_bytes 64 f h (take used block) (take n p @ drop n p) =
          absorb_bytes 64 f h (take (used + n) b) (drop n p)"
        by (subst absorb_bytes_append) (simp add: tk)
      moreover have "buffer_loop f h b (used + n) (drop n p) = (h', block', used')"
        using "1.prems"(3) part buffer_step [OF False "1.prems"(2) n_def b_def, of f h] by simp
      ultimately show ?thesis
        using "1.IH"(2) [OF _ n_def b_def refl part lb] "1.prems"(2) n False part by simp
    qed
  qed
qed

section \<open>The code\<close>

record ds4_sha256 =
  sh_state :: "u32 list"
  sh_bytes :: u64
  sh_block :: "u8 list"
  sh_used :: nat

definition ds4_sha256_k :: "u32 list" where
  "ds4_sha256_k =
     [0x428a2f98, 0x71374491, 0xb5c0fbcf, 0xe9b5dba5, 0x3956c25b, 0x59f111f1, 0x923f82a4, 0xab1c5ed5,
      0xd807aa98, 0x12835b01, 0x243185be, 0x550c7dc3, 0x72be5d74, 0x80deb1fe, 0x9bdc06a7, 0xc19bf174,
      0xe49b69c1, 0xefbe4786, 0x0fc19dc6, 0x240ca1cc, 0x2de92c6f, 0x4a7484aa, 0x5cb0a9dc, 0x76f988da,
      0x983e5152, 0xa831c66d, 0xb00327c8, 0xbf597fc7, 0xc6e00bf3, 0xd5a79147, 0x06ca6351, 0x14292967,
      0x27b70a85, 0x2e1b2138, 0x4d2c6dfc, 0x53380d13, 0x650a7354, 0x766a0abb, 0x81c2c92e, 0x92722c85,
      0xa2bfe8a1, 0xa81a664b, 0xc24b8b70, 0xc76c51a3, 0xd192e819, 0xd6990624, 0xf40e3585, 0x106aa070,
      0x19a4c116, 0x1e376c08, 0x2748774c, 0x34b0bcb5, 0x391c0cb3, 0x4ed8aa4a, 0x5b9cca4f, 0x682e6ff3,
      0x748f82ee, 0x78a5636f, 0x84c87814, 0x8cc70208, 0x90befffa, 0xa4506ceb, 0xbef9a3f7, 0xc67178f2]"

definition ds4_rotr32 :: "u32 \<Rightarrow> nat \<Rightarrow> u32" where
  "ds4_rotr32 v n = drop_bit n v OR push_bit (32 - n) v"

definition sha256_schedule :: "u8 list \<Rightarrow> u32 list" where
  "sha256_schedule block =
     fold (\<lambda>i w.
         let s0 = ds4_rotr32 (w ! (i - 15)) 7 XOR ds4_rotr32 (w ! (i - 15)) 18 XOR drop_bit 3 (w ! (i - 15));
             s1 = ds4_rotr32 (w ! (i - 2)) 17 XOR ds4_rotr32 (w ! (i - 2)) 19 XOR drop_bit 10 (w ! (i - 2))
         in w @ [w ! (i - 16) + s0 + w ! (i - 7) + s1])
       [16..<64] (map (sha1_be32 block) [0..<16])"

type_synonym sha256_vars = "u32 \<times> u32 \<times> u32 \<times> u32 \<times> u32 \<times> u32 \<times> u32 \<times> u32"

definition sha256_round :: "u32 list \<Rightarrow> nat \<Rightarrow> sha256_vars \<Rightarrow> sha256_vars" where
  "sha256_round w i = (\<lambda>(a, b, c, d, e, f, g, h).
     let s1 = ds4_rotr32 e 6 XOR ds4_rotr32 e 11 XOR ds4_rotr32 e 25;
         ch = (e AND f) XOR (NOT e AND g);
         t1 = h + s1 + ch + ds4_sha256_k ! i + w ! i;
         s0 = ds4_rotr32 a 2 XOR ds4_rotr32 a 13 XOR ds4_rotr32 a 22;
         maj = (a AND b) XOR (a AND c) XOR (b AND c);
         t2 = s0 + maj
     in (t1 + t2, a, b, c, d + t1, e, f, g))"

definition ds4_sha256_block :: "u32 list \<Rightarrow> u8 list \<Rightarrow> u32 list" where
  "ds4_sha256_block s block =
     (let w = sha256_schedule block;
          (a, b, c, d, e, f, g, h) = fold (sha256_round w) [0..<64]
            (s ! 0, s ! 1, s ! 2, s ! 3, s ! 4, s ! 5, s ! 6, s ! 7)
      in [s ! 0 + a, s ! 1 + b, s ! 2 + c, s ! 3 + d, s ! 4 + e, s ! 5 + f, s ! 6 + g, s ! 7 + h])"

text \<open>The block is not initialised in C; its bytes are read only after they were written.\<close>

definition ds4_sha256_init :: ds4_sha256 where
  "ds4_sha256_init =
     \<lparr>sh_state = [0x6a09e667, 0xbb67ae85, 0x3c6ef372, 0xa54ff53a, 0x510e527f, 0x9b05688c, 0x1f83d9ab, 0x5be0cd19],
      sh_bytes = 0, sh_block = replicate 64 0, sh_used = 0\<rparr>"

definition ds4_sha256_update :: "ds4_sha256 \<Rightarrow> u8 list \<Rightarrow> ds4_sha256" where
  "ds4_sha256_update sha p =
     (let (h, block, used) = buffer_loop ds4_sha256_block (sh_state sha) (sh_block sha) (sh_used sha) p
      in \<lparr>sh_state = h, sh_bytes = sh_bytes sha + of_nat (length p), sh_block = block, sh_used = used\<rparr>)"

definition ds4_sha256_final :: "ds4_sha256 \<Rightarrow> u8 list" where
  "ds4_sha256_final sha =
     (let bits = sh_bytes sha * 8;
          block = blit (sh_block sha) (sh_used sha) [0x80];
          used = sh_used sha + 1;
          (h, block, used) =
            (if 56 < used
             then let block = blit block used (replicate (64 - used) 0)
                  in (ds4_sha256_block (sh_state sha) block, block, 0)
             else (sh_state sha, block, used));
          block = blit block used (replicate (56 - used) 0);
          block = blit block 56 (be64_bytes bits);
          h = ds4_sha256_block h block
      in sha1_output h)"

definition ds4_image_fingerprint :: "u32 \<Rightarrow> u32 \<Rightarrow> u8 list \<Rightarrow> u8 list" where
  "ds4_image_fingerprint width height rgb =
     ds4_sha256_final (ds4_sha256_update (ds4_sha256_update (ds4_sha256_update ds4_sha256_init
       (le_put32 width)) (le_put32 height)) rgb)"

section \<open>The invariant, the reference and the interface\<close>

definition sha256_inv :: "ds4_sha256 \<Rightarrow> bool" where
  "sha256_inv c \<longleftrightarrow> length (sh_block c) = 64 \<and> sh_used c < 64"

definition sha256_view :: "ds4_sha256 \<Rightarrow> (u32 list \<times> u8 list) \<times> u64" where
  "sha256_view c = ((sh_state c, take (sh_used c) (sh_block c)), sh_bytes c)"

definition sha256_absorb ::
  "(u32 list \<times> u8 list) \<times> u64 \<Rightarrow> u8 list \<Rightarrow> (u32 list \<times> u8 list) \<times> u64" where
  "sha256_absorb v xs =
     (absorb_bytes 64 ds4_sha256_block (fst (fst v)) (snd (fst v)) xs, snd v + of_nat (length xs))"

lemma sha256_update_spec:
  assumes "sha256_inv c"
  shows "sha256_inv (ds4_sha256_update c p) \<and> sha256_view (ds4_sha256_update c p) = sha256_absorb (sha256_view c) p"
proof -
  obtain h b u where l: "buffer_loop ds4_sha256_block (sh_state c) (sh_block c) (sh_used c) p = (h, b, u)"
    by (metis prod_cases3)
  with buffer_loop_spec [OF _ _ l] assms show ?thesis
    by (simp add: sha256_inv_def sha256_view_def sha256_absorb_def ds4_sha256_update_def)
qed

lemma take_blit_rest: "off + length src = length dst \<Longrightarrow> blit dst off src = take off dst @ src"
  by (simp add: blit_def)

lemma sha256_final_absorb:
  assumes "sha256_inv c"
  shows "ds4_sha256_final c = sha1_output (fst (absorb_bytes 64 ds4_sha256_block (sh_state c)
      (take (sh_used c) (sh_block c))
      ([0x80] @ replicate ((119 - sh_used c) mod 64) 0 @ be64_bytes (sh_bytes c * 8))))"
proof -
  let ?f = ds4_sha256_block and ?t = "take (sh_used c) (sh_block c)" and ?u = "sh_used c"
  let ?len = "be64_bytes (sh_bytes c * 8)"
  have len: "length (sh_block c) = 64" and u: "?u < 64" using assms by (auto simp: sha256_inv_def)
  have l8: "length ?len = 8" by (simp add: be64_bytes_def)
  let ?b1 = "blit (sh_block c) ?u [0x80]"
  have b1: "length ?b1 = 64" "take (?u + 1) ?b1 = ?t @ [0x80]"
    using len u take_blit_end [of ?u "[0x80]" "sh_block c"] by simp_all
  show ?thesis
  proof (cases "?u \<le> 55")
    case True
    let ?z = "replicate (55 - ?u) 0 :: u8 list"
    let ?b2 = "blit ?b1 (?u + 1) ?z"
    have b2: "length ?b2 = 64" "take 56 ?b2 = ?t @ [0x80] @ ?z"
      using take_blit_end [of "?u + 1" ?z ?b1] b1 True by simp_all
    have b3: "blit ?b2 56 ?len = ?t @ [0x80] @ ?z @ ?len"
      using take_blit_rest [of 56 ?len ?b2] b2 l8 by simp
    have "(119 - ?u) mod 64 = 55 - ?u" using True by (simp add: le_mod_geq)
    moreover have "absorb_bytes 64 ?f (sh_state c) ?t (([0x80] @ ?z @ ?len) @ []) =
        absorb_bytes 64 ?f (?f (sh_state c) (?t @ [0x80] @ ?z @ ?len)) [] []"
      using True len l8 by (intro absorb_bytes_full) auto
    moreover have "ds4_sha256_final c = sha1_output (?f (sh_state c) (blit ?b2 56 ?len))"
      using True by (simp add: ds4_sha256_final_def Let_def)
    ultimately show ?thesis unfolding b3 by simp
  next
    case False
    let ?z = "replicate (63 - ?u) 0 :: u8 list" and ?o = "replicate 56 0 :: u8 list"
    let ?b2 = "blit ?b1 (?u + 1) ?z"
    have b2: "?b2 = ?t @ [0x80] @ ?z" "length ?b2 = 64"
      using take_blit_rest [of "?u + 1" ?z ?b1] b1 u len by simp_all
    let ?b3 = "blit ?b2 0 ?o"
    have b3: "length ?b3 = 64" "take 56 ?b3 = ?o" using take_blit_end [of 0 ?o ?b2] b2(2) by simp_all
    have b4: "blit ?b3 56 ?len = ?o @ ?len" using take_blit_rest [of 56 ?len ?b3] b3 l8 by simp
    have "(119 - ?u) mod 64 = (63 - ?u) + 56" using False u by simp
    then have z: "replicate ((119 - ?u) mod 64) 0 = ?z @ ?o" by (simp only: replicate_add)
    have "absorb_bytes 64 ?f (sh_state c) ?t (([0x80] @ ?z) @ ?o @ ?len) =
        absorb_bytes 64 ?f (?f (sh_state c) (?t @ [0x80] @ ?z)) [] (?o @ ?len)"
      using u len by (intro absorb_bytes_full) auto
    also have "\<dots> = absorb_bytes 64 ?f (?f (sh_state c) ?b2) [] ((?o @ ?len) @ [])"
      by (simp only: b2(1) append_Nil2)
    also have "\<dots> = absorb_bytes 64 ?f (?f (?f (sh_state c) ?b2) ([] @ ?o @ ?len)) [] []"
      using l8 by (intro absorb_bytes_full) auto
    finally have "absorb_bytes 64 ?f (sh_state c) ?t ([0x80] @ (?z @ ?o) @ ?len) =
        (?f (?f (sh_state c) ?b2) (?o @ ?len), [])" by simp
    moreover have "ds4_sha256_final c = sha1_output (?f (?f (sh_state c) ?b2) (blit ?b3 56 ?len))"
      using False by (simp add: ds4_sha256_final_def Let_def)
    ultimately show ?thesis unfolding b4 z by simp
  qed
qed

interpretation sha256: stream_digest ds4_sha256_init ds4_sha256_update ds4_sha256_final sha256_inv sha256_view sha256_absorb
proof unfold_locales
  show "sha256_inv ds4_sha256_init" by (simp add: sha256_inv_def ds4_sha256_init_def)
next
  fix v :: "(u32 list \<times> u8 list) \<times> u64" and xs ys :: "u8 list"
  show "sha256_absorb v (xs @ ys) = sha256_absorb (sha256_absorb v xs) ys"
    by (simp add: sha256_absorb_def absorb_bytes_append split: prod.split)
next
  fix s t assume st: "sha256_inv s" "sha256_inv t" "sha256_view s = sha256_view t"
  then have "sh_state s = sh_state t" "sh_bytes s = sh_bytes t"
      "take (sh_used s) (sh_block s) = take (sh_used t) (sh_block t)" by (simp_all add: sha256_view_def)
  moreover from this(3) have "sh_used s = sh_used t"
    using st(1,2) by (auto simp: sha256_inv_def) (metis length_take min.absorb4)
  ultimately show "ds4_sha256_final s = ds4_sha256_final t"
    using st(1,2) by (simp add: sha256_final_absorb)
qed (auto simp: sha256_update_spec)

definition sha256_reference :: "u8 list \<Rightarrow> u8 list" where
  "sha256_reference msg =
     sha1_output (foldl ds4_sha256_block (sh_state ds4_sha256_init) (chunks 64 (sha1_padded msg)))"

lemma sha256_final_update: "ds4_sha256_final (ds4_sha256_update ds4_sha256_init msg) = sha256_reference msg"
proof -
  let ?f = ds4_sha256_block and ?H = "sh_state ds4_sha256_init" and ?c = "ds4_sha256_update ds4_sha256_init msg"
  let ?z = "(119 - length msg mod 64) mod 64"
  have inv: "sha256_inv ?c" by (intro sha256.inv_upd sha256.inv_init)
  have view: "sha256_view ?c = sha256_absorb (sha256_view ds4_sha256_init) msg"
    by (rule sha256.view_upd [OF sha256.inv_init])
  obtain h t where ht: "absorb_bytes 64 ?f ?H [] msg = (h, t)" by fastforce
  have v: "sh_state ?c = h" "take (sh_used ?c) (sh_block ?c) = t" "sh_bytes ?c = of_nat (length msg)"
    using view ht by (simp_all add: sha256_view_def sha256_absorb_def ds4_sha256_init_def)
  have "length t = length msg mod 64" using absorb_bytes_length [OF _ ht] by simp
  then have used: "sh_used ?c = length msg mod 64" using v(2) inv by (auto simp: sha256_inv_def)
  have "ds4_sha256_final ?c = sha1_output (fst (absorb_bytes 64 ?f ?H [] (sha1_padded msg)))"
    unfolding sha256_final_absorb [OF inv] unfolding v unfolding used
    by (simp add: sha1_padded_def absorb_bytes_append [of _ _ _ _ msg] ht)
  moreover have "length (sha1_padded msg) mod 64 = 0"
    using pad_to_block [of "length msg"] by (simp add: sha1_padded_def be64_bytes_def algebra_simps)
  ultimately show ?thesis by (simp add: absorb_bytes_chunks sha256_reference_def)
qed

text \<open>The fingerprint of an image is the SHA-256 of its width, its height and its pixels: block by block over the
  padded message, although the code feeds three pieces through a buffer and pads inside it.\<close>

lemma image_fingerprint_reference:
  "ds4_image_fingerprint width height rgb = sha256_reference (le_put32 width @ le_put32 height @ rgb)"
proof -
  have "ds4_image_fingerprint width height rgb =
      ds4_sha256_final (foldl ds4_sha256_update ds4_sha256_init [le_put32 width, le_put32 height, rgb])"
    by (simp add: ds4_image_fingerprint_def)
  also have "\<dots> = ds4_sha256_final (ds4_sha256_update ds4_sha256_init (concat [le_put32 width, le_put32 height, rgb]))"
    by (rule sha256.fin_chunks [OF sha256.inv_init]) simp
  finally show ?thesis by (simp add: sha256_final_update)
qed

end
