(* ===== verification/Image_Orient.thy ===== *)
theory Image_Orient
  imports Sha256_Digest
begin

text \<open>
  The turned copy of a photograph (\<open>ds4_oriented_rgb\<close> of ds4_image.c): every decoded pixel is written to its
  place in the output. The rows are split into jobs which the system runs in any order (\<open>dispatch_apply_f\<close>),
  so the order is an argument of the model. Coordinates are natural numbers: both sides are at most 16384.
\<close>

section \<open>Writing pixels\<close>

text \<open>The 24-bit pixels of a buffer are its slots; a write replaces one of them.\<close>

definition slot :: "'a list \<Rightarrow> nat \<Rightarrow> 'a list" where "slot m k = mslice (k * 3) 3 m"

fun put_slots :: "'a list \<Rightarrow> (nat \<times> 'a list) list \<Rightarrow> 'a list" where
  "put_slots m [] = m"
| "put_slots m ((k, bs) # ws) = put_slots (blit m (k * 3) bs) ws"

definition slot_writes :: "nat \<Rightarrow> (nat \<times> 'a list) list \<Rightarrow> bool" where
  "slot_writes n ws \<longleftrightarrow> (\<forall>(k, bs) \<in> set ws. k < n \<and> length bs = 3)"

lemma slot_writes_Cons [simp]:
  "slot_writes n ((k, bs) # ws) \<longleftrightarrow> k < n \<and> length bs = 3 \<and> slot_writes n ws"
  by (simp add: slot_writes_def)

lemma slot_in_block: "k < n \<Longrightarrow> length m = n * 3 \<Longrightarrow> k * 3 + 3 \<le> length m"
  using mult_le_mono1 [of "Suc k" n 3] by simp

lemma slot_blit:
  assumes "j < n" "k < n" "length m = n * 3" "length bs = 3"
  shows "slot (blit m (j * 3) bs) k = (if k = j then bs else slot m k)"
proof -
  have "j * 3 + length bs \<le> length m" using assms slot_in_block [of j n m] by simp
  moreover have "k * 3 + 3 \<le> j * 3 \<or> j * 3 + 3 \<le> k * 3" if "k \<noteq> j" using that by arith
  ultimately show ?thesis using assms by (auto simp: slot_def block_simps)
qed

lemma put_slots_slot:
  "slot_writes n ws \<Longrightarrow> length m = n * 3 \<Longrightarrow> k < n \<Longrightarrow>
    slot (put_slots m ws) k = (case map_of (rev ws) k of None \<Rightarrow> slot m k | Some bs \<Rightarrow> bs)"
proof (induction m ws rule: put_slots.induct)
  case (1 m)
  then show ?case by simp
next
  case (2 m j bs ws)
  then have "length (blit m (j * 3) bs) = n * 3" using slot_in_block [of j n m] by simp
  with 2 show ?case by (auto simp: slot_blit [of j n] map_add_def split: option.splits)
qed

lemma put_slots_length: "slot_writes n ws \<Longrightarrow> length m = n * 3 \<Longrightarrow> length (put_slots m ws) = n * 3"
proof (induction m ws rule: put_slots.induct)
  case (2 m j bs ws)
  then show ?case using slot_in_block [of j n m] by simp
qed simp

lemma slots_eqI:
  assumes "length xs = n * 3" "length ys = n * 3" "\<And>k. k < n \<Longrightarrow> slot xs k = slot ys k"
  shows "xs = ys"
proof (rule nth_equalityI)
  fix i assume i: "i < length xs"
  then have k: "i div 3 < n" "i div 3 * 3 + i mod 3 = i" using assms(1) by (auto simp: less_mult_imp_div_less)
  have "slot xs (i div 3) ! (i mod 3) = slot ys (i div 3) ! (i mod 3)" using assms(3) k by simp
  then show "xs ! i = ys ! i" using i k assms(1,2) by (simp add: slot_def mslice_nth)
qed (use assms in simp)

lemma length_slots: "(\<And>k. k < n \<Longrightarrow> length (f k) = 3) \<Longrightarrow> length (concat (map f [0..<n])) = n * 3"
  by (induction n) auto

lemma slot_concat:
  "(\<And>k. k < n \<Longrightarrow> length (f k) = 3) \<Longrightarrow> k < n \<Longrightarrow> slot (concat (map f [0..<n])) k = f k"
proof (induction n)
  case (Suc n)
  have len: "length (concat (map f [0..<n])) = n * 3"
    using Suc.prems(1) by (intro length_slots) simp
  show ?case
  proof (cases "k < n")
    case True
    then have "k * 3 + 3 \<le> n * 3" by arith
    with True Suc len show ?thesis by (simp add: slot_def mslice_append_left)
  next
    case False
    with Suc.prems have "k = n" by simp
    with Suc.prems len show ?thesis by (simp add: slot_def mslice_def)
  qed
qed simp

text \<open>Writes to distinct slots that cover the block give the same block in any order.\<close>

lemma put_slots_all:
  assumes ws: "slot_writes n ws" and m: "length m = n * 3" and d: "distinct (map fst ws)"
    and f: "\<And>k. k < n \<Longrightarrow> (k, f k) \<in> set ws"
  shows "put_slots m ws = concat (map f [0..<n])"
proof -
  have len: "length (f k) = 3" if "k < n" for k using f [OF that] ws by (auto simp: slot_writes_def)
  show ?thesis
  proof (rule slots_eqI)
    show "length (put_slots m ws) = n * 3" using ws m by (rule put_slots_length)
    show "length (concat (map f [0..<n])) = n * 3" using len by (rule length_slots)
    fix k assume k: "k < n"
    have "map_of (rev ws) k = Some (f k)" using f [OF k] d by (intro map_of_is_SomeI) (auto simp: rev_map [symmetric])
    with ws m k len show "slot (put_slots m ws) k = slot (concat (map f [0..<n])) k"
      by (simp add: put_slots_slot slot_concat)
  qed
qed

section \<open>The orientations\<close>

text \<open>The \<open>switch\<close>: where the pixel \<open>(x, y)\<close> of a \<open>width\<close> by \<open>height\<close> picture goes.\<close>

definition oriented_target :: "nat \<Rightarrow> nat \<Rightarrow> nat \<Rightarrow> nat \<times> nat \<Rightarrow> nat \<times> nat" where
  "oriented_target orientation width height = (\<lambda>(x, y).
     if orientation = 2 then (width - 1 - x, y)
     else if orientation = 3 then (width - 1 - x, height - 1 - y)
     else if orientation = 4 then (x, height - 1 - y)
     else if orientation = 5 then (y, x)
     else if orientation = 6 then (height - 1 - y, x)
     else if orientation = 7 then (height - 1 - y, width - 1 - x)
     else if orientation = 8 then (y, width - 1 - x)
     else (x, y))"

record ds4_oriented_rows =
  or_pixels :: "u8 list"
  or_width :: nat
  or_height :: nat
  or_channels :: nat
  or_out_width :: nat
  or_orientation :: nat

definition oriented_pixel :: "ds4_oriented_rows \<Rightarrow> u8 list \<Rightarrow> nat \<times> nat \<Rightarrow> u8 list" where
  "oriented_pixel c rgb = (\<lambda>(x, y).
     let (ox, oy) = oriented_target (or_orientation c) (or_width c) (or_height c) (x, y);
         src = (y * or_width c + x) * or_channels c;
         dst = (oy * or_out_width c + ox) * 3
     in blit rgb dst (if or_channels c < 3 then replicate 3 (or_pixels c ! src)
                      else mslice src 3 (or_pixels c)))"

text \<open>The rows \<open>first \<le> y < end\<close>, as one job runs them.\<close>

definition ds4_oriented_rgb_rows :: "ds4_oriented_rows \<Rightarrow> nat \<Rightarrow> nat \<Rightarrow> u8 list \<Rightarrow> u8 list" where
  "ds4_oriented_rgb_rows c first end' rgb =
     foldl (\<lambda>rgb y. foldl (\<lambda>rgb x. oriented_pixel c rgb (x, y)) rgb [0..<or_width c]) rgb [first..<end']"

section \<open>Rows split into jobs\<close>

definition rows_chunks :: "nat \<Rightarrow> nat \<Rightarrow> nat" where
  "rows_chunks count min_chunk = min 64 ((count + min_chunk - 1) div min_chunk)"

definition rows_chunk :: "nat \<Rightarrow> nat \<Rightarrow> nat" where
  "rows_chunk count min_chunk =
     (let chunks = rows_chunks count min_chunk in (count + chunks - 1) div chunks)"

definition rows_jobs :: "nat \<Rightarrow> nat \<Rightarrow> nat" where
  "rows_jobs count min_chunk =
     (let chunk = rows_chunk count min_chunk in (count + chunk - 1) div chunk)"

definition ds4_image_rows_chunk :: "(nat \<Rightarrow> nat \<Rightarrow> 's \<Rightarrow> 's) \<Rightarrow> nat \<Rightarrow> nat \<Rightarrow> nat \<Rightarrow> 's \<Rightarrow> 's" where
  "ds4_image_rows_chunk fn count chunk index ctx =
     (let first = index * chunk;
          end' = first + chunk;
          end' = (if count < end' then count else end')
      in if first < end' then fn first end' ctx else ctx)"

text \<open>\<open>host_prep\<close>: Apple's dispatcher is used; \<open>order\<close> is the order in which it runs the jobs it was given.\<close>

definition ds4_image_rows ::
  "bool \<Rightarrow> (nat \<Rightarrow> nat list) \<Rightarrow> nat \<Rightarrow> nat \<Rightarrow> (nat \<Rightarrow> nat \<Rightarrow> 's \<Rightarrow> 's) \<Rightarrow> 's \<Rightarrow> 's" where
  "ds4_image_rows host_prep order count min_chunk fn ctx =
     (if count = 0 then ctx
      else if host_prep \<and> min_chunk < count
      then foldl (\<lambda>ctx i. ds4_image_rows_chunk fn count (rows_chunk count min_chunk) i ctx) ctx
             (order (rows_jobs count min_chunk))
      else fn 0 count ctx)"

record ds4_image =
  im_width :: nat
  im_height :: nat
  im_rgb :: "u8 list"
  im_fingerprint :: "u8 list"

text \<open>\<open>rgb\<close> is the fresh block for the copy.\<close>

definition ds4_oriented_rgb ::
  "bool \<Rightarrow> (nat \<Rightarrow> nat list) \<Rightarrow> u8 list \<Rightarrow> u8 list \<Rightarrow> nat \<Rightarrow> nat \<Rightarrow> nat \<Rightarrow> nat \<Rightarrow> ds4_image" where
  "ds4_oriented_rgb host_prep order rgb pixels width height channels orientation =
     (let out_width = (if 5 \<le> orientation then height else width);
          out_height = (if 5 \<le> orientation then width else height);
          c = \<lparr>or_pixels = pixels, or_width = width, or_height = height, or_channels = channels,
               or_out_width = out_width, or_orientation = orientation\<rparr>;
          rgb = ds4_image_rows host_prep order height 32 (ds4_oriented_rgb_rows c) rgb
      in \<lparr>im_width = out_width, im_height = out_height, im_rgb = rgb,
          im_fingerprint = ds4_image_fingerprint (of_nat out_width) (of_nat out_height) rgb\<rparr>)"

section \<open>The jobs cover the rows\<close>

lemma ceil_div_covers: "0 < (d :: nat) \<Longrightarrow> n \<le> (n + d - 1) div d * d"
proof -
  assume d: "0 < d"
  have "n + d - 1 < ((n + d - 1) div d + 1) * d"
    using d by (metis Suc_eq_plus1 add.commute dividend_less_times_div mult.commute mult_Suc_right)
  then show ?thesis by (simp add: add_mult_distrib)
qed

definition job_rows :: "nat \<Rightarrow> nat \<Rightarrow> nat \<Rightarrow> nat list" where
  "job_rows count chunk i = [i * chunk..<min count (i * chunk + chunk)]"

lemma job_rows_disjoint: "i \<noteq> j \<Longrightarrow> set (job_rows n c i) \<inter> set (job_rows n c j) = {}"
proof -
  assume "i \<noteq> j"
  then have "i * c + c \<le> j * c \<or> j * c + c \<le> i * c"
    using mult_le_mono1 [of "Suc i" j c] mult_le_mono1 [of "Suc j" i c] by (cases i j rule: linorder_cases) auto
  then show ?thesis by (auto simp: job_rows_def)
qed

lemma distinct_jobs: "distinct js \<Longrightarrow> distinct (concat (map (job_rows n c) js))"
proof (induction js)
  case (Cons j js)
  have "set (job_rows n c j) \<inter> set (job_rows n c i) = {}" if "i \<in> set js" for i
    using Cons.prems that by (intro job_rows_disjoint) auto
  moreover have "distinct (job_rows n c j)" by (simp add: job_rows_def)
  ultimately show ?case using Cons by auto
qed simp

lemma set_jobs:
  assumes c: "0 < c" and js: "set js = {0..<(n + c - 1) div c}"
  shows "set (concat (map (job_rows n c) js)) = {0..<n}"
proof -
  have "y \<in> set (job_rows n c (y div c)) \<and> y div c < (n + c - 1) div c" if "y < n" for y
  proof -
    have "y < (n + c - 1) div c * c" using ceil_div_covers [OF c, of n] that by simp
    moreover have "y < y div c * c + c" using c by (metis add.commute dividend_less_div_times)
    ultimately show ?thesis using that by (simp add: job_rows_def less_mult_imp_div_less)
  qed
  moreover have "set (job_rows n c i) \<subseteq> {0..<n}" for i by (auto simp: job_rows_def)
  ultimately show ?thesis using js by fastforce
qed

lemma rows_chunk_pos: "0 < count \<Longrightarrow> 0 < m \<Longrightarrow> 0 < rows_chunk count m"
proof -
  assume n: "0 < count" "0 < m"
  then have "0 < rows_chunks count m" by (auto simp: rows_chunks_def div_greater_zero_iff)
  then have "count \<le> rows_chunk count m * rows_chunks count m"
    using ceil_div_covers by (simp add: rows_chunk_def Let_def)
  with n show ?thesis by (cases "rows_chunk count m = 0") auto
qed

text \<open>A row function that handles its rows one by one, run on the whole range or in jobs of any order.\<close>

lemma image_rows_foldl:
  assumes fn: "\<And>a b s. fn a b s = foldl g s [a..<b]"
    and ord: "\<And>n. distinct (order n) \<and> set (order n) = {0..<n}" and m: "0 < m"
  shows "\<exists>rows. distinct rows \<and> set rows = {0..<n} \<and> ds4_image_rows hp order n m fn s = foldl g s rows"
proof (cases "0 < n \<and> hp \<and> m < n")
  case False
  then show ?thesis by (intro exI [of _ "[0..<n]"]) (auto simp: ds4_image_rows_def fn)
next
  case True
  let ?c = "rows_chunk n m" and ?js = "order (rows_jobs n m)"
  have c: "0 < ?c" using True m by (intro rows_chunk_pos) auto
  have "ds4_image_rows_chunk fn n ?c i s = foldl g s (job_rows n ?c i)" for i s
    by (auto simp: ds4_image_rows_chunk_def Let_def fn job_rows_def min_def)
  then have "foldl (\<lambda>s i. ds4_image_rows_chunk fn n ?c i s) s js = foldl g s (concat (map (job_rows n ?c) js))" for js
    by (induction js arbitrary: s) (simp_all add: fn)
  moreover have "set (concat (map (job_rows n ?c) ?js)) = {0..<n}"
    using ord c by (intro set_jobs) (auto simp: rows_jobs_def Let_def)
  ultimately show ?thesis using True ord
    by (intro exI [of _ "concat (map (job_rows n ?c) ?js)"]) (simp add: ds4_image_rows_def distinct_jobs del: set_concat)
qed

section \<open>Every pixel reaches its place\<close>

text \<open>Turning back: the orientations are their own inverses, but for the two quarter turns.\<close>

definition orientation_inverse :: "nat \<Rightarrow> nat" where
  "orientation_inverse o' = (if o' = 6 then 8 else if o' = 8 then 6 else o')"

definition rectangle :: "nat \<Rightarrow> nat \<Rightarrow> (nat \<times> nat) set" where
  "rectangle w h = {(x, y). x < w \<and> y < h}"

lemma oriented_target_in:
  "p \<in> rectangle w h \<Longrightarrow> o' \<le> 8 \<Longrightarrow>
    oriented_target o' w h p \<in> (if 5 \<le> o' then rectangle h w else rectangle w h)"
  by (cases p) (auto simp: oriented_target_def rectangle_def)

lemma oriented_target_inverse:
  assumes "p \<in> rectangle w h" and "o' \<le> 8"
  shows "oriented_target (orientation_inverse o') (if 5 \<le> o' then h else w) (if 5 \<le> o' then w else h)
    (oriented_target o' w h p) = p"
proof -
  have "o' \<in> {0, 1, 2, 3, 4, 5, 6, 7, 8}" using assms(2) by auto
  then show ?thesis using assms(1)
    by (cases p) (auto simp: oriented_target_def orientation_inverse_def rectangle_def)
qed

lemma oriented_target_inverse':
  assumes "q \<in> (if 5 \<le> o' then rectangle h w else rectangle w h)" and "o' \<le> 8"
  shows "oriented_target o' w h (oriented_target (orientation_inverse o') (if 5 \<le> o' then h else w)
    (if 5 \<le> o' then w else h) q) = q"
    and "oriented_target (orientation_inverse o') (if 5 \<le> o' then h else w) (if 5 \<le> o' then w else h) q
      \<in> rectangle w h"
proof -
  have "o' \<in> {0, 1, 2, 3, 4, 5, 6, 7, 8}" using assms(2) by auto
  then show "oriented_target o' w h (oriented_target (orientation_inverse o') (if 5 \<le> o' then h else w)
      (if 5 \<le> o' then w else h) q) = q"
    "oriented_target (orientation_inverse o') (if 5 \<le> o' then h else w) (if 5 \<le> o' then w else h) q
      \<in> rectangle w h"
    using assms(1) by (cases q; auto simp: oriented_target_def orientation_inverse_def rectangle_def)+
qed

definition pixel_index :: "ds4_oriented_rows \<Rightarrow> nat \<times> nat \<Rightarrow> nat" where
  "pixel_index c p = (case oriented_target (or_orientation c) (or_width c) (or_height c) p of
     (ox, oy) \<Rightarrow> oy * or_out_width c + ox)"

text \<open>The colour of the source pixel \<open>(x, y)\<close>; one or two channels are grey.\<close>

definition pixel_rgb :: "u8 list \<Rightarrow> nat \<Rightarrow> nat \<Rightarrow> nat \<times> nat \<Rightarrow> u8 list" where
  "pixel_rgb pixels channels width = (\<lambda>(x, y).
     let src = (y * width + x) * channels
     in if channels < 3 then replicate 3 (pixels ! src) else [pixels ! src, pixels ! (src + 1), pixels ! (src + 2)])"

definition pixel_write :: "ds4_oriented_rows \<Rightarrow> nat \<times> nat \<Rightarrow> nat \<times> u8 list" where
  "pixel_write c p = (pixel_index c p, pixel_rgb (or_pixels c) (or_channels c) (or_width c) p)"

lemma put_slots_append: "put_slots m (a @ b) = put_slots (put_slots m a) b"
  by (induction m a rule: put_slots.induct) auto

lemma mslice_3: "i + 3 \<le> length xs \<Longrightarrow> mslice i 3 xs = [xs ! i, xs ! (i + 1), xs ! (i + 2)]"
  by (rule nth_equalityI) (auto simp: mslice_nth less_Suc_eq numeral_eq_Suc)

lemma source_in:
  assumes "x < w" "y < h"
  shows "(y * w + x) * ch + ch \<le> w * h * (ch :: nat)"
proof -
  have "y * w + x + 1 \<le> w * h" using assms mult_le_mono1 [of "Suc y" h w] by (simp add: mult.commute)
  from mult_le_mono1 [OF this, of ch] show ?thesis by (simp add: add_mult_distrib)
qed

lemma oriented_pixel_put:
  assumes "(x, y) \<in> rectangle (or_width c) (or_height c)"
    and "length (or_pixels c) = or_width c * or_height c * or_channels c"
  shows "oriented_pixel c rgb (x, y) = put_slots rgb [pixel_write c (x, y)]"
  using assms source_in [of x "or_width c" y "or_height c" "or_channels c"]
  by (auto simp: oriented_pixel_def pixel_write_def pixel_index_def pixel_rgb_def Let_def rectangle_def mslice_3
      split: prod.splits)

definition row_pixels :: "nat \<Rightarrow> nat list \<Rightarrow> (nat \<times> nat) list" where
  "row_pixels w rows = concat (map (\<lambda>y. map (\<lambda>x. (x, y)) [0..<w]) rows)"

lemma row_pixels_product: "row_pixels w rows = map prod.swap (List.product rows [0..<w])"
  by (simp add: row_pixels_def product_concat_map map_concat comp_def)

lemma distinct_row_pixels: "distinct rows \<Longrightarrow> distinct (row_pixels w rows)"
  by (simp add: row_pixels_product distinct_map distinct_product)

lemma set_row_pixels: "set rows = {0..<h} \<Longrightarrow> set (row_pixels w rows) = rectangle w h"
  by (auto simp: row_pixels_def rectangle_def)

lemma rows_put:
  assumes len: "length (or_pixels c) = or_width c * or_height c * or_channels c"
    and rows: "set rows \<subseteq> {0..<or_height c}"
  shows "foldl (\<lambda>rgb y. foldl (\<lambda>rgb x. oriented_pixel c rgb (x, y)) rgb [0..<or_width c]) rgb rows =
    put_slots rgb (map (pixel_write c) (row_pixels (or_width c) rows))"
  using rows
proof (induction rows arbitrary: rgb)
  case (Cons y rows)
  have "foldl (\<lambda>rgb x. oriented_pixel c rgb (x, y)) rgb xs = put_slots rgb (map (\<lambda>x. pixel_write c (x, y)) xs)"
    if "set xs \<subseteq> {0..<or_width c}" for xs
    using that
  proof (induction xs arbitrary: rgb)
    case (Cons x xs)
    then show ?case using Cons.prems \<open>set (y # rows) \<subseteq> {0..<or_height c}\<close>
      by (simp add: oriented_pixel_put [OF _ len] rectangle_def pixel_write_def)
  qed simp
  with Cons show ?case by (simp add: row_pixels_def put_slots_append comp_def)
qed (simp add: row_pixels_def)

lemma index_inj:
  assumes "a < w" "a' < w" "b * w + a = b' * w + (a' :: nat)"
  shows "a = a' \<and> b = b'"
proof -
  have "(b * w + a) mod w = (b' * w + a') mod w" "(b * w + a) div w = (b' * w + a') div w" using assms by simp_all
  then show ?thesis using assms(1,2) by simp
qed

lemma pixel_index_rectangle:
  assumes o': "or_orientation c \<le> 8"
    and ow: "or_out_width c = (if 5 \<le> or_orientation c then or_height c else or_width c)"
  shows "inj_on (pixel_index c) (rectangle (or_width c) (or_height c))"
    and "p \<in> rectangle (or_width c) (or_height c) \<Longrightarrow> pixel_index c p < or_width c * or_height c"
proof -
  let ?w = "or_width c" and ?h = "or_height c" and ?t = "oriented_target (or_orientation c) (or_width c) (or_height c)"
  have t: "fst (?t p) < or_out_width c \<and> snd (?t p) < (if 5 \<le> or_orientation c then ?w else ?h)"
    if "p \<in> rectangle ?w ?h" for p
    using oriented_target_in [OF that o'] ow by (auto simp: rectangle_def split: if_splits)
  have ix: "pixel_index c p = snd (?t p) * or_out_width c + fst (?t p)" for p
    by (simp add: pixel_index_def split: prod.splits)
  show "inj_on (pixel_index c) (rectangle ?w ?h)"
  proof (rule inj_onI)
    fix p q assume p: "p \<in> rectangle ?w ?h" and q: "q \<in> rectangle ?w ?h" and e: "pixel_index c p = pixel_index c q"
    have "?t p = ?t q" using index_inj [of "fst (?t p)" "or_out_width c" "fst (?t q)"] t [OF p] t [OF q] e
      by (auto simp: ix prod_eq_iff)
    then show "p = q" using oriented_target_inverse [OF p o'] oriented_target_inverse [OF q o'] by metis
  qed
  assume p: "p \<in> rectangle ?w ?h"
  have "snd (?t p) * or_out_width c + fst (?t p) + 1 \<le> or_out_width c * (if 5 \<le> or_orientation c then ?w else ?h)"
    using t [OF p] source_in [of "fst (?t p)" "or_out_width c" "snd (?t p)" _ 1] by simp
  then show "pixel_index c p < ?w * ?h" unfolding ix using ow by (simp add: mult.commute split: if_splits)
qed

text \<open>The picture as it should be: the output pixel \<open>k\<close> is the source pixel the inverse turn leads to.\<close>

definition oriented_reference :: "u8 list \<Rightarrow> nat \<Rightarrow> nat \<Rightarrow> nat \<Rightarrow> nat \<Rightarrow> u8 list" where
  "oriented_reference pixels width height channels orientation =
     (let ow = (if 5 \<le> orientation then height else width);
          oh = (if 5 \<le> orientation then width else height)
      in concat (map (\<lambda>k. pixel_rgb pixels channels width
           (oriented_target (orientation_inverse orientation) ow oh (k mod ow, k div ow))) [0..<width * height]))"

lemma put_pixels:
  assumes len: "length (or_pixels c) = or_width c * or_height c * or_channels c"
    and rgb: "length rgb = or_width c * or_height c * 3" and o': "or_orientation c \<le> 8"
    and ow: "or_out_width c = (if 5 \<le> or_orientation c then or_height c else or_width c)"
    and rows: "distinct rows" "set rows = {0..<or_height c}"
  shows "put_slots rgb (map (pixel_write c) (row_pixels (or_width c) rows)) =
    oriented_reference (or_pixels c) (or_width c) (or_height c) (or_channels c) (or_orientation c)"
proof -
  let ?w = "or_width c" and ?h = "or_height c" and ?o = "or_orientation c" and ?ow = "or_out_width c"
  let ?oh = "if 5 \<le> ?o then ?w else ?h"
  let ?src = "\<lambda>k. oriented_target (orientation_inverse ?o) ?ow ?oh (k mod ?ow, k div ?ow)"
  have set: "set (row_pixels ?w rows) = rectangle ?w ?h" using rows by (simp add: set_row_pixels)
  have src: "?src k \<in> rectangle ?w ?h \<and> pixel_index c (?src k) = k" if k: "k < ?w * ?h" for k
  proof -
    have n: "k < ?oh * ?ow" using k ow by (auto simp: mult.commute)
    then have "0 < ?ow" by (cases "?ow = 0") auto
    then have "(k mod ?ow, k div ?ow) \<in> (if 5 \<le> ?o then rectangle ?h ?w else rectangle ?w ?h)"
      using n ow by (auto simp: rectangle_def less_mult_imp_div_less split: if_splits)
    from oriented_target_inverse' [OF this o'] show ?thesis using ow by (simp add: pixel_index_def)
  qed
  have "put_slots rgb (map (pixel_write c) (row_pixels ?w rows)) =
      concat (map (\<lambda>k. pixel_rgb (or_pixels c) (or_channels c) ?w (?src k)) [0..<?w * ?h])"
  proof (rule put_slots_all [OF _ rgb])
    show "slot_writes (?w * ?h) (map (pixel_write c) (row_pixels ?w rows))"
      using pixel_index_rectangle(2) [OF o' ow]
      by (auto simp: slot_writes_def set pixel_write_def pixel_rgb_def Let_def)
    show "distinct (map fst (map (pixel_write c) (row_pixels ?w rows)))"
      using pixel_index_rectangle(1) [OF o' ow] rows
      by (simp add: distinct_map distinct_row_pixels set pixel_write_def comp_def)
    fix k assume "k < ?w * ?h"
    from src [OF this] show "(k, pixel_rgb (or_pixels c) (or_channels c) ?w (?src k)) \<in>
        set (map (pixel_write c) (row_pixels ?w rows))"
      by (auto simp: set pixel_write_def intro!: image_eqI [where x = "?src k"])
  qed
  then show ?thesis using ow by (simp add: oriented_reference_def Let_def)
qed

lemma oriented_rgb_rows_put:
  assumes c: "length (or_pixels c) = or_width c * or_height c * or_channels c" "or_orientation c \<le> 8"
      "or_out_width c = (if 5 \<le> or_orientation c then or_height c else or_width c)"
    and rgb: "length rgb = or_width c * or_height c * 3"
    and order: "\<And>n. distinct (order n) \<and> set (order n) = {0..<n}"
  shows "ds4_image_rows hp order (or_height c) 32 (ds4_oriented_rgb_rows c) rgb =
    oriented_reference (or_pixels c) (or_width c) (or_height c) (or_channels c) (or_orientation c)"
proof -
  let ?g = "\<lambda>rgb y. foldl (\<lambda>rgb x. oriented_pixel c rgb (x, y)) rgb [0..<or_width c]"
  have "\<exists>rows. distinct rows \<and> set rows = {0..<or_height c} \<and>
      ds4_image_rows hp order (or_height c) 32 (ds4_oriented_rgb_rows c) rgb = foldl ?g rgb rows"
    by (rule image_rows_foldl) (use order in \<open>auto simp: ds4_oriented_rgb_rows_def\<close>)
  then obtain rows where "distinct rows" "set rows = {0..<or_height c}"
    "ds4_image_rows hp order (or_height c) 32 (ds4_oriented_rgb_rows c) rgb = foldl ?g rgb rows" by blast
  then show ?thesis using c rgb rows_put [of c rows rgb] by (simp add: put_pixels)
qed

text \<open>The picture the turn should make.\<close>

definition oriented_image :: "u8 list \<Rightarrow> nat \<Rightarrow> nat \<Rightarrow> nat \<Rightarrow> nat \<Rightarrow> ds4_image" where
  "oriented_image pixels width height channels orientation =
     (let w = (if 5 \<le> orientation then height else width);
          h = (if 5 \<le> orientation then width else height);
          rgb = oriented_reference pixels width height channels orientation
      in \<lparr>im_width = w, im_height = h, im_rgb = rgb,
          im_fingerprint = sha256_reference (le_put32 (of_nat w) @ le_put32 (of_nat h) @ rgb)\<rparr>)"



end
