(* ===== verification/Image_Spans.thy ===== *)
theory Image_Spans
  imports Ds4_Prelude
begin

text \<open>
  Image blocks in the token stream (ds4_image.c): the layout of a picture as tokens above the vocabulary, the
  scanner that finds the blocks again, and its two clients, the prefill chunk that must not cut a block and the
  attention bounds inside it. A prompt is the list of its C \<open>int\<close> tokens; \<open>(int)vocab_size + k\<close> does not
  overflow for the vocabularies of the program. Grid sides are machine words; positions are natural numbers,
  all of them at most the length of the prompt.
\<close>

section \<open>Layouts\<close>

datatype image_token = IMAGE_START | IMAGE_PAD | IMAGE | IMAGE_NEWLINE | IMAGE_END

fun image_code :: "image_token \<Rightarrow> nat" where
  "image_code IMAGE_START = 0" | "image_code IMAGE_PAD = 1" | "image_code IMAGE = 2"
| "image_code IMAGE_NEWLINE = 3" | "image_code IMAGE_END = 4"

record image_layout =
  il_types :: "image_token list"
  il_perm :: "nat list"

text \<open>The two fields \<open>token_count\<close> and \<open>image_count\<close> are the lengths of the arrays.\<close>

text \<open>DeepSeek V4.1: rows of the grid, each with a newline, between the two sentinels.\<close>

definition ds4_deepseek41_image_layout_build :: "u32 \<Rightarrow> u32 \<Rightarrow> image_layout option" where
  "ds4_deepseek41_image_layout_build height width =
     (let count = unat height * (unat width + 1) + 2
      in if height = 0 \<or> width = 0 \<or> 1024 < count then None
         else Some \<lparr>il_types = IMAGE_START #
                      concat (map (\<lambda>row. replicate (unat width) IMAGE @ [IMAGE_NEWLINE]) [0..<unat height]) @
                      [IMAGE_END],
                    il_perm = [0..<unat height * unat width]\<rparr>)"

text \<open>DeepSeek V4: the cell of the padded body at a row and a column: its token and its image row, if any.\<close>

definition body_cell :: "nat \<Rightarrow> nat \<Rightarrow> nat \<Rightarrow> nat \<Rightarrow> image_token \<times> nat option" where
  "body_cell grid_height grid_width row column =
     (if row < grid_height \<and> column < grid_width then (IMAGE, Some (row * grid_width + column))
      else (if row < grid_height then IMAGE_NEWLINE else IMAGE_PAD, None))"

definition layout_body :: "nat \<Rightarrow> nat \<Rightarrow> nat \<Rightarrow> nat \<Rightarrow> (image_token \<times> nat option) list" where
  "layout_body grid_height grid_width rows row_length =
     concat (map (\<lambda>row. map (body_cell grid_height grid_width row) [0..<row_length]) [0..<rows])"

text \<open>The order in which the body is read: pairs of rows, column by column.\<close>

definition layout_order :: "nat \<Rightarrow> nat \<Rightarrow> nat list" where
  "layout_order rows row_length =
     concat (map (\<lambda>pair. concat (map (\<lambda>column. map (\<lambda>row_in_pair. (pair * 2 + row_in_pair) * row_length + column)
       [0..<2]) [0..<row_length])) [0..<rows div 2])"

definition ds4_deepseek4_image_layout_build :: "u32 \<Rightarrow> u32 \<Rightarrow> u32 \<Rightarrow> image_layout option" where
  "ds4_deepseek4_image_layout_build grid_height grid_width start_pos =
     (if grid_height = 0 \<or> grid_width = 0 then None
      else
        let pad_height = grid_height AND 1;
            rows = grid_height + pad_height;
            row_length = grid_width + 1;
            compress_pad = unat (3 - start_pos mod 4);
            pad_last = unat ((((rows div 2) * row_length) AND 1) * 2);
            body_count = unat rows * unat row_length;
            token_count = compress_pad + 1 + body_count + pad_last + 1;
            image_count = unat grid_height * unat grid_width
        in if 384 < token_count \<or> 2 ^ 32 \<le> token_count \<or> 2 ^ 32 \<le> image_count then None
           else
             let body = layout_body (unat grid_height) (unat grid_width) (unat rows) (unat row_length);
                 cells = map ((!) body) (layout_order (unat rows) (unat row_length));
                 types = replicate compress_pad IMAGE_PAD @ [IMAGE_START] @ map fst cells @
                         replicate pad_last IMAGE_PAD @ [IMAGE_END];
                 perm = List.map_filter snd cells
             in if length types \<noteq> token_count \<or> length perm \<noteq> image_count then None
                else Some \<lparr>il_types = types, il_perm = perm\<rparr>)"

text \<open>The tokens of a layout in the prompt (\<open>ds4_tokens_push\<close> of \<open>DS4_N_VOCAB + types[i]\<close>).\<close>

definition image_tokens :: "nat \<Rightarrow> image_token list \<Rightarrow> int list" where
  "image_tokens vocab types = map (\<lambda>t. int (vocab + image_code t)) types"

section \<open>The scanner\<close>

text \<open>\<open>while (i < n && p(tokens[i])) i++\<close>.\<close>

function run_while :: "('a \<Rightarrow> bool) \<Rightarrow> 'a list \<Rightarrow> nat \<Rightarrow> nat" where
  "run_while p xs i = (if i < length xs \<and> p (xs ! i) then run_while p xs (i + 1) else i)"
  by pat_completeness auto
termination by (relation "measure (\<lambda>(_, xs, i). length xs - i)") auto

declare run_while.simps [simp del]

text \<open>The results 1, 0 and -1; a found block has its start, the start sentinel, its end and the new cursor.\<close>

datatype span_scan = Span_found nat nat nat nat | Span_none nat | Span_malformed

function span_body :: "int list \<Rightarrow> nat \<Rightarrow> nat \<Rightarrow> nat option" where
  "span_body tokens vocab_size i =
     (if i < length tokens
      then let token = tokens ! i
           in if token < int vocab_size \<or> int vocab_size + 4 < token \<or> token = int vocab_size then None
              else if token = int vocab_size + 4 then Some i
              else span_body tokens vocab_size (i + 1)
      else None)"
  by pat_completeness auto
termination by (relation "measure (\<lambda>(tokens, _, i). length tokens - i)") auto

declare span_body.simps [simp del]

definition ds4_deepseek4_next_image_span :: "int list \<Rightarrow> nat \<Rightarrow> nat \<Rightarrow> span_scan" where
  "ds4_deepseek4_next_image_span tokens vocab_size cursor =
     (if vocab_size = 0 \<or> length tokens < cursor then Span_malformed
      else
        let i = run_while (\<lambda>t. 0 \<le> t \<and> t < int vocab_size) tokens cursor
        in if i = length tokens then Span_none i
           else if tokens ! i < 0 then Span_malformed
           else
             let block = i;
                 i = run_while (\<lambda>t. t = int vocab_size + 1) tokens i
             in if i = length tokens \<or> tokens ! i \<noteq> int vocab_size then Span_malformed
                else (case span_body tokens vocab_size (i + 1) of
                        None \<Rightarrow> Span_malformed
                      | Some e \<Rightarrow> Span_found block i e (e + 1)))"

lemma run_while_takeWhile: "run_while p xs i = i + length (takeWhile p (drop i xs))"
proof (induction p xs i rule: run_while.induct)
  case (1 p xs i)
  show ?case
  proof (cases "i < length xs \<and> p (xs ! i)")
    case True
    with 1 show ?thesis by (simp add: run_while.simps [of p xs i] Cons_nth_drop_Suc [symmetric])
  next
    case False
    then show ?thesis
      by (cases "i < length xs") (auto simp: run_while.simps [of p xs i] Cons_nth_drop_Suc [symmetric])
  qed
qed

lemma run_while_bounds: "i \<le> length xs \<Longrightarrow> i \<le> run_while p xs i \<and> run_while p xs i \<le> length xs"
  using length_takeWhile_le [of p "drop i xs"] by (simp add: run_while_takeWhile)

lemma run_while_holds: "i \<le> j \<Longrightarrow> j < run_while p xs i \<Longrightarrow> p (xs ! j)"
proof (induction p xs i rule: run_while.induct)
  case (1 p xs i)
  show ?case
  proof (cases "i < length xs \<and> p (xs ! i)")
    case True
    with 1 show ?thesis by (cases "i = j") (simp_all add: run_while.simps [of p xs i])
  next
    case False
    with "1.prems" show ?thesis unfolding run_while.simps [of p xs i] by auto
  qed
qed

lemma run_while_stops: "run_while p xs i < length xs \<Longrightarrow> \<not> p (xs ! run_while p xs i)"
proof (induction p xs i rule: run_while.induct)
  case (1 p xs i)
  then show ?case by (auto simp: run_while.simps [of p xs i] split: if_splits)
qed

lemma span_body_Some:
  "span_body tokens vocab_size i = Some e \<Longrightarrow> i \<le> e \<and> e < length tokens \<and> tokens ! e = int vocab_size + 4 \<and>
    (\<forall>j. i \<le> j \<and> j < e \<longrightarrow> int vocab_size < tokens ! j \<and> tokens ! j < int vocab_size + 4)"
proof (induction tokens vocab_size i rule: span_body.induct)
  case (1 tokens vocab_size i)
  let ?t = "tokens ! i"
  from 1(2) have i: "i < length tokens" "int vocab_size < ?t" "?t \<le> int vocab_size + 4"
    and e: "if ?t = int vocab_size + 4 then e = i else span_body tokens vocab_size (i + 1) = Some e"
    by (auto simp: span_body.simps [of tokens vocab_size i] Let_def split: if_splits)
  show ?case
  proof (cases "?t = int vocab_size + 4")
    case True
    with i e show ?thesis by simp
  next
    case False
    with i e have IH: "i + 1 \<le> e \<and> e < length tokens \<and> tokens ! e = int vocab_size + 4 \<and>
        (\<forall>j. i + 1 \<le> j \<and> j < e \<longrightarrow> int vocab_size < tokens ! j \<and> tokens ! j < int vocab_size + 4)"
      by (intro 1(1) [OF _ refl]) auto
    have "int vocab_size < tokens ! j \<and> tokens ! j < int vocab_size + 4" if "i \<le> j" "j < e" for j
    proof (cases "j = i")
      case True
      then show ?thesis using i False by simp
    next
      case False
      then show ?thesis using IH that by simp
    qed
    with IH show ?thesis by simp
  qed
qed

lemma next_span_found_bounds:
  assumes "ds4_deepseek4_next_image_span tokens vocab_size cursor = Span_found b s e c"
  shows "cursor \<le> b \<and> b \<le> s \<and> s < e \<and> e < length tokens \<and> c = e + 1"
proof -
  define i where "i = run_while (\<lambda>t. 0 \<le> t \<and> t < int vocab_size) tokens cursor"
  define k where "k = run_while (\<lambda>t. t = int vocab_size + 1) tokens i"
  have cur: "cursor \<le> length tokens" using assms by (auto simp: ds4_deepseek4_next_image_span_def split: if_splits)
  have "cursor \<le> i \<and> i \<le> length tokens" unfolding i_def by (rule run_while_bounds [OF cur])
  moreover from this have "i \<le> k" unfolding k_def by (intro conjunct1 [OF run_while_bounds]) simp
  moreover have "b = i" "s = k" "c = e + 1" "span_body tokens vocab_size (k + 1) = Some e"
    using assms by (auto simp: ds4_deepseek4_next_image_span_def Let_def i_def k_def split: if_splits option.splits)
  ultimately show ?thesis using span_body_Some [of tokens vocab_size "k + 1" e] by auto
qed

section \<open>The clients\<close>

text \<open>The prefill chunk: the loop over the blocks, with its \<open>limit\<close> and cursor. \<open>None\<close> is the result 0.\<close>

function prefill_loop :: "int list \<Rightarrow> nat \<Rightarrow> nat \<Rightarrow> nat \<Rightarrow> nat \<Rightarrow> nat \<Rightarrow> nat option" where
  "prefill_loop tokens vocab_size pos0 cap limit cursor =
     (case ds4_deepseek4_next_image_span tokens vocab_size cursor of
        Span_malformed \<Rightarrow> None
      | Span_none _ \<Rightarrow> Some limit
      | Span_found block_start image_start image_end cursor' \<Rightarrow>
          if limit \<le> block_start then Some limit
          else let after_image = image_end + 1
               in if limit < after_image
                  then if cap < after_image - pos0
                       then if block_start = pos0 then None else Some block_start
                       else prefill_loop tokens vocab_size pos0 cap after_image cursor'
                  else prefill_loop tokens vocab_size pos0 cap limit cursor')"
  by pat_completeness auto
termination
  by (relation "measure (\<lambda>(tokens, _, _, _, _, cursor). length tokens - cursor)")
    (auto dest!: next_span_found_bounds)

declare prefill_loop.simps [simp del]

definition ds4_deepseek4_prefill_chunk :: "int list \<Rightarrow> nat \<Rightarrow> nat \<Rightarrow> nat \<Rightarrow> nat option" where
  "ds4_deepseek4_prefill_chunk tokens vocab_size pos0 cap =
     (if vocab_size = 0 \<or> cap = 0 \<or> length tokens \<le> pos0 then None
      else let limit = pos0 + (if length tokens - pos0 < cap then length tokens - pos0 else cap)
           in case prefill_loop tokens vocab_size pos0 cap limit pos0 of
                None \<Rightarrow> None
              | Some limit \<Rightarrow> if limit - pos0 \<noteq> 0 then Some (limit - pos0) else None)"

text \<open>The attention bounds \<open>(lo, hi)\<close> of a query row at position \<open>qpos\<close>: text looks back at most a window, a
  row of an image also sees the rest of its image.\<close>

definition text_bounds :: "nat \<Rightarrow> nat \<Rightarrow> nat \<Rightarrow> nat \<Rightarrow> nat \<times> nat" where
  "text_bounds first_raw_pos last_raw_pos window qpos =
     (let lo = first_raw_pos;
          lo = (if window \<noteq> 0 \<and> window < qpos + 1
                then let window_lo = qpos + 1 - window in if lo < window_lo then window_lo else lo
                else lo)
      in (lo, if qpos < last_raw_pos then qpos else last_raw_pos))"

definition image_bounds :: "nat \<Rightarrow> nat \<Rightarrow> nat \<Rightarrow> nat \<Rightarrow> nat \<Rightarrow> nat \<Rightarrow> nat \<Rightarrow> nat \<times> nat" where
  "image_bounds first_raw_pos last_raw_pos window pos0 image_start image_end q =
     (let qpos = pos0 + q;
          left = (if q - image_start < 383 then q - image_start else 383);
          right = (if image_end - q < 384 then image_end - q else 384);
          left_add = (if window \<noteq> 0 \<and> window \<le> left then left - (window - 1) else 0);
          lo = (if window \<noteq> 0
                then let back = window - 1 + left_add in if back < qpos then qpos - back else 0
                else 0);
          hi = qpos + right;
          lo = (if lo < first_raw_pos then first_raw_pos else lo);
          hi = (if last_raw_pos < hi then last_raw_pos else hi)
      in (lo, hi))"

function bounds_loop ::
  "int list \<Rightarrow> nat \<Rightarrow> (nat \<Rightarrow> nat \<Rightarrow> nat \<Rightarrow> nat \<times> nat) \<Rightarrow> nat \<Rightarrow> (nat \<times> nat) list \<Rightarrow> (nat \<times> nat) list option" where
  "bounds_loop tokens vocab_size f cursor bounds =
     (case ds4_deepseek4_next_image_span tokens vocab_size cursor of
        Span_malformed \<Rightarrow> None
      | Span_none _ \<Rightarrow> Some bounds
      | Span_found block_start image_start image_end cursor' \<Rightarrow>
          bounds_loop tokens vocab_size f cursor'
            (foldl (\<lambda>bs q. bs[q := f image_start image_end q]) bounds [image_start..<image_end + 1]))"
  by pat_completeness auto
termination
  by (relation "measure (\<lambda>(tokens, _, _, cursor, _). length tokens - cursor)")
    (auto dest!: next_span_found_bounds)

declare bounds_loop.simps [simp del]

definition ds4_deepseek4_attention_bounds ::
  "int list \<Rightarrow> nat \<Rightarrow> nat \<Rightarrow> nat \<Rightarrow> nat \<Rightarrow> (nat \<times> nat) list option" where
  "ds4_deepseek4_attention_bounds tokens vocab_size pos0 n_raw window =
     (let token_count = length tokens
      in if token_count = 0 \<or> vocab_size = 0 \<or> 2 ^ 32 - 1 < pos0 + token_count \<or> n_raw = 0 \<or>
            pos0 + token_count < n_raw then None
         else
           let first_raw_pos = pos0 + token_count - n_raw;
               last_raw_pos = first_raw_pos + n_raw - 1;
               bounds = map (\<lambda>q. text_bounds first_raw_pos last_raw_pos window (pos0 + q)) [0..<token_count]
           in bounds_loop tokens vocab_size (image_bounds first_raw_pos last_raw_pos window pos0) 0 bounds)"

section \<open>What the scanner accepts\<close>

definition text_run :: "nat \<Rightarrow> int list \<Rightarrow> nat \<Rightarrow> nat \<Rightarrow> bool" where
  "text_run vocab_size tokens a b \<longleftrightarrow> (\<forall>i. a \<le> i \<and> i < b \<longrightarrow> 0 \<le> tokens ! i \<and> tokens ! i < int vocab_size)"

text \<open>A block: pads from \<open>b\<close>, the start sentinel at \<open>s\<close>, the end sentinel at \<open>e\<close>, image tokens between.\<close>

definition image_block :: "nat \<Rightarrow> int list \<Rightarrow> nat \<Rightarrow> nat \<Rightarrow> nat \<Rightarrow> bool" where
  "image_block vocab_size tokens b s e \<longleftrightarrow>
     b \<le> s \<and> s < e \<and> e < length tokens \<and>
     (\<forall>i. b \<le> i \<and> i < s \<longrightarrow> tokens ! i = int vocab_size + 1) \<and> tokens ! s = int vocab_size \<and>
     (\<forall>i. s < i \<and> i < e \<longrightarrow> int vocab_size < tokens ! i \<and> tokens ! i < int vocab_size + 4) \<and>
     tokens ! e = int vocab_size + 4"

lemma run_while_eqI:
  "(\<And>j. i \<le> j \<Longrightarrow> j < n \<Longrightarrow> p (xs ! j)) \<Longrightarrow> i \<le> n \<Longrightarrow> n \<le> length xs \<Longrightarrow> (n < length xs \<Longrightarrow> \<not> p (xs ! n)) \<Longrightarrow>
    run_while p xs i = n"
proof (induction p xs i rule: run_while.induct)
  case (1 p xs i)
  show ?case
  proof (cases "i = n")
    case True
    with 1(5) show ?thesis by (auto simp: run_while.simps [of p xs n])
  next
    case False
    with 1 show ?thesis by (simp add: run_while.simps [of p xs i])
  qed
qed

lemma run_while_iff:
  "i \<le> length xs \<Longrightarrow> run_while p xs i = n \<longleftrightarrow>
    i \<le> n \<and> n \<le> length xs \<and> (\<forall>j. i \<le> j \<and> j < n \<longrightarrow> p (xs ! j)) \<and> (n < length xs \<longrightarrow> \<not> p (xs ! n))"
  using run_while_bounds [of i xs p] run_while_holds [of i _ p xs] run_while_stops [of p xs i] run_while_eqI [of i n p xs]
  by blast

lemma span_body_eqI:
  "(\<And>j. i \<le> j \<Longrightarrow> j < e \<Longrightarrow> int vocab_size < tokens ! j \<and> tokens ! j < int vocab_size + 4) \<Longrightarrow> i \<le> e \<Longrightarrow>
    e < length tokens \<Longrightarrow> tokens ! e = int vocab_size + 4 \<Longrightarrow> span_body tokens vocab_size i = Some e"
proof (induction tokens vocab_size i rule: span_body.induct)
  case (1 tokens vocab_size i)
  show ?case
  proof (cases "i = e")
    case True
    with 1 show ?thesis by (simp add: span_body.simps [of tokens vocab_size e])
  next
    case False
    with 1(2,3) have "int vocab_size < tokens ! i \<and> tokens ! i < int vocab_size + 4" by simp
    moreover from False 1 have "span_body tokens vocab_size (i + 1) = Some e" using calculation by simp
    ultimately show ?thesis using 1(3,4) by (simp add: span_body.simps [of tokens vocab_size i])
  qed
qed

lemma span_body_iff:
  "span_body tokens vocab_size i = Some e \<longleftrightarrow> i \<le> e \<and> e < length tokens \<and> tokens ! e = int vocab_size + 4 \<and>
    (\<forall>j. i \<le> j \<and> j < e \<longrightarrow> int vocab_size < tokens ! j \<and> tokens ! j < int vocab_size + 4)"
  using span_body_Some [of tokens vocab_size i e] span_body_eqI [of i e vocab_size tokens] by blast

lemma next_span_foundD:
  assumes "ds4_deepseek4_next_image_span tokens vocab_size cursor = Span_found b s e c"
  shows "cursor \<le> b \<and> text_run vocab_size tokens cursor b \<and> image_block vocab_size tokens b s e \<and> c = e + 1"
proof -
  have cur: "cursor \<le> length tokens" and b: "run_while (\<lambda>t. 0 \<le> t \<and> t < int vocab_size) tokens cursor = b"
    and s: "run_while (\<lambda>t. t = int vocab_size + 1) tokens b = s" "s \<noteq> length tokens" "tokens ! s = int vocab_size"
    and e: "span_body tokens vocab_size (s + 1) = Some e" "c = e + 1"
    using assms by (auto simp: ds4_deepseek4_next_image_span_def Let_def split: if_splits option.splits)
  from b cur have bb: "cursor \<le> b \<and> b \<le> length tokens \<and> text_run vocab_size tokens cursor b"
    by (auto simp: run_while_iff text_run_def)
  with s(1) have "b \<le> s" "\<And>i. b \<le> i \<Longrightarrow> i < s \<Longrightarrow> tokens ! i = int vocab_size + 1" by (auto simp: run_while_iff)
  with bb s(3) e show ?thesis by (auto simp: span_body_iff image_block_def Suc_le_eq)
qed

lemma next_span_foundI:
  assumes v: "0 < vocab_size" and c: "cursor \<le> b" "text_run vocab_size tokens cursor b"
    and k: "image_block vocab_size tokens b s e"
  shows "ds4_deepseek4_next_image_span tokens vocab_size cursor = Span_found b s e (e + 1)"
proof -
  have len: "b < length tokens" "s < length tokens" "b \<le> s" and ts: "tokens ! s = int vocab_size"
    and tb: "tokens ! b \<ge> int vocab_size" and ps: "\<And>i. b \<le> i \<Longrightarrow> i < s \<Longrightarrow> tokens ! i = int vocab_size + 1"
    using k by (auto simp: image_block_def le_less)
  have "run_while (\<lambda>t. 0 \<le> t \<and> t < int vocab_size) tokens cursor = b"
    using c len tb by (intro run_while_eqI) (auto simp: text_run_def)
  moreover have "run_while (\<lambda>t. t = int vocab_size + 1) tokens b = s"
    using len ts ps by (intro run_while_eqI) auto
  moreover have "span_body tokens vocab_size (s + 1) = Some e"
    using k by (auto simp: image_block_def span_body_iff)
  ultimately show ?thesis using v c len ts tb
    by (simp add: ds4_deepseek4_next_image_span_def)
qed

lemma next_span_noneD:
  "ds4_deepseek4_next_image_span tokens vocab_size cursor = Span_none i \<Longrightarrow>
    i = length tokens \<and> cursor \<le> i \<and> text_run vocab_size tokens cursor i"
  using run_while_bounds [of cursor tokens "\<lambda>t. 0 \<le> t \<and> t < int vocab_size"]
    run_while_holds [of cursor _ "\<lambda>t. 0 \<le> t \<and> t < int vocab_size" tokens]
  by (force simp: ds4_deepseek4_next_image_span_def text_run_def Let_def split: if_splits option.splits)

lemma next_span_noneI:
  assumes "0 < vocab_size" "cursor \<le> length tokens" "text_run vocab_size tokens cursor (length tokens)"
  shows "ds4_deepseek4_next_image_span tokens vocab_size cursor = Span_none (length tokens)"
proof -
  have "run_while (\<lambda>t. 0 \<le> t \<and> t < int vocab_size) tokens cursor = length tokens"
    using assms by (intro run_while_eqI) (auto simp: text_run_def)
  then show ?thesis using assms by (simp add: ds4_deepseek4_next_image_span_def)
qed

text \<open>Any block from the cursor on is the one found, perhaps without its first pads, or comes after it.\<close>

lemma image_block_after:
  assumes f: "ds4_deepseek4_next_image_span tokens vocab_size cursor = Span_found b s e c"
    and k: "image_block vocab_size tokens b' s' e'" and cur: "cursor \<le> b'"
  shows "(b \<le> b' \<and> s' = s \<and> e' = e) \<or> e < b'"
proof -
  note F = next_span_foundD [OF f, unfolded text_run_def image_block_def]
  note K = k [unfolded image_block_def]
  have "b \<le> b'"
  proof (rule ccontr)
    assume "\<not> b \<le> b'"
    with F cur have "tokens ! b' < int vocab_size" by auto
    moreover have "int vocab_size \<le> tokens ! b'" using K by (cases "b' < s'") (auto simp: not_less dest: le_antisym)
    ultimately show False by simp
  qed
  moreover have "s' = s" if "b' \<le> e"
  proof (rule linorder_cases [of s' s])
    assume "s' < s"
    then show ?thesis using F K \<open>b \<le> b'\<close> by auto
  next
    assume *: "s < s'"
    show ?thesis
    proof (cases "e < s'")
      case True
      then have "tokens ! e = int vocab_size + 1" using K \<open>b' \<le> e\<close> by blast
      moreover have "tokens ! e = int vocab_size + 4" using F by blast
      ultimately show ?thesis by simp
    next
      case False
      with * F K show ?thesis by (cases "s' = e") auto
    qed
  qed
  moreover have "e' = e" if "s' = s"
  proof (rule linorder_cases [of e' e])
    assume "e' < e" then show ?thesis using F K that by force
  next
    assume "e < e'" then show ?thesis using F K that by force
  qed
  ultimately show ?thesis by (metis not_le_imp_less)
qed

section \<open>Prefill chunks\<close>

lemma prefill_loop_sound:
  assumes "prefill_loop tokens vocab_size pos0 cap limit cursor = Some l"
    and "limit = pos0 + min (length tokens - pos0) cap" and "pos0 \<le> cursor" "cursor \<le> limit"
  shows "cursor \<le> l \<and> l \<le> limit \<and>
    (\<forall>b s e. image_block vocab_size tokens b s e \<and> cursor \<le> b \<longrightarrow> e < l \<or> l \<le> b) \<and>
    (l < limit \<longrightarrow> pos0 < l \<and> (\<exists>s e. image_block vocab_size tokens l s e \<and> pos0 + cap \<le> e))"
  using assms
proof (induction tokens vocab_size pos0 cap limit cursor rule: prefill_loop.induct)
  case (1 tokens vocab_size pos0 cap limit cursor)
  note L = "1.prems"(1) [unfolded prefill_loop.simps [of tokens vocab_size pos0 cap limit cursor]]
  show ?case
  proof (cases "ds4_deepseek4_next_image_span tokens vocab_size cursor")
    case (Span_none n)
    have no: "\<not> image_block vocab_size tokens b s e" if "cursor \<le> b" for b s e
      using next_span_noneD [OF Span_none] that by (fastforce simp: image_block_def text_run_def)
    show ?thesis using L Span_none "1.prems" no by auto
  next
    case (Span_found b s e c)
    note F = next_span_foundD [OF Span_found]
    have len: "e < length tokens" "b \<le> s" "s < e" using F by (auto simp: image_block_def)
    have after: "b \<le> b' \<and> s' = s \<and> e' = e \<or> e < b'"
      if "image_block vocab_size tokens b' s' e'" "cursor \<le> b'" for b' s' e'
      using image_block_after [OF Span_found that] .
    have L': "(if limit \<le> b then Some limit
        else if limit < e + 1
             then if cap < e + 1 - pos0 then if b = pos0 then None else Some b
                  else prefill_loop tokens vocab_size pos0 cap (e + 1) (e + 1)
             else prefill_loop tokens vocab_size pos0 cap limit (e + 1)) = Some l"
      using L conjunct2 [OF conjunct2 [OF conjunct2 [OF F]]] by (simp only: Span_found span_scan.case Let_def)
    have big: "cap < e + 1 - pos0" if "limit < e + 1" using that "1.prems"(2) len by simp
    consider "limit \<le> b" "l = limit"
      | "b < limit" "limit \<le> e" "pos0 < b" "l = b" "cap < e + 1 - pos0"
      | "b < limit" "e < limit" "prefill_loop tokens vocab_size pos0 cap limit (e + 1) = Some l"
    proof -
      consider "limit \<le> b" | "b < limit" "limit < e + 1" | "b < limit" "e < limit" by linarith
      then show thesis
      proof cases
        case 2
        with L' big have "b \<noteq> pos0" "l = b" by (simp_all split: if_splits)
        with 2 big F "1.prems"(3) show thesis by (intro that(2)) auto
      next
        case 1
        with L' show thesis by (intro that(1)) simp_all
      next
        case 3
        with L' show thesis by (intro that(3)) simp_all
      qed
    qed
    then show ?thesis
    proof cases
      case 1
      then have "limit \<le> b'" if "image_block vocab_size tokens b' s' e'" "cursor \<le> b'" for b' s' e'
        using after [OF that] len by linarith
      with 1 show ?thesis using "1.prems"(4) by auto
    next
      case 2
      then have "image_block vocab_size tokens l s e" "pos0 + cap \<le> e" using F by auto
      moreover have "b \<le> b'" if "image_block vocab_size tokens b' s' e'" "cursor \<le> b'" for b' s' e'
        using after [OF that] len by linarith
      ultimately show ?thesis using 2 F by auto
    next
      case 3
      have IH: "e + 1 \<le> l \<and> l \<le> limit \<and>
          (\<forall>b s e'. image_block vocab_size tokens b s e' \<and> e + 1 \<le> b \<longrightarrow> e' < l \<or> l \<le> b) \<and>
          (l < limit \<longrightarrow> pos0 < l \<and> (\<exists>s e. image_block vocab_size tokens l s e \<and> pos0 + cap \<le> e))"
        using 3 F "1.prems" len Span_found by (intro "1.IH"(2)) auto
      have "e' < l \<or> l \<le> b'" if "image_block vocab_size tokens b' s' e'" "cursor \<le> b'" for b' s' e'
        using after [OF that]
      proof
        assume "e < b'"
        then have "e + 1 \<le> b'" by simp
        with IH that(1) show ?thesis by blast
      qed (use IH in auto)
      moreover have "cursor \<le> e + 1" using F len by simp
      ultimately show ?thesis using IH by auto
    qed
  qed (use L in simp)
qed

lemma prefill_chunk_sound:
  assumes "ds4_deepseek4_prefill_chunk tokens vocab_size pos0 cap = Some n"
  shows "0 < n \<and> n \<le> cap \<and> pos0 + n \<le> length tokens \<and>
    (\<forall>b s e. image_block vocab_size tokens b s e \<and> pos0 \<le> b \<longrightarrow> e < pos0 + n \<or> pos0 + n \<le> b) \<and>
    (n < min (length tokens - pos0) cap \<longrightarrow>
      (\<exists>s e. image_block vocab_size tokens (pos0 + n) s e \<and> pos0 + cap \<le> e))"
proof -
  let ?limit = "pos0 + min (length tokens - pos0) cap"
  from assms obtain l where l: "prefill_loop tokens vocab_size pos0 cap ?limit pos0 = Some l"
      and n: "n = l - pos0" "0 < n" and p: "0 < cap" "pos0 < length tokens"
    by (auto simp: ds4_deepseek4_prefill_chunk_def Let_def min_def split: if_splits option.splits)
  from n have l_n: "l = pos0 + n" by simp
  show ?thesis using prefill_loop_sound [OF l refl] n(2) p unfolding l_n by auto
qed

text \<open>A prefill chunk never cuts a picture: it has at least one and at most \<open>cap\<close> tokens, stays inside the
  prompt, every image block from the start position on lies either before its end or after it, and when it is
  shorter than it could be, the next token begins a block that would not have fitted.\<close>

theorem prefill_chunk_whole_blocks:
  assumes "ds4_deepseek4_prefill_chunk tokens vocab_size pos0 cap = Some n"
  shows "0 < n \<and> n \<le> cap \<and> pos0 + n \<le> length tokens \<and>
    (\<forall>b s e. image_block vocab_size tokens b s e \<and> pos0 \<le> b \<longrightarrow> e < pos0 + n \<or> pos0 + n \<le> b) \<and>
    (n < min (length tokens - pos0) cap \<longrightarrow>
      (\<exists>s e. image_block vocab_size tokens (pos0 + n) s e \<and> pos0 + cap \<le> e))"
  using prefill_chunk_sound [OF assms] .

text \<open>The prompt of the test suite: a text token, a block of six, a text token, a block of three, a text token.\<close>

definition demo_prompt :: "int list" where
  "demo_prompt = [7, 101, 101, 100, 102, 103, 104, 8, 100, 101, 104, 9]"

theorem prefill_chunk_witness:
  "ds4_deepseek4_prefill_chunk demo_prompt 100 0 5 = Some 1 \<and>
   (\<exists>s e. image_block 100 demo_prompt 1 s e \<and> 5 \<le> e)"
proof -
  have "ds4_deepseek4_prefill_chunk demo_prompt 100 0 5 = Some 1" by code_simp
  with prefill_chunk_whole_blocks [OF this] show ?thesis by (auto simp: demo_prompt_def)
qed

end
