(* ===== verification/Image_Prefill.thy ===== *)
theory Image_Prefill
  imports Image_Spans
begin

text \<open>
  The loop that feeds a prompt range to the GPU in chunks (\<open>metal_graph_prefill_chunked_range\<close> of ds4.c): which
  chunks it chooses. The GPU work of a chunk and the cancel callback are left out; the model is the schedule of
  a run in which every chunk succeeds.
\<close>

record prefill_graph =
  pg_vision :: bool
  pg_prefill_cap :: nat
  pg_raw_cap :: nat
  pg_vocab :: nat

definition metal_graph_visual_prefill_chunk :: "prefill_graph \<Rightarrow> int list \<Rightarrow> nat \<Rightarrow> nat \<Rightarrow> nat \<Rightarrow> nat" where
  "metal_graph_visual_prefill_chunk g prompt pos0 end' cap =
     (let normal = (if end' - pos0 < cap then end' - pos0 else cap)
      in if \<not> pg_vision g then normal
         else case ds4_deepseek4_prefill_chunk (take end' prompt) (pg_vocab g) pos0 cap of
                None \<Rightarrow> 0
              | Some chunk \<Rightarrow> chunk)"

text \<open>The cap of the range and of one chunk: a resumed range keeps to the boundaries of a cold prompt, but a
  block of an image may cross them.\<close>

definition prefill_chunk_cap :: "prefill_graph \<Rightarrow> nat \<Rightarrow> nat" where
  "prefill_chunk_cap g start =
     (if start \<noteq> 0 \<and> pg_raw_cap g < pg_prefill_cap g then pg_raw_cap g else pg_prefill_cap g)"

definition prefill_local_cap :: "prefill_graph \<Rightarrow> int list \<Rightarrow> nat \<Rightarrow> nat \<Rightarrow> nat" where
  "prefill_local_cap g prompt start pos0 =
     (let chunk_cap = prefill_chunk_cap g start;
          m = pos0 mod pg_prefill_cap g;
          to_boundary = pg_prefill_cap g - m;
          local_cap = (if start \<noteq> 0 \<and> pg_prefill_cap g \<noteq> 0 \<and> m \<noteq> 0 \<and> to_boundary < chunk_cap
                       then to_boundary else chunk_cap)
      in if pg_vision g \<and> int (pg_vocab g) \<le> prompt ! pos0 then chunk_cap else local_cap)"

text \<open>The chunks in order, each with its position.\<close>

function prefill_chunks :: "prefill_graph \<Rightarrow> int list \<Rightarrow> nat \<Rightarrow> nat \<Rightarrow> nat \<Rightarrow> (nat \<times> nat) list option" where
  "prefill_chunks g prompt start end' pos0 =
     (if pos0 < end'
      then let chunk = metal_graph_visual_prefill_chunk g prompt pos0 end' (prefill_local_cap g prompt start pos0)
           in if chunk = 0 then None
              else map_option ((#) (pos0, chunk)) (prefill_chunks g prompt start end' (pos0 + chunk))
      else Some [])"
  by pat_completeness auto
termination by (relation "measure (\<lambda>(g, prompt, start, end', pos0). end' - pos0)") auto

declare prefill_chunks.simps [simp del]

definition metal_graph_prefill_chunked_range ::
  "prefill_graph \<Rightarrow> int list \<Rightarrow> nat \<Rightarrow> nat \<Rightarrow> (nat \<times> nat) list option" where
  "metal_graph_prefill_chunked_range g prompt start n_tokens =
     (if n_tokens = 0 \<or> pg_prefill_cap g = 0 then None
      else if length prompt < start then None
      else if length prompt - start < n_tokens then None
      else if prefill_chunk_cap g start = 0 then None
      else prefill_chunks g prompt start (start + n_tokens) start)"

section \<open>Prompts whose pictures fit\<close>

text \<open>From position \<open>c\<close> on the tokens are text and complete blocks of at most \<open>cap\<close> tokens.\<close>

inductive fits :: "nat \<Rightarrow> int list \<Rightarrow> nat \<Rightarrow> nat \<Rightarrow> bool"
  for vocab_size :: nat and tokens :: "int list" and cap :: nat
where
  fits_text: "text_run vocab_size tokens c (length tokens) \<Longrightarrow> c \<le> length tokens \<Longrightarrow> fits vocab_size tokens cap c"
| fits_block: "text_run vocab_size tokens c b \<Longrightarrow> c \<le> b \<Longrightarrow> image_block vocab_size tokens b s e \<Longrightarrow>
    e + 1 \<le> b + cap \<Longrightarrow> fits vocab_size tokens cap (e + 1) \<Longrightarrow> fits vocab_size tokens cap c"

lemma fits_le: "fits vocab_size tokens cap c \<Longrightarrow> c \<le> length tokens"
  by (cases rule: fits.cases) (auto simp: image_block_def)

lemma text_run_mono: "text_run v tokens a b \<Longrightarrow> a \<le> a' \<Longrightarrow> b' \<le> b \<Longrightarrow> text_run v tokens a' b'"
  by (auto simp: text_run_def)

text \<open>What the scanner says on such a prompt.\<close>

lemma fits_scan:
  assumes "fits vocab_size tokens cap c" and "0 < vocab_size"
  shows "(ds4_deepseek4_next_image_span tokens vocab_size c = Span_none (length tokens) \<and>
      (\<forall>m. c \<le> m \<and> m \<le> length tokens \<longrightarrow> fits vocab_size tokens cap m)) \<or>
    (\<exists>b s e. ds4_deepseek4_next_image_span tokens vocab_size c = Span_found b s e (e + 1) \<and>
      e + 1 \<le> b + cap \<and> fits vocab_size tokens cap (e + 1) \<and>
      (\<forall>m. c \<le> m \<and> m \<le> b \<longrightarrow> fits vocab_size tokens cap m))"
  using assms(1)
proof (cases rule: fits.cases)
  case fits_text
  then have "fits vocab_size tokens cap m" if "c \<le> m" "m \<le> length tokens" for m
    using that text_run_mono [OF fits_text(1)] by (intro fits.fits_text) simp_all
  with fits_text assms(2) show ?thesis by (simp add: next_span_noneI)
next
  case (fits_block b s e)
  then have "fits vocab_size tokens cap m" if "c \<le> m" "m \<le> b" for m
    using that text_run_mono [OF fits_block(1)] fits_block by (intro fits.fits_block [of _ _ m b s e]) simp_all
  with fits_block next_span_foundI [OF assms(2) fits_block(2,1,3)] show ?thesis by blast
qed

lemma prefill_loop_fits:
  assumes "fits vocab_size tokens big cursor" "0 < vocab_size"
    and "cursor \<le> limit" "limit = pos0 + min (length tokens - pos0) cap" "pos0 \<le> cursor" "pos0 \<le> length tokens"
    and "cap < big \<Longrightarrow> tokens ! pos0 < int vocab_size"
  shows "\<exists>l. prefill_loop tokens vocab_size pos0 cap limit cursor = Some l \<and> fits vocab_size tokens big l"
  using assms
proof (induction "length tokens - cursor" arbitrary: cursor rule: less_induct)
  case less
  let ?loop = "prefill_loop tokens vocab_size pos0 cap limit"
  from fits_scan [OF less.prems(1,2)] show ?case
  proof (elim disjE exE conjE)
    assume "ds4_deepseek4_next_image_span tokens vocab_size cursor = Span_none (length tokens)"
      and "\<forall>m. cursor \<le> m \<and> m \<le> length tokens \<longrightarrow> fits vocab_size tokens big m"
    moreover have "limit \<le> length tokens" using less.prems(4,6) by simp
    ultimately show ?thesis using less.prems(3)
      by (auto simp: prefill_loop.simps [of tokens vocab_size pos0 cap limit cursor])
  next
    fix b s e
    assume f: "ds4_deepseek4_next_image_span tokens vocab_size cursor = Span_found b s e (e + 1)"
      and e: "e + 1 \<le> b + big" "fits vocab_size tokens big (e + 1)"
      and m: "\<forall>m. cursor \<le> m \<and> m \<le> b \<longrightarrow> fits vocab_size tokens big m"
    note F = next_span_foundD [OF f]
    then have k: "cursor \<le> b" "b < e" "e < length tokens" and tb: "int vocab_size \<le> tokens ! b"
      by (auto simp: image_block_def le_less)
    note eq = prefill_loop.simps [of tokens vocab_size pos0 cap limit cursor, unfolded f span_scan.case]
    consider "limit \<le> b" | "b < limit" "limit \<le> e" | "e < limit" by linarith
    then show ?thesis
    proof cases
      case 1
      then show ?thesis using m less.prems(3) by (simp add: eq)
    next
      case 2
      then have c: "cap < e + 1 - pos0" using less.prems(4) k by (simp split: split_min_lin)
      have "b \<noteq> pos0" using c e(1) tb less.prems(7) by (cases "cap < big") auto
      with 2 c k m show ?thesis by (simp add: eq)
    next
      case 3
      with k less.prems e(2) have "\<exists>l. ?loop (e + 1) = Some l \<and> fits vocab_size tokens big l"
        by (intro less.hyps) auto
      with 3 k show ?thesis by (simp add: eq)
    qed
  qed
qed

lemma prefill_chunk_fits:
  assumes "fits vocab_size tokens big pos0" "0 < vocab_size" "0 < cap" "pos0 < length tokens"
    and "cap < big \<Longrightarrow> tokens ! pos0 < int vocab_size"
  shows "\<exists>n. ds4_deepseek4_prefill_chunk tokens vocab_size pos0 cap = Some n \<and>
    fits vocab_size tokens big (pos0 + n)"
proof -
  let ?limit = "pos0 + min (length tokens - pos0) cap"
  obtain l where l: "prefill_loop tokens vocab_size pos0 cap ?limit pos0 = Some l" "fits vocab_size tokens big l"
    using prefill_loop_fits [OF assms(1,2), of ?limit pos0 cap] assms(3-5) by auto
  have "pos0 < l" using prefill_loop_sound [OF l(1) refl] assms(3,4) by (cases "l < ?limit") auto
  with l assms show ?thesis
    by (auto simp: ds4_deepseek4_prefill_chunk_def Let_def min_def intro: exI [of _ "l - pos0"] split: if_splits)
qed

section \<open>The schedule\<close>

text \<open>Chunks that follow one another from \<open>a\<close> to \<open>b\<close>.\<close>

fun tiles :: "nat \<Rightarrow> nat \<Rightarrow> (nat \<times> nat) list \<Rightarrow> bool" where
  "tiles a b [] \<longleftrightarrow> a = b"
| "tiles a b ((p, n) # cs) \<longleftrightarrow> p = a \<and> 0 < n \<and> tiles (a + n) b cs"

definition uncut :: "nat \<Rightarrow> int list \<Rightarrow> nat \<Rightarrow> nat \<Rightarrow> bool" where
  "uncut vocab_size tokens start p \<longleftrightarrow>
     (\<forall>b s e. image_block vocab_size tokens b s e \<and> start \<le> b \<longrightarrow> e < p \<or> p \<le> b)"

lemma prefill_local_cap_bounds:
  "0 < prefill_chunk_cap g start \<Longrightarrow> 0 < prefill_local_cap g prompt start pos0 \<and>
    prefill_local_cap g prompt start pos0 \<le> prefill_chunk_cap g start"
  by (auto simp: prefill_local_cap_def Let_def)

lemma prefill_local_cap_image:
  "prefill_local_cap g prompt start pos0 < prefill_chunk_cap g start \<Longrightarrow> pg_vision g \<Longrightarrow>
    prompt ! pos0 < int (pg_vocab g)"
  by (auto simp: prefill_local_cap_def Let_def split: if_splits)

lemma prefill_chunks_fit:
  assumes "pg_vision g" "0 < pg_vocab g" "0 < prefill_chunk_cap g start" "end' \<le> length prompt"
    and "fits (pg_vocab g) (take end' prompt) (prefill_chunk_cap g start) pos0"
    and "uncut (pg_vocab g) (take end' prompt) start pos0"
  shows "\<exists>cs. prefill_chunks g prompt start end' pos0 = Some cs \<and> tiles pos0 end' cs \<and>
    (\<forall>(p, n) \<in> set cs. n \<le> prefill_chunk_cap g start \<and> uncut (pg_vocab g) (take end' prompt) start (p + n))"
  using assms
proof (induction g prompt start end' pos0 rule: prefill_chunks.induct)
  case (1 g prompt start end' pos0)
  let ?v = "pg_vocab g" and ?t = "take end' prompt" and ?cap = "prefill_local_cap g prompt start pos0"
  show ?case
  proof (cases "pos0 < end'")
    case False
    with fits_le [OF "1.prems"(5)] "1.prems"(4) have "pos0 = end'" by simp
    then show ?thesis by (simp add: prefill_chunks.simps [of g prompt start end' end'])
  next
    case True
    note cap = prefill_local_cap_bounds [OF "1.prems"(3), of prompt pos0]
    obtain n where n: "ds4_deepseek4_prefill_chunk ?t ?v pos0 ?cap = Some n" "fits ?v ?t (prefill_chunk_cap g start) (pos0 + n)"
      using prefill_chunk_fits [OF "1.prems"(5,2), of ?cap] cap True "1.prems"(1,4)
        prefill_local_cap_image [of g prompt start pos0] by auto
    note S = prefill_chunk_sound [OF n(1)]
    have u: "uncut ?v ?t start (pos0 + n)" unfolding uncut_def
    proof (intro allI impI)
      fix b s e assume k: "image_block ?v ?t b s e \<and> start \<le> b"
      with "1.prems"(6) have "e < pos0 \<or> pos0 \<le> b" by (auto simp: uncut_def)
      then show "e < pos0 + n \<or> pos0 + n \<le> b" using S k by auto
    qed
    have chunk: "metal_graph_visual_prefill_chunk g prompt pos0 end' ?cap = n"
      using n(1) "1.prems"(1) by (simp add: metal_graph_visual_prefill_chunk_def)
    then have "\<exists>cs. prefill_chunks g prompt start end' (pos0 + n) = Some cs \<and> tiles (pos0 + n) end' cs \<and>
        (\<forall>(p, n) \<in> set cs. n \<le> prefill_chunk_cap g start \<and> uncut ?v ?t start (p + n))"
      using S "1.prems" n(2) u by (intro "1.IH" [OF True]) auto
    with True chunk S u cap show ?thesis by (auto simp: prefill_chunks.simps [of g prompt start end' pos0])
  qed
qed


definition demo_graph :: prefill_graph where
  "demo_graph = \<lparr>pg_vision = True, pg_prefill_cap = 8, pg_raw_cap = 6, pg_vocab = 100\<rparr>"


end
