(* ===== verification/Image_Layout.thy ===== *)
theory Image_Layout
  imports Image_Spans "HOL-Library.Multiset"
begin

text \<open>
  The layout of a picture is what the scanner expects, in any prompt: the padded rows are read in pairs, column
  by column, each image row appears exactly once, and the body starts and ends on a multiple of four tokens, the
  group the attention of the model compresses.
\<close>

section \<open>Reading the body in pairs of rows\<close>

lemma set_layout_order:
  assumes "even rows"
  shows "set (layout_order rows n) = {0..<rows * n}"
proof
  show "set (layout_order rows n) \<subseteq> {0..<rows * n}"
  proof
    fix i assume "i \<in> set (layout_order rows n)"
    then obtain p k c where i: "i = (p * 2 + k) * n + c" and "p < rows div 2" "c < n" "k < 2"
      by (auto simp: layout_order_def)
    then have "Suc (p * 2 + k) \<le> rows" by linarith
    from mult_le_mono1 [OF this, of n] show "i \<in> {0..<rows * n}" using i \<open>c < n\<close> by simp
  qed
  show "{0..<rows * n} \<subseteq> set (layout_order rows n)"
  proof
    fix i assume "i \<in> {0..<rows * n}"
    then have i: "i < rows * n" by simp
    then have n: "0 < n" by (cases n) auto
    let ?r = "i div n"
    have r: "?r < rows" using i by (simp add: less_mult_imp_div_less)
    have "?r div 2 < rows div 2" using r assms by (auto elim!: evenE simp: less_mult_imp_div_less mult.commute)
    moreover have "i = (?r div 2 * 2 + ?r mod 2) * n + i mod n" by simp
    moreover have "i mod n < n" "?r mod 2 < 2" using n by simp_all
    ultimately show "i \<in> set (layout_order rows n)"
      unfolding layout_order_def by (simp only: set_concat set_map set_upt UN_iff image_iff bex_simps) (metis atLeastLessThan_iff zero_le)
  qed
qed

lemma length_layout_order: "even rows \<Longrightarrow> length (layout_order rows n) = rows * n"
  by (auto elim!: evenE simp: layout_order_def length_concat comp_def sum_list_triv)

lemma mset_layout_order:
  assumes "even rows"
  shows "mset (layout_order rows n) = mset [0..<rows * n]"
proof -
  have "distinct (layout_order rows n)"
    by (rule card_distinct) (simp add: set_layout_order [OF assms] length_layout_order [OF assms])
  then show ?thesis by (intro set_eq_iff_mset_eq_distinct [THEN iffD1]) (simp_all add: set_layout_order [OF assms])
qed

lemma length_layout_body: "length (layout_body h w rows n) = rows * n"
  by (simp add: layout_body_def length_concat comp_def sum_list_triv)

text \<open>The cells in reading order are the cells of the body.\<close>

lemma mset_layout_cells:
  "even rows \<Longrightarrow> mset (map ((!) (layout_body h w rows n)) (layout_order rows n)) = mset (layout_body h w rows n)"
proof -
  assume "even rows"
  then have "mset (map ((!) (layout_body h w rows n)) (layout_order rows n)) =
      mset (map ((!) (layout_body h w rows n)) [0..<length (layout_body h w rows n)])"
    by (simp add: mset_layout_order length_layout_body del: mset_upt)
  then show ?thesis by (simp only: map_nth)
qed

lemma mset_map_filter: "mset (List.map_filter f xs) = image_mset (the \<circ> f) (filter_mset (\<lambda>x. f x \<noteq> None) (mset xs))"
  by (simp add: List.map_filter_def)

lemma map_filter_append: "List.map_filter f (xs @ ys) = List.map_filter f xs @ List.map_filter f ys"
  by (simp add: List.map_filter_def)

lemma body_row_images:
  "List.map_filter snd (map (body_cell h w row) [0..<n]) = (if row < h then map (\<lambda>c. row * w + c) [0..<min n w] else [])"
  by (induction n) (auto simp: map_filter_append body_cell_def List.map_filter_def min_def not_less_eq_eq dest: le_antisym)

text \<open>Read in its own order the body holds the image rows \<open>0, 1, \<dots>\<close>.\<close>

lemma layout_body_images: "List.map_filter snd (layout_body h w rows (Suc w)) = [0..<min rows h * w]"
proof (induction rows)
  case 0
  then show ?case by (simp add: layout_body_def List.map_filter_def)
next
  case (Suc rows)
  have "layout_body h w (Suc rows) (Suc w) = layout_body h w rows (Suc w) @ map (body_cell h w rows) [0..<Suc w]"
    by (simp add: layout_body_def)
  moreover have "map (\<lambda>c. rows * w + c) [0..<w] = [rows * w..<rows * w + w]"
    by (simp add: map_add_upt add.commute)
  moreover have "[0..<rows * w] @ [rows * w..<rows * w + w] = [0..<rows * w + w]"
    using upt_add_eq_append [of 0 "rows * w" w] by simp
  ultimately show ?case using Suc
    by (auto simp: map_filter_append body_row_images min_def add.commute not_less_eq_eq dest: le_antisym simp del: upt_Suc)
qed

lemma body_cell_token: "fst (body_cell h w row c) = IMAGE \<longleftrightarrow> snd (body_cell h w row c) \<noteq> None"
  "fst (body_cell h w row c) \<in> {IMAGE, IMAGE_NEWLINE, IMAGE_PAD}"
  by (auto simp: body_cell_def)

lemma layout_body_cells:
  "x \<in> set (layout_body h w rows n) \<Longrightarrow> (fst x = IMAGE \<longleftrightarrow> snd x \<noteq> None) \<and> fst x \<in> {IMAGE, IMAGE_NEWLINE, IMAGE_PAD}"
  by (auto simp: layout_body_def body_cell_def split: if_splits)

section \<open>The layout in exact arithmetic\<close>

definition pad_front :: "nat \<Rightarrow> nat" where "pad_front start = 3 - start mod 4"

definition pad_rows :: "nat \<Rightarrow> nat" where "pad_rows h = h + h mod 2"

definition pad_back :: "nat \<Rightarrow> nat \<Rightarrow> nat" where "pad_back h w = (pad_rows h div 2 * (w + 1)) mod 2 * 2"

definition layout_cells :: "nat \<Rightarrow> nat \<Rightarrow> (image_token \<times> nat option) list" where
  "layout_cells h w = map ((!) (layout_body h w (pad_rows h) (w + 1))) (layout_order (pad_rows h) (w + 1))"

definition layout_length :: "nat \<Rightarrow> nat \<Rightarrow> nat \<Rightarrow> nat" where
  "layout_length h w start = pad_front start + 1 + pad_rows h * (w + 1) + pad_back h w + 1"

definition layout_exact :: "nat \<Rightarrow> nat \<Rightarrow> nat \<Rightarrow> image_layout" where
  "layout_exact h w start =
     \<lparr>il_types = replicate (pad_front start) IMAGE_PAD @ [IMAGE_START] @ map fst (layout_cells h w) @
        replicate (pad_back h w) IMAGE_PAD @ [IMAGE_END],
      il_perm = List.map_filter snd (layout_cells h w)\<rparr>"

lemma even_pad_rows [simp]: "even (pad_rows h)"
  by (auto simp: pad_rows_def)

lemma mset_cells: "mset (layout_cells h w) = mset (layout_body h w (pad_rows h) (Suc w))"
  unfolding layout_cells_def using mset_layout_cells [OF even_pad_rows] by simp

lemma length_cells [simp]: "length (layout_cells h w) = pad_rows h * Suc w"
  by (simp add: layout_cells_def length_layout_order)

lemma mset_perm: "mset (il_perm (layout_exact h w start)) = mset [0..<h * w]"
proof -
  have "mset (il_perm (layout_exact h w start)) = mset (List.map_filter snd (layout_body h w (pad_rows h) (Suc w)))"
    by (simp add: layout_exact_def mset_map_filter mset_cells)
  also have "min (pad_rows h) h = h" by (simp add: pad_rows_def)
  then have "List.map_filter snd (layout_body h w (pad_rows h) (Suc w)) = [0..<h * w]"
    by (simp only: layout_body_images)
  finally show ?thesis .
qed

lemma length_perm [simp]: "length (il_perm (layout_exact h w start)) = h * w"
  using mset_perm [THEN arg_cong [where f = size]] by simp

lemma length_types [simp]: "length (il_types (layout_exact h w start)) = layout_length h w start"
  by (simp add: layout_exact_def layout_length_def)

lemma cells_tokens: "x \<in> set (layout_cells h w) \<Longrightarrow>
    (fst x = IMAGE \<longleftrightarrow> snd x \<noteq> None) \<and> fst x \<in> {IMAGE, IMAGE_NEWLINE, IMAGE_PAD}"
  using layout_body_cells mset_eq_setD [OF mset_cells] by blast

text \<open>As many image tokens as image rows.\<close>

lemma count_image_types: "length (filter (\<lambda>t. t = IMAGE) (il_types (layout_exact h w start))) = h * w"
proof -
  have "filter (\<lambda>x. fst x = IMAGE) (layout_cells h w) = filter (\<lambda>x. snd x \<noteq> None) (layout_cells h w)"
    using cells_tokens by (intro filter_cong) auto
  moreover have "length (filter (\<lambda>x. snd x \<noteq> None) (layout_cells h w)) = h * w"
    using length_perm [of h w start] by (simp add: layout_exact_def List.map_filter_def)
  ultimately show ?thesis by (simp add: layout_exact_def filter_map comp_def filter_replicate)
qed

lemma layout_order_empty [simp]: "layout_order 0 n = []" "layout_order rows 0 = []"
  by (simp_all add: layout_order_def)

lemma unat_and_one: "unat (x AND 1 :: u32) = unat x mod 2"
  by (simp add: and_one_eq unat_mod)

lemma layout_words:
  fixes gh gw sp :: u32
  shows "unat (3 - sp mod 4) = pad_front (unat sp)"
    and "unat (gh + (gh AND 1)) = (if unat gh = 2 ^ 32 - 1 then 0 else pad_rows (unat gh))"
    and "unat (gw + 1) = (if unat gw = 2 ^ 32 - 1 then 0 else unat gw + 1)"
proof -
  have "unat (sp mod 4) = unat sp mod 4" by (simp add: unat_mod)
  then have "sp mod 4 \<le> 3" by (simp add: word_le_nat_alt)
  then show "unat (3 - sp mod 4) = pad_front (unat sp)" by (simp add: unat_sub unat_mod pad_front_def)
  have gh: "unat gh < 2 ^ 32" and gw: "unat gw < 2 ^ 32" using unsigned_less [of gh] unsigned_less [of gw] by simp_all
  have "unat gh + unat gh mod 2 < 2 ^ 32" if "unat gh \<noteq> 2 ^ 32 - 1" using gh that by presburger
  then show "unat (gh + (gh AND 1)) = (if unat gh = 2 ^ 32 - 1 then 0 else pad_rows (unat gh))"
    by (simp add: unat_word_ariths(1) unat_and_one pad_rows_def)
  show "unat (gw + 1) = (if unat gw = 2 ^ 32 - 1 then 0 else unat gw + 1)"
    using gw by (simp add: unat_word_ariths(1))
qed

lemma layout_pad_back:
  fixes rows row_length :: u32
  shows "unat ((((rows div 2) * row_length) AND 1) * 2) = (unat rows div 2 * unat row_length) mod 2 * 2"
proof -
  have "unat rows < 2 ^ 32" using unsigned_less [of rows] by simp
  then have "unat rows div 2 mod 2 ^ 32 = unat rows div 2" by simp
  then show ?thesis by (simp add: unat_word_ariths unat_and_one unat_div mod_mod_cancel)
qed

text \<open>The machine arithmetic of the builder is exact: sides so large that it wraps are refused all the same.\<close>

lemma layout_build_exact:
  "ds4_deepseek4_image_layout_build gh gw sp =
    (if gh = 0 \<or> gw = 0 \<or> 384 < layout_length (unat gh) (unat gw) (unat sp) then None
     else Some (layout_exact (unat gh) (unat gw) (unat sp)))"
proof (cases "gh = 0 \<or> gw = 0")
  case True
  then show ?thesis by (auto simp: ds4_deepseek4_image_layout_build_def)
next
  case False
  then have pos: "0 < unat gh" "0 < unat gw" by (simp_all add: unat_gt_0)
  have big: "unat gh * (unat gw + 1) \<le> layout_length (unat gh) (unat gw) (unat sp)"
    by (simp add: layout_length_def pad_rows_def add_mult_distrib)
  show ?thesis
  proof (cases "unat gh = 2 ^ 32 - 1 \<or> unat gw = 2 ^ 32 - 1")
    case True
    have "2 ^ 32 - 1 \<le> unat gh * (unat gw + 1)"
      using True pos mult_le_mono [of 1 "unat gh" "2 ^ 32" "unat gw + 1"] mult_le_mono [of "2 ^ 32 - 1" "unat gh" 1 "unat gw + 1"]
      by auto
    with big have "384 < layout_length (unat gh) (unat gw) (unat sp)" by simp
    with False pos True show ?thesis
      by (auto simp: ds4_deepseek4_image_layout_build_def Let_def layout_words List.map_filter_def)
  next
    case nowrap: False
    let ?h = "unat gh" and ?w = "unat gw" and ?s = "unat sp"
    have rows: "unat (gh + (gh AND 1)) = pad_rows ?h" and len: "unat (gw + 1) = ?w + 1"
      using nowrap by (simp_all add: layout_words)
    have bck: "unat (((((gh + (gh AND 1)) div 2) * (gw + 1)) AND 1) * 2) = pad_back ?h ?w"
      by (simp only: layout_pad_back rows len pad_back_def)
    have "?h * ?w \<le> ?h * (?w + 1)" by simp
    with big have img: "384 < layout_length ?h ?w ?s \<or> ?h * ?w < 2 ^ 32" by (cases "384 < layout_length ?h ?w ?s") auto
    note perm = length_perm [of ?h ?w ?s, unfolded layout_exact_def, simplified]
    show ?thesis using False img perm
      by (auto simp: length_layout_order ds4_deepseek4_image_layout_build_def Let_def rows len bck layout_words(1) layout_exact_def
          layout_cells_def layout_length_def)
  qed
qed

section \<open>Layouts in a prompt\<close>

lemma layout_is_block:
  assumes "set mid \<subseteq> {IMAGE, IMAGE_NEWLINE, IMAGE_PAD}"
  shows "image_block v (pre @ image_tokens v (replicate k IMAGE_PAD @ [IMAGE_START] @ mid @ [IMAGE_END]) @ post)
    (length pre) (length pre + k) (length pre + k + length mid + 1)"
proof -
  let ?ts = "pre @ image_tokens v (replicate k IMAGE_PAD @ [IMAGE_START] @ mid @ [IMAGE_END]) @ post"
  have m: "int v < image_tokens v mid ! j \<and> image_tokens v mid ! j < int v + 4" if "j < length mid" for j
  proof -
    have "mid ! j \<in> {IMAGE, IMAGE_NEWLINE, IMAGE_PAD}" using assms nth_mem [OF that] by blast
    then show ?thesis using that by (auto simp: image_tokens_def)
  qed
  then have "int v < ?ts ! i \<and> ?ts ! i < int v + 4" if "length pre + k < i" "i < length pre + k + length mid + 1" for i
  proof -
    have "i - Suc (length pre + k) < length mid" using that by linarith
    with that(1) m show ?thesis by (simp add: image_tokens_def nth_append nth_Cons')
  qed
  then show ?thesis by (auto simp: image_block_def image_tokens_def nth_append)
qed

lemma layout_length_mult: "(pad_rows h * (w + 1) + pad_back h w) mod 4 = 0"
proof -
  obtain a where a: "pad_rows h = 2 * a" using even_pad_rows [of h] by (rule evenE)
  have "(2 * n + n mod 2 * 2) mod 4 = 0" for n :: nat by presburger
  from this [of "a * (w + 1)"] show ?thesis by (simp add: a pad_back_def mult.assoc)
qed

lemma layout_tokens_block:
  "image_block v (pre @ image_tokens v (il_types (layout_exact h w start)) @ post)
    (length pre) (length pre + pad_front start) (length pre + layout_length h w start - 1)"
proof -
  let ?mid = "map fst (layout_cells h w) @ replicate (pad_back h w) IMAGE_PAD"
  have "set ?mid \<subseteq> {IMAGE, IMAGE_NEWLINE, IMAGE_PAD}" using cells_tokens by fastforce
  from layout_is_block [OF this, of v pre "pad_front start" post] show ?thesis
    by (simp add: layout_exact_def layout_length_def add.assoc)
qed

lemma pad_front_aligned: "(start + pad_front start) mod 4 = 3"
proof -
  have "(start + pad_front start) mod 4 = (start mod 4 + (3 - start mod 4)) mod 4"
    unfolding pad_front_def by (rule mod_add_left_eq [symmetric])
  also have "start mod 4 < 4" by simp
  then have "start mod 4 + (3 - start mod 4) = 3" by linarith
  finally show ?thesis by simp
qed


definition demo_layout :: image_layout where
  "demo_layout = \<lparr>il_types = [IMAGE_PAD, IMAGE_PAD, IMAGE_START, IMAGE, IMAGE, IMAGE, IMAGE, IMAGE_NEWLINE,
     IMAGE_NEWLINE, IMAGE, IMAGE_PAD, IMAGE, IMAGE_PAD, IMAGE_NEWLINE, IMAGE_PAD, IMAGE_END], il_perm = [0, 2, 1, 3, 4, 5]\<rparr>"

lemma demo_layout_built: "ds4_deepseek4_image_layout_build 3 2 (of_nat (length [7 :: int])) = Some demo_layout"
  by (simp add: layout_build_exact layout_length_def pad_front_def pad_back_def pad_rows_def layout_exact_def demo_layout_def
      layout_cells_def) code_simp


text \<open>The builder of a V4 picture is total and exact: it accepts just the non-empty grids whose padded layout
  has at most 384 tokens, also when the sides are so large that its 32-bit arithmetic wraps, and then the image
  rows are a permutation of the cells of the grid, so that none is lost or used twice.\<close>

theorem layout_build_iff:
  "(\<exists>l. ds4_deepseek4_image_layout_build gh gw start = Some l) =
    (gh \<noteq> 0 \<and> gw \<noteq> 0 \<and> layout_length (unat gh) (unat gw) (unat start) \<le> 384) \<and>
   (\<forall>l \<in> set_option (ds4_deepseek4_image_layout_build gh gw start).
      mset (il_perm l) = mset [0..<unat gh * unat gw] \<and>
      length (il_types l) = layout_length (unat gh) (unat gw) (unat start))"
  by (auto simp: layout_build_exact mset_perm not_less simp del: mset_upt)

theorem layout_build_witness:
  "mset (il_perm demo_layout) = mset [0..<6] \<and> length (il_types demo_layout) = 16"
  using layout_build_iff [of 3 2 1] demo_layout_built by (simp add: layout_length_def pad_front_def pad_back_def pad_rows_def)

end
