(* ===== verification/Image_Fit.thy ===== *)
theory Image_Fit
  imports Image_Layout
begin

text \<open>
  The size a picture is scaled to (\<open>ds4_deepseek4_safe_resize\<close>): shrink until the token grid fits the budget.
  The floating-point choice of one candidate size is the parameter \<open>solve\<close>.
\<close>

text \<open>The number of tokens, and the grid, of a picture of this many pixels.\<close>

definition ds4_deepseek4_grid_tokens :: "u32 \<Rightarrow> u32 \<Rightarrow> bool \<Rightarrow> u32 \<times> u32 \<times> u32" where
  "ds4_deepseek4_grid_tokens height width v41 =
     (let h = (height div 14 + 2) div 3;
          w = (width div 14 + 2) div 3;
          count = unat h * unat (w + 1) + 2;
          count = (if v41 then count
                   else let count = (if h AND 1 \<noteq> 0 then count + unat (w + 1) else count)
                        in if (((h + 1) div 2) * (w + 1)) AND 1 \<noteq> 0 then count + 2 else count)
      in (if count \<le> 2 ^ 32 - 1 then of_nat count else - 1, h, w))"

text \<open>The shrinking loop; \<open>budget\<close> falls at every turn. The result is the size and its token grid.\<close>

fun safe_resize_loop ::
  "(nat \<Rightarrow> (u32 \<times> u32) option) \<Rightarrow> bool \<Rightarrow> u32 \<Rightarrow> nat \<Rightarrow> u32 \<times> u32 \<Rightarrow> ((u32 \<times> u32) \<times> (u32 \<times> u32)) option" where
  "safe_resize_loop solve v41 max_tokens budget best =
     (let (tokens, llm_height, llm_width) = ds4_deepseek4_grid_tokens (fst best) (snd best) v41
      in if tokens \<le> max_tokens then Some (best, (llm_height, llm_width))
         else if budget \<le> 4 then None
         else (case solve budget of
                 None \<Rightarrow> None
               | Some best \<Rightarrow> safe_resize_loop solve v41 max_tokens (budget - 1) best))"

declare safe_resize_loop.simps [simp del]

definition ds4_deepseek4_safe_resize ::
  "(nat \<Rightarrow> (u32 \<times> u32) option) \<Rightarrow> bool \<Rightarrow> u32 \<times> u32 \<Rightarrow> ((u32 \<times> u32) \<times> (u32 \<times> u32)) option" where
  "ds4_deepseek4_safe_resize solve v41 best =
     (let max_tokens = (if v41 then 1024 else 381)
      in safe_resize_loop solve v41 max_tokens (unat max_tokens) best)"

lemma safe_resize_loop_fits:
  "safe_resize_loop solve v41 m budget best = Some (best', (h, w)) \<Longrightarrow>
    fst (ds4_deepseek4_grid_tokens (fst best') (snd best') v41) \<le> m \<and>
    snd (ds4_deepseek4_grid_tokens (fst best') (snd best') v41) = (h, w)"
proof (induction solve v41 m budget best rule: safe_resize_loop.induct)
  case (1 solve v41 m budget best)
  then show ?case
    by (auto simp: safe_resize_loop.simps [of solve v41 m budget best] split: prod.splits if_splits option.splits)
qed

lemma grid_side: "unat ((n div 14 + 2) div 3 :: u32) = (unat n div 14 + 2) div 3"
  "unat ((n div 14 + 2) div 3 + 1 :: u32) = (unat n div 14 + 2) div 3 + 1"
proof -
  have "unat n < 2 ^ 32" using unsigned_less [of n] by simp
  then have "unat n div 14 + 2 < 2 ^ 32" "(unat n div 14 + 2) div 3 + 1 < 2 ^ 32" by simp_all
  then show "unat ((n div 14 + 2) div 3 :: u32) = (unat n div 14 + 2) div 3"
    "unat ((n div 14 + 2) div 3 + 1 :: u32) = (unat n div 14 + 2) div 3 + 1"
    by (simp_all add: unat_div unat_word_ariths)
qed

lemma grid_tokens_exact:
  assumes "ds4_deepseek4_grid_tokens height width False = (tokens, h, w)" and "tokens \<le> 381"
  shows "pad_rows (unat h) * (unat w + 1) + pad_back (unat h) (unat w) + 2 \<le> 381"
proof -
  have h: "h = (height div 14 + 2) div 3" and w: "w = (width div 14 + 2) div 3"
    using assms(1) by (auto simp: ds4_deepseek4_grid_tokens_def Let_def)
  have w1: "unat (w + 1) = unat w + 1" and h1: "unat (h + 1) = unat h + 1" by (simp_all add: h w grid_side)
  let ?count = "pad_rows (unat h) * (unat w + 1) + pad_back (unat h) (unat w) + 2"
  have p: "(h AND 1 \<noteq> 0) = odd (unat h)"
    by (metis unat_and_one unat_eq_zero even_iff_mod_2_eq_zero)
  have q: "((((h + 1) div 2) * (w + 1)) AND 1 \<noteq> 0) = odd ((unat h + 1) div 2 * (unat w + 1))"
  proof -
    have "unat ((((h + 1) div 2) * (w + 1)) AND 1) = (unat h + 1) div 2 * (unat w + 1) mod 2"
    proof -
      have "unat (h + 1) < 2 ^ 32" using unsigned_less [of "h + 1"] by simp
      then show ?thesis by (simp add: unat_and_one unat_word_ariths(2) unat_div mod_mod_cancel h1 w1)
    qed
    then show ?thesis by (metis unat_eq_zero even_iff_mod_2_eq_zero)
  qed
  have half: "pad_rows n div 2 = (n + 1) div 2" for n unfolding pad_rows_def by presburger
  let ?a = "if h AND 1 \<noteq> 0 then unat h * unat (w + 1) + 2 + unat (w + 1) else unat h * unat (w + 1) + 2"
  let ?code = "if (((h + 1) div 2) * (w + 1)) AND 1 \<noteq> 0 then ?a + 2 else ?a"
  have "?code = ?count"
  proof -
    have "n mod 2 * 2 = (if odd n then 2 else 0)" for n :: nat by (auto simp: odd_iff_mod_2_eq_one)
    then have "pad_back (unat h) (unat w) = (if odd ((unat h + 1) div 2 * (unat w + 1)) then 2 else 0)"
      unfolding pad_back_def half by simp
    moreover have "pad_rows (unat h) * (unat w + 1) = unat h * (unat w + 1) + (if odd (unat h) then unat w + 1 else 0)"
      by (auto simp: pad_rows_def odd_iff_mod_2_eq_one)
    ultimately show ?thesis unfolding p q w1 by (simp only: split: if_split) simp
  qed
  moreover have "(if ?code \<le> 2 ^ 32 - 1 then of_nat ?code else - 1) = tokens"
    using assms(1) unfolding ds4_deepseek4_grid_tokens_def Let_def h [symmetric] w [symmetric]
    by (simp only: prod.inject if_False)
  from this [symmetric] have "tokens = (if ?code \<le> 2 ^ 32 - 1 then of_nat ?code else - 1)" .
  ultimately have "tokens = (if ?count \<le> 2 ^ 32 - 1 then of_nat ?count else - 1)" by (simp only:)
  moreover have "\<not> (- 1 :: u32) \<le> 381" by (simp add: word_order.extremum_unique)
  ultimately have le: "?count \<le> 2 ^ 32 - 1" and "(of_nat ?count :: u32) \<le> 381" using assms(2) by (auto split: if_splits)
  moreover have "unat (of_nat n :: u32) = n" if "n \<le> 2 ^ 32 - 1" for n using that by (simp add: unat_of_nat)
  from this [OF le] have "unat (of_nat ?count :: u32) = ?count" .
  ultimately have "?count \<le> unat (381 :: u32)" unfolding word_le_nat_alt by simp
  then show ?thesis by simp
qed

text \<open>C20. A resized picture can always be placed. When the resizing loop ends with a size for DeepSeek V4, whatever
  candidate sizes the floating-point step proposed, and the size has at least one patch in each direction, then
  the layout of its token grid is accepted at every position of the prompt: the budget of 381 tokens leaves room
  for the three alignment pads of the 384 the layout allows.\<close>

theorem safe_resize_placed:
  assumes "ds4_deepseek4_safe_resize solve False best = Some ((bh, bw), (h, w))" and "14 \<le> bh" "14 \<le> bw"
  shows "\<exists>l. ds4_deepseek4_image_layout_build h w start = Some l"
proof -
  obtain tokens where t: "ds4_deepseek4_grid_tokens bh bw False = (tokens, h, w)" "tokens \<le> 381"
    using safe_resize_loop_fits [of solve False 381 381 best "(bh, bw)" h w] assms(1)
    by (cases "ds4_deepseek4_grid_tokens bh bw False") (auto simp: ds4_deepseek4_safe_resize_def)
  have "unat h = (unat bh div 14 + 2) div 3" "unat w = (unat bw div 14 + 2) div 3"
    using t(1) by (auto simp: ds4_deepseek4_grid_tokens_def Let_def grid_side)
  moreover have "1 \<le> unat bh div 14" "1 \<le> unat bw div 14"
    using assms(2,3) by (simp_all add: word_le_nat_alt Suc_le_eq div_greater_zero_iff)
  ultimately have "0 < unat h" "0 < unat w" by simp_all
  then have "h \<noteq> 0" "w \<noteq> 0" by auto
  moreover have "layout_length (unat h) (unat w) (unat start) \<le> 384"
    using grid_tokens_exact [OF t] by (simp add: layout_length_def pad_front_def)
  ultimately show ?thesis by (simp add: layout_build_exact)
qed

theorem safe_resize_witness:
  "ds4_deepseek4_safe_resize (\<lambda>_. Some (420, 840)) False (1400, 2800) = Some ((420, 840), (10, 20)) \<and>
   (\<exists>l. ds4_deepseek4_image_layout_build 10 20 7 = Some l)"
proof -
  have r: "ds4_deepseek4_safe_resize (\<lambda>_. Some (420, 840)) False (1400, 2800) = Some ((420, 840), (10, 20))"
    by (simp add: ds4_deepseek4_safe_resize_def safe_resize_loop.simps [of _ _ _ _ "(1400, 2800)"]
        safe_resize_loop.simps [of _ _ _ _ "(420, 840)"] ds4_deepseek4_grid_tokens_def Let_def)
  with safe_resize_placed [OF r, of 7] show ?thesis by simp
qed

end
