(* ===== verification/Image_Attention.thy ===== *)
theory Image_Attention
  imports Image_Spans
begin

text \<open>
  Which cached keys a query row may look at (\<open>ds4_deepseek4_attention_bounds\<close>): causal for text, the whole
  picture for the rows of a picture, and never outside the raw cache.
\<close>

lemma foldl_update_nth:
  "b \<le> length xs \<Longrightarrow> length (foldl (\<lambda>xs q. xs[q := g q]) xs [a..<b]) = length xs \<and>
    (\<forall>i < length xs. foldl (\<lambda>xs q. xs[q := g q]) xs [a..<b] ! i = (if a \<le> i \<and> i < b then g i else xs ! i))"
proof (induction b)
  case (Suc b)
  then show ?case by (cases "a \<le> b") (auto simp: nth_list_update less_Suc_eq)
qed simp

text \<open>What the loop over the blocks leaves in the table.\<close>

definition bounds_filled ::
  "nat \<Rightarrow> int list \<Rightarrow> (nat \<Rightarrow> nat \<Rightarrow> nat \<Rightarrow> nat \<times> nat) \<Rightarrow> nat \<Rightarrow> (nat \<times> nat) list \<Rightarrow> (nat \<times> nat) list \<Rightarrow> bool" where
  "bounds_filled v tokens f c xs ys \<longleftrightarrow>
     length ys = length tokens \<and> (\<forall>q < c. ys ! q = xs ! q) \<and>
     (\<forall>b s e q. image_block v tokens b s e \<and> c \<le> b \<and> s \<le> q \<and> q \<le> e \<longrightarrow> ys ! q = f s e q) \<and>
     (\<forall>q < length tokens. c \<le> q \<and> (\<forall>b s e. image_block v tokens b s e \<and> c \<le> b \<longrightarrow> \<not> (s \<le> q \<and> q \<le> e)) \<longrightarrow>
        ys ! q = xs ! q)"

lemma bounds_filled_step:
  assumes f: "ds4_deepseek4_next_image_span tokens v c = Span_found b s e (e + 1)" and len: "length xs = length tokens"
    and xs: "\<And>i. i < length tokens \<Longrightarrow> zs ! i = (if s \<le> i \<and> i \<le> e then f s e i else xs ! i)"
    and IH: "bounds_filled v tokens f (e + 1) zs ys"
  shows "bounds_filled v tokens f c xs ys"
proof -
  note F = next_span_foundD [OF f]
  then have o: "c \<le> b" "b \<le> s" "s < e" "e < length tokens" by (auto simp: image_block_def)
  have low: "ys ! q = zs ! q" if "q \<le> e" for q using IH that by (simp add: bounds_filled_def)
  have k: "ys ! q = f s' e' q" if "image_block v tokens b' s' e'" "c \<le> b'" "s' \<le> q" "q \<le> e'" for b' s' e' q
    using image_block_after [OF f that(1,2)]
  proof
    assume "e < b'"
    then show ?thesis using IH that unfolding bounds_filled_def by (metis Suc_eq_plus1 Suc_leI)
  next
    assume "b \<le> b' \<and> s' = s \<and> e' = e"
    then show ?thesis using that low [of q] xs [of q] o by simp
  qed
  have n: "ys ! q = xs ! q" if q: "q < length tokens" "c \<le> q"
    and none: "\<And>b s e. image_block v tokens b s e \<Longrightarrow> c \<le> b \<Longrightarrow> \<not> (s \<le> q \<and> q \<le> e)" for q
  proof -
    have "\<not> (s \<le> q \<and> q \<le> e)" using F none [of b s e] by blast
    then have x: "zs ! q = xs ! q" using xs [OF q(1)] by auto
    show ?thesis
    proof (cases "q \<le> e")
      case False
      have "\<not> (s' \<le> q \<and> q \<le> e')" if "image_block v tokens b' s' e'" "e + 1 \<le> b'" for b' s' e'
        using none [OF that(1)] that(2) o by linarith
      with IH q(1) False show ?thesis by (auto simp: bounds_filled_def x)
    qed (use low x in simp)
  qed
  have l: "ys ! q = xs ! q" if "q < c" for q using low [of q] xs [of q] that o by simp
  have "length ys = length tokens" using IH by (simp add: bounds_filled_def)
  then show ?thesis unfolding bounds_filled_def by (intro conjI allI impI) (blast intro: k n l)+
qed

lemma bounds_loop_filled:
  "bounds_loop tokens v f c xs = Some ys \<Longrightarrow> length xs = length tokens \<Longrightarrow> bounds_filled v tokens f c xs ys"
proof (induction tokens v f c xs rule: bounds_loop.induct)
  case (1 tokens v f c xs)
  note L = "1.prems"(1) [unfolded bounds_loop.simps [of tokens v f c xs]]
  show ?case
  proof (cases "ds4_deepseek4_next_image_span tokens v c")
    case (Span_none n)
    have "\<not> image_block v tokens b s e" if "c \<le> b" for b s e
      using next_span_noneD [OF Span_none] that by (fastforce simp: image_block_def text_run_def)
    with L Span_none "1.prems"(2) show ?thesis by (auto simp: bounds_filled_def)
  next
    case (Span_found b s e c')
    note F = next_span_foundD [OF Span_found]
    then have o: "c' = e + 1" "e < length tokens" by (auto simp: image_block_def)
    define zs where "zs = foldl (\<lambda>bs q. bs[q := f s e q]) xs [s..<e + 1]"
    have len: "length zs = length tokens"
      and zs: "\<And>i. i < length tokens \<Longrightarrow> zs ! i = (if s \<le> i \<and> i \<le> e then f s e i else xs ! i)"
      using foldl_update_nth [of "e + 1" xs "f s e" s] o "1.prems"(2) by (simp_all add: zs_def less_Suc_eq_le)
    have "bounds_loop tokens v f (e + 1) zs = Some ys"
      using L unfolding Span_found span_scan.case zs_def o(1) .
    with "1.IH" [OF Span_found, folded zs_def] len o(1) have "bounds_filled v tokens f (e + 1) zs ys" by simp
    then show ?thesis using bounds_filled_step [of tokens v c b s e xs zs f ys] Span_found o(1) "1.prems"(2) zs by simp
  qed (use L in simp)
qed

section \<open>The two kinds of bounds\<close>

lemma text_bounds_range:
  "fst (text_bounds fr la window p) \<ge> fr" "snd (text_bounds fr la window p) \<le> la"
  "snd (text_bounds fr la window p) \<le> p"
  by (auto simp: text_bounds_def Let_def)

lemma image_bounds_range:
  "fst (image_bounds fr la window pos0 s e q) \<ge> fr" "snd (image_bounds fr la window pos0 s e q) \<le> la"
  "q \<le> e \<Longrightarrow> snd (image_bounds fr la window pos0 s e q) \<le> pos0 + e"
  by (auto simp: image_bounds_def Let_def)

lemma image_bounds_sees:
  assumes "s \<le> q" "q \<le> e" "s \<le> k" "k \<le> e" "e - s \<le> 383" "fr \<le> pos0 + k" "pos0 + k \<le> la"
  shows "fst (image_bounds fr la window pos0 s e q) \<le> pos0 + k" "pos0 + k \<le> snd (image_bounds fr la window pos0 s e q)"
  using assms by (auto simp: image_bounds_def Let_def)

text \<open>Attention bounds. For a table that is built, every row's range lies in the raw cache; a row outside every
  picture is causal; a row of a picture never sees beyond the end of its picture; and when the picture has at
  most 384 tokens, its rows see one another in both directions, for every window, as far as the cache holds them.\<close>

theorem attention_bounds_spec:
  assumes "ds4_deepseek4_attention_bounds tokens v pos0 n_raw window = Some bs"
  shows "length bs = length tokens \<and>
    (\<forall>q < length tokens. pos0 + length tokens - n_raw \<le> fst (bs ! q) \<and> snd (bs ! q) < pos0 + length tokens) \<and>
    (\<forall>q < length tokens. (\<forall>b s e. image_block v tokens b s e \<longrightarrow> \<not> (s \<le> q \<and> q \<le> e)) \<longrightarrow> snd (bs ! q) \<le> pos0 + q) \<and>
    (\<forall>b s e q. image_block v tokens b s e \<and> s \<le> q \<and> q \<le> e \<longrightarrow> snd (bs ! q) \<le> pos0 + e \<and>
      (e - s \<le> 383 \<longrightarrow> (\<forall>k. s \<le> k \<and> k \<le> e \<and> pos0 + length tokens - n_raw \<le> pos0 + k \<longrightarrow>
        fst (bs ! q) \<le> pos0 + k \<and> pos0 + k \<le> snd (bs ! q))))"
proof -
  define fr where "fr = pos0 + length tokens - n_raw"
  define la where "la = fr + n_raw - 1"
  define xs where "xs = map (\<lambda>q. text_bounds fr la window (pos0 + q)) [0..<length tokens]"
  have g: "length tokens \<noteq> 0" "n_raw \<le> pos0 + length tokens" "0 < n_raw"
    and loop: "bounds_loop tokens v (image_bounds fr la window pos0) 0 xs = Some bs"
    using assms by (auto simp: ds4_deepseek4_attention_bounds_def Let_def fr_def la_def xs_def split: if_splits)
  have la: "la = pos0 + length tokens - 1" using g by (simp add: la_def fr_def)
  have "bounds_filled v tokens (image_bounds fr la window pos0) 0 xs bs"
    using loop by (rule bounds_loop_filled) (simp add: xs_def)
  then have len: "length bs = length tokens"
    and img: "\<And>b s e q. image_block v tokens b s e \<Longrightarrow> s \<le> q \<Longrightarrow> q \<le> e \<Longrightarrow> bs ! q = image_bounds fr la window pos0 s e q"
    and tb: "\<And>q. q < length tokens \<Longrightarrow> (\<And>b s e. image_block v tokens b s e \<Longrightarrow> \<not> (s \<le> q \<and> q \<le> e)) \<Longrightarrow>
      bs ! q = text_bounds fr la window (pos0 + q)"
    unfolding bounds_filled_def by (blast, blast, simp add: xs_def)
  have range: "fr \<le> fst (bs ! q) \<and> snd (bs ! q) < pos0 + length tokens" if "q < length tokens" for q
  proof (cases "\<exists>b s e. image_block v tokens b s e \<and> s \<le> q \<and> q \<le> e")
    case True
    then obtain b s e where "bs ! q = image_bounds fr la window pos0 s e q" using img by blast
    then show ?thesis using image_bounds_range(1,2) [of fr la window pos0 s e q] la g by simp
  next
    case False
    then have "bs ! q = text_bounds fr la window (pos0 + q)" using tb [OF that] by blast
    then show ?thesis using text_bounds_range(1,2) [of fr la window "pos0 + q"] la g by simp
  qed
  have sees: "fst (bs ! q) \<le> pos0 + k \<and> pos0 + k \<le> snd (bs ! q)"
    if "image_block v tokens b s e" "s \<le> q" "q \<le> e" "e - s \<le> 383" "s \<le> k" "k \<le> e" "fr \<le> pos0 + k" for b s e q k
  proof -
    have "e < length tokens" using that(1) by (simp add: image_block_def)
    then have "pos0 + k \<le> la" using that la by simp
    with that image_bounds_sees [of s q e k fr pos0 la window] show ?thesis by (simp add: img [OF that(1-3)])
  qed
  have causal: "snd (bs ! q) \<le> pos0 + q"
    if "q < length tokens" "\<forall>b s e. image_block v tokens b s e \<longrightarrow> \<not> (s \<le> q \<and> q \<le> e)" for q
    using tb [OF that(1)] that(2) text_bounds_range(3) by simp
  have within: "snd (bs ! q) \<le> pos0 + e" if "image_block v tokens b s e" "s \<le> q" "q \<le> e" for b s e q
    using img [OF that] image_bounds_range(3) [OF that(3)] by simp
  show ?thesis unfolding fr_def [symmetric] using len range causal within sees by meson
qed

theorem attention_bounds_witness:
  "ds4_deepseek4_attention_bounds [7, 101, 100, 102, 102, 102, 102, 102, 104, 8] 100 10 20 4 =
     Some [(7, 10), (8, 11), (9, 18), (10, 18), (11, 18), (12, 18), (12, 18), (12, 18), (12, 18), (16, 19)] \<and>
   length ([(7, 10), (8, 11), (9, 18), (10, 18), (11, 18), (12, 18), (12, 18), (12, 18), (12, 18), (16, 19)] :: (nat \<times> nat) list) = 10"
proof -
  let ?ts = "[7, 101, 100, 102, 102, 102, 102, 102, 104, 8] :: int list"
  let ?xs = "map (\<lambda>q. text_bounds 0 19 4 (10 + q)) [0..<length ?ts]"
  have "bounds_loop ?ts 100 (image_bounds 0 19 4 10) 0 ?xs =
      Some [(7, 10), (8, 11), (9, 18), (10, 18), (11, 18), (12, 18), (12, 18), (12, 18), (12, 18), (16, 19)]"
    by code_simp
  then have "ds4_deepseek4_attention_bounds ?ts 100 10 20 4 =
      Some [(7, 10), (8, 11), (9, 18), (10, 18), (11, 18), (12, 18), (12, 18), (12, 18), (12, 18), (16, 19)]"
    by (simp add: ds4_deepseek4_attention_bounds_def Let_def)
  from attention_bounds_spec [OF this] this show ?thesis by simp
qed

end
