(* ===== verification/Tool_Memory.thy ===== *)
theory Tool_Memory
  imports Ds4_Prelude "HOL-Library.Monad_Syntax"
begin

text \<open>
  The memory of tool calls of the server (ds4_server.c): for every tool call id the exact text the model
  produced, with the least recently used ids dropped first. The C structures are a doubly linked list of
  entries, each also in the singly linked list of its text block, two radix trees and reference counts. The
  model keeps the pointers: entries and blocks live in two stores from addresses to records, \<open>free\<close> removes
  the record, and a dereference of an address that is not in its store is \<open>None\<close>. The radix trees (rax.c) are
  maps; allocation succeeds, and gives an address not used before. Strings are the bytes before the final NUL.
\<close>

datatype tool_memory_source = TOOL_MEMORY_RAM | TOOL_MEMORY_DISK

record tool_memory_block =
  tb_dsml :: "u8 list"
  tb_len :: nat
  tb_bytes :: nat
  tb_refs :: int
  tb_seen :: nat
  tb_entries :: "nat option"

record tool_memory_entry =
  te_id :: "u8 list"
  te_block :: nat
  te_bytes :: nat
  te_stamp :: nat
  te_source :: tool_memory_source
  te_prev :: "nat option"
  te_next :: "nat option"
  te_bnext :: "nat option"

record tool_memory =
  tm_by_id :: "u8 list \<rightharpoonup> nat"
  tm_by_block :: "u8 list \<rightharpoonup> nat"
  tm_head :: "nat option"
  tm_tail :: "nat option"
  tm_entries :: int
  tm_max_entries :: int
  tm_bytes :: nat
  tm_max_bytes :: nat
  tm_clock :: nat
  tm_scan_clock :: nat
  tm_ents :: "nat \<rightharpoonup> tool_memory_entry"
  tm_blocks :: "nat \<rightharpoonup> tool_memory_block"
  tm_fresh :: nat

text \<open>\<open>sizeof\<close> of the two structures on the LP64 platforms.\<close>

definition sizeof_block :: nat where "sizeof_block = 48"
definition sizeof_entry :: nat where "sizeof_entry = 64"

definition DS4_TOOL_MEMORY_DEFAULT_MAX_IDS :: int where "DS4_TOOL_MEMORY_DEFAULT_MAX_IDS = 100000"
definition DS4_TOOL_MEMORY_MAX_BYTES :: nat where "DS4_TOOL_MEMORY_MAX_BYTES = 512 * 1024 * 1024"

definition tool_memory_max_entries :: "tool_memory \<Rightarrow> int" where
  "tool_memory_max_entries m = (if 0 < tm_max_entries m then tm_max_entries m else DS4_TOOL_MEMORY_DEFAULT_MAX_IDS)"

definition tool_memory_max_bytes :: "tool_memory \<Rightarrow> nat" where
  "tool_memory_max_bytes m = (if 0 < tm_max_bytes m then tm_max_bytes m else DS4_TOOL_MEMORY_MAX_BYTES)"

text \<open>The zeroed structure, as \<open>tool_memory_free\<close> leaves it too.\<close>

definition tool_memory_zero :: "int \<Rightarrow> nat \<Rightarrow> nat \<Rightarrow> tool_memory" where
  "tool_memory_zero max_entries max_bytes fresh =
     \<lparr>tm_by_id = Map.empty, tm_by_block = Map.empty, tm_head = None, tm_tail = None, tm_entries = 0,
      tm_max_entries = max_entries, tm_bytes = 0, tm_max_bytes = max_bytes, tm_clock = 0, tm_scan_clock = 0,
      tm_ents = Map.empty, tm_blocks = Map.empty, tm_fresh = fresh\<rparr>"

section \<open>Stores\<close>

definition upd_ent :: "nat \<Rightarrow> (tool_memory_entry \<Rightarrow> tool_memory_entry) \<Rightarrow> tool_memory \<Rightarrow> tool_memory option" where
  "upd_ent a f m = do { e \<leftarrow> tm_ents m a; Some (m\<lparr>tm_ents := (tm_ents m)(a \<mapsto> f e)\<rparr>) }"

definition upd_block :: "nat \<Rightarrow> (tool_memory_block \<Rightarrow> tool_memory_block) \<Rightarrow> tool_memory \<Rightarrow> tool_memory option" where
  "upd_block b f m = do { bl \<leftarrow> tm_blocks m b; Some (m\<lparr>tm_blocks := (tm_blocks m)(b \<mapsto> f bl)\<rparr>) }"

definition free_ent :: "nat \<Rightarrow> tool_memory \<Rightarrow> tool_memory option" where
  "free_ent a m = do { e \<leftarrow> tm_ents m a; Some (m\<lparr>tm_ents := (tm_ents m)(a := None)\<rparr>) }"

definition free_block :: "nat \<Rightarrow> tool_memory \<Rightarrow> tool_memory option" where
  "free_block b m = do { bl \<leftarrow> tm_blocks m b; Some (m\<lparr>tm_blocks := (tm_blocks m)(b := None)\<rparr>) }"

section \<open>The list of entries\<close>

definition tool_memory_link_head :: "nat \<Rightarrow> tool_memory \<Rightarrow> tool_memory option" where
  "tool_memory_link_head e m =
     do {
       m \<leftarrow> upd_ent e (\<lambda>x. x\<lparr>te_prev := None, te_next := tm_head m\<rparr>) m;
       m \<leftarrow> (case tm_head m of
               Some h \<Rightarrow> upd_ent h (\<lambda>x. x\<lparr>te_prev := Some e\<rparr>) m
             | None \<Rightarrow> Some (m\<lparr>tm_tail := Some e\<rparr>));
       Some (m\<lparr>tm_head := Some e\<rparr>)
     }"

definition tool_memory_unlink :: "nat \<Rightarrow> tool_memory \<Rightarrow> tool_memory option" where
  "tool_memory_unlink e m =
     do {
       x \<leftarrow> tm_ents m e;
       m \<leftarrow> (case te_prev x of
               Some p \<Rightarrow> upd_ent p (\<lambda>y. y\<lparr>te_next := te_next x\<rparr>) m
             | None \<Rightarrow> Some (m\<lparr>tm_head := te_next x\<rparr>));
       x \<leftarrow> tm_ents m e;
       m \<leftarrow> (case te_next x of
               Some n \<Rightarrow> upd_ent n (\<lambda>y. y\<lparr>te_prev := te_prev x\<rparr>) m
             | None \<Rightarrow> Some (m\<lparr>tm_tail := te_prev x\<rparr>));
       upd_ent e (\<lambda>y. y\<lparr>te_prev := None, te_next := None\<rparr>) m
     }"

definition tool_memory_touch :: "nat \<Rightarrow> tool_memory \<Rightarrow> tool_memory option" where
  "tool_memory_touch e m =
     do {
       m \<leftarrow> Some (m\<lparr>tm_clock := tm_clock m + 1\<rparr>);
       m \<leftarrow> upd_ent e (\<lambda>x. x\<lparr>te_stamp := tm_clock m\<rparr>) m;
       if tm_head m = Some e then Some m
       else do { m \<leftarrow> tool_memory_unlink e m; tool_memory_link_head e m }
     }"

section \<open>Blocks\<close>

text \<open>The walk along the list of a block: \<open>p\<close> is the entry whose \<open>block_next\<close> is looked at.\<close>

partial_function (option) unlink_after :: "nat \<Rightarrow> nat \<Rightarrow> tool_memory \<Rightarrow> tool_memory option" where
  "unlink_after p e m =
     do {
       x \<leftarrow> tm_ents m p;
       (case te_bnext x of
          None \<Rightarrow> Some m
        | Some q \<Rightarrow>
            if q = e
            then do {
              y \<leftarrow> tm_ents m e;
              m \<leftarrow> upd_ent p (\<lambda>x. x\<lparr>te_bnext := te_bnext y\<rparr>) m;
              upd_ent e (\<lambda>y. y\<lparr>te_bnext := None\<rparr>) m
            }
            else unlink_after q e m)
     }"

definition tool_block_unlink_entry :: "nat \<Rightarrow> nat \<Rightarrow> tool_memory \<Rightarrow> tool_memory option" where
  "tool_block_unlink_entry b e m =
     do {
       bl \<leftarrow> tm_blocks m b;
       (case tb_entries bl of
          None \<Rightarrow> Some m
        | Some q \<Rightarrow>
            if q = e
            then do {
              y \<leftarrow> tm_ents m e;
              m \<leftarrow> upd_block b (\<lambda>bl. bl\<lparr>tb_entries := te_bnext y\<rparr>) m;
              upd_ent e (\<lambda>y. y\<lparr>te_bnext := None\<rparr>) m
            }
            else unlink_after q e m)
     }"

definition tool_memory_find_block_locked :: "tool_memory \<Rightarrow> u8 list \<Rightarrow> nat option" where
  "tool_memory_find_block_locked m dsml = (if dsml = [] then None else tm_by_block m dsml)"

definition tool_memory_get_block_locked :: "u8 list \<Rightarrow> tool_memory \<Rightarrow> nat \<times> tool_memory" where
  "tool_memory_get_block_locked dsml m =
     (case tool_memory_find_block_locked m dsml of
        Some b \<Rightarrow> (b, m)
      | None \<Rightarrow>
          let b = tm_fresh m;
              bl = \<lparr>tb_dsml = dsml, tb_len = length dsml, tb_bytes = length dsml + 1 + sizeof_block, tb_refs = 0,
                    tb_seen = 0, tb_entries = None\<rparr>
          in (b, m\<lparr>tm_fresh := b + 1, tm_blocks := (tm_blocks m)(b \<mapsto> bl),
                   tm_by_block := (tm_by_block m)(dsml \<mapsto> b), tm_bytes := tm_bytes m + tb_bytes bl\<rparr>))"

definition less_bytes :: "nat \<Rightarrow> tool_memory \<Rightarrow> tool_memory" where
  "less_bytes n m = (if n \<le> tm_bytes m then m\<lparr>tm_bytes := tm_bytes m - n\<rparr> else m\<lparr>tm_bytes := 0\<rparr>)"

definition tool_memory_release_block_locked :: "nat \<Rightarrow> tool_memory \<Rightarrow> tool_memory option" where
  "tool_memory_release_block_locked b m =
     do {
       m \<leftarrow> upd_block b (\<lambda>bl. bl\<lparr>tb_refs := tb_refs bl - 1\<rparr>) m;
       bl \<leftarrow> tm_blocks m b;
       if 0 < tb_refs bl then Some m
       else do {
         m \<leftarrow> Some (m\<lparr>tm_by_block := (tm_by_block m)(tb_dsml bl := None)\<rparr>);
         free_block b (less_bytes (tb_bytes bl) m)
       }
     }"

definition tool_memory_remove_entry_locked :: "nat \<Rightarrow> tool_memory \<Rightarrow> tool_memory option" where
  "tool_memory_remove_entry_locked e m =
     do {
       x \<leftarrow> tm_ents m e;
       m \<leftarrow> Some (m\<lparr>tm_by_id := (tm_by_id m)(te_id x := None)\<rparr>);
       m \<leftarrow> tool_memory_unlink e m;
       m \<leftarrow> tool_block_unlink_entry (te_block x) e m;
       m \<leftarrow> Some (less_bytes (te_bytes x) m);
       m \<leftarrow> Some (if 0 < tm_entries m then m\<lparr>tm_entries := tm_entries m - 1\<rparr> else m);
       m \<leftarrow> tool_memory_release_block_locked (te_block x) m;
       free_ent e m
     }"

partial_function (option) tool_memory_prune_locked :: "tool_memory \<Rightarrow> tool_memory option" where
  "tool_memory_prune_locked m =
     (if tool_memory_max_entries m < tm_entries m \<or> tool_memory_max_bytes m < tm_bytes m
      then (case tm_tail m of
              None \<Rightarrow> Some m
            | Some e \<Rightarrow> do { m \<leftarrow> tool_memory_remove_entry_locked e m; tool_memory_prune_locked m })
      else Some m)"

section \<open>Finding and storing\<close>

definition tool_memory_find_entry_locked :: "tool_memory \<Rightarrow> u8 list \<Rightarrow> nat option" where
  "tool_memory_find_entry_locked m id' = (if id' = [] then None else tm_by_id m id')"

text \<open>A new entry for a block, at the head of both lists.\<close>

definition tool_memory_insert :: "u8 list \<Rightarrow> nat \<Rightarrow> tool_memory_source \<Rightarrow> tool_memory \<Rightarrow> tool_memory option" where
  "tool_memory_insert id' b source m =
     do {
       bl \<leftarrow> tm_blocks m b;
       let e = tm_fresh m;
       let x = \<lparr>te_id = id', te_block = b, te_bytes = length id' + 1 + sizeof_entry, te_stamp = tm_clock m + 1,
                te_source = source, te_prev = None, te_next = None, te_bnext = tb_entries bl\<rparr>;
       m \<leftarrow> Some (m\<lparr>tm_fresh := e + 1, tm_clock := tm_clock m + 1, tm_ents := (tm_ents m)(e \<mapsto> x)\<rparr>);
       m \<leftarrow> upd_block b (\<lambda>bl. bl\<lparr>tb_entries := Some e, tb_refs := tb_refs bl + 1\<rparr>) m;
       m \<leftarrow> Some (m\<lparr>tm_by_id := (tm_by_id m)(id' \<mapsto> e)\<rparr>);
       m \<leftarrow> tool_memory_link_head e m;
       Some (m\<lparr>tm_entries := tm_entries m + 1, tm_bytes := tm_bytes m + te_bytes x\<rparr>)
     }"

text \<open>Does the entry hold this text already?\<close>

definition tool_memory_same :: "nat option \<Rightarrow> u8 list \<Rightarrow> tool_memory \<Rightarrow> bool option" where
  "tool_memory_same old dsml m =
     (case old of
        None \<Rightarrow> Some False
      | Some e \<Rightarrow> do {
          x \<leftarrow> tm_ents m e;
          bl \<leftarrow> tm_blocks m (te_block x);
          Some (tb_len bl = length dsml \<and> tb_dsml bl = dsml)
        })"

definition tool_memory_put_locked ::
  "u8 list \<Rightarrow> u8 list \<Rightarrow> tool_memory_source \<Rightarrow> tool_memory \<Rightarrow> tool_memory option" where
  "tool_memory_put_locked id' dsml source m =
     (if id' = [] \<or> dsml = [] then Some m
      else do {
        let old = tool_memory_find_entry_locked m id';
        same \<leftarrow> tool_memory_same old dsml m;
        if same
        then do {
          m \<leftarrow> (if source = TOOL_MEMORY_RAM then upd_ent (the old) (\<lambda>x. x\<lparr>te_source := TOOL_MEMORY_RAM\<rparr>) m
               else Some m);
          m \<leftarrow> tool_memory_touch (the old) m;
          tool_memory_prune_locked m
        }
        else do {
          m \<leftarrow> (case old of None \<Rightarrow> Some m | Some e \<Rightarrow> tool_memory_remove_entry_locked e m);
          (case tool_memory_get_block_locked dsml m of
             (b, m) \<Rightarrow> do { m \<leftarrow> tool_memory_insert id' b source m; tool_memory_prune_locked m })
        }
      })"

text \<open>The stored text of an id, its source and its block; the entry becomes the most recent one.\<close>

definition tool_memory_lookup_locked ::
  "u8 list \<Rightarrow> tool_memory \<Rightarrow> ((u8 list \<times> tool_memory_source \<times> nat) option \<times> tool_memory) option" where
  "tool_memory_lookup_locked id' m =
     (case tool_memory_find_entry_locked m id' of
        None \<Rightarrow> Some (None, m)
      | Some e \<Rightarrow> do {
          m \<leftarrow> tool_memory_touch e m;
          x \<leftarrow> tm_ents m e;
          bl \<leftarrow> tm_blocks m (te_block x);
          Some (Some (tb_dsml bl, te_source x, te_block x), m)
        })"

text \<open>\<open>tool_memory_free\<close>: entries are removed from the tail, then the structure is zeroed.\<close>

partial_function (option) free_entries :: "tool_memory \<Rightarrow> tool_memory option" where
  "free_entries m =
     (case tm_tail m of
        None \<Rightarrow> Some m
      | Some e \<Rightarrow> do { m \<leftarrow> tool_memory_remove_entry_locked e m; free_entries m })"

definition tool_memory_free :: "tool_memory \<Rightarrow> tool_memory option" where
  "tool_memory_free m = do { m \<leftarrow> free_entries m; Some (tool_memory_zero 0 0 (tm_fresh m)) }"

end
