(* ===== verification/Tool_Memory_Links.thy ===== *)
theory Tool_Memory_Links
  imports Tool_Memory
begin

text \<open>
  The two kinds of linked lists of the tool memory and what the pointer operations do to them: the doubly linked
  list of all entries, and the singly linked list of the entries of a block.
\<close>

section \<open>Fields of the entries\<close>

text \<open>One field of all live entries; a freed address has none.\<close>

definition fld :: "(tool_memory_entry \<Rightarrow> 'a) \<Rightarrow> tool_memory \<Rightarrow> nat \<Rightarrow> 'a option" where
  "fld f m a = map_option f (tm_ents m a)"

abbreviation links :: "tool_memory \<Rightarrow> nat \<Rightarrow> (nat option \<times> nat option) option" where
  "links \<equiv> fld (\<lambda>e. (te_prev e, te_next e))"

text \<open>Everything but the links of the doubly linked list and the clock.\<close>

definition unlinked :: "tool_memory_entry \<Rightarrow> tool_memory_entry" where
  "unlinked e = e\<lparr>te_prev := None, te_next := None, te_stamp := 0\<rparr>"

definition erase :: "tool_memory \<Rightarrow> tool_memory" where
  "erase m = m\<lparr>tm_head := None, tm_tail := None, tm_clock := 0, tm_ents := \<lambda>a. map_option unlinked (tm_ents m a)\<rparr>"

lemma erase_same:
  assumes "erase m' = erase m"
  shows "tm_by_id m' = tm_by_id m" "tm_by_block m' = tm_by_block m" "tm_entries m' = tm_entries m"
    "tm_max_entries m' = tm_max_entries m" "tm_bytes m' = tm_bytes m" "tm_max_bytes m' = tm_max_bytes m"
    "tm_blocks m' = tm_blocks m" "tm_fresh m' = tm_fresh m"
  using assms by (cases m; cases m'; simp add: erase_def)+

lemma erase_fld:
  assumes "erase m' = erase m" and "\<And>e. f (unlinked e) = f e"
  shows "fld f m' = fld f m"
proof
  fix a
  have "map_option unlinked (tm_ents m' a) = map_option unlinked (tm_ents m a)"
    using arg_cong [OF assms(1), of "\<lambda>m. tm_ents m a"] by (simp add: erase_def)
  from arg_cong [OF this, of "map_option f"] show "fld f m' a = fld f m a"
    by (simp add: fld_def option.map_comp comp_def assms(2))
qed

lemma erase_dom:
  assumes "erase m' = erase m"
  shows "dom (tm_ents m') = dom (tm_ents m)"
proof -
  have "(fld (\<lambda>_. ()) m' a \<noteq> None) = (fld (\<lambda>_. ()) m a \<noteq> None)" for a
    using erase_fld [OF assms, of "\<lambda>_. ()"] by simp
  then show ?thesis by (auto simp: fld_def)
qed

lemma upd_ent_Some: "upd_ent a f m = Some m' \<longleftrightarrow> (\<exists>e. tm_ents m a = Some e \<and> m' = m\<lparr>tm_ents := (tm_ents m)(a \<mapsto> f e)\<rparr>)"
  by (auto simp: upd_ent_def split: bind_splits)

lemma fld_Some: "fld f m a = Some v \<longleftrightarrow> (\<exists>e. tm_ents m a = Some e \<and> f e = v)"
  by (auto simp: fld_def)

lemma fld_upd:
  "tm_ents m a = Some e \<Longrightarrow> fld f (m\<lparr>tm_ents := (tm_ents m)(a \<mapsto> e')\<rparr>) = (fld f m)(a \<mapsto> f e')"
  by (simp add: fld_def fun_eq_iff)

lemma fld_frame [simp]:
  "fld f (m\<lparr>tm_head := h\<rparr>) = fld f m" "fld f (m\<lparr>tm_tail := h\<rparr>) = fld f m" "fld f (m\<lparr>tm_clock := c\<rparr>) = fld f m"
  "fld f (m\<lparr>tm_by_id := i\<rparr>) = fld f m" "fld f (m\<lparr>tm_by_block := k\<rparr>) = fld f m" "fld f (m\<lparr>tm_entries := n\<rparr>) = fld f m"
  "fld f (m\<lparr>tm_bytes := b\<rparr>) = fld f m" "fld f (m\<lparr>tm_blocks := bl\<rparr>) = fld f m" "fld f (m\<lparr>tm_fresh := b\<rparr>) = fld f m"
  by (simp_all add: fld_def fun_eq_iff)

lemma erase_frame [simp]:
  "erase (m\<lparr>tm_head := h\<rparr>) = erase m" "erase (m\<lparr>tm_tail := h\<rparr>) = erase m" "erase (m\<lparr>tm_clock := c\<rparr>) = erase m"
  by (simp_all add: erase_def)

lemma erase_upd:
  "tm_ents m a = Some e \<Longrightarrow> unlinked e' = unlinked e \<Longrightarrow> erase (m\<lparr>tm_ents := (tm_ents m)(a \<mapsto> e')\<rparr>) = erase m"
  by (simp add: erase_def fun_eq_iff)

section \<open>Doubly linked lists\<close>

text \<open>The entries \<open>as\<close> between the entry \<open>p\<close> before them and \<open>q\<close> behind them.\<close>

definition first :: "nat list \<Rightarrow> nat option \<Rightarrow> nat option" where
  "first as q = (case as of [] \<Rightarrow> q | a # _ \<Rightarrow> Some a)"

definition final :: "nat option \<Rightarrow> nat list \<Rightarrow> nat option" where
  "final p as = (if as = [] then p else Some (List.last as))"

lemma first_simps [simp]: "first [] q = q" "first (a # as) q = Some a"
  by (simp_all add: first_def)

lemma final_simps [simp]: "final p [] = p" "final p (a # as) = final (Some a) as"
  by (simp_all add: final_def)

lemma first_append: "first (xs @ ys) q = first xs (first ys q)"
  by (cases xs) simp_all

lemma final_append: "final p (xs @ ys) = final (final p xs) ys"
  by (induction xs arbitrary: p) simp_all

fun seg :: "(nat \<Rightarrow> (nat option \<times> nat option) option) \<Rightarrow> nat option \<Rightarrow> nat list \<Rightarrow> nat option \<Rightarrow> bool" where
  "seg L p [] q \<longleftrightarrow> True"
| "seg L p (a # as) q \<longleftrightarrow> L a = Some (p, first as q) \<and> seg L (Some a) as q"

lemma seg_append: "seg L p (xs @ ys) q \<longleftrightarrow> seg L p xs (first ys q) \<and> seg L (final p xs) ys q"
  by (induction xs arbitrary: p) (auto simp: first_append)

lemma seg_upd [simp]: "a \<notin> set as \<Longrightarrow> seg (L(a := v)) p as q = seg L p as q"
  by (induction as arbitrary: p) auto

lemma seg_live: "seg L p as q \<Longrightarrow> a \<in> set as \<Longrightarrow> L a \<noteq> None"
  by (induction as arbitrary: p) auto

text \<open>Changing what comes before or behind.\<close>

lemma seg_retarget_first: "seg L p (a # as) q \<Longrightarrow> a \<notin> set as \<Longrightarrow> seg (L(a \<mapsto> (p', first as q))) p' (a # as) q"
  by simp

lemma seg_retarget_last:
  "seg L p (xs @ [a]) q \<Longrightarrow> a \<notin> set xs \<Longrightarrow> seg (L(a \<mapsto> (final p xs, q'))) p (xs @ [a]) q'"
  by (auto simp: seg_append)

definition dll :: "tool_memory \<Rightarrow> nat list \<Rightarrow> bool" where
  "dll m as \<longleftrightarrow> distinct as \<and> seg (links m) None as None \<and> tm_head m = first as None \<and> tm_tail m = final None as"

lemma links_upd:
  assumes "tm_ents m a = Some e"
  shows "links (m\<lparr>tm_ents := (tm_ents m)(a \<mapsto> e')\<rparr>) = (links m)(a \<mapsto> (te_prev e', te_next e'))"
  by (rule fld_upd [OF assms])

lemma upd_ent_eq: "tm_ents m a = Some e \<Longrightarrow> upd_ent a f m = Some (m\<lparr>tm_ents := (tm_ents m)(a \<mapsto> f e)\<rparr>)"
  by (simp add: upd_ent_def)

text \<open>Unlinking an entry from the middle, in terms of the links alone.\<close>

definition splice :: "nat option \<Rightarrow> nat option \<Rightarrow> (nat \<Rightarrow> (nat option \<times> nat option) option) \<Rightarrow>
    nat \<Rightarrow> (nat option \<times> nat option) option" where
  "splice p q L =
     (let L = (case p of None \<Rightarrow> L | Some a \<Rightarrow> L(a := map_option (\<lambda>(u, v). (u, q)) (L a)))
      in case q of None \<Rightarrow> L | Some b \<Rightarrow> L(b := map_option (\<lambda>(u, v). (p, v)) (L b)))"

lemma seg_first_prev: "seg L p as q \<Longrightarrow> distinct as \<Longrightarrow>
    seg (case as of [] \<Rightarrow> L | a # _ \<Rightarrow> L(a := map_option (\<lambda>(u, v). (p', v)) (L a))) p' as q"
  by (cases as) auto

lemma seg_final_next: "seg L p as q \<Longrightarrow> distinct as \<Longrightarrow>
    seg (if as = [] then L else L(List.last as := map_option (\<lambda>(u, v). (u, q')) (L (List.last as)))) p as q'"
  by (cases as rule: rev_cases) (auto simp: seg_append)

lemma seg_splice:
  assumes "seg L None (xs @ e # ys) None" and d: "distinct (xs @ e # ys)"
  shows "seg (splice (final None xs) (first ys None) L) None (xs @ ys) None"
proof -
  have xs: "seg L None xs (Some e)" and ys: "seg L (Some e) ys None"
    using assms(1) by (auto simp: seg_append)
  let ?L = "if xs = [] then L else L(List.last xs := map_option (\<lambda>(u, v). (u, first ys None)) (L (List.last xs)))"
  have 1: "seg ?L None xs (first ys None)" using seg_final_next [OF xs] d by simp
  have lx: "List.last xs \<notin> set ys" if "xs \<noteq> []" using d last_in_set [OF that] by auto
  then have "seg ?L (Some e) ys None" using ys by (cases "xs = []") auto
  from seg_first_prev [OF this, of "final None xs"]
  have 2: "seg (splice (final None xs) (first ys None) L) (final None xs) ys None"
    using d by (cases ys; cases "xs = []") (auto simp: splice_def final_def first_def Let_def)
  have "y \<notin> set xs" if "first ys None = Some y" for y using d that by (cases ys) auto
  with 1 have "seg (splice (final None xs) (first ys None) L) None xs (first ys None)"
    by (cases "xs = []"; cases "first ys None") (auto simp: splice_def final_def Let_def)
  with 2 show ?thesis by (simp add: seg_append)
qed

lemma unlink_spec:
  assumes d: "dll m (xs @ e # ys)"
  shows "\<exists>m'. tool_memory_unlink e m = Some m' \<and> erase m' = erase m \<and> tm_clock m' = tm_clock m \<and>
    dll m' (xs @ ys) \<and> links m' e = Some (None, None)"
proof -
  let ?p = "final None xs" and ?q = "first ys None"
  have dist: "distinct (xs @ e # ys)" and sg: "seg (links m) None (xs @ e # ys) None"
    and hd: "tm_head m = first (xs @ e # ys) None" and tl: "tm_tail m = final None (xs @ e # ys)"
    using d by (auto simp: dll_def)
  have le: "links m e = Some (?p, ?q)" using sg by (auto simp: seg_append)
  then obtain x where x: "tm_ents m e = Some x" "te_prev x = ?p" "te_next x = ?q" by (auto simp: fld_Some)
  obtain m1 where m1: "(case ?p of Some p \<Rightarrow> upd_ent p (\<lambda>y. y\<lparr>te_next := ?q\<rparr>) m | None \<Rightarrow> Some (m\<lparr>tm_head := ?q\<rparr>)) = Some m1"
      "erase m1 = erase m" "tm_clock m1 = tm_clock m" "tm_tail m1 = tm_tail m" "tm_head m1 = first (xs @ ys) None"
      "tm_ents m1 e = Some x" "links m1 = (case ?p of None \<Rightarrow> links m | Some a \<Rightarrow> (links m)(a := map_option (\<lambda>(u, v). (u, ?q)) (links m a)))"
  proof (cases "xs = []")
    case True
    then show thesis using x(1) by (intro that [of "m\<lparr>tm_head := ?q\<rparr>"]) auto
  next
    case False
    let ?a = "List.last xs"
    have a: "?a \<in> set xs" using False by simp
    then have "links m ?a \<noteq> None" using seg_live [OF sg] by simp
    then obtain y where y: "tm_ents m ?a = Some y" by (auto simp: fld_def)
    have "?a \<noteq> e" using dist a by auto
    moreover have "first (xs @ e # ys) None = first (xs @ ys) None" using False by (cases xs) auto
    ultimately show thesis using False y x(1) hd
      by (intro that [of "m\<lparr>tm_ents := (tm_ents m)(?a \<mapsto> y\<lparr>te_next := ?q\<rparr>)\<rparr>"])
        (auto simp: final_def upd_ent_Some links_upd erase_upd unlinked_def fld_def)
  qed
  have sp: "splice ?p ?q (links m) =
      (case ?q of None \<Rightarrow> links m1 | Some b \<Rightarrow> (links m1)(b := map_option (\<lambda>(u, v). (?p, v)) (links m1 b)))"
    unfolding m1(7) splice_def Let_def ..
  obtain m2 where m2: "(case ?q of Some n \<Rightarrow> upd_ent n (\<lambda>y. y\<lparr>te_prev := ?p\<rparr>) m1 | None \<Rightarrow> Some (m1\<lparr>tm_tail := ?p\<rparr>)) = Some m2"
      "erase m2 = erase m" "tm_clock m2 = tm_clock m" "tm_head m2 = first (xs @ ys) None" "tm_tail m2 = final None (xs @ ys)"
      "tm_ents m2 e = Some x" "links m2 = splice ?p ?q (links m)"
  proof (cases ys)
    case Nil
    then show thesis using m1(2-6) sp by (intro that [of "m1\<lparr>tm_tail := ?p\<rparr>"]) (auto simp: final_append)
  next
    case (Cons b bs)
    have "b \<noteq> e" using dist Cons by auto
    have "links m b \<noteq> None" using seg_live [OF sg] Cons by simp
    then have "links m1 b \<noteq> None" unfolding m1(7) by (auto split: option.splits)
    then obtain y where y: "tm_ents m1 b = Some y" by (auto simp: fld_def)
    then have "links m1 b = Some (te_prev y, te_next y)" by (simp add: fld_def)
    then have L: "splice ?p ?q (links m) = (links m1)(b \<mapsto> (?p, te_next y))" unfolding sp by (simp add: Cons)
    show thesis using Cons y \<open>b \<noteq> e\<close> m1(2-6) tl
      by (intro that [of "m1\<lparr>tm_ents := (tm_ents m1)(b \<mapsto> y\<lparr>te_prev := ?p\<rparr>)\<rparr>"])
        (auto simp: upd_ent_Some final_append links_upd erase_upd unlinked_def L [unfolded Cons first_simps])
  qed
  let ?m = "m2\<lparr>tm_ents := (tm_ents m2)(e \<mapsto> x\<lparr>te_prev := None, te_next := None\<rparr>)\<rparr>"
  have "tool_memory_unlink e m = Some ?m"
    by (simp only: tool_memory_unlink_def x m1(1,6) m2(1,6) Option.bind_lunit upd_ent_eq [OF m2(6)])
  moreover have "erase ?m = erase m" using m2 by (simp add: erase_upd unlinked_def)
  moreover have L: "links ?m = (splice ?p ?q (links m))(e \<mapsto> (None, None))" using m2 by (simp add: links_upd)
  have "seg (links ?m) None (xs @ ys) None" unfolding L using seg_splice [OF sg dist] dist by simp
  ultimately show ?thesis using m2 dist L by (auto simp: dll_def)
qed

lemma link_head_spec:
  assumes d: "dll m as" and e: "e \<notin> set as" "tm_ents m e \<noteq> None"
  shows "\<exists>m'. tool_memory_link_head e m = Some m' \<and> erase m' = erase m \<and> tm_clock m' = tm_clock m \<and> dll m' (e # as)"
proof -
  obtain x where x: "tm_ents m e = Some x" using e by auto
  have sg: "seg (links m) None as None" and dist: "distinct as" and hd: "tm_head m = first as None" and tl: "tm_tail m = final None as"
    using d by (auto simp: dll_def)
  let ?m = "m\<lparr>tm_ents := (tm_ents m)(e \<mapsto> x\<lparr>te_prev := None, te_next := first as None\<rparr>)\<rparr>"
  have L: "links ?m = (links m)(e \<mapsto> (None, first as None))" using x by (simp add: links_upd)
  have er: "erase ?m = erase m" using x by (simp add: erase_upd unlinked_def)
  show ?thesis
  proof (cases as)
    case Nil
    then show ?thesis using x hd L er
      by (intro exI [of _ "?m\<lparr>tm_tail := Some e, tm_head := Some e\<rparr>"]) (simp add: tool_memory_link_head_def upd_ent_eq dll_def)
  next
    case (Cons h bs)
    have he: "h \<noteq> e" using e Cons by auto
    have lh: "links m h = Some (None, first bs None)" using sg Cons by simp
    then obtain y where y: "tm_ents m h = Some y" "te_next y = first bs None" by (auto simp: fld_Some)
    let ?m' = "?m\<lparr>tm_ents := (tm_ents ?m)(h \<mapsto> y\<lparr>te_prev := Some e\<rparr>)\<rparr>"
    have yh: "tm_ents ?m h = Some y" using y he by simp
    have L': "links ?m' = (links ?m)(h \<mapsto> (Some e, first bs None))" unfolding links_upd [OF yh] using y(2) by simp
    have "erase ?m' = erase ?m" by (rule erase_upd [OF yh]) (simp add: unlinked_def)
    with er have er': "erase ?m' = erase m" by (rule trans [rotated])
    have "tool_memory_link_head e m = Some (?m'\<lparr>tm_head := Some e\<rparr>)"
      using x hd Cons yh by (simp add: tool_memory_link_head_def upd_ent_eq)
    moreover have "seg (links ?m') None (e # as) None"
      unfolding L' unfolding L using sg dist e he Cons by (auto simp: fun_upd_twist)
    ultimately show ?thesis using er' dist e tl Cons
      by (intro exI [of _ "?m'\<lparr>tm_head := Some e\<rparr>"]) (simp add: dll_def)
  qed
qed

text \<open>Touching an entry moves it to the front.\<close>

lemma dll_frame: "dll m as \<Longrightarrow> tm_head m' = tm_head m \<Longrightarrow> tm_tail m' = tm_tail m \<Longrightarrow> links m' = links m \<Longrightarrow> dll m' as"
  by (simp add: dll_def)

lemma touch_spec:
  assumes d: "dll m (xs @ e # ys)"
  shows "\<exists>m'. tool_memory_touch e m = Some m' \<and> erase m' = erase m \<and> dll m' (e # xs @ ys)"
proof -
  have "links m e \<noteq> None" using d seg_live [of "links m" None "xs @ e # ys" None e] by (simp add: dll_def)
  then obtain x where x: "tm_ents m e = Some x" by (auto simp: fld_def)
  let ?m = "m\<lparr>tm_clock := tm_clock m + 1, tm_ents := (tm_ents m)(e \<mapsto> x\<lparr>te_stamp := tm_clock m + 1\<rparr>)\<rparr>"
  have u: "upd_ent e (\<lambda>x. x\<lparr>te_stamp := tm_clock m + 1\<rparr>) (m\<lparr>tm_clock := tm_clock m + 1\<rparr>) = Some ?m"
    using x by (simp add: upd_ent_Some)
  have er: "erase ?m = erase m"
    using erase_upd [of "m\<lparr>tm_clock := tm_clock m + 1\<rparr>" e x "x\<lparr>te_stamp := tm_clock m + 1\<rparr>"] x by (simp add: unlinked_def)
  have "links ?m = links m" using x by (auto simp: fld_def fun_eq_iff)
  then have d': "dll ?m (xs @ e # ys)" by (intro dll_frame [OF d]) simp_all
  show ?thesis
  proof (cases "xs = []")
    case True
    with d' have "tm_head m = Some e" by (simp add: dll_def)
    with True u er d' show ?thesis by (intro exI [of _ ?m]) (simp add: tool_memory_touch_def)
  next
    case False
    with d have h: "tm_head m \<noteq> Some e" by (cases xs) (auto simp: dll_def)
    obtain m1 where m1: "tool_memory_unlink e ?m = Some m1" "erase m1 = erase ?m" "dll m1 (xs @ ys)" "links m1 e = Some (None, None)"
      using unlink_spec [OF d'] by blast
    have "e \<notin> set (xs @ ys)" "tm_ents m1 e \<noteq> None" using d m1(4) by (auto simp: dll_def fld_def)
    from link_head_spec [OF m1(3) this] obtain m2 where "tool_memory_link_head e m1 = Some m2" "erase m2 = erase m1" "dll m2 (e # xs @ ys)"
      by auto
    with m1 u h er show ?thesis by (intro exI [of _ m2]) (simp add: tool_memory_touch_def)
  qed
qed

section \<open>The entries of a block\<close>

fun chain :: "(nat \<Rightarrow> nat option option) \<Rightarrow> nat option \<Rightarrow> nat list \<Rightarrow> bool" where
  "chain N x [] \<longleftrightarrow> x = None"
| "chain N x (a # as) \<longleftrightarrow> x = Some a \<and> (\<exists>y. N a = Some y \<and> chain N y as)"

lemma chain_None [simp]: "chain N None as \<longleftrightarrow> as = []"
  by (cases as) auto

lemma chain_cong: "(\<And>a. a \<in> set as \<Longrightarrow> N' a = N a) \<Longrightarrow> chain N' x as = chain N x as"
  by (induction as arbitrary: x) auto

lemma chain_upd [simp]: "a \<notin> set as \<Longrightarrow> chain (N(a := v)) x as = chain N x as"
  by (rule chain_cong) auto

abbreviation bnexts :: "tool_memory \<Rightarrow> nat \<Rightarrow> nat option option" where
  "bnexts \<equiv> fld te_bnext"

text \<open>Everything but the lists of the blocks.\<close>

definition unchained :: "tool_memory \<Rightarrow> tool_memory" where
  "unchained m = m\<lparr>tm_ents := \<lambda>a. map_option (\<lambda>e. e\<lparr>te_bnext := None\<rparr>) (tm_ents m a),
     tm_blocks := \<lambda>b. map_option (\<lambda>bl. bl\<lparr>tb_entries := None\<rparr>) (tm_blocks m b)\<rparr>"

lemma unchained_same:
  assumes "unchained m' = unchained m"
  shows "tm_by_id m' = tm_by_id m" "tm_by_block m' = tm_by_block m" "tm_entries m' = tm_entries m"
    "tm_max_entries m' = tm_max_entries m" "tm_bytes m' = tm_bytes m" "tm_max_bytes m' = tm_max_bytes m"
    "tm_head m' = tm_head m" "tm_tail m' = tm_tail m" "tm_fresh m' = tm_fresh m"
  using assms by (cases m; cases m'; simp add: unchained_def)+

lemma unchained_fld:
  assumes "unchained m' = unchained m" and "\<And>e. f (e\<lparr>te_bnext := None\<rparr>) = f e"
  shows "fld f m' = fld f m"
proof
  fix a
  have "map_option (\<lambda>e. e\<lparr>te_bnext := None\<rparr>) (tm_ents m' a) = map_option (\<lambda>e. e\<lparr>te_bnext := None\<rparr>) (tm_ents m a)"
    using arg_cong [OF assms(1), of "\<lambda>m. tm_ents m a"] by (simp add: unchained_def)
  from arg_cong [OF this, of "map_option f"] show "fld f m' a = fld f m a"
    by (simp add: fld_def option.map_comp comp_def assms(2))
qed

lemma unchained_blocks:
  assumes "unchained m' = unchained m"
  shows "map_option (\<lambda>bl. bl\<lparr>tb_entries := None\<rparr>) (tm_blocks m' b) = map_option (\<lambda>bl. bl\<lparr>tb_entries := None\<rparr>) (tm_blocks m b)"
  using arg_cong [OF assms, of "\<lambda>m. tm_blocks m b"] by (simp add: unchained_def)

lemma unchained_upd_ent:
  "tm_ents m a = Some e \<Longrightarrow> unchained (m\<lparr>tm_ents := (tm_ents m)(a \<mapsto> e\<lparr>te_bnext := v\<rparr>)\<rparr>) = unchained m"
  by (simp add: unchained_def fun_eq_iff)

lemma unchained_upd_block:
  "tm_blocks m b = Some bl \<Longrightarrow> unchained (m\<lparr>tm_blocks := (tm_blocks m)(b \<mapsto> bl\<lparr>tb_entries := v\<rparr>)\<rparr>) = unchained m"
  by (simp add: unchained_def fun_eq_iff)

text \<open>The walk finds the entry behind \<open>p\<close> and cuts it out.\<close>

lemma unlink_after_spec:
  "chain (bnexts m) (Some p) (p # us @ e # vs) \<Longrightarrow> distinct (p # us @ e # vs) \<Longrightarrow>
    \<exists>m'. unlink_after p e m = Some m' \<and> unchained m' = unchained m \<and> tm_blocks m' = tm_blocks m \<and>
      chain (bnexts m') (Some p) (p # us @ vs) \<and> (\<forall>a. a \<notin> set (p # us) \<and> a \<noteq> e \<longrightarrow> bnexts m' a = bnexts m a)"
proof (induction us arbitrary: p)
  case Nil
  then obtain x y where x: "tm_ents m p = Some x" "te_bnext x = Some e" and y: "tm_ents m e = Some y" "chain (bnexts m) (te_bnext y) vs"
    by (auto simp: fld_Some)
  have pe: "p \<noteq> e" using Nil.prems(2) by auto
  let ?m1 = "m\<lparr>tm_ents := (tm_ents m)(p \<mapsto> x\<lparr>te_bnext := te_bnext y\<rparr>)\<rparr>"
  have e1: "tm_ents ?m1 e = Some y" using y pe by simp
  let ?m2 = "?m1\<lparr>tm_ents := (tm_ents ?m1)(e \<mapsto> y\<lparr>te_bnext := None\<rparr>)\<rparr>"
  have "unlink_after p e m = Some ?m2"
    by (subst unlink_after.simps) (simp only: x y Option.bind_lunit option.case upd_ent_eq [OF x(1)] upd_ent_eq [OF e1] if_True simp_thms)
  moreover have "unchained ?m2 = unchained ?m1" by (rule unchained_upd_ent [OF e1])
  moreover have "unchained ?m1 = unchained m" by (rule unchained_upd_ent [OF x(1)])
  moreover have "bnexts ?m2 = (bnexts m)(p \<mapsto> te_bnext y, e \<mapsto> None)"
    unfolding fld_upd [OF e1] fld_upd [OF x(1)] by simp
  ultimately show ?case using y(2) pe Nil.prems(2) by (intro exI [of _ ?m2]) (auto simp del: fun_upd_apply simp: fun_upd_same fun_upd_other)
next
  case (Cons u us)
  then obtain x where x: "tm_ents m p = Some x" "te_bnext x = Some u" and c: "chain (bnexts m) (Some u) (u # us @ e # vs)"
    by (auto simp: fld_Some)
  have ue: "u \<noteq> e" using Cons.prems(2) by auto
  obtain m' where m': "unlink_after u e m = Some m'" "unchained m' = unchained m" "tm_blocks m' = tm_blocks m"
      "chain (bnexts m') (Some u) (u # us @ vs)" "\<forall>a. a \<notin> set (u # us) \<and> a \<noteq> e \<longrightarrow> bnexts m' a = bnexts m a"
    using Cons.IH [OF c] Cons.prems(2) by auto
  have "unlink_after p e m = Some m'"
    using m'(1) ue by (subst unlink_after.simps) (simp add: x)
  moreover have "bnexts m' p = Some (Some u)"
    using m'(5) Cons.prems(2) x by (auto simp: fld_Some)
  ultimately show ?case using m' by (intro exI [of _ m']) auto
qed

lemma block_unlink_spec:
  assumes b: "tm_blocks m b = Some bl" and c: "chain (bnexts m) (tb_entries bl) (us @ e # vs)"
    and d: "distinct (us @ e # vs)"
  shows "\<exists>m' y. tool_block_unlink_entry b e m = Some m' \<and> unchained m' = unchained m \<and>
    tm_blocks m' = (tm_blocks m)(b \<mapsto> bl\<lparr>tb_entries := y\<rparr>) \<and>
    chain (bnexts m') y (us @ vs) \<and> (\<forall>a. a \<notin> set us \<and> a \<noteq> e \<longrightarrow> bnexts m' a = bnexts m a)"
proof (cases us)
  case Nil
  with c obtain x where x: "tm_ents m e = Some x" "chain (bnexts m) (te_bnext x) vs" and be: "tb_entries bl = Some e"
    by (auto simp: fld_Some)
  let ?m1 = "m\<lparr>tm_blocks := (tm_blocks m)(b \<mapsto> bl\<lparr>tb_entries := te_bnext x\<rparr>)\<rparr>"
  have e1: "tm_ents ?m1 e = Some x" using x by simp
  let ?m2 = "?m1\<lparr>tm_ents := (tm_ents ?m1)(e \<mapsto> x\<lparr>te_bnext := None\<rparr>)\<rparr>"
  have "tool_block_unlink_entry b e m = Some ?m2"
    using b x be by (simp add: tool_block_unlink_entry_def upd_block_def upd_ent_def)
  moreover have "unchained ?m2 = unchained ?m1" by (rule unchained_upd_ent [OF e1])
  moreover have "unchained ?m1 = unchained m" by (rule unchained_upd_block [OF b])
  moreover have "bnexts ?m2 = (bnexts m)(e \<mapsto> None)" unfolding fld_upd [OF e1] by simp
  ultimately show ?thesis using x Nil d by (intro exI [of _ ?m2] exI [of _ "te_bnext x"]) simp
next
  case (Cons p us')
  with c d have be: "tb_entries bl = Some p" and pe: "p \<noteq> e" and "chain (bnexts m) (Some p) (p # us' @ e # vs)" by auto
  from unlink_after_spec [OF this(3)] obtain m' where m': "unlink_after p e m = Some m'" "unchained m' = unchained m"
      "tm_blocks m' = tm_blocks m" "chain (bnexts m') (Some p) (p # us' @ vs)"
      "\<forall>a. a \<notin> set (p # us') \<and> a \<noteq> e \<longrightarrow> bnexts m' a = bnexts m a"
    using d Cons by auto
  moreover have "tool_block_unlink_entry b e m = Some m'" using b be pe m'(1) by (simp add: tool_block_unlink_entry_def)
  moreover have "tm_blocks m = (tm_blocks m)(b \<mapsto> bl\<lparr>tb_entries := Some p\<rparr>)" using b be by (simp add: fun_eq_iff)
  ultimately show ?thesis using Cons by (intro exI [of _ m'] exI [of _ "Some p"]) auto
qed

end
