(* ===== verification/Tool_Memory_Inv.thy ===== *)
theory Tool_Memory_Inv
  imports Tool_Memory_Links
begin

text \<open>
  The invariant of the tool memory and its preservation by the removal of an entry: the lists, the two maps, the
  reference counts and the byte count agree at all times, so that no pointer is followed after its record is
  freed.
\<close>

definition ids_ok :: "tool_memory \<Rightarrow> bool" where
  "ids_ok m \<longleftrightarrow> (\<forall>i a. tm_by_id m i = Some a \<longleftrightarrow> fld te_id m a = Some i) \<and> tm_by_id m [] = None"

definition members :: "tool_memory \<Rightarrow> nat \<Rightarrow> nat set" where
  "members m b = {a. fld te_block m a = Some b}"

definition block_ok :: "tool_memory \<Rightarrow> nat \<Rightarrow> tool_memory_block \<Rightarrow> bool" where
  "block_ok m b bl \<longleftrightarrow>
     tb_dsml bl \<noteq> [] \<and> tb_len bl = length (tb_dsml bl) \<and> tb_bytes bl = length (tb_dsml bl) + 1 + sizeof_block \<and>
     tm_by_block m (tb_dsml bl) = Some b \<and>
     (\<exists>cs. chain (bnexts m) (tb_entries bl) cs \<and> distinct cs \<and> set cs = members m b \<and> tb_refs bl = int (length cs))"

definition blocks_ok :: "tool_memory \<Rightarrow> bool" where
  "blocks_ok m \<longleftrightarrow>
     (\<forall>b bl. tm_blocks m b = Some bl \<longrightarrow> block_ok m b bl) \<and>
     (\<forall>k b. tm_by_block m k = Some b \<longrightarrow> (\<exists>bl. tm_blocks m b = Some bl \<and> tb_dsml bl = k)) \<and>
     (\<forall>a b. fld te_block m a = Some b \<longrightarrow> tm_blocks m b \<noteq> None)"

definition sizes_ok :: "tool_memory \<Rightarrow> nat list \<Rightarrow> bool" where
  "sizes_ok m as \<longleftrightarrow>
     tm_entries m = int (length as) \<and> finite (dom (tm_blocks m)) \<and>
     (\<forall>a. fld te_bytes m a = map_option (\<lambda>i. length i + 1 + sizeof_entry) (fld te_id m a)) \<and>
     tm_bytes m = (\<Sum>a \<in> set as. the (fld te_bytes m a)) + (\<Sum>b \<in> dom (tm_blocks m). tb_bytes (the (tm_blocks m b)))"

definition fresh_ok :: "tool_memory \<Rightarrow> bool" where
  "fresh_ok m \<longleftrightarrow> (\<forall>a \<in> dom (tm_ents m). a < tm_fresh m) \<and> (\<forall>b \<in> dom (tm_blocks m). b < tm_fresh m)"

text \<open>\<open>as\<close> are the addresses of the entries, the most recent first; every block has an entry.\<close>

definition tm_inv :: "tool_memory \<Rightarrow> nat list \<Rightarrow> bool" where
  "tm_inv m as \<longleftrightarrow> dll m as \<and> dom (tm_ents m) = set as \<and> ids_ok m \<and> blocks_ok m \<and>
     (\<forall>b \<in> dom (tm_blocks m). members m b \<noteq> {}) \<and> sizes_ok m as \<and> fresh_ok m"

section \<open>Abstract view\<close>

definition text_of :: "tool_memory \<Rightarrow> nat \<Rightarrow> u8 list" where
  "text_of m a = tb_dsml (the (tm_blocks m (the (fld te_block m a))))"

definition tm_view :: "tool_memory \<Rightarrow> nat list \<Rightarrow> (u8 list \<times> u8 list \<times> tool_memory_source) list" where
  "tm_view m as = map (\<lambda>a. (the (fld te_id m a), text_of m a, the (fld te_source m a))) as"

lemma tm_view_append [simp]: "tm_view m (xs @ ys) = tm_view m xs @ tm_view m ys"
  by (simp add: tm_view_def)

lemma tm_view_cong:
  assumes "\<And>a. a \<in> set as \<Longrightarrow> fld te_id m' a = fld te_id m a"
    and "\<And>a. a \<in> set as \<Longrightarrow> text_of m' a = text_of m a"
    and "\<And>a. a \<in> set as \<Longrightarrow> fld te_source m' a = fld te_source m a"
  shows "tm_view m' as = tm_view m as"
  using assms by (simp add: tm_view_def)

text \<open>The limits and the allocator, which the operations do not change or only move up.\<close>

definition same_limits :: "tool_memory \<Rightarrow> tool_memory \<Rightarrow> bool" where
  "same_limits m m' \<longleftrightarrow> tm_max_entries m' = tm_max_entries m \<and> tm_max_bytes m' = tm_max_bytes m"

section \<open>Releasing a block\<close>

lemma less_bytes_eq: "less_bytes n m = m\<lparr>tm_bytes := tm_bytes m - n\<rparr>"
  by (simp add: less_bytes_def)

lemma release_block_shared:
  "tm_blocks m b = Some bl \<Longrightarrow> 1 < tb_refs bl \<Longrightarrow>
    tool_memory_release_block_locked b m = Some (m\<lparr>tm_blocks := (tm_blocks m)(b \<mapsto> bl\<lparr>tb_refs := tb_refs bl - 1\<rparr>)\<rparr>)"
  by (simp add: tool_memory_release_block_locked_def upd_block_def)

lemma release_block_last:
  "tm_blocks m b = Some bl \<Longrightarrow> tb_refs bl = 1 \<Longrightarrow>
    tool_memory_release_block_locked b m = Some (m\<lparr>tm_by_block := (tm_by_block m)(tb_dsml bl := None),
      tm_blocks := (tm_blocks m)(b := None), tm_bytes := tm_bytes m - tb_bytes bl\<rparr>)"
  by (simp add: tool_memory_release_block_locked_def upd_block_def free_block_def less_bytes_eq)

section \<open>Removing an entry\<close>

text \<open>The pointers of the removed entry are out of every list before its record goes.\<close>

lemma remove_detach:
  assumes inv: "tm_inv m (xs @ e # ys)" and x: "tm_ents m e = Some x" and bl: "tm_blocks m (te_block x) = Some bl"
    and cs: "chain (bnexts m) (tb_entries bl) (us @ e # vs)" "distinct (us @ e # vs)"
  shows "\<exists>m2 m3 y. tool_memory_unlink e (m\<lparr>tm_by_id := (tm_by_id m)(te_id x := None)\<rparr>) = Some m2 \<and>
    tool_block_unlink_entry (te_block x) e m2 = Some m3 \<and>
    erase m2 = erase (m\<lparr>tm_by_id := (tm_by_id m)(te_id x := None)\<rparr>) \<and> unchained m3 = unchained m2 \<and>
    dll m3 (xs @ ys) \<and> tm_blocks m3 = (tm_blocks m)(te_block x \<mapsto> bl\<lparr>tb_entries := y\<rparr>) \<and>
    chain (bnexts m3) y (us @ vs) \<and> (\<forall>a. a \<notin> set us \<and> a \<noteq> e \<longrightarrow> bnexts m3 a = bnexts m a)"
proof -
  let ?m1 = "m\<lparr>tm_by_id := (tm_by_id m)(te_id x := None)\<rparr>"
  have "dll ?m1 (xs @ e # ys)" using inv by (auto simp: tm_inv_def dll_def)
  from unlink_spec [OF this] obtain m2 where m2: "tool_memory_unlink e ?m1 = Some m2" "erase m2 = erase ?m1" "dll m2 (xs @ ys)"
    by auto
  have bn: "bnexts m2 = bnexts m" using erase_fld [OF m2(2), of te_bnext] by (simp add: unlinked_def)
  have "tm_blocks m2 (te_block x) = Some bl" using erase_same(7) [OF m2(2)] bl by simp
  from block_unlink_spec [OF this, of us e vs] cs bn
  obtain m3 y where m3: "tool_block_unlink_entry (te_block x) e m2 = Some m3" "unchained m3 = unchained m2"
      "tm_blocks m3 = (tm_blocks m2)(te_block x \<mapsto> bl\<lparr>tb_entries := y\<rparr>)" "chain (bnexts m3) y (us @ vs)"
      "\<forall>a. a \<notin> set us \<and> a \<noteq> e \<longrightarrow> bnexts m3 a = bnexts m2 a"
    by auto
  have "links m3 = links m2" by (rule unchained_fld [OF m3(2)]) simp
  then have "dll m3 (xs @ ys)" by (intro dll_frame [OF m2(3)]) (simp_all add: unchained_same [OF m3(2)])
  then show ?thesis using m2 m3 bn erase_same(7) [OF m2(2)]
    by (intro exI [of _ m2] exI [of _ m3] exI [of _ y]) simp
qed

text \<open>What the removal leaves, field by field.\<close>

definition removed :: "tool_memory \<Rightarrow> nat \<Rightarrow> nat list \<Rightarrow> nat list \<Rightarrow> tool_memory \<Rightarrow> bool" where
  "removed m e as cs m' \<longleftrightarrow> (\<exists>x bl y.
     tm_ents m e = Some x \<and> tm_blocks m (te_block x) = Some bl \<and> dll m' as \<and>
     fld te_id m' = (fld te_id m)(e := None) \<and> fld te_block m' = (fld te_block m)(e := None) \<and>
     fld te_bytes m' = (fld te_bytes m)(e := None) \<and> fld te_source m' = (fld te_source m)(e := None) \<and>
     tm_by_id m' = (tm_by_id m)(te_id x := None) \<and>
     chain (bnexts m') y cs \<and> (\<forall>a. a \<notin> set cs \<and> a \<noteq> e \<longrightarrow> bnexts m' a = bnexts m a) \<and>
     tm_blocks m' = (tm_blocks m)(te_block x :=
       if cs = [] then None else Some (bl\<lparr>tb_entries := y, tb_refs := int (length cs)\<rparr>)) \<and>
     tm_by_block m' = (if cs = [] then (tm_by_block m)(tb_dsml bl := None) else tm_by_block m) \<and>
     tm_bytes m' = tm_bytes m - te_bytes x - (if cs = [] then tb_bytes bl else 0) \<and>
     tm_entries m' = tm_entries m - 1 \<and> tm_fresh m' = tm_fresh m \<and> same_limits m m')"

lemma free_ent_fld: "tm_ents m e = Some x \<Longrightarrow>
    free_ent e m = Some (m\<lparr>tm_ents := (tm_ents m)(e := None)\<rparr>)"
  by (simp add: free_ent_def)

lemma fld_free: "fld f (m\<lparr>tm_ents := (tm_ents m)(e := None)\<rparr>) = (fld f m)(e := None)"
  by (simp add: fld_def fun_eq_iff)

lemma inv_entry:
  assumes inv: "tm_inv m as" and e: "e \<in> set as"
  obtains x bl us vs where "tm_ents m e = Some x" "tm_blocks m (te_block x) = Some bl" "block_ok m (te_block x) bl"
    "chain (bnexts m) (tb_entries bl) (us @ e # vs)" "distinct (us @ e # vs)"
    "set (us @ e # vs) = members m (te_block x)" "tb_refs bl = int (length (us @ e # vs))"
proof -
  have "e \<in> dom (tm_ents m)" using inv e by (simp add: tm_inv_def)
  then obtain x where x: "tm_ents m e = Some x" by blast
  then have b: "fld te_block m e = Some (te_block x)" by (simp add: fld_Some)
  then have "tm_blocks m (te_block x) \<noteq> None" using inv unfolding tm_inv_def blocks_ok_def by blast
  then obtain bl where bl: "tm_blocks m (te_block x) = Some bl" by blast
  with inv have ok: "block_ok m (te_block x) bl" by (simp add: tm_inv_def blocks_ok_def)
  then obtain cs where cs: "chain (bnexts m) (tb_entries bl) cs" "distinct cs" "set cs = members m (te_block x)"
      "tb_refs bl = int (length cs)" by (auto simp: block_ok_def)
  have "e \<in> set cs" using cs(3) b by (simp add: members_def)
  then obtain us vs where "cs = us @ e # vs" by (meson split_list)
  with x bl ok cs show thesis by (intro that [of x bl us vs]) simp_all
qed

lemma remove_entry_removed:
  assumes inv: "tm_inv m (xs @ e # ys)"
  shows "\<exists>m' us vs x. tool_memory_remove_entry_locked e m = Some m' \<and> removed m e (xs @ ys) (us @ vs) m' \<and>
    tm_ents m e = Some x \<and> distinct (us @ e # vs) \<and> set (us @ e # vs) = members m (te_block x)"
proof -
  obtain x bl us vs where x: "tm_ents m e = Some x" and bl: "tm_blocks m (te_block x) = Some bl"
    and cs: "chain (bnexts m) (tb_entries bl) (us @ e # vs)" "distinct (us @ e # vs)"
      "set (us @ e # vs) = members m (te_block x)" "tb_refs bl = int (length (us @ e # vs))"
    by (rule inv_entry [OF inv, of e]) (simp, blast)
  let ?m1 = "m\<lparr>tm_by_id := (tm_by_id m)(te_id x := None)\<rparr>"
  obtain m2 m3 y where m2: "tool_memory_unlink e ?m1 = Some m2" and m3: "tool_block_unlink_entry (te_block x) e m2 = Some m3"
    and er: "erase m2 = erase ?m1" and un: "unchained m3 = unchained m2" and d: "dll m3 (xs @ ys)"
    and b3: "tm_blocks m3 = (tm_blocks m)(te_block x \<mapsto> bl\<lparr>tb_entries := y\<rparr>)"
    and ch: "chain (bnexts m3) y (us @ vs)" "\<forall>a. a \<notin> set us \<and> a \<noteq> e \<longrightarrow> bnexts m3 a = bnexts m a"
    using remove_detach [OF inv x bl cs(1,2)] by blast
  note same = unchained_same [OF un] erase_same [OF er]
  have f3: "fld te_id m3 = fld te_id m" "fld te_block m3 = fld te_block m" "fld te_bytes m3 = fld te_bytes m" "fld te_source m3 = fld te_source m"
    using unchained_fld [OF un, of te_id] unchained_fld [OF un, of te_block] unchained_fld [OF un, of te_bytes]
      unchained_fld [OF un, of te_source] erase_fld [OF er, of te_id] erase_fld [OF er, of te_block]
      erase_fld [OF er, of te_bytes] erase_fld [OF er, of te_source] by (simp_all add: unlinked_def)
  have "0 < tm_entries m" using inv by (simp add: tm_inv_def sizes_ok_def)
  define m5 where "m5 = m3\<lparr>tm_bytes := tm_bytes m3 - te_bytes x, tm_entries := tm_entries m3 - 1\<rparr>"
  have "fld te_id m e = Some (te_id x)" using x by (simp add: fld_Some)
  with f3(1) have "fld te_id m3 e \<noteq> None" by simp
  then obtain x3 where x3: "tm_ents m3 e = Some x3" by (auto simp: fld_def)
  have bl5: "tm_blocks m5 (te_block x) = Some (bl\<lparr>tb_entries := y\<rparr>)" by (simp add: m5_def b3)
  let ?b = "te_block x"
  have refs: "tb_refs (bl\<lparr>tb_entries := y\<rparr>) = 1 + int (length (us @ vs))" using cs(4) by simp
  define m6 where "m6 = (if us @ vs = []
    then m5\<lparr>tm_by_block := (tm_by_block m5)(tb_dsml bl := None), tm_blocks := (tm_blocks m5)(?b := None), tm_bytes := tm_bytes m5 - tb_bytes bl\<rparr>
    else m5\<lparr>tm_blocks := (tm_blocks m5)(?b \<mapsto> bl\<lparr>tb_entries := y, tb_refs := int (length (us @ vs))\<rparr>)\<rparr>)"
  have m6: "tool_memory_release_block_locked ?b m5 = Some m6"
  proof (cases "us @ vs = []")
    case True
    then show ?thesis using release_block_last [OF bl5] refs by (simp add: m6_def)
  next
    case False
    then have "1 < tb_refs (bl\<lparr>tb_entries := y\<rparr>)" unfolding refs by (cases "us @ vs") auto
    from release_block_shared [OF bl5 this] False show ?thesis unfolding refs by (auto simp: m6_def)
  qed
  have x6: "tm_ents m6 e = Some x3" by (simp add: m6_def m5_def x3)
  let ?m7 = "m6\<lparr>tm_ents := (tm_ents m6)(e := None)\<rparr>"
  have "tool_memory_remove_entry_locked e m = Some ?m7"
    using m2 m3 m6 \<open>0 < tm_entries m\<close> same free_ent_fld [OF x6]
    by (simp add: tool_memory_remove_entry_locked_def x less_bytes_eq m5_def)
  moreover have "removed m e (xs @ ys) (us @ vs) ?m7"
  proof -
    have fm: "fld f m6 = fld f m3" for f :: "tool_memory_entry \<Rightarrow> 'a" by (simp add: m6_def m5_def)
    have "e \<notin> set (xs @ ys)" using inv by (simp add: tm_inv_def dll_def)
    then have "dll ?m7 (xs @ ys)" using d unfolding dll_def fld_free fm by (simp add: m6_def m5_def)
    moreover have "chain (bnexts ?m7) y (us @ vs)" unfolding fld_free fm using ch(1) cs(2) by simp
    ultimately show ?thesis unfolding removed_def fld_free fm f3
      by (intro exI [of _ x] exI [of _ bl] exI [of _ y])
        (use x bl ch(2) same in \<open>auto simp: m6_def m5_def b3 same_limits_def fld_free\<close>)
  qed
  ultimately show ?thesis using x cs by blast
qed

lemma dom_fld: "a \<in> dom (tm_ents m) \<longleftrightarrow> fld f m a \<noteq> None"
  by (auto simp: fld_def)

lemma inv_by_block: "tm_inv m as \<Longrightarrow> tm_by_block m k = Some b \<longleftrightarrow> (\<exists>bl. tm_blocks m b = Some bl \<and> tb_dsml bl = k)"
  by (auto simp: tm_inv_def blocks_ok_def block_ok_def)

lemma inv_text_inj:
  "tm_inv m as \<Longrightarrow> tm_blocks m b = Some bl \<Longrightarrow> tm_blocks m c = Some cl \<Longrightarrow> tb_dsml bl = tb_dsml cl \<Longrightarrow> b = c"
  using inv_by_block by (metis option.inject)

text \<open>Two maps that are inverse to each other stay so when a pair is taken out.\<close>

lemma inverse_remove:
  assumes inverse: "\<forall>i a. B i = Some a \<longleftrightarrow> F a = Some i" and e: "F e = Some j"
  shows "\<forall>i a. (B(j := None)) i = Some a \<longleftrightarrow> (F(e := None)) a = Some i"
proof (intro allI)
  fix i a
  have j: "B j = Some e" using inverse e by blast
  have iff: "B i = Some a \<longleftrightarrow> F a = Some i" using inverse by blast
  show "(B(j := None)) i = Some a \<longleftrightarrow> (F(e := None)) a = Some i"
  proof (cases "i = j")
    case True
    have "a = e" if "F a = Some i" using that iff j True by simp
    with True show ?thesis by auto
  next
    case False
    then have "F e \<noteq> Some i" using e by simp
    with False iff show ?thesis by (cases "a = e") simp_all
  qed
qed

text \<open>A block keeps its invariant when nothing it refers to changes.\<close>

lemma block_ok_frame:
  assumes ok: "block_ok m b bl" and "members m' b = members m b" and "tm_by_block m' (tb_dsml bl) = Some b"
    and "\<And>a. a \<in> members m b \<Longrightarrow> bnexts m' a = bnexts m a"
  shows "block_ok m' b bl"
proof -
  obtain cs where cs: "chain (bnexts m) (tb_entries bl) cs" "distinct cs" "set cs = members m b" "tb_refs bl = int (length cs)"
    using ok by (auto simp: block_ok_def)
  then have "chain (bnexts m') (tb_entries bl) cs" using assms(4) by (subst chain_cong [of _ _ "bnexts m"]) auto
  with cs ok assms show ?thesis by (auto simp: block_ok_def)
qed

lemma removed_inv:
  assumes inv: "tm_inv m (xs @ e # ys)" and r: "removed m e (xs @ ys) (us @ vs) m'" and x: "tm_ents m e = Some x"
    and d: "distinct (us @ e # vs)" and mem: "set (us @ e # vs) = members m (te_block x)"
  shows "tm_inv m' (xs @ ys)"
proof -
  let ?b = "te_block x"
  obtain bl y where bl: "tm_blocks m ?b = Some bl" and dl: "dll m' (xs @ ys)"
    and f: "fld te_id m' = (fld te_id m)(e := None)" "fld te_block m' = (fld te_block m)(e := None)"
      "fld te_bytes m' = (fld te_bytes m)(e := None)"
    and ids: "tm_by_id m' = (tm_by_id m)(te_id x := None)"
    and ch: "chain (bnexts m') y (us @ vs)" "\<forall>a. a \<notin> set (us @ vs) \<and> a \<noteq> e \<longrightarrow> bnexts m' a = bnexts m a"
    and bs: "tm_blocks m' = (tm_blocks m)(?b :=
       if us @ vs = [] then None else Some (bl\<lparr>tb_entries := y, tb_refs := int (length (us @ vs))\<rparr>))"
    and bb: "tm_by_block m' = (if us @ vs = [] then (tm_by_block m)(tb_dsml bl := None) else tm_by_block m)"
    and by': "tm_bytes m' = tm_bytes m - te_bytes x - (if us @ vs = [] then tb_bytes bl else 0)"
    and n: "tm_entries m' = tm_entries m - 1" and fr: "tm_fresh m' = tm_fresh m"
    using r x unfolding removed_def by auto
  have fx: "fld te_id m e = Some (te_id x)" "fld te_block m e = Some ?b" "fld te_bytes m e = Some (te_bytes x)"
    using x by (simp_all add: fld_def)
  have e: "e \<notin> set (xs @ ys)" using inv by (auto simp: tm_inv_def dll_def)
  have memb: "members m' c = members m c - {e}" for c by (auto simp: members_def f)
  then have mem': "members m' ?b = set (us @ vs)" using mem d by auto
  have memc: "members m' c = members m c" if "c \<noteq> ?b" for c using that fx(2) unfolding memb by (auto simp: members_def)
  have "(a \<in> dom (tm_ents m')) = (a \<in> dom (tm_ents m) - {e})" for a
    unfolding dom_fld [of a m' te_id] f(1) using dom_fld [of a m te_id] by (cases "a = e") auto
  then have dom: "dom (tm_ents m') = set (xs @ ys)" using inv e by (auto simp: tm_inv_def)
  have io: "\<forall>i a. tm_by_id m i = Some a \<longleftrightarrow> fld te_id m a = Some i" "tm_by_id m [] = None"
    using inv by (simp_all add: tm_inv_def ids_ok_def)
  then have "ids_ok m'" using inverse_remove [OF io(1) fx(1)] unfolding ids_ok_def ids f by simp
  moreover have "blocks_ok m'" unfolding blocks_ok_def
  proof (intro conjI allI impI)
    fix c cl assume c: "tm_blocks m' c = Some cl"
    show "block_ok m' c cl"
    proof (cases "c = ?b")
      case True
      then have ne: "us @ vs \<noteq> []" and cl: "cl = bl\<lparr>tb_entries := y, tb_refs := int (length (us @ vs))\<rparr>"
        using c bs by (auto split: if_splits)
      have "block_ok m ?b bl" using inv bl by (simp add: tm_inv_def blocks_ok_def)
      then show ?thesis using ch(1) d mem' ne True unfolding block_ok_def cl bb
        by (auto intro!: exI [of _ "us @ vs"])
    next
      case False
      then have c': "tm_blocks m c = Some cl" using c bs by simp
      then have ok: "block_ok m c cl" using inv by (simp add: tm_inv_def blocks_ok_def)
      have "tb_dsml cl \<noteq> tb_dsml bl" using inv_text_inj [OF inv c' bl] False by auto
      then have "tm_by_block m' (tb_dsml cl) = Some c" using ok bb by (simp add: block_ok_def)
      moreover have "bnexts m' a = bnexts m a" if "a \<in> members m c" for a
      proof -
        have "a \<notin> members m ?b" using that False by (auto simp: members_def)
        then show ?thesis using ch(2) mem by auto
      qed
      ultimately show ?thesis using block_ok_frame [OF ok memc [OF False]] by blast
    qed
  next
    fix k c assume k: "tm_by_block m' k = Some c"
    then have "tm_by_block m k = Some c" and kd: "us @ vs = [] \<Longrightarrow> k \<noteq> tb_dsml bl"
      by (auto simp: bb split: if_splits)
    then obtain cl where cl: "tm_blocks m c = Some cl" "tb_dsml cl = k" using inv_by_block [OF inv] by blast
    show "\<exists>cl. tm_blocks m' c = Some cl \<and> tb_dsml cl = k"
      using cl kd bl by (cases "c = ?b") (auto simp: bs)
  next
    fix a c assume a: "fld te_block m' a = Some c"
    then have "fld te_block m a = Some c" by (auto simp: f split: if_splits)
    then have "tm_blocks m c \<noteq> None" using inv unfolding tm_inv_def blocks_ok_def by blast
    moreover have "us @ vs \<noteq> []" if "c = ?b" using a that mem' by (auto simp: members_def)
    ultimately show "tm_blocks m' c \<noteq> None" by (auto simp: bs)
  qed
  moreover have "\<forall>c \<in> dom (tm_blocks m'). members m' c \<noteq> {}"
  proof
    fix c assume c: "c \<in> dom (tm_blocks m')"
    show "members m' c \<noteq> {}"
    proof (cases "c = ?b")
      case True
      with c have "us @ vs \<noteq> []" by (auto simp: bs split: if_splits)
      then show ?thesis unfolding True mem' by simp
    next
      case False
      then have "c \<in> dom (tm_blocks m)" using c by (auto simp: bs split: if_splits)
      with False inv show ?thesis by (simp add: memc tm_inv_def)
    qed
  qed
  moreover have "sizes_ok m' (xs @ ys)"
  proof -
    let ?B = "\<lambda>m b. tb_bytes (the (tm_blocks m b))"
    have fin: "finite (dom (tm_blocks m))" and tot: "tm_bytes m = (\<Sum>a \<in> set (xs @ e # ys). the (fld te_bytes m a)) + sum (?B m) (dom (tm_blocks m))"
      using inv by (auto simp: tm_inv_def sizes_ok_def)
    have "(\<Sum>a \<in> set (xs @ e # ys). the (fld te_bytes m a)) = te_bytes x + (\<Sum>a \<in> set (xs @ ys). the (fld te_bytes m a))"
      using e fx(3) by (simp add: insert_absorb)
    moreover have "(\<Sum>a \<in> set (xs @ ys). the (fld te_bytes m a)) = (\<Sum>a \<in> set (xs @ ys). the (fld te_bytes m' a))"
      using e by (intro sum.cong) (auto simp: f)
    moreover have "sum (?B m) (dom (tm_blocks m)) = tb_bytes bl + sum (?B m) (dom (tm_blocks m) - {?b})"
      using fin bl by (subst sum.remove [of _ ?b]) auto
    moreover have "sum (?B m) (dom (tm_blocks m) - {?b}) = sum (?B m') (dom (tm_blocks m) - {?b})"
      by (intro sum.cong) (auto simp: bs)
    moreover have "dom (tm_blocks m') = (if us @ vs = [] then dom (tm_blocks m) - {?b} else dom (tm_blocks m))"
      using bl by (auto simp: bs)
    moreover have "sum (?B m') (dom (tm_blocks m)) = tb_bytes bl + sum (?B m') (dom (tm_blocks m) - {?b})" if "us @ vs \<noteq> []"
      using fin bl that by (subst sum.remove [of _ ?b]) (auto simp: bs)
    ultimately have "tm_bytes m' = (\<Sum>a \<in> set (xs @ ys). the (fld te_bytes m' a)) + sum (?B m') (dom (tm_blocks m'))"
      using by' tot by (auto split: if_splits)
    moreover have "finite (dom (tm_blocks m'))" using fin by (simp add: bs)
    moreover have "fld te_bytes m' a = map_option (\<lambda>i. length i + 1 + sizeof_entry) (fld te_id m' a)" for a
      using inv unfolding f tm_inv_def sizes_ok_def by (cases "a = e") auto
    ultimately show ?thesis using inv n by (simp add: tm_inv_def sizes_ok_def)
  qed
  moreover have "fresh_ok m'"
    using inv bl unfolding fresh_ok_def tm_inv_def dom fr by (auto simp: bs split: if_splits)
  ultimately show ?thesis using dl dom by (simp add: tm_inv_def)
qed

lemma remove_spec:
  assumes inv: "tm_inv m (xs @ e # ys)"
  shows "\<exists>m'. tool_memory_remove_entry_locked e m = Some m' \<and> tm_inv m' (xs @ ys) \<and>
    tm_view m' (xs @ ys) = tm_view m (xs @ ys) \<and> same_limits m m'"
proof -
  obtain m' us vs x where r: "tool_memory_remove_entry_locked e m = Some m'" "removed m e (xs @ ys) (us @ vs) m'"
    and x: "tm_ents m e = Some x" and d: "distinct (us @ e # vs)" "set (us @ e # vs) = members m (te_block x)"
    using remove_entry_removed [OF inv] by blast
  have inv': "tm_inv m' (xs @ ys)" by (rule removed_inv [OF inv r(2) x d])
  obtain bl y where bl: "tm_blocks m (te_block x) = Some bl"
    and f: "fld te_id m' = (fld te_id m)(e := None)" "fld te_block m' = (fld te_block m)(e := None)"
      "fld te_source m' = (fld te_source m)(e := None)"
    and bs: "tm_blocks m' = (tm_blocks m)(te_block x :=
       if us @ vs = [] then None else Some (bl\<lparr>tb_entries := y, tb_refs := int (length (us @ vs))\<rparr>))"
    and lim: "same_limits m m'"
    using r(2) x unfolding removed_def by auto
  have e: "a \<noteq> e" if "a \<in> set (xs @ ys)" for a using inv that by (auto simp: tm_inv_def dll_def)
  have "text_of m' a = text_of m a" if a: "a \<in> set (xs @ ys)" for a
  proof -
    have "a \<in> dom (tm_ents m')" using inv' a by (simp add: tm_inv_def)
    then obtain c where c: "fld te_block m' a = Some c" by (auto simp: fld_def)
    then have "fld te_block m a = Some c" using e [OF a] by (simp add: f)
    moreover have "tm_blocks m' c \<noteq> None" using inv' c unfolding tm_inv_def blocks_ok_def by blast
    ultimately show ?thesis using c bl by (auto simp: text_of_def bs split: if_splits)
  qed
  then have "tm_view m' (xs @ ys) = tm_view m (xs @ ys)"
    using e by (intro tm_view_cong) (simp_all add: f fun_upd_other)
  with r(1) inv' lim show ?thesis by blast
qed

section \<open>The byte count of the view\<close>

definition lru_bytes :: "(u8 list \<times> u8 list \<times> tool_memory_source) list \<Rightarrow> nat" where
  "lru_bytes l = (\<Sum>(i, _) \<leftarrow> l. length i + 1 + sizeof_entry) + (\<Sum>t \<in> (\<lambda>(_, t, _). t) ` set l. length t + 1 + sizeof_block)"

lemma inv_bytes:
  assumes inv: "tm_inv m as"
  shows "tm_bytes m = lru_bytes (tm_view m as)"
proof -
  let ?B = "\<lambda>b. tb_bytes (the (tm_blocks m b))" and ?t = "\<lambda>b. tb_dsml (the (tm_blocks m b))"
  have d: "distinct as" and dm: "dom (tm_ents m) = set as" using inv by (auto simp: tm_inv_def dll_def)
  have tot: "tm_bytes m = (\<Sum>a \<in> set as. the (fld te_bytes m a)) + sum ?B (dom (tm_blocks m))"
    and size: "\<And>a. fld te_bytes m a = map_option (\<lambda>i. length i + 1 + sizeof_entry) (fld te_id m a)"
    using inv by (auto simp: tm_inv_def sizes_ok_def)
  have "(\<Sum>a \<in> set as. the (fld te_bytes m a)) = (\<Sum>a \<leftarrow> as. the (fld te_bytes m a))"
    using d by (simp add: sum_list_distinct_conv_sum_set)
  also have "(\<Sum>a \<leftarrow> as. the (fld te_bytes m a)) = (\<Sum>a \<leftarrow> as. length (the (fld te_id m a)) + 1 + sizeof_entry)"
  proof (intro arg_cong [of _ _ sum_list] map_cong refl)
    fix a assume "a \<in> set as"
    with dm have "fld te_id m a \<noteq> None" using dom_fld [of a m te_id] by auto
    then show "the (fld te_bytes m a) = length (the (fld te_id m a)) + 1 + sizeof_entry" by (auto simp: size)
  qed
  also have "\<dots> = (\<Sum>(i, _) \<leftarrow> tm_view m as. length i + 1 + sizeof_entry)"
    by (simp add: tm_view_def comp_def)
  finally have 1: "(\<Sum>a \<in> set as. the (fld te_bytes m a)) = (\<Sum>(i, _) \<leftarrow> tm_view m as. length i + 1 + sizeof_entry)" .
  have ok: "block_ok m b bl" if "tm_blocks m b = Some bl" for b bl using inv that by (simp add: tm_inv_def blocks_ok_def)
  have "sum ?B (dom (tm_blocks m)) = (\<Sum>b \<in> dom (tm_blocks m). length (?t b) + 1 + sizeof_block)"
    using ok by (intro sum.cong) (auto simp: block_ok_def)
  also have "inj_on ?t (dom (tm_blocks m))" using inv_text_inj [OF inv] by (fastforce intro: inj_onI)
  then have "(\<Sum>b \<in> dom (tm_blocks m). length (?t b) + 1 + sizeof_block) = (\<Sum>t \<in> ?t ` dom (tm_blocks m). length t + 1 + sizeof_block)"
    by (simp add: sum.reindex)
  also have "?t ` dom (tm_blocks m) = (\<lambda>(_, t, _). t) ` set (tm_view m as)"
  proof
    show "?t ` dom (tm_blocks m) \<subseteq> (\<lambda>(_, t, _). t) ` set (tm_view m as)"
    proof
      fix t assume "t \<in> ?t ` dom (tm_blocks m)"
      then obtain b where b: "b \<in> dom (tm_blocks m)" "t = ?t b" by blast
      then have "members m b \<noteq> {}" using inv by (simp add: tm_inv_def)
      then obtain a where a: "fld te_block m a = Some b" by (auto simp: members_def)
      then have "a \<in> set as" using dm dom_fld [of a m te_block] by auto
      moreover have "text_of m a = t" using a b by (simp add: text_of_def)
      ultimately show "t \<in> (\<lambda>(_, t, _). t) ` set (tm_view m as)" by (force simp: tm_view_def)
    qed
    show "(\<lambda>(_, t, _). t) ` set (tm_view m as) \<subseteq> ?t ` dom (tm_blocks m)"
    proof
      fix t assume "t \<in> (\<lambda>(_, t, _). t) ` set (tm_view m as)"
      then obtain a where a: "a \<in> set as" "t = text_of m a" by (auto simp: tm_view_def)
      then obtain b where b: "fld te_block m a = Some b" using dm dom_fld [of a m te_block] by auto
      then have "tm_blocks m b \<noteq> None" using inv unfolding tm_inv_def blocks_ok_def by blast
      then show "t \<in> ?t ` dom (tm_blocks m)" using a b by (auto simp: text_of_def)
    qed
  qed
  finally show ?thesis using 1 tot by (simp add: lru_bytes_def)
qed

lemma length_tm_view [simp]: "length (tm_view m as) = length as"
  by (simp add: tm_view_def)

end
