(* ===== verification/Tool_Memory_Lru.thy ===== *)
theory Tool_Memory_Lru
  imports Tool_Memory_Inv "HOL-Library.Multiset"
begin

text \<open>
  The tool memory as its callers see it: a list of ids with their texts, the most recent first. Storing and
  looking up on the pointer structures are these list operations, and never touch freed memory.
\<close>

section \<open>The abstract memory\<close>

type_synonym lru = "(u8 list \<times> u8 list \<times> tool_memory_source) list"

definition lru_full :: "int \<Rightarrow> nat \<Rightarrow> lru \<Rightarrow> bool" where
  "lru_full maxe maxb l \<longleftrightarrow> maxe < int (length l) \<or> maxb < lru_bytes l"

text \<open>The least recent entries go until the rest is within the limits.\<close>

function lru_prune :: "int \<Rightarrow> nat \<Rightarrow> lru \<Rightarrow> lru" where
  "lru_prune maxe maxb l = (if lru_full maxe maxb l \<and> l \<noteq> [] then lru_prune maxe maxb (butlast l) else l)"
  by pat_completeness auto
termination by (relation "measure (\<lambda>(_, _, l). length l)") auto

declare lru_prune.simps [simp del]

text \<open>Without the entry of an id.\<close>

definition lru_without :: "u8 list \<Rightarrow> lru \<Rightarrow> lru" where
  "lru_without i l = filter (\<lambda>(j, _). j \<noteq> i) l"

text \<open>An id that is stored with the same text moves to the front, and is not downgraded to the disk source.\<close>

definition lru_put :: "int \<Rightarrow> nat \<Rightarrow> u8 list \<Rightarrow> u8 list \<Rightarrow> tool_memory_source \<Rightarrow> lru \<Rightarrow> lru" where
  "lru_put maxe maxb i t src l =
     (if i = [] \<or> t = [] then l
      else lru_prune maxe maxb
        ((i, t, case map_of l i of Some (t', src') \<Rightarrow> if t' = t \<and> src = TOOL_MEMORY_DISK then src' else src | None \<Rightarrow> src)
         # lru_without i l))"

definition lru_lookup :: "u8 list \<Rightarrow> lru \<Rightarrow> (u8 list \<times> tool_memory_source) option \<times> lru" where
  "lru_lookup i l =
     (case map_of l i of
        None \<Rightarrow> (None, l)
      | Some (t, src) \<Rightarrow> (Some (t, src), (i, t, src) # lru_without i l))"

section \<open>Pruning\<close>

lemma limits_same:
  "same_limits m m' \<Longrightarrow> tool_memory_max_entries m' = tool_memory_max_entries m \<and> tool_memory_max_bytes m' = tool_memory_max_bytes m"
  by (simp add: same_limits_def tool_memory_max_entries_def tool_memory_max_bytes_def)

lemma same_limits_refl [simp]: "same_limits m m"
  by (simp add: same_limits_def)

lemma same_limits_trans: "same_limits a b \<Longrightarrow> same_limits b c \<Longrightarrow> same_limits a c"
  by (simp add: same_limits_def)

lemma inv_full:
  "tm_inv m as \<Longrightarrow> (tool_memory_max_entries m < tm_entries m \<or> tool_memory_max_bytes m < tm_bytes m) \<longleftrightarrow>
    lru_full (tool_memory_max_entries m) (tool_memory_max_bytes m) (tm_view m as)"
  using inv_bytes [of m as] by (auto simp: lru_full_def tm_inv_def sizes_ok_def)

lemma prune_spec:
  "tm_inv m as \<Longrightarrow> \<exists>m' as'. tool_memory_prune_locked m = Some m' \<and> tm_inv m' as' \<and> same_limits m m' \<and>
    tm_view m' as' = lru_prune (tool_memory_max_entries m) (tool_memory_max_bytes m) (tm_view m as)"
proof (induction as arbitrary: m rule: rev_induct)
  case Nil
  then have "tm_tail m = None" by (simp add: tm_inv_def dll_def)
  then have "tool_memory_prune_locked m = Some m" by (subst tool_memory_prune_locked.simps) simp
  moreover have "tm_view m [] = []" by (simp add: tm_view_def)
  ultimately show ?case using Nil by (intro exI [of _ m] exI [of _ "[]"]) (simp add: lru_prune.simps)
next
  case (snoc e as)
  let ?full = "lru_full (tool_memory_max_entries m) (tool_memory_max_bytes m) (tm_view m (as @ [e]))"
  note full = inv_full [OF snoc.prems]
  have ne: "tm_view m (as @ [e]) \<noteq> []" by (simp add: tm_view_def)
  show ?case
  proof (cases ?full)
    case False
    then have "tool_memory_prune_locked m = Some m" using full by (subst tool_memory_prune_locked.simps) simp
    with False snoc.prems show ?thesis
      by (intro exI [of _ m] exI [of _ "as @ [e]"]) (simp add: lru_prune.simps [of _ _ "tm_view m (as @ [e])"] del: tm_view_append)
  next
    case True
    obtain m1 where m1: "tool_memory_remove_entry_locked e m = Some m1" "tm_inv m1 as" "tm_view m1 as = tm_view m as" "same_limits m m1"
      using remove_spec [of m as e "[]"] snoc.prems by auto
    obtain m' as' where m': "tool_memory_prune_locked m1 = Some m'" "tm_inv m' as'" "same_limits m1 m'"
        "tm_view m' as' = lru_prune (tool_memory_max_entries m1) (tool_memory_max_bytes m1) (tm_view m1 as)"
      using snoc.IH [OF m1(2)] by blast
    have "tm_tail m = Some e" using snoc.prems by (simp add: tm_inv_def dll_def final_append)
    then have "tool_memory_prune_locked m = Some m'"
      using True full m1(1) m'(1) by (subst tool_memory_prune_locked.simps) simp
    moreover have "butlast (tm_view m (as @ [e])) = tm_view m as" by (simp add: tm_view_def)
    ultimately show ?thesis using True ne m' m1 limits_same [OF m1(4)] same_limits_trans [OF m1(4) m'(3)]
      by (intro exI [of _ m'] exI [of _ as']) (simp add: lru_prune.simps [of _ _ "tm_view m (as @ [e])"] del: tm_view_append)
  qed
qed

section \<open>Storing a new entry\<close>

text \<open>Between finding or making the block and linking the entry, the block \<open>b\<close> may be empty.\<close>

definition tm_ready :: "tool_memory \<Rightarrow> nat list \<Rightarrow> nat \<Rightarrow> u8 list \<Rightarrow> bool" where
  "tm_ready m as b t \<longleftrightarrow> dll m as \<and> dom (tm_ents m) = set as \<and> ids_ok m \<and> blocks_ok m \<and>
     (\<forall>c \<in> dom (tm_blocks m) - {b}. members m c \<noteq> {}) \<and> sizes_ok m as \<and> fresh_ok m \<and>
     (\<exists>bl. tm_blocks m b = Some bl \<and> tb_dsml bl = t)"

lemma ids_ok_frame: "ids_ok m \<Longrightarrow> fld te_id m' = fld te_id m \<Longrightarrow> tm_by_id m' = tm_by_id m \<Longrightarrow> ids_ok m'"
  by (simp add: ids_ok_def)

lemma get_block_ready:
  assumes inv: "tm_inv m as" and t: "t \<noteq> []" and g: "tool_memory_get_block_locked t m = (b, m1)"
  shows "tm_ready m1 as b t \<and> tm_view m1 as = tm_view m as \<and> same_limits m m1 \<and> tm_by_id m1 = tm_by_id m"
proof (cases "tm_by_block m t")
  case (Some c)
  with g t have "b = c" "m1 = m" by (auto simp: tool_memory_get_block_locked_def tool_memory_find_block_locked_def)
  with inv inv_by_block [OF inv, of t c] Some show ?thesis by (auto simp: tm_ready_def tm_inv_def)
next
  case None
  let ?bl = "\<lparr>tb_dsml = t, tb_len = length t, tb_bytes = length t + 1 + sizeof_block, tb_refs = 0, tb_seen = 0, tb_entries = None\<rparr>"
  have b: "b = tm_fresh m" and m1: "m1 = m\<lparr>tm_fresh := b + 1, tm_blocks := (tm_blocks m)(b \<mapsto> ?bl),
      tm_by_block := (tm_by_block m)(t \<mapsto> b), tm_bytes := tm_bytes m + (length t + 1 + sizeof_block)\<rparr>"
    using g None t by (auto simp: tool_memory_get_block_locked_def tool_memory_find_block_locked_def Let_def)
  have fl: "fld f m1 = fld f m" for f :: "tool_memory_entry \<Rightarrow> 'a" by (simp add: m1)
  have nb: "tm_blocks m b = None" using inv by (auto simp: b tm_inv_def fresh_ok_def)
  have mem: "members m1 c = members m c" for c unfolding members_def fl ..
  have nomem: "fld te_block m a \<noteq> Some b" for a
    using inv nb unfolding tm_inv_def blocks_ok_def by blast
  have ok: "block_ok m c cl" if "tm_blocks m c = Some cl" for c cl using inv that by (simp add: tm_inv_def blocks_ok_def)
  have "blocks_ok m1" unfolding blocks_ok_def
  proof (intro conjI allI impI)
    fix c cl assume c: "tm_blocks m1 c = Some cl"
    show "block_ok m1 c cl"
    proof (cases "c = b")
      case True
      with c t nomem show ?thesis by (auto simp: m1 block_ok_def members_def fl)
    next
      case False
      with c have c': "tm_blocks m c = Some cl" by (simp add: m1)
      then have "tb_dsml cl \<noteq> t" using None inv_by_block [OF inv, of t c] by auto
      then show ?thesis using ok [OF c'] by (intro block_ok_frame [OF ok [OF c'] mem]) (auto simp: m1 block_ok_def)
    qed
  next
    fix k c assume "tm_by_block m1 k = Some c"
    then show "\<exists>bl. tm_blocks m1 c = Some bl \<and> tb_dsml bl = k"
      using inv_by_block [OF inv, of k c] nb by (auto simp: m1 split: if_splits)
  next
    fix a c assume "fld te_block m1 a = Some c"
    then have "tm_blocks m c \<noteq> None" using inv unfolding fl tm_inv_def blocks_ok_def by blast
    then show "tm_blocks m1 c \<noteq> None" by (simp add: m1)
  qed
  moreover have "sizes_ok m1 as"
  proof -
    have "sum (\<lambda>c. tb_bytes (the (tm_blocks m1 c))) (dom (tm_blocks m1)) =
        length t + 1 + sizeof_block + sum (\<lambda>c. tb_bytes (the (tm_blocks m1 c))) (dom (tm_blocks m))"
      using inv nb by (simp add: m1 tm_inv_def sizes_ok_def domIff)
    moreover have "sum (\<lambda>c. tb_bytes (the (tm_blocks m1 c))) (dom (tm_blocks m)) = sum (\<lambda>c. tb_bytes (the (tm_blocks m c))) (dom (tm_blocks m))"
      using nb by (intro sum.cong) (auto simp: m1)
    ultimately show ?thesis using inv unfolding tm_inv_def sizes_ok_def fl by (simp add: m1)
  qed
  moreover have "text_of m1 a = text_of m a" if "a \<in> set as" for a
  proof -
    have "a \<in> dom (tm_ents m)" using inv that by (simp add: tm_inv_def)
    then obtain c where "fld te_block m a = Some c" by (auto simp: fld_def)
    then show ?thesis using nomem [of a] by (simp add: text_of_def fl m1)
  qed
  then have "tm_view m1 as = tm_view m as" by (intro tm_view_cong) (simp_all add: fl)
  moreover have "dll m as" using inv by (simp add: tm_inv_def)
  then have "dll m1 as" by (rule dll_frame) (simp_all only: fl, simp_all add: m1)
  moreover have "ids_ok m" using inv by (simp add: tm_inv_def)
  then have "ids_ok m1" by (rule ids_ok_frame) (simp_all only: fl, simp add: m1)
  moreover have "fresh_ok m1" using inv by (auto simp: tm_inv_def fresh_ok_def m1 b less_Suc_eq)
  moreover have "\<forall>c \<in> dom (tm_blocks m1) - {b}. members m1 c \<noteq> {}"
  proof
    fix c assume "c \<in> dom (tm_blocks m1) - {b}"
    then have "c \<in> dom (tm_blocks m)" by (auto simp: m1)
    then show "members m1 c \<noteq> {}" unfolding mem using inv by (simp add: tm_inv_def)
  qed
  moreover have "dom (tm_ents m1) = set as" using inv by (simp add: m1 tm_inv_def)
  moreover have "same_limits m m1" "tm_by_id m1 = tm_by_id m" "\<exists>bl. tm_blocks m1 b = Some bl \<and> tb_dsml bl = t"
    by (simp_all add: m1 same_limits_def)
  ultimately show ?thesis unfolding tm_ready_def by blast
qed

lemma inverse_insert:
  assumes inverse: "\<forall>i a. B i = Some a \<longleftrightarrow> F a = Some i" and e: "F e = None" and j: "B j = None"
  shows "\<forall>i a. (B(j \<mapsto> e)) i = Some a \<longleftrightarrow> (F(e \<mapsto> j)) a = Some i"
proof (intro allI)
  fix i a
  have iff: "B i = Some a \<longleftrightarrow> F a = Some i" using inverse by blast
  have "B j = Some a" if "F a = Some j" using inverse that by blast
  then have "F a \<noteq> Some j" using j by auto
  moreover have "F e = Some i" if "B i = Some e" using inverse that by blast
  then have "B i \<noteq> Some e" using e by auto
  ultimately show "(B(j \<mapsto> e)) i = Some a \<longleftrightarrow> (F(e \<mapsto> j)) a = Some i"
    using iff by (cases "i = j"; cases "a = e") auto
qed

text \<open>The fields after the insertion.\<close>

lemma insert_fields:
  assumes r: "tm_ready m as b t"
  shows "\<exists>m' bl. tool_memory_insert i b src m = Some m' \<and> tm_blocks m b = Some bl \<and> dll m' (tm_fresh m # as) \<and>
    fld te_id m' = (fld te_id m)(tm_fresh m \<mapsto> i) \<and> fld te_block m' = (fld te_block m)(tm_fresh m \<mapsto> b) \<and>
    fld te_bytes m' = (fld te_bytes m)(tm_fresh m \<mapsto> length i + 1 + sizeof_entry) \<and>
    fld te_source m' = (fld te_source m)(tm_fresh m \<mapsto> src) \<and> bnexts m' = (bnexts m)(tm_fresh m \<mapsto> tb_entries bl) \<and>
    tm_by_id m' = (tm_by_id m)(i \<mapsto> tm_fresh m) \<and> tm_by_block m' = tm_by_block m \<and>
    tm_blocks m' = (tm_blocks m)(b \<mapsto> bl\<lparr>tb_entries := Some (tm_fresh m), tb_refs := tb_refs bl + 1\<rparr>) \<and>
    tm_entries m' = tm_entries m + 1 \<and> tm_bytes m' = tm_bytes m + (length i + 1 + sizeof_entry) \<and>
    tm_fresh m' = tm_fresh m + 1 \<and> same_limits m m'"
proof -
  obtain bl where bl: "tm_blocks m b = Some bl" using r by (auto simp: tm_ready_def)
  let ?e = "tm_fresh m"
  have ne: "tm_ents m ?e = None" using r by (auto simp: tm_ready_def fresh_ok_def)
  define x where "x = \<lparr>te_id = i, te_block = b, te_bytes = length i + 1 + sizeof_entry, te_stamp = tm_clock m + 1,
    te_source = src, te_prev = None, te_next = None, te_bnext = tb_entries bl\<rparr>"
  define m3 where "m3 = m\<lparr>tm_fresh := ?e + 1, tm_clock := tm_clock m + 1, tm_ents := (tm_ents m)(?e \<mapsto> x),
    tm_blocks := (tm_blocks m)(b \<mapsto> bl\<lparr>tb_entries := Some ?e, tb_refs := tb_refs bl + 1\<rparr>), tm_by_id := (tm_by_id m)(i \<mapsto> ?e)\<rparr>"
  have f3: "fld f m3 = (fld f m)(?e \<mapsto> f x)" for f :: "tool_memory_entry \<Rightarrow> 'a" by (simp add: m3_def fld_def fun_eq_iff)
  have "?e \<notin> set as" using r ne unfolding tm_ready_def by (metis domIff)
  moreover have "dll m as" using r by (simp add: tm_ready_def)
  ultimately have "dll m3 as" unfolding dll_def f3 by (simp add: m3_def)
  moreover have "tm_ents m3 ?e \<noteq> None" by (simp add: m3_def)
  ultimately obtain m4 where m4: "tool_memory_link_head ?e m3 = Some m4" "erase m4 = erase m3" "dll m4 (?e # as)"
    using link_head_spec [of m3 as ?e] \<open>?e \<notin> set as\<close> by blast
  have f4: "fld te_id m4 = fld te_id m3" "fld te_block m4 = fld te_block m3" "fld te_bytes m4 = fld te_bytes m3"
    "fld te_source m4 = fld te_source m3" "bnexts m4 = bnexts m3"
    by (rule erase_fld [OF m4(2)], simp add: unlinked_def)+
  let ?m = "m4\<lparr>tm_entries := tm_entries m4 + 1, tm_bytes := tm_bytes m4 + te_bytes x\<rparr>"
  have "tool_memory_insert i b src m = Some ?m"
    using bl m4(1) by (simp add: tool_memory_insert_def upd_block_def x_def m3_def)
  moreover have "dll ?m (?e # as)" by (rule dll_frame [OF m4(3)]) simp_all
  ultimately show ?thesis using bl
    by (intro exI [of _ ?m] exI [of _ bl]) (simp add: f4 f3 erase_same [OF m4(2)] same_limits_def, simp add: m3_def x_def)
qed

lemma insert_inv:
  assumes r: "tm_ready m as b t" and i: "i \<noteq> []" "tm_by_id m i = None"
  shows "\<exists>m'. tool_memory_insert i b src m = Some m' \<and> tm_inv m' (tm_fresh m # as) \<and>
    tm_view m' (tm_fresh m # as) = (i, t, src) # tm_view m as \<and> same_limits m m'"
proof -
  let ?e = "tm_fresh m"
  obtain m' bl where m': "tool_memory_insert i b src m = Some m'" and bl: "tm_blocks m b = Some bl"
    and d: "dll m' (?e # as)" and f: "fld te_id m' = (fld te_id m)(?e \<mapsto> i)" "fld te_block m' = (fld te_block m)(?e \<mapsto> b)"
      "fld te_bytes m' = (fld te_bytes m)(?e \<mapsto> length i + 1 + sizeof_entry)" "fld te_source m' = (fld te_source m)(?e \<mapsto> src)"
    and bn: "bnexts m' = (bnexts m)(?e \<mapsto> tb_entries bl)"
    and ids: "tm_by_id m' = (tm_by_id m)(i \<mapsto> ?e)" and bb: "tm_by_block m' = tm_by_block m"
    and bs: "tm_blocks m' = (tm_blocks m)(b \<mapsto> bl\<lparr>tb_entries := Some ?e, tb_refs := tb_refs bl + 1\<rparr>)"
    and n: "tm_entries m' = tm_entries m + 1" and by': "tm_bytes m' = tm_bytes m + (length i + 1 + sizeof_entry)"
    and fr: "tm_fresh m' = ?e + 1" and lim: "same_limits m m'"
    using insert_fields [OF r] by blast
  have t: "tb_dsml bl = t" using r bl by (auto simp: tm_ready_def)
  have ne: "tm_ents m ?e = None" using r by (auto simp: tm_ready_def fresh_ok_def)
  have eas: "?e \<notin> set as" using d by (simp add: dll_def)
  have none: "fld g m ?e = None" for g :: "tool_memory_entry \<Rightarrow> 'a" using ne by (simp add: fld_def)
  have "(a \<in> dom (tm_ents m')) = (a \<in> insert ?e (dom (tm_ents m)))" for a
    unfolding dom_fld [of a m' te_id] f(1) using dom_fld [of a m te_id] by (cases "a = ?e") auto
  then have dom: "dom (tm_ents m') = set (?e # as)" using r by (auto simp: tm_ready_def)
  have mem: "members m' c = (if c = b then insert ?e (members m b) else members m c)" for c
    unfolding members_def f(2) using none [of te_block] by auto
  have ok: "block_ok m c cl" if "tm_blocks m c = Some cl" for c cl using r that by (simp add: tm_ready_def blocks_ok_def)
  have enot: "?e \<notin> members m c" for c using none [of te_block] by (simp add: members_def)
  have "ids_ok m'"
  proof -
    have "\<forall>i a. tm_by_id m i = Some a \<longleftrightarrow> fld te_id m a = Some i" "tm_by_id m [] = None"
      using r by (simp_all add: tm_ready_def ids_ok_def)
    with inverse_insert [OF this(1) none [of te_id] i(2)] i(1) show ?thesis unfolding ids_ok_def ids f by simp
  qed
  moreover have "blocks_ok m'" unfolding blocks_ok_def
  proof (intro conjI allI impI)
    fix c cl assume c: "tm_blocks m' c = Some cl"
    show "block_ok m' c cl"
    proof (cases "c = b")
      case True
      then have cl: "cl = bl\<lparr>tb_entries := Some ?e, tb_refs := tb_refs bl + 1\<rparr>" using c by (simp add: bs)
      obtain cs where cs: "chain (bnexts m) (tb_entries bl) cs" "distinct cs" "set cs = members m b" "tb_refs bl = int (length cs)"
        using ok [OF bl] by (auto simp: block_ok_def)
      have "?e \<notin> set cs" using cs(3) enot by simp
      then have "chain (bnexts m') (Some ?e) (?e # cs) \<and> distinct (?e # cs) \<and> set (?e # cs) = members m' b"
        using cs by (simp add: bn mem)
      then show ?thesis using ok [OF bl] cs(4) True unfolding block_ok_def cl bb by (auto intro!: exI [of _ "?e # cs"])
    next
      case False
      then have c': "tm_blocks m c = Some cl" using c by (simp add: bs)
      have "bnexts m' a = bnexts m a" if "a \<in> members m c" for a using that enot [of c] by (auto simp: bn)
      then show ?thesis using ok [OF c'] False by (intro block_ok_frame [OF ok [OF c']]) (simp_all add: mem bb block_ok_def)
    qed
  next
    fix k c assume "tm_by_block m' k = Some c"
    then have "\<exists>cl. tm_blocks m c = Some cl \<and> tb_dsml cl = k" using r unfolding bb tm_ready_def blocks_ok_def by blast
    then show "\<exists>cl. tm_blocks m' c = Some cl \<and> tb_dsml cl = k" using bl by (auto simp: bs)
  next
    fix a c assume "fld te_block m' a = Some c"
    then have "c = b \<or> fld te_block m a = Some c" by (auto simp: f split: if_splits)
    then have "tm_blocks m c \<noteq> None" using r bl unfolding tm_ready_def blocks_ok_def by blast
    then show "tm_blocks m' c \<noteq> None" by (simp add: bs)
  qed
  moreover have "\<forall>c \<in> dom (tm_blocks m'). members m' c \<noteq> {}"
    using r bl by (auto simp: mem bs tm_ready_def)
  moreover have "sizes_ok m' (?e # as)"
  proof -
    have "sum (\<lambda>c. tb_bytes (the (tm_blocks m' c))) (dom (tm_blocks m')) = sum (\<lambda>c. tb_bytes (the (tm_blocks m c))) (dom (tm_blocks m))"
      using bl by (intro sum.cong) (auto simp: bs)
    moreover have "(\<Sum>a \<in> set (?e # as). the (fld te_bytes m' a)) = length i + 1 + sizeof_entry + (\<Sum>a \<in> set as. the (fld te_bytes m a))"
    proof -
      have "(\<Sum>a \<in> set as. the (fld te_bytes m' a)) = (\<Sum>a \<in> set as. the (fld te_bytes m a))"
        using eas by (intro sum.cong) (auto simp: f)
      then show ?thesis using eas by (simp add: f)
    qed
    moreover have "fld te_bytes m' a = map_option (\<lambda>i. length i + 1 + sizeof_entry) (fld te_id m' a)" for a
      using r unfolding f tm_ready_def sizes_ok_def by (cases "a = ?e") auto
    moreover have "finite (dom (tm_blocks m'))" using r by (simp add: bs tm_ready_def sizes_ok_def)
    ultimately show ?thesis using r n by' by (simp add: tm_ready_def sizes_ok_def)
  qed
  moreover have "fresh_ok m'"
    using r bl unfolding fresh_ok_def tm_ready_def dom fr by (auto simp: bs less_Suc_eq split: if_splits)
  ultimately have inv: "tm_inv m' (?e # as)" using d dom by (simp add: tm_inv_def)
  have "text_of m' a = text_of m a" if "a \<in> set as" for a
    using that eas bl by (auto simp: text_of_def f bs)
  then have "tm_view m' as = tm_view m as" using eas by (intro tm_view_cong) (auto simp: f)
  moreover have "tm_view m' [?e] = [(i, t, src)]" using t by (simp add: tm_view_def text_of_def f bs)
  ultimately have "tm_view m' (?e # as) = (i, t, src) # tm_view m as" using tm_view_append [of m' "[?e]" as] by simp
  with m' inv lim show ?thesis by blast
qed

section \<open>Moving and finding entries\<close>

lemma erase_inv:
  assumes inv: "tm_inv m as" and er: "erase m' = erase m" and d: "dll m' as'" and s: "set as' = set as"
  shows "tm_inv m' as'" and "tm_view m' zs = tm_view m zs"
proof -
  have f: "fld te_id m' = fld te_id m" "fld te_block m' = fld te_block m" "fld te_bytes m' = fld te_bytes m"
    "fld te_source m' = fld te_source m" "bnexts m' = bnexts m"
    by (rule erase_fld [OF er], simp add: unlinked_def)+
  note same = erase_same [OF er]
  have "length as' = length as" using d inv s by (metis dll_def tm_inv_def distinct_card)
  then show "tm_inv m' as'" using inv d s
    unfolding tm_inv_def ids_ok_def blocks_ok_def block_ok_def members_def sizes_ok_def fresh_ok_def erase_dom [OF er] f same
    by simp
  show "tm_view m' zs = tm_view m zs" by (simp add: tm_view_def text_of_def f same)
qed

lemma view_at:
  assumes inv: "tm_inv m (xs @ e # ys)" and i: "fld te_id m e = Some i"
  shows "lru_without i (tm_view m (xs @ e # ys)) = tm_view m (xs @ ys)"
    and "map_of (tm_view m (xs @ e # ys)) i = Some (text_of m e, the (fld te_source m e))"
proof -
  have other: "the (fld te_id m a) \<noteq> i" if "a \<in> set (xs @ ys)" for a
  proof
    assume "the (fld te_id m a) = i"
    moreover have "a \<in> dom (tm_ents m)" using inv that by (auto simp: tm_inv_def)
    ultimately have "fld te_id m a = Some i" by (auto simp: fld_def)
    with i inv have "a = e" unfolding tm_inv_def ids_ok_def by (metis option.inject)
    with that inv show False by (auto simp: tm_inv_def dll_def)
  qed
  then have keep: "lru_without i (tm_view m zs) = tm_view m zs" if "set zs \<subseteq> set (xs @ ys)" for zs
    unfolding lru_without_def using that by (intro filter_True) (auto simp: tm_view_def)
  have "tm_view m (xs @ e # ys) = tm_view m xs @ (i, text_of m e, the (fld te_source m e)) # tm_view m ys"
    by (simp add: tm_view_def i)
  then show "lru_without i (tm_view m (xs @ e # ys)) = tm_view m (xs @ ys)"
    using keep [of xs] keep [of ys] by (simp add: lru_without_def)
  have left: "the (fld te_id m a) \<noteq> i" if "a \<in> set xs" for a using other that by simp
  have "map_of (tm_view m xs) i = None" by (auto simp: tm_view_def map_of_eq_None_iff dest: left)
  then show "map_of (tm_view m (xs @ e # ys)) i = Some (text_of m e, the (fld te_source m e))"
    by (simp add: tm_view_def i map_add_def)
qed

lemma view_absent:
  assumes inv: "tm_inv m as" and i: "tm_by_id m i = None"
  shows "lru_without i (tm_view m as) = tm_view m as" and "map_of (tm_view m as) i = None"
proof -
  have other: "the (fld te_id m a) \<noteq> i" if "a \<in> set as" for a
  proof
    assume "the (fld te_id m a) = i"
    moreover have "a \<in> dom (tm_ents m)" using inv that by (auto simp: tm_inv_def)
    ultimately have "fld te_id m a = Some i" by (auto simp: fld_def)
    with inv i show False unfolding tm_inv_def ids_ok_def by (metis option.distinct(1))
  qed
  then show "lru_without i (tm_view m as) = tm_view m as"
    unfolding lru_without_def by (intro filter_True) (auto simp: tm_view_def)
  show "map_of (tm_view m as) i = None" by (auto simp: tm_view_def map_of_eq_None_iff dest: other)
qed

text \<open>Where a known id is.\<close>

lemma inv_find:
  assumes inv: "tm_inv m as" and i: "tm_by_id m i = Some e"
  obtains xs ys where "as = xs @ e # ys" "fld te_id m e = Some i"
proof -
  have f: "fld te_id m e = Some i" using inv i by (simp add: tm_inv_def ids_ok_def)
  then have "e \<in> set as" using inv dom_fld [of e m te_id] by (auto simp: tm_inv_def)
  then obtain xs ys where "as = xs @ e # ys" by (meson split_list)
  with f show thesis using that by blast
qed

lemma touch_inv:
  assumes inv: "tm_inv m (xs @ e # ys)"
  shows "\<exists>m'. tool_memory_touch e m = Some m' \<and> tm_inv m' (e # xs @ ys) \<and> same_limits m m' \<and>
    tm_view m' (e # xs @ ys) = tm_view m [e] @ tm_view m (xs @ ys) \<and>
    fld te_block m' = fld te_block m \<and> fld te_source m' = fld te_source m \<and> tm_blocks m' = tm_blocks m"
proof -
  obtain m' where m': "tool_memory_touch e m = Some m'" "erase m' = erase m" "dll m' (e # xs @ ys)"
    using touch_spec [of m xs e ys] inv by (auto simp: tm_inv_def)
  have "tm_view m' (e # xs @ ys) = tm_view m (e # xs @ ys)" by (rule erase_inv(2) [OF inv m'(2,3)]) auto
  then have "tm_view m' (e # xs @ ys) = tm_view m [e] @ tm_view m (xs @ ys)" by (simp add: tm_view_def)
  moreover have "tm_inv m' (e # xs @ ys)" by (rule erase_inv(1) [OF inv m'(2,3)]) auto
  moreover have "fld te_block m' = fld te_block m" "fld te_source m' = fld te_source m"
    by (rule erase_fld [OF m'(2)], simp add: unlinked_def)+
  ultimately show ?thesis using m'(1) erase_same [OF m'(2)] by (intro exI [of _ m']) (simp add: same_limits_def)
qed

text \<open>Upgrading the source of an entry.\<close>

lemma source_inv:
  assumes inv: "tm_inv m as" and e: "e \<in> set as"
  shows "\<exists>m'. upd_ent e (\<lambda>x. x\<lparr>te_source := src\<rparr>) m = Some m' \<and> tm_inv m' as \<and> same_limits m m' \<and>
    (\<forall>zs. e \<notin> set zs \<longrightarrow> tm_view m' zs = tm_view m zs) \<and> text_of m' e = text_of m e \<and>
    fld te_id m' = fld te_id m \<and> fld te_source m' e = Some src"
proof -
  have "e \<in> dom (tm_ents m)" using inv e by (simp add: tm_inv_def)
  then obtain x where x: "tm_ents m e = Some x" by blast
  let ?m = "m\<lparr>tm_ents := (tm_ents m)(e \<mapsto> x\<lparr>te_source := src\<rparr>)\<rparr>"
  have f: "fld g ?m = fld g m" if "\<And>y. g (y\<lparr>te_source := src\<rparr>) = g y" for g :: "tool_memory_entry \<Rightarrow> 'a"
    using x that by (auto simp: fld_def fun_eq_iff)
  have fs: "fld te_source ?m = (fld te_source m)(e \<mapsto> src)" using x by (simp add: fld_upd)
  have ff: "links ?m = links m" "fld te_id ?m = fld te_id m" "fld te_block ?m = fld te_block m" "fld te_bytes ?m = fld te_bytes m"
    "bnexts ?m = bnexts m" by (rule f; simp)+
  have "dom (tm_ents ?m) = dom (tm_ents m)" using x by auto
  then have "tm_inv ?m as" using inv
    unfolding tm_inv_def dll_def ids_ok_def blocks_ok_def block_ok_def members_def sizes_ok_def fresh_ok_def ff by simp
  moreover have "tm_view ?m zs = tm_view m zs" if "e \<notin> set zs" for zs
    using that by (intro tm_view_cong) (auto simp: ff fs text_of_def)
  ultimately show ?thesis using x fs ff
    by (intro exI [of _ ?m]) (simp add: upd_ent_Some same_limits_def text_of_def)
qed

section \<open>Refinement\<close>

lemma map_of_without [simp]: "map_of (lru_without i l) i = None"
  by (induction l) (auto simp: lru_without_def)

lemma inv_absent_iff: "tm_inv m as \<Longrightarrow> tm_by_id m i = None \<longleftrightarrow> map_of (tm_view m as) i = None"
proof
  assume inv: "tm_inv m as"
  then show "tm_by_id m i = None \<Longrightarrow> map_of (tm_view m as) i = None" by (rule view_absent)
  assume none: "map_of (tm_view m as) i = None"
  show "tm_by_id m i = None"
  proof (rule ccontr)
    assume "tm_by_id m i \<noteq> None"
    then obtain e where "tm_by_id m i = Some e" by blast
    from inv_find [OF inv this] obtain xs ys where "as = xs @ e # ys" "fld te_id m e = Some i" by blast
    with inv none view_at(2) [of m xs e ys i] show False by (simp del: tm_view_append)
  qed
qed

lemma store_spec:
  assumes inv: "tm_inv m as" and i: "i \<noteq> []" "tm_by_id m i = None" and t: "t \<noteq> []"
  shows "\<exists>m' as'. (case tool_memory_get_block_locked t m of
      (b, m) \<Rightarrow> do { m \<leftarrow> tool_memory_insert i b src m; tool_memory_prune_locked m }) = Some m' \<and>
    tm_inv m' as' \<and> same_limits m m' \<and>
    tm_view m' as' = lru_prune (tool_memory_max_entries m) (tool_memory_max_bytes m) ((i, t, src) # tm_view m as)"
proof -
  obtain b m1 where g: "tool_memory_get_block_locked t m = (b, m1)" by fastforce
  from get_block_ready [OF inv t this] have r: "tm_ready m1 as b t" "tm_view m1 as = tm_view m as" "same_limits m m1" "tm_by_id m1 i = None"
    using i by simp_all
  obtain m2 where m2: "tool_memory_insert i b src m1 = Some m2" "tm_inv m2 (tm_fresh m1 # as)"
      "tm_view m2 (tm_fresh m1 # as) = (i, t, src) # tm_view m1 as" "same_limits m1 m2"
    using insert_inv [OF r(1) i(1) r(4)] by blast
  obtain m' as' where "tool_memory_prune_locked m2 = Some m'" "tm_inv m' as'" "same_limits m2 m'"
      "tm_view m' as' = lru_prune (tool_memory_max_entries m2) (tool_memory_max_bytes m2) (tm_view m2 (tm_fresh m1 # as))"
    using prune_spec [OF m2(2)] by blast
  with g r m2 limits_same [OF r(3)] limits_same [OF m2(4)] show ?thesis
    by (intro exI [of _ m'] exI [of _ as']) (auto intro: same_limits_trans)
qed

lemma same_spec:
  assumes inv: "tm_inv m (xs @ e # ys)"
  shows "tool_memory_same (Some e) t m = Some (text_of m e = t)"
proof -
  obtain x bl where "tm_ents m e = Some x" "tm_blocks m (te_block x) = Some bl" "block_ok m (te_block x) bl"
    by (rule inv_entry [OF inv, of e]) (simp, blast)
  then show ?thesis by (auto simp: tool_memory_same_def text_of_def fld_def block_ok_def)
qed

lemma put_spec:
  assumes inv: "tm_inv m as"
  shows "\<exists>m' as'. tool_memory_put_locked i t src m = Some m' \<and> tm_inv m' as' \<and> same_limits m m' \<and>
    tm_view m' as' = lru_put (tool_memory_max_entries m) (tool_memory_max_bytes m) i t src (tm_view m as)"
proof (cases "i = [] \<or> t = []")
  case True
  with inv show ?thesis by (intro exI [of _ m] exI [of _ as]) (auto simp: tool_memory_put_locked_def lru_put_def)
next
  case ne: False
  let ?old = "tool_memory_find_entry_locked m i"
  have old: "?old = tm_by_id m i" using ne by (simp add: tool_memory_find_entry_locked_def)
  show ?thesis
  proof (cases "tm_by_id m i")
    case None
    with store_spec [OF inv _ None] ne old view_absent [OF inv None] show ?thesis
      by (simp add: tool_memory_put_locked_def tool_memory_same_def lru_put_def)
  next
    case (Some e)
    then obtain xs ys where as: "as = xs @ e # ys" and fi: "fld te_id m e = Some i" by (rule inv_find [OF inv])
    note inv' = inv [unfolded as]
    note view = view_at [OF inv' fi]
    note same = same_spec [OF inv', of t]
    show ?thesis
    proof (cases "text_of m e = t")
      case False
      obtain m1 where m1: "tool_memory_remove_entry_locked e m = Some m1" "tm_inv m1 (xs @ ys)"
          "tm_view m1 (xs @ ys) = tm_view m (xs @ ys)" "same_limits m m1"
        using remove_spec [OF inv'] by blast
      have "map_of (tm_view m1 (xs @ ys)) i = None" unfolding m1(3) view(1) [symmetric] by simp
      then have "tm_by_id m1 i = None" using inv_absent_iff [OF m1(2)] by simp
      from store_spec [OF m1(2) _ this, of t src] ne obtain m' as' where
        m': "(case tool_memory_get_block_locked t m1 of (b, m) \<Rightarrow> do { m \<leftarrow> tool_memory_insert i b src m; tool_memory_prune_locked m }) = Some m'"
          "tm_inv m' as'" "same_limits m1 m'"
          "tm_view m' as' = lru_prune (tool_memory_max_entries m) (tool_memory_max_bytes m) ((i, t, src) # tm_view m (xs @ ys))"
        using m1(3) limits_same [OF m1(4)] by auto
      have "tool_memory_put_locked i t src m = Some m'"
        using ne old Some same False m1(1) m'(1) by (simp add: tool_memory_put_locked_def)
      with m' view False ne same_limits_trans [OF m1(4) m'(3)] show ?thesis
        by (intro exI [of _ m'] exI [of _ as']) (simp add: lru_put_def as del: tm_view_append)
    next
      case True
      let ?src = "if src = TOOL_MEMORY_DISK then the (fld te_source m e) else src"
      obtain m1 where m1: "(if src = TOOL_MEMORY_RAM then upd_ent e (\<lambda>x. x\<lparr>te_source := TOOL_MEMORY_RAM\<rparr>) m else Some m) = Some m1"
          "tm_inv m1 (xs @ e # ys)" "same_limits m m1" "tm_view m1 [e] = [(i, t, ?src)]" "tm_view m1 (xs @ ys) = tm_view m (xs @ ys)"
      proof (cases src)
        case TOOL_MEMORY_RAM
        obtain m1 where "upd_ent e (\<lambda>x. x\<lparr>te_source := TOOL_MEMORY_RAM\<rparr>) m = Some m1" "tm_inv m1 (xs @ e # ys)" "same_limits m m1"
            "\<forall>zs. e \<notin> set zs \<longrightarrow> tm_view m1 zs = tm_view m zs" "text_of m1 e = text_of m e" "fld te_id m1 = fld te_id m"
            "fld te_source m1 e = Some TOOL_MEMORY_RAM"
          using source_inv [OF inv', of e] by auto
        moreover have "e \<notin> set (xs @ ys)" using inv' by (simp add: tm_inv_def dll_def)
        ultimately show thesis using TOOL_MEMORY_RAM True fi by (intro that [of m1]) (auto simp: tm_view_def)
      next
        case TOOL_MEMORY_DISK
        then show thesis using inv' True fi by (intro that [of m]) (auto simp: tm_view_def)
      qed
      obtain m2 where m2: "tool_memory_touch e m1 = Some m2" "tm_inv m2 (e # xs @ ys)" "same_limits m1 m2"
          "tm_view m2 (e # xs @ ys) = tm_view m1 [e] @ tm_view m1 (xs @ ys)"
        using touch_inv [OF m1(2)] by blast
      obtain m' as' where m': "tool_memory_prune_locked m2 = Some m'" "tm_inv m' as'" "same_limits m2 m'"
          "tm_view m' as' = lru_prune (tool_memory_max_entries m2) (tool_memory_max_bytes m2) (tm_view m2 (e # xs @ ys))"
        using prune_spec [OF m2(2)] by blast
      have lim: "same_limits m m2" by (rule same_limits_trans [OF m1(3) m2(3)])
      have "tool_memory_put_locked i t src m = Some m'"
        using ne old Some same True m1(1) m2(1) m'(1)
        by (cases "src = TOOL_MEMORY_RAM") (simp_all add: tool_memory_put_locked_def)
      moreover have "lru_put (tool_memory_max_entries m) (tool_memory_max_bytes m) i t src (tm_view m as) = tm_view m' as'"
        using ne True unfolding lru_put_def as view m'(4) m2(4) m1(4,5) by (simp add: limits_same [OF lim])
      ultimately show ?thesis using m'(2) same_limits_trans [OF lim m'(3)] by metis
    qed
  qed
qed

lemma lookup_spec:
  assumes inv: "tm_inv m as"
  shows "\<exists>r m' as'. tool_memory_lookup_locked i m = Some (r, m') \<and> tm_inv m' as' \<and> same_limits m m' \<and>
    (map_option (\<lambda>(t, src, _). (t, src)) r, tm_view m' as') = (if i = [] then (None, tm_view m as) else lru_lookup i (tm_view m as))"
proof (cases "i = [] \<or> tm_by_id m i = None")
  case True
  then have "tool_memory_lookup_locked i m = Some (None, m)"
    by (auto simp: tool_memory_lookup_locked_def tool_memory_find_entry_locked_def)
  with True inv view_absent [OF inv, of i] show ?thesis
    by (intro exI [of _ None] exI [of _ m] exI [of _ as]) (auto simp: lru_lookup_def)
next
  case False
  then obtain e where i: "i \<noteq> []" and e: "tm_by_id m i = Some e" by auto
  obtain xs ys where as: "as = xs @ e # ys" and fi: "fld te_id m e = Some i" by (rule inv_find [OF inv e])
  note inv' = inv [unfolded as]
  obtain m' where m': "tool_memory_touch e m = Some m'" "tm_inv m' (e # xs @ ys)" "same_limits m m'"
      "tm_view m' (e # xs @ ys) = tm_view m [e] @ tm_view m (xs @ ys)" "fld te_block m' = fld te_block m"
      "fld te_source m' = fld te_source m" "tm_blocks m' = tm_blocks m"
    using touch_inv [OF inv'] by blast
  obtain x bl where x: "tm_ents m' e = Some x" "tm_blocks m' (te_block x) = Some bl"
    by (rule inv_entry [OF m'(2), of e]) (simp, blast)
  have "fld te_block m e = Some (te_block x)" "fld te_source m e = Some (te_source x)"
    unfolding m'(5) [symmetric] m'(6) [symmetric] using x(1) by (simp_all add: fld_def)
  then have "tb_dsml bl = text_of m e" "te_source x = the (fld te_source m e)"
    using x(2) m'(7) by (simp_all add: text_of_def)
  moreover have "tool_memory_lookup_locked i m = Some (Some (tb_dsml bl, te_source x, te_block x), m')"
    using i e m'(1) x by (simp add: tool_memory_lookup_locked_def tool_memory_find_entry_locked_def)
  ultimately show ?thesis using m'(2-4) i view_at [OF inv' fi] fi unfolding as
    by (intro exI [of _ "Some (tb_dsml bl, te_source x, te_block x)"] exI [of _ m'] exI [of _ "e # xs @ ys"])
      (simp add: lru_lookup_def tm_view_def)
qed

text \<open>Removing from the tail until nothing is left frees every entry and every block.\<close>

lemma free_entries_spec:
  "tm_inv m as \<Longrightarrow> \<exists>m'. free_entries m = Some m' \<and> tm_ents m' = Map.empty \<and> tm_blocks m' = Map.empty"
proof (induction as arbitrary: m rule: rev_induct)
  case Nil
  then have e: "tm_tail m = None" "dom (tm_ents m) = {}" by (simp_all add: tm_inv_def dll_def)
  then have "members m b = {}" for b by (auto simp: members_def fld_def)
  then have "dom (tm_blocks m) = {}" using Nil by (auto simp: tm_inv_def)
  moreover have "free_entries m = Some m" using e by (subst free_entries.simps) simp
  ultimately show ?case using e by (intro exI [of _ m]) simp
next
  case (snoc e as)
  obtain m1 where m1: "tool_memory_remove_entry_locked e m = Some m1" "tm_inv m1 as"
    using remove_spec [of m as e "[]"] snoc.prems by auto
  have "tm_tail m = Some e" using snoc.prems by (simp add: tm_inv_def dll_def final_append)
  then have "free_entries m = free_entries m1" using m1 by (subst free_entries.simps) simp
  with snoc.IH [OF m1(2)] show ?case by simp
qed

section \<open>Any sequence of requests\<close>

datatype tool_op = Op_put "u8 list" "u8 list" tool_memory_source | Op_lookup "u8 list"

text \<open>The answers of the lookups in order, and the memory afterwards.\<close>

fun tool_run :: "tool_op list \<Rightarrow> tool_memory \<Rightarrow> ((u8 list \<times> tool_memory_source) option list \<times> tool_memory) option" where
  "tool_run [] m = Some ([], m)"
| "tool_run (Op_put i t src # ops) m = do { m \<leftarrow> tool_memory_put_locked i t src m; tool_run ops m }"
| "tool_run (Op_lookup i # ops) m =
     do {
       (r, m) \<leftarrow> tool_memory_lookup_locked i m;
       (rs, m) \<leftarrow> tool_run ops m;
       Some (map_option (\<lambda>(t, src, _). (t, src)) r # rs, m)
     }"

fun lru_run :: "int \<Rightarrow> nat \<Rightarrow> tool_op list \<Rightarrow> lru \<Rightarrow> (u8 list \<times> tool_memory_source) option list \<times> lru" where
  "lru_run maxe maxb [] l = ([], l)"
| "lru_run maxe maxb (Op_put i t src # ops) l = lru_run maxe maxb ops (lru_put maxe maxb i t src l)"
| "lru_run maxe maxb (Op_lookup i # ops) l =
     (let (r, l) = (if i = [] then (None, l) else lru_lookup i l); (rs, l) = lru_run maxe maxb ops l in (r # rs, l))"

lemma tool_run_spec:
  "tm_inv m as \<Longrightarrow> \<exists>m' as'. tool_run ops m =
      Some (fst (lru_run (tool_memory_max_entries m) (tool_memory_max_bytes m) ops (tm_view m as)), m') \<and>
    tm_inv m' as' \<and> same_limits m m' \<and>
    tm_view m' as' = snd (lru_run (tool_memory_max_entries m) (tool_memory_max_bytes m) ops (tm_view m as))"
proof (induction ops arbitrary: m as)
  case Nil
  then show ?case by (intro exI [of _ m] exI [of _ as]) simp
next
  case (Cons p ops)
  show ?case
  proof (cases p)
    case (Op_put i t src)
    obtain m1 as1 where m1: "tool_memory_put_locked i t src m = Some m1" "tm_inv m1 as1" "same_limits m m1"
        "tm_view m1 as1 = lru_put (tool_memory_max_entries m) (tool_memory_max_bytes m) i t src (tm_view m as)"
      using put_spec [OF Cons.prems] by blast
    from Cons.IH [OF m1(2)] show ?thesis using m1 Op_put limits_same [OF m1(3)] same_limits_trans [OF m1(3)] by auto
  next
    case (Op_lookup i)
    obtain r m1 as1 where m1: "tool_memory_lookup_locked i m = Some (r, m1)" "tm_inv m1 as1" "same_limits m m1"
        "(map_option (\<lambda>(t, src, _). (t, src)) r, tm_view m1 as1) = (if i = [] then (None, tm_view m as) else lru_lookup i (tm_view m as))"
      using lookup_spec [OF Cons.prems] by blast
    obtain m2 as2 where m2: "tool_run ops m1 = Some (fst (lru_run (tool_memory_max_entries m1) (tool_memory_max_bytes m1) ops (tm_view m1 as1)), m2)"
        "tm_inv m2 as2" "same_limits m1 m2"
        "tm_view m2 as2 = snd (lru_run (tool_memory_max_entries m1) (tool_memory_max_bytes m1) ops (tm_view m1 as1))"
      using Cons.IH [OF m1(2)] by blast
    show ?thesis using m1(1) m2 Op_lookup limits_same [OF m1(3)] same_limits_trans [OF m1(3) m2(3)] m1(4) [symmetric]
      by (intro exI [of _ m2] exI [of _ as2]) (auto split: prod.splits)
  qed
qed

lemma tm_inv_zero: "tm_inv (tool_memory_zero maxe maxb n) []"
  by (simp add: tm_inv_def tool_memory_zero_def dll_def ids_ok_def fld_def blocks_ok_def sizes_ok_def fresh_ok_def)

section \<open>The budget\<close>

lemma lru_prune_within: "0 < maxe \<Longrightarrow> \<not> lru_full maxe maxb (lru_prune maxe maxb l)"
proof (induction maxe maxb l rule: lru_prune.induct)
  case (1 maxe maxb l)
  have "\<not> lru_full maxe maxb []" using 1(2) by (simp add: lru_full_def lru_bytes_def)
  with 1 show ?case by (subst lru_prune.simps) auto
qed

lemma mset_without:
  "distinct (map fst l) \<Longrightarrow> map_of l i = Some v \<Longrightarrow> mset ((i, v) # lru_without i l) = mset l"
proof (induction l)
  case (Cons p l)
  show ?case
  proof (cases "fst p = i")
    case True
    have "lru_without i l = l" 
      unfolding lru_without_def by (intro filter_True) (use Cons.prems(1) True in \<open>force simp: image_iff\<close>)
    with True Cons.prems show ?thesis by (cases p) (simp add: lru_without_def)
  next
    case False
    with Cons show ?thesis by (cases p) (auto simp: lru_without_def)
  qed
qed simp

lemma lru_bytes_mset: "mset l' = mset l \<Longrightarrow> lru_bytes l' = lru_bytes l"
  unfolding lru_bytes_def by (metis (no_types, lifting) mset_eq_setD mset_map sum_mset_sum_list)

lemma lru_lookup_within:
  "distinct (map fst l) \<Longrightarrow> lru_full maxe maxb (snd (lru_lookup i l)) = lru_full maxe maxb l"
proof (cases "map_of l i")
  case (Some v)
  assume "distinct (map fst l)"
  then have e: "mset ((i, v) # lru_without i l) = mset l" using Some by (rule mset_without)
  have "snd (lru_lookup i l) = (i, v) # lru_without i l" using Some by (cases v) (simp add: lru_lookup_def)
  with lru_bytes_mset [OF e] mset_eq_length [OF e] show ?thesis by (simp add: lru_full_def)
qed (simp add: lru_lookup_def)

lemma distinct_view:
  assumes inv: "tm_inv m as"
  shows "distinct (map fst (tm_view m as))"
proof -
  have "inj_on (\<lambda>a. the (fld te_id m a)) (set as)"
  proof (rule inj_onI)
    fix a b assume a: "a \<in> set as" and b: "b \<in> set as" and e: "the (fld te_id m a) = the (fld te_id m b)"
    then have "fld te_id m a = fld te_id m b" using inv dom_fld [of a m te_id] dom_fld [of b m te_id] by (auto simp: tm_inv_def)
    moreover obtain i where "fld te_id m a = Some i" using a inv dom_fld [of a m te_id] by (auto simp: tm_inv_def)
    ultimately show "a = b" using inv unfolding tm_inv_def ids_ok_def by (metis option.inject)
  qed
  moreover have "distinct as" using inv by (simp add: tm_inv_def dll_def)
  ultimately show ?thesis by (simp add: tm_view_def comp_def distinct_map)
qed

definition tm_within :: "tool_memory \<Rightarrow> bool" where
  "tm_within m \<longleftrightarrow> tm_entries m \<le> tool_memory_max_entries m \<and> tm_bytes m \<le> tool_memory_max_bytes m"

lemma within_iff: "tm_inv m as \<Longrightarrow> tm_within m \<longleftrightarrow>
    \<not> lru_full (tool_memory_max_entries m) (tool_memory_max_bytes m) (tm_view m as)"
  using inv_full [of m as] by (auto simp: tm_within_def not_less)

lemma max_entries_pos: "0 < tool_memory_max_entries m"
  by (simp add: tool_memory_max_entries_def DS4_TOOL_MEMORY_DEFAULT_MAX_IDS_def)

lemma tool_run_within: "tm_inv m as \<Longrightarrow> tm_within m \<Longrightarrow> tool_run ops m = Some (rs, m') \<Longrightarrow> tm_within m'"
proof (induction ops arbitrary: m as rs)
  case (Cons p ops)
  show ?case
  proof (cases p)
    case (Op_put i t src)
    obtain m1 as1 where m1: "tool_memory_put_locked i t src m = Some m1" "tm_inv m1 as1" "same_limits m m1"
        "tm_view m1 as1 = lru_put (tool_memory_max_entries m) (tool_memory_max_bytes m) i t src (tm_view m as)"
      using put_spec [OF Cons.prems(1)] by blast
    have "tm_within m1" using Cons.prems(2) lru_prune_within [OF max_entries_pos]
      unfolding within_iff [OF m1(2)] within_iff [OF Cons.prems(1)] m1(4) by (auto simp: lru_put_def limits_same [OF m1(3)])
    with Cons.IH [OF m1(2)] Cons.prems(3) m1(1) Op_put show ?thesis by simp
  next
    case (Op_lookup i)
    obtain r m1 as1 where m1: "tool_memory_lookup_locked i m = Some (r, m1)" "tm_inv m1 as1" "same_limits m m1"
        "(map_option (\<lambda>(t, src, _). (t, src)) r, tm_view m1 as1) = (if i = [] then (None, tm_view m as) else lru_lookup i (tm_view m as))"
      using lookup_spec [OF Cons.prems(1)] by blast
    have "tm_view m1 as1 = (if i = [] then tm_view m as else snd (lru_lookup i (tm_view m as)))"
      using arg_cong [OF m1(4), of snd] by (simp split: if_splits)
    then have "tm_within m1" using Cons.prems(2) lru_lookup_within [OF distinct_view [OF Cons.prems(1)]]
      unfolding within_iff [OF m1(2)] within_iff [OF Cons.prems(1)] by (simp add: limits_same [OF m1(3)])
    with Cons.IH [OF m1(2)] Cons.prems(3) m1(1) Op_lookup show ?thesis by (auto split: bind_splits)
  qed
qed simp

text \<open>C6. The tool memory is a least-recently-used map, whatever is stored and looked up. From the empty memory,
  every sequence of requests runs through on the pointer structures: no freed or null entry or block is ever
  dereferenced, the answers are those of the abstract list (the text last stored for the id, unless it was
  pruned), the limits on entries and bytes hold at the end of the sequence, and freeing the memory afterwards
  returns every entry and every shared text block.\<close>

theorem tool_memory_refines_lru:
  "\<exists>m m'. tool_run ops (tool_memory_zero maxe maxb n) =
      Some (fst (lru_run (tool_memory_max_entries (tool_memory_zero maxe maxb n))
        (tool_memory_max_bytes (tool_memory_zero maxe maxb n)) ops []), m) \<and>
    tm_entries m \<le> tool_memory_max_entries (tool_memory_zero maxe maxb n) \<and>
    tm_bytes m \<le> tool_memory_max_bytes (tool_memory_zero maxe maxb n) \<and>
    free_entries m = Some m' \<and> tm_ents m' = Map.empty \<and> tm_blocks m' = Map.empty \<and>
    tool_memory_free m = Some (tool_memory_zero 0 0 (tm_fresh m'))"
proof -
  let ?m0 = "tool_memory_zero maxe maxb n"
  have v: "tm_view ?m0 [] = []" by (simp add: tm_view_def)
  obtain m as where m: "tool_run ops ?m0 = Some (fst (lru_run (tool_memory_max_entries ?m0) (tool_memory_max_bytes ?m0) ops []), m)"
      "tm_inv m as" "same_limits ?m0 m"
    using tool_run_spec [OF tm_inv_zero [of maxe maxb n], of ops] v by auto
  have "tm_within ?m0" using max_entries_pos [of ?m0] by (simp add: tm_within_def tool_memory_zero_def)
  then have "tm_within m" using tool_run_within [OF tm_inv_zero _ m(1)] by simp
  with m free_entries_spec [OF m(2)] limits_same [OF m(3)] show ?thesis
    by (auto simp: tm_within_def tool_memory_free_def)
qed

end
