(* ===== verification/Tool_Map.thy ===== *)
theory Tool_Map
  imports Tool_Memory_Lru Kv_Codec Server_Stream Tokenizer
begin

text \<open>
  The users of the tool memory in ds4_server.c: storing the calls of a reply, putting the stored texts back into
  the messages of a request, and the map of ids and texts that is saved behind a checkpoint (\<open>kv_tool_map_*\<close>)
  for the tool blocks that occur in its text. A server with \<open>disable_exact_dsml_tool_replay\<close> is the argument
  \<open>off\<close>. Ids are byte strings; the empty one stands for a null pointer too.
\<close>

section \<open>Ids\<close>

definition id_list_contains :: "stop_list \<Rightarrow> u8 list \<Rightarrow> bool" where
  "id_list_contains ids i \<longleftrightarrow> i \<noteq> [] \<and> i \<in> set (sl_v ids)"

definition id_list_push_unique :: "stop_list \<Rightarrow> u8 list \<Rightarrow> stop_list" where
  "id_list_push_unique ids i = (if i = [] \<or> id_list_contains ids i then ids else stop_list_push ids i)"

record tool_calls =
  tc_ids :: "u8 list list"
  tc_raw_tool_text :: "u8 list option"

record chat_msg =
  cm_tool_call_id :: "u8 list"
  cm_tool_call_ids :: "u8 list list"
  cm_calls :: tool_calls

definition collect_tool_call_ids :: "chat_msg list \<Rightarrow> stop_list \<Rightarrow> stop_list" where
  "collect_tool_call_ids msgs ids =
     foldl (\<lambda>ids msg. foldl id_list_push_unique ids (cm_tool_call_id msg # cm_tool_call_ids msg @ tc_ids (cm_calls msg)))
       ids msgs"

section \<open>Storing and replaying\<close>

definition tool_memory_has_id :: "bool \<Rightarrow> u8 list \<Rightarrow> tool_memory \<Rightarrow> bool" where
  "tool_memory_has_id off i m \<longleftrightarrow> \<not> off \<and> i \<noteq> [] \<and> tool_memory_find_entry_locked m i \<noteq> None"

fun remember_loop :: "u8 list list \<Rightarrow> u8 list \<Rightarrow> tool_memory \<Rightarrow> tool_memory option" where
  "remember_loop [] raw m = Some m"
| "remember_loop (i # ids) raw m = do { m \<leftarrow> tool_memory_put_locked i raw TOOL_MEMORY_RAM m; remember_loop ids raw m }"

definition tool_memory_remember :: "bool \<Rightarrow> tool_calls \<Rightarrow> tool_memory \<Rightarrow> tool_memory option" where
  "tool_memory_remember off calls m =
     (case tc_raw_tool_text calls of
        None \<Rightarrow> Some m
      | Some raw \<Rightarrow> if off \<or> raw = [] then Some m else remember_loop (tc_ids calls) raw m)"

definition tool_memory_put_source ::
  "bool \<Rightarrow> u8 list \<Rightarrow> u8 list \<Rightarrow> tool_memory_source \<Rightarrow> tool_memory \<Rightarrow> tool_memory option" where
  "tool_memory_put_source off i dsml source m =
     (if off \<or> i = [] \<or> dsml = [] then Some m else tool_memory_put_locked i dsml source m)"

record tool_replay_stats =
  rs_mem :: int
  rs_disk :: int
  rs_canonical :: int
  rs_missing_ids :: int

text \<open>The loop over the calls of one message: the matched block with its source, whether all agree, the missing.\<close>

fun attach_ids ::
  "u8 list list \<Rightarrow> (nat \<times> u8 list) option \<Rightarrow> tool_memory_source \<Rightarrow> bool \<Rightarrow> int \<Rightarrow> tool_memory \<Rightarrow>
   ((nat \<times> u8 list) option \<times> tool_memory_source \<times> bool \<times> int \<times> tool_memory) option" where
  "attach_ids [] matched matched_source exact missing m = Some (matched, matched_source, exact, missing, m)"
| "attach_ids (i # ids) matched matched_source exact missing m =
     do {
       (r, m) \<leftarrow> tool_memory_lookup_locked i m;
       (case r of
          None \<Rightarrow> attach_ids ids matched matched_source False (missing + 1) m
        | Some (dsml, source, block) \<Rightarrow>
            let (matched, matched_source, exact) =
              (case matched of
                 None \<Rightarrow> (Some (block, dsml), source, exact)
               | Some (b, t) \<Rightarrow> (Some (b, t), matched_source, exact \<and> b = block));
              matched_source = (if source = TOOL_MEMORY_RAM then TOOL_MEMORY_RAM else matched_source)
            in attach_ids ids matched matched_source exact missing m)
     }"

definition attach_calls ::
  "tool_calls \<Rightarrow> tool_replay_stats \<Rightarrow> tool_memory \<Rightarrow> (tool_calls \<times> tool_replay_stats \<times> tool_memory) option" where
  "attach_calls calls stats m =
     (if tc_ids calls = [] \<or> tc_raw_tool_text calls \<noteq> None then Some (calls, stats, m)
      else do {
        (matched, source, exact, missing, m) \<leftarrow> attach_ids (tc_ids calls) None TOOL_MEMORY_DISK True 0 m;
        (case matched of
           Some (b, t) \<Rightarrow>
             if exact
             then Some (calls\<lparr>tc_raw_tool_text := Some t\<rparr>,
                        (if source = TOOL_MEMORY_RAM then stats\<lparr>rs_mem := rs_mem stats + 1\<rparr>
                         else stats\<lparr>rs_disk := rs_disk stats + 1\<rparr>), m)
             else Some (calls, stats\<lparr>rs_canonical := rs_canonical stats + 1, rs_missing_ids := rs_missing_ids stats + missing\<rparr>, m)
         | None \<Rightarrow>
             Some (calls, stats\<lparr>rs_canonical := rs_canonical stats + 1, rs_missing_ids := rs_missing_ids stats + missing\<rparr>, m))
      })"

fun attach_loop ::
  "chat_msg list \<Rightarrow> tool_replay_stats \<Rightarrow> tool_memory \<Rightarrow> (chat_msg list \<times> tool_replay_stats \<times> tool_memory) option" where
  "attach_loop [] stats m = Some ([], stats, m)"
| "attach_loop (msg # msgs) stats m =
     do {
       (calls, stats, m) \<leftarrow> attach_calls (cm_calls msg) stats m;
       (msgs, stats, m) \<leftarrow> attach_loop msgs stats m;
       Some (msg\<lparr>cm_calls := calls\<rparr> # msgs, stats, m)
     }"

text \<open>With the replay switched off the messages keep their canonical rendering.\<close>

definition attach_off :: "tool_replay_stats \<Rightarrow> chat_msg \<Rightarrow> tool_replay_stats" where
  "attach_off stats msg =
     (if tc_ids (cm_calls msg) = [] \<or> tc_raw_tool_text (cm_calls msg) \<noteq> None then stats
      else stats\<lparr>rs_canonical := rs_canonical stats + 1,
                 rs_missing_ids := rs_missing_ids stats + int (length (tc_ids (cm_calls msg)))\<rparr>)"

definition tool_memory_attach_to_messages ::
  "bool \<Rightarrow> chat_msg list \<Rightarrow> tool_replay_stats \<Rightarrow> tool_memory \<Rightarrow>
   (chat_msg list \<times> tool_replay_stats \<times> tool_memory) option" where
  "tool_memory_attach_to_messages off msgs stats m =
     (if off then Some (msgs, foldl attach_off stats msgs, m) else attach_loop msgs stats m)"

section \<open>Tool blocks of a text\<close>

definition DS4_DSML :: "u8 list" where "DS4_DSML = bar @ ascii ''DSML'' @ bar"
definition DS4_DSML_SHORT :: "u8 list" where "DS4_DSML_SHORT = ascii ''DSML'' @ bar"

definition DS41_TOOL_CALLS_START :: "u8 list" where "DS41_TOOL_CALLS_START = ascii ''<'' @ DS4_DSML @ ascii '' calls>''"
definition DS41_TOOL_CALLS_END :: "u8 list" where "DS41_TOOL_CALLS_END = ascii ''</'' @ DS4_DSML @ ascii '' calls>''"
definition DS4_TOOL_CALLS_START :: "u8 list" where "DS4_TOOL_CALLS_START = ascii ''<'' @ DS4_DSML @ ascii ''tool_calls>''"
definition DS4_TOOL_CALLS_END :: "u8 list" where "DS4_TOOL_CALLS_END = ascii ''</'' @ DS4_DSML @ ascii ''tool_calls>''"
definition DS4_TOOL_CALLS_START_SHORT :: "u8 list" where
  "DS4_TOOL_CALLS_START_SHORT = ascii ''<'' @ DS4_DSML_SHORT @ ascii ''tool_calls>''"
definition DS4_TOOL_CALLS_END_SHORT :: "u8 list" where
  "DS4_TOOL_CALLS_END_SHORT = ascii ''</'' @ DS4_DSML_SHORT @ ascii ''tool_calls>''"

definition tool_block_forms :: "(u8 list \<times> u8 list) list" where
  "tool_block_forms =
     [([10, 10] @ DS41_TOOL_CALLS_START, DS41_TOOL_CALLS_END), (DS41_TOOL_CALLS_START, DS41_TOOL_CALLS_END),
      ([10, 10] @ DS4_TOOL_CALLS_START, DS4_TOOL_CALLS_END), (DS4_TOOL_CALLS_START, DS4_TOOL_CALLS_END),
      ([10, 10] @ DS4_TOOL_CALLS_START_SHORT, DS4_TOOL_CALLS_END_SHORT),
      (DS4_TOOL_CALLS_START_SHORT, DS4_TOOL_CALLS_END_SHORT),
      ([10, 10] @ ascii ''<tool_calls>'', ascii ''</tool_calls>''), (ascii ''<tool_calls>'', ascii ''</tool_calls>'')]"

text \<open>The offsets of the first block and of what follows it.\<close>

fun find_block_loop :: "u8 list \<Rightarrow> (u8 list \<times> u8 list) list \<Rightarrow> (nat \<times> nat) option \<Rightarrow> (nat \<times> nat) option" where
  "find_block_loop p [] best = best"
| "find_block_loop p ((start, fin) # forms) best =
     (case strstr p start of
        None \<Rightarrow> find_block_loop p forms best
      | Some s \<Rightarrow>
          if best \<noteq> None \<and> fst (the best) \<le> s then find_block_loop p forms best
          else (case strstr (drop s p) fin of
                  None \<Rightarrow> find_block_loop p forms best
                | Some e \<Rightarrow> find_block_loop p forms (Some (s, s + e + length fin))))"

definition find_next_dsml_tool_block :: "u8 list \<Rightarrow> (nat \<times> nat) option" where
  "find_next_dsml_tool_block p = find_block_loop p tool_block_forms None"

lemma find_block_loop_bound:
  "find_block_loop p forms best = Some (s, e) \<Longrightarrow> \<forall>f \<in> set forms. snd f \<noteq> [] \<Longrightarrow>
    best = Some (s, e) \<or> s < e \<and> e \<le> length p"
proof (induction forms arbitrary: best)
  case (Cons f forms)
  obtain start fin where f: "f = (start, fin)" by fastforce
  from Cons.prems have fin: "fin \<noteq> []" and rest: "\<forall>f \<in> set forms. snd f \<noteq> []" by (simp_all add: f)
  have keep: "find_block_loop p forms best = Some (s, e) \<Longrightarrow> ?case" using Cons.IH [OF _ rest] by blast
  show ?case
  proof (cases "strstr p start")
    case None
    with Cons.prems f keep show ?thesis by simp
  next
    case (Some q)
    show ?thesis
    proof (cases "(best \<noteq> None \<and> fst (the best) \<le> q) \<or> strstr (drop q p) fin = None")
      case True
      with Cons.prems Some f keep show ?thesis by (auto split: option.splits if_splits)
    next
      case False
      then obtain x where x: "strstr (drop q p) fin = Some x" by blast
      then have le: "x \<le> length (drop q p)" and tk: "take (length fin) (drop x (drop q p)) = fin"
        unfolding strstr_Some by blast+
      have "length fin \<le> length (drop q p) - x" using arg_cong [OF tk, of length] by simp
      with le Cons.IH [of "Some (q, q + x + length fin)"] Cons.prems False Some x f rest fin show ?thesis
        by (cases fin) auto
    qed
  qed
qed simp

lemma forms_nonempty: "\<forall>f \<in> set tool_block_forms. fst f \<noteq> [] \<and> snd f \<noteq> []"
  by code_simp

lemma find_next_bound: "find_next_dsml_tool_block p = Some (s, e) \<Longrightarrow> s < e \<and> e \<le> length p"
  using find_block_loop_bound [of p tool_block_forms None s e] forms_nonempty by (auto simp: find_next_dsml_tool_block_def)

section \<open>Measuring and writing\<close>

text \<open>
  Both loops go through the blocks of a text that the memory knows, each once (the scan mark), and stop when
  \<open>f\<close>, the loop over the entries of one block, answers \<open>Some None\<close>; \<open>None\<close> is a null dereference.
\<close>

function visit_blocks ::
  "(tool_memory \<Rightarrow> tool_memory_block \<Rightarrow> 'a \<Rightarrow> 'a option option) \<Rightarrow> u8 list \<Rightarrow> nat \<Rightarrow> tool_memory \<Rightarrow> 'a \<Rightarrow>
   ('a option \<times> tool_memory) option" where
  "visit_blocks f p scan m acc =
     (case find_next_dsml_tool_block p of
        None \<Rightarrow> Some (Some acc, m)
      | Some (start, fin) \<Rightarrow>
          (case tool_memory_find_block_locked m (take (fin - start) (drop start p)) of
             None \<Rightarrow> visit_blocks f (drop fin p) scan m acc
           | Some b \<Rightarrow>
               (case tm_blocks m b of
                  None \<Rightarrow> None
                | Some bl \<Rightarrow>
                    if tb_seen bl = scan then visit_blocks f (drop fin p) scan m acc
                    else let m1 = m\<lparr>tm_blocks := (tm_blocks m)(b \<mapsto> bl\<lparr>tb_seen := scan\<rparr>)\<rparr>
                         in (case f m1 bl acc of
                               None \<Rightarrow> None
                             | Some None \<Rightarrow> Some (None, m1)
                             | Some (Some acc) \<Rightarrow> visit_blocks f (drop fin p) scan m1 acc))))"
  by pat_completeness auto

termination by (relation "measure (\<lambda>(f, p, scan, m, acc). length p)") (auto dest: find_next_bound)

declare visit_blocks.simps [simp del]

definition KV_TOOL_MAP_HEADER :: nat where "KV_TOOL_MAP_HEADER = 8"
definition KV_TOOL_MAP_MAGIC :: "u8 list" where "KV_TOOL_MAP_MAGIC = ascii ''KTM'' @ [1]"
definition UINT32_MAX :: nat where "UINT32_MAX = 2 ^ 32 - 1"
definition UINT64_MAX :: nat where "UINT64_MAX = 2 ^ 64 - 1"

text \<open>The counters are naturals: the guards of the code keep them within their 32 and 64 bits.\<close>

partial_function (option) measure_entries ::
  "nat option \<Rightarrow> nat \<Rightarrow> tool_memory \<Rightarrow> nat \<times> nat \<Rightarrow> (nat \<times> nat) option option" where
  "measure_entries e dsml_len m acc =
     (case e of
        None \<Rightarrow> Some (Some acc)
      | Some a \<Rightarrow>
          (case tm_ents m a of
             None \<Rightarrow> None
           | Some x \<Rightarrow>
               let id_len = length (te_id x); count = fst acc; bytes = snd acc in
               if UINT32_MAX < id_len \<or> UINT32_MAX < dsml_len then measure_entries (te_bnext x) dsml_len m acc
               else if count = UINT32_MAX then Some None
               else if UINT64_MAX - bytes < 8 \<or> UINT64_MAX - bytes - 8 < id_len \<or>
                       UINT64_MAX - bytes - 8 - id_len < dsml_len then Some None
               else measure_entries (te_bnext x) dsml_len m (count + 1, bytes + (8 + id_len + dsml_len))))"

text \<open>The result \<open>None\<close> inside is \<open>false\<close>.\<close>

definition kv_tool_map_measure_locked :: "u8 list \<Rightarrow> tool_memory \<Rightarrow> ((nat \<times> nat) option \<times> tool_memory) option" where
  "kv_tool_map_measure_locked t m =
     do {
       m \<leftarrow> Some (m\<lparr>tm_scan_clock := tm_scan_clock m + 1\<rparr>);
       (r, m) \<leftarrow> visit_blocks (\<lambda>m bl. measure_entries (tb_entries bl) (tb_len bl) m) t (tm_scan_clock m) m
         (0, KV_TOOL_MAP_HEADER);
       Some (map_option (\<lambda>(count, bytes). (count, if count = 0 then 0 else bytes)) r, m)
     }"

definition kv_tool_map_serialized_size :: "bool \<Rightarrow> u8 list \<Rightarrow> tool_memory \<Rightarrow> (nat option \<times> tool_memory) option" where
  "kv_tool_map_serialized_size off t m =
     (if off \<or> t = [] then Some (Some 0, m)
      else do { (r, m) \<leftarrow> kv_tool_map_measure_locked t m; Some (map_option snd r, m) })"

text \<open>\<open>fwrite\<close> to a file that takes \<open>cap\<close> bytes.\<close>

definition fwrite_cap :: "nat \<Rightarrow> u8 list \<Rightarrow> u8 list \<Rightarrow> u8 list option" where
  "fwrite_cap cap bs out = (if length out + length bs \<le> cap then Some (out @ bs) else None)"

partial_function (option) write_entries ::
  "nat \<Rightarrow> nat option \<Rightarrow> u8 list \<Rightarrow> nat \<Rightarrow> tool_memory \<Rightarrow> u8 list \<Rightarrow> u8 list option option" where
  "write_entries cap e dsml dsml_len m out =
     (case e of
        None \<Rightarrow> Some (Some out)
      | Some a \<Rightarrow>
          (case tm_ents m a of
             None \<Rightarrow> None
           | Some x \<Rightarrow>
               let id_len = length (te_id x) in
               if UINT32_MAX < id_len \<or> UINT32_MAX < dsml_len then write_entries cap (te_bnext x) dsml dsml_len m out
               else (case do { out \<leftarrow> fwrite_cap cap (le_put32 (of_nat id_len) @ le_put32 (of_nat dsml_len)) out;
                               out \<leftarrow> fwrite_cap cap (te_id x) out;
                               fwrite_cap cap (take dsml_len dsml) out } of
                       None \<Rightarrow> Some None
                     | Some out \<Rightarrow> write_entries cap (te_bnext x) dsml dsml_len m out)))"

text \<open>The bytes appended and their measured number, or \<open>None\<close> for \<open>false\<close>.\<close>

definition kv_tool_map_write ::
  "bool \<Rightarrow> nat \<Rightarrow> u8 list \<Rightarrow> tool_memory \<Rightarrow> ((u8 list \<times> nat) option \<times> tool_memory) option" where
  "kv_tool_map_write off cap t m =
     (if off \<or> t = [] then Some (Some ([], 0), m)
      else do {
        (r, m) \<leftarrow> kv_tool_map_measure_locked t m;
        (case r of
           None \<Rightarrow> Some (None, m)
         | Some (cnt, bytes) \<Rightarrow>
             if cnt = 0 then Some (Some ([], 0), m)
             else do {
               m \<leftarrow> Some (m\<lparr>tm_scan_clock := tm_scan_clock m + 1\<rparr>);
               (case fwrite_cap cap (KV_TOOL_MAP_MAGIC @ le_put32 (of_nat cnt)) [] of
                  None \<Rightarrow> Some (None, m)
                | Some out \<Rightarrow> do {
                    (w, m) \<leftarrow> visit_blocks (\<lambda>m bl. write_entries cap (tb_entries bl) (tb_dsml bl) (tb_len bl) m) t
                      (tm_scan_clock m) m out;
                    Some (map_option (\<lambda>out. (out, bytes)) w, m)
                  })
             })
      })"

section \<open>Loading\<close>

text \<open>The counter of the loaded entries and the memory; \<open>wanted = None\<close> takes every id.\<close>

fun load_entries ::
  "nat \<Rightarrow> stop_list option \<Rightarrow> u8 list \<Rightarrow> nat \<Rightarrow> tool_memory \<Rightarrow> (nat \<times> tool_memory) option" where
  "load_entries 0 wanted fp loaded m = Some (loaded, m)"
| "load_entries (Suc n) wanted fp loaded m =
     (case fread_exact 8 fp of
        None \<Rightarrow> Some (loaded, m)
      | Some (lens, fp) \<Rightarrow>
          let id_len = unat (le_get32 lens); dsml_len = unat (le_get32 (drop 4 lens)) in
          if id_len = 0 \<or> 256 < id_len \<or> dsml_len = 0 \<or> DS4_TOOL_MEMORY_MAX_BYTES < dsml_len then Some (loaded, m)
          else (case do { (i, fp) \<leftarrow> fread_exact id_len fp; (dsml, fp) \<leftarrow> fread_exact dsml_len fp; Some (i, dsml, fp) } of
                  None \<Rightarrow> Some (loaded, m)
                | Some (i, dsml, fp) \<Rightarrow>
                    if wanted = None \<or> id_list_contains (the wanted) (c_string i)
                    then do {
                      m \<leftarrow> tool_memory_put_source False (c_string i) (c_string dsml) TOOL_MEMORY_DISK m;
                      load_entries n wanted fp (loaded + 1) m
                    }
                    else load_entries n wanted fp loaded m))"

definition kv_tool_map_load_from_pos ::
  "bool \<Rightarrow> u8 list \<Rightarrow> stop_list option \<Rightarrow> tool_memory \<Rightarrow> (nat \<times> tool_memory) option" where
  "kv_tool_map_load_from_pos off fp wanted m =
     (if off then Some (0, m)
      else (case fread_exact KV_TOOL_MAP_HEADER fp of
              None \<Rightarrow> Some (0, m)
            | Some (h, fp) \<Rightarrow>
                if take 4 h \<noteq> KV_TOOL_MAP_MAGIC then Some (0, m)
                else let cnt = le_get32 (drop 4 h) in
                     if tool_memory_max_entries m * 4 < uint cnt then Some (0, m)
                     else load_entries (unat cnt) wanted fp 0 m))"

end
