(* ===== verification/Tool_Map_Spec.thy ===== *)
theory Tool_Map_Spec
  imports Tool_Map
begin

text \<open>
  The saved tool map: what is measured is what is written, and loading it into an empty memory restores exactly
  the ids whose text is a tool block of the saved text. Also the replay of stored texts into messages.
\<close>

section \<open>Scan marks\<close>

definition unseen :: "tool_memory \<Rightarrow> tool_memory" where
  "unseen m = m\<lparr>tm_blocks := \<lambda>b. map_option (\<lambda>bl. bl\<lparr>tb_seen := 0\<rparr>) (tm_blocks m b), tm_scan_clock := 0\<rparr>"

lemma unseen_fields [simp]:
  "tm_ents (unseen m) = tm_ents m" "tm_by_id (unseen m) = tm_by_id m" "tm_by_block (unseen m) = tm_by_block m"
  "tm_blocks (unseen m) b = map_option (\<lambda>bl. bl\<lparr>tb_seen := 0\<rparr>) (tm_blocks m b)" "fld f (unseen m) = fld f m"
  "dom (tm_blocks (unseen m)) = dom (tm_blocks m)" "tm_entries (unseen m) = tm_entries m" "tm_bytes (unseen m) = tm_bytes m"
  "tm_head (unseen m) = tm_head m" "tm_tail (unseen m) = tm_tail m" "tm_fresh (unseen m) = tm_fresh m"
  "tm_max_entries (unseen m) = tm_max_entries m" "tm_max_bytes (unseen m) = tm_max_bytes m"
  by (simp_all add: unseen_def fld_def fun_eq_iff dom_def)

lemma unseen_blocks: "tm_blocks m b = Some bl \<Longrightarrow> the (tm_blocks (unseen m) b) = bl\<lparr>tb_seen := 0\<rparr>"
  by simp

lemma unseen_block_ok: "block_ok (unseen m) b (bl\<lparr>tb_seen := 0\<rparr>) = block_ok m b bl"
  by (simp add: block_ok_def members_def)

lemma unseen_text: "fld te_block m a = Some b \<Longrightarrow> tm_blocks m b \<noteq> None \<Longrightarrow> text_of (unseen m) a = text_of m a"
  by (auto simp: text_of_def)

lemma unseen_inv: "tm_inv (unseen m) as = tm_inv m as"
proof -
  have "(\<Sum>b \<in> dom (tm_blocks m). tb_bytes (the (tm_blocks (unseen m) b))) = (\<Sum>b \<in> dom (tm_blocks m). tb_bytes (the (tm_blocks m b)))"
    by (rule sum.cong) auto
  then have s: "sizes_ok (unseen m) as = sizes_ok m as" unfolding sizes_ok_def unseen_fields by simp
  have "(\<forall>b bl. tm_blocks (unseen m) b = Some bl \<longrightarrow> block_ok (unseen m) b bl) = (\<forall>b bl. tm_blocks m b = Some bl \<longrightarrow> block_ok m b bl)"
    by (auto simp: unseen_block_ok) (metis unseen_block_ok)
  moreover have "(\<exists>bl. tm_blocks (unseen m) b = Some bl \<and> tb_dsml bl = k) = (\<exists>bl. tm_blocks m b = Some bl \<and> tb_dsml bl = k)" for b k
    by (cases "tm_blocks m b") auto
  ultimately have "blocks_ok (unseen m) = blocks_ok m" unfolding blocks_ok_def by simp
  then show ?thesis
    by (simp add: s tm_inv_def dll_def ids_ok_def members_def fresh_ok_def)
qed

lemma unseen_view: "tm_inv m as \<Longrightarrow> tm_view (unseen m) as = tm_view m as"
proof -
  assume inv: "tm_inv m as"
  have "text_of (unseen m) a = text_of m a" if a: "a \<in> set as" for a
  proof -
    obtain x bl where "tm_ents m a = Some x" "tm_blocks m (te_block x) = Some bl"
      by (rule inv_entry [OF inv a]) blast
    then show ?thesis by (intro unseen_text [of m a "te_block x"]) (simp_all add: fld_def)
  qed
  then show ?thesis by (simp add: tm_view_def)
qed

lemma seen_inv: "unseen m' = unseen m \<Longrightarrow> tm_inv m' as = tm_inv m as"
  using unseen_inv by metis

lemma seen_view: "unseen m' = unseen m \<Longrightarrow> tm_inv m as \<Longrightarrow> tm_view m' as = tm_view m as"
  using unseen_view unseen_inv by metis

lemma seen_same:
  assumes "unseen m' = unseen m"
  shows "tm_ents m' = tm_ents m" "tm_by_block m' = tm_by_block m" "fld f m' = fld f m" "same_limits m m'"
    "tm_entries m' = tm_entries m" "tm_bytes m' = tm_bytes m"
  using arg_cong [OF assms, of tm_ents] arg_cong [OF assms, of tm_by_block] arg_cong [OF assms, of "fld f"]
    arg_cong [OF assms, of tm_max_entries] arg_cong [OF assms, of tm_max_bytes] arg_cong [OF assms, of tm_entries]
    arg_cong [OF assms, of tm_bytes]
  by (simp_all add: same_limits_def)

lemma seen_block:
  assumes "unseen m' = unseen m" and "tm_blocks m b = Some bl"
  obtains bl' where "tm_blocks m' b = Some bl'" "tb_dsml bl' = tb_dsml bl" "tb_len bl' = tb_len bl" "tb_entries bl' = tb_entries bl"
proof -
  have "map_option (\<lambda>bl. bl\<lparr>tb_seen := 0\<rparr>) (tm_blocks m' b) = Some (bl\<lparr>tb_seen := 0\<rparr>)"
    using arg_cong [OF assms(1), of "\<lambda>m. tm_blocks m b"] assms(2) by simp
  then obtain bl' where b: "tm_blocks m' b = Some bl'" "bl'\<lparr>tb_seen := 0\<rparr> = bl\<lparr>tb_seen := 0\<rparr>" by auto
  have "tb_dsml bl' = tb_dsml bl" "tb_len bl' = tb_len bl" "tb_entries bl' = tb_entries bl"
    using arg_cong [OF b(2), of tb_dsml] arg_cong [OF b(2), of tb_len] arg_cong [OF b(2), of tb_entries] by simp_all
  with b(1) show thesis by (rule that)
qed

lemma unseen_mark: "tm_blocks m b = Some bl \<Longrightarrow> unseen (m\<lparr>tm_blocks := (tm_blocks m)(b \<mapsto> bl\<lparr>tb_seen := s\<rparr>)\<rparr>) = unseen m"
  by (simp add: unseen_def fun_eq_iff)

lemma unseen_clock [simp]: "unseen (m\<lparr>tm_scan_clock := c\<rparr>) = unseen m"
  by (simp add: unseen_def)

section \<open>The blocks of a text that are stored\<close>

text \<open>The tool blocks of a text, from left to right.\<close>

function text_blocks :: "u8 list \<Rightarrow> u8 list list" where
  "text_blocks p =
     (case find_next_dsml_tool_block p of
        None \<Rightarrow> []
      | Some (start, fin) \<Rightarrow> take (fin - start) (drop start p) # text_blocks (drop fin p))"
  by pat_completeness auto
termination by (relation "measure length") (auto dest: find_next_bound)

declare text_blocks.simps [simp del]

text \<open>The stored texts among them, each once, at its first place; \<open>S\<close> are those already seen.\<close>

fun fresh_texts :: "(u8 list \<rightharpoonup> nat) \<Rightarrow> u8 list list \<Rightarrow> u8 list set \<Rightarrow> u8 list list" where
  "fresh_texts B [] S = []"
| "fresh_texts B (t # ts) S =
     (if t = [] \<or> B t = None \<or> t \<in> S then fresh_texts B ts S else t # fresh_texts B ts (insert t S))"

lemma set_fresh_texts: "set (fresh_texts B ts S) = {t \<in> set ts. t \<noteq> [] \<and> B t \<noteq> None \<and> t \<notin> S}"
  by (induction ts arbitrary: S) auto

lemma distinct_fresh_texts: "distinct (fresh_texts B ts S)"
  by (induction ts arbitrary: S) (auto simp: set_fresh_texts)

fun fold_opt :: "('b \<Rightarrow> 'a \<Rightarrow> 'a option) \<Rightarrow> 'b list \<Rightarrow> 'a \<Rightarrow> 'a option" where
  "fold_opt g [] acc = Some acc"
| "fold_opt g (x # xs) acc = (case g x acc of None \<Rightarrow> None | Some acc \<Rightarrow> fold_opt g xs acc)"

lemma fold_opt_append: "fold_opt g (xs @ ys) acc = (case fold_opt g xs acc of None \<Rightarrow> None | Some acc \<Rightarrow> fold_opt g ys acc)"
  by (induction xs arbitrary: acc) (auto split: option.splits)

definition seen_texts :: "tool_memory \<Rightarrow> nat \<Rightarrow> u8 list set" where
  "seen_texts m scan = {tb_dsml bl | b bl. tm_blocks m b = Some bl \<and> tb_seen bl = scan}"

lemma seen_texts_mark:
  assumes "tm_blocks m b = Some bl"
  shows "seen_texts (m\<lparr>tm_blocks := (tm_blocks m)(b \<mapsto> bl\<lparr>tb_seen := scan\<rparr>)\<rparr>) scan = insert (tb_dsml bl) (seen_texts m scan)"
  (is "?L = ?R")
proof (rule set_eqI)
  fix t
  have "t \<in> ?L \<longleftrightarrow> (\<exists>c cl. ((tm_blocks m)(b \<mapsto> bl\<lparr>tb_seen := scan\<rparr>)) c = Some cl \<and> tb_dsml cl = t \<and> tb_seen cl = scan)"
    by (auto simp: seen_texts_def)
  also have "\<dots> \<longleftrightarrow> t = tb_dsml bl \<or> (\<exists>c cl. c \<noteq> b \<and> tm_blocks m c = Some cl \<and> tb_dsml cl = t \<and> tb_seen cl = scan)"
    by (auto split: if_splits)
  also have "\<dots> \<longleftrightarrow> t \<in> ?R" using assms by (auto simp: seen_texts_def) force
  finally show "t \<in> ?L \<longleftrightarrow> t \<in> ?R" .
qed

lemma visit_spec:
  assumes inv: "tm_inv m0 as"
    and f: "\<And>m b bl s acc. unseen m = unseen m0 \<Longrightarrow> tm_blocks m b = Some (bl\<lparr>tb_seen := s\<rparr>) \<Longrightarrow> f m bl acc = Some (g (tb_dsml bl) acc)"
  shows "unseen m = unseen m0 \<Longrightarrow>
    \<exists>m'. visit_blocks f p scan m acc = Some (fold_opt g (fresh_texts (tm_by_block m0) (text_blocks p) (seen_texts m scan)) acc, m') \<and>
      unseen m' = unseen m0"
proof (induction "length p" arbitrary: p m acc rule: less_induct)
  case less
  note eq = less.prems
  have inv1: "tm_inv m as" using seen_inv [OF eq] inv by simp
  have by_block: "tm_by_block m = tm_by_block m0" by (rule seen_same [OF eq])
  show ?case
  proof (cases "find_next_dsml_tool_block p")
    case None
    with eq show ?thesis by (intro exI [of _ m]) (simp add: visit_blocks.simps [of f] text_blocks.simps [of p])
  next
    case (Some q)
    obtain start fin where q: "find_next_dsml_tool_block p = Some (start, fin)" using Some by (cases q) simp
    let ?t = "take (fin - start) (drop start p)"
    have tb: "text_blocks p = ?t # text_blocks (drop fin p)" by (simp add: text_blocks.simps [of p] q)
    have less_p: "length (drop fin p) < length p" and ne: "?t \<noteq> []" using find_next_bound [OF q] by auto
    note IH = less.hyps [OF less_p]
    note step = visit_blocks.simps [of f p, unfolded q option.case prod.case]
    show ?thesis
    proof (cases "tm_by_block m0 ?t")
      case None
      then show ?thesis using IH [OF eq] unfolding step tb by (simp add: tool_memory_find_block_locked_def by_block)
    next
      case (Some b)
      then obtain bl where bl: "tm_blocks m b = Some bl" "tb_dsml bl = ?t"
        using inv_by_block [OF inv1, of ?t b] by_block by auto
      have fb: "tool_memory_find_block_locked m ?t = Some b" using Some ne by (simp add: tool_memory_find_block_locked_def by_block)
      have in_seen: "?t \<in> seen_texts m scan \<longleftrightarrow> tb_seen bl = scan"
      proof
        assume "?t \<in> seen_texts m scan"
        then obtain c cl where c: "tm_blocks m c = Some cl" "tb_seen cl = scan" "tb_dsml cl = ?t" by (auto simp: seen_texts_def)
        then have "tm_by_block m ?t = Some c" using inv_by_block [OF inv1, of ?t c] by blast
        with c Some bl by_block show "tb_seen bl = scan" by simp
      qed (use bl in \<open>force simp: seen_texts_def\<close>)
      show ?thesis
      proof (cases "tb_seen bl = scan")
        case True
        then show ?thesis using IH [OF eq, of acc] Some ne in_seen unfolding step tb by (simp add: fb bl)
      next
        case False
        let ?m1 = "m\<lparr>tm_blocks := (tm_blocks m)(b \<mapsto> bl\<lparr>tb_seen := scan\<rparr>)\<rparr>"
        have eq1: "unseen ?m1 = unseen m0" using unseen_mark [OF bl(1)] eq by simp
        have fm: "f ?m1 bl acc = Some (g ?t acc)" using f [OF eq1, of b scan bl acc] bl(2) by simp
        have fresh: "fresh_texts (tm_by_block m0) (text_blocks p) (seen_texts m scan) =
            ?t # fresh_texts (tm_by_block m0) (text_blocks (drop fin p)) (seen_texts ?m1 scan)"
          using Some ne False in_seen unfolding tb seen_texts_mark [OF bl(1)] bl(2) by simp
        have v: "visit_blocks f p scan m acc = (case g ?t acc of None \<Rightarrow> Some (None, ?m1)
            | Some acc \<Rightarrow> visit_blocks f (drop fin p) scan ?m1 acc)"
          using False unfolding step by (simp add: fb bl(1) fm split: option.split)
        show ?thesis
        proof (cases "g ?t acc")
          case None
          then show ?thesis using eq1 unfolding v fresh by (intro exI [of _ ?m1]) simp
        next
          case (Some acc')
          then show ?thesis using IH [OF eq1, of acc'] unfolding v fresh by simp
        qed
      qed
    qed
  qed
qed

section \<open>The entries of a block\<close>

text \<open>What one entry adds to the counters, and to the file.\<close>

definition count_entry :: "nat \<Rightarrow> u8 list \<Rightarrow> nat \<times> nat \<Rightarrow> (nat \<times> nat) option" where
  "count_entry dsml_len i acc =
     (if UINT32_MAX < length i \<or> UINT32_MAX < dsml_len then Some acc
      else if fst acc = UINT32_MAX then None
      else if UINT64_MAX - snd acc < 8 \<or> UINT64_MAX - snd acc - 8 < length i \<or>
              UINT64_MAX - snd acc - 8 - length i < dsml_len then None
      else Some (fst acc + 1, snd acc + (8 + length i + dsml_len)))"

definition record_bytes :: "u8 list \<times> u8 list \<Rightarrow> u8 list" where
  "record_bytes = (\<lambda>(i, t). le_put32 (of_nat (length i)) @ le_put32 (of_nat (length t)) @ i @ t)"

definition write_entry :: "nat \<Rightarrow> u8 list \<Rightarrow> u8 list \<Rightarrow> u8 list \<Rightarrow> u8 list option" where
  "write_entry cap t i out =
     (if UINT32_MAX < length i \<or> UINT32_MAX < length t then Some out else fwrite_cap cap (record_bytes (i, t)) out)"

lemma chain_Cons_ent:
  "chain (bnexts m) e (a # cs) \<Longrightarrow> \<exists>x. e = Some a \<and> tm_ents m a = Some x \<and> chain (bnexts m) (te_bnext x) cs"
  by (cases "tm_ents m a") (auto simp: fld_def)

lemma measure_entries_chain:
  "chain (bnexts m) e cs \<Longrightarrow>
    measure_entries e dsml_len m acc = Some (fold_opt (count_entry dsml_len) (map (\<lambda>a. the (fld te_id m a)) cs) acc)"
proof (induction cs arbitrary: e acc)
  case Nil
  then show ?case by (subst measure_entries.simps) simp
next
  case (Cons a cs)
  obtain x where x: "e = Some a" "tm_ents m a = Some x" "chain (bnexts m) (te_bnext x) cs"
    using chain_Cons_ent [OF Cons.prems] by blast
  show ?case using Cons.IH [OF x(3)] x(2) unfolding x(1)
    by (subst measure_entries.simps) (simp add: count_entry_def [of dsml_len "te_id x" acc] Let_def fld_def)
qed

lemma fwrite_cap_three:
  "do { out \<leftarrow> fwrite_cap cap xs out; out \<leftarrow> fwrite_cap cap ys out; fwrite_cap cap zs out } = fwrite_cap cap (xs @ ys @ zs) out"
  by (auto simp: fwrite_cap_def)

lemma write_entries_chain:
  "chain (bnexts m) e cs \<Longrightarrow>
    write_entries cap e t (length t) m out = Some (fold_opt (write_entry cap t) (map (\<lambda>a. the (fld te_id m a)) cs) out)"
proof (induction cs arbitrary: e out)
  case Nil
  then show ?case by (subst write_entries.simps) simp
next
  case (Cons a cs)
  obtain x where x: "e = Some a" "tm_ents m a = Some x" "chain (bnexts m) (te_bnext x) cs"
    using chain_Cons_ent [OF Cons.prems] by blast
  show ?case using Cons.IH [OF x(3)] x(2) unfolding x(1) fwrite_cap_three
    by (subst write_entries.simps)
      (simp add: write_entry_def [of cap t "te_id x" out] Let_def fld_def record_bytes_def fwrite_cap_three split: option.split)
qed

section \<open>What is measured and written\<close>

lemma fold_opt_concat: "fold_opt (\<lambda>x. fold_opt g (h x)) xs acc = fold_opt g (concat (map h xs)) acc"
  by (induction xs arbitrary: acc) (auto simp: fold_opt_append split: option.splits)

lemma fold_opt_map: "fold_opt g (map h xs) acc = fold_opt (\<lambda>x. g (h x)) xs acc"
  by (induction xs arbitrary: acc) (auto split: option.splits)

definition records_bytes :: "(u8 list \<times> u8 list) list \<Rightarrow> u8 list" where
  "records_bytes es = concat (map record_bytes es)"

lemma length_record_bytes: "length (record_bytes (i, t)) = 8 + length i + length t"
  by (simp add: record_bytes_def)

lemma records_bytes_simps [simp]:
  "records_bytes [] = []" "records_bytes (e # es) = record_bytes e @ records_bytes es"
  by (simp_all add: records_bytes_def)

abbreviation fits32 :: "(u8 list \<times> u8 list) list \<Rightarrow> bool" where
  "fits32 es \<equiv> \<forall>(i, t) \<in> set es. length i \<le> UINT32_MAX \<and> length t \<le> UINT32_MAX"

lemma count_records:
  "fits32 es \<Longrightarrow> n + length es \<le> UINT32_MAX \<Longrightarrow> k + length (records_bytes es) \<le> UINT64_MAX \<Longrightarrow>
    fold_opt (\<lambda>(i, t). count_entry (length t) i) es (n, k) = Some (n + length es, k + length (records_bytes es))"
proof (induction es arbitrary: n k)
  case (Cons e es)
  obtain i t where e: "e = (i, t)" by fastforce
  have "count_entry (length t) i (n, k) = Some (n + 1, k + (8 + length i + length t))"
    using Cons.prems unfolding count_entry_def e by (auto simp: length_record_bytes)
  with Cons.IH [of "n + 1" "k + (8 + length i + length t)"] Cons.prems show ?case
    by (simp add: e length_record_bytes)
qed simp

lemma write_records:
  "fits32 es \<Longrightarrow> length out \<le> cap \<Longrightarrow>
    fold_opt (\<lambda>(i, t). write_entry cap t i) es out =
      (if length out + length (records_bytes es) \<le> cap then Some (out @ records_bytes es) else None)"
proof (induction es arbitrary: out)
  case (Cons e es)
  obtain i t where e: "e = (i, t)" by fastforce
  have "write_entry cap t i out = fwrite_cap cap (record_bytes e) out" using Cons.prems by (auto simp: write_entry_def e)
  with Cons.IH [of "out @ record_bytes e"] Cons.prems show ?case by (auto simp: fwrite_cap_def e)
qed simp

text \<open>The ids of every block in the order of its list.\<close>

lemma block_ids:
  assumes inv: "tm_inv m as"
  obtains ids where "\<And>b bl. tm_blocks m b = Some bl \<Longrightarrow> \<exists>cs. chain (bnexts m) (tb_entries bl) cs \<and> distinct cs \<and>
    set cs = members m b \<and> ids (tb_dsml bl) = map (\<lambda>a. the (fld te_id m a)) cs"
proof -
  let ?P = "\<lambda>b cs. chain (bnexts m) (tb_entries (the (tm_blocks m b))) cs \<and> distinct cs \<and> set cs = members m b"
  define ids where "ids t = map (\<lambda>a. the (fld te_id m a)) (SOME cs. ?P (the (tm_by_block m t)) cs)" for t
  have "\<exists>cs. chain (bnexts m) (tb_entries bl) cs \<and> distinct cs \<and> set cs = members m b \<and>
      ids (tb_dsml bl) = map (\<lambda>a. the (fld te_id m a)) cs" if b: "tm_blocks m b = Some bl" for b bl
  proof -
    have ok: "block_ok m b bl" using inv b by (simp add: tm_inv_def blocks_ok_def)
    then have "\<exists>cs. ?P b cs" using b by (auto simp: block_ok_def)
    then have "?P b (SOME cs. ?P b cs)" by (rule someI_ex)
    with ok b show ?thesis by (intro exI [of _ "SOME cs. ?P b cs"]) (simp add: ids_def block_ok_def)
  qed
  then show thesis by (rule that)
qed

definition listing :: "(u8 list \<Rightarrow> u8 list list) \<Rightarrow> u8 list list \<Rightarrow> (u8 list \<times> u8 list) list" where
  "listing ids ts = concat (map (\<lambda>t. map (\<lambda>i. (i, t)) (ids t)) ts)"

lemma visit_listing:
  assumes inv: "tm_inv m0 as" and eq: "unseen m = unseen m0"
    and ids: "\<And>b bl. tm_blocks m0 b = Some bl \<Longrightarrow> \<exists>cs. chain (bnexts m0) (tb_entries bl) cs \<and> distinct cs \<and>
      set cs = members m0 b \<and> ids (tb_dsml bl) = map (\<lambda>a. the (fld te_id m0 a)) cs"
    and F: "\<And>m bl cs acc. chain (bnexts m) (tb_entries bl) cs \<Longrightarrow> tb_len bl = length (tb_dsml bl) \<Longrightarrow>
      F m bl acc = Some (fold_opt (g (tb_dsml bl)) (map (\<lambda>a. the (fld te_id m a)) cs) acc)"
  shows "\<exists>m'. visit_blocks F p scan m acc = Some (fold_opt (\<lambda>(i, t). g t i)
        (listing ids (fresh_texts (tm_by_block m0) (text_blocks p) (seen_texts m scan))) acc, m') \<and> unseen m' = unseen m0"
proof -
  have f: "F m' bl acc = Some (fold_opt (g (tb_dsml bl)) (ids (tb_dsml bl)) acc)"
    if e: "unseen m' = unseen m0" and b: "tm_blocks m' b = Some (bl\<lparr>tb_seen := s\<rparr>)" for m' b bl s acc
  proof -
    obtain bl0 where b0: "tm_blocks m0 b = Some bl0" "tb_dsml bl0 = tb_dsml bl" "tb_len bl0 = tb_len bl" "tb_entries bl0 = tb_entries bl"
      by (rule seen_block [OF e [symmetric] b]) simp
    obtain cs where cs: "chain (bnexts m0) (tb_entries bl) cs" "ids (tb_dsml bl) = map (\<lambda>a. the (fld te_id m0 a)) cs"
      using ids [OF b0(1)] b0 by auto
    have "tb_len bl = length (tb_dsml bl)" using inv b0 unfolding tm_inv_def blocks_ok_def block_ok_def by metis
    moreover have "chain (bnexts m') (tb_entries bl) cs" using cs(1) by (simp only: seen_same(3) [OF e])
    ultimately show ?thesis using F [of m' bl cs acc] cs(2) by (simp only: seen_same(3) [OF e])
  qed
  have "fold_opt (\<lambda>t. fold_opt (g t) (ids t)) ts acc = fold_opt (\<lambda>(i, t). g t i) (listing ids ts) acc" for ts
    unfolding listing_def fold_opt_concat [symmetric] fold_opt_map by simp
  then show ?thesis
    using visit_spec [where f = F and g = "\<lambda>t. fold_opt (g t) (ids t)" and p = p and scan = scan and acc = acc, OF inv _ eq] f
    by simp
qed

lemmas visit_measure = visit_listing [where F = "\<lambda>m bl. measure_entries (tb_entries bl) (tb_len bl) m"
    and g = "\<lambda>t. count_entry (length t)"]

lemmas visit_write = visit_listing [where F = "\<lambda>m bl. write_entries cap (tb_entries bl) (tb_dsml bl) (tb_len bl) m"
    and g = "\<lambda>t. write_entry cap t" for cap]

section \<open>The entries listed\<close>

lemma view_texts:
  assumes inv: "tm_inv m as" and b: "tm_blocks m b = Some bl" and a: "a \<in> members m b"
  shows "(the (fld te_id m a), tb_dsml bl, the (fld te_source m a)) \<in> set (tm_view m as)"
proof -
  have fb: "fld te_block m a = Some b" using a by (simp add: members_def)
  then have "a \<in> set as" using inv dom_fld [of a m te_block] by (auto simp: tm_inv_def)
  moreover have "text_of m a = tb_dsml bl" using fb b by (simp add: text_of_def)
  ultimately show ?thesis by (force simp: tm_view_def)
qed

lemma inv_stored:
  "tm_inv m as \<Longrightarrow> tm_by_block m t \<noteq> None \<Longrightarrow> \<exists>b bl. tm_blocks m b = Some bl \<and> tb_dsml bl = t"
  using inv_by_block [of m as t] by auto

lemma set_listing:
  assumes inv: "tm_inv m as"
    and ids: "\<And>b bl. tm_blocks m b = Some bl \<Longrightarrow> \<exists>cs. chain (bnexts m) (tb_entries bl) cs \<and> distinct cs \<and>
      set cs = members m b \<and> ids (tb_dsml bl) = map (\<lambda>a. the (fld te_id m a)) cs"
  shows "set (listing ids (fresh_texts (tm_by_block m) ts {})) = {(i, t). t \<in> set ts \<and> (\<exists>s. (i, t, s) \<in> set (tm_view m as))}"
proof (rule set_eqI)
  fix e :: "u8 list \<times> u8 list"
  obtain i t where e: "e = (i, t)" by fastforce
  show "e \<in> set (listing ids (fresh_texts (tm_by_block m) ts {})) \<longleftrightarrow> e \<in> {(i, t). t \<in> set ts \<and> (\<exists>s. (i, t, s) \<in> set (tm_view m as))}"
  proof
    assume "e \<in> set (listing ids (fresh_texts (tm_by_block m) ts {}))"
    then have t: "t \<in> set ts" "tm_by_block m t \<noteq> None" "i \<in> set (ids t)" by (auto simp: e listing_def set_fresh_texts)
    then obtain b bl where b: "tm_blocks m b = Some bl" "tb_dsml bl = t" using inv_stored [OF inv t(2)] by blast
    obtain cs where "set cs = members m b" "ids t = map (\<lambda>a. the (fld te_id m a)) cs" using ids [OF b(1)] b(2) by auto
    with t(3) obtain a where "a \<in> members m b" "i = the (fld te_id m a)" by auto
    with view_texts [OF inv b(1)] b(2) t(1) show "e \<in> {(i, t). t \<in> set ts \<and> (\<exists>s. (i, t, s) \<in> set (tm_view m as))}" by (auto simp: e)
  next
    assume "e \<in> {(i, t). t \<in> set ts \<and> (\<exists>s. (i, t, s) \<in> set (tm_view m as))}"
    then obtain a where a: "a \<in> set as" "i = the (fld te_id m a)" "t = text_of m a" and t: "t \<in> set ts"
      by (auto simp: e tm_view_def)
    obtain x bl where x: "tm_ents m a = Some x" "tm_blocks m (te_block x) = Some bl" "block_ok m (te_block x) bl"
      by (rule inv_entry [OF inv a(1)]) blast
    then have tt: "t = tb_dsml bl" using a(3) by (simp add: text_of_def fld_def)
    obtain cs where cs: "set cs = members m (te_block x)" "ids t = map (\<lambda>a. the (fld te_id m a)) cs" using ids [OF x(2)] tt by auto
    have "a \<in> members m (te_block x)" using x(1) by (simp add: members_def fld_def)
    then have "i \<in> set (ids t)" using cs a(2) by simp
    moreover have "t \<noteq> []" "tm_by_block m t \<noteq> None" using x(3) tt by (simp_all add: block_ok_def)
    ultimately show "e \<in> set (listing ids (fresh_texts (tm_by_block m) ts {}))"
      using t by (auto simp: e listing_def set_fresh_texts)
  qed
qed

lemma distinct_listing:
  assumes inv: "tm_inv m as"
    and ids: "\<And>b bl. tm_blocks m b = Some bl \<Longrightarrow> \<exists>cs. chain (bnexts m) (tb_entries bl) cs \<and> distinct cs \<and>
      set cs = members m b \<and> ids (tb_dsml bl) = map (\<lambda>a. the (fld te_id m a)) cs"
  shows "distinct (map fst (listing ids (fresh_texts (tm_by_block m) ts {})))"
proof -
  have each: "distinct (ids t)" if known: "tm_by_block m t \<noteq> None" for t
  proof -
    obtain b bl where b: "tm_blocks m b = Some bl" "tb_dsml bl = t" using inv_stored [OF inv known] by blast
    obtain cs where cs: "distinct cs" "set cs = members m b" "ids t = map (\<lambda>a. the (fld te_id m a)) cs" using ids [OF b(1)] b(2) by auto
    have "inj_on (\<lambda>a. the (fld te_id m a)) (set cs)"
    proof (rule inj_onI)
      fix x y assume "x \<in> set cs" "y \<in> set cs" and e: "the (fld te_id m x) = the (fld te_id m y)"
      then obtain ex ey where "tm_ents m x = Some ex" "tm_ents m y = Some ey" by (auto simp: cs(2) members_def fld_def)
      with e have "fld te_id m x = Some (te_id ex)" "fld te_id m y = Some (te_id ex)" by (auto simp: fld_def)
      with inv show "x = y" unfolding tm_inv_def ids_ok_def by (metis option.inject)
    qed
    with cs show ?thesis by (simp add: distinct_map)
  qed
  let ?fs = "fresh_texts (tm_by_block m) ts {}"
  have all: "set (listing ids ?fs) = {(i, t). t \<in> set ts \<and> (\<exists>s. (i, t, s) \<in> set (tm_view m as))}"
    using set_listing [OF inv, of ids ts] ids by blast
  have f: "map fst (listing ids ts') = concat (map ids ts')" for ts' by (induction ts') (simp_all add: listing_def comp_def)
  have "distinct (map fst (listing ids ts'))" if "distinct ts'" "\<forall>t \<in> set ts'. tm_by_block m t \<noteq> None \<and> t \<in> set (fresh_texts (tm_by_block m) ts {})" for ts'
    using that
  proof (induction ts')
    case (Cons t ts')
    have "set (ids t) \<inter> set (concat (map ids ts')) = {}"
    proof (rule ccontr)
      assume "set (ids t) \<inter> set (concat (map ids ts')) \<noteq> {}"
      then obtain i u where iu: "i \<in> set (ids t)" "u \<in> set ts'" "i \<in> set (ids u)" by auto
      then have "(i, t) \<in> set (listing ids (fresh_texts (tm_by_block m) ts {}))" "(i, u) \<in> set (listing ids (fresh_texts (tm_by_block m) ts {}))"
        using Cons.prems by (auto simp: listing_def)
      then obtain s s' where "(i, t, s) \<in> set (tm_view m as)" "(i, u, s') \<in> set (tm_view m as)"
        unfolding all by auto
      then have "t = u" using distinct_view [OF inv] by (metis eq_key_imp_eq_value prod.inject)
      with iu Cons.prems(1) show False by simp
    qed
    with Cons each show ?case unfolding f by simp
  qed (simp add: listing_def)
  then show ?thesis by (simp add: distinct_fresh_texts set_fresh_texts)
qed

section \<open>The saved map\<close>

text \<open>No block carries a scan mark from the future.\<close>

definition seen_upto :: "nat \<Rightarrow> tool_memory \<Rightarrow> bool" where
  "seen_upto n m \<longleftrightarrow> (\<forall>b bl. tm_blocks m b = Some bl \<longrightarrow> tb_seen bl \<le> n)"

lemma visit_marks:
  "visit_blocks f p scan m acc = Some (r, m') \<Longrightarrow> seen_upto scan m \<Longrightarrow> seen_upto scan m' \<and> tm_scan_clock m' = tm_scan_clock m"
proof (induction "length p" arbitrary: p m acc rule: less_induct)
  case less
  note step = visit_blocks.simps [of f p scan m acc]
  show ?case
  proof (cases "find_next_dsml_tool_block p")
    case None
    with less.prems show ?thesis unfolding step by simp
  next
    case (Some q)
    obtain start fin where q: "find_next_dsml_tool_block p = Some (start, fin)" using Some by (cases q) simp
    have less_p: "length (drop fin p) < length p" using find_next_bound [OF q] by auto
    note IH = less.hyps [OF less_p]
    show ?thesis
    proof (cases "tool_memory_find_block_locked m (take (fin - start) (drop start p))")
      case None
      with less.prems q show ?thesis unfolding step by (intro IH) simp_all
    next
      case (Some b)
      then obtain bl where bl: "tm_blocks m b = Some bl" using less.prems(1) q unfolding step by (auto split: option.splits)
      let ?m1 = "m\<lparr>tm_blocks := (tm_blocks m)(b \<mapsto> bl\<lparr>tb_seen := scan\<rparr>)\<rparr>"
      have s1: "seen_upto scan ?m1" using less.prems(2) by (simp add: seen_upto_def)
      show ?thesis
      proof (cases "tb_seen bl = scan")
        case True
        with less.prems q Some bl show ?thesis unfolding step by (intro IH) simp_all
      next
        case False
        then show ?thesis
          using less.prems(1) q Some bl s1 IH [of ?m1] unfolding step by (fastforce simp: Let_def split: option.splits)
      qed
    qed
  qed
qed

lemma seen_texts_fresh: "seen_upto n m \<Longrightarrow> seen_texts m (Suc n) = {}"
  by (fastforce simp: seen_texts_def seen_upto_def)

abbreviation map_bytes :: "(u8 list \<times> u8 list) list \<Rightarrow> u8 list" where
  "map_bytes es \<equiv> KV_TOOL_MAP_MAGIC @ le_put32 (of_nat (length es)) @ records_bytes es"

lemma length_map_bytes: "length (map_bytes es) = KV_TOOL_MAP_HEADER + length (records_bytes es)"
  by (simp add: KV_TOOL_MAP_MAGIC_def KV_TOOL_MAP_HEADER_def ascii_def)

definition stored_blocks :: "u8 list \<Rightarrow> tool_memory \<Rightarrow> nat list \<Rightarrow> (u8 list \<times> u8 list) set" where
  "stored_blocks t m as = {(i, x). x \<in> set (text_blocks t) \<and> (\<exists>s. (i, x, s) \<in> set (tm_view m as))}"

lemma measure_listing:
  assumes inv: "tm_inv m as" and seen: "seen_upto (tm_scan_clock m) m"
    and ids: "\<And>b bl. tm_blocks m b = Some bl \<Longrightarrow> \<exists>cs. chain (bnexts m) (tb_entries bl) cs \<and> distinct cs \<and>
      set cs = members m b \<and> ids (tb_dsml bl) = map (\<lambda>a. the (fld te_id m a)) cs"
    and es: "es = listing ids (fresh_texts (tm_by_block m) (text_blocks t) {})"
    and fits: "fits32 es" "length es \<le> UINT32_MAX" "length (map_bytes es) \<le> UINT64_MAX"
  shows "\<exists>m'. kv_tool_map_measure_locked t m = Some (Some (length es, if es = [] then 0 else length (map_bytes es)), m') \<and>
    unseen m' = unseen m \<and> seen_upto (tm_scan_clock m') m'"
proof -
  let ?m1 = "m\<lparr>tm_scan_clock := tm_scan_clock m + 1\<rparr>"
  have s: "seen_texts ?m1 (tm_scan_clock m + 1) = {}"
    using seen_texts_fresh [OF seen] by (simp add: seen_texts_def)
  have eq1: "unseen ?m1 = unseen m" by simp
  obtain m' where m': "visit_blocks (\<lambda>m bl. measure_entries (tb_entries bl) (tb_len bl) m) t (tm_scan_clock ?m1) ?m1 (0, KV_TOOL_MAP_HEADER) =
      Some (fold_opt (\<lambda>(i, t). count_entry (length t) i) es (0, KV_TOOL_MAP_HEADER), m')" "unseen m' = unseen m"
    using visit_measure [OF inv eq1 ids, of t "tm_scan_clock ?m1" "(0, KV_TOOL_MAP_HEADER)"] s measure_entries_chain
    unfolding es by auto
  have c: "fold_opt (\<lambda>(i, t). count_entry (length t) i) es (0, KV_TOOL_MAP_HEADER) =
      Some (length es, KV_TOOL_MAP_HEADER + length (records_bytes es))"
    using count_records [OF fits(1), of 0 KV_TOOL_MAP_HEADER] fits(2,3) unfolding length_map_bytes by simp
  have "seen_upto (tm_scan_clock ?m1) ?m1" using seen by (auto simp: seen_upto_def intro: le_SucI)
  with visit_marks [OF m'(1)] have "seen_upto (tm_scan_clock m') m'" by simp
  with m' c show ?thesis unfolding length_map_bytes
    by (intro exI [of _ m']) (simp add: kv_tool_map_measure_locked_def)
qed

lemma write_listing:
  assumes inv: "tm_inv m as" and seen: "seen_upto (tm_scan_clock m) m" and t: "t \<noteq> []"
    and ids: "\<And>b bl. tm_blocks m b = Some bl \<Longrightarrow> \<exists>cs. chain (bnexts m) (tb_entries bl) cs \<and> distinct cs \<and>
      set cs = members m b \<and> ids (tb_dsml bl) = map (\<lambda>a. the (fld te_id m a)) cs"
    and es: "es = listing ids (fresh_texts (tm_by_block m) (text_blocks t) {})"
    and fits: "fits32 es" "length es \<le> UINT32_MAX" "length (map_bytes es) \<le> UINT64_MAX"
  shows "\<exists>m'. kv_tool_map_write False cap t m =
      Some (if es = [] then Some ([], 0) else if length (map_bytes es) \<le> cap then Some (map_bytes es, length (map_bytes es)) else None, m') \<and>
    unseen m' = unseen m"
proof -
  obtain m1 where m1: "kv_tool_map_measure_locked t m = Some (Some (length es, if es = [] then 0 else length (map_bytes es)), m1)"
      "unseen m1 = unseen m" "seen_upto (tm_scan_clock m1) m1"
    using measure_listing [OF inv seen ids es fits] by blast
  show ?thesis
  proof (cases "es = []")
    case True
    with m1 t show ?thesis by (intro exI [of _ m1]) (simp add: kv_tool_map_write_def)
  next
    case ne: False
    let ?m2 = "m1\<lparr>tm_scan_clock := tm_scan_clock m1 + 1\<rparr>" and ?h = "KV_TOOL_MAP_MAGIC @ le_put32 (of_nat (length es))"
    have eq2: "unseen ?m2 = unseen m" using m1(2) by simp
    show ?thesis
    proof (cases "length ?h \<le> cap")
      case False
      with ne t m1 eq2 show ?thesis by (intro exI [of _ ?m2]) (simp add: kv_tool_map_write_def fwrite_cap_def)
    next
      case True
      have s: "seen_texts ?m2 (tm_scan_clock ?m2) = {}" using seen_texts_fresh [OF m1(3)] by (simp add: seen_texts_def)
      obtain m' where m': "visit_blocks (\<lambda>m bl. write_entries cap (tb_entries bl) (tb_dsml bl) (tb_len bl) m) t (tm_scan_clock ?m2) ?m2 ?h =
          Some (fold_opt (\<lambda>(i, t). write_entry cap t i) es ?h, m')" "unseen m' = unseen m"
        using visit_write [OF inv eq2 ids, of cap t "tm_scan_clock ?m2" ?h] s write_entries_chain unfolding es by auto
      with write_records [OF fits(1) True] ne t m1 True show ?thesis
        by (intro exI [of _ m']) (simp add: kv_tool_map_write_def fwrite_cap_def)
    qed
  qed
qed

section \<open>Scan marks while storing and looking up\<close>

definition keeps :: "nat \<Rightarrow> tool_memory \<Rightarrow> bool" where
  "keeps n m \<longleftrightarrow> seen_upto n m \<and> tm_scan_clock m = n"

lemma keeps_upd_ent: "upd_ent a f m = Some m' \<Longrightarrow> keeps n m \<Longrightarrow> keeps n m'"
  by (auto simp: upd_ent_def keeps_def seen_upto_def bind_eq_Some_conv)

lemma keeps_upd_block: "upd_block b f m = Some m' \<Longrightarrow> (\<And>bl. tb_seen (f bl) = tb_seen bl) \<Longrightarrow> keeps n m \<Longrightarrow> keeps n m'"
  by (auto simp: upd_block_def keeps_def seen_upto_def bind_eq_Some_conv split: if_splits)

lemma keeps_upd_fields:
  "upd_block b (tb_entries_update (\<lambda>_. v)) m = Some m' \<Longrightarrow> keeps n m \<Longrightarrow> keeps n m'"
  "upd_block b (\<lambda>bl. bl\<lparr>tb_refs := r bl\<rparr>) m = Some m' \<Longrightarrow> keeps n m \<Longrightarrow> keeps n m'"
  "upd_block b (\<lambda>bl. bl\<lparr>tb_entries := v, tb_refs := r bl\<rparr>) m = Some m' \<Longrightarrow> keeps n m \<Longrightarrow> keeps n m'"
  by (erule keeps_upd_block; simp)+

lemma keeps_free:
  "free_ent a m = Some m' \<Longrightarrow> keeps n m \<Longrightarrow> keeps n m'"
  "free_block b m = Some m' \<Longrightarrow> keeps n m \<Longrightarrow> keeps n m'"
  by (auto simp: free_ent_def free_block_def keeps_def seen_upto_def bind_eq_Some_conv split: if_splits)

lemma keeps_update [simp]:
  "keeps n (m\<lparr>tm_head := h\<rparr>) = keeps n m" "keeps n (m\<lparr>tm_tail := h\<rparr>) = keeps n m" "keeps n (m\<lparr>tm_clock := c\<rparr>) = keeps n m"
  "keeps n (m\<lparr>tm_bytes := k\<rparr>) = keeps n m" "keeps n (m\<lparr>tm_entries := i\<rparr>) = keeps n m" "keeps n (m\<lparr>tm_by_id := x\<rparr>) = keeps n m"
  "keeps n (m\<lparr>tm_by_block := x\<rparr>) = keeps n m" "keeps n (m\<lparr>tm_ents := y\<rparr>) = keeps n m" "keeps n (m\<lparr>tm_fresh := k\<rparr>) = keeps n m"
  "keeps n (less_bytes k m) = keeps n m"
  by (simp_all add: keeps_def seen_upto_def less_bytes_def)

lemma keeps_link_head: "tool_memory_link_head e m = Some m' \<Longrightarrow> keeps n m \<Longrightarrow> keeps n m'"
  by (auto simp: tool_memory_link_head_def bind_eq_Some_conv split: option.splits dest!: keeps_upd_ent [of _ _ _ _ n])

lemma keeps_unlink: "tool_memory_unlink e m = Some m' \<Longrightarrow> keeps n m \<Longrightarrow> keeps n m'"
  by (auto simp: tool_memory_unlink_def bind_eq_Some_conv split: option.splits dest!: keeps_upd_ent [of _ _ _ _ n])

lemma keeps_touch: "tool_memory_touch e m = Some m' \<Longrightarrow> keeps n m \<Longrightarrow> keeps n m'"
  by (auto simp: tool_memory_touch_def bind_eq_Some_conv split: if_splits
      dest!: keeps_upd_ent [of _ _ _ _ n] keeps_link_head [of _ _ _ n] keeps_unlink [of _ _ _ n])

lemma keeps_unlink_after: "unlink_after p e m = Some m' \<Longrightarrow> keeps n m \<Longrightarrow> keeps n m'"
proof (induction rule: unlink_after.raw_induct [rotated, consumes 1, case_names step])
  case (step walk p e m m')
  then show ?case
    by (auto simp: bind_eq_Some_conv split: option.splits if_splits dest!: keeps_upd_ent [of _ _ _ _ n])
qed

lemma keeps_block_unlink: "tool_block_unlink_entry b e m = Some m' \<Longrightarrow> keeps n m \<Longrightarrow> keeps n m'"
  by (auto simp: tool_block_unlink_entry_def bind_eq_Some_conv split: option.splits if_splits
      dest!: keeps_upd_ent [of _ _ _ _ n] keeps_upd_fields [where n = n] keeps_unlink_after [of _ _ _ _ n])

lemma keeps_release: "tool_memory_release_block_locked b m = Some m' \<Longrightarrow> keeps n m \<Longrightarrow> keeps n m'"
  by (auto simp: tool_memory_release_block_locked_def bind_eq_Some_conv split: if_splits
      dest!: keeps_upd_fields [where n = n] keeps_free [of _ _ _ n])

lemma keeps_remove: "tool_memory_remove_entry_locked e m = Some m' \<Longrightarrow> keeps n m \<Longrightarrow> keeps n m'"
  by (auto simp: tool_memory_remove_entry_locked_def bind_eq_Some_conv split: if_splits
      dest!: keeps_unlink [of _ _ _ n] keeps_block_unlink [of _ _ _ _ n] keeps_release [of _ _ _ n] keeps_free [of _ _ _ n])

lemma keeps_prune: "tool_memory_prune_locked m = Some m' \<Longrightarrow> keeps n m \<Longrightarrow> keeps n m'"
proof (induction rule: tool_memory_prune_locked.raw_induct [rotated, consumes 1, case_names step])
  case (step prune m m')
  then show ?case
    by (auto simp: bind_eq_Some_conv split: option.splits if_splits dest!: keeps_remove [of _ _ _ n])
qed

lemma keeps_get_block: "tool_memory_get_block_locked t m = (b, m') \<Longrightarrow> keeps n m \<Longrightarrow> keeps n m'"
  by (auto simp: tool_memory_get_block_locked_def Let_def keeps_def seen_upto_def split: option.splits if_splits)

lemma keeps_insert: "tool_memory_insert i b src m = Some m' \<Longrightarrow> keeps n m \<Longrightarrow> keeps n m'"
  by (auto simp: tool_memory_insert_def Let_def bind_eq_Some_conv
      dest!: keeps_upd_fields [where n = n] keeps_link_head [of _ _ _ n])

lemma bind_SomeE:
  assumes "x \<bind> f = Some z"
  obtains y where "x = Some y" "f y = Some z"
  using assms by (cases x) auto

lemma keeps_store:
  "(case tool_memory_get_block_locked t m of
      (b, m) \<Rightarrow> do { m \<leftarrow> tool_memory_insert i b src m; tool_memory_prune_locked m }) = Some m' \<Longrightarrow> keeps n m \<Longrightarrow> keeps n m'"
  by (cases "tool_memory_get_block_locked t m")
    (auto simp: bind_eq_Some_conv dest!: keeps_get_block [of _ _ _ _ n] keeps_insert [of _ _ _ _ _ n] keeps_prune [of _ _ n])

lemma keeps_put: "tool_memory_put_locked i t src m = Some m' \<Longrightarrow> keeps n m \<Longrightarrow> keeps n m'"
proof -
  assume p: "tool_memory_put_locked i t src m = Some m'" and k: "keeps n m"
  let ?old = "tool_memory_find_entry_locked m i"
  show "keeps n m'"
  proof (cases "i = [] \<or> t = []")
    case True
    with p k show ?thesis by (auto simp: tool_memory_put_locked_def)
  next
    case False
    then obtain same where s: "tool_memory_same ?old t m = Some same"
      using p by (auto simp: tool_memory_put_locked_def Let_def bind_eq_Some_conv)
    show ?thesis
    proof (cases same)
      case True
      with p False s k show ?thesis
        by (auto simp: tool_memory_put_locked_def Let_def bind_eq_Some_conv split: if_splits
            dest!: keeps_upd_ent [of _ _ _ _ n] keeps_touch [of _ _ _ n] keeps_prune [of _ _ n])
    next
      case not_same: False
      let ?A = "case ?old of None \<Rightarrow> Some m | Some e \<Rightarrow> tool_memory_remove_entry_locked e m"
      let ?B = "\<lambda>m. case tool_memory_get_block_locked t m of
          (b, m) \<Rightarrow> do { m \<leftarrow> tool_memory_insert i b src m; tool_memory_prune_locked m }"
      have "?A \<bind> ?B = Some m'" using p False s not_same by (simp add: tool_memory_put_locked_def)
      then obtain m1 where m1: "?A = Some m1" and st: "?B m1 = Some m'" by (rule bind_SomeE)
      from m1 k have "keeps n m1" by (auto split: option.splits dest: keeps_remove)
      with st show ?thesis by (rule keeps_store)
    qed
  qed
qed

lemma keeps_lookup: "tool_memory_lookup_locked i m = Some (r, m') \<Longrightarrow> keeps n m \<Longrightarrow> keeps n m'"
  by (auto simp: tool_memory_lookup_locked_def bind_eq_Some_conv split: option.splits dest!: keeps_touch [of _ _ _ n])

lemma keeps_run: "tool_run ops m = Some (rs, m') \<Longrightarrow> keeps n m \<Longrightarrow> keeps n m'"
proof (induction ops arbitrary: m rs)
  case (Cons p ops)
  then show ?case by (cases p) (auto simp: bind_eq_Some_conv dest: keeps_put keeps_lookup)
qed simp

lemma keeps_zero: "keeps 0 (tool_memory_zero maxe maxb k)"
  by (simp add: keeps_def seen_upto_def tool_memory_zero_def)

section \<open>Loading\<close>

text \<open>Records the loader accepts: C strings within its limits.\<close>

definition loadable :: "u8 list \<times> u8 list \<Rightarrow> bool" where
  "loadable = (\<lambda>(i, t). i \<noteq> [] \<and> length i \<le> 256 \<and> t \<noteq> [] \<and> length t \<le> DS4_TOOL_MEMORY_MAX_BYTES \<and> 0 \<notin> set i \<and> 0 \<notin> set t)"

definition wants :: "stop_list option \<Rightarrow> u8 list \<times> u8 list \<Rightarrow> bool" where
  "wants wanted = (\<lambda>(i, _). wanted = None \<or> id_list_contains (the wanted) i)"

definition lru_load :: "int \<Rightarrow> nat \<Rightarrow> lru \<Rightarrow> (u8 list \<times> u8 list) list \<Rightarrow> lru" where
  "lru_load maxe maxb = foldl (\<lambda>l (i, t). lru_put maxe maxb i t TOOL_MEMORY_DISK l)"

lemma lru_load_simps [simp]:
  "lru_load maxe maxb l [] = l"
  "lru_load maxe maxb l ((i, t) # es) = lru_load maxe maxb (lru_put maxe maxb i t TOOL_MEMORY_DISK l) es"
  "lru_load maxe maxb l (es @ fs) = lru_load maxe maxb (lru_load maxe maxb l es) fs"
  by (simp_all add: lru_load_def)

lemma unat_of_nat32: "n \<le> UINT32_MAX \<Longrightarrow> unat (of_nat n :: u32) = n"
  by (simp add: unat_of_nat UINT32_MAX_def)

lemma loadable_sizes:
  "loadable (i, t) \<Longrightarrow> unat (of_nat (length i) :: u32) = length i \<and> unat (of_nat (length t) :: u32) = length t"
  using unat_of_nat32 [of "length i"] unat_of_nat32 [of "length t"]
  by (simp add: loadable_def DS4_TOOL_MEMORY_MAX_BYTES_def UINT32_MAX_def)

lemma load_entries_spec:
  "\<forall>e \<in> set es. loadable e \<Longrightarrow> tm_inv m as \<Longrightarrow>
    \<exists>m' as'. load_entries (length es) wanted (records_bytes es @ rest) n m = Some (n + length (filter (wants wanted) es), m') \<and>
      tm_inv m' as' \<and> same_limits m m' \<and>
      tm_view m' as' = lru_load (tool_memory_max_entries m) (tool_memory_max_bytes m) (tm_view m as) (filter (wants wanted) es)"
proof (induction es arbitrary: n m as)
  case Nil
  then show ?case by (intro exI [of _ m] exI [of _ as]) simp
next
  case (Cons e es)
  obtain i t where e: "e = (i, t)" by fastforce
  have ok: "loadable (i, t)" and oks: "\<forall>e \<in> set es. loadable e" using Cons.prems(1) by (simp_all add: e)
  then have c: "c_string i = i" "c_string t = t" "i \<noteq> []" "t \<noteq> []" by (simp_all add: loadable_def c_string_id)
  let ?lens = "le_put32 (of_nat (length i)) @ le_put32 (of_nat (length t))"
  have r: "records_bytes (e # es) @ rest = ?lens @ (i @ t @ records_bytes es @ rest)" by (simp add: e record_bytes_def)
  have h: "fread_exact 8 (records_bytes (e # es) @ rest) = Some (?lens, i @ t @ records_bytes es @ rest)"
    unfolding r by (rule fread_exact_append) simp
  have l: "unat (le_get32 ?lens) = length i" "unat (le_get32 (drop 4 ?lens)) = length t"
    using loadable_sizes [OF ok] le_get32_put32 [of "of_nat (length t)" "[]"] by (simp_all add: le_get32_put32)
  have step: "load_entries (length (e # es)) wanted (records_bytes (e # es) @ rest) n m =
      (if wants wanted (i, t) then do { m \<leftarrow> tool_memory_put_locked i t TOOL_MEMORY_DISK m;
          load_entries (length es) wanted (records_bytes es @ rest) (n + 1) m }
       else load_entries (length es) wanted (records_bytes es @ rest) n m)"
    using ok c unfolding list.size(4) add_Suc_right add_0_right load_entries.simps h option.case prod.case Let_def l
    by (simp add: loadable_def wants_def tool_memory_put_source_def)
  show ?case
  proof (cases "wants wanted e")
    case True
    obtain m1 as1 where m1: "tool_memory_put_locked i t TOOL_MEMORY_DISK m = Some m1" "tm_inv m1 as1" "same_limits m m1"
        "tm_view m1 as1 = lru_put (tool_memory_max_entries m) (tool_memory_max_bytes m) i t TOOL_MEMORY_DISK (tm_view m as)"
      using put_spec [OF Cons.prems(2)] by blast
    obtain m' as' where m': "load_entries (length es) wanted (records_bytes es @ rest) (n + 1) m1 =
        Some (n + 1 + length (filter (wants wanted) es), m')" "tm_inv m' as'" "same_limits m1 m'"
        "tm_view m' as' = lru_load (tool_memory_max_entries m) (tool_memory_max_bytes m) (tm_view m1 as1) (filter (wants wanted) es)"
      using Cons.IH [OF oks m1(2), of "n + 1"] limits_same [OF m1(3)] by auto
    show ?thesis unfolding step using True m1 m' same_limits_trans [OF m1(3) m'(3)]
      by (intro exI [of _ m'] exI [of _ as']) (simp add: e)
  next
    case False
    then show ?thesis unfolding step using Cons.IH [OF oks Cons.prems(2), of n] by (simp add: e)
  qed
qed

section \<open>Nothing is pruned while loading\<close>

lemma lru_bytes_distinct:
  "distinct (map fst l) \<Longrightarrow> lru_bytes l = (\<Sum>i \<in> fst ` set l. length i + 1 + sizeof_entry) +
    (\<Sum>t \<in> (\<lambda>(_, t, _). t) ` set l. length t + 1 + sizeof_block)"
proof -
  assume d: "distinct (map fst l)"
  have "(\<Sum>(i, _) \<leftarrow> l. length i + 1 + sizeof_entry) = (\<Sum>i \<leftarrow> map fst l. length i + 1 + sizeof_entry)"
    by (simp add: case_prod_unfold comp_def)
  then show ?thesis unfolding lru_bytes_def sum_list_distinct_conv_sum_set [OF d] by simp
qed

lemma lru_full_sub:
  assumes d: "distinct (map fst l)" "distinct (map fst l')"
    and sub: "\<And>i t s. (i, t, s) \<in> set l' \<Longrightarrow> \<exists>s. (i, t, s) \<in> set l"
    and full: "\<not> lru_full maxe maxb l"
  shows "\<not> lru_full maxe maxb l'"
proof -
  have ids: "fst ` set l' \<subseteq> fst ` set l" using sub by force
  have "length l' = card (fst ` set l')" "length l = card (fst ` set l)"
    using distinct_card [OF d(1)] distinct_card [OF d(2)] by simp_all
  with card_mono [OF _ ids] have "length l' \<le> length l" by simp
  moreover have "(\<lambda>(_, t, _). t) ` set l' \<subseteq> (\<lambda>(_, t, _). t) ` set l" using sub by force
  then have "lru_bytes l' \<le> lru_bytes l" unfolding lru_bytes_distinct [OF d(1)] lru_bytes_distinct [OF d(2)]
    using ids by (intro add_mono sum_mono2) auto
  ultimately show ?thesis using full by (simp add: lru_full_def)
qed

abbreviation on_disk :: "(u8 list \<times> u8 list) list \<Rightarrow> lru" where
  "on_disk es \<equiv> rev (map (\<lambda>(i, t). (i, t, TOOL_MEMORY_DISK)) es)"

lemma lru_load_all:
  assumes d: "distinct (map fst l)" and full: "\<not> lru_full maxe maxb l"
  shows "distinct (map fst es) \<Longrightarrow> \<forall>(i, t) \<in> set es. i \<noteq> [] \<and> t \<noteq> [] \<and> (\<exists>s. (i, t, s) \<in> set l) \<Longrightarrow>
    lru_load maxe maxb [] es = on_disk es"
proof (induction es rule: rev_induct)
  case (snoc e es)
  obtain i t where e: "e = (i, t)" by fastforce
  have fst_eq: "map fst (on_disk fs) = rev (map fst fs)" for fs :: "(u8 list \<times> u8 list) list" by (induction fs) auto
  have "i \<notin> fst ` set (on_disk es)" using snoc.prems(1) by (force simp: e)
  then have "map_of (on_disk es) i = None" "lru_without i (on_disk es) = on_disk es"
    by (simp add: map_of_eq_None_iff, unfold lru_without_def, intro filter_True) force
  moreover have "\<not> lru_full maxe maxb ((i, t, TOOL_MEMORY_DISK) # on_disk es)"
  proof (rule lru_full_sub [OF d _ _ full])
    show "distinct (map fst ((i, t, TOOL_MEMORY_DISK) # on_disk es))"
      using snoc.prems(1) unfolding list.map fst_eq by (simp add: e)
  qed (use snoc.prems(2) e in auto)
  ultimately have "lru_put maxe maxb i t TOOL_MEMORY_DISK (on_disk es) = (i, t, TOOL_MEMORY_DISK) # on_disk es"
    using snoc.prems(2) by (simp add: lru_put_def lru_prune.simps e)
  with snoc show ?case by (simp add: e)
qed simp

section \<open>The map restores what it saved\<close>

definition op_fits :: "tool_op \<Rightarrow> bool" where
  "op_fits p = (case p of Op_put i t _ \<Rightarrow> length i \<le> 256 \<and> length t \<le> DS4_TOOL_MEMORY_MAX_BYTES \<and> 0 \<notin> set i \<and> 0 \<notin> set t
    | Op_lookup _ \<Rightarrow> True)"

text \<open>The answer to a lookup, \<open>None\<close> when the id is not known.\<close>

definition answer :: "tool_memory \<Rightarrow> u8 list \<Rightarrow> (u8 list \<times> tool_memory_source) option" where
  "answer m i = (case tool_memory_lookup_locked i m of Some (Some (t, src, _), _) \<Rightarrow> Some (t, src) | _ \<Rightarrow> None)"

lemma answer_view: "tm_inv m as \<Longrightarrow> answer m i = (if i = [] then None else map_of (tm_view m as) i)"
proof -
  assume inv: "tm_inv m as"
  obtain r m' as' where r: "tool_memory_lookup_locked i m = Some (r, m')"
      "(map_option (\<lambda>(t, src, _). (t, src)) r, tm_view m' as') = (if i = [] then (None, tm_view m as) else lru_lookup i (tm_view m as))"
    using lookup_spec [OF inv, of i] by blast
  have "answer m i = map_option (\<lambda>(t, src, _). (t, src)) r" using r(1) by (auto simp: answer_def split: option.split)
  also have "\<dots> = (if i = [] then None else fst (lru_lookup i (tm_view m as)))"
    using arg_cong [OF r(2), of fst] by (simp split: if_splits)
  finally show ?thesis by (auto simp: lru_lookup_def split: option.split)
qed

lemma set_lru_prune: "set (lru_prune maxe maxb l) \<subseteq> set l"
proof (induction maxe maxb l rule: lru_prune.induct)
  case (1 maxe maxb l)
  then show ?case by (subst lru_prune.simps) (auto dest: in_set_butlastD)
qed

lemma set_lru_put: "(j, x, s) \<in> set (lru_put maxe maxb i t src l) \<Longrightarrow> j = i \<and> x = t \<or> (\<exists>s. (j, x, s) \<in> set l)"
  by (auto simp: lru_put_def lru_without_def split: if_splits dest!: subsetD [OF set_lru_prune])

abbreviation stored_ok :: "lru \<Rightarrow> bool" where
  "stored_ok l \<equiv> \<forall>(i, t, _) \<in> set l. loadable (i, t)"

lemma lru_run_loadable: "stored_ok l \<Longrightarrow> \<forall>p \<in> set ops. op_fits p \<Longrightarrow> stored_ok (snd (lru_run maxe maxb ops l))"
proof (induction ops arbitrary: l)
  case (Cons p ops)
  show ?case
  proof (cases p)
    case (Op_put i t src)
    have "stored_ok (lru_put maxe maxb i t src l)"
    proof (cases "i = [] \<or> t = []")
      case False
      then have "loadable (i, t)" using Cons.prems(2) Op_put by (simp add: op_fits_def loadable_def)
      with Cons.prems(1) show ?thesis by (fastforce dest: set_lru_put)
    qed (use Cons.prems in \<open>auto simp: lru_put_def\<close>)
    with Cons Op_put show ?thesis by simp
  next
    case (Op_lookup i)
    have "stored_ok (if i = [] then l else snd (lru_lookup i l))"
      using Cons.prems(1) by (auto simp: lru_lookup_def lru_without_def split: option.splits dest!: map_of_SomeD)
    with Cons Op_lookup show ?thesis by (auto simp: Let_def split: prod.splits if_splits)
  qed
qed simp

lemma length_records_bytes: "\<forall>e \<in> set es. loadable e \<Longrightarrow> length (records_bytes es) \<le> length es * (8 + 256 + DS4_TOOL_MEMORY_MAX_BYTES)"
proof (induction es)
  case (Cons e es)
  then show ?case by (cases e) (simp add: length_record_bytes loadable_def)
qed simp

lemma map_of_on_disk: "distinct (map fst es) \<Longrightarrow> map_of (on_disk es) i = map_option (\<lambda>t. (t, TOOL_MEMORY_DISK)) (map_of es i)"
proof -
  assume d: "distinct (map fst es)"
  have "map fst (map (\<lambda>(i, t). (i, t, TOOL_MEMORY_DISK)) es) = map fst es" by (induction es) auto
  then have "map_of (on_disk es) i = map_of (map (\<lambda>(i, t). (i, t, TOOL_MEMORY_DISK)) es) i"
    using d by (intro map_of_inject_set [THEN iffD2, THEN fun_cong]) (simp_all add: rev_map [symmetric] comp_def case_prod_unfold)
  also have "\<dots> = map_option (\<lambda>t. (t, TOOL_MEMORY_DISK)) (map_of es i)" by (induction es) auto
  finally show ?thesis .
qed

lemma map_restores:
  assumes inv: "tm_inv m as" and within: "tm_within m" and keeps: "keeps n m" and ok: "stored_ok (tm_view m as)"
    and max: "tool_memory_max_entries m < 2 ^ 31" and t: "t \<noteq> []"
    and lim: "tool_memory_max_entries z = tool_memory_max_entries m" "tool_memory_max_bytes z = tool_memory_max_bytes m"
    and z: "tm_inv z []"
  shows "\<exists>out. (\<exists>m1. kv_tool_map_serialized_size False t m = Some (Some (length out), m1)) \<and>
    (\<forall>cap. \<exists>m2. kv_tool_map_write False cap t m = Some (if length out \<le> cap then Some (out, length out) else None, m2) \<and>
       unseen m2 = unseen m) \<and>
    (\<exists>c m'. kv_tool_map_load_from_pos False out wanted z = Some (c, m') \<and>
       (\<forall>i. answer m' i = (case answer m i of None \<Rightarrow> None
          | Some (x, _) \<Rightarrow> if x \<in> set (text_blocks t) \<and> wants wanted (i, x) then Some (x, TOOL_MEMORY_DISK) else None)))"
proof -
  let ?l = "tm_view m as" and ?maxe = "tool_memory_max_entries m" and ?maxb = "tool_memory_max_bytes m"
  obtain ids where ids: "\<And>b bl. tm_blocks m b = Some bl \<Longrightarrow> \<exists>cs. chain (bnexts m) (tb_entries bl) cs \<and> distinct cs \<and>
      set cs = members m b \<and> ids (tb_dsml bl) = map (\<lambda>a. the (fld te_id m a)) cs"
    by (rule block_ids [OF inv]) blast
  define es where "es = listing ids (fresh_texts (tm_by_block m) (text_blocks t) {})"
  have set_es: "set es = {(i, x). x \<in> set (text_blocks t) \<and> (\<exists>s. (i, x, s) \<in> set ?l)}"
    unfolding es_def using set_listing [OF inv ids] by blast
  have dist: "distinct (map fst es)" unfolding es_def using distinct_listing [OF inv ids] by blast
  have dl: "distinct (map fst ?l)" by (rule distinct_view [OF inv])
  have full: "\<not> lru_full ?maxe ?maxb ?l" using within within_iff [OF inv] by simp
  have load: "\<forall>e \<in> set es. loadable e" using ok by (fastforce simp: set_es)
  let ?fs = "filter (wants wanted) es"
  have distf: "distinct (map fst ?fs)" using dist by (rule distinct_map_filter)
  have "lru_load ?maxe ?maxb [] ?fs = on_disk ?fs"
    by (rule lru_load_all [OF dl full distf]) (use load in \<open>auto simp: set_es loadable_def\<close>)
  have len: "length es \<le> length ?l"
  proof -
    have "fst ` set es \<subseteq> fst ` set ?l" by (force simp: set_es)
    then have "card (fst ` set es) \<le> card (fst ` set ?l)" by (intro card_mono) simp_all
    then show ?thesis using distinct_card [OF dl] distinct_card [OF dist] by simp
  qed
  have few: "int (length es) \<le> ?maxe" using len full by (simp add: lru_full_def)
  have seen: "seen_upto (tm_scan_clock m) m" using keeps by (simp add: keeps_def)
  have fits: "fits32 es" using load by (auto simp: loadable_def UINT32_MAX_def DS4_TOOL_MEMORY_MAX_BYTES_def)
  have few': "length es < 2 ^ 31" using few max by simp
  then have count: "length es \<le> UINT32_MAX" by (simp add: UINT32_MAX_def)
  have "length es * (8 + 256 + DS4_TOOL_MEMORY_MAX_BYTES) \<le> 2 ^ 31 * (8 + 256 + DS4_TOOL_MEMORY_MAX_BYTES)"
    using few' by (intro mult_right_mono) simp_all
  with length_records_bytes [OF load] have bytes: "length (map_bytes es) \<le> UINT64_MAX"
    unfolding length_map_bytes by (simp add: UINT64_MAX_def KV_TOOL_MAP_HEADER_def DS4_TOOL_MEMORY_MAX_BYTES_def)
  define out where "out = (if es = [] then [] else map_bytes es)"
  obtain m1 where "kv_tool_map_measure_locked t m = Some (Some (length es, if es = [] then 0 else length (map_bytes es)), m1)"
    using measure_listing [OF inv seen ids es_def fits count bytes] by blast
  then have size: "\<exists>m1. kv_tool_map_serialized_size False t m = Some (Some (length out), m1)"
    using t by (simp add: kv_tool_map_serialized_size_def out_def)
  have wr: "\<exists>m2. kv_tool_map_write False cap t m = Some (if length out \<le> cap then Some (out, length out) else None, m2) \<and>
      unseen m2 = unseen m" for cap
  proof -
    have e: "(if es = [] then Some ([], 0) else if length (map_bytes es) \<le> cap then Some (map_bytes es, length (map_bytes es)) else None) =
        (if length out \<le> cap then Some (out, length out) else None)" by (simp add: out_def)
    show ?thesis unfolding e [symmetric] using write_listing [OF inv seen t ids es_def fits count bytes, of cap] by blast
  qed
  have "\<exists>c m' as'. kv_tool_map_load_from_pos False out wanted z = Some (c, m') \<and> tm_inv m' as' \<and> tm_view m' as' = on_disk ?fs"
  proof (cases "es = []")
    case True
    then show ?thesis using z
      by (intro exI [of _ 0] exI [of _ z] exI [of _ "[]"])
        (simp add: out_def kv_tool_map_load_from_pos_def fread_exact_def KV_TOOL_MAP_HEADER_def tm_view_def)
  next
    case False
    have h: "fread_exact KV_TOOL_MAP_HEADER out = Some (KV_TOOL_MAP_MAGIC @ le_put32 (of_nat (length es)), records_bytes es)"
      using False fread_exact_append [of KV_TOOL_MAP_HEADER "KV_TOOL_MAP_MAGIC @ le_put32 (of_nat (length es))" "records_bytes es"]
      by (simp add: out_def KV_TOOL_MAP_HEADER_def KV_TOOL_MAP_MAGIC_def ascii_def)
    have magic: "length KV_TOOL_MAP_MAGIC = 4" by (simp add: KV_TOOL_MAP_MAGIC_def ascii_def)
    have u: "unat (of_nat (length es) :: u32) = length es" using count by (rule unat_of_nat32)
    then have "uint (of_nat (length es) :: u32) = int (length es)" by (metis uint_nat)
    then have c: "\<not> ?maxe * 4 < uint (of_nat (length es) :: u32)" using few by simp
    obtain m' as' where "load_entries (length es) wanted (records_bytes es) 0 z = Some (length ?fs, m')" "tm_inv m' as'"
        "tm_view m' as' = lru_load ?maxe ?maxb [] ?fs"
      using load_entries_spec [OF load z, of wanted "[]" 0] lim by (auto simp: tm_view_def)
    moreover have a: "take 4 (KV_TOOL_MAP_MAGIC @ le_put32 (of_nat (length es))) = KV_TOOL_MAP_MAGIC"
        "drop 4 (KV_TOOL_MAP_MAGIC @ le_put32 (of_nat (length es))) = le_put32 (of_nat (length es))"
      using magic by simp_all
    have g: "le_get32 (le_put32 (of_nat (length es))) = of_nat (length es)"
      using le_get32_put32 [of "of_nat (length es)" "[]"] by (simp only: append_Nil2)
    have "kv_tool_map_load_from_pos False out wanted z = load_entries (length es) wanted (records_bytes es) 0 z"
      unfolding kv_tool_map_load_from_pos_def h option.case prod.case a g Let_def lim(1) u by (simp only: c not_True_eq_False simp_thms if_False)
    ultimately show ?thesis using \<open>lru_load ?maxe ?maxb [] ?fs = on_disk ?fs\<close> by auto
  qed
  then obtain c m' as' where m': "kv_tool_map_load_from_pos False out wanted z = Some (c, m')" "tm_inv m' as'"
      "tm_view m' as' = on_disk ?fs" by blast
  have "answer m' i = (case answer m i of None \<Rightarrow> None
      | Some (x, _) \<Rightarrow> if x \<in> set (text_blocks t) \<and> wants wanted (i, x) then Some (x, TOOL_MEMORY_DISK) else None)" for i
  proof (cases "i = []")
    case False
    have iff: "map_of ?fs i = Some x \<longleftrightarrow> x \<in> set (text_blocks t) \<and> wants wanted (i, x) \<and> (\<exists>s. map_of ?l i = Some (x, s))" for x
      unfolding map_of_eq_Some_iff [OF distf] set_filter set_es map_of_eq_Some_iff [OF dl] by auto
    have "map_of ?fs i = (case map_of ?l i of None \<Rightarrow> None
        | Some (x, _) \<Rightarrow> if x \<in> set (text_blocks t) \<and> wants wanted (i, x) then Some x else None)"
    proof (cases "map_of ?fs i")
      case None
      with iff show ?thesis by (simp split: option.split prod.split)
    next
      case (Some x)
      with iff [of x] show ?thesis by auto
    qed
    then show ?thesis using False unfolding answer_view [OF m'(2)] answer_view [OF inv] m'(3) map_of_on_disk [OF distf]
      by (auto split: option.split)
  qed (simp add: answer_view [OF m'(2)] answer_view [OF inv])
  with size wr m'(1) show ?thesis by blast
qed

text \<open>
  A saved tool map gives back what it covers. The size announced for a checkpoint text is the size written, on a
  file with room for it, and nothing is reported as written otherwise; the memory changes only in its scan marks.
  Loading the bytes into an empty memory answers every wanted id as before when its text is a tool block of the
  checkpoint text, now with the disk as source, and knows no other id.
\<close>

theorem tool_map_restores:
  assumes "\<forall>p \<in> set ops. op_fits p" and "tool_run ops (tool_memory_zero maxe maxb k) = Some (rs, m)"
    and "maxe < 2 ^ 31" and "t \<noteq> []"
  shows "\<exists>out. (\<exists>m1. kv_tool_map_serialized_size False t m = Some (Some (length out), m1)) \<and>
    (\<forall>cap. \<exists>m2. kv_tool_map_write False cap t m = Some (if length out \<le> cap then Some (out, length out) else None, m2) \<and>
       unseen m2 = unseen m) \<and>
    (\<exists>c m'. kv_tool_map_load_from_pos False out wanted (tool_memory_zero maxe maxb k') = Some (c, m') \<and>
       (\<forall>i. answer m' i = (case answer m i of None \<Rightarrow> None
          | Some (x, _) \<Rightarrow> if x \<in> set (text_blocks t) \<and> wants wanted (i, x) then Some (x, TOOL_MEMORY_DISK) else None)))"
proof -
  let ?z = "tool_memory_zero maxe maxb k"
  have v: "tm_view ?z [] = []" by (simp add: tm_view_def)
  obtain as where m: "tm_inv m as" "same_limits ?z m"
      "tm_view m as = snd (lru_run (tool_memory_max_entries ?z) (tool_memory_max_bytes ?z) ops [])"
    using tool_run_spec [OF tm_inv_zero [of maxe maxb k], of ops] assms(2) v by auto
  have "tm_within ?z" using max_entries_pos [of ?z] by (simp add: tm_within_def tool_memory_zero_def)
  then have w: "tm_within m" using tool_run_within [OF tm_inv_zero _ assms(2)] by simp
  have ok: "stored_ok (tm_view m as)" unfolding m(3) by (rule lru_run_loadable) (use assms(1) in auto)
  have lim: "tool_memory_max_entries (tool_memory_zero maxe maxb k') = tool_memory_max_entries m"
      "tool_memory_max_bytes (tool_memory_zero maxe maxb k') = tool_memory_max_bytes m"
    using limits_same [OF m(2)]
    by (simp_all add: tool_memory_zero_def tool_memory_max_entries_def tool_memory_max_bytes_def)
  have "tool_memory_max_entries m < 2 ^ 31" using assms(3) lim(1)
    by (simp add: tool_memory_zero_def tool_memory_max_entries_def DS4_TOOL_MEMORY_DEFAULT_MAX_IDS_def split: if_splits)
  then show ?thesis
    by (rule map_restores [OF m(1) w keeps_run [OF assms(2) keeps_zero] ok _ assms(4) lim tm_inv_zero])
qed

text \<open>A memory with one text that is a tool block and one that is not.\<close>

lemma demo_memory:
  fixes b :: "u8 list"
  defines "b \<equiv> ascii ''<tool_calls></tool_calls>''"
  obtains m where "tool_run [Op_put [0x61] b TOOL_MEMORY_RAM, Op_put [0x62] [0x63] TOOL_MEMORY_RAM] (tool_memory_zero 5 1000 1) = Some ([], m)"
    and "answer m [0x61] = Some (b, TOOL_MEMORY_RAM)" and "answer m [0x62] = Some ([0x63], TOOL_MEMORY_RAM)"
proof -
  let ?ops = "[Op_put [0x61] b TOOL_MEMORY_RAM, Op_put [0x62] [0x63] TOOL_MEMORY_RAM]" and ?z = "tool_memory_zero 5 1000 1"
  have v: "tm_view ?z [] = []" by (simp add: tm_view_def)
  have lim: "tool_memory_max_entries ?z = 5" "tool_memory_max_bytes ?z = 1000"
    by (simp_all add: tool_memory_zero_def tool_memory_max_entries_def tool_memory_max_bytes_def)
  have l: "lru_run 5 1000 ?ops [] = ([], [([0x62], [0x63], TOOL_MEMORY_RAM), ([0x61], b, TOOL_MEMORY_RAM)])"
    unfolding b_def by code_simp
  obtain m as where m: "tool_run ?ops ?z = Some ([], m)" "tm_inv m as"
      "tm_view m as = [([0x62], [0x63], TOOL_MEMORY_RAM), ([0x61], b, TOOL_MEMORY_RAM)]"
    using tool_run_spec [OF tm_inv_zero [of 5 1000 1], of ?ops] unfolding lim v l by auto
  have "answer m [0x61] = Some (b, TOOL_MEMORY_RAM)" "answer m [0x62] = Some ([0x63], TOOL_MEMORY_RAM)"
    unfolding answer_view [OF m(2)] m(3) by simp_all
  with m(1) show thesis by (rule that)
qed

section \<open>Replaying stored texts\<close>

lemma lru_lookup_same: "distinct (map fst l) \<Longrightarrow> map_of (snd (lru_lookup i l)) = map_of l"
proof (cases "map_of l i")
  case (Some v)
  assume "distinct (map fst l)"
  then have e: "mset ((i, v) # lru_without i l) = mset l" using Some by (rule mset_without)
  have d: "distinct (map fst ((i, v) # lru_without i l))"
    using \<open>distinct (map fst l)\<close> e by (metis mset_eq_imp_distinct_iff mset_map)
  have "set ((i, v) # lru_without i l) = set l" using e by (rule mset_eq_setD)
  then have "map_of ((i, v) # lru_without i l) = map_of l"
    using map_of_inject_set [OF d \<open>distinct (map fst l)\<close>] by simp
  then show ?thesis using Some by (cases v) (simp add: lru_lookup_def)
qed (simp add: lru_lookup_def)

text \<open>A lookup changes no answer and no block.\<close>

lemma lookup_answer:
  assumes inv: "tm_inv m as"
  shows "\<exists>r m' as'. tool_memory_lookup_locked i m = Some (r, m') \<and> tm_inv m' as' \<and> tm_blocks m' = tm_blocks m \<and>
    (\<forall>j. answer m' j = answer m j) \<and> answer m i = map_option (\<lambda>(t, src, _). (t, src)) r \<and>
    (\<forall>t src b. r = Some (t, src, b) \<longrightarrow> (\<exists>bl. tm_blocks m b = Some bl \<and> tb_dsml bl = t))"
proof -
  obtain r m' as' where r: "tool_memory_lookup_locked i m = Some (r, m')" "tm_inv m' as'"
      "(map_option (\<lambda>(t, src, _). (t, src)) r, tm_view m' as') = (if i = [] then (None, tm_view m as) else lru_lookup i (tm_view m as))"
    using lookup_spec [OF inv, of i] by blast
  have "map_of (tm_view m' as') = map_of (tm_view m as)"
    using arg_cong [OF r(3), of snd] lru_lookup_same [OF distinct_view [OF inv], of i] by (simp split: if_splits)
  then have "answer m' j = answer m j" for j by (simp add: answer_view [OF inv] answer_view [OF r(2)])
  moreover have "answer m i = map_option (\<lambda>(t, src, _). (t, src)) r" using r(1) by (auto simp: answer_def split: option.split)
  moreover have "tm_blocks m' = tm_blocks m \<and> (\<forall>t src b. r = Some (t, src, b) \<longrightarrow> (\<exists>bl. tm_blocks m b = Some bl \<and> tb_dsml bl = t))"
  proof (cases "tool_memory_find_entry_locked m i")
    case None
    with r(1) show ?thesis by (simp add: tool_memory_lookup_locked_def)
  next
    case (Some e)
    then have "tm_by_id m i = Some e" by (auto simp: tool_memory_find_entry_locked_def split: if_splits)
    then obtain xs ys where "as = xs @ e # ys" by (rule inv_find [OF inv])
    then obtain m1 where m1: "tool_memory_touch e m = Some m1" "tm_blocks m1 = tm_blocks m" using touch_inv inv by blast
    with Some r(1) show ?thesis by (auto simp: tool_memory_lookup_locked_def bind_eq_Some_conv)
  qed
  ultimately show ?thesis using r(1,2) by blast
qed

text \<open>All ids answer with the text \<open>t\<close>.\<close>

definition all_answer :: "tool_memory \<Rightarrow> u8 list list \<Rightarrow> u8 list \<Rightarrow> bool" where
  "all_answer m ids t \<longleftrightarrow> (\<forall>i \<in> set ids. \<exists>src. answer m i = Some (t, src))"

lemma all_answer_Cons: "all_answer m (i # ids) t \<longleftrightarrow> (\<exists>src. answer m i = Some (t, src)) \<and> all_answer m ids t"
  by (simp add: all_answer_def)

lemma all_answer_same: "\<forall>j. answer m' j = answer m j \<Longrightarrow> all_answer m' ids t = all_answer m ids t"
  by (simp add: all_answer_def)

lemma attach_ids_spec:
  "tm_inv m as \<Longrightarrow> (\<forall>b t. matched = Some (b, t) \<longrightarrow> (\<exists>bl. tm_blocks m b = Some bl \<and> tb_dsml bl = t)) \<Longrightarrow>
    \<exists>matched' src' exact' missing' m' as'. attach_ids ids matched src exact missing m = Some (matched', src', exact', missing', m') \<and>
      tm_inv m' as' \<and> (\<forall>j. answer m' j = answer m j) \<and>
      (\<forall>t. (exact' \<and> (\<exists>b. matched' = Some (b, t))) \<longleftrightarrow> exact \<and> all_answer m ids t \<and>
         (case matched of None \<Rightarrow> ids \<noteq> [] | Some (b, u) \<Rightarrow> u = t))"
proof (induction ids arbitrary: matched src exact missing m as)
  case Nil
  then show ?case by (auto simp: all_answer_def split: option.splits)
next
  case (Cons i ids)
  obtain r m1 as1 where m1: "tool_memory_lookup_locked i m = Some (r, m1)" "tm_inv m1 as1" "tm_blocks m1 = tm_blocks m"
      "\<forall>j. answer m1 j = answer m j" "answer m i = map_option (\<lambda>(t, src, _). (t, src)) r"
      "\<forall>t src b. r = Some (t, src, b) \<longrightarrow> (\<exists>bl. tm_blocks m b = Some bl \<and> tb_dsml bl = t)"
    using lookup_answer [OF Cons.prems(1), of i] by blast
  note same = all_answer_same [OF m1(4)]
  show ?case
  proof (cases r)
    case None
    then have a: "attach_ids (i # ids) matched src exact missing m = attach_ids ids matched src False (missing + 1) m1" using m1(1) by simp
    show ?thesis unfolding a using Cons.IH [OF m1(2), of matched src False "missing + 1"] Cons.prems(2) m1(3,4,5) None
      by (auto simp: all_answer_Cons)
  next
    case (Some v)
    obtain t s b where v: "r = Some (t, s, b)" using Some by (cases v) auto
    obtain bl where bl: "tm_blocks m b = Some bl" "tb_dsml bl = t" using m1(6) v by blast
    have ans: "answer m i = Some (t, s)" using m1(5) v by simp
    show ?thesis
    proof (cases matched)
      case None
      let ?s = "if s = TOOL_MEMORY_RAM then TOOL_MEMORY_RAM else s"
      have a: "attach_ids (i # ids) matched src exact missing m = attach_ids ids (Some (b, t)) ?s exact missing m1"
        using m1(1) v None by simp
      show ?thesis unfolding a using Cons.IH [OF m1(2), of "Some (b, t)" ?s exact missing] bl m1(3,4) None ans same
        by (auto simp: all_answer_Cons)
    next
      case (Some bu)
      obtain c u where bu: "matched = Some (c, u)" using Some by (cases bu) auto
      obtain cl where cl: "tm_blocks m c = Some cl" "tb_dsml cl = u" using Cons.prems(2) bu by blast
      have eq: "c = b \<longleftrightarrow> u = t" using inv_text_inj [OF Cons.prems(1) cl(1) bl(1)] bl cl by auto
      let ?s = "if s = TOOL_MEMORY_RAM then TOOL_MEMORY_RAM else src"
      have a: "attach_ids (i # ids) matched src exact missing m = attach_ids ids (Some (c, u)) ?s (exact \<and> c = b) missing m1"
        using m1(1) v bu by simp
      show ?thesis unfolding a using Cons.IH [OF m1(2), of "Some (c, u)" ?s "exact \<and> c = b" missing] cl m1(3,4) bu ans same eq
        by (auto simp: all_answer_Cons)
    qed
  qed
qed

text \<open>What becomes of one message: a message without a text of its own gets the text all its calls answer with.\<close>

definition replayed :: "tool_memory \<Rightarrow> chat_msg \<Rightarrow> chat_msg \<Rightarrow> bool" where
  "replayed m msg msg' \<longleftrightarrow>
     (\<exists>raw. msg' = msg\<lparr>cm_calls := (cm_calls msg)\<lparr>tc_raw_tool_text := raw\<rparr>\<rparr> \<and>
        (\<forall>t. raw = Some t \<longleftrightarrow> tc_raw_tool_text (cm_calls msg) = Some t \<or>
           tc_raw_tool_text (cm_calls msg) = None \<and> tc_ids (cm_calls msg) \<noteq> [] \<and> all_answer m (tc_ids (cm_calls msg)) t))"

abbreviation stats_total :: "tool_replay_stats \<Rightarrow> int" where
  "stats_total s \<equiv> rs_mem s + rs_disk s + rs_canonical s"

text \<open>The messages that take part.\<close>

definition needs_text :: "chat_msg \<Rightarrow> bool" where
  "needs_text msg \<longleftrightarrow> tc_ids (cm_calls msg) \<noteq> [] \<and> tc_raw_tool_text (cm_calls msg) = None"

lemma attach_calls_spec:
  assumes inv: "tm_inv m as"
  shows "\<exists>calls' stats' m' as'. attach_calls (cm_calls msg) stats m = Some (calls', stats', m') \<and> tm_inv m' as' \<and>
    (\<forall>j. answer m' j = answer m j) \<and> replayed m msg (msg\<lparr>cm_calls := calls'\<rparr>) \<and>
    stats_total stats' = stats_total stats + (if needs_text msg then 1 else 0)"
proof (cases "needs_text msg")
  case False
  have "replayed m msg msg" unfolding replayed_def
    by (rule exI [of _ "tc_raw_tool_text (cm_calls msg)"]) (use False in \<open>auto simp: needs_text_def\<close>)
  with False inv show ?thesis
    by (intro exI [of _ "cm_calls msg"] exI [of _ stats] exI [of _ m] exI [of _ as]) (auto simp: attach_calls_def needs_text_def)
next
  case True
  then have ne: "tc_ids (cm_calls msg) \<noteq> []" "tc_raw_tool_text (cm_calls msg) = None" by (simp_all add: needs_text_def)
  obtain matched src exact missing m' as' where a:
    "attach_ids (tc_ids (cm_calls msg)) None TOOL_MEMORY_DISK True 0 m = Some (matched, src, exact, missing, m')"
    "tm_inv m' as'" "\<forall>j. answer m' j = answer m j"
    "\<And>t. (exact \<and> (\<exists>b. matched = Some (b, t))) \<longleftrightarrow> all_answer m (tc_ids (cm_calls msg)) t"
    using attach_ids_spec [OF inv, of None "tc_ids (cm_calls msg)" TOOL_MEMORY_DISK True 0] ne by auto
  show ?thesis
  proof (cases "exact \<and> matched \<noteq> None")
    case hit: True
    then obtain b t where bt: "matched = Some (b, t)" by auto
    have u: "all_answer m (tc_ids (cm_calls msg)) u \<longleftrightarrow> u = t" for u using a(4) [of u] hit bt by auto
    let ?calls = "(cm_calls msg)\<lparr>tc_raw_tool_text := Some t\<rparr>"
    have "replayed m msg (msg\<lparr>cm_calls := ?calls\<rparr>)" unfolding replayed_def
      by (rule exI [of _ "Some t"]) (use ne u in auto)
    with a hit bt ne True show ?thesis
      by (intro exI [of _ ?calls] exI [of _ "if src = TOOL_MEMORY_RAM then stats\<lparr>rs_mem := rs_mem stats + 1\<rparr>
          else stats\<lparr>rs_disk := rs_disk stats + 1\<rparr>"] exI [of _ m'] exI [of _ as']) (simp add: attach_calls_def)
  next
    case miss: False
    have u: "\<not> all_answer m (tc_ids (cm_calls msg)) u" for u using a(4) [of u] miss by auto
    have "replayed m msg (msg\<lparr>cm_calls := cm_calls msg\<rparr>)" unfolding replayed_def
      by (rule exI [of _ None]) (use ne u in \<open>auto intro!: tool_calls.equality chat_msg.equality\<close>)
    moreover have "attach_calls (cm_calls msg) stats m =
        Some (cm_calls msg, stats\<lparr>rs_canonical := rs_canonical stats + 1, rs_missing_ids := rs_missing_ids stats + missing\<rparr>, m')"
      using a(1) miss ne by (auto simp: attach_calls_def split: option.split)
    ultimately show ?thesis using a True by fastforce
  qed
qed

lemma attach_loop_spec:
  "tm_inv m as \<Longrightarrow> \<exists>msgs' stats' m' as'. attach_loop msgs stats m = Some (msgs', stats', m') \<and> tm_inv m' as' \<and>
    (\<forall>j. answer m' j = answer m j) \<and> list_all2 (replayed m) msgs msgs' \<and>
    stats_total stats' = stats_total stats + int (length (filter needs_text msgs))"
proof (induction msgs arbitrary: stats m as)
  case Nil
  then show ?case by auto
next
  case (Cons msg msgs)
  obtain calls' s1 m1 as1 where 1: "attach_calls (cm_calls msg) stats m = Some (calls', s1, m1)" "tm_inv m1 as1"
      "\<forall>j. answer m1 j = answer m j" "replayed m msg (msg\<lparr>cm_calls := calls'\<rparr>)"
      "stats_total s1 = stats_total stats + (if needs_text msg then 1 else 0)"
    using attach_calls_spec [OF Cons.prems] by blast
  have "replayed m1 = replayed m" by (simp add: replayed_def all_answer_same [OF 1(3)] fun_eq_iff)
  with Cons.IH [OF 1(2), of s1] 1 show ?case by auto
qed

text \<open>C8. Stored texts are replayed exactly. Whatever was stored and looked up before, a message with calls and no
  text of its own gets a text if and only if every one of its call ids is known and all of them with this one text;
  every other message stays as it is. All messages are handled, no lookup answers differently afterwards, and
  each message that takes part is counted once, as found in memory, on disk or rendered canonically.\<close>

theorem attach_exact:
  "\<exists>rs m msgs' stats' m'. tool_run ops (tool_memory_zero maxe maxb k) = Some (rs, m) \<and>
    tool_memory_attach_to_messages False msgs stats m = Some (msgs', stats', m') \<and>
    list_all2 (replayed m) msgs msgs' \<and> (\<forall>i. answer m' i = answer m i) \<and>
    rs_mem stats' + rs_disk stats' + rs_canonical stats' =
      rs_mem stats + rs_disk stats + rs_canonical stats + int (length (filter needs_text msgs))"
proof -
  obtain rs m as where m: "tool_run ops (tool_memory_zero maxe maxb k) = Some (rs, m)" "tm_inv m as"
    using tool_run_spec [OF tm_inv_zero [of maxe maxb k], of ops] by blast
  from attach_loop_spec [OF m(2), of msgs stats] m(1) show ?thesis
    unfolding tool_memory_attach_to_messages_def by auto
qed

end
