(* ===== verification/Tool_Restore.thy ===== *)
theory Tool_Restore
  imports Tool_Map_Spec Kv_Entry
begin

text \<open>
  The tool memory across restarts (ds4_server.c): the map is the trailer of a checkpoint, and before a prompt is
  rendered the checkpoint directory is scanned for the maps of the ids that the messages mention.
\<close>

definition KV_EXT_TOOL_MAP :: u8 where "KV_EXT_TOOL_MAP = 1"

text \<open>The trailer writer the server hands to the store: the appended bytes, or \<open>None\<close> when it fails.\<close>

definition server_trailer_write :: "bool \<Rightarrow> nat \<Rightarrow> tool_memory \<Rightarrow> u8 list \<Rightarrow> u8 list option" where
  "server_trailer_write off cap m t =
     (case kv_tool_map_write off cap t m of Some (Some (out, _), _) \<Rightarrow> Some out | _ \<Rightarrow> None)"

text \<open>One file of the directory; a position behind the end of the file reads nothing.\<close>

definition restore_file ::
  "kv_globals \<Rightarrow> u8 \<Rightarrow> stop_list \<Rightarrow> u8 list \<Rightarrow> tool_memory \<Rightarrow> tool_memory option" where
  "restore_file g model wanted content m =
     (case kv_read_header g content of
        None \<Rightarrow> Some m
      | Some (hdr, text_bytes, fp) \<Rightarrow>
          let skip = ucast text_bytes + ke_payload_bytes hdr in
          if ke_model_id hdr = model \<and> ke_ext_flags hdr AND KV_EXT_TOOL_MAP \<noteq> 0 \<and> unat skip \<le> 2 ^ 63 - 1
          then map_option snd (kv_tool_map_load_from_pos False (drop (unat skip) fp) (Some wanted) m)
          else Some m)"

fun restore_loop ::
  "kv_globals \<Rightarrow> u8 \<Rightarrow> string \<Rightarrow> (string \<Rightarrow> u8 list option) \<Rightarrow> stop_list \<Rightarrow> string list \<Rightarrow> tool_memory \<Rightarrow> tool_memory option" where
  "restore_loop g model dir fs wanted [] m = Some m"
| "restore_loop g model dir fs wanted (n # ns) m =
     (case kv_sha_hex_name n of
        None \<Rightarrow> restore_loop g model dir fs wanted ns m
      | Some sha \<Rightarrow>
          (case fs (kv_path_join dir n) of
             None \<Rightarrow> restore_loop g model dir fs wanted ns m
           | Some content \<Rightarrow> do { m \<leftarrow> restore_file g model wanted content m; restore_loop g model dir fs wanted ns m }))"

text \<open>\<open>names\<close> is what \<open>readdir\<close> lists, or \<open>None\<close> when the directory does not open.\<close>

definition kv_cache_restore_tool_memory_for_messages ::
  "bool \<Rightarrow> bool \<Rightarrow> kv_globals \<Rightarrow> u8 \<Rightarrow> string \<Rightarrow> string list option \<Rightarrow> (string \<Rightarrow> u8 list option) \<Rightarrow> chat_msg list \<Rightarrow>
   tool_memory \<Rightarrow> tool_memory option" where
  "kv_cache_restore_tool_memory_for_messages off enabled g model dir names fs msgs m =
     (if off \<or> \<not> enabled then Some m
      else let wanted = collect_tool_call_ids msgs \<lparr>sl_v = [], sl_max_len = 0\<rparr> in
           if sl_v wanted = [] then Some m
           else (case names of None \<Rightarrow> Some m | Some ns \<Rightarrow> restore_loop g model dir fs wanted ns m))"

section \<open>A written checkpoint is found again\<close>

lemma id_list_push_unique_set: "set (sl_v (id_list_push_unique ids i)) = set (sl_v ids) \<union> ({i} - {[]})"
  by (auto simp: id_list_push_unique_def id_list_contains_def stop_list_push_def)

lemma push_all_set: "set (sl_v (foldl id_list_push_unique ids is)) = set (sl_v ids) \<union> (set is - {[]})"
  by (induction "is" arbitrary: ids) (auto simp: id_list_push_unique_set)

definition msg_ids :: "chat_msg \<Rightarrow> u8 list set" where
  "msg_ids msg = insert (cm_tool_call_id msg) (set (cm_tool_call_ids msg) \<union> set (tc_ids (cm_calls msg))) - {[]}"

lemma foldl_set:
  assumes "\<And>ids x. set (sl_v (f ids x)) = set (sl_v ids) \<union> S x"
  shows "set (sl_v (foldl f ids xs)) = set (sl_v ids) \<union> (\<Union>x \<in> set xs. S x)"
  by (induction xs arbitrary: ids) (auto simp: assms)

lemma collect_set: "set (sl_v (collect_tool_call_ids msgs ids)) = set (sl_v ids) \<union> (\<Union>msg \<in> set msgs. msg_ids msg)"
  unfolding collect_tool_call_ids_def
proof (rule foldl_set)
  fix ids msg
  show "set (sl_v (foldl id_list_push_unique ids (cm_tool_call_id msg # cm_tool_call_ids msg @ tc_ids (cm_calls msg)))) =
      set (sl_v ids) \<union> msg_ids msg"
    unfolding push_all_set msg_ids_def by auto
qed

lemma kv_list_length:
  assumes "kv_images_bytes images \<noteq> 0 \<longrightarrow> kv_images_ok (the images) \<and> kv_images_well_formed (the images)"
  shows "length (kv_list_of images) = unat (kv_images_bytes images)"
proof (cases "kv_images_bytes images = 0")
  case False
  then obtain ims where "images = Some ims" "ims_len ims \<noteq> 0"
    by (auto simp: kv_images_bytes_def split: option.splits if_splits)
  with False assms show ?thesis by (simp add: kv_list_of_def kv_images_encode_length kv_images_well_formed_len)
qed (simp add: kv_list_of_def)

lemma restore_written:
  assumes w: "kv_write_entry_images a (kv_fill_header g model quant reason ext tokens hits ctx created used
      (staged_bytes st)) t images (Some st) (Some hook) = Some (content, tb, hash)"
    and hook: "hook t = Some out"
    and hd: "tokens \<noteq> 0" "kv_quant_bits_supported (uint quant)" "ext AND KV_EXT_TOOL_MAP \<noteq> 0"
    and ims: "kv_images_bytes images \<noteq> 0 \<longrightarrow> kv_images_ok (the images)"
    and small: "length t < 2 ^ 32" "length t + unat (staged_bytes st) + unat (kv_images_bytes images) < 2 ^ 63"
  shows "restore_file g model wanted content m = map_option snd (kv_tool_map_load_from_pos False out (Some wanted) m)"
proof -
  define e0 where "e0 = kv_empty_entry\<lparr>ke_model_id := model, ke_quant_bits := quant, ke_reason := reason,
       ke_ext_flags := ext, ke_tokens := tokens, ke_hits := hits, ke_ctx_size := ctx,
       ke_created_at := created, ke_last_used := used, ke_payload_bytes := staged_bytes st,
       ke_identity := g_identity g, ke_canary := g_canary g\<rparr>"
  let ?n = "unat (staged_bytes st)" and ?e1 = "e0\<lparr>ke_payload_bytes := staged_bytes st + kv_images_bytes images, ke_payload_hash := hash\<rparr>"
  from kv_write_entry_images_file [OF w [unfolded kv_fill_header_bytes, folded e0_def]] hook
  obtain src where src: "?n \<le> length src"
    and wf: "kv_images_bytes images \<noteq> 0 \<longrightarrow> kv_images_well_formed (the images) \<and> ims_encoder (the images) \<noteq> 0"
    and fl: "content = kv_header_bytes ?e1 (kv_abi_of images) @ le_put32 (of_nat (length t)) @ t @
        kv_list_of images @ take ?n src @ out"
    by (auto simp: e0_def kv_trailer_write_def)
  define e where "e = kv_parsed g ?e1 (kv_abi_of images) (of_nat (length t))"
  let ?skip = "ucast (of_nat (length t) :: u32) + (staged_bytes st + kv_images_bytes images) :: u64"
  have ref: "ke_refusal e = None"
    by (simp add: e_def kv_parsed_def Let_def kv_refusal_of_def kv_abi_of_def KV_CACHE_VERSION_def e0_def)
  have fields: "ke_model_id e = model" "ke_ext_flags e = ext" "ke_payload_bytes e = staged_bytes st + kv_images_bytes images"
    by (simp_all add: e_def kv_parsed_def Let_def e0_def)
  have read: "kv_read_header g content = Some (e, of_nat (length t), t @ kv_list_of images @ take ?n src @ out)"
    using hd(1,2) ref by (simp add: kv_read_header_def fl kv_parse_header_bytes e_def e0_def)
  have "unat (staged_bytes st + kv_images_bytes images) = ?n + unat (kv_images_bytes images)"
    using small(2) by (intro unat_add_lem [THEN iffD1]) simp
  moreover have ul: "unat (ucast (of_nat (length t) :: u32) :: u64) = length t"
    using small(1) by (simp add: unsigned_ucast_eq unat_of_nat take_bit_nat_eq_self)
  ultimately have skip: "unat ?skip = length t + (?n + unat (kv_images_bytes images))"
    using small(2) by (subst unat_add_lem [THEN iffD1]) simp_all
  have "length (kv_list_of images) = unat (kv_images_bytes images)" using ims wf by (intro kv_list_length) blast
  then have "drop (unat ?skip) (t @ kv_list_of images @ take ?n src @ out) = out" using src by (simp add: skip)
  moreover have "unat ?skip \<le> 2 ^ 63 - 1" using small(2) unfolding skip by simp
  ultimately show ?thesis using hd(3) by (simp add: restore_file_def read fields Let_def)
qed


end
