(* ===== verification/Tool_Text.thy ===== *)
theory Tool_Text
  imports Server_Stream Tokenizer
begin

text \<open>
  Tool bodies in chats (ds4_tool_text.h, ds4_server.c): a body is plain text inside a wrapper whose closing
  delimiter must not occur in it. The writer escapes only that delimiter and spellings that would read as its
  escape; the reader takes the escapes back, also piecewise while the text still arrives. Strings are the bytes
  before the final NUL, the delimiter is \<open>fin\<close>.
\<close>

section \<open>Escaping\<close>

definition starts :: "u8 list \<Rightarrow> u8 list \<Rightarrow> bool" where
  "starts s p \<longleftrightarrow> take (length p) s = p"

definition amp :: u8 where "amp = 0x26"
definition lt :: u8 where "lt = 0x3C"
definition amp_text :: "u8 list" where "amp_text = [0x61, 0x6D, 0x70, 0x3B]"
definition lt_text :: "u8 list" where "lt_text = [0x6C, 0x74, 0x3B]"

text \<open>\<open>while (!strncmp(s, "amp;", 4)) s += 4\<close>\<close>

fun skip_amps :: "u8 list \<Rightarrow> u8 list" where
  "skip_amps (a # b # c # d # s) = (if [a, b, c, d] = amp_text then skip_amps s else a # b # c # d # s)"
| "skip_amps s = s"

definition ds4_tool_text_escaped_close :: "u8 list \<Rightarrow> u8 list \<Rightarrow> bool" where
  "ds4_tool_text_escaped_close s fin \<longleftrightarrow>
     s \<noteq> [] \<and> hd s = amp \<and> (let s = skip_amps (tl s) in starts s lt_text \<and> starts (drop 3 s) (tl fin))"

definition ds4_tool_text_needs_escape :: "u8 list \<Rightarrow> u8 list \<Rightarrow> bool" where
  "ds4_tool_text_needs_escape s fin \<longleftrightarrow> starts s fin \<or> ds4_tool_text_escaped_close s fin"

text \<open>The writer of tool results, parameters, keys and values.\<close>

fun append_glm_tag_body_text :: "u8 list \<Rightarrow> u8 list \<Rightarrow> u8 list \<Rightarrow> u8 list" where
  "append_glm_tag_body_text b [] fin = b"
| "append_glm_tag_body_text b (c # s) fin =
     (if ds4_tool_text_needs_escape (c # s) fin
      then append_glm_tag_body_text (b @ amp # (if c = lt then lt_text else amp_text)) s fin
      else append_glm_tag_body_text (b @ [c]) s fin)"

definition tool_result_end :: "u8 list" where "tool_result_end = ascii ''</tool_result>''"
definition tool_response_end :: "u8 list" where "tool_response_end = ascii ''</tool_response>''"
definition arg_key_end :: "u8 list" where "arg_key_end = ascii ''</arg_key>''"
definition arg_value_end :: "u8 list" where "arg_value_end = ascii ''</arg_value>''"
definition DS41_PARAM_END :: "u8 list" where "DS41_PARAM_END = ascii ''</'' @ bar @ ascii ''DSML'' @ bar @ ascii '' parameter>''"
definition DS4_PARAM_END :: "u8 list" where "DS4_PARAM_END = ascii ''</'' @ bar @ ascii ''DSML'' @ bar @ ascii ''parameter>''"
definition DS4_PARAM_END_SHORT :: "u8 list" where "DS4_PARAM_END_SHORT = ascii ''</DSML'' @ bar @ ascii ''parameter>''"

definition append_tool_result_text :: "u8 list \<Rightarrow> u8 list \<Rightarrow> u8 list" where
  "append_tool_result_text b s = append_glm_tag_body_text b s tool_result_end"

definition append_dsml_parameter_text :: "u8 list \<Rightarrow> u8 list \<Rightarrow> bool \<Rightarrow> u8 list" where
  "append_dsml_parameter_text b s v41 = append_glm_tag_body_text b s (if v41 then DS41_PARAM_END else DS4_PARAM_END)"

definition append_glm_arg_key_text :: "u8 list \<Rightarrow> u8 list \<Rightarrow> u8 list" where
  "append_glm_arg_key_text b s = append_glm_tag_body_text b s arg_key_end"

definition append_glm_arg_value_text :: "u8 list \<Rightarrow> u8 list \<Rightarrow> u8 list" where
  "append_glm_arg_value_text b s = append_glm_tag_body_text b s arg_value_end"

definition append_glm_tool_response_text :: "u8 list \<Rightarrow> u8 list \<Rightarrow> u8 list" where
  "append_glm_tool_response_text b s = append_glm_tag_body_text b s tool_response_end"

section \<open>Reading\<close>

text \<open>\<open>ds4_tool_text_unescape\<close>: the write position never passes the read position.\<close>

function ds4_tool_text_unescape :: "u8 list \<Rightarrow> u8 list \<Rightarrow> u8 list" where
  "ds4_tool_text_unescape s fin =
     (if s = [] then []
      else if ds4_tool_text_escaped_close s fin
      then if starts s (amp # amp_text) then amp # ds4_tool_text_unescape (drop 5 s) fin
           else lt # ds4_tool_text_unescape (drop 4 s) fin
      else hd s # ds4_tool_text_unescape (tl s) fin)"
  by pat_completeness auto

termination by (relation "measure (\<lambda>(s, fin). length s)") auto

declare ds4_tool_text_unescape.simps [simp del]

text \<open>The same walk with lengths, on the bytes that have arrived.\<close>

definition ds4_tool_text_partial_escape :: "u8 list \<Rightarrow> u8 list \<Rightarrow> bool" where
  "ds4_tool_text_partial_escape s fin \<longleftrightarrow>
     s \<noteq> [] \<and> hd s = amp \<and>
     (let s = skip_amps (tl s); n = length s in
      if n < 4 \<and> s = take n amp_text then True
      else if n < 3 then s = take n lt_text
      else if take 3 s \<noteq> lt_text then False
      else let s = drop 3 s; n = length s; tail = length (tl fin) in n < tail \<and> s = take n (tl fin))"

text \<open>The last position below \<open>hi\<close> and from \<open>lo\<close> on that holds \<open>c\<close>, plus one.\<close>

fun last_index :: "u8 \<Rightarrow> u8 list \<Rightarrow> nat \<Rightarrow> nat \<Rightarrow> nat option" where
  "last_index c s lo 0 = None"
| "last_index c s lo (Suc i) = (if Suc i \<le> lo then None else if s ! i = c then Some i else last_index c s lo i)"

definition tool_param_value_stream_safe_len :: "u8 list \<Rightarrow> nat \<Rightarrow> nat \<Rightarrow> u8 list \<Rightarrow> bool \<Rightarrow> nat" where
  "tool_param_value_stream_safe_len raw start raw_len param_end is_string =
     (let end_len = length param_end;
          scan = (if start + end_len < raw_len then raw_len - end_len else start);
          limit = (case last_index lt raw scan raw_len of
                     None \<Rightarrow> raw_len
                   | Some marker \<Rightarrow>
                       let tail = raw_len - marker in
                       if tail < end_len \<and> take tail (drop marker raw) = take tail param_end then marker else raw_len);
          limit = (if is_string
                   then (case last_index amp raw start limit of
                           None \<Rightarrow> limit
                         | Some i \<Rightarrow>
                             if ds4_tool_text_partial_escape (take (limit - i) (drop i raw)) param_end then i else limit)
                   else limit)
      in utf8_stream_safe_len (Some raw) start limit False)"

definition find_lit_bounded :: "u8 list \<Rightarrow> u8 list \<Rightarrow> nat option" where
  "find_lit_bounded s lit = strstr s lit"

text \<open>A fragment as it is sent: unescaped, then as part of a JSON string.\<close>

definition openai_tool_emit_string_value :: "u8 list \<Rightarrow> u8 list \<Rightarrow> u8 list" where
  "openai_tool_emit_string_value t fin = json_escape_fragment_n (ds4_tool_text_unescape t fin)"

text \<open>The end of a string parameter: what is left of the value, the closing quote, the position behind the delimiter.\<close>

definition openai_tool_finish_param :: "u8 list \<Rightarrow> u8 list \<Rightarrow> nat \<Rightarrow> nat \<Rightarrow> u8 list \<Rightarrow> u8 list \<times> nat" where
  "openai_tool_finish_param raw fin start value_end out =
     ((if start < value_end
       then out @ openai_tool_emit_string_value (take (value_end - start) (drop start raw)) fin
       else out) @ [0x22],
      value_end + length fin)"

text \<open>
  The value of a string parameter while the reply grows to the lengths \<open>ns\<close>: what the client was sent, the
  position, and whether the parameter has ended. A delimiter that has arrived ends the value, otherwise the
  fragment up to the safe length is sent.
\<close>

fun tool_value_stream :: "u8 list \<Rightarrow> u8 list \<Rightarrow> nat list \<Rightarrow> nat \<Rightarrow> u8 list \<Rightarrow> u8 list \<times> nat \<times> bool" where
  "tool_value_stream raw fin [] start out = (out, start, False)"
| "tool_value_stream raw fin (n # ns) start out =
     (if n \<le> start then tool_value_stream raw fin ns start out
      else (case find_lit_bounded (take (n - start) (drop start raw)) fin of
              Some e \<Rightarrow> let (out, pos) = openai_tool_finish_param raw fin start (start + e) out in (out, pos, True)
            | None \<Rightarrow>
                let safe = tool_param_value_stream_safe_len raw start n fin True
                in if start < safe
                   then tool_value_stream raw fin ns safe
                          (out @ openai_tool_emit_string_value (take (safe - start) (drop start raw)) fin)
                   else tool_value_stream raw fin ns start out))"

section \<open>Escapes are taken back\<close>

text \<open>What the proofs use of the delimiters: one angle bracket at the front, no ampersand, an ASCII byte at the end.\<close>

definition delimiter :: "u8 list \<Rightarrow> bool" where
  "delimiter fin \<longleftrightarrow> fin \<noteq> [] \<and> hd fin = lt \<and> tl fin \<noteq> [] \<and> lt \<notin> set (tl fin) \<and> amp \<notin> set (tl fin) \<and> last fin < 0x80"

lemma delimiters: "\<forall>fin \<in> {tool_result_end, tool_response_end, arg_key_end, arg_value_end, DS41_PARAM_END, DS4_PARAM_END,
    DS4_PARAM_END_SHORT}. delimiter fin"
  by code_simp

lemma chars: "amp \<noteq> lt" "amp \<notin> set amp_text" "lt \<notin> set amp_text" "amp \<notin> set lt_text" "lt \<notin> set lt_text"
    "length amp_text = 4" "length lt_text = 3"
  by (simp_all add: amp_def lt_def amp_text_def lt_text_def)

lemma starts_iff: "starts s p \<longleftrightarrow> (\<exists>r. s = p @ r)"
  unfolding starts_def by (metis append_eq_conv_conj append_take_drop_id)

lemma starts_append [simp]: "starts (p @ r) p"
  by (auto simp: starts_iff)

lemma starts_more: "starts s p \<Longrightarrow> starts (s @ r) p"
  by (auto simp: starts_iff)

lemma skip_amps_step: "skip_amps (amp_text @ s) = skip_amps s"
  by (simp add: amp_text_def)

lemma skip_amps_stop: "\<not> starts s amp_text \<Longrightarrow> skip_amps s = s"
  by (cases s rule: skip_amps.cases) (auto simp: starts_def amp_text_def)

abbreviation amps :: "nat \<Rightarrow> u8 list" where
  "amps k \<equiv> concat (replicate k amp_text)"

lemma skip_amps_shape: "\<exists>k. s = amps k @ skip_amps s \<and> \<not> starts (skip_amps s) amp_text"
proof (induction s rule: skip_amps.induct)
  case (1 a b c d s)
  show ?case
  proof (cases "[a, b, c, d] = amp_text")
    case True
    then have e: "a # b # c # d # s = amp_text @ s" by (metis append_Cons append_Nil)
    obtain k where "s = amps k @ skip_amps s" "\<not> starts (skip_amps s) amp_text" using 1 [OF True] by blast
    then show ?thesis unfolding e skip_amps_step by (intro exI [of _ "Suc k"]) simp
  next
    case False
    then show ?thesis by (intro exI [of _ 0]) (auto simp: starts_def amp_text_def)
  qed
qed (auto intro!: exI [of _ 0] simp: starts_def amp_text_def)

lemma skip_amps_amps: "\<not> starts s amp_text \<Longrightarrow> skip_amps (amps k @ s) = s"
  by (induction k) (simp_all add: skip_amps_step skip_amps_stop)

lemma lt_not_amp: "\<not> starts (lt_text @ s) amp_text"
  by (simp add: starts_def lt_text_def amp_text_def)

text \<open>The shape of an escape.\<close>

lemma escaped_iff: "ds4_tool_text_escaped_close s fin \<longleftrightarrow> (\<exists>k r. s = amp # amps k @ lt_text @ tl fin @ r)"
proof
  assume e: "ds4_tool_text_escaped_close s fin"
  obtain k where k: "tl s = amps k @ skip_amps (tl s)" using skip_amps_shape by blast
  from e obtain r where r: "skip_amps (tl s) = lt_text @ r" by (auto simp: ds4_tool_text_escaped_close_def Let_def starts_iff)
  with e obtain r' where "r = tl fin @ r'" by (auto simp: ds4_tool_text_escaped_close_def starts_iff lt_text_def)
  with e k r have "s = amp # amps k @ lt_text @ tl fin @ r'"
    by (cases s) (auto simp: ds4_tool_text_escaped_close_def)
  then show "\<exists>k r. s = amp # amps k @ lt_text @ tl fin @ r" by blast
next
  assume "\<exists>k r. s = amp # amps k @ lt_text @ tl fin @ r"
  then obtain k r where s: "s = amp # amps k @ lt_text @ tl fin @ r" by blast
  have "skip_amps (tl s) = lt_text @ tl fin @ r" unfolding s by (simp add: skip_amps_amps lt_not_amp)
  then show "ds4_tool_text_escaped_close s fin" using s
    by (simp add: ds4_tool_text_escaped_close_def Let_def) (simp add: lt_text_def)
qed

lemma escaped_more: "ds4_tool_text_escaped_close s fin \<Longrightarrow> ds4_tool_text_escaped_close (s @ r) fin"
  unfolding escaped_iff by (metis append_Cons append_assoc)

text \<open>The writer without its buffer.\<close>

fun esc :: "u8 list \<Rightarrow> u8 list \<Rightarrow> u8 list" where
  "esc fin [] = []"
| "esc fin (c # s) = (if ds4_tool_text_needs_escape (c # s) fin
     then amp # (if c = lt then lt_text else amp_text) @ esc fin s else c # esc fin s)"

declare esc.simps(2) [simp del]

lemmas esc_Cons = esc.simps(2)

lemma append_esc: "append_glm_tag_body_text b s fin = b @ esc fin s"
  by (induction b s fin rule: append_glm_tag_body_text.induct) (simp_all add: esc_Cons)

lemma needs_head: "delimiter fin \<Longrightarrow> ds4_tool_text_needs_escape (c # s) fin \<Longrightarrow> c = lt \<or> c = amp"
  by (cases fin) (auto simp: ds4_tool_text_needs_escape_def ds4_tool_text_escaped_close_def starts_def delimiter_def)

text \<open>A prefix without the two special bytes is there before if and only if after.\<close>

lemma esc_plain: "delimiter fin \<Longrightarrow> amp \<notin> set w \<Longrightarrow> lt \<notin> set w \<Longrightarrow> esc fin (w @ s) = w @ esc fin s"
  by (induction w) (auto simp: esc_Cons dest: needs_head)

lemma esc_prefix: "amp \<notin> set w \<Longrightarrow> esc fin s = w @ r \<Longrightarrow> \<exists>r'. s = w @ r'"
proof (induction w arbitrary: s)
  case (Cons c w)
  then obtain d s' where s: "s = d # s'" by (cases s) auto
  with Cons.prems have "d = c" "esc fin s' = w @ r" by (auto simp: esc_Cons split: if_splits)
  with Cons.IH [of s'] Cons.prems(1) s show ?case by auto
qed simp

lemma amps_plain: "amp \<notin> set (amps k)" "lt \<notin> set (amps k)"
  using chars by auto

lemma unescape_escaped:
  "ds4_tool_text_escaped_close s fin \<Longrightarrow> ds4_tool_text_unescape s fin =
    (if starts s (amp # amp_text) then amp # ds4_tool_text_unescape (drop 5 s) fin else lt # ds4_tool_text_unescape (drop 4 s) fin)"
  by (subst ds4_tool_text_unescape.simps) (auto simp: ds4_tool_text_escaped_close_def)

lemma unescape_plain: "\<not> ds4_tool_text_escaped_close (c # s) fin \<Longrightarrow> ds4_tool_text_unescape (c # s) fin = c # ds4_tool_text_unescape s fin"
  by (subst ds4_tool_text_unescape.simps) simp

lemma unescape_Nil [simp]: "ds4_tool_text_unescape [] fin = []"
  by (subst ds4_tool_text_unescape.simps) simp

lemma unescape_esc: "delimiter fin \<Longrightarrow> ds4_tool_text_unescape (esc fin s) fin = s"
proof (induction s)
  case (Cons c s)
  note d = Cons.prems
  have tp: "amp \<notin> set (tl fin)" "lt \<notin> set (tl fin)" using d by (simp_all add: delimiter_def)
  show ?case
  proof (cases "ds4_tool_text_needs_escape (c # s) fin")
    case False
    have "\<not> ds4_tool_text_escaped_close (c # esc fin s) fin"
    proof
      assume "ds4_tool_text_escaped_close (c # esc fin s) fin"
      then obtain k r where c: "c = amp" and r: "esc fin s = (amps k @ lt_text @ tl fin) @ r" by (auto simp: escaped_iff)
      have "amp \<notin> set (amps k @ lt_text @ tl fin)" using amps_plain chars tp by simp
      with esc_prefix [OF this r] c have "ds4_tool_text_escaped_close (c # s) fin" by (auto simp: escaped_iff)
      with False show False by (simp add: ds4_tool_text_needs_escape_def)
    qed
    with False Cons show ?thesis by (simp add: esc_Cons unescape_plain)
  next
    case True
    show ?thesis
    proof (cases "c = lt")
      case lt: True
      then have "\<not> ds4_tool_text_escaped_close (c # s) fin" using chars(1) by (auto simp: escaped_iff)
      with True lt obtain r where "s = tl fin @ r" using d
        by (cases fin) (auto simp: ds4_tool_text_needs_escape_def starts_iff delimiter_def)
      then have e: "esc fin s = tl fin @ esc fin r" using esc_plain [OF d tp] by simp
      then have "ds4_tool_text_escaped_close (amp # lt_text @ esc fin s) fin"
        unfolding escaped_iff by (intro exI [of _ 0]) simp
      moreover have "\<not> starts (amp # lt_text @ esc fin s) (amp # amp_text)" by (simp add: starts_def lt_text_def amp_text_def)
      ultimately show ?thesis using True lt Cons by (simp add: esc_Cons unescape_escaped) (simp add: lt_text_def)
    next
      case False
      then have "c = amp" using True d needs_head by blast
      then have "\<not> starts (c # s) fin" using d chars(1) by (cases fin) (auto simp: starts_def delimiter_def)
      with True have "ds4_tool_text_escaped_close (c # s) fin" by (simp add: ds4_tool_text_needs_escape_def)
      then obtain k r where "s = (amps k @ lt_text @ tl fin) @ r" by (auto simp: escaped_iff)
      moreover have "amp \<notin> set (amps k @ lt_text @ tl fin)" "lt \<notin> set (amps k @ lt_text @ tl fin)"
        using amps_plain chars tp by simp_all
      ultimately have e: "esc fin s = (amps k @ lt_text @ tl fin) @ esc fin r" using esc_plain [OF d] by blast
      have "ds4_tool_text_escaped_close (amp # amp_text @ esc fin s) fin"
        unfolding escaped_iff e by (intro exI [of _ "Suc k"]) simp
      moreover have "starts (amp # amp_text @ esc fin s) (amp # amp_text)" by (simp add: starts_def)
      ultimately show ?thesis using True False Cons \<open>c = amp\<close> by (simp add: esc_Cons unescape_escaped) (simp add: amp_text_def)
    qed
  qed
qed simp

section \<open>The delimiter does not occur in an escaped body\<close>

lemma esc_first:
  assumes d: "delimiter fin" and i: "i < length (esc fin s)"
  shows "\<not> starts (drop i (esc fin s) @ fin @ rest) fin"
  using i
proof (induction s arbitrary: i)
  case (Cons c s)
  obtain T where fin: "fin = lt # T" and T: "lt \<notin> set T" "amp \<notin> set T" using d by (cases fin) (auto simp: delimiter_def)
  have no_lt: "\<not> starts x fin" if "x = [] \<or> hd x \<noteq> lt" for x using that fin by (cases x) (auto simp: starts_iff)
  show ?case
  proof (cases "ds4_tool_text_needs_escape (c # s) fin")
    case True
    define e where "e = amp # (if c = lt then lt_text else amp_text)"
    have ee: "esc fin (c # s) = e @ esc fin s" "lt \<notin> set e" using True chars by (auto simp: e_def esc_Cons)
    show ?thesis
    proof (cases "i < length e")
      case True
      then have "drop i e \<noteq> []" "hd (drop i e) \<noteq> lt" using ee(2) by (simp, metis hd_in_set in_set_dropD drop_eq_Nil not_le)
      then have "hd (drop i e @ esc fin s @ fin @ rest) \<noteq> lt" by simp
      moreover have "drop i (esc fin (c # s)) = drop i e @ esc fin s" using True ee by simp
      ultimately show ?thesis using no_lt [of "drop i e @ esc fin s @ fin @ rest"] by simp
    next
      case False
      then have "drop i (esc fin (c # s)) = drop (i - length e) (esc fin s)" "i - length e < length (esc fin s)"
        using Cons.prems ee by auto
      then show ?thesis using Cons.IH [of "i - length e"] by simp
    qed
  next
    case False
    then have e: "esc fin (c # s) = c # esc fin s" by (simp add: esc_Cons)
    show ?thesis
    proof (cases i)
      case 0
      show ?thesis
      proof
        assume "starts (drop i (esc fin (c # s)) @ fin @ rest) fin"
        then obtain r where c: "c = lt" and r: "esc fin s @ fin @ rest = T @ r" using 0 e fin by (auto simp: starts_iff)
        from r obtain us where "esc fin s = T @ us \<or> esc fin s @ us = T \<and> fin @ rest = us @ r"
          by (auto simp: append_eq_append_conv2)
        then show False
        proof
          assume "esc fin s = T @ us"
          from esc_prefix [OF T(2) this] have "starts (c # s) fin" using c fin by (auto simp: starts_iff)
          with False show False by (simp add: ds4_tool_text_needs_escape_def)
        next
          assume u: "esc fin s @ us = T \<and> fin @ rest = us @ r"
          show False
          proof (cases us)
            case Nil
            with u have "esc fin s = T @ []" by simp
            from esc_prefix [OF T(2) this] have "starts (c # s) fin" using c fin by (auto simp: starts_iff)
            with False show False by (simp add: ds4_tool_text_needs_escape_def)
          next
            case (Cons a b)
            then have "a \<in> set (esc fin s @ us)" by simp
            with u have "a \<in> set T" by simp
            moreover have "a = lt" using u fin Cons by simp
            ultimately have "lt \<in> set T" by simp
            with T(1) show False by simp
          qed
        qed
      qed
    next
      case (Suc j)
      with Cons.IH [of j] Cons.prems e show ?thesis by simp
    qed
  qed
qed simp

lemma esc_found:
  assumes d: "delimiter fin"
  shows "strstr (esc fin s @ fin @ rest) fin = Some (length (esc fin s))"
proof -
  have "take (length fin) (drop i (esc fin s @ fin @ rest)) \<noteq> fin" if "i < length (esc fin s)" for i
    using esc_first [OF d that, of rest] that by (simp add: starts_def)
  then show ?thesis unfolding strstr_Some by simp
qed

text \<open>C9. A tool body cannot leave its wrapper and comes back unchanged. For every body and every delimiter the program
  uses, the first occurrence of the delimiter behind the opening tag is the one the writer put there, whatever
  follows it, and unescaping what stands before it gives the body back.\<close>

theorem tool_body_roundtrip:
  "\<forall>fin \<in> {tool_result_end, tool_response_end, arg_key_end, arg_value_end, DS41_PARAM_END, DS4_PARAM_END, DS4_PARAM_END_SHORT}.
    strstr (append_glm_tag_body_text [] s fin @ fin @ rest) fin = Some (length (append_glm_tag_body_text [] s fin)) \<and>
    ds4_tool_text_unescape (append_glm_tag_body_text [] s fin) fin = s"
  using delimiters esc_found unescape_esc unfolding append_esc by simp

theorem tool_body_roundtrip_witness:
  "strstr (append_glm_tag_body_text [] (ascii ''</arg_key>&lt;/arg_key>'') arg_key_end @ arg_key_end @ ascii ''</arg_key>'') arg_key_end =
     Some (length (append_glm_tag_body_text [] (ascii ''</arg_key>&lt;/arg_key>'') arg_key_end)) \<and>
   ds4_tool_text_unescape (append_glm_tag_body_text [] (ascii ''</arg_key>&lt;/arg_key>'') arg_key_end) arg_key_end =
     ascii ''</arg_key>&lt;/arg_key>''"
  by (rule bspec [OF tool_body_roundtrip]) simp

section \<open>Cutting an arriving value\<close>

text \<open>No escape reaches over the end of \<open>x\<close>, however the text goes on.\<close>

definition cut_ok :: "u8 list \<Rightarrow> u8 list \<Rightarrow> u8 list \<Rightarrow> bool" where
  "cut_ok fin x y \<longleftrightarrow> (\<forall>i < length x. ds4_tool_text_escaped_close (drop i x @ y) fin \<longrightarrow> ds4_tool_text_escaped_close (drop i x) fin)"

lemma cut_ok_drop: "cut_ok fin x y \<Longrightarrow> cut_ok fin (drop n x) y"
  by (auto simp: cut_ok_def)

lemma escaped_length:
  assumes "ds4_tool_text_escaped_close x fin"
  shows "4 \<le> length x" and "length x = 4 \<Longrightarrow> \<not> starts (x @ y) (amp # amp_text)" and "starts x (amp # amp_text) \<Longrightarrow> 5 \<le> length x"
proof -
  obtain k r where x: "x = amp # amps k @ lt_text @ tl fin @ r" using assms by (auto simp: escaped_iff)
  then show "4 \<le> length x" by (simp add: lt_text_def)
  show "\<not> starts (x @ y) (amp # amp_text)" if "length x = 4"
  proof -
    have "k = 0" using that x by (cases k) (simp_all add: lt_text_def amp_text_def)
    with x show ?thesis by (simp add: starts_def lt_text_def amp_text_def)
  qed
  show "5 \<le> length x" if "starts x (amp # amp_text)"
    using arg_cong [OF that [unfolded starts_def], of length] by (simp add: amp_text_def)
qed

lemma unescape_append:
  "cut_ok fin x y \<Longrightarrow> ds4_tool_text_unescape (x @ y) fin = ds4_tool_text_unescape x fin @ ds4_tool_text_unescape y fin"
proof (induction "length x" arbitrary: x rule: less_induct)
  case less
  show ?case
  proof (cases x)
    case (Cons c s)
    have iff: "ds4_tool_text_escaped_close (x @ y) fin \<longleftrightarrow> ds4_tool_text_escaped_close x fin"
      using less.prems [unfolded cut_ok_def, THEN spec, of 0] escaped_more [of x fin y] Cons by auto
    show ?thesis
    proof (cases "ds4_tool_text_escaped_close x fin")
      case True
      note len = escaped_length [OF True]
      have st: "starts (x @ y) (amp # amp_text) \<longleftrightarrow> starts x (amp # amp_text)"
      proof (cases "5 \<le> length x")
        case True
        then show ?thesis by (simp add: starts_def amp_text_def)
      next
        case False
        then have "length x = 4" using len(1) by simp
        with len(2) [of y] len(2) [of "[]"] show ?thesis by simp
      qed
      show ?thesis
      proof (cases "starts x (amp # amp_text)")
        case True
        then have "drop 5 (x @ y) = drop 5 x @ y" "length (drop 5 x) < length x" using len(3) by auto
        with less.hyps [of "drop 5 x"] cut_ok_drop [OF less.prems] True st iff \<open>ds4_tool_text_escaped_close x fin\<close>
        show ?thesis by (simp add: unescape_escaped)
      next
        case False
        then have "drop 4 (x @ y) = drop 4 x @ y" "length (drop 4 x) < length x" using len(1) by auto
        with less.hyps [of "drop 4 x"] cut_ok_drop [OF less.prems] False st iff \<open>ds4_tool_text_escaped_close x fin\<close>
        show ?thesis by (simp add: unescape_escaped)
      qed
    next
      case False
      then have "\<not> ds4_tool_text_escaped_close (c # s @ y) fin" "\<not> ds4_tool_text_escaped_close (c # s) fin" using iff Cons by simp_all
      with less.hyps [of s] cut_ok_drop [OF less.prems, of 1] Cons show ?thesis by (simp add: unescape_plain)
    qed
  qed simp
qed

section \<open>The safe length\<close>

lemma last_index_Some:
  "last_index c s lo hi = Some i \<longleftrightarrow> lo \<le> i \<and> i < hi \<and> s ! i = c \<and> (\<forall>j. i < j \<and> j < hi \<longrightarrow> s ! j \<noteq> c)"
proof (induction c s lo hi rule: last_index.induct)
  case (2 c s lo i')
  then show ?case by (auto simp: less_Suc_eq)
qed simp

lemma last_index_None: "last_index c s lo hi = None \<longleftrightarrow> (\<forall>j. lo \<le> j \<and> j < hi \<longrightarrow> s ! j \<noteq> c)"
proof (induction c s lo hi rule: last_index.induct)
  case (2 c s lo i)
  show ?case
  proof (cases "s ! i = c \<and> lo \<le> i")
    case True
    then show ?thesis by (auto intro!: exI [of _ i])
  next
    case False
    with 2 show ?thesis by (auto simp: less_Suc_eq not_less_eq_eq)
  qed
qed simp

lemma utf8_cont_high: "utf8_cont c \<Longrightarrow> 0x80 \<le> c"
proof -
  assume c: "utf8_cont c"
  have "list_all (\<lambda>i. utf8_cont (of_nat i) \<longrightarrow> 0x80 \<le> (of_nat i :: u8)) [0..<256]" by code_simp
  moreover have "unat c < 256" using unsigned_less [of c] by simp
  ultimately have "utf8_cont (of_nat (unat c)) \<longrightarrow> 0x80 \<le> (of_nat (unat c) :: u8)"
    unfolding list_all_iff by (metis atLeast_upt lessThan_iff)
  with c show ?thesis by simp
qed

lemma utf8_step_back_cont: "utf8_step_back s start p k \<le> i \<Longrightarrow> i < p \<Longrightarrow> utf8_cont (s ! i)"
proof (induction s start p k rule: utf8_step_back.induct)
  case (1 s start p k)
  show ?case
  proof (cases "start < p \<and> k < 4 \<and> utf8_cont (s ! (p - 1))")
    case True
    with 1 show ?thesis by (cases "i = p - 1") (auto simp: utf8_step_back.simps [of s start p k])
  next
    case False
    with "1.prems" show ?thesis unfolding utf8_step_back.simps [of s start p k] if_not_P [OF False] by simp
  qed
qed

text \<open>Only bytes of an unfinished character are held back.\<close>

lemma utf8_held:
  assumes "start \<le> limit"
  shows "start \<le> utf8_stream_safe_len (Some s) start limit False" and
    "utf8_stream_safe_len (Some s) start limit False \<le> i \<Longrightarrow> i < limit \<Longrightarrow> 0x80 \<le> s ! i"
proof -
  define p where "p = utf8_step_back s start limit 0"
  have p: "start \<le> p" "p \<le> limit" using utf8_step_back_bounds [of s start limit 0] assms by (simp_all add: p_def)
  have safe: "utf8_stream_safe_len (Some s) start limit False =
      (if limit \<le> start then limit
       else if p = limit then (if 1 < utf8_expected_len (s ! (limit - 1)) then limit - 1 else limit)
       else if p = start \<and> utf8_cont (s ! p) then start
       else if limit - (p - 1) < utf8_expected_len (s ! (p - 1)) then p - 1 else limit)"
    by (simp only: utf8_stream_safe_len_def option.case Let_def p_def simp_thms)
  have cont: "utf8_cont (s ! j)" if "p \<le> j" "j < limit" for j using that utf8_step_back_cont unfolding p_def by blast
  have lead: "0x80 \<le> s ! j" if "1 < utf8_expected_len (s ! j)" for j
    using that by (auto simp: utf8_expected_len_def word_less_nat_alt word_le_nat_alt split: if_splits)
  have pos: "start < p" if "start \<noteq> p \<or> \<not> utf8_cont (s ! p)" "p < limit" using that cont [of p] p by fastforce
  show "start \<le> utf8_stream_safe_len (Some s) start limit False"
    using assms p pos unfolding safe by (cases "start = p") auto
  assume i: "utf8_stream_safe_len (Some s) start limit False \<le> i" "i < limit"
  show "0x80 \<le> s ! i"
  proof (cases "p \<le> i")
    case True
    then show ?thesis using cont i(2) utf8_cont_high by blast
  next
    case False
    then have ip: "i < p" by simp
    have ls: "\<not> limit \<le> start" using i unfolding safe by (auto split: if_splits)
    show ?thesis
    proof (cases "p = limit")
      case True
      then have "1 < utf8_expected_len (s ! (limit - 1))" "limit - 1 \<le> i" using i ls unfolding safe by (simp_all split: if_splits)
      then show ?thesis using lead [of "limit - 1"] i(2) by (cases "i = limit - 1") auto
    next
      case False
      then have "\<not> (p = start \<and> utf8_cont (s ! p))" using i(1) ls ip unfolding safe by (auto split: if_splits)
      then have "limit - (p - 1) < utf8_expected_len (s ! (p - 1)) \<and> p - 1 \<le> i"
        using False i ls unfolding safe by (simp split: if_splits)
      then show ?thesis using lead [of "p - 1"] ip i(2) by (cases "i = p - 1") auto
    qed
  qed
qed

text \<open>A proper part of an escape is recognised as one.\<close>

lemma partial_complete:
  assumes e: "w @ y = amps k @ lt_text @ tl fin @ r" and short: "length w < length (amps k @ lt_text @ tl fin)"
  shows "ds4_tool_text_partial_escape (amp # w) fin"
proof -
  obtain j where w: "w = amps j @ skip_amps w" and stop: "\<not> starts (skip_amps w) amp_text" using skip_amps_shape by blast
  define v where "v = skip_amps w"
  have "amps j @ v @ y = amps k @ lt_text @ tl fin @ r" using e w by (metis append_assoc v_def)
  then have jk: "j \<le> k \<and> v @ y = amps (k - j) @ lt_text @ tl fin @ r"
  proof (induction j arbitrary: k)
    case (Suc j)
    show ?case
    proof (cases k)
      case 0
      with Suc.prems show ?thesis by (simp add: lt_text_def amp_text_def)
    next
      case (Suc k')
      with Suc.prems Suc.IH [of k'] show ?thesis by simp
    qed
  qed simp
  have lv: "length v < length (amps (k - j) @ lt_text @ tl fin)"
  proof -
    have "length w = 4 * j + length v" using arg_cong [OF w, of length] by (simp add: v_def length_concat comp_def sum_list_replicate amp_text_def)
    then show ?thesis using short jk by (simp add: length_concat comp_def sum_list_replicate amp_text_def)
  qed
  show ?thesis
  proof (cases "k - j")
    case (Suc m)
    then have vy: "v @ y = amp_text @ amps m @ lt_text @ tl fin @ r" using jk by simp
    have "length v < 4"
    proof (rule ccontr)
      assume "\<not> length v < 4"
      then have "take 4 v = amp_text" using arg_cong [OF vy, of "take 4"] by (simp add: amp_text_def)
      with stop show False by (simp add: starts_def v_def chars(6))
    qed
    moreover have "v = take (length v) amp_text"
      using arg_cong [OF vy, of "take (length v)"] \<open>length v < 4\<close> by (simp add: chars(6))
    ultimately show ?thesis by (simp add: ds4_tool_text_partial_escape_def v_def [symmetric])
  next
    case 0
    then have vy: "v @ y = lt_text @ tl fin @ r" using jk by simp
    show ?thesis
    proof (cases "length v < 3")
      case True
      then have "v = take (length v) lt_text" using arg_cong [OF vy, of "take (length v)"] True by (simp add: chars(7))
      with True show ?thesis by (simp add: ds4_tool_text_partial_escape_def v_def [symmetric] Let_def)
    next
      case False
      then have t: "take 3 v = lt_text" "drop 3 v @ y = tl fin @ r"
        using arg_cong [OF vy, of "take 3"] arg_cong [OF vy, of "drop 3"] by (simp_all add: lt_text_def)
      have l: "length (drop 3 v) < length (tl fin)" using lv 0 False by (simp add: lt_text_def)
      then have "drop 3 v = take (length (drop 3 v)) (tl fin)"
        using arg_cong [OF t(2), of "take (length (drop 3 v))"] by simp
      with False t(1) l show ?thesis by (simp add: ds4_tool_text_partial_escape_def v_def [symmetric] Let_def)
    qed
  qed
qed

text \<open>The steps of the safe length.\<close>

lemma safe_len_steps:
  obtains lim lim2 where "lim \<le> n"
    and "\<And>i. last_index lt raw (if start + length fin < n then n - length fin else start) n = Some i \<Longrightarrow>
      n - i < length fin \<Longrightarrow> take (n - i) (drop i raw) = take (n - i) fin \<Longrightarrow> lim = i"
    and "start \<le> n \<Longrightarrow> start \<le> lim"
    and "lim2 = (case last_index amp raw start lim of None \<Rightarrow> lim
      | Some i \<Rightarrow> if ds4_tool_text_partial_escape (take (lim - i) (drop i raw)) fin then i else lim)"
    and "tool_param_value_stream_safe_len raw start n fin True = utf8_stream_safe_len (Some raw) start lim2 False"
proof -
  let ?scan = "if start + length fin < n then n - length fin else start"
  define lim where "lim = (case last_index lt raw ?scan n of None \<Rightarrow> n
    | Some i \<Rightarrow> if n - i < length fin \<and> take (n - i) (drop i raw) = take (n - i) fin then i else n)"
  define lim2 where "lim2 = (case last_index amp raw start lim of None \<Rightarrow> lim
    | Some i \<Rightarrow> if ds4_tool_text_partial_escape (take (lim - i) (drop i raw)) fin then i else lim)"
  have "lim \<le> n" by (auto simp: lim_def last_index_Some split: option.split)
  moreover have "start \<le> lim" if "start \<le> n"
  proof (cases "last_index lt raw ?scan n")
    case (Some i)
    then have "?scan \<le> i" unfolding last_index_Some by blast
    then have "start \<le> i" by (cases "start + length fin < n") simp_all
    then show ?thesis using that Some by (simp add: lim_def)
  qed (use that in \<open>simp add: lim_def\<close>)
  moreover have "lim = i" if "last_index lt raw ?scan n = Some i" "n - i < length fin"
      "take (n - i) (drop i raw) = take (n - i) fin" for i
    using that unfolding lim_def by simp
  moreover have "tool_param_value_stream_safe_len raw start n fin True = utf8_stream_safe_len (Some raw) start lim2 False"
    unfolding tool_param_value_stream_safe_len_def Let_def lim2_def lim_def by simp
  ultimately show thesis using that [of lim lim2] lim2_def by blast
qed

lemma safe_cut:
  assumes d: "delimiter fin" and n: "start \<le> n" "n \<le> length raw"
    and l: "l = tool_param_value_stream_safe_len raw start n fin True"
  shows "start \<le> l" and "l \<le> n" and "cut_ok fin (take (l - start) (drop start raw)) (drop l raw)"
proof -
  obtain lim lim2 where lim: "lim \<le> n" "start \<le> lim"
    and lim2: "lim2 = (case last_index amp raw start lim of None \<Rightarrow> lim
      | Some i \<Rightarrow> if ds4_tool_text_partial_escape (take (lim - i) (drop i raw)) fin then i else lim)"
    and ll: "l = utf8_stream_safe_len (Some raw) start lim2 False"
  proof (rule safe_len_steps [of n raw start fin])
    fix lim lim2
    assume "lim \<le> n" "start \<le> n \<Longrightarrow> start \<le> lim"
      "lim2 = (case last_index amp raw start lim of None \<Rightarrow> lim
        | Some i \<Rightarrow> if ds4_tool_text_partial_escape (take (lim - i) (drop i raw)) fin then i else lim)"
      "tool_param_value_stream_safe_len raw start n fin True = utf8_stream_safe_len (Some raw) start lim2 False"
    with n(1) l show thesis by (intro that) simp_all
  qed
  have s2: "start \<le> lim2" "lim2 \<le> lim"
    using lim(2) unfolding lim2 by (auto simp: last_index_Some split: option.split)
  show sl: "start \<le> l" unfolding ll by (rule utf8_held [OF s2(1)])
  have l2: "l \<le> lim2" unfolding ll by (rule utf8_stream_safe_len_le)
  then show "l \<le> n" using s2 lim by simp
  show "cut_ok fin (take (l - start) (drop start raw)) (drop l raw)" unfolding cut_ok_def
  proof (intro allI impI)
    fix i assume i: "i < length (take (l - start) (drop start raw))"
      and e: "ds4_tool_text_escaped_close (drop i (take (l - start) (drop start raw)) @ drop l raw) fin"
    define p where "p = start + i"
    have p: "start \<le> p" "p < l" "l \<le> length raw" using i \<open>l \<le> n\<close> n sl by (simp_all add: p_def)
    have x: "drop i (take (l - start) (drop start raw)) = take (l - p) (drop p raw)"
      by (simp add: p_def drop_take add.commute)
    have "take (l - p) (drop p raw) @ drop l raw = drop p raw"
      using p append_take_drop_id [of "l - p" "drop p raw"] by simp
    with e x have "ds4_tool_text_escaped_close (drop p raw) fin" by simp
    then obtain k r where r: "drop p raw = amp # (amps k @ lt_text @ tl fin) @ r" by (auto simp: escaped_iff)
    define M where "M = amp # amps k @ lt_text @ tl fin"
    have M: "drop p raw = M @ r" using r by (simp add: M_def)
    have rawM: "raw ! (p + j) = M ! j" if "j < length M" for j
      using arg_cong [OF M, of "\<lambda>xs. xs ! j"] that p by (simp add: nth_append)
    have noamp: "raw ! q \<noteq> amp" if "p < q" "q < p + length M" for q
    proof -
      define j where "j = q - Suc p"
      have j: "q = p + Suc j" "Suc j < length M" using that by (simp_all add: j_def)
      have "tl M ! j \<in> set (tl M)" using j(2) by (intro nth_mem) simp
      moreover have "amp \<notin> set (tl M)" using d amps_plain chars by (simp add: M_def delimiter_def)
      moreover have "raw ! q = tl M ! j" using rawM [OF j(2)] j by (simp add: M_def)
      ultimately show ?thesis by auto
    qed
    have pa: "raw ! p = amp" using rawM [of 0] by (simp add: M_def)
    have inside: "p + length M \<le> lim2"
    proof -
      have "last_index amp raw start lim \<noteq> None" using p pa l2 s2 by (auto simp: last_index_None)
      then obtain q where q: "last_index amp raw start lim = Some q" by blast
      then have q': "q < lim" "raw ! q = amp" "\<forall>j. q < j \<and> j < lim \<longrightarrow> raw ! j \<noteq> amp" by (auto simp: last_index_Some)
      have "p \<le> q" using q'(3) pa p l2 s2 by (metis less_le_trans not_le)
      show ?thesis
      proof (cases "p = q")
        case False
        then have "p + length M \<le> q" using noamp [of q] q'(2) \<open>p \<le> q\<close> by (metis le_neq_implies_less not_le)
        then show ?thesis unfolding lim2 q by simp (use q'(1) in simp)
      next
        case True
        have np: "\<not> ds4_tool_text_partial_escape (take (lim - q) (drop q raw)) fin" using p l2 True unfolding lim2 q by auto
        then have "lim2 = lim" unfolding lim2 q by simp
        moreover have "length M \<le> lim - p"
        proof (rule ccontr)
          assume short: "\<not> length M \<le> lim - p"
          obtain m where m: "lim - p = Suc m" using p(2) l2 s2(2) by (cases "lim - p") simp_all
          define w where "w = take m (tl M)"
          have "take (lim - q) (drop q raw) = amp # w" using M True short m by (simp add: w_def M_def)
          moreover have "w @ drop m (tl M) = amps k @ lt_text @ tl fin @ []"
            unfolding w_def append_take_drop_id by (simp add: M_def)
          moreover have "length w < length (amps k @ lt_text @ tl fin)" using short m by (simp add: w_def M_def)
          ultimately show False using partial_complete np by metis
        qed
        ultimately show ?thesis using p l2 s2 by simp
      qed
    qed
    have "last M = last fin" using d by (cases fin) (auto simp: M_def delimiter_def)
    moreover have ne: "M \<noteq> []" by (simp add: M_def)
    then have "raw ! (p + (length M - 1)) = last M" using rawM [of "length M - 1"] by (simp add: last_conv_nth)
    moreover have "p + length M - 1 = p + (length M - 1)" using ne by (cases M) simp_all
    ultimately have "raw ! (p + length M - 1) < 0x80" using d by (simp add: delimiter_def)
    then have "p + length M - 1 < l" using utf8_held(2) [OF s2(1), of raw "p + length M - 1"] inside
      unfolding ll by (cases "p + length M - 1 < l") (auto simp: M_def not_less ll)
    then have "length M \<le> l - p" by simp
    then have "take (l - p) (drop p raw) = M @ take (l - p - length M) r" unfolding M by simp
    then show "ds4_tool_text_escaped_close (drop i (take (l - start) (drop start raw))) fin"
      unfolding x escaped_iff M_def by auto
  qed
qed

section \<open>The value as it is streamed\<close>

lemma body_found:
  assumes d: "delimiter fin" and raw: "raw = esc fin s @ fin @ rest" and p: "p = length (esc fin s)"
    and n: "start \<le> p" "start < n" "n \<le> length raw"
  shows "find_lit_bounded (take (n - start) (drop start raw)) fin = (if p + length fin \<le> n then Some (p - start) else None)"
proof -
  have occ: "p \<le> start + i \<and> p + length fin \<le> n"
    if o: "take (length fin) (drop i (take (n - start) (drop start raw))) = fin" for i
  proof -
    have x: "drop i (take (n - start) (drop start raw)) = take (n - start - i) (drop (start + i) raw)"
      by (simp add: drop_take add.commute)
    have "take (length fin) (drop (start + i) raw) = fin" "length fin \<le> n - start - i"
      using o arg_cong [OF o, of length] unfolding x by (auto simp: min_def split: if_splits)
    moreover have "p \<le> start + i"
    proof (rule ccontr)
      assume "\<not> p \<le> start + i"
      then have "\<not> starts (drop (start + i) raw) fin" using esc_first [OF d, of "start + i" s rest] p raw by simp
      with \<open>take (length fin) (drop (start + i) raw) = fin\<close> show False by (simp add: starts_def)
    qed
    moreover have "fin \<noteq> []" using d by (simp add: delimiter_def)
    ultimately show ?thesis by (cases "length fin") simp_all
  qed
  show ?thesis
  proof (cases "p + length fin \<le> n")
    case True
    have "take (length fin) (drop (p - start) (take (n - start) (drop start raw))) = fin"
      using True n raw p by (simp add: drop_take min_def)
    moreover have "take (length fin) (drop i (take (n - start) (drop start raw))) \<noteq> fin" if "i < p - start" for i
      using occ [of i] that by auto
    moreover have "p - start \<le> length (take (n - start) (drop start raw))" using True n by simp
    ultimately have "strstr (take (n - start) (drop start raw)) fin = Some (p - start)" unfolding strstr_Some by blast
    with True show ?thesis by (simp add: find_lit_bounded_def)
  next
    case False
    then have "strstr (take (n - start) (drop start raw)) fin = None" unfolding strstr_None using occ by blast
    with False show ?thesis by (simp add: find_lit_bounded_def)
  qed
qed

lemma body_not_passed:
  assumes d: "delimiter fin" and raw: "raw = esc fin s @ fin @ rest" and p: "p = length (esc fin s)"
    and n: "start \<le> p" "start < n" "n < p + length fin"
  shows "tool_param_value_stream_safe_len raw start n fin True \<le> p"
proof -
  let ?scan = "if start + length fin < n then n - length fin else start"
  obtain lim lim2 where lim: "lim \<le> n"
      "\<And>i. last_index lt raw ?scan n = Some i \<Longrightarrow>
        n - i < length fin \<Longrightarrow> take (n - i) (drop i raw) = take (n - i) fin \<Longrightarrow> lim = i"
      "start \<le> n \<Longrightarrow> start \<le> lim"
    and lim2: "lim2 = (case last_index amp raw start lim of None \<Rightarrow> lim
      | Some i \<Rightarrow> if ds4_tool_text_partial_escape (take (lim - i) (drop i raw)) fin then i else lim)"
    and safe: "tool_param_value_stream_safe_len raw start n fin True = utf8_stream_safe_len (Some raw) start lim2 False"
    by (rule safe_len_steps [of n raw start fin]) (rule that)
  have "lim2 \<le> lim" unfolding lim2 by (auto simp: last_index_Some split: option.split)
  moreover have "utf8_stream_safe_len (Some raw) start lim2 False \<le> lim2" by (rule utf8_stream_safe_len_le)
  moreover have "lim \<le> p"
  proof (cases "n \<le> p")
    case False
    have at: "raw ! (p + j) = fin ! j" if "j < length fin" for j using raw p that by (simp add: nth_append)
    have "last_index lt raw ?scan n = Some p"
    proof -
      have "raw ! p = lt" using at [of 0] d by (cases fin) (auto simp: delimiter_def)
      moreover have "raw ! j \<noteq> lt" if j: "p < j" "j < n" for j
      proof -
        have "j - Suc p < length (tl fin)" using j n(3) by simp
        then have "tl fin ! (j - Suc p) \<in> set (tl fin)" by simp
        moreover have "raw ! j = tl fin ! (j - Suc p)"
          using at [of "j - p"] j n(3) by (simp add: nth_tl Suc_diff_Suc)
        ultimately show ?thesis using d by (auto simp: delimiter_def)
      qed
      moreover have "?scan \<le> p" using n by auto
      ultimately show ?thesis using False unfolding last_index_Some by simp
    qed
    moreover have "n - p < length fin" using n(3) False by simp
    moreover have "take (n - p) (drop p raw) = take (n - p) fin" using raw p \<open>n - p < length fin\<close> by simp
    ultimately show ?thesis using lim(2) [of p] by simp
  qed (use lim(1) in simp)
  ultimately show ?thesis unfolding safe by simp
qed

lemma json_escape_fragment_append: "json_escape_fragment_n (x @ y) = json_escape_fragment_n x @ json_escape_fragment_n y"
  by (simp add: json_escape_fragment_n_def)

lemma emit_nothing [simp]: "openai_tool_emit_string_value [] fin = []"
  by (simp add: openai_tool_emit_string_value_def json_escape_fragment_n_def)

text \<open>One fragment moves the border between what was sent and what is left.\<close>

lemma body_step:
  assumes d: "delimiter fin" and raw: "raw = esc fin s @ fin @ rest" and p: "p = length (esc fin s)"
    and n: "start \<le> p" "start < n" "n < p + length fin" and l: "l = tool_param_value_stream_safe_len raw start n fin True"
  shows "start \<le> l" and "l \<le> p" and "ds4_tool_text_unescape (drop start (esc fin s)) fin =
    ds4_tool_text_unescape (take (l - start) (drop start raw)) fin @ ds4_tool_text_unescape (drop l (esc fin s)) fin"
proof -
  have "start \<le> n" "n \<le> length raw" using n raw p by simp_all
  note cut = safe_cut [OF d this l]
  show sl: "start \<le> l" by (rule cut(1))
  show lp: "l \<le> p" unfolding l by (rule body_not_passed [OF d raw p n])
  have x: "take (l - start) (drop start raw) = take (l - start) (drop start (esc fin s))" using raw p lp n by simp
  have "drop start (esc fin s) = take (l - start) (drop start (esc fin s)) @ drop l (esc fin s)"
    using append_take_drop_id [of "l - start" "drop start (esc fin s)"] sl by simp
  moreover have "cut_ok fin (take (l - start) (drop start (esc fin s))) (drop l (esc fin s))"
  proof -
    have "drop l raw = drop l (esc fin s) @ fin @ rest" using raw p lp by simp
    with cut(3) x show ?thesis unfolding cut_ok_def by (metis append_assoc escaped_more)
  qed
  ultimately show "ds4_tool_text_unescape (drop start (esc fin s)) fin =
      ds4_tool_text_unescape (take (l - start) (drop start raw)) fin @ ds4_tool_text_unescape (drop l (esc fin s)) fin"
    unfolding x using unescape_append by metis
qed

lemma body_streamed:
  assumes d: "delimiter fin" and raw: "raw = esc fin s @ fin @ rest" and p: "p = length (esc fin s)"
  shows "start \<le> p \<Longrightarrow> s = sent @ ds4_tool_text_unescape (drop start (esc fin s)) fin \<Longrightarrow> \<forall>n \<in> set ns. n \<le> length raw \<Longrightarrow>
    (if \<exists>n \<in> set ns. p + length fin \<le> n
     then tool_value_stream raw fin ns start (json_escape_fragment_n sent) = (json_escape_fragment_n s @ [0x22], p + length fin, True)
     else \<exists>l u v. l \<le> p \<and> s = u @ v \<and>
       tool_value_stream raw fin ns start (json_escape_fragment_n sent) = (json_escape_fragment_n u, l, False))"
proof (induction ns arbitrary: start sent)
  case (Cons n ns)
  have fp: "0 < length fin" using d by (simp add: delimiter_def)
  show ?case
  proof (cases "start < n")
    case False
    then have "\<not> p + length fin \<le> n" using Cons.prems(1) fp by linarith
    then have cond: "(\<exists>m \<in> set (n # ns). p + length fin \<le> m) = (\<exists>m \<in> set ns. p + length fin \<le> m)" by (simp only: list.set bex_simps simp_thms)
    have eq: "tool_value_stream raw fin (n # ns) start out = tool_value_stream raw fin ns start out" for out using False by simp
    have "\<forall>n \<in> set ns. n \<le> length raw" using Cons.prems(3) by simp
    from Cons.IH [OF Cons.prems(1,2) this] show ?thesis unfolding cond eq .
  next
    case True
    have nl: "n \<le> length raw" using Cons.prems(3) by simp
    note found = body_found [OF d raw p Cons.prems(1) True nl]
    show ?thesis
    proof (cases "p + length fin \<le> n")
      case at: True
      have "take (p - start) (drop start raw) = drop start (esc fin s)" using raw p Cons.prems(1) by simp
      then have "json_escape_fragment_n sent @ openai_tool_emit_string_value (take (p - start) (drop start raw)) fin =
          json_escape_fragment_n s"
        using Cons.prems(2) by (metis json_escape_fragment_append openai_tool_emit_string_value_def)
      then have "openai_tool_finish_param raw fin start p (json_escape_fragment_n sent) = (json_escape_fragment_n s @ [0x22], p + length fin)"
        using Cons.prems(1) by (cases "start = p") (simp_all add: openai_tool_finish_param_def emit_nothing)
      with at True found Cons.prems(1) show ?thesis by simp
    next
      case False
      define l where "l = tool_param_value_stream_safe_len raw start n fin True"
      define x where "x = ds4_tool_text_unescape (take (l - start) (drop start raw)) fin"
      note step = body_step [OF d raw p Cons.prems(1) True _ l_def] False
      have "s = (sent @ x) @ ds4_tool_text_unescape (drop l (esc fin s)) fin" "l \<le> p"
        using step Cons.prems(2) by (simp_all add: x_def)
      note ih = Cons.IH [OF this(2,1)]
      have "tool_value_stream raw fin (n # ns) start (json_escape_fragment_n sent) =
          tool_value_stream raw fin ns l (json_escape_fragment_n (sent @ x))"
        using True False found step(1) emit_nothing [of fin]
        by (cases "l = start") (simp_all add: l_def x_def openai_tool_emit_string_value_def json_escape_fragment_append Let_def)
      moreover have "(\<exists>m \<in> set (n # ns). p + length fin \<le> m) = (\<exists>m \<in> set ns. p + length fin \<le> m)"
        using False by (simp only: list.set bex_simps simp_thms)
      moreover have "\<forall>n \<in> set ns. n \<le> length raw" using Cons.prems(3) by simp
      ultimately show ?thesis using ih by (simp only:)
    qed
  qed
qed auto



end
