(* ===== verification/Tool_Results.thy ===== *)
theory Tool_Results
  imports Tool_Text
begin

text \<open>
  Tool results in the Messages protocol (ds4_server.c): the parser appends the blocks of a message to one content
  string, each result escaped inside its wrapper, and the GLM and Qwen renderers read the results back out of that
  string. \<open>open_tag\<close> and \<open>close_tag\<close> are the wrapper's two tags.
\<close>

section \<open>Parsing and rendering\<close>

datatype content_part = Text_part "u8 list" | Result_part "u8 list"

definition tool_result_start :: "u8 list" where "tool_result_start = ascii ''<tool_result>''"
definition tool_response_start :: "u8 list" where "tool_response_start = ascii ''<tool_response>''"
definition newline :: "u8 list" where "newline = [0x0A]"
definition role_user :: "u8 list" where "role_user = ascii ''user''"

text \<open>One block at the end of the content, as the parser of content blocks appends it.\<close>

fun append_content_part :: "u8 list \<Rightarrow> content_part \<Rightarrow> u8 list" where
  "append_content_part content (Text_part t) = content @ t"
| "append_content_part content (Result_part s) = append_tool_result_text (content @ tool_result_start) s @ tool_result_end"

definition append_glm_tool_response :: "u8 list \<Rightarrow> u8 list \<Rightarrow> u8 list" where
  "append_glm_tool_response b body = append_glm_tool_response_text (b @ tool_response_start) body @ tool_response_end"

definition append_qwen_tool_response :: "u8 list \<Rightarrow> u8 list \<Rightarrow> u8 list" where
  "append_qwen_tool_response b body =
     append_glm_tag_body_text (b @ newline @ tool_response_start @ newline) body tool_response_end @ newline @ tool_response_end"

lemma tool_result_start_length: "length tool_result_start = 13"
  by code_simp

text \<open>The loop over the wrapped results; the flag is \<open>found\<close>.\<close>

function tool_result_loop :: "(u8 list \<Rightarrow> u8 list \<Rightarrow> u8 list) \<Rightarrow> u8 list \<Rightarrow> u8 list \<Rightarrow> bool \<Rightarrow> u8 list \<times> bool" where
  "tool_result_loop respond b p found =
     (case strstr p tool_result_start of
        None \<Rightarrow> (b, found)
      | Some q \<Rightarrow>
          let body = drop (q + length tool_result_start) p in
          case strstr body tool_result_end of
            None \<Rightarrow> (b, found)
          | Some e \<Rightarrow> tool_result_loop respond (respond b (take e body)) (drop (e + length tool_result_end) body) True)"
  by pat_completeness auto

termination
proof (relation "measure (\<lambda>(respond, b, p, found). length p)")
  fix respond :: "u8 list \<Rightarrow> u8 list \<Rightarrow> u8 list" and b p :: "u8 list" and found :: bool and q body e
  assume q: "strstr p tool_result_start = Some q" and body: "body = drop (q + length tool_result_start) p"
  have "length (take (length tool_result_start) (drop q p)) = length tool_result_start" using q by (simp only: strstr_Some)
  then have "p \<noteq> []" by (intro notI) (simp add: tool_result_start_length)
  then show "((respond, respond b (take e body), drop (e + length tool_result_end) body, True), respond, b, p, found)
      \<in> measure (\<lambda>(respond, b, p, found). length p)"
    by (cases p) (simp_all add: body tool_result_start_length)
qed simp

declare tool_result_loop.simps [simp del]

definition append_glm_tool_result_message :: "u8 list \<Rightarrow> u8 list \<Rightarrow> nat \<Rightarrow> u8 list \<Rightarrow> u8 list" where
  "append_glm_tool_result_message b role tool_call_ids_len content =
     (if role = role_user \<and> 0 < tool_call_ids_len
      then let (b, found) = tool_result_loop append_glm_tool_response b content False in
           if found then b else append_glm_tool_response b content
      else append_glm_tool_response b content)"

definition append_qwen_tool_result_message :: "u8 list \<Rightarrow> u8 list \<Rightarrow> nat \<Rightarrow> u8 list \<Rightarrow> u8 list" where
  "append_qwen_tool_result_message b role tool_call_ids_len content =
     (if role = role_user \<and> 0 < tool_call_ids_len
      then let (b, found) = tool_result_loop append_qwen_tool_response b content False in
           if found then b else append_qwen_tool_response b content
      else append_qwen_tool_response b content)"

section \<open>The results are found again\<close>

text \<open>Behind a text without the opening tag the tag is found at once: it starts with the only bracket it has.\<close>

lemma open_tag_found:
  assumes t: "strstr t tool_result_start = None"
  shows "strstr (t @ tool_result_start @ r) tool_result_start = Some (length t)"
proof -
  obtain T where T: "tool_result_start = lt # T" "lt \<notin> set T" by (rule that [of "tl tool_result_start"]) code_simp+
  have "take (length tool_result_start) (drop i (t @ tool_result_start @ r)) \<noteq> tool_result_start" if i: "i < length t" for i
  proof
    assume o: "take (length tool_result_start) (drop i (t @ tool_result_start @ r)) = tool_result_start"
    show False
    proof (cases "length tool_result_start \<le> length t - i")
      case True
      then have "take (length tool_result_start) (drop i t) = tool_result_start" using o i by simp
      with t i show False by (auto simp: strstr_None)
    next
      case False
      define k where "k = length t - i"
      have k: "0 < k" "k < length tool_result_start" using False i by (simp_all add: k_def)
      have "tool_result_start ! k = (t @ tool_result_start @ r) ! (i + k)"
        using arg_cong [OF o, of "\<lambda>xs. xs ! k"] k i by (simp del: drop_append take_append)
      also have "\<dots> = lt" using i by (simp add: k_def nth_append T(1))
      finally have "T ! (k - 1) = lt" using k(1) unfolding T(1) by (cases k) simp_all
      moreover have "T ! (k - 1) \<in> set T" using k unfolding T(1) by (intro nth_mem) auto
      ultimately show False using T(2) by simp
    qed
  qed
  then show ?thesis by (simp add: strstr_Some)
qed

abbreviation message_parts :: "(u8 list \<times> u8 list) list \<Rightarrow> u8 list \<Rightarrow> content_part list" where
  "message_parts xs rest \<equiv> concat (map (\<lambda>(t, s). [Text_part t, Result_part s]) xs) @ [Text_part rest]"

text \<open>A message of texts and results as one string.\<close>

lemma message_content:
  "foldl append_content_part c (message_parts xs rest) =
    c @ concat (map (\<lambda>(t, s). t @ tool_result_start @ esc tool_result_end s @ tool_result_end) xs) @ rest"
  by (induction xs arbitrary: c) (auto simp: append_tool_result_text_def append_esc)

lemma tool_result_loop_exact:
  assumes f: "\<And>b x. respond b x = b @ g x"
  shows "\<forall>(t, s) \<in> set xs. strstr t tool_result_start = None \<Longrightarrow> strstr rest tool_result_start = None \<Longrightarrow>
    tool_result_loop respond b (concat (map (\<lambda>(t, s). t @ tool_result_start @ esc tool_result_end s @ tool_result_end) xs) @ rest) found =
    (b @ concat (map (\<lambda>(t, s). g (esc tool_result_end s)) xs), found \<or> xs \<noteq> [])"
proof (induction xs arbitrary: b found)
  case Nil
  then show ?case by (subst tool_result_loop.simps) simp
next
  case (Cons x xs)
  obtain t s where x: "x = (t, s)" by (cases x)
  let ?r = "concat (map (\<lambda>(t, s). t @ tool_result_start @ esc tool_result_end s @ tool_result_end) xs) @ rest"
  have d: "delimiter tool_result_end" using delimiters by simp
  have "strstr t tool_result_start = None" using Cons.prems(1) x by simp
  note op = open_tag_found [OF this, of "esc tool_result_end s @ tool_result_end @ ?r"]
  note close = esc_found [OF d, of s ?r]
  have rest: "\<forall>(t, s) \<in> set xs. strstr t tool_result_start = None" using Cons.prems(1) by simp
  have "tool_result_loop respond b (t @ tool_result_start @ esc tool_result_end s @ tool_result_end @ ?r) found =
      tool_result_loop respond (respond b (esc tool_result_end s)) ?r True"
    by (subst tool_result_loop.simps) (simp add: op close)
  also have "\<dots> = (b @ g (esc tool_result_end s) @ concat (map (\<lambda>(t, s). g (esc tool_result_end s)) xs), True)"
    using Cons.IH [OF rest Cons.prems(2), of "respond b (esc tool_result_end s)" True] unfolding f [of b] by simp
  finally show ?case by (simp add: x)
qed

lemma glm_response: "append_glm_tool_response b x = b @ append_glm_tool_response [] x"
  by (simp add: append_glm_tool_response_def append_glm_tool_response_text_def append_esc)

lemma qwen_response: "append_qwen_tool_response b x = b @ append_qwen_tool_response [] x"
  by (simp add: append_qwen_tool_response_def append_esc)

text \<open>C11. The results of a message reach the prompt one by one, in order. A user message of the Messages protocol is
  parsed from texts and tool results, no text holds the opening tag of a result itself. Then both renderers write
  exactly one response per result whatever the results contain, each around the text the parser wrapped (it is not
  unescaped in between), and nothing of the texts between the results.\<close>

theorem tool_results_rendered:
  assumes "content = foldl append_content_part [] (message_parts xs rest)" and "0 < n" and "xs \<noteq> []"
    and "\<forall>(t, s) \<in> set xs. strstr t tool_result_start = None" and "strstr rest tool_result_start = None"
  shows "append_glm_tool_result_message b role_user n content =
      b @ concat (map (\<lambda>(t, s). append_glm_tool_response [] (append_tool_result_text [] s)) xs) \<and>
    append_qwen_tool_result_message b role_user n content =
      b @ concat (map (\<lambda>(t, s). append_qwen_tool_response [] (append_tool_result_text [] s)) xs)"
  using assms(2,3) tool_result_loop_exact [OF glm_response assms(4,5)] tool_result_loop_exact [OF qwen_response assms(4,5)]
  unfolding assms(1) message_content append_glm_tool_result_message_def append_qwen_tool_result_message_def
    append_tool_result_text_def append_esc
  by simp

theorem tool_results_rendered_witness:
  "append_glm_tool_result_message [] role_user 1
     (foldl append_content_part [] (message_parts [(ascii ''a'', ascii ''x</tool_result>'')] (ascii ''next''))) =
   [] @ concat (map (\<lambda>(t, s). append_glm_tool_response [] (append_tool_result_text [] s)) [(ascii ''a'', ascii ''x</tool_result>'')]) \<and>
   append_qwen_tool_result_message [] role_user 1
     (foldl append_content_part [] (message_parts [(ascii ''a'', ascii ''x</tool_result>'')] (ascii ''next''))) =
   [] @ concat (map (\<lambda>(t, s). append_qwen_tool_response [] (append_tool_result_text [] s)) [(ascii ''a'', ascii ''x</tool_result>'')])"
proof -
  have "strstr (ascii ''a'') tool_result_start = None" "strstr (ascii ''next'') tool_result_start = None" by code_simp+
  then show ?thesis by (intro tool_results_rendered [OF refl]) simp_all
qed

end
